(* ===== verification/GapPrelude.thy ===== *)
theory GapPrelude
  imports Complex_Main "HOL-Library.Word" "HOL-Library.Signed_Division"
begin

text \<open>
  The prelude of the GAP kernel development: the machine types of the modelled build (a 64-bit
  host, so \<open>UInt\<close> and \<open>Int\<close> of \<open>src/src/common.h\<close> are 64 bits wide and \<open>SYS_IS_64_BIT\<close> is
  defined), the error values the kernel raises, a result type with its bind, and the generic facts
  on words, lists and results that the component theories share.
\<close>

unbundle bit_operations_syntax

named_theorems gap_simps \<open>facts that unfold a kernel operation to its meaning\<close>
named_theorems gap_valid \<open>facts stating that an operation returns well-formed objects\<close>

subsection \<open>Machine types\<close>

type_synonym UInt1 = "8 word"
type_synonym UInt4 = "32 word"
type_synonym UInt = "64 word"

text \<open>
  A C expression of type \<open>Int\<close> is an \<open>int\<close> in the model, brought back into range by \<open>wrap_Int\<close>
  wherever the C code converts a wider or an unsigned value.
\<close>

definition wrap_Int :: "int \<Rightarrow> int" where
  "wrap_Int i = sint (word_of_int i :: UInt)"

definition Int_range :: "int set" where
  "Int_range = {- (2 ^ 63) ..< 2 ^ 63}"

lemma wrap_Int_id [simp]: "i \<in> Int_range \<Longrightarrow> wrap_Int i = i"
  by (simp add: wrap_Int_def Int_range_def sint_sbintrunc' signed_take_bit_int_eq_self)

lemma wrap_Int_range [simp]: "wrap_Int i \<in> Int_range"
  using sint_ge [of "word_of_int i :: UInt"] sint_less [of "word_of_int i :: UInt"]
  by (simp add: wrap_Int_def Int_range_def)

lemma sint_UInt_range: "- (2 ^ 63) \<le> sint (w :: UInt)" "sint (w :: UInt) < 2 ^ 63"
  using sint_ge [of w] sint_less [of w] by simp_all

lemma sint_word_of_int_UInt:
  "- (2 ^ 63) \<le> i \<Longrightarrow> i < 2 ^ 63 \<Longrightarrow> sint (word_of_int i :: UInt) = i"
  by (simp add: sint_sbintrunc' signed_take_bit_int_eq_self)

lemma wrap_Int_congruent: "\<exists>k. wrap_Int i = i + k * 2 ^ 64"
proof -
  have "wrap_Int i = (i + 2 ^ 63) mod 2 ^ 64 - 2 ^ 63"
    by (simp add: wrap_Int_def int_word_sint)
  also have "\<dots> = i + (- ((i + 2 ^ 63) div 2 ^ 64)) * 2 ^ 64"
    by (simp add: minus_div_mult_eq_mod [symmetric])
  finally show ?thesis by blast
qed

lemma sint_signed_drop_bit_UInt: "sint (signed_drop_bit n w :: UInt) = sint w div 2 ^ n"
  by (simp add: sint_signed_drop_bit_eq drop_bit_eq_div)

lemma word_of_sint: "sint (w :: UInt) = i \<Longrightarrow> w = word_of_int i"
  by auto

subsection \<open>Errors and results\<close>

text \<open>
  \<open>ErrorMayQuit\<close>, \<open>RequireArgument\<close> and their kin leave the kernel function with a message and do
  not return: the model ends with \<open>Inl\<close> of the message. A \<open>Fail\<close> return is an ordinary value and
  is modelled as \<open>None\<close> of the result's option type.
\<close>

type_synonym 'a result = "string + 'a"

definition rbind :: "'a result \<Rightarrow> ('a \<Rightarrow> 'b result) \<Rightarrow> 'b result" where
  "rbind r f = (case r of Inl e \<Rightarrow> Inl e | Inr x \<Rightarrow> f x)"

lemma rbind_simps [simp]: "rbind (Inl e) f = Inl e" "rbind (Inr x) f = f x"
  by (simp_all add: rbind_def)

lemma rbind_eq_Inr [simp]: "rbind r f = Inr y \<longleftrightarrow> (\<exists>x. r = Inr x \<and> f x = Inr y)"
  by (cases r) auto

lemma rbind_eq_Inl: "rbind r f = Inl e \<longleftrightarrow> r = Inl e \<or> (\<exists>x. r = Inr x \<and> f x = Inl e)"
  by (cases r) auto

lemma rbind_cong [fundef_cong]:
  "r = r' \<Longrightarrow> (\<And>x. r' = Inr x \<Longrightarrow> f x = g x) \<Longrightarrow> rbind r f = rbind r' g"
  by (cases r') auto

end
