(* ===== verification/IntObj.thy ===== *)
theory IntObj
  imports GapPrelude
begin

text \<open>
  Immediate integers, \<open>src/src/intobj.h\<close>. A GAP handle of an immediate integer \<open>i\<close> is the word
  \<open>4 * i + 1\<close>; the two top bits of the word agree (sign and guard bit), which leaves 60 value bits
  and the sign. The arithmetic works on the tagged words themselves and reports overflow; the
  operations here are the word-level definitions of the header, and the lemmas relate them to
  integer arithmetic.
\<close>

definition NR_SMALL_INT_BITS :: nat where
  "NR_SMALL_INT_BITS = 64 - 4"

definition INT_INTOBJ_MIN :: int where
  "INT_INTOBJ_MIN = - (1 * 2 ^ NR_SMALL_INT_BITS)"

definition INT_INTOBJ_MAX :: int where
  "INT_INTOBJ_MAX = 1 * 2 ^ NR_SMALL_INT_BITS - 1"

definition INTOBJ_MIN :: UInt where
  "INTOBJ_MIN = push_bit 2 (word_of_int INT_INTOBJ_MIN) + 0x01"

definition INTOBJ_MAX :: UInt where
  "INTOBJ_MAX = push_bit 2 (word_of_int INT_INTOBJ_MAX) + 0x01"

definition IS_INTOBJ :: "UInt \<Rightarrow> bool" where
  "IS_INTOBJ x \<longleftrightarrow> x AND 0x01 \<noteq> 0"

definition IS_POS_INTOBJ :: "UInt \<Rightarrow> bool" where
  "IS_POS_INTOBJ x \<longleftrightarrow> x AND 0x01 \<noteq> 0 \<and> sint x > 0x01"

definition IS_NONNEG_INTOBJ :: "UInt \<Rightarrow> bool" where
  "IS_NONNEG_INTOBJ x \<longleftrightarrow> x AND 0x01 \<noteq> 0 \<and> sint x > 0"

definition ARE_INTOBJS :: "UInt \<Rightarrow> UInt \<Rightarrow> bool" where
  "ARE_INTOBJS x y \<longleftrightarrow> x AND y AND 0x01 \<noteq> 0"

definition INT_INTOBJ :: "UInt \<Rightarrow> int" where
  "INT_INTOBJ x = sint (signed_drop_bit 2 x)"

definition INTOBJ_INT :: "int \<Rightarrow> UInt" where
  "INTOBJ_INT i = push_bit 2 (word_of_int i) + 0x01"

definition DETECT_INTOBJ_OVERFLOW :: "UInt \<Rightarrow> bool" where
  "DETECT_INTOBJ_OVERFLOW x = (let top_bits = drop_bit (64 - 2) x in top_bits - 1 \<le> 1)"

text \<open>The out-parameter and the flag of the C functions together are an option.\<close>

definition sum_intobjs :: "UInt \<Rightarrow> UInt \<Rightarrow> UInt option" where
  "sum_intobjs l r =
     (let tmp = l + r - 1 in if DETECT_INTOBJ_OVERFLOW tmp then None else Some tmp)"

definition diff_intobjs :: "UInt \<Rightarrow> UInt \<Rightarrow> UInt option" where
  "diff_intobjs l r =
     (let tmp = l - r + 1 in if DETECT_INTOBJ_OVERFLOW tmp then None else Some tmp)"

text \<open>
  \<open>__builtin_mul_overflow\<close> yields the wrapped product and whether the exact signed product left the
  range of \<open>Int\<close>; a null handle reports overflow to \<open>PROD_INTOBJS\<close>.
\<close>

definition builtin_mul_overflow :: "UInt \<Rightarrow> UInt \<Rightarrow> bool \<times> UInt" where
  "builtin_mul_overflow a b = (sint a * sint b \<notin> Int_range, a * b)"

definition prod_intobjs :: "UInt \<Rightarrow> UInt \<Rightarrow> UInt" where
  "prod_intobjs l r =
     (let (ovf, prod) = builtin_mul_overflow (signed_drop_bit 1 l) (r XOR 1) in
      if ovf then 0 else signed_drop_bit 1 prod XOR 1)"

text \<open>\<open>(HalfInt)x == x\<close> for the 32-bit \<open>Int4\<close>.\<close>

definition fits_HalfInt :: "UInt \<Rightarrow> bool" where
  "fits_HalfInt x \<longleftrightarrow> sint (ucast x :: 32 word) = sint x"

text \<open>The fallback for compilers without \<open>__builtin_mul_overflow\<close>.\<close>

definition prod_intobjs_generic :: "UInt \<Rightarrow> UInt \<Rightarrow> UInt" where
  "prod_intobjs_generic l r =
     (if l = INTOBJ_INT 0 \<or> r = INTOBJ_INT 0 then INTOBJ_INT 0
      else if l = INTOBJ_INT 1 then r
      else if r = INTOBJ_INT 1 then l
      else
        let prod = drop_bit 2 l * (r - 1) + 1 in
        if DETECT_INTOBJ_OVERFLOW prod then 0
        else if fits_HalfInt l \<and> fits_HalfInt r then prod
        else if sint (prod - 1) sdiv sint (signed_drop_bit 2 l) = sint (r - 1) then prod
        else 0)"

subsection \<open>Meaning of the tagged representation\<close>

definition small_range :: "int set" where
  "small_range = {INT_INTOBJ_MIN .. INT_INTOBJ_MAX}"

text \<open>A well-formed handle: tagged, and in the range the guard bit leaves.\<close>

definition valid_intobj :: "UInt \<Rightarrow> bool" where
  "valid_intobj x \<longleftrightarrow> INTOBJ_INT (INT_INTOBJ x) = x \<and> INT_INTOBJ x \<in> small_range"

lemma small_range_iff: "i \<in> small_range \<longleftrightarrow> - (2 ^ 60) \<le> i \<and> i < 2 ^ 60"
  by (auto simp: small_range_def INT_INTOBJ_MIN_def INT_INTOBJ_MAX_def NR_SMALL_INT_BITS_def)

lemma INTOBJ_INT_word: "INTOBJ_INT i = word_of_int (4 * i + 1)"
  by (simp add: INTOBJ_INT_def push_bit_eq_mult)

lemma sint_INTOBJ_INT:
  "- (2 ^ 61) \<le> i \<Longrightarrow> i < 2 ^ 61 \<Longrightarrow> sint (INTOBJ_INT i) = 4 * i + 1"
  unfolding INTOBJ_INT_word by (rule sint_word_of_int_UInt) auto

lemma INT_INTOBJ_div: "INT_INTOBJ x = sint x div 4"
  by (simp add: INT_INTOBJ_def sint_signed_drop_bit_UInt)

lemma INT_INTOBJ_INTOBJ_INT [simp]: "i \<in> small_range \<Longrightarrow> INT_INTOBJ (INTOBJ_INT i) = i"
  by (simp add: INT_INTOBJ_div sint_INTOBJ_INT small_range_iff)

lemma valid_INTOBJ_INT [simp, intro]: "i \<in> small_range \<Longrightarrow> valid_intobj (INTOBJ_INT i)"
  by (simp add: valid_intobj_def)

lemma valid_intobjE:
  assumes "valid_intobj x"
  obtains i where "i \<in> small_range" "x = INTOBJ_INT i" "INT_INTOBJ x = i"
  using assms by (metis valid_intobj_def)

lemma valid_intobj_range: "valid_intobj x \<Longrightarrow> INT_INTOBJ x \<in> small_range"
  by (simp add: valid_intobj_def)

lemma sint_valid: "valid_intobj x \<Longrightarrow> sint x = 4 * INT_INTOBJ x + 1"
  by (elim valid_intobjE) (simp add: sint_INTOBJ_INT small_range_iff)

lemma INTOBJ_INT_inject:
  "i \<in> small_range \<Longrightarrow> j \<in> small_range \<Longrightarrow> INTOBJ_INT i = INTOBJ_INT j \<longleftrightarrow> i = j"
  by (metis INT_INTOBJ_INTOBJ_INT)

lemma valid_eq_INTOBJ_INT:
  "valid_intobj x \<Longrightarrow> j \<in> small_range \<Longrightarrow> x = INTOBJ_INT j \<longleftrightarrow> INT_INTOBJ x = j"
  by (metis INT_INTOBJ_INTOBJ_INT valid_intobjE)

lemma valid_intobj_eq: "valid_intobj x \<Longrightarrow> valid_intobj y \<Longrightarrow> x = y \<longleftrightarrow> INT_INTOBJ x = INT_INTOBJ y"
  by (metis valid_intobjE)

lemma INTOBJ_MIN_eq: "INTOBJ_MIN = INTOBJ_INT INT_INTOBJ_MIN"
  by (simp add: INTOBJ_MIN_def INTOBJ_INT_def)

lemma small_range_consts [simp]:
  "0 \<in> small_range" "1 \<in> small_range" "-1 \<in> small_range"
  "INT_INTOBJ_MIN \<in> small_range" "INT_INTOBJ_MAX \<in> small_range"
  by (simp_all add: small_range_iff INT_INTOBJ_MIN_def INT_INTOBJ_MAX_def NR_SMALL_INT_BITS_def)

subsection \<open>Overflow detection\<close>

lemma uint_eq_sint_mod: "uint (x :: UInt) = sint x mod 2 ^ 64"
proof -
  have "uint x = uint (word_of_int (sint x) :: UInt)" by simp
  also have "\<dots> = sint x mod 2 ^ 64" by (simp only: uint_word_of_int) simp
  finally show ?thesis .
qed

lemma DETECT_INTOBJ_OVERFLOW_iff:
  "DETECT_INTOBJ_OVERFLOW x \<longleftrightarrow> \<not> (- (2 ^ 62) \<le> sint x \<and> sint x < 2 ^ 62)"
proof -
  define t where "t = drop_bit 62 x"
  have ut: "uint t = uint x div 2 ^ 62"
    by (simp add: t_def drop_bit_eq_div uint_div)
  have t_small: "0 \<le> uint t" "uint t < 4"
    by (simp, use uint_lt2p [of x] in \<open>simp add: ut\<close>)
  then have t_cases: "uint t = 0 \<or> uint t = 1 \<or> uint t = 2 \<or> uint t = 3" by linarith
  have t_word: "uint t = k \<Longrightarrow> t = word_of_int k" for k by auto
  have gt: "\<not> (- 1 :: UInt) \<le> 1" "\<not> (2 :: UInt) \<le> 1" by code_simp+
  have detect: "DETECT_INTOBJ_OVERFLOW x \<longleftrightarrow> uint t = 1 \<or> uint t = 2"
    using t_cases gt by (auto simp: DETECT_INTOBJ_OVERFLOW_def t_def [symmetric] dest!: t_word)
  show ?thesis
  proof (cases "0 \<le> sint x")
    case True
    then have "uint x = sint x"
      using sint_UInt_range [of x] by (simp add: uint_eq_sint_mod)
    then show ?thesis using detect ut True sint_UInt_range [of x] by auto
  next
    case False
    have "uint x = (sint x + 2 ^ 64) mod 2 ^ 64" by (simp add: uint_eq_sint_mod)
    also have "\<dots> = sint x + 2 ^ 64"
      using False sint_UInt_range [of x] by (intro mod_pos_pos_trivial) auto
    finally have "uint x = sint x + 2 ^ 64" .
    then show ?thesis using detect ut False sint_UInt_range [of x] by auto
  qed
qed


subsection \<open>Sum and difference\<close>

lemma range_result: "- (2 ^ 62) \<le> 4 * i + 1 \<and> 4 * i + 1 < 2 ^ 62 \<longleftrightarrow> i \<in> small_range"
  for i :: int
  by (auto simp: small_range_iff)

lemma sum_word: "INTOBJ_INT i + INTOBJ_INT j - 1 = INTOBJ_INT (i + j)"
  by (simp add: INTOBJ_INT_word algebra_simps)

lemma diff_word: "INTOBJ_INT i - INTOBJ_INT j + 1 = INTOBJ_INT (i - j)"
  by (simp add: INTOBJ_INT_word algebra_simps)

lemma DETECT_INTOBJ_INT:
  "- (2 ^ 61) \<le> i \<Longrightarrow> i < 2 ^ 61 \<Longrightarrow> DETECT_INTOBJ_OVERFLOW (INTOBJ_INT i) \<longleftrightarrow> i \<notin> small_range"
  unfolding DETECT_INTOBJ_OVERFLOW_iff by (simp only: sint_INTOBJ_INT range_result)

lemma sum_intobjs_correct:
  assumes "valid_intobj l" "valid_intobj r"
  shows "sum_intobjs l r =
    (if INT_INTOBJ l + INT_INTOBJ r \<in> small_range
     then Some (INTOBJ_INT (INT_INTOBJ l + INT_INTOBJ r)) else None)"
  using assms
  by (elim valid_intobjE)
    (simp add: sum_intobjs_def Let_def sum_word DETECT_INTOBJ_INT small_range_iff)

lemma diff_intobjs_correct:
  assumes "valid_intobj l" "valid_intobj r"
  shows "diff_intobjs l r =
    (if INT_INTOBJ l - INT_INTOBJ r \<in> small_range
     then Some (INTOBJ_INT (INT_INTOBJ l - INT_INTOBJ r)) else None)"
  using assms
  by (elim valid_intobjE)
    (simp add: diff_intobjs_def Let_def diff_word DETECT_INTOBJ_INT small_range_iff)

subsection \<open>Product\<close>

lemma xor_one_odd: "sint x = 2 * k + 1 \<Longrightarrow> x XOR 1 = word_of_int (2 * k)" for x :: UInt
proof -
  assume "sint x = 2 * k + 1"
  then have "x = word_of_int (2 * k + 1)" by (rule word_of_sint)
  moreover have "(2 * k + 1) XOR 1 = 2 * k" for k :: int
    by (simp add: xor_one_eq)
  ultimately show ?thesis by (metis of_int_xor_eq of_int_1)
qed

lemma xor_one_even: "x = word_of_int (2 * k) \<Longrightarrow> x XOR 1 = word_of_int (2 * k + 1)" for x :: UInt
proof -
  assume "x = word_of_int (2 * k)"
  moreover have "(2 * k) XOR 1 = 2 * k + 1" for k :: int
    by (simp add: xor_one_eq)
  ultimately show ?thesis by (metis of_int_xor_eq of_int_1)
qed

lemma prod_intobjs_correct:
  assumes "valid_intobj l" "valid_intobj r"
  shows "prod_intobjs l r =
    (if INT_INTOBJ l * INT_INTOBJ r \<in> small_range
     then INTOBJ_INT (INT_INTOBJ l * INT_INTOBJ r) else 0)"
proof -
  define i j where "i = INT_INTOBJ l" and "j = INT_INTOBJ r"
  have l: "sint (signed_drop_bit 1 l) = 2 * i"
    using assms by (simp add: sint_signed_drop_bit_UInt sint_valid i_def)
  have r: "r XOR 1 = word_of_int (4 * j)"
    using xor_one_odd [of r "2 * j"] assms by (simp add: sint_valid j_def)
  have j: "j \<in> small_range" using assms by (simp add: j_def valid_intobj_range)
  then have r': "sint (r XOR 1) = 4 * j"
    unfolding r by (intro sint_word_of_int_UInt) (auto simp: small_range_iff)
  have ovf: "2 * i * (4 * j) \<in> Int_range \<longleftrightarrow> i * j \<in> small_range"
    by (auto simp: Int_range_def small_range_iff algebra_simps)
  show ?thesis
  proof (cases "i * j \<in> small_range")
    case True
    define p where "p = signed_drop_bit 1 l * (r XOR 1)"
    have "sint p = wrap_Int (2 * i * (4 * j))"
      unfolding p_def sint_word_mult l r' wrap_Int_def sint_sbintrunc' ..
    then have p: "sint p = 8 * (i * j)" using True ovf by (simp add: algebra_simps)
    then have "sint (signed_drop_bit 1 p) = 2 * (2 * (i * j))"
      by (simp add: sint_signed_drop_bit_UInt)
    then have "signed_drop_bit 1 p = word_of_int (2 * (2 * (i * j)))"
      by (rule word_of_sint)
    from xor_one_even [OF this] have "signed_drop_bit 1 p XOR 1 = INTOBJ_INT (i * j)"
      by (simp add: INTOBJ_INT_word)
    with True ovf show ?thesis
      by (simp add: prod_intobjs_def builtin_mul_overflow_def l r' p_def
        i_def [symmetric] j_def [symmetric] del: One_nat_def)
  next
    case False
    with ovf show ?thesis
      by (simp add: prod_intobjs_def builtin_mul_overflow_def l r'
        i_def [symmetric] j_def [symmetric] del: One_nat_def)
  qed
qed


text \<open>The tag cleared, a handle is four times its logically shifted word.\<close>

lemma four_times_drop_bit: "sint l = 4 * i + 1 \<Longrightarrow> drop_bit 2 l * 4 = (word_of_int (4 * i) :: UInt)"
proof -
  assume l: "sint l = 4 * i + 1"
  have "uint l mod 4 = (4 * i + 1) mod 2 ^ 64 mod 4"
    by (simp only: uint_eq_sint_mod l)
  also have "\<dots> = 1" by (simp add: mod_mod_cancel)
  finally have "uint (l mod 4) = 1" by (simp add: uint_mod)
  then have "l mod 4 = 1" by (metis uint_1 word_uint_eqI)
  then have "l div 4 * 4 = l - 1" using div_mult_mod_eq [of l 4] by (simp add: algebra_simps)
  also have "\<dots> = word_of_int (4 * i)" using word_of_sint [OF l] by simp
  finally show ?thesis by (simp add: drop_bit_eq_div)
qed

lemma sdiv_remainder_bound:
  fixes a b q :: int
  assumes "a sdiv b = q" "b \<noteq> 0"
  shows "\<bar>a - b * q\<bar> < \<bar>b\<bar>"
proof -
  have "a - b * q = a smod b"
    using assms(1) signed_division_class.sdiv_mult_smod_eq [of a b] by (simp add: algebra_simps)
  moreover have "\<bar>a smod b\<bar> < \<bar>b\<bar>"
    using assms(2) by (simp add: signed_modulo_int_def abs_mult)
  ultimately show ?thesis by simp
qed

lemma fits_HalfInt_bound: "fits_HalfInt x \<Longrightarrow> - (2 ^ 31) \<le> sint x \<and> sint x < 2 ^ 31"
  using sint_ge [of "ucast x :: 32 word"] sint_less [of "ucast x :: 32 word"]
  by (simp add: fits_HalfInt_def)

lemma half_product_small:
  assumes "- (2 ^ 31) \<le> 4 * i + 1" "4 * i + 1 < 2 ^ 31" "- (2 ^ 31) \<le> 4 * j + 1" "4 * j + 1 < (2::int) ^ 31"
  shows "i * j \<in> small_range"
proof -
  have "\<bar>i\<bar> \<le> 2 ^ 29" "\<bar>j\<bar> \<le> 2 ^ 29" using assms by auto
  then have "\<bar>i * j\<bar> \<le> 2 ^ 29 * 2 ^ 29" unfolding abs_mult by (rule mult_mono) auto
  then show ?thesis by (auto simp: small_range_iff)
qed

text \<open>A product whose wrapped value passes the guard check and divides back has not wrapped.\<close>

lemma trial_division_sound:
  fixes i j P :: int
  assumes P: "P = 4 * (i * j) + 1 + k * 2 ^ 64" "- (2 ^ 62) \<le> P" "P < 2 ^ 62"
    and i: "i \<in> small_range" "i \<noteq> 0" and div: "(P - 1) sdiv i = 4 * j"
  shows "i * j \<in> small_range"
proof -
  have "\<bar>P - 1 - i * (4 * j)\<bar> < \<bar>i\<bar>" using sdiv_remainder_bound [OF div i(2)] .
  then have "\<bar>k * 2 ^ 64\<bar> < 2 ^ 61" using P(1) i(1) by (auto simp: small_range_iff algebra_simps)
  then have "k = 0" by (auto simp: abs_mult)
  with P show ?thesis by (auto simp: small_range_iff)
qed

lemma prod_intobjs_generic_correct:
  assumes "valid_intobj l" "valid_intobj r"
  shows "prod_intobjs_generic l r = prod_intobjs l r"
proof -
  define i j where "i = INT_INTOBJ l" and "j = INT_INTOBJ r"
  note val = assms [THEN sint_valid] assms [THEN valid_intobj_range]
  have range: "i \<in> small_range" "j \<in> small_range"
    using val by (simp_all add: i_def j_def)
  have lr: "l = INTOBJ_INT i" "r = INTOBJ_INT j"
    using assms by (simp_all add: i_def j_def valid_intobj_def)
  have "drop_bit 2 l * (r - 1) = drop_bit 2 l * 4 * word_of_int j"
    by (simp add: lr(2) INTOBJ_INT_word algebra_simps)
  also have "\<dots> = word_of_int (4 * i) * word_of_int j"
    using four_times_drop_bit [of l i] val(1) by (simp only: i_def)
  finally have prod: "drop_bit 2 l * (r - 1) + 1 = INTOBJ_INT (i * j)"
    by (simp add: INTOBJ_INT_word)
  define P where "P = sint (INTOBJ_INT (i * j))"
  obtain k where k: "P = 4 * (i * j) + 1 + k * 2 ^ 64"
    using wrap_Int_congruent [of "4 * (i * j) + 1"]
    by (auto simp: P_def wrap_Int_def INTOBJ_INT_word simp del: of_int_add of_int_mult)
  have l2: "sint (signed_drop_bit 2 l) = i" by (simp add: i_def INT_INTOBJ_def)
  have r1: "sint (r - 1) = 4 * j"
    using range(2) sint_word_of_int_UInt [of "4 * j"]
    by (simp add: lr(2) INTOBJ_INT_word small_range_iff)
  have generic: "prod_intobjs_generic l r =
    (if i = 0 \<or> j = 0 then INTOBJ_INT 0 else if i = 1 then r else if j = 1 then l
     else if DETECT_INTOBJ_OVERFLOW (INTOBJ_INT (i * j)) then 0
     else if fits_HalfInt l \<and> fits_HalfInt r then INTOBJ_INT (i * j)
     else if sint (INTOBJ_INT (i * j) - 1) sdiv i = 4 * j then INTOBJ_INT (i * j) else 0)"
    unfolding prod_intobjs_generic_def Let_def prod l2 r1
    using assms by (simp add: valid_eq_INTOBJ_INT i_def j_def)
  have builtin: "prod_intobjs l r = (if i * j \<in> small_range then INTOBJ_INT (i * j) else 0)"
    using prod_intobjs_correct [OF assms] by (simp add: i_def j_def)
  show ?thesis
  proof (cases "i * j \<in> small_range")
    case True
    then have "sint (INTOBJ_INT (i * j) - 1) = 4 * (i * j)" 
      using sint_word_of_int_UInt [of "4 * (i * j)"] by (simp add: INTOBJ_INT_word small_range_iff)
    moreover have "i \<noteq> 0 \<Longrightarrow> 4 * (i * j) sdiv i = 4 * j"
      by (simp add: signed_divide_int_eq_divide_int mult.left_commute)
    moreover have "\<not> DETECT_INTOBJ_OVERFLOW (INTOBJ_INT (i * j))"
      using True by (simp add: DETECT_INTOBJ_INT small_range_iff)
    ultimately show ?thesis unfolding generic builtin using True lr by auto
  next
    case False
    then have "i \<noteq> 0" "i \<noteq> 1" "j \<noteq> 0" "j \<noteq> 1" using range by auto
    moreover have "\<not> (fits_HalfInt l \<and> fits_HalfInt r)"
      using False half_product_small [of i j] fits_HalfInt_bound [of l] fits_HalfInt_bound [of r] val
      by (auto simp: i_def j_def)
    moreover have "sint (INTOBJ_INT (i * j) - 1) sdiv i \<noteq> 4 * j"
      if "\<not> DETECT_INTOBJ_OVERFLOW (INTOBJ_INT (i * j))"
    proof
      have P: "- (2 ^ 62) \<le> P" "P < 2 ^ 62"
        using that by (auto simp: DETECT_INTOBJ_OVERFLOW_iff P_def)
      then have "sint (INTOBJ_INT (i * j) - 1) = P - 1"
        by (simp add: sint_word_diff P_def [symmetric] signed_take_bit_int_eq_self)
      moreover assume "sint (INTOBJ_INT (i * j) - 1) sdiv i = 4 * j"
      ultimately show False
        using trial_division_sound [OF k P] False range \<open>i \<noteq> 0\<close> by simp
    qed
    ultimately show ?thesis using False by (auto simp: generic builtin)
  qed
qed

subsection \<open>Properties\<close>

text \<open>C30: On immediate integers, the fast sum and difference are exact: \<open>sum_intobjs\<close> and
  \<open>diff_intobjs\<close> return the tagged result when it fits an immediate integer and report overflow in
  every other case, for all pairs of well-formed handles.\<close>

theorem intobj_sum_diff_exact:
  assumes "valid_intobj l" "valid_intobj r"
  shows "sum_intobjs l r = (if INT_INTOBJ l + INT_INTOBJ r \<in> small_range
      then Some (INTOBJ_INT (INT_INTOBJ l + INT_INTOBJ r)) else None) \<and>
    diff_intobjs l r = (if INT_INTOBJ l - INT_INTOBJ r \<in> small_range
      then Some (INTOBJ_INT (INT_INTOBJ l - INT_INTOBJ r)) else None)"
  using sum_intobjs_correct [OF assms] diff_intobjs_correct [OF assms] by simp

theorem intobj_sum_diff_exact_witness:
  "sum_intobjs (INTOBJ_INT (2 ^ 60 - 1)) (INTOBJ_INT 1) = None \<and>
   diff_intobjs (INTOBJ_INT (2 ^ 60 - 1)) (INTOBJ_INT 1) = Some (INTOBJ_INT (2 ^ 60 - 2))"
proof -
  have "2 ^ 60 - 1 \<in> small_range" "1 \<in> small_range" "2 ^ 60 \<notin> small_range" "2 ^ 60 - 2 \<in> small_range"
    by (simp_all add: small_range_iff)
  then show ?thesis
    using intobj_sum_diff_exact [of "INTOBJ_INT (2 ^ 60 - 1)" "INTOBJ_INT 1"] by simp
qed

text \<open>C31: The product of two immediate integers with the overflow builtin of the compiler and the
  portable fallback (trial multiplication, guard bits, division check) agree on all well-formed
  handles: both give the exact product when it is an immediate integer and the null handle
  otherwise.\<close>

theorem intobj_prod_portable_exact:
  assumes "valid_intobj l" "valid_intobj r"
  shows "prod_intobjs_generic l r = prod_intobjs l r \<and>
    prod_intobjs l r = (if INT_INTOBJ l * INT_INTOBJ r \<in> small_range
      then INTOBJ_INT (INT_INTOBJ l * INT_INTOBJ r) else 0)"
  using prod_intobjs_generic_correct [OF assms] prod_intobjs_correct [OF assms] by simp

theorem intobj_prod_portable_exact_witness:
  "prod_intobjs_generic (INTOBJ_INT (2 ^ 31)) (INTOBJ_INT (- 5)) = INTOBJ_INT (- 10737418240) \<and>
   prod_intobjs_generic (INTOBJ_INT (2 ^ 31)) (INTOBJ_INT (2 ^ 31)) = 0"
proof -
  have r: "2 ^ 31 \<in> small_range" "- 5 \<in> small_range" "- 10737418240 \<in> small_range"
    "4611686018427387904 \<notin> small_range"
    by (simp_all add: small_range_iff)
  then show ?thesis
    using intobj_prod_portable_exact [of "INTOBJ_INT (2 ^ 31)" "INTOBJ_INT (- 5)"]
      intobj_prod_portable_exact [of "INTOBJ_INT (2 ^ 31)" "INTOBJ_INT (2 ^ 31)"] by simp
qed

end
