(* ===== verification/Gmp.thy ===== *)
theory Gmp
  imports GapPrelude
begin

text \<open>
  The interface of the GMP library as the kernel uses it. GMP is third-party code, so its routines
  are a parameter of the model: a record \<open>gmp\<close> with one field per routine called by
  \<open>src/src/integer.c\<close>. A natural number is a little-endian list of 64-bit limbs; an \<open>mpz_t\<close> is the
  record of its signed size field and its limb array (the whole allocated array, of which the
  size field selects the significant part). The locale \<open>gmp_contract\<close> states what the manual
  of GMP documents for these routines, for destinations large enough to hold the result, together
  with the fact that the limbs of the destination above the result are zero, on which
  \<open>GMP_NORMALIZE\<close> relies. The last section gives a concrete instance computing with natural
  numbers and interprets the locale on it.
\<close>

subsection \<open>Limb lists\<close>

fun limbs_val :: "UInt list \<Rightarrow> nat" where
  "limbs_val [] = 0"
| "limbs_val (l # ls) = unat l + 2 ^ 64 * limbs_val ls"

fun limbs_of :: "nat \<Rightarrow> nat \<Rightarrow> UInt list" where
  "limbs_of 0 k = []"
| "limbs_of (Suc n) k = word_of_nat (k mod 2 ^ 64) # limbs_of n (k div 2 ^ 64)"

text \<open>The number of limbs of a natural number, without leading zero limbs.\<close>

fun limb_size :: "nat \<Rightarrow> nat" where
  "limb_size k = (if k = 0 then 0 else Suc (limb_size (k div 2 ^ 64)))"

declare limb_size.simps [simp del]

lemma limb_size_0 [simp]: "limb_size 0 = 0"
  by (subst limb_size.simps) simp

lemma limb_size_pos: "0 < k \<Longrightarrow> limb_size k = Suc (limb_size (k div 2 ^ 64))"
  by (subst limb_size.simps) simp

lemma limb_size_eq_0 [simp]: "limb_size k = 0 \<longleftrightarrow> k = 0"
  by (subst limb_size.simps) simp

lemma limb_size_gt_0 [simp]: "0 < limb_size k \<longleftrightarrow> 0 < k"
  by (subst limb_size.simps) simp

lemma length_limbs_of [simp]: "length (limbs_of n k) = n"
  by (induction n arbitrary: k) auto

lemma unat_UInt_lt: "unat (w :: UInt) < 18446744073709551616"
proof -
  have "unat w < 2 ^ LENGTH(64)" by (rule unsigned_less)
  then show ?thesis by simp
qed

lemma limbs_val_bound: "limbs_val ls < 2 ^ (64 * length ls)"
proof (induction ls)
  case (Cons l ls)
  have "unat l + 2 ^ 64 * limbs_val ls < 2 ^ 64 * (limbs_val ls + 1)"
    using unat_UInt_lt [of l] by simp
  also have "\<dots> \<le> 2 ^ 64 * 2 ^ (64 * length ls)"
    using Cons by (intro mult_le_mono2) simp
  finally show ?case by (simp add: power_add)
qed simp

lemma limbs_val_limbs_of: "k < 2 ^ (64 * n) \<Longrightarrow> limbs_val (limbs_of n k) = k"
proof (induction n arbitrary: k)
  case (Suc n)
  have "k div 2 ^ 64 < 2 ^ (64 * n)"
    using Suc.prems by (intro less_mult_imp_div_less) (simp add: power_add)
  with Suc.IH show ?case by (simp add: unat_of_nat)
qed simp

lemma limbs_val_append: "limbs_val (xs @ ys) = limbs_val xs + 2 ^ (64 * length xs) * limbs_val ys"
  by (induction xs) (simp_all add: algebra_simps power_add)

lemma limbs_val_zeros [simp]: "limbs_val (replicate n 0) = 0"
  by (induction n) auto

lemma limbs_val_singleton [simp]: "limbs_val [l] = unat l"
  by simp

lemma limbs_val_inject:
  "length xs = length ys \<Longrightarrow> limbs_val xs = limbs_val ys \<longleftrightarrow> xs = ys"
proof (induction xs ys rule: list_induct2)
  case (Cons x xs y ys)
  have "unat x + 2 ^ 64 * limbs_val xs = unat y + 2 ^ 64 * limbs_val ys \<longleftrightarrow>
      unat x = unat y \<and> limbs_val xs = limbs_val ys"
    (is "?l = ?r \<longleftrightarrow> _")
  proof
    assume "?l = ?r"
    then have "?l mod 2 ^ 64 = ?r mod 2 ^ 64" by simp
    then have "unat x = unat y" using unat_UInt_lt [of x] unat_UInt_lt [of y] by simp
    with \<open>?l = ?r\<close> show "unat x = unat y \<and> limbs_val xs = limbs_val ys" by simp
  qed simp
  with Cons show ?case by (simp add: word_unat_eq_iff)
qed simp

text \<open>A limb list with a nonzero top limb has the size of its value.\<close>

lemma limbs_val_lower: "ls \<noteq> [] \<Longrightarrow> last ls \<noteq> 0 \<Longrightarrow> 2 ^ (64 * (length ls - 1)) \<le> limbs_val ls"
proof -
  assume "ls \<noteq> []" "last ls \<noteq> 0"
  then have "limbs_val ls = limbs_val (butlast ls) + 2 ^ (64 * (length ls - 1)) * unat (last ls)"
    using limbs_val_append [of "butlast ls" "[last ls]"] by simp
  moreover have "1 \<le> unat (last ls)" using \<open>last ls \<noteq> 0\<close> by (simp add: Suc_leI unat_gt_0)
  ultimately show ?thesis
    by (metis le_add2 le_trans mult.right_neutral mult_le_mono2)
qed

lemma limb_size_le_iff: "limb_size k \<le> n \<longleftrightarrow> k < 2 ^ (64 * n)"
proof (induction k arbitrary: n rule: limb_size.induct)
  case (1 k)
  show ?case
  proof (cases "k = 0 \<or> n = 0")
    case False
    then obtain m where m: "n = Suc m" by (cases n) auto
    have "limb_size k \<le> n \<longleftrightarrow> k div 2 ^ 64 < 2 ^ (64 * m)"
      using False 1 by (simp add: m limb_size_pos)
    also have "\<dots> \<longleftrightarrow> k < 2 ^ (64 * n)"
      by (simp add: m div_less_iff_less_mult power_add mult.commute)
    finally show ?thesis .
  qed auto
qed

lemma limb_size_bound: "k < 2 ^ (64 * limb_size k)"
  using limb_size_le_iff [of k "limb_size k"] by simp

lemma limb_size_limbs_val:
  assumes "ls \<noteq> []" "last ls \<noteq> 0"
  shows "limb_size (limbs_val ls) = length ls"
proof (rule antisym)
  show "limb_size (limbs_val ls) \<le> length ls"
    by (simp only: limb_size_le_iff limbs_val_bound)
  have "\<not> limbs_val ls < 2 ^ (64 * (length ls - 1))"
    using limbs_val_lower [OF assms] by simp
  then have "\<not> limb_size (limbs_val ls) \<le> length ls - 1" unfolding limb_size_le_iff .
  then show "length ls \<le> limb_size (limbs_val ls)" by simp
qed

subsection \<open>Multi-precision integers\<close>

record mpz =
  mp_size :: int
  mp_d :: "UInt list"

definition mpz_val :: "mpz \<Rightarrow> int" where
  "mpz_val z = sgn (mp_size z) * int (limbs_val (take (nat \<bar>mp_size z\<bar>) (mp_d z)))"

text \<open>An \<open>mpz_t\<close> GMP may read: its size is in the array, the top limb it selects is not zero.\<close>

definition mpz_wf :: "mpz \<Rightarrow> bool" where
  "mpz_wf z \<longleftrightarrow> nat \<bar>mp_size z\<bar> \<le> length (mp_d z) \<and>
     (mp_size z \<noteq> 0 \<longrightarrow> mp_d z ! (nat \<bar>mp_size z\<bar> - 1) \<noteq> 0)"

text \<open>What a routine leaves in a destination of \<open>n\<close> limbs when its result is \<open>x\<close>.\<close>

definition mpz_out :: "nat \<Rightarrow> mpz \<Rightarrow> int \<Rightarrow> bool" where
  "mpz_out n z x \<longleftrightarrow> length (mp_d z) = n \<and> limbs_val (mp_d z) = nat \<bar>x\<bar> \<and>
     mp_size z = sgn x * int (limb_size (nat \<bar>x\<bar>))"

text \<open>The destination \<open>d\<close> can hold the integer \<open>x\<close>.\<close>

definition mpz_fits :: "mpz \<Rightarrow> int \<Rightarrow> bool" where
  "mpz_fits d x \<longleftrightarrow> nat \<bar>x\<bar> < 2 ^ (64 * length (mp_d d))"

definition mpz_of :: "nat \<Rightarrow> int \<Rightarrow> mpz" where
  "mpz_of n x = \<lparr>mp_size = sgn x * int (limb_size (nat \<bar>x\<bar>)), mp_d = limbs_of n (nat \<bar>x\<bar>)\<rparr>"

lemma mpz_out_mpz_of: "nat \<bar>x\<bar> < 2 ^ (64 * n) \<Longrightarrow> mpz_out n (mpz_of n x) x"
  by (simp add: mpz_out_def mpz_of_def limbs_val_limbs_of)


lemma mpz_out_sgn: "mpz_out n z x \<Longrightarrow> sgn (mp_size z) = sgn x"
  by (auto simp: mpz_out_def sgn_mult sgn_if)

subsection \<open>Digit strings\<close>

definition digit_char :: "nat \<Rightarrow> char" where
  "digit_char d = char_of (if d < 10 then 48 + d else 55 + d)"

function digits_str :: "nat \<Rightarrow> nat \<Rightarrow> string" where
  "digits_str b k = (if k < b \<or> b < 2 then [digit_char k] else digits_str b (k div b) @ [digit_char (k mod b)])"
  by pat_completeness auto
termination
  by (relation "measure snd") auto

declare digits_str.simps [simp del]

subsection \<open>The routines and their contract\<close>

text \<open>
  A destination argument comes first, as in C; a routine returns the updated destination. The
  routines whose destination GMP itself allocates (after \<open>mpz_init\<close>) have no such argument.
\<close>

record gmp =
  mpn_cmp :: "UInt list \<Rightarrow> UInt list \<Rightarrow> int"
  mpn_mod_1 :: "UInt list \<Rightarrow> UInt \<Rightarrow> UInt"
  mpn_divrem_1 :: "UInt list \<Rightarrow> UInt \<Rightarrow> UInt list"
  mpn_tdiv_qr :: "UInt list \<Rightarrow> UInt list \<Rightarrow> UInt list \<times> UInt list"
  mpz_add :: "mpz \<Rightarrow> mpz \<Rightarrow> mpz \<Rightarrow> mpz"
  mpz_sub :: "mpz \<Rightarrow> mpz \<Rightarrow> mpz \<Rightarrow> mpz"
  mpz_mul :: "mpz \<Rightarrow> mpz \<Rightarrow> mpz \<Rightarrow> mpz"
  mpz_gcd_ui :: "mpz \<Rightarrow> UInt \<Rightarrow> UInt"
  mpz_gcd :: "mpz \<Rightarrow> mpz \<Rightarrow> mpz \<Rightarrow> mpz"
  mpz_lcm :: "mpz \<Rightarrow> mpz \<Rightarrow> mpz \<Rightarrow> mpz"
  mpz_fac_ui :: "UInt \<Rightarrow> mpz"
  mpz_bin_uiui :: "UInt \<Rightarrow> UInt \<Rightarrow> mpz"
  mpz_bin_ui :: "mpz \<Rightarrow> UInt \<Rightarrow> mpz"
  mpz_remove :: "mpz \<Rightarrow> mpz \<Rightarrow> nat"
  mpz_sqrt :: "mpz \<Rightarrow> mpz \<Rightarrow> mpz"
  mpz_root :: "mpz \<Rightarrow> mpz \<Rightarrow> UInt \<Rightarrow> mpz"
  mpz_invert :: "mpz \<Rightarrow> mpz \<Rightarrow> mpz \<Rightarrow> mpz option"
  mpz_powm :: "mpz \<Rightarrow> mpz \<Rightarrow> mpz \<Rightarrow> mpz \<Rightarrow> mpz"
  mpz_sizeinbase :: "mpz \<Rightarrow> int \<Rightarrow> nat"
  mpz_get_str :: "int \<Rightarrow> mpz \<Rightarrow> string"

locale gmp_contract =
  fixes G :: gmp
  assumes mpn_cmp: "length xs = length ys \<Longrightarrow>
      sgn (mpn_cmp G xs ys) = sgn (int (limbs_val xs) - int (limbs_val ys))"
    and mpn_mod_1: "w \<noteq> 0 \<Longrightarrow> unat (mpn_mod_1 G xs w) = limbs_val xs mod unat w"
    and mpn_divrem_1: "w \<noteq> 0 \<Longrightarrow> length (mpn_divrem_1 G xs w) = length xs \<and>
      limbs_val (mpn_divrem_1 G xs w) = limbs_val xs div unat w"
    and mpn_tdiv_qr: "ys \<noteq> [] \<Longrightarrow> last ys \<noteq> 0 \<Longrightarrow> length ys \<le> length xs \<Longrightarrow>
      mpn_tdiv_qr G xs ys = (q, r) \<Longrightarrow>
      length q = length xs - length ys + 1 \<and> length r = length ys \<and>
      limbs_val q = limbs_val xs div limbs_val ys \<and> limbs_val r = limbs_val xs mod limbs_val ys"
    and mpz_add: "mpz_wf a \<Longrightarrow> mpz_wf b \<Longrightarrow> mpz_fits d (mpz_val a + mpz_val b) \<Longrightarrow>
      mpz_out (length (mp_d d)) (mpz_add G d a b) (mpz_val a + mpz_val b)"
    and mpz_sub: "mpz_wf a \<Longrightarrow> mpz_wf b \<Longrightarrow> mpz_fits d (mpz_val a - mpz_val b) \<Longrightarrow>
      mpz_out (length (mp_d d)) (mpz_sub G d a b) (mpz_val a - mpz_val b)"
    and mpz_mul: "mpz_wf a \<Longrightarrow> mpz_wf b \<Longrightarrow> mpz_fits d (mpz_val a * mpz_val b) \<Longrightarrow>
      mpz_out (length (mp_d d)) (mpz_mul G d a b) (mpz_val a * mpz_val b)"
    and mpz_gcd_ui: "mpz_wf a \<Longrightarrow> w \<noteq> 0 \<Longrightarrow>
      int (unat (mpz_gcd_ui G a w)) = gcd (mpz_val a) (int (unat w))"
    and mpz_gcd: "mpz_wf a \<Longrightarrow> mpz_wf b \<Longrightarrow> mpz_fits d (gcd (mpz_val a) (mpz_val b)) \<Longrightarrow>
      mpz_out (length (mp_d d)) (mpz_gcd G d a b) (gcd (mpz_val a) (mpz_val b))"
    and mpz_lcm: "mpz_wf a \<Longrightarrow> mpz_wf b \<Longrightarrow> mpz_fits d (lcm (mpz_val a) (mpz_val b)) \<Longrightarrow>
      mpz_out (length (mp_d d)) (mpz_lcm G d a b) (lcm (mpz_val a) (mpz_val b))"
    and mpz_fac_ui: "mpz_wf (mpz_fac_ui G n) \<and> mpz_val (mpz_fac_ui G n) = fact (unat n)"
    and mpz_bin_uiui: "mpz_wf (mpz_bin_uiui G n k) \<and>
      mpz_val (mpz_bin_uiui G n k) = int (unat n choose unat k)"
    and mpz_bin_ui: "mpz_wf a \<Longrightarrow> 0 \<le> mpz_val a \<Longrightarrow> mpz_wf (mpz_bin_ui G a k) \<and>
      mpz_val (mpz_bin_ui G a k) = int (nat (mpz_val a) choose unat k)"
    and mpz_remove: "mpz_wf a \<Longrightarrow> mpz_wf b \<Longrightarrow> mpz_val a \<noteq> 0 \<Longrightarrow> 2 \<le> \<bar>mpz_val b\<bar> \<Longrightarrow>
      mpz_val b ^ mpz_remove G a b dvd mpz_val a \<and> \<not> mpz_val b ^ Suc (mpz_remove G a b) dvd mpz_val a"
    and mpz_remove_trivial: "mpz_wf a \<Longrightarrow> mpz_wf b \<Longrightarrow> mpz_val a = 0 \<or> \<bar>mpz_val b\<bar> = 1 \<Longrightarrow>
      mpz_remove G a b = 0"
    and mpz_sqrt: "mpz_wf a \<Longrightarrow> 0 \<le> mpz_val a \<Longrightarrow> 0 \<le> s \<Longrightarrow> s ^ 2 \<le> mpz_val a \<Longrightarrow>
      mpz_val a < (s + 1) ^ 2 \<Longrightarrow> mpz_fits d s \<Longrightarrow> mpz_out (length (mp_d d)) (mpz_sqrt G d a) s"
    and mpz_root: "mpz_wf a \<Longrightarrow> 0 < unat n \<Longrightarrow> 0 \<le> mpz_val a \<or> odd (unat n) \<Longrightarrow> 0 \<le> s \<Longrightarrow>
      s ^ unat n \<le> \<bar>mpz_val a\<bar> \<Longrightarrow> \<bar>mpz_val a\<bar> < (s + 1) ^ unat n \<Longrightarrow> mpz_fits d s \<Longrightarrow>
      mpz_out (length (mp_d d)) (mpz_root G d a n) (sgn (mpz_val a) * s)"
    and mpz_invert_Some: "mpz_wf a \<Longrightarrow> mpz_wf m \<Longrightarrow> mpz_val m \<noteq> 0 \<Longrightarrow>
      coprime (mpz_val a) (mpz_val m) \<Longrightarrow> mpz_fits d (mpz_val m) \<Longrightarrow>
      \<exists>r x. mpz_invert G d a m = Some r \<and> mpz_out (length (mp_d d)) r x \<and>
        0 \<le> x \<and> x < \<bar>mpz_val m\<bar> \<and> (mpz_val a * x) mod \<bar>mpz_val m\<bar> = 1 mod \<bar>mpz_val m\<bar>"
    and mpz_invert_None: "mpz_wf a \<Longrightarrow> mpz_wf m \<Longrightarrow> mpz_val m \<noteq> 0 \<Longrightarrow>
      \<not> coprime (mpz_val a) (mpz_val m) \<Longrightarrow> mpz_invert G d a m = None"
    and mpz_powm: "mpz_wf a \<Longrightarrow> mpz_wf e \<Longrightarrow> mpz_wf m \<Longrightarrow> mpz_val m \<noteq> 0 \<Longrightarrow> 0 \<le> mpz_val e \<Longrightarrow>
      mpz_fits d (mpz_val m) \<Longrightarrow>
      mpz_out (length (mp_d d)) (mpz_powm G d a e m) (mpz_val a ^ nat (mpz_val e) mod \<bar>mpz_val m\<bar>)"
    and mpz_sizeinbase: "mpz_wf a \<Longrightarrow> 2 \<le> base \<Longrightarrow> base \<le> 36 \<Longrightarrow>
      length (digits_str (nat base) (nat \<bar>mpz_val a\<bar>)) \<le> mpz_sizeinbase G a base"
    and mpz_get_str: "mpz_wf a \<Longrightarrow> 2 \<le> base \<Longrightarrow> base \<le> 36 \<Longrightarrow>
      mpz_get_str G (- base) a =
        (if mpz_val a < 0 then ''-'' else []) @ digits_str (nat base) (nat \<bar>mpz_val a\<bar>)"


subsection \<open>A reference instance\<close>

text \<open>
  Every routine computed on natural numbers: counting up for roots, valuations and inverses. It
  shows that the contract can be met and lets concrete calls be evaluated.
\<close>

definition count_root :: "nat \<Rightarrow> nat \<Rightarrow> nat" where
  "count_root n k = length (takeWhile (\<lambda>s. Suc s ^ n \<le> k) [0..<k])"

definition count_valuation :: "int \<Rightarrow> int \<Rightarrow> nat" where
  "count_valuation b a =
     (if \<bar>b\<bar> = 1 then 0 else length (takeWhile (\<lambda>k. b ^ Suc k dvd a) [0..<nat \<bar>a\<bar>]))"

definition find_inverse :: "int \<Rightarrow> int \<Rightarrow> int option" where
  "find_inverse a m = find (\<lambda>x. (a * x) mod m = 1 mod m) [0..m - 1]"

definition dest_of :: "mpz \<Rightarrow> int \<Rightarrow> mpz" where
  "dest_of d x = mpz_of (length (mp_d d)) x"

definition new_mpz :: "int \<Rightarrow> mpz" where
  "new_mpz x = mpz_of (limb_size (nat \<bar>x\<bar>)) x"

definition gmp_ref :: gmp where
  "gmp_ref = \<lparr>
     mpn_cmp = (\<lambda>xs ys. sgn (int (limbs_val xs) - int (limbs_val ys))),
     mpn_mod_1 = (\<lambda>xs w. word_of_nat (limbs_val xs mod unat w)),
     mpn_divrem_1 = (\<lambda>xs w. limbs_of (length xs) (limbs_val xs div unat w)),
     mpn_tdiv_qr = (\<lambda>xs ys. (limbs_of (length xs - length ys + 1) (limbs_val xs div limbs_val ys),
       limbs_of (length ys) (limbs_val xs mod limbs_val ys))),
     mpz_add = (\<lambda>d a b. dest_of d (mpz_val a + mpz_val b)),
     mpz_sub = (\<lambda>d a b. dest_of d (mpz_val a - mpz_val b)),
     mpz_mul = (\<lambda>d a b. dest_of d (mpz_val a * mpz_val b)),
     mpz_gcd_ui = (\<lambda>a w. word_of_int (gcd (mpz_val a) (int (unat w)))),
     mpz_gcd = (\<lambda>d a b. dest_of d (gcd (mpz_val a) (mpz_val b))),
     mpz_lcm = (\<lambda>d a b. dest_of d (lcm (mpz_val a) (mpz_val b))),
     mpz_fac_ui = (\<lambda>n. new_mpz (fact (unat n))),
     mpz_bin_uiui = (\<lambda>n k. new_mpz (int (unat n choose unat k))),
     mpz_bin_ui = (\<lambda>a k. new_mpz (int (nat (mpz_val a) choose unat k))),
     mpz_remove = (\<lambda>a b. count_valuation (mpz_val b) (mpz_val a)),
     mpz_sqrt = (\<lambda>d a. dest_of d (int (count_root 2 (nat (mpz_val a))))),
     mpz_root = (\<lambda>d a n. dest_of d (sgn (mpz_val a) * int (count_root (unat n) (nat \<bar>mpz_val a\<bar>)))),
     mpz_invert = (\<lambda>d a m. map_option (dest_of d) (find_inverse (mpz_val a) \<bar>mpz_val m\<bar>)),
     mpz_powm = (\<lambda>d a e m. dest_of d (mpz_val a ^ nat (mpz_val e) mod \<bar>mpz_val m\<bar>)),
     mpz_sizeinbase = (\<lambda>a b. length (digits_str (nat b) (nat \<bar>mpz_val a\<bar>))),
     mpz_get_str = (\<lambda>b a. (if mpz_val a < 0 then ''-'' else []) @
       digits_str (nat (- b)) (nat \<bar>mpz_val a\<bar>)) \<rparr>"

lemma mpz_out_dest_of: "mpz_fits d x \<Longrightarrow> mpz_out (length (mp_d d)) (dest_of d x) x"
  by (simp add: mpz_fits_def dest_of_def mpz_out_mpz_of)

lemma limbs_of_last:
  assumes "0 < k"
  shows "limbs_of (limb_size k) k ! (limb_size k - 1) \<noteq> 0"
proof -
  let ?ls = "limbs_of (limb_size k) k"
  have pos: "0 < limb_size k" using assms by (simp add: limb_size_pos)
  then have ne: "?ls \<noteq> []" by (metis length_limbs_of length_greater_0_conv)
  have val: "limbs_val ?ls = k" by (rule limbs_val_limbs_of) (rule limb_size_bound)
  have "last ?ls \<noteq> 0"
  proof
    assume "last ?ls = 0"
    then have "limbs_val ?ls = limbs_val (butlast ?ls)"
      using limbs_val_append [of "butlast ?ls" "[last ?ls]"] append_butlast_last_id [OF ne] by simp
    then have "k < 2 ^ (64 * (limb_size k - 1))"
      using limbs_val_bound [of "butlast ?ls"] unfolding val length_butlast length_limbs_of by simp
    then have "limb_size k \<le> limb_size k - 1" unfolding limb_size_le_iff .
    with pos show False by linarith
  qed
  with ne show ?thesis by (simp add: last_conv_nth)
qed

lemma mpz_new: "mpz_wf (new_mpz x)" "mpz_val (new_mpz x) = x"
proof -
  show "mpz_wf (new_mpz x)"
    using limbs_of_last [of "nat \<bar>x\<bar>"]
    by (auto simp: mpz_wf_def new_mpz_def mpz_of_def abs_mult nat_mult_distrib)
  have "limbs_val (limbs_of (limb_size (nat \<bar>x\<bar>)) (nat \<bar>x\<bar>)) = nat \<bar>x\<bar>"
    by (rule limbs_val_limbs_of) (rule limb_size_bound)
  then show "mpz_val (new_mpz x) = x"
    by (cases x "0 :: int" rule: linorder_cases) (simp_all add: mpz_val_def new_mpz_def mpz_of_def)
qed

lemma takeWhile_upt_length:
  assumes "\<And>i. i < s \<Longrightarrow> P i" "\<not> P s" "s \<le> k"
  shows "length (takeWhile P [0..<k]) = s"
proof -
  have split: "[0..<k] = [0..<s] @ [s..<k]"
    using assms(3) upt_add_eq_append [of 0 s "k - s"] by simp
  moreover have "takeWhile P [s..<k] = []"
    using assms(2) by (cases "s < k") (simp_all add: upt_conv_Cons)
  moreover have "takeWhile P ([0..<s] @ ys) = [0..<s] @ takeWhile P ys" for ys
    using assms(1) by (intro takeWhile_append2) simp
  ultimately show ?thesis by (metis append_Nil2 diff_zero length_upt)
qed

lemma count_root_unique:
  assumes "s ^ n \<le> k" "k < Suc s ^ n" "0 < n"
  shows "count_root n k = s"
  unfolding count_root_def
proof (rule takeWhile_upt_length)
  fix i assume "i < s"
  then have "Suc i ^ n \<le> s ^ n" by (intro power_mono) auto
  then show "Suc i ^ n \<le> k" using assms(1) by simp
next
  show "\<not> Suc s ^ n \<le> k" using assms(2) by simp
  show "s \<le> k" using assms(1) self_le_power [of s n] assms(3) by (cases "s = 0") auto
qed

lemma count_root_int:
  fixes a s :: int
  assumes "0 \<le> s" "s ^ n \<le> \<bar>a\<bar>" "\<bar>a\<bar> < (s + 1) ^ n" "0 < n"
  shows "int (count_root n (nat \<bar>a\<bar>)) = s"
proof -
  have "nat s ^ n \<le> nat \<bar>a\<bar>"
    using assms(1,2) by (simp add: nat_power_eq [symmetric] nat_le_eq_zle)
  moreover have "nat \<bar>a\<bar> < Suc (nat s) ^ n"
  proof -
    have "int (nat \<bar>a\<bar>) < int (Suc (nat s) ^ n)" using assms(1,3) by (simp add: add.commute)
    then show ?thesis by (simp only: of_nat_less_iff)
  qed
  ultimately show ?thesis using count_root_unique [of "nat s" n "nat \<bar>a\<bar>"] assms(1,4) by simp
qed

lemma count_valuation_spec:
  fixes a b :: int
  assumes "a \<noteq> 0" "2 \<le> \<bar>b\<bar>"
  shows "b ^ count_valuation b a dvd a \<and> \<not> b ^ Suc (count_valuation b a) dvd a"
proof -
  let ?P = "\<lambda>k. \<not> b ^ Suc k dvd a"
  have big: "nat \<bar>a\<bar> < 2 ^ k \<Longrightarrow> \<not> b ^ k dvd a" for k
  proof
    assume lt: "nat \<bar>a\<bar> < 2 ^ k" and "b ^ k dvd a"
    then have "\<bar>b ^ k\<bar> \<le> \<bar>a\<bar>" using dvd_imp_le_int [OF assms(1)] by blast
    moreover have "2 ^ k \<le> \<bar>b ^ k\<bar>" using power_mono [OF assms(2), of k] by (simp add: power_abs)
    ultimately show False using lt by (simp add: nat_less_iff)
  qed
  have ex: "?P (nat \<bar>a\<bar>)" using big [of "Suc (nat \<bar>a\<bar>)"] less_exp [of "nat \<bar>a\<bar>"] by simp
  define s where "s = (LEAST k. ?P k)"
  have s: "?P s" "\<And>i. i < s \<Longrightarrow> \<not> ?P i" "s \<le> nat \<bar>a\<bar>"
    unfolding s_def using ex by (rule LeastI, auto dest: not_less_Least intro: Least_le)
  have "count_valuation b a = s"
    using s takeWhile_upt_length [of s "\<lambda>k. b ^ Suc k dvd a" "nat \<bar>a\<bar>"] assms(2)
    unfolding count_valuation_def by (auto simp del: power_Suc)
  moreover have "b ^ s dvd a" using s(2) by (cases s) auto
  ultimately show ?thesis using s(1) by simp
qed

lemma find_inverse_Some:
  assumes "coprime a m" "0 < m"
  shows "\<exists>x. find_inverse a m = Some x \<and> 0 \<le> x \<and> x < m \<and> (a * x) mod m = 1 mod m"
proof -
  obtain u v where uv: "u * a + v * m = 1"
    using assms(1) bezout_int [of a m] by (auto simp: coprime_iff_gcd_eq_1)
  have "(a * (u mod m)) mod m = (u * a + v * m) mod m"
    by (simp add: mod_mult_right_eq mult.commute)
  then have "\<exists>x \<in> set [0..m - 1]. (a * x) mod m = 1 mod m"
    using assms(2) uv by (auto intro!: bexI [of _ "u mod m"])
  then obtain y where "find_inverse a m = Some y"
    unfolding find_inverse_def by (cases "find (\<lambda>x. (a * x) mod m = 1 mod m) [0..m - 1]")
      (auto simp: find_None_iff)
  then have "y \<in> set [0..m - 1] \<and> (a * y) mod m = 1 mod m"
    unfolding find_inverse_def find_Some_iff by (metis nth_mem)
  with \<open>find_inverse a m = Some y\<close> show ?thesis by auto
qed

lemma find_inverse_None:
  assumes "\<not> coprime a m" "0 < m"
  shows "find_inverse a m = None"
proof -
  have "\<not> (a * x) mod m = 1 mod m" for x
  proof
    assume "(a * x) mod m = 1 mod m"
    then have "m dvd a * x - 1" by (simp add: mod_eq_dvd_iff)
    then have "gcd a m dvd a * x - 1" by (rule dvd_trans [OF gcd_dvd2])
    moreover have "gcd a m dvd a * x" by (rule dvd_mult2) simp
    ultimately have "gcd a m dvd 1" using dvd_diff [of "gcd a m" "a * x" "a * x - 1"] by simp
    with assms(1) show False by (simp add: coprime_iff_gcd_eq_1)
  qed
  then show ?thesis by (auto simp: find_inverse_def find_None_iff)
qed


lemma unat_mod_1: "(w :: UInt) \<noteq> 0 \<Longrightarrow> unat (word_of_nat (n mod unat w) :: UInt) = n mod unat w"
proof -
  assume "w \<noteq> 0"
  then have "n mod unat w < unat w" by (intro mod_less_divisor) (simp add: unat_gt_0)
  also have "\<dots> < 18446744073709551616" by (rule unat_UInt_lt)
  finally show ?thesis by (simp add: unat_of_nat)
qed

lemma uint_gcd_ui:
  fixes w :: UInt
  assumes "w \<noteq> 0"
  shows "uint (word_of_int (gcd a (uint w)) :: UInt) = gcd a (uint w)"
proof -
  have "0 < uint w" using assms by (metis uint_0_iff uint_ge_0 order_less_le)
  then have "gcd a (uint w) \<le> uint w" by (intro zdvd_imp_le) simp_all
  also have "uint w < 2 ^ 64" using uint_lt2p [of w] by simp
  finally show ?thesis by (simp add: uint_word_of_int)
qed

lemma div_bound: "length ys \<le> length xs \<Longrightarrow> ys \<noteq> [] \<Longrightarrow> last ys \<noteq> 0 \<Longrightarrow>
  limbs_val xs div limbs_val ys < 2 ^ (64 * (length xs - length ys + 1))"
proof -
  assume len: "length ys \<le> length xs" and ys: "ys \<noteq> []" "last ys \<noteq> 0"
  have "limbs_val xs < 2 ^ (64 * length xs)" by (rule limbs_val_bound)
  also have "64 * length xs = 64 * (length xs - length ys + 1) + 64 * (length ys - 1)"
    using len ys(1) by (cases ys) auto
  also have "(2::nat) ^ \<dots> \<le> 2 ^ (64 * (length xs - length ys + 1)) * limbs_val ys"
    unfolding power_add by (intro mult_le_mono2 limbs_val_lower ys)
  finally show ?thesis by (intro less_mult_imp_div_less)
qed

interpretation gmp_ref: gmp_contract gmp_ref
proof (unfold_locales, goal_cases)
  case (3 w xs)
  then show ?case
    using limbs_val_bound [of xs]
    by (simp add: gmp_ref_def limbs_val_limbs_of le_less_trans [OF div_le_dividend])
next
  case (4 ys xs q r)
  have "limbs_val xs mod limbs_val ys < limbs_val ys"
    using limbs_val_lower [of ys] 4(1,2) by (intro mod_less_divisor) (metis power_0 zero_less_power
      less_le_trans zero_less_numeral)
  then have "limbs_val xs mod limbs_val ys < 2 ^ (64 * length ys)"
    using limbs_val_bound less_trans by blast
  with 4 div_bound [of ys xs] show ?case
    by (auto simp: gmp_ref_def limbs_val_limbs_of simp del: limbs_of.simps power_Suc)
next
  case (16 a s d)
  then show ?case using count_root_int [of s 2 "mpz_val a"] by (simp add: gmp_ref_def mpz_out_dest_of)
next
  case (17 a n s d)
  then have "int (count_root (unat n) (nat \<bar>mpz_val a\<bar>)) = s" by (intro count_root_int)
  moreover have "mpz_fits d (sgn (mpz_val a) * s)"
    using \<open>mpz_fits d s\<close> by (auto simp: mpz_fits_def abs_mult sgn_if)
  ultimately show ?case by (simp add: gmp_ref_def mpz_out_dest_of)
next
  case (18 a m d)
  then have "coprime (mpz_val a) \<bar>mpz_val m\<bar>" "0 < \<bar>mpz_val m\<bar>" by simp_all
  from find_inverse_Some [OF this] obtain x where x: "find_inverse (mpz_val a) \<bar>mpz_val m\<bar> = Some x"
    "0 \<le> x" "x < \<bar>mpz_val m\<bar>" "(mpz_val a * x) mod \<bar>mpz_val m\<bar> = 1 mod \<bar>mpz_val m\<bar>" by blast
  then have "mpz_fits d x" using \<open>mpz_fits d (mpz_val m)\<close> by (auto simp: mpz_fits_def)
  with x mpz_out_dest_of [of d x] show ?case by (auto simp: gmp_ref_def intro!: exI [of _ x])
next
  case (19 a m d)
  then show ?case by (simp add: gmp_ref_def find_inverse_None)
next
  case (20 a e m d)
  then have "nat \<bar>mpz_val a ^ nat (mpz_val e) mod \<bar>mpz_val m\<bar>\<bar> < nat \<bar>mpz_val m\<bar>" by simp
  with 20 have "mpz_fits d (mpz_val a ^ nat (mpz_val e) mod \<bar>mpz_val m\<bar>)"
    unfolding mpz_fits_def using less_trans by blast
  then show ?case by (simp add: gmp_ref_def mpz_out_dest_of)
next
  case (15 a b)
  then show ?case by (auto simp: gmp_ref_def count_valuation_def)
qed (simp_all add: gmp_ref_def unat_mod_1 uint_gcd_ui mpz_out_dest_of mpz_new count_valuation_spec
    del: power_Suc)

end
