(* ===== verification/Integer.thy ===== *)
theory Integer
  imports IntObj Gmp
begin

text \<open>
  Integers of arbitrary size, \<open>src/src/integer.c\<close> and the predicates of \<open>src/src/integer.h\<close>. An
  integer object is an immediate integer (a tagged word) or a bag of type \<open>T_INTPOS\<close> or
  \<open>T_INTNEG\<close> holding the limbs of its absolute value. The kernel keeps every integer normalized
  (no leading zero limb) and reduced (an integer that fits an immediate handle is one):
  \<open>valid_int\<close> is that invariant, \<open>int_val\<close> the integer an object denotes. Each operation follows
  the C function of its name; GMP enters through the record of \<open>Gmp\<close>.
\<close>

datatype gapint = T_INT UInt | T_INTPOS "UInt list" | T_INTNEG "UInt list"

abbreviation INTOBJ :: "int \<Rightarrow> gapint" where
  "INTOBJ i \<equiv> T_INT (INTOBJ_INT i)"

fun int_val :: "gapint \<Rightarrow> int" where
  "int_val (T_INT w) = INT_INTOBJ w"
| "int_val (T_INTPOS d) = int (limbs_val d)"
| "int_val (T_INTNEG d) = - int (limbs_val d)"

fun IS_INTPOS :: "gapint \<Rightarrow> bool" where
  "IS_INTPOS (T_INTPOS d) = True"
| "IS_INTPOS _ = False"

fun IS_INTNEG :: "gapint \<Rightarrow> bool" where
  "IS_INTNEG (T_INTNEG d) = True"
| "IS_INTNEG _ = False"

fun IS_SMALL :: "gapint \<Rightarrow> bool" where
  "IS_SMALL (T_INT w) = True"
| "IS_SMALL _ = False"

text \<open>\<open>CONST_ADDR_INT\<close>, \<open>SIZE_INT\<close> and \<open>VAL_LIMB0\<close> of a large integer.\<close>

fun LIMBS :: "gapint \<Rightarrow> UInt list" where
  "LIMBS (T_INT w) = []"
| "LIMBS (T_INTPOS d) = d"
| "LIMBS (T_INTNEG d) = d"

definition SIZE_INT :: "gapint \<Rightarrow> nat" where
  "SIZE_INT x = length (LIMBS x)"

definition VAL_LIMB0 :: "gapint \<Rightarrow> UInt" where
  "VAL_LIMB0 x = LIMBS x ! 0"

definition SIZE_INT_OR_INTOBJ :: "gapint \<Rightarrow> nat" where
  "SIZE_INT_OR_INTOBJ x = (if IS_SMALL x then 1 else SIZE_INT x)"

fun IS_NEG_INT :: "gapint \<Rightarrow> bool" where
  "IS_NEG_INT (T_INT w) = (sint w < sint (INTOBJ_INT 0))"
| "IS_NEG_INT x = IS_INTNEG x"

fun IS_POS_INT :: "gapint \<Rightarrow> bool" where
  "IS_POS_INT (T_INT w) = (sint w > sint (INTOBJ_INT 0))"
| "IS_POS_INT x = IS_INTPOS x"

fun IS_ODD_INT :: "gapint \<Rightarrow> bool" where
  "IS_ODD_INT (T_INT w) = (w AND 4 \<noteq> 0)"
| "IS_ODD_INT x = (VAL_LIMB0 x AND 1 \<noteq> 0)"

definition IS_EVEN_INT :: "gapint \<Rightarrow> bool" where
  "IS_EVEN_INT x = (\<not> IS_ODD_INT x)"

subsection \<open>Normalization\<close>

text \<open>The loop that looks for the topmost nonzero limb, stopping at the lowest one.\<close>

fun norm_size :: "UInt list \<Rightarrow> nat \<Rightarrow> nat" where
  "norm_size d 0 = 0"
| "norm_size d (Suc n) = (if Suc n = 1 \<or> d ! n \<noteq> 0 then Suc n else norm_size d n)"

definition normalize_limbs :: "UInt list \<Rightarrow> UInt list" where
  "normalize_limbs d = take (norm_size d (length d)) d"

fun GMP_NORMALIZE :: "gapint \<Rightarrow> gapint" where
  "GMP_NORMALIZE (T_INT w) = T_INT w"
| "GMP_NORMALIZE (T_INTPOS d) =
     (let d = normalize_limbs d in
      if length d = 1 \<and> uint (d ! 0) \<le> INT_INTOBJ_MAX then INTOBJ (sint (d ! 0)) else T_INTPOS d)"
| "GMP_NORMALIZE (T_INTNEG d) =
     (let d = normalize_limbs d in
      if length d = 1 \<and> (uint (d ! 0) \<le> INT_INTOBJ_MAX \<or> uint (d ! 0) = - INT_INTOBJ_MIN)
      then INTOBJ (- sint (d ! 0)) else T_INTNEG d)"

text \<open>
  The check behind \<open>CHECK_INT\<close> in a debug build: the messages it prints and its answer. A zero limb at the top
  prints a message and does not change the answer. Well-formed objects are those it passes without a message.
\<close>

datatype int_warning = NonNormalized | NonReducedNegative | NonReducedPositive

fun IS_NORMALIZED_AND_REDUCED :: "gapint \<Rightarrow> int_warning list \<times> bool" where
  "IS_NORMALIZED_AND_REDUCED (T_INT w) = ([], True)"
| "IS_NORMALIZED_AND_REDUCED (T_INTPOS d) =
     (let pr = (if norm_size d (length d) < length d then [NonNormalized] else []) in
      if length d = 1 \<and> uint (d ! 0) \<le> INT_INTOBJ_MAX then (pr @ [NonReducedPositive], False)
      else (pr, True))"
| "IS_NORMALIZED_AND_REDUCED (T_INTNEG d) =
     (let pr = (if norm_size d (length d) < length d then [NonNormalized] else []) in
      if length d = 1 \<and> (uint (d ! 0) \<le> INT_INTOBJ_MAX \<or> uint (d ! 0) = - INT_INTOBJ_MIN)
      then (pr @ [NonReducedNegative], False)
      else (pr, True))"

definition valid_int :: "gapint \<Rightarrow> bool" where
  "valid_int x \<longleftrightarrow> IS_NORMALIZED_AND_REDUCED x = ([], True) \<and>
     (case x of T_INT w \<Rightarrow> valid_intobj w | _ \<Rightarrow> LIMBS x \<noteq> [])"

subsection \<open>Conversions to and from C integers\<close>

definition ObjInt_Int :: "int \<Rightarrow> gapint" where
  "ObjInt_Int i =
     (if INT_INTOBJ_MIN \<le> i \<and> i \<le> INT_INTOBJ_MAX then INTOBJ i
      else if i < 0 then T_INTNEG [0 - word_of_int i]
      else T_INTPOS [word_of_int i])"

definition ObjInt_UInt :: "UInt \<Rightarrow> gapint" where
  "ObjInt_UInt i = (if uint i \<le> INT_INTOBJ_MAX then INTOBJ (sint i) else T_INTPOS [i])"

definition ObjInt_UIntInv :: "UInt \<Rightarrow> gapint" where
  "ObjInt_UIntInv i = (if uint i \<le> - INT_INTOBJ_MIN then INTOBJ (sint (- i)) else T_INTNEG [i])"

fun Int_ObjInt :: "gapint \<Rightarrow> int result" where
  "Int_ObjInt (T_INT w) = Inr (INT_INTOBJ w)"
| "Int_ObjInt (T_INTPOS d) =
     (if length d \<noteq> 1 then Inl ''Conversion error: integer too large''
      else let val = d ! 0 in
        if uint val > 2 ^ 63 - 1 then Inl ''Conversion error: integer too large''
        else Inr (sint val))"
| "Int_ObjInt (T_INTNEG d) =
     (if length d \<noteq> 1 then Inl ''Conversion error: integer too large''
      else let val = d ! 0 in
        if uint val > 2 ^ 63 then Inl ''Conversion error: integer too large''
        else Inr (sint (0 - val)))"

definition UInt_ObjInt :: "gapint \<Rightarrow> UInt result" where
  "UInt_ObjInt i =
     (if IS_NEG_INT i
      then Inl ''Conversion error: cannot convert negative integer to unsigned type''
      else case i of
        T_INT w \<Rightarrow> Inr (word_of_int (INT_INTOBJ w))
      | _ \<Rightarrow> if SIZE_INT i \<noteq> 1 then Inl ''Conversion error: integer too large''
             else Inr (VAL_LIMB0 i))"

definition MakeObjInt :: "UInt list \<Rightarrow> int \<Rightarrow> gapint" where
  "MakeObjInt limbs sz =
     (if sz = 0 then INTOBJ 0
      else if sz = 1 then ObjInt_UInt (limbs ! 0)
      else if sz = -1 then ObjInt_UIntInv (limbs ! 0)
      else let d = take (nat \<bar>sz\<bar>) limbs in
        GMP_NORMALIZE (if sz > 0 then T_INTPOS d else T_INTNEG d))"

definition AbsOfSmallInt :: "gapint \<Rightarrow> UInt" where
  "AbsOfSmallInt x =
     (case x of
        T_INT w \<Rightarrow> let val = INT_INTOBJ w in word_of_int (if val > 0 then val else - val)
      | _ \<Rightarrow> VAL_LIMB0 x)"

subsection \<open>Passing integers to GMP\<close>

text \<open>\<open>fake_mpz_t\<close>: an \<open>mpz_t\<close> whose limbs are a GAP bag, or the one-limb field \<open>tmp\<close>.\<close>

record fake_mpz =
  mpz_v :: mpz
  has_obj :: bool

definition NEW_FAKEMPZ :: "nat \<Rightarrow> fake_mpz" where
  "NEW_FAKEMPZ sz = \<lparr>mpz_v = \<lparr>mp_size = 0, mp_d = replicate sz 0\<rparr>, has_obj = (sz \<noteq> 1)\<rparr>"

fun FAKEMPZ_GMPorINTOBJ :: "gapint \<Rightarrow> fake_mpz" where
  "FAKEMPZ_GMPorINTOBJ (T_INT w) =
     (let i = INT_INTOBJ w in
      if i \<ge> 0
      then \<lparr>mpz_v = \<lparr>mp_size = (if i \<noteq> 0 then 1 else 0), mp_d = [word_of_int i]\<rparr>, has_obj = False\<rparr>
      else \<lparr>mpz_v = \<lparr>mp_size = -1, mp_d = [word_of_int (- i)]\<rparr>, has_obj = False\<rparr>)"
| "FAKEMPZ_GMPorINTOBJ (T_INTPOS d) =
     \<lparr>mpz_v = \<lparr>mp_size = int (length d), mp_d = d\<rparr>, has_obj = True\<rparr>"
| "FAKEMPZ_GMPorINTOBJ (T_INTNEG d) =
     \<lparr>mpz_v = \<lparr>mp_size = - int (length d), mp_d = d\<rparr>, has_obj = True\<rparr>"

definition GMPorINTOBJ_FAKEMPZ :: "fake_mpz \<Rightarrow> gapint" where
  "GMPorINTOBJ_FAKEMPZ f =
     (if mp_size (mpz_v f) = 0 then INTOBJ 0
      else if has_obj f then
        GMP_NORMALIZE (if mp_size (mpz_v f) < 0 then T_INTNEG (mp_d (mpz_v f)) else T_INTPOS (mp_d (mpz_v f)))
      else if mp_size (mpz_v f) = 1 then ObjInt_UInt (mp_d (mpz_v f) ! 0)
      else ObjInt_UIntInv (mp_d (mpz_v f) ! 0))"

definition GMPorINTOBJ_MPZ :: "mpz \<Rightarrow> gapint" where
  "GMPorINTOBJ_MPZ z = MakeObjInt (mp_d z) (mp_size z)"

subsection \<open>Comparison\<close>

definition EqInt :: "gmp \<Rightarrow> gapint \<Rightarrow> gapint \<Rightarrow> bool" where
  "EqInt G opL opR =
     (if IS_SMALL opL \<or> IS_SMALL opR then opL = opR
      else if IS_INTPOS opL \<noteq> IS_INTPOS opR \<or> SIZE_INT opL \<noteq> SIZE_INT opR then False
      else mpn_cmp G (LIMBS opL) (LIMBS opR) = 0)"

definition LtInt :: "gmp \<Rightarrow> gapint \<Rightarrow> gapint \<Rightarrow> bool" where
  "LtInt G opL opR =
     (case (opL, opR) of
        (T_INT l, T_INT r) \<Rightarrow> sint l < sint r
      | (T_INT l, _) \<Rightarrow> IS_INTPOS opR
      | (_, T_INT r) \<Rightarrow> IS_INTNEG opL
      | _ \<Rightarrow>
        if IS_INTPOS opL \<noteq> IS_INTPOS opR then IS_INTNEG opL
        else
          let res = (if SIZE_INT opL < SIZE_INT opR then -1
                     else if SIZE_INT opL > SIZE_INT opR then 1
                     else mpn_cmp G (LIMBS opL) (LIMBS opR));
              res = (if IS_INTNEG opL then - res else res)
          in res < 0)"

subsection \<open>Additive operations\<close>

definition AInvInt :: "gapint \<Rightarrow> gapint" where
  "AInvInt op =
     (case op of
        T_INT w \<Rightarrow> if w = INTOBJ_MIN then T_INTPOS [word_of_int (- INT_INTOBJ_MIN)]
                   else INTOBJ (- INT_INTOBJ w)
      | T_INTPOS d \<Rightarrow> if length d = 1 \<and> uint (d ! 0) = - INT_INTOBJ_MIN then T_INT INTOBJ_MIN
                      else T_INTNEG d
      | T_INTNEG d \<Rightarrow> T_INTPOS d)"

definition SumOrDiffInt :: "gmp \<Rightarrow> gapint \<Rightarrow> gapint \<Rightarrow> int \<Rightarrow> gapint" where
  "SumOrDiffInt G opL opR sign =
     (if opR = INTOBJ 0 then opL
      else if opL = INTOBJ 0 then (if sign = 1 then opR else AInvInt opR)
      else
        let sizeL = SIZE_INT_OR_INTOBJ opL; sizeR = SIZE_INT_OR_INTOBJ opR;
            mpzResult = NEW_FAKEMPZ (if sizeL > sizeR then sizeL + 1 else sizeR + 1);
            mpzL = FAKEMPZ_GMPorINTOBJ opL; mpzR = FAKEMPZ_GMPorINTOBJ opR
        in GMPorINTOBJ_FAKEMPZ (mpzResult\<lparr>mpz_v :=
             (if sign = 1 then mpz_add G (mpz_v mpzResult) (mpz_v mpzL) (mpz_v mpzR)
              else mpz_sub G (mpz_v mpzResult) (mpz_v mpzL) (mpz_v mpzR))\<rparr>))"

definition SumInt :: "gmp \<Rightarrow> gapint \<Rightarrow> gapint \<Rightarrow> gapint" where
  "SumInt G opL opR =
     (case (opL, opR) of
        (T_INT l, T_INT r) \<Rightarrow>
          (case sum_intobjs l r of Some s \<Rightarrow> T_INT s | None \<Rightarrow> SumOrDiffInt G opL opR 1)
      | _ \<Rightarrow> SumOrDiffInt G opL opR 1)"

definition DiffInt :: "gmp \<Rightarrow> gapint \<Rightarrow> gapint \<Rightarrow> gapint" where
  "DiffInt G opL opR =
     (case (opL, opR) of
        (T_INT l, T_INT r) \<Rightarrow>
          (case diff_intobjs l r of Some s \<Rightarrow> T_INT s | None \<Rightarrow> SumOrDiffInt G opL opR (-1))
      | _ \<Rightarrow> SumOrDiffInt G opL opR (-1))"

text \<open>\<open>2 - op\<close> negates a tagged immediate word in place.\<close>

definition AbsInt :: "gapint \<Rightarrow> gapint" where
  "AbsInt op =
     (case op of
        T_INT w \<Rightarrow> if sint w > 0 then op
                   else if w = INTOBJ_MIN then T_INTPOS [word_of_int (- INT_INTOBJ_MIN)]
                   else T_INT (2 - w)
      | T_INTPOS d \<Rightarrow> op
      | T_INTNEG d \<Rightarrow> T_INTPOS d)"

definition SignInt :: "gapint \<Rightarrow> gapint" where
  "SignInt op =
     (case op of
        T_INT w \<Rightarrow> if op = INTOBJ 0 then INTOBJ 0
                   else if sint w > sint (INTOBJ_INT 0) then INTOBJ 1
                   else INTOBJ (-1)
      | T_INTPOS d \<Rightarrow> INTOBJ 1
      | T_INTNEG d \<Rightarrow> INTOBJ (-1))"

subsection \<open>Multiplication\<close>

definition ProdInt :: "gmp \<Rightarrow> gapint \<Rightarrow> gapint \<Rightarrow> gapint" where
  "ProdInt G opL opR =
     (let small = (case (opL, opR) of (T_INT l, T_INT r) \<Rightarrow> prod_intobjs l r | _ \<Rightarrow> 0) in
      if small \<noteq> 0 then T_INT small
      else if opL = INTOBJ 0 \<or> opR = INTOBJ 1 then opL
      else if opR = INTOBJ 0 \<or> opL = INTOBJ 1 then opR
      else if opR = INTOBJ (-1) then AInvInt opL
      else if opL = INTOBJ (-1) then AInvInt opR
      else
        let sizeL = SIZE_INT_OR_INTOBJ opL; sizeR = SIZE_INT_OR_INTOBJ opR;
            mpzResult = NEW_FAKEMPZ (sizeL + sizeR);
            mpzL = FAKEMPZ_GMPorINTOBJ opL; mpzR = FAKEMPZ_GMPorINTOBJ opR
        in GMPorINTOBJ_FAKEMPZ (mpzResult\<lparr>mpz_v := mpz_mul G (mpz_v mpzResult) (mpz_v mpzL) (mpz_v mpzR)\<rparr>))"


subsection \<open>The invariant and the denotation\<close>

lemma INTOBJ_bounds: "INT_INTOBJ_MAX = 2 ^ 60 - 1" "INT_INTOBJ_MIN = - (2 ^ 60)"
  by (simp_all add: INT_INTOBJ_MIN_def INT_INTOBJ_MAX_def NR_SMALL_INT_BITS_def)

lemma norm_size_le: "norm_size d n \<le> n"
  by (induction n) simp_all

lemma norm_size_props:
  assumes "0 < n"
  shows "0 < norm_size d n \<and> norm_size d n \<le> n \<and>
    (norm_size d n = 1 \<or> d ! (norm_size d n - 1) \<noteq> 0) \<and>
    (\<forall>i. norm_size d n \<le> i \<and> i < n \<longrightarrow> d ! i = 0)"
  using assms
proof (induction n)
  case (Suc n)
  show ?case
  proof (cases "n = 0 \<or> d ! n \<noteq> 0")
    case False
    with Suc.IH show ?thesis by (auto simp: less_Suc_eq le_SucI)
  qed auto
qed simp

lemma drop_all_zero:
  "(\<And>i. m \<le> i \<Longrightarrow> i < length d \<Longrightarrow> d ! i = 0) \<Longrightarrow> drop m d = replicate (length d - m) 0"
  by (rule nth_equalityI) auto

lemma normalize_limbs_val: "d \<noteq> [] \<Longrightarrow> limbs_val (normalize_limbs d) = limbs_val d"
proof -
  assume "d \<noteq> []"
  let ?m = "norm_size d (length d)"
  have "drop ?m d = replicate (length d - ?m) 0"
    using norm_size_props [of "length d" d] \<open>d \<noteq> []\<close> by (intro drop_all_zero) auto
  then have "d = take ?m d @ replicate (length d - ?m) 0" by (metis append_take_drop_id)
  then have "limbs_val d = limbs_val (take ?m d)" by (metis limbs_val_append limbs_val_zeros mult_0_right add_0_right)
  then show ?thesis by (simp add: normalize_limbs_def)
qed

lemma normalize_limbs_top:
  assumes "d \<noteq> []"
  shows "normalize_limbs d \<noteq> []" "length (normalize_limbs d) = 1 \<or> last (normalize_limbs d) \<noteq> 0"
proof -
  have props: "0 < norm_size d (length d)" "norm_size d (length d) \<le> length d"
    "norm_size d (length d) = 1 \<or> d ! (norm_size d (length d) - 1) \<noteq> 0"
    using norm_size_props [of "length d" d] assms by auto
  then show ne: "normalize_limbs d \<noteq> []" using assms by (auto simp: normalize_limbs_def)
  then show "length (normalize_limbs d) = 1 \<or> last (normalize_limbs d) \<noteq> 0"
    using props by (auto simp: normalize_limbs_def last_conv_nth)
qed

lemma checked_limbs:
  "IS_NORMALIZED_AND_REDUCED (T_INTPOS d) = ([], True) \<longleftrightarrow>
     norm_size d (length d) = length d \<and> \<not> (length d = 1 \<and> uint (d ! 0) \<le> INT_INTOBJ_MAX)"
  "IS_NORMALIZED_AND_REDUCED (T_INTNEG d) = ([], True) \<longleftrightarrow>
     norm_size d (length d) = length d \<and>
     \<not> (length d = 1 \<and> (uint (d ! 0) \<le> INT_INTOBJ_MAX \<or> uint (d ! 0) = - INT_INTOBJ_MIN))"
  using norm_size_le [of d "length d"] by (auto simp: Let_def)

lemma norm_size_full:
  assumes "d \<noteq> []"
  shows "norm_size d (length d) = length d \<longleftrightarrow> length d = 1 \<or> last d \<noteq> 0"
proof -
  obtain n where n: "length d = Suc n" using assms by (cases d) auto
  then have last: "last d = d ! n" using assms by (simp add: last_conv_nth)
  have "norm_size d n \<noteq> Suc n" using norm_size_le [of d n] by simp
  then show ?thesis unfolding n last norm_size.simps by simp
qed

text \<open>A large integer is one with a nonzero top limb that no handle can hold.\<close>

lemma one_limb_or_large:
  assumes "d \<noteq> []" "length d = 1 \<or> last d \<noteq> 0" "\<not> (length d = 1 \<and> uint (d ! 0) \<le> k)"
    "0 \<le> k" "k < 2 ^ 64"
  shows "last d \<noteq> 0 \<and> k < int (limbs_val d)"
proof (cases "length d = 1")
  case True
  then obtain l where "d = [l]" by (auto simp: length_Suc_conv)
  with assms show ?thesis by auto
next
  case False
  moreover have "length d \<noteq> 0" using assms(1) by simp
  ultimately have "1 \<le> length d - 1" by linarith
  then have "(2::nat) ^ (64 * 1) \<le> 2 ^ (64 * (length d - 1))" by (intro power_increasing) auto
  also have "\<dots> \<le> limbs_val d" using assms False by (intro limbs_val_lower) auto
  finally show ?thesis using assms False by auto
qed

lemma limbs_val_one: "length d = 1 \<Longrightarrow> int (limbs_val d) = uint (d ! 0)"
  by (auto simp: length_Suc_conv)

lemma valid_T_INT [simp]: "valid_int (T_INT w) \<longleftrightarrow> valid_intobj w"
  by (simp add: valid_int_def)

lemma valid_T_INTPOS:
  "valid_int (T_INTPOS d) \<longleftrightarrow> d \<noteq> [] \<and> last d \<noteq> 0 \<and> 2 ^ 60 \<le> int (limbs_val d)"
proof
  assume "valid_int (T_INTPOS d)"
  then show "d \<noteq> [] \<and> last d \<noteq> 0 \<and> 2 ^ 60 \<le> int (limbs_val d)"
    using one_limb_or_large [of d INT_INTOBJ_MAX] norm_size_full [of d]
    by (auto simp: valid_int_def checked_limbs INTOBJ_bounds simp del: IS_NORMALIZED_AND_REDUCED.simps)
next
  assume "d \<noteq> [] \<and> last d \<noteq> 0 \<and> 2 ^ 60 \<le> int (limbs_val d)"
  then show "valid_int (T_INTPOS d)"
    using norm_size_full [of d] limbs_val_one [of d] by (auto simp: valid_int_def checked_limbs INTOBJ_bounds simp del: IS_NORMALIZED_AND_REDUCED.simps)
qed

lemma valid_T_INTNEG:
  "valid_int (T_INTNEG d) \<longleftrightarrow> d \<noteq> [] \<and> last d \<noteq> 0 \<and> 2 ^ 60 < int (limbs_val d)"
proof
  assume "valid_int (T_INTNEG d)"
  then show "d \<noteq> [] \<and> last d \<noteq> 0 \<and> 2 ^ 60 < int (limbs_val d)"
    using one_limb_or_large [of d "- INT_INTOBJ_MIN"] norm_size_full [of d]
    by (auto simp: valid_int_def checked_limbs INTOBJ_bounds simp del: IS_NORMALIZED_AND_REDUCED.simps)
next
  assume "d \<noteq> [] \<and> last d \<noteq> 0 \<and> 2 ^ 60 < int (limbs_val d)"
  then show "valid_int (T_INTNEG d)"
    using norm_size_full [of d] limbs_val_one [of d] by (auto simp: valid_int_def checked_limbs INTOBJ_bounds simp del: IS_NORMALIZED_AND_REDUCED.simps)
qed

lemmas valid_int_simps = valid_T_INT valid_T_INTPOS valid_T_INTNEG

lemma valid_INTOBJ [simp, intro]: "i \<in> small_range \<Longrightarrow> valid_int (INTOBJ i)"
  by simp

lemma int_val_INTOBJ [simp]: "i \<in> small_range \<Longrightarrow> int_val (INTOBJ i) = i"
  by simp

lemma limbs_determined:
  assumes "d \<noteq> []" "last d \<noteq> 0" "e \<noteq> []" "last e \<noteq> 0" "limbs_val d = limbs_val e"
  shows "d = e"
  using assms limb_size_limbs_val [of d] limb_size_limbs_val [of e] limbs_val_inject [of d e] by simp

lemma valid_intobj_bounds: "valid_intobj w \<Longrightarrow> - (2 ^ 60) \<le> INT_INTOBJ w \<and> INT_INTOBJ w < 2 ^ 60"
  using valid_intobj_range [of w] by (simp add: small_range_iff)

lemma valid_int_cases:
  assumes "valid_int x"
  obtains (small) w where "x = T_INT w" "valid_intobj w" "- (2 ^ 60) \<le> int_val x" "int_val x < 2 ^ 60"
  | (pos) d where "x = T_INTPOS d" "d \<noteq> []" "last d \<noteq> 0" "2 ^ 60 \<le> int_val x"
  | (neg) d where "x = T_INTNEG d" "d \<noteq> []" "last d \<noteq> 0" "int_val x < - (2 ^ 60)"
proof (cases x)
  case (T_INT w)
  then show thesis using small [of w] assms valid_intobj_bounds [of w] by auto
next
  case (T_INTPOS d)
  then show thesis using pos [of d] assms by (simp add: valid_int_simps)
next
  case (T_INTNEG d)
  then show thesis using neg [of d] assms by (simp add: valid_int_simps)
qed

text \<open>Every integer has exactly one well-formed object.\<close>

lemma int_val_inject:
  assumes x: "valid_int x" and y: "valid_int y"
  shows "int_val x = int_val y \<longleftrightarrow> x = y"
proof
  assume eq: "int_val x = int_val y"
  from x show "x = y"
  proof (cases rule: valid_int_cases)
    case (small w)
    with y eq show ?thesis by (cases rule: valid_int_cases) (simp_all add: valid_intobj_eq)
  next
    case (pos d)
    with y eq show ?thesis by (cases rule: valid_int_cases) (simp_all add: limbs_determined)
  next
    case (neg d)
    with y eq show ?thesis by (cases rule: valid_int_cases) (simp_all add: limbs_determined)
  qed
qed simp

lemma valid_small_iff: "valid_int x \<Longrightarrow> IS_SMALL x \<longleftrightarrow> int_val x \<in> small_range"
  by (erule valid_int_cases) (simp_all add: small_range_iff)

lemma INTOBJ_eq_iff:
  assumes "valid_int x" "i \<in> small_range"
  shows "x = INTOBJ i \<longleftrightarrow> int_val x = i" "INTOBJ i = x \<longleftrightarrow> int_val x = i"
  using int_val_inject [of x "INTOBJ i"] assms by auto


subsection \<open>Normalization and conversions\<close>

lemma small_nonneg: "0 \<le> i \<Longrightarrow> i < 2 ^ 60 \<Longrightarrow> i \<in> small_range"
  by (simp add: small_range_iff)

lemma small_nonpos: "i \<le> 0 \<Longrightarrow> - (2 ^ 60) \<le> i \<Longrightarrow> i \<in> small_range"
  by (simp add: small_range_iff)

lemma sint_small: "uint (w :: UInt) < 2 ^ 63 \<Longrightarrow> sint w = uint w"
  using sint_word_of_int_UInt [of "uint w"] uint_ge_0 [of w] by simp

lemma normalize_result:
  assumes "d \<noteq> []"
  shows GMP_NORMALIZE_POS: "valid_int (GMP_NORMALIZE (T_INTPOS d)) \<and>
      int_val (GMP_NORMALIZE (T_INTPOS d)) = int (limbs_val d)"
    and GMP_NORMALIZE_NEG: "valid_int (GMP_NORMALIZE (T_INTNEG d)) \<and>
      int_val (GMP_NORMALIZE (T_INTNEG d)) = - int (limbs_val d)"
proof -
  define e where "e = normalize_limbs d"
  have e: "e \<noteq> []" "length e = 1 \<or> last e \<noteq> 0" "limbs_val e = limbs_val d"
    using normalize_limbs_top [OF assms] normalize_limbs_val [OF assms] by (auto simp: e_def)
  have one: "uint (e ! 0) \<le> 2 ^ 60 \<Longrightarrow> length e = 1 \<Longrightarrow> sint (e ! 0) = int (limbs_val d)"
    using sint_small [of "e ! 0"] limbs_val_one [of e] e(3) by simp
  show "valid_int (GMP_NORMALIZE (T_INTPOS d)) \<and> int_val (GMP_NORMALIZE (T_INTPOS d)) = int (limbs_val d)"
  proof (cases "length e = 1 \<and> uint (e ! 0) \<le> INT_INTOBJ_MAX")
    case True
    then have "sint (e ! 0) = int (limbs_val d)" "sint (e ! 0) \<in> small_range"
      using one limbs_val_one [of e] e(3) by (auto simp: INTOBJ_bounds intro!: small_nonneg)
    with True show ?thesis by (simp add: Let_def e_def)
  next
    case False
    with one_limb_or_large [OF e(1,2), of INT_INTOBJ_MAX] e show ?thesis
      by (auto simp: Let_def e_def [symmetric] valid_int_simps INTOBJ_bounds)
  qed
  have or: "uint (e ! 0) \<le> INT_INTOBJ_MAX \<or> uint (e ! 0) = - INT_INTOBJ_MIN \<longleftrightarrow>
      uint (e ! 0) \<le> - INT_INTOBJ_MIN"
    by (auto simp: INTOBJ_bounds)
  show "valid_int (GMP_NORMALIZE (T_INTNEG d)) \<and> int_val (GMP_NORMALIZE (T_INTNEG d)) = - int (limbs_val d)"
  proof (cases "length e = 1 \<and> uint (e ! 0) \<le> - INT_INTOBJ_MIN")
    case True
    then have "sint (e ! 0) = int (limbs_val d)" "- sint (e ! 0) \<in> small_range"
      using one limbs_val_one [of e] e(3) by (auto simp: INTOBJ_bounds intro!: small_nonpos)
    with True show ?thesis by (simp add: Let_def e_def [symmetric] or)
  next
    case False
    with one_limb_or_large [OF e(1,2), of "- INT_INTOBJ_MIN"] e show ?thesis
      by (auto simp: Let_def e_def [symmetric] valid_int_simps INTOBJ_bounds or)
  qed
qed

lemma GMP_NORMALIZE_valid: "valid_int x \<Longrightarrow> GMP_NORMALIZE x = x"
proof -
  assume x: "valid_int x"
  then have "valid_int (GMP_NORMALIZE x) \<and> int_val (GMP_NORMALIZE x) = int_val x"
  proof (cases rule: valid_int_cases)
    case (pos d)
    then show ?thesis using GMP_NORMALIZE_POS [of d] by (simp del: GMP_NORMALIZE.simps)
  next
    case (neg d)
    then show ?thesis using GMP_NORMALIZE_NEG [of d] by (simp del: GMP_NORMALIZE.simps)
  qed simp
  with x show ?thesis using int_val_inject by blast
qed

lemma ObjInt_UInt_correct: "valid_int (ObjInt_UInt w) \<and> int_val (ObjInt_UInt w) = uint w"
proof (cases "uint w \<le> INT_INTOBJ_MAX")
  case True
  then have "sint w = uint w" "uint w \<in> small_range"
    using sint_small [of w] small_nonneg [of "uint w"] by (auto simp: INTOBJ_bounds)
  with True show ?thesis by (simp add: ObjInt_UInt_def)
next
  case False
  then show ?thesis by (auto simp: ObjInt_UInt_def valid_int_simps INTOBJ_bounds)
qed

lemma sint_uminus_small: "uint (w :: UInt) \<le> 2 ^ 60 \<Longrightarrow> sint (- w) = - uint w"
  using sint_word_of_int_UInt [of "- uint w"] uint_ge_0 [of w] by simp

lemma ObjInt_UIntInv_correct: "valid_int (ObjInt_UIntInv w) \<and> int_val (ObjInt_UIntInv w) = - uint w"
proof (cases "uint w \<le> - INT_INTOBJ_MIN")
  case True
  then have "sint (- w) = - uint w" "- uint w \<in> small_range"
    using sint_uminus_small [of w] small_nonpos [of "- uint w"] by (auto simp: INTOBJ_bounds)
  with True show ?thesis by (simp add: ObjInt_UIntInv_def)
next
  case False
  then show ?thesis by (auto simp: ObjInt_UIntInv_def valid_int_simps INTOBJ_bounds)
qed

lemma ObjInt_Int_correct:
  assumes "i \<in> Int_range"
  shows "valid_int (ObjInt_Int i) \<and> int_val (ObjInt_Int i) = i"
proof -
  have neg: "i < 0 \<Longrightarrow> uint (- word_of_int i :: UInt) = - i"
    using assms by (simp add: Int_range_def uint_word_of_int flip: of_int_minus)
  have pos: "0 \<le> i \<Longrightarrow> uint (word_of_int i :: UInt) = i"
    using assms by (simp add: Int_range_def uint_word_of_int)
  have nz: "i \<noteq> 0 \<Longrightarrow> (word_of_int i :: UInt) \<noteq> 0"
    using sint_word_of_int_UInt [of i] assms by (auto simp: Int_range_def)
  consider "i \<in> small_range" | "i < - (2 ^ 60)" | "2 ^ 60 \<le> i"
    unfolding small_range_iff by linarith
  then show ?thesis
    by cases (simp_all add: ObjInt_Int_def valid_int_simps INTOBJ_bounds small_range_iff neg pos nz)
qed


lemma SIZE_INT_OR_INTOBJ_simps [simp]:
  "SIZE_INT_OR_INTOBJ (T_INT w) = 1"
  "SIZE_INT_OR_INTOBJ (T_INTPOS d) = length d"
  "SIZE_INT_OR_INTOBJ (T_INTNEG d) = length d"
  by (simp_all add: SIZE_INT_OR_INTOBJ_def SIZE_INT_def)

lemma size_int_bound: "valid_int x \<Longrightarrow> nat \<bar>int_val x\<bar> < 2 ^ (64 * SIZE_INT_OR_INTOBJ x)"
proof (erule valid_int_cases)
  fix w assume "x = T_INT w" "- (2 ^ 60) \<le> int_val x" "int_val x < 2 ^ 60"
  then have "\<bar>int_val x\<bar> < 2 ^ 64" by auto
  then have "nat \<bar>int_val x\<bar> < nat (2 ^ 64)" by (intro nat_less_eq_zless [THEN iffD2]) auto
  then show ?thesis by (simp add: \<open>x = T_INT w\<close>)
qed (use limbs_val_bound in auto)

lemma size_int_pos: "valid_int x \<Longrightarrow> 0 < SIZE_INT_OR_INTOBJ x"
  by (erule valid_int_cases) auto

lemma uint_small_word: "0 \<le> i \<Longrightarrow> i \<le> 2 ^ 60 \<Longrightarrow> uint (word_of_int i :: UInt) = i"
  by (simp add: uint_word_of_int)

lemma word_small_nonzero: "0 < i \<Longrightarrow> i \<le> 2 ^ 60 \<Longrightarrow> (word_of_int i :: UInt) \<noteq> 0"
  using uint_small_word [of i] by auto

lemma word_small_negative:
  assumes "i < 0" "- (2 ^ 60) \<le> i"
  shows "uint (- word_of_int i :: UInt) = - i" "(word_of_int i :: UInt) \<noteq> 0"
  using uint_small_word [of "- i"] word_small_nonzero [of "- i"] assms by auto

lemma small_range_min [simp]: "- 1152921504606846976 \<in> small_range"
  by (simp add: small_range_iff)

lemma FAKEMPZ_in:
  assumes "valid_int x"
  shows "mpz_wf (mpz_v (FAKEMPZ_GMPorINTOBJ x)) \<and> mpz_val (mpz_v (FAKEMPZ_GMPorINTOBJ x)) = int_val x"
  using assms
proof (cases rule: valid_int_cases)
  case (small w)
  then show ?thesis
    by (cases "int_val x" "0 :: int" rule: linorder_cases)
      (simp_all add: mpz_wf_def mpz_val_def uint_small_word word_small_nonzero word_small_negative)
qed (auto simp: mpz_wf_def mpz_val_def last_conv_nth)

lemma mpz_out_length: "mpz_out n r x \<Longrightarrow> length (mp_d r) = n"
  by (simp add: mpz_out_def)

lemma mpz_out_size_zero: "mpz_out n r x \<Longrightarrow> mp_size r = 0 \<longleftrightarrow> x = 0"
  by (auto simp: mpz_out_def sgn_if split: if_splits)

lemma mpz_out_size_neg: "mpz_out n r x \<Longrightarrow> mp_size r < 0 \<longleftrightarrow> x < 0"
  by (auto simp: mpz_out_def mult_less_0_iff sgn_if)

lemma mpz_out_one_limb:
  assumes "mpz_out 1 r x" "x \<noteq> 0"
  shows "uint (mp_d r ! 0) = \<bar>x\<bar>" "mp_size r = 1 \<longleftrightarrow> 0 < x"
proof -
  obtain l where l: "mp_d r = [l]" using assms(1) by (auto simp: mpz_out_def length_Suc_conv)
  then show "uint (mp_d r ! 0) = \<bar>x\<bar>" using assms(1) by (simp add: mpz_out_def)
      (metis abs_ge_zero int_nat_eq of_nat_unat)
  have "limb_size (nat \<bar>x\<bar>) \<le> 1"
    unfolding limb_size_le_iff using limbs_val_bound [of "mp_d r"] assms(1) by (simp add: mpz_out_def)
  then have "limb_size (nat \<bar>x\<bar>) = 1" using assms(2) limb_size_eq_0 [of "nat \<bar>x\<bar>"] by linarith
  then show "mp_size r = 1 \<longleftrightarrow> 0 < x" using assms by (auto simp: mpz_out_def sgn_if)
qed

lemma FAKEMPZ_out:
  assumes out: "mpz_out n r x" and n: "0 < n"
  shows "valid_int (GMPorINTOBJ_FAKEMPZ ((NEW_FAKEMPZ n)\<lparr>mpz_v := r\<rparr>)) \<and>
    int_val (GMPorINTOBJ_FAKEMPZ ((NEW_FAKEMPZ n)\<lparr>mpz_v := r\<rparr>)) = x"
proof (cases "x = 0")
  case True
  then show ?thesis using mpz_out_size_zero [OF out]
    by (simp add: GMPorINTOBJ_FAKEMPZ_def NEW_FAKEMPZ_def)
next
  case nz: False
  show ?thesis
  proof (cases "n = 1")
    case True
    with mpz_out_one_limb [of r x] mpz_out_size_zero [OF out] out nz show ?thesis
      using ObjInt_UInt_correct [of "mp_d r ! 0"] ObjInt_UIntInv_correct [of "mp_d r ! 0"]
      by (auto simp: GMPorINTOBJ_FAKEMPZ_def NEW_FAKEMPZ_def)
  next
    case False
    have "mp_d r \<noteq> []" "int (limbs_val (mp_d r)) = \<bar>x\<bar>"
      using out n by (auto simp: mpz_out_def)
    then show ?thesis
      using False nz mpz_out_size_zero [OF out] mpz_out_size_neg [OF out]
        GMP_NORMALIZE_POS [of "mp_d r"] GMP_NORMALIZE_NEG [of "mp_d r"]
      by (simp add: GMPorINTOBJ_FAKEMPZ_def NEW_FAKEMPZ_def del: GMP_NORMALIZE.simps)
  qed
qed

lemma NEW_FAKEMPZ_fits: "mpz_fits (mpz_v (NEW_FAKEMPZ n)) x \<longleftrightarrow> nat \<bar>x\<bar> < 2 ^ (64 * n)"
  by (simp add: mpz_fits_def NEW_FAKEMPZ_def)

lemma NEW_FAKEMPZ_length [simp]: "length (mp_d (mpz_v (NEW_FAKEMPZ n))) = n"
  by (simp add: NEW_FAKEMPZ_def)

lemma AInvInt_correct:
  assumes "valid_int x"
  shows "valid_int (AInvInt x) \<and> int_val (AInvInt x) = - int_val x"
  using assms
proof (cases rule: valid_int_cases)
  case (small w)
  show ?thesis
  proof (cases "w = INTOBJ_MIN")
    case True
    then show ?thesis using small word_small_nonzero [of "2 ^ 60"] uint_small_word [of "2 ^ 60"]
      by (simp add: AInvInt_def INTOBJ_MIN_eq valid_int_simps INTOBJ_bounds)
  next
    case False
    then have "int_val x \<noteq> - (2 ^ 60)"
      using small valid_eq_INTOBJ_INT [of w INT_INTOBJ_MIN] by (simp add: INTOBJ_MIN_eq INTOBJ_bounds)
    then have "- INT_INTOBJ w \<in> small_range" using small by (simp add: small_range_iff)
    then show ?thesis using False small by (simp add: AInvInt_def)
  qed
next
  case (pos d)
  show ?thesis
  proof (cases "length d = 1 \<and> uint (d ! 0) = - INT_INTOBJ_MIN")
    case True
    then show ?thesis using pos limbs_val_one [of d]
      by (simp add: AInvInt_def INTOBJ_MIN_eq)
  next
    case False
    then have "int (limbs_val d) \<noteq> 2 ^ 60"
      using pos limbs_val_one [of d] one_limb_or_large [of d "2 ^ 60"]
      by (cases "length d = 1") (auto simp: INTOBJ_bounds)
    then show ?thesis using False pos by (auto simp: AInvInt_def valid_int_simps)
  qed
qed (auto simp: AInvInt_def valid_int_simps)


lemma AbsInt_correct:
  assumes "valid_int x"
  shows "valid_int (AbsInt x) \<and> int_val (AbsInt x) = \<bar>int_val x\<bar>"
  using assms
proof (cases rule: valid_int_cases)
  case (small w)
  define i where "i = INT_INTOBJ w"
  have w: "w = INTOBJ_INT i" "sint w = 4 * i + 1" "- (2 ^ 60) \<le> i" "i < 2 ^ 60"
    using small sint_valid [of w] by (auto simp: i_def valid_intobj_def)
  consider "0 \<le> i" | "i = - (2 ^ 60)" | "- (2 ^ 60) < i" "i < 0" using w(3) by linarith
  then show ?thesis
  proof cases
    case 1
    then show ?thesis using small w(2) by (simp add: AbsInt_def i_def [symmetric])
  next
    case 2
    then show ?thesis using small w word_small_nonzero [of "2 ^ 60"] uint_small_word [of "2 ^ 60"]
      by (simp add: AbsInt_def INTOBJ_MIN_eq valid_int_simps INTOBJ_bounds i_def [symmetric])
  next
    case 3
    then have "w \<noteq> INTOBJ_MIN"
      using small valid_eq_INTOBJ_INT [of w INT_INTOBJ_MIN] by (simp add: INTOBJ_MIN_eq INTOBJ_bounds i_def)
    moreover have "2 - w = INTOBJ_INT (- i)" by (simp add: w(1) INTOBJ_INT_word)
    moreover have "- i \<in> small_range" using 3 by (simp add: small_range_iff)
    ultimately show ?thesis using 3 small w(2) by (simp add: AbsInt_def i_def [symmetric])
  qed
qed (auto simp: AbsInt_def valid_int_simps)

lemma IS_NEG_INT_iff: "valid_int x \<Longrightarrow> IS_NEG_INT x \<longleftrightarrow> int_val x < 0"
  by (erule valid_int_cases) (simp_all add: sint_valid sint_INTOBJ_INT)

lemma IS_POS_INT_iff: "valid_int x \<Longrightarrow> IS_POS_INT x \<longleftrightarrow> 0 < int_val x"
  by (erule valid_int_cases) (simp_all add: sint_valid sint_INTOBJ_INT)

lemma SignInt_correct: "valid_int x \<Longrightarrow> valid_int (SignInt x) \<and> int_val (SignInt x) = sgn (int_val x)"
  by (erule valid_int_cases)
    (auto simp: SignInt_def sint_valid sint_INTOBJ_INT valid_eq_INTOBJ_INT sgn_if)

subsection \<open>Sums, differences and products\<close>

lemma add_size_bound:
  fixes a b :: int
  assumes "nat \<bar>a\<bar> < 2 ^ (64 * m)" "nat \<bar>b\<bar> < 2 ^ (64 * n)" "c = a + b \<or> c = a - b"
  shows "nat \<bar>c\<bar> < 2 ^ (64 * (if m > n then m + 1 else n + 1))"
proof -
  let ?k = "max m n"
  have le: "(2::nat) ^ (64 * m) \<le> 2 ^ (64 * ?k)" "(2::nat) ^ (64 * n) \<le> 2 ^ (64 * ?k)"
    by (intro power_increasing; simp)+
  have "nat \<bar>c\<bar> \<le> nat \<bar>a\<bar> + nat \<bar>b\<bar>" using assms(3) by auto
  also have "\<dots> < 2 * 2 ^ (64 * ?k)" using assms(1,2) le by linarith
  also have "\<dots> \<le> 2 ^ 64 * 2 ^ (64 * ?k)" by simp
  also have "\<dots> = 2 ^ (64 * (?k + 1))" by (simp add: power_add)
  finally show ?thesis by (auto simp: max_def split: if_splits)
qed

lemma mult_size_bound:
  fixes a b :: int
  assumes "nat \<bar>a\<bar> < 2 ^ (64 * m)" "nat \<bar>b\<bar> < 2 ^ (64 * n)"
  shows "nat \<bar>a * b\<bar> < 2 ^ (64 * (m + n))"
proof -
  have "nat \<bar>a * b\<bar> = nat \<bar>a\<bar> * nat \<bar>b\<bar>" by (simp add: abs_mult nat_mult_distrib)
  also have "\<dots> < 2 ^ (64 * m) * 2 ^ (64 * n)" using assms by (intro mult_strict_mono) auto
  finally show ?thesis by (simp add: power_add distrib_left)
qed

context gmp_contract
begin

lemma SumOrDiffInt_correct:
  assumes "valid_int x" "valid_int y" "s = 1 \<or> s = -1"
  shows "valid_int (SumOrDiffInt G x y s) \<and> int_val (SumOrDiffInt G x y s) = int_val x + s * int_val y"
proof (cases "x = INTOBJ 0 \<or> y = INTOBJ 0")
  case True
  then show ?thesis using assms AInvInt_correct [of y]
    by (auto simp: SumOrDiffInt_def INTOBJ_eq_iff)
next
  case False
  let ?n = "if SIZE_INT_OR_INTOBJ x > SIZE_INT_OR_INTOBJ y then SIZE_INT_OR_INTOBJ x + 1
    else SIZE_INT_OR_INTOBJ y + 1"
  have fits: "mpz_fits (mpz_v (NEW_FAKEMPZ ?n)) c"
    if "c = int_val x + int_val y \<or> c = int_val x - int_val y" for c
    unfolding NEW_FAKEMPZ_fits
    using add_size_bound [OF size_int_bound size_int_bound that] assms by simp
  show ?thesis
    using False assms(3) FAKEMPZ_in [OF assms(1)] FAKEMPZ_in [OF assms(2)]
      mpz_add [of _ _ "mpz_v (NEW_FAKEMPZ ?n)", THEN FAKEMPZ_out]
      mpz_sub [of _ _ "mpz_v (NEW_FAKEMPZ ?n)", THEN FAKEMPZ_out] fits
    by (auto simp: SumOrDiffInt_def Let_def)
qed

lemma SumInt_correct:
  assumes "valid_int x" "valid_int y"
  shows "valid_int (SumInt G x y) \<and> int_val (SumInt G x y) = int_val x + int_val y"
  using assms SumOrDiffInt_correct [of x y 1]
  by (cases x; cases y) (auto simp: SumInt_def sum_intobjs_correct)

lemma DiffInt_correct:
  assumes "valid_int x" "valid_int y"
  shows "valid_int (DiffInt G x y) \<and> int_val (DiffInt G x y) = int_val x - int_val y"
  using assms SumOrDiffInt_correct [of x y "-1"]
  by (cases x; cases y) (auto simp: DiffInt_def diff_intobjs_correct)

lemma ProdInt_correct:
  assumes x: "valid_int x" and y: "valid_int y"
  shows "valid_int (ProdInt G x y) \<and> int_val (ProdInt G x y) = int_val x * int_val y"
proof (cases "case (x, y) of (T_INT l, T_INT r) \<Rightarrow> prod_intobjs l r \<noteq> 0 | _ \<Rightarrow> False")
  case True
  then obtain l r where "x = T_INT l" "y = T_INT r" "prod_intobjs l r \<noteq> 0"
    by (auto split: gapint.splits)
  with x y show ?thesis by (auto simp: ProdInt_def prod_intobjs_correct split: if_splits)
next
  case False
  then have 0: "(case (x, y) of (T_INT l, T_INT r) \<Rightarrow> prod_intobjs l r | _ \<Rightarrow> 0) = 0"
    by (auto split: gapint.splits)
  note eqs = INTOBJ_eq_iff [OF x] INTOBJ_eq_iff [OF y]
  let ?n = "SIZE_INT_OR_INTOBJ x + SIZE_INT_OR_INTOBJ y"
  have fits: "mpz_fits (mpz_v (NEW_FAKEMPZ ?n)) (int_val x * int_val y)"
    unfolding NEW_FAKEMPZ_fits using x y by (intro mult_size_bound size_int_bound)
  show ?thesis
    unfolding ProdInt_def 0 Let_def
    using AInvInt_correct [OF x] AInvInt_correct [OF y] x y FAKEMPZ_in [OF x] FAKEMPZ_in [OF y]
      mpz_mul [of _ _ "mpz_v (NEW_FAKEMPZ ?n)", THEN FAKEMPZ_out] fits size_int_pos [OF x]
    by (auto simp: eqs)
qed

lemma mpn_cmp_zero: "length xs = length ys \<Longrightarrow> mpn_cmp G xs ys = 0 \<longleftrightarrow> xs = ys"
  using mpn_cmp [of xs ys] limbs_val_inject [of xs ys] by (auto simp: sgn_if split: if_splits)

lemma mpn_cmp_neg: "length xs = length ys \<Longrightarrow> mpn_cmp G xs ys < 0 \<longleftrightarrow> limbs_val xs < limbs_val ys"
  using mpn_cmp [of xs ys] by (auto simp: sgn_if split: if_splits)

lemma mpn_cmp_pos: "length xs = length ys \<Longrightarrow> 0 < mpn_cmp G xs ys \<longleftrightarrow> limbs_val ys < limbs_val xs"
  using mpn_cmp [of xs ys] by (auto simp: sgn_if split: if_splits)

lemma EqInt_correct:
  assumes "valid_int x" "valid_int y"
  shows "EqInt G x y \<longleftrightarrow> int_val x = int_val y"
proof -
  have "EqInt G x y \<longleftrightarrow> x = y"
    by (cases x; cases y) (auto simp: EqInt_def SIZE_INT_def mpn_cmp_zero)
  then show ?thesis using int_val_inject [OF assms] by simp
qed

lemma limbs_less_length:
  "last e \<noteq> 0 \<Longrightarrow> length d < length e \<Longrightarrow> limbs_val d < limbs_val e"
proof -
  assume e: "last e \<noteq> 0" "length d < length e"
  have "limbs_val d < 2 ^ (64 * length d)" by (rule limbs_val_bound)
  also have "\<dots> \<le> 2 ^ (64 * (length e - 1))" using e(2) by (intro power_increasing) auto
  also have "\<dots> \<le> limbs_val e" using e by (intro limbs_val_lower) auto
  finally show ?thesis .
qed

lemma LtInt_correct:
  assumes x: "valid_int x" and y: "valid_int y"
  shows "LtInt G x y \<longleftrightarrow> int_val x < int_val y"
  using x
proof (cases rule: valid_int_cases)
  case (small w)
  with y show ?thesis by (cases rule: valid_int_cases) (auto simp: LtInt_def sint_valid)
next
  case (pos d)
  with y limbs_less_length [of d] limbs_less_length [of _ d] show ?thesis
    by (cases rule: valid_int_cases)
      (auto simp: LtInt_def SIZE_INT_def mpn_cmp_neg Let_def not_less_iff_gr_or_eq)
next
  case (neg d)
  with y limbs_less_length [of d] limbs_less_length [of _ d] show ?thesis
    by (cases rule: valid_int_cases)
      (auto simp: LtInt_def SIZE_INT_def mpn_cmp_pos Let_def not_less_iff_gr_or_eq)
qed

end

subsection \<open>Properties\<close>

lemma large_example [simp]: "valid_int (T_INTPOS [0, 1])" "int_val (T_INTPOS [0, 1]) = 2 ^ 64"
  by (simp_all add: valid_int_simps)

lemma int_object_exists: "\<exists>z. valid_int z \<and> int_val z = i"
proof -
  have "nat \<bar>i\<bar> < 2 ^ nat \<bar>i\<bar>" by (rule less_exp)
  also have "(2 :: nat) ^ nat \<bar>i\<bar> \<le> 2 ^ (64 * Suc (nat \<bar>i\<bar>))" by (rule power_increasing) auto
  finally have "limbs_val (limbs_of (Suc (nat \<bar>i\<bar>)) (nat \<bar>i\<bar>)) = nat \<bar>i\<bar>" by (rule limbs_val_limbs_of)
  moreover have "limbs_of (Suc (nat \<bar>i\<bar>)) (nat \<bar>i\<bar>) \<noteq> []" by simp
  ultimately obtain d where d: "limbs_val d = nat \<bar>i\<bar>" "d \<noteq> []" by blast
  have "int_val (GMP_NORMALIZE (T_INTPOS d)) = \<bar>i\<bar>" "int_val (GMP_NORMALIZE (T_INTNEG d)) = - \<bar>i\<bar>"
    using GMP_NORMALIZE_POS [OF d(2)] GMP_NORMALIZE_NEG [OF d(2)] d(1) by simp_all
  then show ?thesis using GMP_NORMALIZE_POS [OF d(2)] GMP_NORMALIZE_NEG [OF d(2)] by (cases "0 \<le> i") fastforce+
qed

lemma check_decides_normal:
  assumes "d \<noteq> []" "x = T_INTPOS d \<or> x = T_INTNEG d"
  shows "IS_NORMALIZED_AND_REDUCED x = ([], True) \<longleftrightarrow> GMP_NORMALIZE x = x"
proof -
  have "valid_int x \<longleftrightarrow> IS_NORMALIZED_AND_REDUCED x = ([], True)"
    using assms by (auto simp: valid_int_def simp del: IS_NORMALIZED_AND_REDUCED.simps)
  moreover have "valid_int (GMP_NORMALIZE x)"
    using assms(2) GMP_NORMALIZE_POS(1) [OF assms(1)] GMP_NORMALIZE_NEG(1) [OF assms(1)] by blast
  ultimately show ?thesis using GMP_NORMALIZE_valid [of x] by metis
qed

text \<open>C10: Every integer has exactly one well-formed object: two objects that the check passes without a message denote
  the same integer only if they are the same object (immediate word, or type and limbs), so equality can be
  decided on the representation; every integer has one; and the check passes a large object without a
  message exactly if normalization leaves it as it is.\<close>

theorem integer_objects_canonical:
  assumes "valid_int x" "valid_int y" "d \<noteq> []"
  shows "(int_val x = int_val y \<longleftrightarrow> x = y) \<and> (\<exists>z. valid_int z \<and> int_val z = i) \<and>
    (IS_NORMALIZED_AND_REDUCED (T_INTPOS d) = ([], True) \<longleftrightarrow> GMP_NORMALIZE (T_INTPOS d) = T_INTPOS d) \<and>
    (IS_NORMALIZED_AND_REDUCED (T_INTNEG d) = ([], True) \<longleftrightarrow> GMP_NORMALIZE (T_INTNEG d) = T_INTNEG d)"
  using int_val_inject [OF assms(1,2)] int_object_exists check_decides_normal [OF assms(3)] by blast

theorem integer_objects_canonical_witness:
  "(int_val (T_INTPOS [0, 1]) = int_val (INTOBJ 3) \<longleftrightarrow> T_INTPOS [0, 1] = INTOBJ 3) \<and>
   IS_NORMALIZED_AND_REDUCED (T_INTPOS [0, 1, 0]) = ([NonNormalized], True) \<and>
   GMP_NORMALIZE (T_INTPOS [0, 1, 0]) \<noteq> T_INTPOS [0, 1, 0]"
proof -
  have c: "IS_NORMALIZED_AND_REDUCED (T_INTPOS [0, 1, 0]) = ([NonNormalized], True)" by code_simp
  have "valid_int (T_INTPOS [0, 1])" "valid_int (INTOBJ 3)" by (simp_all add: valid_int_simps small_range_iff)
  from integer_objects_canonical [OF this, of "[0, 1, 0]"] show ?thesis unfolding c by simp
qed

text \<open>Normalization: whatever the limbs of a bag are (leading zero limbs included),
  \<open>GMP_NORMALIZE\<close> returns the well-formed object of the same value, an immediate integer exactly
  when the value fits one, and it leaves well-formed objects alone.\<close>

lemma GMP_NORMALIZE_canonical:
  assumes "d \<noteq> []"
  shows "valid_int (GMP_NORMALIZE (T_INTPOS d)) \<and> int_val (GMP_NORMALIZE (T_INTPOS d)) = int (limbs_val d) \<and>
    valid_int (GMP_NORMALIZE (T_INTNEG d)) \<and> int_val (GMP_NORMALIZE (T_INTNEG d)) = - int (limbs_val d) \<and>
    GMP_NORMALIZE (GMP_NORMALIZE (T_INTPOS d)) = GMP_NORMALIZE (T_INTPOS d) \<and>
    GMP_NORMALIZE (GMP_NORMALIZE (T_INTNEG d)) = GMP_NORMALIZE (T_INTNEG d)"
  using GMP_NORMALIZE_POS [OF assms] GMP_NORMALIZE_NEG [OF assms] GMP_NORMALIZE_valid by auto

lemma GMP_NORMALIZE_canonical_witness:
  "int_val (GMP_NORMALIZE (T_INTNEG [5, 0, 0])) = - 5 \<and> valid_int (GMP_NORMALIZE (T_INTNEG [5, 0, 0]))"
  using GMP_NORMALIZE_canonical [of "[5, 0, 0]"] by (simp del: GMP_NORMALIZE.simps)

text \<open>C1: \<open>SumInt\<close>, \<open>DiffInt\<close>, \<open>ProdInt\<close> and \<open>AInvInt\<close> compute the sum, difference, product and
  negative of the integers their operands denote, and return well-formed objects, on every path
  (immediate fast path, its overflow, one or both operands large), for any GMP that meets its
  contract.\<close>

theorem ring_operations_sound:
  assumes "gmp_contract G" "valid_int x" "valid_int y"
  shows "valid_int (SumInt G x y) \<and> int_val (SumInt G x y) = int_val x + int_val y \<and>
    valid_int (DiffInt G x y) \<and> int_val (DiffInt G x y) = int_val x - int_val y \<and>
    valid_int (ProdInt G x y) \<and> int_val (ProdInt G x y) = int_val x * int_val y \<and>
    valid_int (AInvInt x) \<and> int_val (AInvInt x) = - int_val x"
  using gmp_contract.SumInt_correct [OF assms] gmp_contract.DiffInt_correct [OF assms]
    gmp_contract.ProdInt_correct [OF assms] AInvInt_correct [OF assms(2)] by simp

theorem ring_operations_sound_witness:
  "int_val (SumInt gmp_ref (T_INTPOS [0, 1]) (INTOBJ 3)) = 18446744073709551619 \<and>
   int_val (ProdInt gmp_ref (T_INTPOS [0, 1]) (INTOBJ 3)) = 55340232221128654848"
  using ring_operations_sound [OF gmp_ref.gmp_contract_axioms, of "T_INTPOS [0, 1]" "INTOBJ 3"]
  by (simp add: small_range_iff del: int_val.simps(2))

text \<open>\<open>EqInt\<close> and \<open>LtInt\<close> decide equality and the order of the integers denoted, so on
  well-formed objects \<open>LtInt\<close> is a strict total order compatible with \<open>EqInt\<close>.\<close>

lemma integer_order_sound:
  assumes "gmp_contract G" "valid_int x" "valid_int y"
  shows "(EqInt G x y \<longleftrightarrow> int_val x = int_val y) \<and> (LtInt G x y \<longleftrightarrow> int_val x < int_val y) \<and>
    (EqInt G x y \<or> LtInt G x y \<or> LtInt G y x)"
  using gmp_contract.EqInt_correct [OF assms] gmp_contract.LtInt_correct [OF assms]
    gmp_contract.LtInt_correct [OF assms(1,3,2)] by linarith

lemma integer_order_sound_witness:
  "LtInt gmp_ref (T_INTNEG [0, 1]) (INTOBJ 3) \<and> \<not> EqInt gmp_ref (T_INTNEG [0, 1]) (INTOBJ 3)"
  using integer_order_sound [OF gmp_ref.gmp_contract_axioms, of "T_INTNEG [0, 1]" "INTOBJ 3"]
  by (simp add: small_range_iff valid_int_simps)

end
