(* ===== verification/IntDiv.thy ===== *)
theory IntDiv
  imports Integer
begin

text \<open>
  Quotients and remainders of integers, \<open>src/src/integer.c\<close>: \<open>ModInt\<close> (the remainder in
  \<open>[0, |divisor|)\<close>), \<open>QuoInt\<close> and \<open>RemInt\<close> (truncated division, as in C). A division by zero ends in
  an error. The lemmas show that every path, immediate or large on either side, computes the
  mathematical value and returns a normalized object.
\<close>

subsection \<open>Quotients and remainders\<close>

text \<open>The message of \<open>RequireNonzero\<close>; the rejected operand is always the immediate zero.\<close>

definition RequireNonzero_msg :: "string \<Rightarrow> string \<Rightarrow> string" where
  "RequireNonzero_msg funcname argname =
     funcname @ '': <'' @ argname @ ''> must be a nonzero integer (not the integer 0)''"

definition nonzero_error :: string where
  "nonzero_error = RequireNonzero_msg ''Integer operations'' ''divisor''"

text \<open>A bag of the type of \<open>x\<close> holding the limbs \<open>d\<close>.\<close>

fun bag_like :: "gapint \<Rightarrow> UInt list \<Rightarrow> gapint" where
  "bag_like (T_INTNEG _) d = T_INTNEG d"
| "bag_like _ d = T_INTPOS d"

text \<open>The absolute remainder of a large integer by an immediate one, \<open>i\<close> its absolute value.\<close>

definition limbs_mod_small :: "gmp \<Rightarrow> gapint \<Rightarrow> int \<Rightarrow> UInt" where
  "limbs_mod_small G opL i =
     (if i AND (i - 1) = 0 then VAL_LIMB0 opL AND word_of_int (i - 1)
      else mpn_mod_1 G (LIMBS opL) (word_of_int i))"

text \<open>The remainder bag has one limb more than the dividend; GMP fills its low limbs.\<close>

definition limbs_rem_bag :: "gmp \<Rightarrow> gapint \<Rightarrow> gapint \<Rightarrow> UInt list" where
  "limbs_rem_bag G opL opR =
     (let r = snd (mpn_tdiv_qr G (LIMBS opL) (LIMBS opR))
      in r @ replicate (SIZE_INT opL + 1 - length r) 0)"

definition ModInt :: "gmp \<Rightarrow> gapint \<Rightarrow> gapint \<Rightarrow> gapint result" where
  "ModInt G opL opR =
     (if opR = INTOBJ 0 then Inl nonzero_error
      else Inr (case (opL, opR) of
        (T_INT l, T_INT r) \<Rightarrow>
          let i = INT_INTOBJ l; k = INT_INTOBJ r; i = i smod k
          in INTOBJ (if i < 0 then i + (if k > 0 then k else - k) else i)
      | (T_INT l, _) \<Rightarrow>
          if l = INTOBJ_MIN \<and> IS_INTPOS opR \<and> SIZE_INT opR = 1 \<and> uint (VAL_LIMB0 opR) = - INT_INTOBJ_MIN
          then INTOBJ 0
          else if 0 \<le> INT_INTOBJ l then opL
          else if IS_INTPOS opR then SumOrDiffInt G opL opR 1
          else SumOrDiffInt G opL opR (-1)
      | (_, T_INT r) \<Rightarrow>
          let i = INT_INTOBJ r; i = (if i < 0 then - i else i); c = limbs_mod_small G opL i
          in if IS_INTPOS opL \<or> c = 0 then INTOBJ (sint c) else INTOBJ (i - sint c)
      | _ \<Rightarrow>
          if SIZE_INT opL < SIZE_INT opR then
            (if IS_INTPOS opL then opL
             else if IS_INTPOS opR then SumOrDiffInt G opL opR 1
             else SumOrDiffInt G opL opR (-1))
          else
            let md = GMP_NORMALIZE (bag_like opL (limbs_rem_bag G opL opR))
            in if IS_NEG_INT md then
                 (if IS_INTPOS opR then SumOrDiffInt G md opR 1
                  else SumOrDiffInt G md opR (-1))
               else md))"

definition QuoInt :: "gmp \<Rightarrow> gapint \<Rightarrow> gapint \<Rightarrow> gapint result" where
  "QuoInt G opL opR =
     (if opR = INTOBJ 0 then Inl nonzero_error
      else Inr (case (opL, opR) of
        (T_INT l, T_INT r) \<Rightarrow>
          if l = INTOBJ_MIN \<and> r = INTOBJ_INT (-1) then T_INTPOS [word_of_int (- INT_INTOBJ_MIN)]
          else GMP_NORMALIZE (INTOBJ (INT_INTOBJ l sdiv INT_INTOBJ r))
      | (T_INT l, _) \<Rightarrow>
          if l = INTOBJ_MIN \<and> IS_INTPOS opR \<and> SIZE_INT opR = 1 \<and> uint (VAL_LIMB0 opR) = - INT_INTOBJ_MIN
          then GMP_NORMALIZE (INTOBJ (-1))
          else GMP_NORMALIZE (INTOBJ 0)
      | (_, T_INT r) \<Rightarrow>
          let k = INT_INTOBJ r; pos = (IS_INTNEG opL = (k < 0)); k = (if k < 0 then - k else k);
              q = mpn_divrem_1 G (LIMBS opL) (word_of_int k)
          in GMP_NORMALIZE (if pos then T_INTPOS q else T_INTNEG q)
      | _ \<Rightarrow>
          if SIZE_INT opL < SIZE_INT opR then INTOBJ 0
          else
            let q = fst (mpn_tdiv_qr G (LIMBS opL) (LIMBS opR))
            in GMP_NORMALIZE (if IS_INTPOS opL = IS_INTPOS opR then T_INTPOS q else T_INTNEG q)))"

definition RemInt :: "gmp \<Rightarrow> gapint \<Rightarrow> gapint \<Rightarrow> gapint result" where
  "RemInt G opL opR =
     (if opR = INTOBJ 0 then Inl nonzero_error
      else Inr (case (opL, opR) of
        (T_INT l, T_INT r) \<Rightarrow> INTOBJ (INT_INTOBJ l smod INT_INTOBJ r)
      | (T_INT l, _) \<Rightarrow>
          if l = INTOBJ_MIN \<and> IS_INTPOS opR \<and> SIZE_INT opR = 1 \<and> uint (VAL_LIMB0 opR) = - INT_INTOBJ_MIN
          then INTOBJ 0
          else opL
      | (_, T_INT r) \<Rightarrow>
          let i = INT_INTOBJ r; i = (if i < 0 then - i else i); c = limbs_mod_small G opL i
          in if IS_INTPOS opL then INTOBJ (sint c) else INTOBJ (- sint c)
      | _ \<Rightarrow>
          if SIZE_INT opL < SIZE_INT opR then opL
          else GMP_NORMALIZE (bag_like opL (limbs_rem_bag G opL opR))))"

subsection \<open>Arithmetic facts\<close>

lemma power_of_two_test:
  fixes i :: int
  assumes "0 < i" "i AND (i - 1) = 0"
  shows "\<exists>n. i = 2 ^ n"
  using assms
proof (induction "nat i" arbitrary: i rule: less_induct)
  case less
  show ?case
  proof (cases "even i")
    case True
    then obtain j where j: "i = 2 * j" by blast
    have "2 * j AND (2 * j - 1) = 2 * (j AND (j - 1))"
    proof -
      have "(2 * j - 1) div 2 = j - 1" by simp
      then show ?thesis by (subst and_rec) simp
    qed
    with less j have "j AND (j - 1) = 0" "0 < j" by auto
    with less j obtain n where "j = 2 ^ n" by fastforce
    with j show ?thesis by (intro exI [of _ "Suc n"]) simp
  next
    case False
    then obtain j where j: "i = 2 * j + 1" by (elim oddE)
    have "(2 * j + 1) AND (2 * j) = 2 * j" by (subst and_rec) simp
    with less j have "i = 1" by simp
    then show ?thesis by (intro exI [of _ 0]) simp
  qed
qed

lemma smod_adjust:
  fixes i k :: int
  assumes "k \<noteq> 0"
  shows "(if i smod k < 0 then i smod k + (if k > 0 then k else - k) else i smod k) = i mod \<bar>k\<bar>"
proof -
  have k: "(if k > 0 then k else - k) = \<bar>k\<bar>" by auto
  have r: "0 \<le> \<bar>i\<bar> mod \<bar>k\<bar>" "\<bar>i\<bar> mod \<bar>k\<bar> < \<bar>k\<bar>" using assms by auto
  show ?thesis
  proof (cases "0 \<le> i")
    case True
    then have "i smod k = i mod \<bar>k\<bar>" by (simp add: signed_modulo_int_def sgn_if)
    moreover have "0 \<le> i mod \<bar>k\<bar>" using assms by simp
    ultimately show ?thesis by simp
  next
    case False
    have "i mod \<bar>k\<bar> = (if \<bar>i\<bar> mod \<bar>k\<bar> = 0 then 0 else \<bar>k\<bar> - \<bar>i\<bar> mod \<bar>k\<bar>)"
      using zmod_zminus1_eq_if [of "\<bar>i\<bar>" "\<bar>k\<bar>"] False by simp
    then show ?thesis using False r unfolding k by (auto simp: signed_modulo_int_def sgn_if)
  qed
qed

lemma smod_small:
  fixes i k :: int
  shows "\<bar>i\<bar> < \<bar>k\<bar> \<Longrightarrow> i smod k = i" "\<bar>i\<bar> < \<bar>k\<bar> \<Longrightarrow> i sdiv k = 0"
  by (auto simp: signed_modulo_int_def signed_divide_int_def sgn_mult_abs)

lemma mod_small_negative:
  fixes i k :: int
  assumes "\<bar>i\<bar> < \<bar>k\<bar>" "i < 0"
  shows "i mod \<bar>k\<bar> = i + \<bar>k\<bar>"
proof -
  have "i mod \<bar>k\<bar> = (i + \<bar>k\<bar>) mod \<bar>k\<bar>" by simp
  also have "\<dots> = i + \<bar>k\<bar>" using assms by (intro mod_pos_pos_trivial) auto
  finally show ?thesis .
qed

lemma sdiv_by_magnitude:
  "int (m div n) = int m sdiv int n" "- int (m div n) = - int m sdiv int n"
  "- int (m div n) = int m sdiv - int n" "int (m div n) = - int m sdiv - int n"
  by (simp_all add: signed_divide_int_def zdiv_int sgn_if)

lemma smod_by_magnitude:
  "int (m mod n) = int m smod int n" "- int (m mod n) = - int m smod int n"
  "int (m mod n) = int m smod - int n" "- int (m mod n) = - int m smod - int n"
  by (simp_all add: signed_modulo_int_def zmod_int sgn_if)

lemma limb0_mod: "d \<noteq> [] \<Longrightarrow> n \<le> 64 \<Longrightarrow> limbs_val d mod 2 ^ n = unat (d ! 0) mod 2 ^ n"
proof (cases d)
  case (Cons l ls)
  assume "n \<le> 64"
  then have "(2::nat) ^ 64 = 2 ^ n * 2 ^ (64 - n)" by (simp flip: power_add)
  then have "limbs_val d = unat l + 2 ^ n * (2 ^ (64 - n) * limbs_val ls)"
    unfolding Cons limbs_val.simps by (simp only: mult.assoc)
  then show ?thesis by (simp add: Cons del: limbs_val.simps)
qed simp

lemma sint_of_small: "uint w < 2 ^ 63 \<Longrightarrow> 0 \<le> sint (w :: UInt) \<and> sint w = uint w"
  by (simp add: sint_small)

context gmp_contract
begin

lemma limbs_mod_small_correct:
  assumes "LIMBS x \<noteq> []" "0 < i" "i \<le> 2 ^ 60"
  shows "uint (limbs_mod_small G x i) = int (limbs_val (LIMBS x)) mod i"
proof (cases "i AND (i - 1) = 0")
  case True
  then obtain n where n: "i = 2 ^ n" using power_of_two_test assms(2) by blast
  have "n \<le> 60" using assms(3) unfolding n by (rule power_le_imp_le_exp [rotated]) simp
  have "word_of_int (i - 1) = (mask n :: UInt)"
    by (simp add: n mask_eq_exp_minus_1)
  then have "limbs_mod_small G x i = take_bit n (VAL_LIMB0 x)"
    using True by (simp add: limbs_mod_small_def take_bit_eq_mask)
  then have "uint (limbs_mod_small G x i) = uint (LIMBS x ! 0) mod i"
    by (simp add: VAL_LIMB0_def n unsigned_take_bit_eq take_bit_eq_mod [of n "uint (LIMBS x ! 0)"])
  also have "\<dots> = int (limbs_val (LIMBS x)) mod i"
  proof -
    have "int (limbs_val (LIMBS x) mod 2 ^ n) = int (unat (LIMBS x ! 0) mod 2 ^ n)"
      using limb0_mod [OF assms(1), of n] \<open>n \<le> 60\<close> by simp
    then show ?thesis by (simp add: n zmod_int)
  qed
  finally show ?thesis .
next
  case False
  have w: "(word_of_int i :: UInt) \<noteq> 0" "uint (word_of_int i :: UInt) = i"
    using word_small_nonzero [of i] uint_small_word [of i] assms by auto
  then have "unat (word_of_int i :: UInt) = nat i" by (simp add: unat_eq_nat_uint)
  then have "int (unat (mpn_mod_1 G (LIMBS x) (word_of_int i))) = int (limbs_val (LIMBS x) mod nat i)"
    using mpn_mod_1 [OF w(1), of "LIMBS x"] by simp
  with False assms(2) show ?thesis by (simp add: limbs_mod_small_def zmod_int)
qed

lemma limbs_rem_bag_correct:
  assumes "LIMBS y \<noteq> []" "last (LIMBS y) \<noteq> 0" "SIZE_INT y \<le> SIZE_INT x"
  shows "limbs_rem_bag G x y \<noteq> [] \<and> limbs_val (limbs_rem_bag G x y) = limbs_val (LIMBS x) mod limbs_val (LIMBS y)"
proof -
  obtain q r where qr: "mpn_tdiv_qr G (LIMBS x) (LIMBS y) = (q, r)" by force
  from mpn_tdiv_qr [OF assms(1,2) _ qr] assms(1,3) show ?thesis
    by (auto simp: limbs_rem_bag_def Let_def qr SIZE_INT_def limbs_val_append)
qed

lemma GMP_NORMALIZE_bag_like:
  assumes "d \<noteq> []"
  shows "valid_int (GMP_NORMALIZE (bag_like x d)) \<and>
    int_val (GMP_NORMALIZE (bag_like x d)) = (if IS_INTNEG x then - int (limbs_val d) else int (limbs_val d))"
  using GMP_NORMALIZE_POS [OF assms] GMP_NORMALIZE_NEG [OF assms]
  by (cases x) (simp_all del: GMP_NORMALIZE.simps)

lemma small_by_large:
  assumes "valid_int x" "IS_SMALL x" "valid_int y" "\<not> IS_SMALL y"
  shows "\<bar>int_val x\<bar> < \<bar>int_val y\<bar> \<or> (int_val x = - (2 ^ 60) \<and> int_val y = 2 ^ 60)"
  using assms(1)
proof (cases rule: valid_int_cases)
  case (small w)
  from assms(3) show ?thesis using small assms(4) by (cases rule: valid_int_cases) auto
qed (use assms in auto)

lemma min_by_min_test:
  assumes "valid_int (T_INT l)" "valid_int y" "\<not> IS_SMALL y"
  shows "l = INTOBJ_MIN \<and> IS_INTPOS y \<and> SIZE_INT y = 1 \<and> uint (VAL_LIMB0 y) = - INT_INTOBJ_MIN \<longleftrightarrow>
    INT_INTOBJ l = - (2 ^ 60) \<and> int_val y = 2 ^ 60"
proof -
  have l: "l = INTOBJ_MIN \<longleftrightarrow> INT_INTOBJ l = - (2 ^ 60)"
    using valid_eq_INTOBJ_INT [of l INT_INTOBJ_MIN] assms by (simp add: INTOBJ_MIN_eq INTOBJ_bounds)
  have y: "IS_INTPOS y \<and> SIZE_INT y = 1 \<and> uint (VAL_LIMB0 y) = - INT_INTOBJ_MIN \<longleftrightarrow> int_val y = 2 ^ 60"
    using assms(2)
  proof (cases rule: valid_int_cases)
    case (pos d)
    show ?thesis
    proof (cases "length d = 1")
      case True
      then show ?thesis using pos limbs_val_one [of d] by (simp add: SIZE_INT_def VAL_LIMB0_def INTOBJ_bounds)
    next
      case False
      then show ?thesis using pos one_limb_or_large [of d "2 ^ 60"] by (simp add: SIZE_INT_def)
    qed
  qed (use assms(3) in auto)
  show ?thesis using l y by blast
qed

lemma large_by_size:
  assumes "valid_int x" "valid_int y" "\<not> IS_SMALL x" "\<not> IS_SMALL y" "SIZE_INT x < SIZE_INT y"
  shows "\<bar>int_val x\<bar> < \<bar>int_val y\<bar>"
proof -
  have "\<bar>int_val x\<bar> = int (limbs_val (LIMBS x))" "\<bar>int_val y\<bar> = int (limbs_val (LIMBS y))"
    using assms by (cases x; cases y; simp)+
  moreover have "last (LIMBS y) \<noteq> 0" using assms by (cases y) (auto simp: valid_int_simps)
  ultimately show ?thesis using limbs_less_length [of "LIMBS y" "LIMBS x"] assms(5)
    by (simp add: SIZE_INT_def)
qed

lemma rem_bag_normalized:
  assumes "valid_int x" "valid_int y" "\<not> IS_SMALL x" "\<not> IS_SMALL y" "SIZE_INT y \<le> SIZE_INT x"
  shows "valid_int (GMP_NORMALIZE (bag_like x (limbs_rem_bag G x y))) \<and>
    int_val (GMP_NORMALIZE (bag_like x (limbs_rem_bag G x y))) = int_val x smod int_val y"
proof -
  have y: "LIMBS y \<noteq> []" "last (LIMBS y) \<noteq> 0"
    using assms by (cases y; auto simp: valid_int_simps)+
  note bag = limbs_rem_bag_correct [OF y assms(5)]
  have "int_val x smod int_val y =
      (if IS_INTNEG x then - int (limbs_val (limbs_rem_bag G x y)) else int (limbs_val (limbs_rem_bag G x y)))"
    using assms(3,4) bag smod_by_magnitude [of "limbs_val (LIMBS x)" "limbs_val (LIMBS y)"]
    by (cases x; cases y) simp_all
  with GMP_NORMALIZE_bag_like [of "limbs_rem_bag G x y" x] bag show ?thesis by simp
qed

lemma small_divisor:
  assumes "valid_int (T_INT r)" "INT_INTOBJ r \<noteq> 0"
  shows "(if INT_INTOBJ r < 0 then - INT_INTOBJ r else INT_INTOBJ r) = \<bar>INT_INTOBJ r\<bar>"
    "0 < \<bar>INT_INTOBJ r\<bar>" "\<bar>INT_INTOBJ r\<bar> \<le> 2 ^ 60"
  using assms valid_intobj_bounds [of r] by auto

lemma limbs_mod_small_sint:
  assumes "valid_int x" "\<not> IS_SMALL x" "0 < i" "i \<le> 2 ^ 60"
  shows "sint (limbs_mod_small G x i) = int (limbs_val (LIMBS x)) mod i"
    "limbs_mod_small G x i = 0 \<longleftrightarrow> int (limbs_val (LIMBS x)) mod i = 0"
proof -
  have "LIMBS x \<noteq> []" using assms by (cases x) (auto simp: valid_int_simps)
  then have c: "uint (limbs_mod_small G x i) = int (limbs_val (LIMBS x)) mod i"
    using limbs_mod_small_correct assms by blast
  moreover have "int (limbs_val (LIMBS x)) mod i < i" using assms by simp
  ultimately show "sint (limbs_mod_small G x i) = int (limbs_val (LIMBS x)) mod i"
    using assms(4) by (simp add: sint_small)
  show "limbs_mod_small G x i = 0 \<longleftrightarrow> int (limbs_val (LIMBS x)) mod i = 0"
    using c uint_0_iff [of "limbs_mod_small G x i"] by simp
qed

end

lemma mod_in_small_range: "k \<noteq> 0 \<Longrightarrow> \<bar>k\<bar> \<le> 2 ^ 60 \<Longrightarrow> i mod \<bar>k\<bar> \<in> small_range" for i k :: int
proof -
  assume k: "k \<noteq> 0" "\<bar>k\<bar> \<le> 2 ^ 60"
  have "0 \<le> i mod \<bar>k\<bar>" "i mod \<bar>k\<bar> < \<bar>k\<bar>" using k(1) by auto
  then show ?thesis using k(2) by (intro small_nonneg) linarith+
qed

lemma smod_in_small_range:
  assumes "k \<noteq> 0" "\<bar>k\<bar> \<le> 2 ^ 60"
  shows "i smod k \<in> small_range"
proof -
  have "0 \<le> \<bar>i\<bar> mod \<bar>k\<bar>" "\<bar>i\<bar> mod \<bar>k\<bar> < \<bar>k\<bar>" using assms by auto
  then show ?thesis using assms(2)
    by (auto simp: signed_modulo_int_def small_range_iff sgn_if)
qed

lemma sdiv_in_small_range:
  assumes "- (2 ^ 60) \<le> i" "i < 2 ^ 60" "k \<noteq> 0" "\<not> (i = - (2 ^ 60) \<and> k = -1)"
  shows "i sdiv k \<in> small_range"
proof (cases "\<bar>k\<bar> = 1")
  case True
  then have "k = 1 \<or> k = -1" by arith
  then show ?thesis using assms by (auto simp: signed_divide_int_def small_range_iff sgn_if)
next
  case False
  then have "\<bar>i\<bar> div \<bar>k\<bar> \<le> \<bar>i\<bar> div 2" using assms(3) by (intro zdiv_mono2) auto
  moreover have "\<bar>i\<bar> div 2 < 2 ^ 60" "0 \<le> \<bar>i\<bar> div \<bar>k\<bar>"
    using assms by (auto simp: pos_imp_zdiv_nonneg_iff)
  ultimately show ?thesis by (auto simp: signed_divide_int_def small_range_iff sgn_if)
qed

lemma mod_of_negative: "(0::int) < k \<Longrightarrow> m mod k \<noteq> 0 \<Longrightarrow> (- m) mod k = k - m mod k"
  by (simp add: zmod_zminus1_eq_if)

lemma smod_sign_shift:
  fixes i k :: int
  assumes "k \<noteq> 0"
  shows "i smod k < 0 \<Longrightarrow> i smod k + \<bar>k\<bar> = i mod \<bar>k\<bar>" "0 \<le> i smod k \<Longrightarrow> i smod k = i mod \<bar>k\<bar>"
  using smod_adjust [OF assms, of i] by (auto split: if_splits)

context gmp_contract
begin

lemma ModInt_correct:
  assumes x: "valid_int x" and y: "valid_int y" and nz: "int_val y \<noteq> 0"
  shows "\<exists>z. ModInt G x y = Inr z \<and> valid_int z \<and> int_val z = int_val x mod \<bar>int_val y\<bar>"
proof -
  have y0: "y \<noteq> INTOBJ 0" using INTOBJ_eq_iff [OF y, of 0] nz by simp
  have shift: "valid_int (SumOrDiffInt G z y (if IS_INTPOS y then 1 else -1)) \<and>
      int_val (SumOrDiffInt G z y (if IS_INTPOS y then 1 else -1)) = int_val z + \<bar>int_val y\<bar>"
    if "valid_int z" "\<not> IS_SMALL y" for z
    using SumOrDiffInt_correct [OF that(1) y] that(2) by (cases y) auto
  consider (ss) l r where "x = T_INT l" "y = T_INT r" | (sl) l where "x = T_INT l" "\<not> IS_SMALL y"
    | (ls) r where "\<not> IS_SMALL x" "y = T_INT r" | (ll) "\<not> IS_SMALL x" "\<not> IS_SMALL y"
    by (cases x; cases y) auto
  then show ?thesis
  proof cases
    case ss
    have "INT_INTOBJ l mod \<bar>INT_INTOBJ r\<bar> \<in> small_range"
      using nz small_divisor [of r] y unfolding ss by (intro mod_in_small_range) auto
    then show ?thesis using y0 smod_adjust [of "INT_INTOBJ r" "INT_INTOBJ l"] nz
      by (simp add: ModInt_def ss Let_def)
  next
    case sl
    note test = min_by_min_test [of l y] and lt = small_by_large [OF x _ y]
    show ?thesis
    proof (cases "INT_INTOBJ l = - (2 ^ 60) \<and> int_val y = 2 ^ 60")
      case True
      then show ?thesis using test x y y0 sl by (cases y) (simp_all add: ModInt_def)
    next
      case False
      then have "\<bar>int_val x\<bar> < \<bar>int_val y\<bar>" using lt sl by auto
      moreover have "ModInt G x y = Inr (if 0 \<le> INT_INTOBJ l then x
          else SumOrDiffInt G x y (if IS_INTPOS y then 1 else -1))"
        using False test x y y0 sl by (cases y) (auto simp: ModInt_def)
      ultimately show ?thesis
        using shift [OF x sl(2)] x mod_small_negative [of "int_val x" "int_val y"] sl(1)
        by (cases "0 \<le> INT_INTOBJ l") auto
    qed
  next
    case ls
    let ?i = "\<bar>INT_INTOBJ r\<bar>" and ?m = "int (limbs_val (LIMBS x))"
    note r = small_divisor [of r] and c = limbs_mod_small_sint [OF x ls(1), of ?i]
    have m: "?m mod ?i \<in> small_range" "(- ?m) mod ?i \<in> small_range"
      using nz r y unfolding ls by (auto intro!: mod_in_small_range)
    have "ModInt G x y = Inr (INTOBJ (int_val x mod ?i))"
      using nz r y c ls y0 mod_of_negative [of ?i ?m]
      by (cases x; cases "?m mod ?i = 0") (simp_all add: ModInt_def Let_def zmod_zminus1_eq_if)
    then show ?thesis using m ls by (cases x) auto
  next
    case ll
    show ?thesis
    proof (cases "SIZE_INT x < SIZE_INT y")
      case True
      then have "ModInt G x y = Inr (if IS_INTPOS x then x
          else SumOrDiffInt G x y (if IS_INTPOS y then 1 else -1))"
        using y0 ll by (cases x; cases y) (simp_all add: ModInt_def)
      with large_by_size [OF x y ll True] shift [OF x ll(2)] x ll(1) show ?thesis
        using mod_small_negative [of "int_val x" "int_val y"]
        by (cases x) (auto simp: valid_int_simps)
    next
      case False
      define md where "md = GMP_NORMALIZE (bag_like x (limbs_rem_bag G x y))"
      have md: "valid_int md" "int_val md = int_val x smod int_val y"
        using rem_bag_normalized [OF x y ll] False by (simp_all add: md_def)
      have "ModInt G x y = Inr (if IS_NEG_INT md then SumOrDiffInt G md y (if IS_INTPOS y then 1 else -1) else md)"
        using y0 ll False by (cases x; cases y) (simp_all add: ModInt_def Let_def md_def)
      with shift [OF md(1) ll(2)] md smod_sign_shift [OF nz, of "int_val x"] IS_NEG_INT_iff [OF md(1)]
      show ?thesis by (cases "IS_NEG_INT md") auto
    qed
  qed
qed

lemma QuoInt_correct:
  assumes x: "valid_int x" and y: "valid_int y" and nz: "int_val y \<noteq> 0"
  shows "\<exists>z. QuoInt G x y = Inr z \<and> valid_int z \<and> int_val z = int_val x sdiv int_val y"
proof -
  have y0: "y \<noteq> INTOBJ 0" using INTOBJ_eq_iff [OF y, of 0] nz by simp
  consider (ss) l r where "x = T_INT l" "y = T_INT r" | (sl) l where "x = T_INT l" "\<not> IS_SMALL y"
    | (ls) r where "\<not> IS_SMALL x" "y = T_INT r" | (ll) "\<not> IS_SMALL x" "\<not> IS_SMALL y"
    by (cases x; cases y) auto
  then show ?thesis
  proof cases
    case ss
    have l: "l = INTOBJ_MIN \<longleftrightarrow> INT_INTOBJ l = - (2 ^ 60)" and r: "r = INTOBJ_INT (-1) \<longleftrightarrow> INT_INTOBJ r = -1"
      using x y ss valid_eq_INTOBJ_INT [of l INT_INTOBJ_MIN] valid_eq_INTOBJ_INT [of r "-1"]
      by (simp_all add: INTOBJ_MIN_eq INTOBJ_bounds)
    show ?thesis
    proof (cases "l = INTOBJ_MIN \<and> r = INTOBJ_INT (-1)")
      case True
      then have "QuoInt G x y = Inr (AInvInt x)" using y0 by (simp add: QuoInt_def AInvInt_def ss)
      with True AInvInt_correct [OF x] l r show ?thesis by (simp add: ss)
    next
      case False
      then have "INT_INTOBJ l sdiv INT_INTOBJ r \<in> small_range"
        using l r x y ss nz valid_intobj_bounds by (intro sdiv_in_small_range) auto
      with False y0 show ?thesis by (auto simp: QuoInt_def ss)
    qed
  next
    case sl
    have "QuoInt G x y = Inr (INTOBJ (int_val x sdiv int_val y))"
      using min_by_min_test [of l y] small_by_large [OF x _ y] smod_small(2) [of "int_val x" "int_val y"] x y y0 sl
      by (cases y) (auto simp: QuoInt_def)
    moreover have "int_val x sdiv int_val y \<in> small_range"
      using small_by_large [OF x _ y] smod_small(2) [of "int_val x" "int_val y"] sl by auto
    ultimately show ?thesis by simp
  next
    case ls
    define w :: UInt where "w = word_of_int \<bar>INT_INTOBJ r\<bar>"
    note r = small_divisor [of r]
    have w: "w \<noteq> 0" "int (unat w) = \<bar>int_val y\<bar>"
      using r nz y ls(2) word_small_nonzero [of "\<bar>INT_INTOBJ r\<bar>"] uint_small_word [of "\<bar>INT_INTOBJ r\<bar>"]
      by (auto simp: w_def)
    define q where "q = mpn_divrem_1 G (LIMBS x) w"
    have ne: "LIMBS x \<noteq> []" using x ls(1) by (cases x) (auto simp: valid_int_simps)
    then have q: "q \<noteq> []" "limbs_val q = limbs_val (LIMBS x) div unat w"
      using mpn_divrem_1 [OF w(1), of "LIMBS x"] unfolding q_def by (metis length_0_conv, simp)
    have "QuoInt G x y = Inr (GMP_NORMALIZE (if IS_INTNEG x = (int_val y < 0) then T_INTPOS q else T_INTNEG q))"
      using nz r y ls y0 by (cases x) (simp_all add: QuoInt_def q_def w_def Let_def del: GMP_NORMALIZE.simps)
    then show ?thesis
      using GMP_NORMALIZE_POS [OF q(1)] GMP_NORMALIZE_NEG [OF q(1)] q(2) w(2) ls(1) nz
        sdiv_by_magnitude [of "limbs_val (LIMBS x)" "unat w"]
      by (cases x; cases "int_val y < 0") (simp_all del: GMP_NORMALIZE.simps)
  next
    case ll
    show ?thesis
    proof (cases "SIZE_INT x < SIZE_INT y")
      case True
      then show ?thesis using y0 ll smod_small(2) [OF large_by_size [OF x y ll True]]
        by (cases x; cases y) (simp_all add: QuoInt_def)
    next
      case False
      obtain q r where qr: "mpn_tdiv_qr G (LIMBS x) (LIMBS y) = (q, r)" by force
      have "LIMBS y \<noteq> []" "last (LIMBS y) \<noteq> 0" using ll y by (cases y; auto simp: valid_int_simps)+
      then have q: "q \<noteq> []" "limbs_val q = limbs_val (LIMBS x) div limbs_val (LIMBS y)"
        using mpn_tdiv_qr [OF _ _ _ qr] False by (auto simp: SIZE_INT_def)
      have "QuoInt G x y = Inr (GMP_NORMALIZE (if IS_INTPOS x = IS_INTPOS y then T_INTPOS q else T_INTNEG q))"
        using y0 ll False qr by (cases x; cases y) (simp_all add: QuoInt_def Let_def del: GMP_NORMALIZE.simps)
      then show ?thesis
        using GMP_NORMALIZE_POS [OF q(1)] GMP_NORMALIZE_NEG [OF q(1)] q(2) ll
          sdiv_by_magnitude [of "limbs_val (LIMBS x)" "limbs_val (LIMBS y)"]
        by (cases x; cases y) (simp_all del: GMP_NORMALIZE.simps)
    qed
  qed
qed

lemma RemInt_correct:
  assumes x: "valid_int x" and y: "valid_int y" and nz: "int_val y \<noteq> 0"
  shows "\<exists>z. RemInt G x y = Inr z \<and> valid_int z \<and> int_val z = int_val x smod int_val y"
proof -
  have y0: "y \<noteq> INTOBJ 0" using INTOBJ_eq_iff [OF y, of 0] nz by simp
  consider (ss) l r where "x = T_INT l" "y = T_INT r" | (sl) l where "x = T_INT l" "\<not> IS_SMALL y"
    | (ls) r where "\<not> IS_SMALL x" "y = T_INT r" | (ll) "\<not> IS_SMALL x" "\<not> IS_SMALL y"
    by (cases x; cases y) auto
  then show ?thesis
  proof cases
    case ss
    have "INT_INTOBJ l smod INT_INTOBJ r \<in> small_range"
      using nz small_divisor [of r] y unfolding ss by (intro smod_in_small_range) auto
    then show ?thesis using y0 by (simp add: RemInt_def ss)
  next
    case sl
    have "RemInt G x y = Inr (if INT_INTOBJ l = - (2 ^ 60) \<and> int_val y = 2 ^ 60 then INTOBJ 0 else x)"
      using min_by_min_test [of l y] x y y0 sl by (cases y) (auto simp: RemInt_def)
    then show ?thesis using small_by_large [OF x _ y] smod_small(1) [of "int_val x" "int_val y"] sl x
      by auto
  next
    case ls
    let ?i = "\<bar>INT_INTOBJ r\<bar>" and ?m = "int (limbs_val (LIMBS x))"
    note r = small_divisor [of r]
    have "RemInt G x y = Inr (INTOBJ (if IS_INTPOS x then ?m mod ?i else - (?m mod ?i)))"
      using nz r y limbs_mod_small_sint [OF x ls(1), of ?i] ls y0
      by (cases x) (simp_all add: RemInt_def Let_def)
    moreover have "(if IS_INTPOS x then ?m mod ?i else - (?m mod ?i)) = int_val x smod INT_INTOBJ r"
      using ls(1) by (cases x) (simp_all add: signed_modulo_int_def sgn_if)
    moreover have "int_val x smod INT_INTOBJ r \<in> small_range"
      using nz r y unfolding ls(2) by (intro smod_in_small_range) auto
    ultimately show ?thesis by (simp add: ls(2))
  next
    case ll
    have "RemInt G x y = Inr (if SIZE_INT x < SIZE_INT y then x
        else GMP_NORMALIZE (bag_like x (limbs_rem_bag G x y)))"
      using y0 ll by (cases x; cases y) (simp_all add: RemInt_def del: GMP_NORMALIZE.simps)
    then show ?thesis
      using large_by_size [OF x y ll] smod_small(1) [of "int_val x" "int_val y"]
        rem_bag_normalized [OF x y ll] x
      by (cases "SIZE_INT x < SIZE_INT y") auto
  qed
qed

end

subsection \<open>Properties\<close>

text \<open>C9: Integer division. For a nonzero divisor \<open>ModInt\<close> returns the remainder in
  \<open>[0, |divisor|)\<close>, \<open>QuoInt\<close> and \<open>RemInt\<close> the quotient and remainder truncated towards zero, all
  as well-formed objects; so \<open>x = quotient * y + remainder\<close>, including the smallest immediate
  integer divided by -1 or by its negative.\<close>

theorem integer_division_sound:
  assumes "gmp_contract G" "valid_int x" "valid_int y" "int_val y \<noteq> 0"
  shows "\<exists>m q r. ModInt G x y = Inr m \<and> QuoInt G x y = Inr q \<and> RemInt G x y = Inr r \<and>
    valid_int m \<and> valid_int q \<and> valid_int r \<and> int_val m = int_val x mod \<bar>int_val y\<bar> \<and>
    int_val q = int_val x sdiv int_val y \<and> int_val r = int_val x smod int_val y \<and>
    int_val x = int_val q * int_val y + int_val r"
  using gmp_contract.ModInt_correct [OF assms] gmp_contract.QuoInt_correct [OF assms]
    gmp_contract.RemInt_correct [OF assms] by (auto simp: sdiv_mult_smod_eq)

theorem integer_division_sound_witness:
  "\<exists>m q r. ModInt gmp_ref (INTOBJ (- 7)) (INTOBJ 3) = Inr m \<and> QuoInt gmp_ref (INTOBJ (- 7)) (INTOBJ 3) = Inr q \<and>
    RemInt gmp_ref (INTOBJ (- 7)) (INTOBJ 3) = Inr r \<and> int_val m = 2 \<and> int_val q = - 2 \<and> int_val r = - 1"
  using integer_division_sound [OF gmp_ref.gmp_contract_axioms, of "INTOBJ (- 7)" "INTOBJ 3"]
  by (auto simp: small_range_iff signed_divide_int_def signed_modulo_int_def)

text \<open>Division by zero is an error in each of the three functions, whatever the dividend.\<close>

lemma division_by_zero_raises:
  "ModInt G x (INTOBJ 0) = Inl nonzero_error \<and> QuoInt G x (INTOBJ 0) = Inl nonzero_error \<and>
   RemInt G x (INTOBJ 0) = Inl nonzero_error"
  by (simp add: ModInt_def QuoInt_def RemInt_def)

end
