(* ===== verification/IntGcd.thy ===== *)
theory IntGcd
  imports IntDiv
begin

text \<open>
  Greatest common divisors and modular arithmetic on integers, \<open>src/src/integer.c\<close>: \<open>GcdInt\<close>,
  \<open>LcmInt\<close>, \<open>InverseModInt\<close> (its extended Euclidean loop included) and \<open>FuncPOWERMODINT\<close>. \<open>Fail\<close> is
  \<open>None\<close>.
\<close>

subsection \<open>Greatest common divisors\<close>

definition GcdInt :: "gmp \<Rightarrow> gapint \<Rightarrow> gapint \<Rightarrow> gapint" where
  "GcdInt G opL opR =
     (if opL = INTOBJ 0 then AbsInt opR
      else if opR = INTOBJ 0 then AbsInt opL
      else
        let sizeL = SIZE_INT_OR_INTOBJ opL; sizeR = SIZE_INT_OR_INTOBJ opR in
        if sizeL = 1 \<or> sizeR = 1 then
          let (opL, opR) = (if sizeR \<noteq> 1 then (opR, opL) else (opL, opR))
          in ObjInt_UInt (mpz_gcd_ui G (mpz_v (FAKEMPZ_GMPorINTOBJ opL)) (AbsOfSmallInt opR))
        else
          let mpzResult = NEW_FAKEMPZ (if sizeL < sizeR then sizeL else sizeR);
              mpzL = FAKEMPZ_GMPorINTOBJ opL; mpzR = FAKEMPZ_GMPorINTOBJ opR
          in GMPorINTOBJ_FAKEMPZ (mpzResult\<lparr>mpz_v := mpz_gcd G (mpz_v mpzResult) (mpz_v mpzL) (mpz_v mpzR)\<rparr>))"

definition LcmInt :: "gmp \<Rightarrow> gapint \<Rightarrow> gapint \<Rightarrow> gapint result" where
  "LcmInt G opL opR =
     (if opL = INTOBJ 0 \<or> opR = INTOBJ 0 then Inr (INTOBJ 0)
      else if IS_SMALL opL \<or> IS_SMALL opR then
        let (opL, opR) = (if \<not> IS_SMALL opR then (opR, opL) else (opL, opR));
            gcd = GcdInt G opL opR
        in rbind (QuoInt G opR gcd) (\<lambda>opR. Inr (AbsInt (ProdInt G opL opR)))
      else
        let sizeL = SIZE_INT_OR_INTOBJ opL; sizeR = SIZE_INT_OR_INTOBJ opR;
            mpzResult = NEW_FAKEMPZ (sizeL + sizeR);
            mpzL = FAKEMPZ_GMPorINTOBJ opL; mpzR = FAKEMPZ_GMPorINTOBJ opR
        in Inr (GMPorINTOBJ_FAKEMPZ
             (mpzResult\<lparr>mpz_v := mpz_lcm G (mpz_v mpzResult) (mpz_v mpzL) (mpz_v mpzR)\<rparr>)))"

subsection \<open>Modular arithmetic\<close>

text \<open>
  The extended Euclidean loop of \<open>InverseModInt\<close> on C integers; it returns the last \<open>a\<close> and its
  cofactor \<open>aL\<close>.
\<close>

function euclid_loop :: "int \<Rightarrow> int \<Rightarrow> int \<Rightarrow> int \<Rightarrow> int \<times> int" where
  "euclid_loop a b aL bL =
     (if b \<noteq> 0 then
        let hdQ = a sdiv b
        in euclid_loop b (a - hdQ * b) bL (aL - hdQ * bL)
      else (a, aL))"
  by pat_completeness auto
termination
proof (relation "measure (\<lambda>(a, b, aL, bL). nat \<bar>b\<bar>)", goal_cases)
  case (2 a b aL bL q)
  then have "\<bar>a - b * q\<bar> < \<bar>b\<bar>" by (intro sdiv_remainder_bound) simp_all
  then show ?case by (simp add: mult.commute)
qed simp

declare euclid_loop.simps [simp del]

definition InverseModInt :: "gmp \<Rightarrow> gapint \<Rightarrow> gapint \<Rightarrow> gapint option result" where
  "InverseModInt G base md =
     (if md = INTOBJ 1 \<or> md = INTOBJ (-1) then Inr (Some (INTOBJ 0))
      else if base = INTOBJ 0 \<or> md = INTOBJ 0 then Inr None
      else case md of
        T_INT m \<Rightarrow>
          let a = INT_INTOBJ m; a = (if a < 0 then - a else a) in
          rbind (ModInt G base md) (\<lambda>bobj.
            let b = int_val bobj; (a, aL) = euclid_loop a b 0 1
            in if a \<noteq> 1 then Inr None
               else rbind (ModInt G (INTOBJ aL) md) (\<lambda>r. Inr (Some r)))
      | _ \<Rightarrow>
          let result = NEW_FAKEMPZ (SIZE_INT_OR_INTOBJ md + 1)
          in case mpz_invert G (mpz_v result) (mpz_v (FAKEMPZ_GMPorINTOBJ base)) (mpz_v (FAKEMPZ_GMPorINTOBJ md)) of
               None \<Rightarrow> Inr None
             | Some r \<Rightarrow> Inr (Some (GMPorINTOBJ_FAKEMPZ (result\<lparr>mpz_v := r\<rparr>))))"

definition FuncINVMODINT :: "gmp \<Rightarrow> gapint \<Rightarrow> gapint \<Rightarrow> gapint option result" where
  "FuncINVMODINT G base md =
     (if md = INTOBJ 0 then Inl (RequireNonzero_msg ''INVMODINT'' ''mod'') else InverseModInt G base md)"

definition FuncPOWERMODINT :: "gmp \<Rightarrow> gapint \<Rightarrow> gapint \<Rightarrow> gapint \<Rightarrow> gapint result" where
  "FuncPOWERMODINT G base expn md =
     (if md = INTOBJ 0 then Inl (RequireNonzero_msg ''POWERMODINT'' ''mod'')
      else if md = INTOBJ 1 \<or> md = INTOBJ (-1) then Inr (INTOBJ 0)
      else rbind
        (if IS_NEG_INT expn then
           rbind (InverseModInt G base md) (\<lambda>inv. case inv of
             None \<Rightarrow> Inl ''PowerModInt: negative <exp> but <base> is not invertible modulo <mod>''
           | Some b \<Rightarrow> Inr (b, AInvInt expn))
         else Inr (base, expn))
        (\<lambda>(base, expn).
           let result = NEW_FAKEMPZ (SIZE_INT_OR_INTOBJ md)
           in Inr (GMPorINTOBJ_FAKEMPZ (result\<lparr>mpz_v := mpz_powm G (mpz_v result)
                (mpz_v (FAKEMPZ_GMPorINTOBJ base)) (mpz_v (FAKEMPZ_GMPorINTOBJ expn))
                (mpz_v (FAKEMPZ_GMPorINTOBJ md))\<rparr>))))"

subsection \<open>Correctness of gcd and lcm\<close>

lemma AbsOfSmallInt_correct:
  assumes "valid_int x" "SIZE_INT_OR_INTOBJ x = 1"
  shows "int (unat (AbsOfSmallInt x)) = \<bar>int_val x\<bar>"
  using assms(1)
proof (cases rule: valid_int_cases)
  case (small w)
  then have "(if INT_INTOBJ w > 0 then INT_INTOBJ w else - INT_INTOBJ w) = \<bar>int_val x\<bar>" by simp
  moreover have "\<bar>int_val x\<bar> \<le> 2 ^ 60" using small by linarith
  ultimately show ?thesis using uint_small_word [of "\<bar>int_val x\<bar>"] small(1)
    by (simp add: AbsOfSmallInt_def Let_def)
next
  case (pos d)
  then show ?thesis using assms(2) limbs_val_one [of d] by (simp add: AbsOfSmallInt_def VAL_LIMB0_def)
next
  case (neg d)
  then show ?thesis using assms(2) limbs_val_one [of d] by (simp add: AbsOfSmallInt_def VAL_LIMB0_def)
qed

lemma gcd_fits_min:
  fixes a b :: int
  assumes "nat \<bar>a\<bar> < 2 ^ (64 * m)" "nat \<bar>b\<bar> < 2 ^ (64 * n)" "a \<noteq> 0" "b \<noteq> 0"
  shows "nat \<bar>gcd a b\<bar> < 2 ^ (64 * (if m < n then m else n))"
proof -
  have "gcd a b \<le> \<bar>a\<bar>" "gcd a b \<le> \<bar>b\<bar>" using assms by (auto intro: gcd_le1_int gcd_le2_int dvd_imp_le_int zdvd_imp_le)
  then show ?thesis using assms by (auto simp: nat_le_eq_zle intro: le_less_trans [OF nat_mono])
qed

lemma lcm_fits_sum:
  fixes a b :: int
  assumes "nat \<bar>a\<bar> < 2 ^ (64 * m)" "nat \<bar>b\<bar> < 2 ^ (64 * n)" "a \<noteq> 0" "b \<noteq> 0"
  shows "nat \<bar>lcm a b\<bar> < 2 ^ (64 * (m + n))"
proof -
  have "lcm a b \<le> \<bar>a * b\<bar>" using assms by (intro zdvd_imp_le) (auto intro: lcm_least)
  then have "nat \<bar>lcm a b\<bar> \<le> nat \<bar>a * b\<bar>" by (intro nat_mono) simp
  then show ?thesis using mult_size_bound [OF assms(1,2)] by linarith
qed

lemma lcm_by_gcd:
  fixes a b :: int
  assumes "a \<noteq> 0" "b \<noteq> 0"
  shows "\<bar>a * (b sdiv gcd a b)\<bar> = lcm a b"
proof -
  have g: "0 < gcd a b" using assms by simp
  obtain c where c: "b = gcd a b * c" using gcd_dvd2 [of a b] by blast
  have "\<bar>b\<bar> = gcd a b * \<bar>c\<bar>" using arg_cong [OF c, of abs] by (simp add: abs_mult)
  moreover have "sgn b = sgn c" using arg_cong [OF c, of sgn] g by (simp add: sgn_mult)
  ultimately have quo: "b sdiv gcd a b = c" using g by (simp add: signed_divide_int_def sgn_mult_abs)
  have "gcd a b * \<bar>a * c\<bar> = gcd a b * lcm a b"
    using prod_gcd_lcm_int [of a b] \<open>\<bar>b\<bar> = gcd a b * \<bar>c\<bar>\<close> by (simp add: abs_mult ac_simps)
  then have "\<bar>a * c\<bar> = lcm a b" using g mult_left_cancel [of "gcd a b" "\<bar>a * c\<bar>" "lcm a b"] by linarith
  then show ?thesis by (simp add: quo)
qed

context gmp_contract
begin

lemma GcdInt_correct:
  assumes x: "valid_int x" and y: "valid_int y"
  shows "valid_int (GcdInt G x y) \<and> int_val (GcdInt G x y) = gcd (int_val x) (int_val y)"
proof (cases "x = INTOBJ 0 \<or> y = INTOBJ 0")
  case True
  then show ?thesis using x y AbsInt_correct by (auto simp: GcdInt_def)
next
  case False
  then have nz: "int_val x \<noteq> 0" "int_val y \<noteq> 0"
    using INTOBJ_eq_iff [OF x, of 0] INTOBJ_eq_iff [OF y, of 0] by auto
  show ?thesis
  proof (cases "SIZE_INT_OR_INTOBJ x = 1 \<or> SIZE_INT_OR_INTOBJ y = 1")
    case True
    have ui: "int_val (ObjInt_UInt (mpz_gcd_ui G (mpz_v (FAKEMPZ_GMPorINTOBJ a)) (AbsOfSmallInt b)))
        = gcd (int_val a) (int_val b)"
      if "valid_int a" "valid_int b" "int_val b \<noteq> 0" "SIZE_INT_OR_INTOBJ b = 1" for a b
    proof -
      have "AbsOfSmallInt b \<noteq> 0" using AbsOfSmallInt_correct [of b] that by auto
      then show ?thesis
        using mpz_gcd_ui [of "mpz_v (FAKEMPZ_GMPorINTOBJ a)" "AbsOfSmallInt b"] FAKEMPZ_in [of a]
          AbsOfSmallInt_correct [of b] ObjInt_UInt_correct that by simp
    qed
    show ?thesis using True False ui [of x y] ui [of y x] x y nz ObjInt_UInt_correct
      by (auto simp: GcdInt_def Let_def gcd.commute)
  next
    case large: False
    let ?n = "if SIZE_INT_OR_INTOBJ x < SIZE_INT_OR_INTOBJ y then SIZE_INT_OR_INTOBJ x else SIZE_INT_OR_INTOBJ y"
    have "mpz_fits (mpz_v (NEW_FAKEMPZ ?n)) (gcd (int_val x) (int_val y))"
      unfolding NEW_FAKEMPZ_fits using x y nz by (intro gcd_fits_min size_int_bound)
    then have "mpz_out ?n (mpz_gcd G (mpz_v (NEW_FAKEMPZ ?n)) (mpz_v (FAKEMPZ_GMPorINTOBJ x))
        (mpz_v (FAKEMPZ_GMPorINTOBJ y))) (gcd (int_val x) (int_val y))"
      using mpz_gcd [of "mpz_v (FAKEMPZ_GMPorINTOBJ x)" "mpz_v (FAKEMPZ_GMPorINTOBJ y)" "mpz_v (NEW_FAKEMPZ ?n)"]
        FAKEMPZ_in [OF x] FAKEMPZ_in [OF y] by simp
    from FAKEMPZ_out [OF this] show ?thesis
      using large False size_int_pos [OF x] size_int_pos [OF y] by (auto simp: GcdInt_def Let_def)
  qed
qed

lemma LcmInt_correct:
  assumes x: "valid_int x" and y: "valid_int y"
  shows "\<exists>z. LcmInt G x y = Inr z \<and> valid_int z \<and> int_val z = lcm (int_val x) (int_val y)"
proof (cases "x = INTOBJ 0 \<or> y = INTOBJ 0")
  case True
  then show ?thesis using x y by (auto simp: LcmInt_def)
next
  case False
  then have nz: "int_val x \<noteq> 0" "int_val y \<noteq> 0"
    using INTOBJ_eq_iff [OF x, of 0] INTOBJ_eq_iff [OF y, of 0] by auto
  have quo: "\<exists>z. rbind (QuoInt G b (GcdInt G a b)) (\<lambda>b. Inr (AbsInt (ProdInt G a b))) = Inr z \<and>
      valid_int z \<and> int_val z = lcm (int_val a) (int_val b)"
    if "valid_int a" "valid_int b" "int_val a \<noteq> 0" "int_val b \<noteq> 0" for a b
  proof -
    note g = GcdInt_correct [OF that(1,2)] and ab = that
    obtain q where q: "QuoInt G b (GcdInt G a b) = Inr q" "valid_int q"
        "int_val q = int_val b sdiv gcd (int_val a) (int_val b)"
      using QuoInt_correct [OF ab(2), of "GcdInt G a b"] g ab by auto
    with ProdInt_correct [OF ab(1) q(2)] AbsInt_correct [of "ProdInt G a q"] show ?thesis
      using lcm_by_gcd [OF ab(3,4)] by simp
  qed
  show ?thesis
  proof (cases "IS_SMALL x \<or> IS_SMALL y")
    case True
    then show ?thesis using False quo [OF x y nz] quo [OF y x nz(2,1)]
      by (auto simp: LcmInt_def Let_def lcm.commute)
  next
    case large: False
    let ?n = "SIZE_INT_OR_INTOBJ x + SIZE_INT_OR_INTOBJ y"
    have "mpz_fits (mpz_v (NEW_FAKEMPZ ?n)) (lcm (int_val x) (int_val y))"
      unfolding NEW_FAKEMPZ_fits using x y nz by (intro lcm_fits_sum size_int_bound)
    then have "mpz_out ?n (mpz_lcm G (mpz_v (NEW_FAKEMPZ ?n)) (mpz_v (FAKEMPZ_GMPorINTOBJ x))
        (mpz_v (FAKEMPZ_GMPorINTOBJ y))) (lcm (int_val x) (int_val y))"
      using mpz_lcm [of "mpz_v (FAKEMPZ_GMPorINTOBJ x)" "mpz_v (FAKEMPZ_GMPorINTOBJ y)" "mpz_v (NEW_FAKEMPZ ?n)"]
        FAKEMPZ_in [OF x] FAKEMPZ_in [OF y] by simp
    from FAKEMPZ_out [OF this] show ?thesis
      using large False size_int_pos [OF x] by (auto simp: LcmInt_def Let_def)
  qed
qed

end

subsection \<open>Correctness of modular arithmetic\<close>

text \<open>
  One round of the extended Euclidean loop: the remainders \<open>a > b\<close> and the cofactors keep the
  determinant identity with the modulus \<open>m\<close>, alternate in sign, and stay congruent to multiples
  of the base.
\<close>

definition euclid_inv :: "int \<Rightarrow> int \<Rightarrow> int \<Rightarrow> int \<Rightarrow> int \<Rightarrow> int \<Rightarrow> bool" where
  "euclid_inv m x a b aL bL \<longleftrightarrow> 0 \<le> b \<and> b < a \<and> a * \<bar>bL\<bar> + b * \<bar>aL\<bar> = m \<and> aL * bL \<le> 0 \<and>
     2 * \<bar>aL\<bar> \<le> m \<and> m dvd a - aL * x \<and> m dvd b - bL * x"

lemma abs_diff_opposite:
  fixes p q k :: int
  assumes "p * q \<le> 0" "0 \<le> k"
  shows "\<bar>p - k * q\<bar> = \<bar>p\<bar> + k * \<bar>q\<bar>"
proof -
  from assms(1) have "p \<le> 0 \<and> 0 \<le> q \<or> 0 \<le> p \<and> q \<le> 0" by (auto simp: mult_le_0_iff)
  then show ?thesis
  proof
    assume pq: "p \<le> 0 \<and> 0 \<le> q"
    then have "0 \<le> k * q" using assms(2) by simp
    with pq show ?thesis by simp
  next
    assume pq: "0 \<le> p \<and> q \<le> 0"
    then have "k * q \<le> 0" using assms(2) by (simp add: mult_nonneg_nonpos)
    with pq show ?thesis by simp
  qed
qed

lemma euclid_inv_step:
  assumes inv: "euclid_inv m x a b aL bL" and b: "b \<noteq> 0"
  shows "euclid_inv m x b (a - (a sdiv b) * b) bL (aL - (a sdiv b) * bL)"
proof -
  define q where "q = a sdiv b"
  have pos: "0 < b" "b < a" using inv b by (auto simp: euclid_inv_def)
  then have q: "q = a div b" by (simp add: q_def signed_divide_int_def)
  have q0: "0 \<le> q" using pos by (simp add: q pos_imp_zdiv_nonneg_iff)
  have r: "a - q * b = a mod b" by (simp add: q minus_div_mult_eq_mod)
  have bL: "\<bar>aL - q * bL\<bar> = \<bar>aL\<bar> + q * \<bar>bL\<bar>"
    using inv q0 by (intro abs_diff_opposite) (auto simp: euclid_inv_def)
  have "2 * \<bar>bL\<bar> \<le> a * \<bar>bL\<bar>" using pos by (intro mult_right_mono) auto
  also have "\<dots> \<le> m" using inv pos by (auto simp: euclid_inv_def)
  finally have half: "2 * \<bar>bL\<bar> \<le> m" .
  have det: "b * \<bar>aL - q * bL\<bar> + (a - q * b) * \<bar>bL\<bar> = m"
    using inv unfolding bL by (simp add: euclid_inv_def algebra_simps)
  have "bL * (aL - q * bL) = aL * bL - q * (bL * bL)" by (simp add: algebra_simps)
  also have "\<dots> \<le> 0" using inv q0 by (simp add: euclid_inv_def add_nonneg_nonneg order_trans [of _ 0])
  finally have sign: "bL * (aL - q * bL) \<le> 0" .
  have "a - q * b - (aL - q * bL) * x = (a - aL * x) - q * (b - bL * x)" by (simp add: algebra_simps)
  moreover have "m dvd (a - aL * x) - q * (b - bL * x)" using inv unfolding euclid_inv_def
    by (meson dvd_diff dvd_mult)
  ultimately have "m dvd a - q * b - (aL - q * bL) * x" by (simp only:)
  then show ?thesis using det sign half inv pos unfolding q_def [symmetric]
    by (simp add: euclid_inv_def r)
qed

lemma euclid_loop_correct:
  assumes "euclid_inv m x a b aL bL" "euclid_loop a b aL bL = (g, gL)"
  shows "g = gcd a b \<and> m dvd g - gL * x \<and> 2 * \<bar>gL\<bar> \<le> m"
  using assms
proof (induction a b aL bL rule: euclid_loop.induct)
  case (1 a b aL bL)
  show ?case
  proof (cases "b = 0")
    case True
    then show ?thesis using "1.prems" by (auto simp: euclid_loop.simps euclid_inv_def)
  next
    case False
    note inv = euclid_inv_step [OF "1.prems"(1) False]
    have "euclid_loop b (a - (a sdiv b) * b) bL (aL - (a sdiv b) * bL) = (g, gL)"
      using "1.prems"(2) False by (subst (asm) euclid_loop.simps) (simp add: Let_def)
    from "1.IH" [OF False refl inv this]
    have "g = gcd b (a - (a sdiv b) * b) \<and> m dvd g - gL * x \<and> 2 * \<bar>gL\<bar> \<le> m" .
    moreover have "gcd b (a - (a sdiv b) * b) = gcd a b"
      using gcd_add_mult [of b "- (a sdiv b)" a] by (simp add: gcd.commute algebra_simps)
    ultimately show ?thesis by metis
  qed
qed

lemma euclid_start:
  assumes "2 \<le> m"
  shows "euclid_inv m x m (x mod m) 0 1"
  using assms by (simp add: euclid_inv_def mod_eq_dvd_iff [symmetric])

lemma inverse_mod_unit:
  fixes x u m :: int
  assumes "m dvd 1 - u * x"
  shows "(x * (u mod m)) mod m = 1 mod m"
proof -
  have "(x * (u mod m)) mod m = (u * x) mod m" by (simp add: mod_mult_right_eq mult.commute)
  also have "\<dots> = 1 mod m" using assms by (simp add: mod_eq_dvd_iff dvd_diff_commute)
  finally show ?thesis .
qed

lemma gcd_abs_mod: "m \<noteq> 0 \<Longrightarrow> gcd \<bar>m\<bar> (x mod \<bar>m\<bar>) = gcd x m" for m x :: int
  by (metis gcd.commute gcd_abs2_int gcd_red_int)

context gmp_contract
begin

lemma InverseModInt_correct:
  assumes x: "valid_int x" and m: "valid_int m" and m0: "int_val m \<noteq> 0"
  shows "if coprime (int_val x) (int_val m)
    then \<exists>z. InverseModInt G x m = Inr (Some z) \<and> valid_int z \<and> 0 \<le> int_val z \<and> int_val z < \<bar>int_val m\<bar> \<and>
      (int_val x * int_val z) mod \<bar>int_val m\<bar> = 1 mod \<bar>int_val m\<bar>
    else InverseModInt G x m = Inr None"
proof -
  note eqs = INTOBJ_eq_iff [OF x] INTOBJ_eq_iff [OF m]
  consider (one) "\<bar>int_val m\<bar> = 1" | (zero) "\<bar>int_val m\<bar> \<noteq> 1" "int_val x = 0"
    | (small) k where "2 \<le> \<bar>int_val m\<bar>" "int_val x \<noteq> 0" "m = T_INT k"
    | (large) "2 \<le> \<bar>int_val m\<bar>" "int_val x \<noteq> 0" "\<not> IS_SMALL m"
    using m0 by (cases m) force+
  then show ?thesis
  proof cases
    case one
    then have "m = INTOBJ 1 \<or> m = INTOBJ (-1)" using eqs by auto
    with one show ?thesis by (auto simp: InverseModInt_def)
  next
    case zero
    then show ?thesis using eqs m0 by (auto simp: InverseModInt_def abs_if split: if_splits)
  next
    case small
    let ?m = "\<bar>int_val m\<bar>"
    obtain b where b: "ModInt G x m = Inr b" "valid_int b" "int_val b = int_val x mod ?m"
      using ModInt_correct [OF x m m0] by blast
    obtain g gL where g: "euclid_loop ?m (int_val x mod ?m) 0 1 = (g, gL)" by force
    have loop: "g = gcd (int_val x) (int_val m)" "?m dvd g - gL * int_val x" "2 * \<bar>gL\<bar> \<le> ?m"
      using euclid_loop_correct [OF euclid_start [OF small(1)] g] gcd_abs_mod [OF m0] by auto
    have k: "(if INT_INTOBJ k < 0 then - INT_INTOBJ k else INT_INTOBJ k) = ?m" by (auto simp: small(3))
    have "InverseModInt G x m = (if g \<noteq> 1 then Inr None
        else rbind (ModInt G (INTOBJ gL) m) (\<lambda>r. Inr (Some r)))"
      using small b g k eqs m0 by (auto simp: InverseModInt_def Let_def)
    moreover have "\<exists>z. ModInt G (INTOBJ gL) m = Inr z \<and> valid_int z \<and> int_val z = gL mod ?m"
    proof -
      have "?m \<le> 2 ^ 60" using m small(3) valid_intobj_bounds [of k] by auto
      then have "2 * \<bar>gL\<bar> \<le> 2 ^ 60" using loop(3) by (rule order_trans [rotated])
      then have "gL \<in> small_range" unfolding small_range_iff by (simp add: abs_if split: if_splits)
      then show ?thesis using ModInt_correct [OF _ m m0, of "INTOBJ gL"] by simp
    qed
    ultimately show ?thesis
      using loop inverse_mod_unit [of ?m gL "int_val x"] small(1) by (auto simp: coprime_iff_gcd_eq_1)
  next
    case large
    let ?d = "NEW_FAKEMPZ (SIZE_INT_OR_INTOBJ m + 1)"
    have "nat \<bar>int_val m\<bar> < 2 ^ (64 * (SIZE_INT_OR_INTOBJ m + 1))"
      by (rule less_le_trans [OF size_int_bound [OF m]]) (intro power_increasing; simp)
    then have fits: "mpz_fits (mpz_v ?d) (int_val m)" by (simp only: NEW_FAKEMPZ_fits)
    have eq: "InverseModInt G x m =
        (case mpz_invert G (mpz_v ?d) (mpz_v (FAKEMPZ_GMPorINTOBJ x)) (mpz_v (FAKEMPZ_GMPorINTOBJ m)) of
           None \<Rightarrow> Inr None | Some r \<Rightarrow> Inr (Some (GMPorINTOBJ_FAKEMPZ (?d\<lparr>mpz_v := r\<rparr>))))"
      using large eqs m0 by (cases m) (auto simp: InverseModInt_def Let_def split: option.split)
    show ?thesis
      using mpz_invert_Some [of "mpz_v (FAKEMPZ_GMPorINTOBJ x)" "mpz_v (FAKEMPZ_GMPorINTOBJ m)" "mpz_v ?d"]
        mpz_invert_None [of "mpz_v (FAKEMPZ_GMPorINTOBJ x)" "mpz_v (FAKEMPZ_GMPorINTOBJ m)" "mpz_v ?d"]
        FAKEMPZ_in [OF x] FAKEMPZ_in [OF m] fits m0 FAKEMPZ_out
      by (auto simp: eq)
  qed
qed

lemma powm_correct:
  assumes x: "valid_int x" and e: "valid_int e" and m: "valid_int m" and "int_val m \<noteq> 0" "0 \<le> int_val e"
  defines "d \<equiv> NEW_FAKEMPZ (SIZE_INT_OR_INTOBJ m)"
  defines "z \<equiv> GMPorINTOBJ_FAKEMPZ (d\<lparr>mpz_v := mpz_powm G (mpz_v d) (mpz_v (FAKEMPZ_GMPorINTOBJ x))
    (mpz_v (FAKEMPZ_GMPorINTOBJ e)) (mpz_v (FAKEMPZ_GMPorINTOBJ m))\<rparr>)"
  shows "valid_int z \<and> int_val z = int_val x ^ nat (int_val e) mod \<bar>int_val m\<bar>"
proof -
  have "mpz_fits (mpz_v d) (int_val m)"
    unfolding d_def NEW_FAKEMPZ_fits by (rule size_int_bound [OF m])
  then show ?thesis
    using mpz_powm [of "mpz_v (FAKEMPZ_GMPorINTOBJ x)" "mpz_v (FAKEMPZ_GMPorINTOBJ e)"
        "mpz_v (FAKEMPZ_GMPorINTOBJ m)" "mpz_v d", THEN FAKEMPZ_out]
      FAKEMPZ_in [OF x] FAKEMPZ_in [OF e] FAKEMPZ_in [OF m] assms(4,5) size_int_pos [OF m]
    by (simp add: z_def d_def)
qed

lemma FuncPOWERMODINT_nonneg:
  assumes "valid_int x" "valid_int e" "valid_int m" "int_val m \<noteq> 0" "0 \<le> int_val e"
  shows "\<exists>z. FuncPOWERMODINT G x e m = Inr z \<and> valid_int z \<and>
    int_val z = int_val x ^ nat (int_val e) mod \<bar>int_val m\<bar>"
  using assms powm_correct [OF assms] IS_NEG_INT_iff [of e]
  by (auto simp: FuncPOWERMODINT_def INTOBJ_eq_iff Let_def)

lemma FuncPOWERMODINT_negative:
  assumes x: "valid_int x" and e: "valid_int e" and m: "valid_int m"
    and "int_val m \<noteq> 0" "int_val e < 0" and cop: "coprime (int_val x) (int_val m)"
  shows "\<exists>z. FuncPOWERMODINT G x e m = Inr z \<and> valid_int z \<and> 0 \<le> int_val z \<and> int_val z < \<bar>int_val m\<bar> \<and>
    (int_val x ^ nat (- int_val e) * int_val z) mod \<bar>int_val m\<bar> = 1 mod \<bar>int_val m\<bar>"
proof (cases "\<bar>int_val m\<bar> = 1")
  case True
  then have "m = INTOBJ 1 \<or> m = INTOBJ (-1)" using INTOBJ_eq_iff [OF m] by auto
  with True assms(4) show ?thesis by (auto simp: FuncPOWERMODINT_def INTOBJ_eq_iff [OF m])
next
  case False
  obtain u where u: "InverseModInt G x m = Inr (Some u)" "valid_int u"
      "(int_val x * int_val u) mod \<bar>int_val m\<bar> = 1 mod \<bar>int_val m\<bar>"
    using InverseModInt_correct [OF x m assms(4)] cop by auto
  let ?m = "\<bar>int_val m\<bar>" and ?n = "nat (- int_val e)"
  note ne = AInvInt_correct [OF e]
  have "m \<noteq> INTOBJ 0" "m \<noteq> INTOBJ 1" "m \<noteq> INTOBJ (-1)" using False assms(4) INTOBJ_eq_iff [OF m] by auto
  then obtain z where z: "FuncPOWERMODINT G x e m = Inr z" "valid_int z" "int_val z = int_val u ^ ?n mod ?m"
    using powm_correct [OF u(2) _ m assms(4), of "AInvInt e"] ne u(1) assms(5) IS_NEG_INT_iff [OF e]
    by (auto simp: FuncPOWERMODINT_def Let_def)
  have "(int_val x ^ ?n * int_val z) mod ?m = (int_val x * int_val u) ^ ?n mod ?m"
    by (simp add: z(3) mod_mult_right_eq power_mult_distrib)
  also have "\<dots> = 1 mod ?m" using u(3) by (metis power_mod power_one)
  finally show ?thesis using z assms(4) by auto
qed

lemma FuncPOWERMODINT_error:
  assumes "valid_int x" "valid_int e" "valid_int m" "int_val m = 0 \<or> int_val e < 0 \<and> \<not> coprime (int_val x) (int_val m)"
  shows "\<exists>msg. FuncPOWERMODINT G x e m = Inl msg"
proof (cases "int_val m = 0")
  case False
  then have "\<not> is_unit (int_val m)" using assms(4) by (metis coprime_1_right coprime_commute is_unit_left_imp_coprime)
  then have "m \<noteq> INTOBJ 1" "m \<noteq> INTOBJ (-1)" using INTOBJ_eq_iff [OF assms(3)] by auto
  then show ?thesis using False assms InverseModInt_correct [OF assms(1,3) False] IS_NEG_INT_iff [OF assms(2)]
    by (auto simp: FuncPOWERMODINT_def)
qed (use INTOBJ_eq_iff [OF assms(3)] in \<open>auto simp: FuncPOWERMODINT_def\<close>)

end

subsection \<open>Properties\<close>

text \<open>C18: \<open>GcdInt\<close> and \<open>LcmInt\<close> return the nonnegative greatest common divisor and least common
  multiple of their operands as well-formed objects, zero operands included.\<close>

theorem gcd_lcm_sound:
  assumes "gmp_contract G" "valid_int x" "valid_int y"
  shows "valid_int (GcdInt G x y) \<and> int_val (GcdInt G x y) = gcd (int_val x) (int_val y) \<and>
    (\<exists>l. LcmInt G x y = Inr l \<and> valid_int l \<and> int_val l = lcm (int_val x) (int_val y))"
  using gmp_contract.GcdInt_correct [OF assms] gmp_contract.LcmInt_correct [OF assms] by blast

theorem gcd_lcm_sound_witness:
  "int_val (GcdInt gmp_ref (INTOBJ (- 12)) (INTOBJ 18)) = 6 \<and>
   (\<exists>l. LcmInt gmp_ref (INTOBJ (- 12)) (INTOBJ 18) = Inr l \<and> int_val l = 36)"
proof -
  have "gcd (- 12) (18 :: int) = 6" "lcm (- 12) (18 :: int) = 36" by code_simp+
  then show ?thesis
    using gcd_lcm_sound [OF gmp_ref.gmp_contract_axioms, of "INTOBJ (- 12)" "INTOBJ 18"]
    by (auto simp: small_range_iff)
qed

text \<open>C12: \<open>InverseModInt\<close> returns the inverse in \<open>[0, |m|)\<close> exactly when base and modulus are
  coprime, and \<open>Fail\<close> otherwise; the extended Euclidean loop on C integers and the GMP path agree.\<close>

theorem inverse_mod_sound:
  assumes "gmp_contract G" "valid_int x" "valid_int m" "int_val m \<noteq> 0"
  shows "if coprime (int_val x) (int_val m)
    then \<exists>z. InverseModInt G x m = Inr (Some z) \<and> valid_int z \<and> 0 \<le> int_val z \<and> int_val z < \<bar>int_val m\<bar> \<and>
      (int_val x * int_val z) mod \<bar>int_val m\<bar> = 1 mod \<bar>int_val m\<bar>
    else InverseModInt G x m = Inr None"
  using gmp_contract.InverseModInt_correct [OF assms] .

theorem inverse_mod_sound_witness:
  "InverseModInt gmp_ref (INTOBJ 4) (INTOBJ 6) = Inr None"
proof -
  have "\<not> coprime (4 :: int) 6" by code_simp
  then show ?thesis
    using inverse_mod_sound [OF gmp_ref.gmp_contract_axioms, of "INTOBJ 4" "INTOBJ 6"]
    by (simp add: small_range_iff)
qed

text \<open>The cofactors of the extended Euclidean loop of \<open>InverseModInt\<close> stay within half the
  modulus, and the loop returns the gcd with a cofactor congruent to it: no C integer overflows
  and the cofactor always fits an immediate integer.\<close>

lemma euclid_loop_bounded:
  assumes "2 \<le> m" "euclid_loop m (x mod m) 0 1 = (g, gL)"
  shows "g = gcd m (x mod m) \<and> m dvd g - gL * x \<and> 2 * \<bar>gL\<bar> \<le> m"
  using euclid_loop_correct [OF euclid_start [OF assms(1)] assms(2)] .

lemma euclid_loop_bounded_witness:
  "\<exists>g gL. euclid_loop 26 (7 mod 26) 0 1 = (g, gL) \<and> g = 1 \<and> 26 dvd g - gL * 7 \<and> 2 * \<bar>gL\<bar> \<le> (26 :: int)"
proof -
  have "euclid_loop 26 (7 mod 26) 0 1 = (1, -11)" by (simp add: euclid_loop.simps signed_divide_int_def)
  with euclid_loop_bounded [of 26 7 1 "-11"] show ?thesis by simp
qed

text \<open>C39: \<open>FuncPOWERMODINT\<close> computes the power modulo \<open>m\<close> in \<open>[0, |m|)\<close>; for a negative exponent
  the result is the inverse of the power when the base is invertible and an error when it is
  not, and a zero modulus is an error.\<close>

theorem power_mod_sound:
  assumes "gmp_contract G" "valid_int x" "valid_int e" "valid_int m"
  shows "if int_val m = 0 \<or> int_val e < 0 \<and> \<not> coprime (int_val x) (int_val m)
    then \<exists>msg. FuncPOWERMODINT G x e m = Inl msg
    else \<exists>z. FuncPOWERMODINT G x e m = Inr z \<and> valid_int z \<and> 0 \<le> int_val z \<and> int_val z < \<bar>int_val m\<bar> \<and>
      (if 0 \<le> int_val e then int_val z = int_val x ^ nat (int_val e) mod \<bar>int_val m\<bar>
       else (int_val x ^ nat (- int_val e) * int_val z) mod \<bar>int_val m\<bar> = 1 mod \<bar>int_val m\<bar>)"
proof (cases "int_val m = 0 \<or> int_val e < 0 \<and> \<not> coprime (int_val x) (int_val m)")
  case True
  then show ?thesis using gmp_contract.FuncPOWERMODINT_error [OF assms True] by simp
next
  case False
  then show ?thesis
    using gmp_contract.FuncPOWERMODINT_nonneg [OF assms] gmp_contract.FuncPOWERMODINT_negative [OF assms]
    by (cases "0 \<le> int_val e") auto
qed

theorem power_mod_sound_witness:
  "\<exists>z. FuncPOWERMODINT gmp_ref (INTOBJ 3) (INTOBJ 4) (INTOBJ 7) = Inr z \<and> int_val z = 4"
  using power_mod_sound [OF gmp_ref.gmp_contract_axioms, of "INTOBJ 3" "INTOBJ 4" "INTOBJ 7"]
  by (auto simp: small_range_iff)

end
