(* ===== verification/IntString.thy ===== *)
theory IntString
  imports Integer
begin

text \<open>
  Strings and logarithms of integers, \<open>src/src/integer.c\<close>: \<open>StringIntBase\<close> with \<open>FuncHexStringInt\<close>
  and \<open>FuncSTRING_INT\<close>, the parsers \<open>IntHexString\<close> and \<open>IntStringInternal\<close>, and \<open>CLog2UInt\<close>,
  \<open>CLog2Int\<close>, \<open>FuncLog2Int\<close>. A GAP string is its list of characters, without the terminating zero
  byte. The lemmas give the value each parser computes, the round trips with the printers, and
  the meaning of the logarithms.
\<close>

subsection \<open>Printing\<close>

text \<open>
  \<open>NEW_STRING\<close> allocates \<open>mpz_sizeinbase + 2\<close> characters, GMP writes the digits and the terminating
  zero, and the length is set to that of the C string.
\<close>

definition StringIntBase :: "gmp \<Rightarrow> gapint \<Rightarrow> int \<Rightarrow> string" where
  "StringIntBase G op base =
     (if op = INTOBJ 0 then ''0''
      else mpz_get_str G (- base) (mpz_v (FAKEMPZ_GMPorINTOBJ op)))"

definition StringIntBase_buffer :: "gmp \<Rightarrow> gapint \<Rightarrow> int \<Rightarrow> nat" where
  "StringIntBase_buffer G op base =
     (if op = INTOBJ 0 then 1
      else mpz_sizeinbase G (mpz_v (FAKEMPZ_GMPorINTOBJ op)) base + 2)"

definition FuncHexStringInt :: "gmp \<Rightarrow> gapint \<Rightarrow> string" where
  "FuncHexStringInt G n = StringIntBase G n 16"

definition FuncSTRING_INT :: "gmp \<Rightarrow> gapint \<Rightarrow> string" where
  "FuncSTRING_INT G n = StringIntBase G n 10"

subsection \<open>Parsing hexadecimal strings\<close>

definition hex_char :: "char \<Rightarrow> UInt1" where
  "hex_char c =
     (let a = of_char c :: UInt1 in
      if a \<ge> of_char (CHR ''a'') then a - (of_char (CHR ''a'') - 10)
      else if a \<ge> of_char (CHR ''A'') then a - (of_char (CHR ''A'') - 10)
      else a - of_char (CHR ''0''))"

fun hexstr2int_loop :: "UInt \<Rightarrow> string \<Rightarrow> UInt result" where
  "hexstr2int_loop n [] = Inr n"
| "hexstr2int_loop n (c # p) =
     (let a = hex_char c in
      if a > 15 then Inl ''IntHexString: invalid character in hex-string''
      else hexstr2int_loop (push_bit 4 n + ucast a) p)"

definition hexstr2int :: "string \<Rightarrow> UInt result" where
  "hexstr2int p = hexstr2int_loop 0 p"

text \<open>The limbs are written from the top one down, so each new limb is put in front.\<close>

function hex_limbs_loop :: "UInt list \<Rightarrow> string \<Rightarrow> UInt list result" where
  "hex_limbs_loop limbs p =
     (if p = [] then Inr limbs
      else rbind (hexstr2int (take 16 p)) (\<lambda>n. hex_limbs_loop (n # limbs) (drop 16 p)))"
  by pat_completeness auto
termination
  by (relation "measure (\<lambda>(limbs, p). length p)") auto

declare hex_limbs_loop.simps [simp del]

definition IntHexString :: "string \<Rightarrow> gapint result" where
  "IntHexString str =
     (if str = [] then Inr (INTOBJ 0)
      else
        let neg = (hd str = CHR ''-'');
            p = dropWhile (\<lambda>c. c = CHR ''0'') (if neg then tl str else str);
            len = length p
        in if len * 4 \<le> NR_SMALL_INT_BITS then
             rbind (hexstr2int p) (\<lambda>n. Inr (INTOBJ (sint (if neg then - n else n))))
           else
             let nd = (len - 1) div 16; diff = len - nd * 16
             in rbind (hexstr2int (take diff p)) (\<lambda>n.
                rbind (hex_limbs_loop [n] (drop diff p)) (\<lambda>limbs.
                  Inr (GMP_NORMALIZE (if neg then T_INTNEG limbs else T_INTPOS limbs)))))"

subsection \<open>Parsing decimal strings\<close>

text \<open>
  The loop of \<open>IntStringInternal\<close>: \<open>None\<close> is the \<open>Fail\<close> return on a character that is no digit; the
  flag says whether the loop stopped at the end of the string (not at an embedded zero byte).
\<close>

fun int_string_loop :: "gmp \<Rightarrow> int \<Rightarrow> gapint \<Rightarrow> int \<Rightarrow> int \<Rightarrow> string \<Rightarrow> (gapint \<times> int \<times> int \<times> bool) option" where
  "int_string_loop G sign upp pow low [] = Some (upp, pow, low, True)"
| "int_string_loop G sign upp pow low (c # str) =
     (if c = CHR 0x00 then Some (upp, pow, low, False)
      else if of_char c < (48 :: int) \<or> of_char c > (57 :: int) then None
      else
        let low = 10 * low + of_char c - 48; pow = 10 * pow
        in if pow = 100000000
           then int_string_loop G sign (SumInt G (ProdInt G upp (INTOBJ pow)) (INTOBJ (sign * low))) 1 0 str
           else int_string_loop G sign upp pow low str)"

definition IntStringInternal :: "gmp \<Rightarrow> string \<Rightarrow> gapint option" where
  "IntStringInternal G str =
     (let (sign, digits) = (case str of c # cs \<Rightarrow> if c = CHR ''-'' then (-1, cs) else (1, str) | [] \<Rightarrow> (1, []))
      in case int_string_loop G sign (INTOBJ 0) 1 0 digits of
           None \<Rightarrow> None
         | Some (upp, pow, low, at_end) \<Rightarrow>
             if \<not> at_end then None
             else if upp = INTOBJ 0 then Some (INTOBJ (sign * low))
             else if pow = 1 then Some upp
             else Some (SumInt G (ProdInt G upp (INTOBJ pow)) (INTOBJ (sign * low))))"

subsection \<open>Logarithms\<close>

definition LogTable256 :: "int list" where
  "LogTable256 = [-1, 0] @ replicate 2 1 @ replicate 4 2 @ replicate 8 3 @ replicate 16 4 @
     replicate 32 5 @ replicate 64 6 @ replicate 128 7"

text \<open>The portable code and the code on the compiler's count of leading zero bits.\<close>

definition CLog2UInt :: "UInt \<Rightarrow> int" where
  "CLog2UInt a =
     (let (res, a) = (0, a);
          b = drop_bit 32 a; (res, a) = (if b \<noteq> 0 then (res + 32, b) else (res, a));
          b = drop_bit 16 a; (res, a) = (if b \<noteq> 0 then (res + 16, b) else (res, a));
          b = drop_bit 8 a; (res, a) = (if b \<noteq> 0 then (res + 8, b) else (res, a))
      in res + LogTable256 ! unat a)"

definition builtin_clzl :: "UInt \<Rightarrow> nat" where
  "builtin_clzl a = length (takeWhile (\<lambda>i. \<not> bit a i) (rev [0..<64]))"

definition CLog2UInt_builtin :: "UInt \<Rightarrow> int" where
  "CLog2UInt_builtin a = 64 - 1 - int (builtin_clzl a)"

definition CLog2Int :: "int \<Rightarrow> int" where
  "CLog2Int a = (if a = 0 then -1 else CLog2UInt (word_of_int (if a < 0 then - a else a)))"

definition FuncLog2Int :: "gapint \<Rightarrow> gapint" where
  "FuncLog2Int n =
     (case n of
        T_INT w \<Rightarrow> INTOBJ (CLog2Int (INT_INTOBJ w))
      | _ \<Rightarrow> let len = SIZE_INT n - 1; a = CLog2UInt (LIMBS n ! len)
             in INTOBJ (wrap_Int (int len * 64 + a)))"

subsection \<open>Hexadecimal strings\<close>

definition hex_ok :: "string \<Rightarrow> bool" where
  "hex_ok p \<longleftrightarrow> (\<forall>c \<in> set p. hex_char c \<le> 15)"

definition hex_value :: "string \<Rightarrow> nat" where
  "hex_value p = foldl (\<lambda>v c. 16 * v + unat (hex_char c)) 0 p"

lemma foldl_radix: "foldl (\<lambda>v c. b * v + f c) a p = a * b ^ length p + foldl (\<lambda>v c. b * v + f c) 0 p"
  for a b :: "'a :: comm_semiring_1"
proof (induction p arbitrary: a)
  case (Cons c p)
  from Cons [of "b * a + f c"] Cons [of "f c"] show ?case by (simp add: algebra_simps)
qed simp

lemma hex_value_append: "hex_value (p @ q) = hex_value p * 16 ^ length q + hex_value q"
  unfolding hex_value_def foldl_append by (rule foldl_radix)

lemma hex_value_Cons: "hex_value (c # p) = unat (hex_char c) * 16 ^ length p + hex_value p"
  using hex_value_append [of "[c]" p] by (simp add: hex_value_def)

lemma hex_value_Nil [simp]: "hex_value [] = 0"
  by (simp add: hex_value_def)

lemma hex_ok_simps [simp]:
  "hex_ok []" "hex_ok (c # p) \<longleftrightarrow> hex_char c \<le> 15 \<and> hex_ok p" "hex_ok (p @ q) \<longleftrightarrow> hex_ok p \<and> hex_ok q"
  by (auto simp: hex_ok_def)

lemma hex_ok_take_drop: "hex_ok p \<longleftrightarrow> hex_ok (take n p) \<and> hex_ok (drop n p)"
  by (metis append_take_drop_id hex_ok_simps(3))

lemma hex_value_take_drop: "hex_value p = hex_value (take n p) * 16 ^ (length p - n) + hex_value (drop n p)"
  using hex_value_append [of "take n p" "drop n p"] by simp

lemma hex_char_ok: "hex_char c \<le> 15 \<longleftrightarrow> unat (hex_char c) < 16"
  by (simp add: word_le_nat_alt) linarith

lemma hex_value_bound: "hex_ok p \<Longrightarrow> hex_value p < 16 ^ length p"
proof (induction p)
  case (Cons c p)
  then have "unat (hex_char c) * 16 ^ length p \<le> 15 * 16 ^ length p" by (simp add: hex_char_ok)
  moreover have "hex_value p < 16 ^ length p" "(16::nat) ^ length (c # p) = 16 * 16 ^ length p"
    using Cons by simp_all
  ultimately show ?case unfolding hex_value_Cons by linarith
qed simp

lemma hexstr2int_loop_ok:
  "hex_ok p \<Longrightarrow> hexstr2int_loop n p = Inr (n * word_of_nat (16 ^ length p) + word_of_nat (hex_value p))"
proof (induction p arbitrary: n)
  case (Cons c p)
  have "\<not> 15 < hex_char c" using Cons.prems by (simp add: not_less)
  moreover have "push_bit 4 n = n * 16" by (simp add: push_bit_eq_mult)
  moreover have "ucast (hex_char c) = (word_of_nat (unat (hex_char c)) :: UInt)"
    by simp
  ultimately show ?case using Cons by (simp add: hex_value_Cons algebra_simps)
qed simp

lemma hexstr2int_loop_error: "\<not> hex_ok p \<Longrightarrow> \<exists>e. hexstr2int_loop n p = Inl e"
  by (induction p arbitrary: n) (auto simp: not_le Let_def)

lemma hexstr2int_ok:
  assumes "hex_ok p" "length p \<le> 16"
  shows "\<exists>w. hexstr2int p = Inr w \<and> unat w = hex_value p"
proof -
  have "(16::nat) ^ length p \<le> 16 ^ 16" using assms(2) by (intro power_increasing) auto
  then have "hex_value p < 2 ^ 64" using hex_value_bound [OF assms(1)] by simp
  then show ?thesis using hexstr2int_loop_ok [OF assms(1), of 0]
    by (simp add: hexstr2int_def unat_of_nat)
qed

lemma hexstr2int_error: "\<not> hex_ok p \<Longrightarrow> \<exists>e. hexstr2int p = Inl e"
  using hexstr2int_loop_error by (simp add: hexstr2int_def)

lemma hex_limbs_loop_ok:
  assumes "hex_ok p" "length p = 16 * k"
  shows "\<exists>d. hex_limbs_loop limbs p = Inr d \<and> length d = length limbs + k \<and>
    limbs_val d = limbs_val limbs * 16 ^ length p + hex_value p"
  using assms
proof (induction limbs p arbitrary: k rule: hex_limbs_loop.induct)
  case (1 limbs p)
  show ?case
  proof (cases "p = []")
    case False
    then obtain j where j: "k = Suc j" using "1.prems" by (cases k) auto
    have ok: "hex_ok (take 16 p)" "hex_ok (drop 16 p)" using "1.prems" hex_ok_take_drop by blast+
    obtain w where w: "hexstr2int (take 16 p) = Inr w" "unat w = hex_value (take 16 p)"
      using hexstr2int_ok [OF ok(1)] by auto
    have len: "length (drop 16 p) = 16 * j" using "1.prems" j by simp
    obtain d where d: "hex_limbs_loop (w # limbs) (drop 16 p) = Inr d" "length d = length (w # limbs) + j"
        "limbs_val d = limbs_val (w # limbs) * 16 ^ length (drop 16 p) + hex_value (drop 16 p)"
      using "1.IH" [OF False w(1) ok(2) len] by blast
    have "(16::nat) ^ length p = 16 ^ 16 * 16 ^ (16 * j)"
      using "1.prems" j by (simp only: power_add [symmetric]) simp
    then have "limbs_val (w # limbs) * 16 ^ length (drop 16 p) =
        limbs_val limbs * 16 ^ length p + hex_value (take 16 p) * 16 ^ (16 * j)"
      by (simp only: len limbs_val.simps w(2)) (simp add: algebra_simps)
    then have "limbs_val d = limbs_val limbs * 16 ^ length p + hex_value p"
      using d(3) hex_value_take_drop [of p 16] len by simp
    then show ?thesis using False w d j by (subst hex_limbs_loop.simps) simp
  qed (use "1.prems" in \<open>simp add: hex_limbs_loop.simps\<close>)
qed

lemma hex_limbs_loop_error: "\<not> hex_ok p \<Longrightarrow> \<exists>e. hex_limbs_loop limbs p = Inl e"
proof (induction limbs p rule: hex_limbs_loop.induct)
  case (1 limbs p)
  then have ne: "p \<noteq> []" by auto
  show ?case
  proof (cases "hexstr2int (take 16 p)")
    case (Inl e)
    then show ?thesis using ne by (subst hex_limbs_loop.simps) simp
  next
    case (Inr w)
    then have "hex_ok (take 16 p)" using hexstr2int_error by fastforce
    then have "\<not> hex_ok (drop 16 p)" using "1.prems" hex_ok_take_drop by blast
    then show ?thesis using "1.IH" [OF ne Inr] ne Inr by (subst hex_limbs_loop.simps) simp
  qed
qed

text \<open>What follows the sign and the leading zeros of a hexadecimal string.\<close>

definition hex_neg :: "string \<Rightarrow> bool" where
  "hex_neg str \<longleftrightarrow> str \<noteq> [] \<and> hd str = CHR ''-''"

definition hex_digits :: "string \<Rightarrow> string" where
  "hex_digits str = (if hex_neg str then tl str else str)"

lemma hex_char_zero [simp]: "hex_char (CHR ''0'') = 0"
  by (simp add: hex_char_def)

lemma skip_zeros: "hex_value (dropWhile (\<lambda>c. c = CHR ''0'') p) = hex_value p"
    "hex_ok (dropWhile (\<lambda>c. c = CHR ''0'') p) \<longleftrightarrow> hex_ok p"
  by (induction p) (auto simp: hex_value_Cons)

lemma IntHexString_unfold:
  assumes "str \<noteq> []" and p: "p = dropWhile (\<lambda>c. c = CHR ''0'') (hex_digits str)"
  shows "IntHexString str = (if length p * 4 \<le> NR_SMALL_INT_BITS then
      rbind (hexstr2int p) (\<lambda>n. Inr (INTOBJ (sint (if hex_neg str then - n else n))))
      else let nd = (length p - 1) div 16; diff = length p - nd * 16
        in rbind (hexstr2int (take diff p)) (\<lambda>n. rbind (hex_limbs_loop [n] (drop diff p)) (\<lambda>limbs.
          Inr (GMP_NORMALIZE (if hex_neg str then T_INTNEG limbs else T_INTPOS limbs)))))"
  using assms(1) by (simp add: IntHexString_def p hex_digits_def hex_neg_def Let_def)

lemma IntHexString_ok:
  assumes ok: "hex_ok (hex_digits str)"
  shows "\<exists>z. IntHexString str = Inr z \<and> valid_int z \<and>
    int_val z = (if hex_neg str then -1 else 1) * int (hex_value (hex_digits str))"
proof (cases "str = []")
  case True
  then show ?thesis by (simp add: IntHexString_def hex_neg_def hex_digits_def)
next
  case False
  define p where "p = dropWhile (\<lambda>c. c = CHR ''0'') (hex_digits str)"
  have p: "hex_ok p" "hex_value p = hex_value (hex_digits str)" using ok by (simp_all add: p_def skip_zeros)
  note unfold = IntHexString_unfold [OF False p_def]
  show ?thesis
  proof (cases "length p * 4 \<le> NR_SMALL_INT_BITS")
    case True
    then have len: "length p \<le> 15" by (simp add: NR_SMALL_INT_BITS_def)
    then obtain w where w: "hexstr2int p = Inr w" "unat w = hex_value p" using hexstr2int_ok [OF p(1)] by auto
    have "(16::nat) ^ length p \<le> 16 ^ 15" using len by (intro power_increasing) auto
    then have "unat w < 2 ^ 60" using hex_value_bound [OF p(1)] w(2) by simp
    then have "uint w < 2 ^ 60" by (metis of_nat_less_iff of_nat_numeral of_nat_power uint_nat)
    then have "sint w = uint w" "sint (- w) = - uint w" "uint w \<in> small_range" "- uint w \<in> small_range"
      using sint_small [of w] sint_uminus_small [of w] small_nonneg [of "uint w"] small_nonpos [of "- uint w"]
      by auto
    moreover have "uint w = int (hex_value (hex_digits str))" using w(2) p(2) by (simp add: uint_nat)
    ultimately show ?thesis using True w(1) by (auto simp: unfold)
  next
    case large: False
    define nd where "nd = (length p - 1) div 16"
    define diff where "diff = length p - nd * 16"
    have len: "length p \<ge> 16" using large by (simp add: NR_SMALL_INT_BITS_def)
    then have nd: "nd * 16 \<le> length p - 1" "length p - 1 < nd * 16 + 16"
      using div_times_less_eq_dividend [of "length p - 1" 16] dividend_less_div_times [of 16 "length p - 1"]
      by (simp_all add: nd_def)
    then have diff: "diff \<le> 16" "diff \<le> length p" "length (drop diff p) = 16 * nd"
      using len by (auto simp: diff_def)
    have ok: "hex_ok (take diff p)" "hex_ok (drop diff p)" using p hex_ok_take_drop by blast+
    obtain w where w: "hexstr2int (take diff p) = Inr w" "unat w = hex_value (take diff p)"
      using hexstr2int_ok [OF ok(1)] diff by auto
    obtain d where d: "hex_limbs_loop [w] (drop diff p) = Inr d" "length d = length [w] + nd"
        "limbs_val d = limbs_val [w] * 16 ^ length (drop diff p) + hex_value (drop diff p)"
      using hex_limbs_loop_ok [OF ok(2) diff(3)] by blast
    have "limbs_val d = hex_value p" "d \<noteq> []"
      using d hex_value_take_drop [of p diff] w(2) by auto
    then show ?thesis
      using w(1) d(1) large GMP_NORMALIZE_POS [of d] GMP_NORMALIZE_NEG [of d] p(2)
      unfolding unfold Let_def nd_def [symmetric] diff_def [symmetric]
      by (cases "hex_neg str") (simp_all del: GMP_NORMALIZE.simps)
  qed
qed

lemma IntHexString_error:
  assumes bad: "\<not> hex_ok (hex_digits str)"
  shows "\<exists>e. IntHexString str = Inl e"
proof -
  define p where "p = dropWhile (\<lambda>c. c = CHR ''0'') (hex_digits str)"
  have p: "\<not> hex_ok p" using bad by (simp add: p_def skip_zeros)
  have ne: "str \<noteq> []" using bad by (auto simp: hex_digits_def hex_neg_def)
  define diff where "diff = length p - (length p - 1) div 16 * 16"
  have "\<exists>e. rbind (hexstr2int (take diff p)) (\<lambda>n. rbind (hex_limbs_loop [n] (drop diff p)) k) = Inl e" for k
    using p hex_ok_take_drop [of p diff] hexstr2int_error [of "take diff p"]
      hex_limbs_loop_error [of "drop diff p"]
    by (cases "hexstr2int (take diff p)") (auto, metis rbind_simps(1))
  moreover have "\<exists>e. hexstr2int p = Inl e" using hexstr2int_error [OF p] .
  ultimately show ?thesis
    unfolding IntHexString_unfold [OF ne p_def] Let_def diff_def [symmetric]
    by (cases "length p * 4 \<le> NR_SMALL_INT_BITS") (auto simp del: GMP_NORMALIZE.simps)
qed

subsection \<open>Decimal strings\<close>

definition dec_digit :: "char \<Rightarrow> bool" where
  "dec_digit c \<longleftrightarrow> 48 \<le> (of_char c :: int) \<and> of_char c \<le> (57 :: int)"

definition dec_value :: "string \<Rightarrow> int" where
  "dec_value p = foldl (\<lambda>v c. 10 * v + (of_char c - 48)) 0 p"

lemma dec_value_Cons: "dec_value (c # p) = (of_char c - 48) * 10 ^ length p + dec_value p"
  unfolding dec_value_def foldl_Cons by (subst foldl_radix) simp

lemma dec_value_Nil [simp]: "dec_value [] = 0"
  by (simp add: dec_value_def)

lemma dec_value_append: "dec_value (p @ q) = dec_value p * 10 ^ length q + dec_value q"
  unfolding dec_value_def foldl_append by (rule foldl_radix)

lemma power_ten_eight: "k < 8 \<Longrightarrow> (10::int) * 10 ^ k = 100000000 \<longleftrightarrow> k = 7"
proof -
  have "(10::int) * 10 ^ k = 100000000 \<longleftrightarrow> (10::int) ^ Suc k = 10 ^ 8" by simp
  also have "\<dots> \<longleftrightarrow> Suc k = 8" by (subst power_inject_exp) auto
  finally show ?thesis by simp
qed

lemma group_small:
  assumes "k \<le> 8" "0 \<le> low" "low < 10 ^ k" "s = 1 \<or> s = (-1 :: int)"
  shows "s * low \<in> small_range" "(10 :: int) ^ k \<in> small_range"
proof -
  have "(10 :: int) ^ k \<le> 10 ^ 8" using assms(1) by (intro power_increasing) auto
  then show "s * low \<in> small_range" "(10 :: int) ^ k \<in> small_range"
    using assms by (auto simp: small_range_iff)
qed

context gmp_contract
begin

text \<open>Adding a group of digits to the upper part.\<close>

lemma group_step:
  assumes "valid_int upp" "k \<le> 8" "0 \<le> low" "low < 10 ^ k" "s = 1 \<or> s = -1"
  shows "valid_int (SumInt G (ProdInt G upp (INTOBJ (10 ^ k))) (INTOBJ (s * low))) \<and>
    int_val (SumInt G (ProdInt G upp (INTOBJ (10 ^ k))) (INTOBJ (s * low))) = int_val upp * 10 ^ k + s * low"
  using group_small [OF assms(2-5)] ProdInt_correct [OF assms(1), of "INTOBJ (10 ^ k)"]
    SumInt_correct [of "ProdInt G upp (INTOBJ (10 ^ k))" "INTOBJ (s * low)"]
  by simp

lemma int_string_loop_ok:
  assumes "list_all dec_digit str" "valid_int upp" "k < 8" "0 \<le> low" "low < 10 ^ k" "s = 1 \<or> s = -1"
  shows "\<exists>upp' k' low'. int_string_loop G s upp (10 ^ k) low str = Some (upp', 10 ^ k', low', True) \<and>
    valid_int upp' \<and> k' < 8 \<and> 0 \<le> low' \<and> low' < 10 ^ k' \<and>
    int_val upp' * 10 ^ k' + s * low' = (int_val upp * 10 ^ k + s * low) * 10 ^ length str + s * dec_value str"
  using assms
proof (induction str arbitrary: upp k low)
  case (Cons c str)
  define low1 where "low1 = 10 * low + of_char c - 48"
  have c: "48 \<le> (of_char c :: int)" "of_char c \<le> (57 :: int)" "list_all dec_digit str"
    using Cons.prems dec_digit_def [of c] by auto
  have low1: "0 \<le> low1" "low1 < 10 ^ Suc k" using c Cons.prems by (auto simp: low1_def)
  have not0: "c \<noteq> CHR 0x00" using c by auto
  have val: "10 ^ length str * (u * 10 ^ Suc k + s * low1) + s * dec_value str =
      10 ^ length (c # str) * (u * 10 ^ k + s * low) + s * dec_value (c # str)" for u
    by (simp add: low1_def dec_value_Cons algebra_simps)
  show ?case
  proof (cases "k = 7")
    case True
    let ?u = "SumInt G (ProdInt G upp (INTOBJ (10 ^ 8))) (INTOBJ (s * low1))"
    have u: "valid_int ?u" "int_val ?u = int_val upp * 10 ^ Suc k + s * low1"
      using group_step [of upp 8 low1 s] low1 Cons.prems True by simp_all
    have "int_string_loop G s upp (10 ^ k) low (c # str) = int_string_loop G s ?u (10 ^ 0) 0 str"
      using not0 c True by (simp add: low1_def)
    moreover note Cons.IH [OF c(3) u(1), of 0 0]
    ultimately show ?thesis using Cons.prems val [of "int_val upp"] u(2) by (simp add: mult.commute)
  next
    case False
    then have "10 * 10 ^ k \<noteq> (100000000 :: int)" using power_ten_eight Cons.prems by blast
    then have "int_string_loop G s upp (10 ^ k) low (c # str) = int_string_loop G s upp (10 ^ Suc k) low1 str"
      using not0 c by (simp add: low1_def)
    moreover note Cons.IH [OF c(3), of upp "Suc k" low1]
    ultimately show ?thesis using Cons.prems val [of "int_val upp"] low1 False by (simp add: mult.commute)
  qed
qed auto

lemma int_string_loop_bad:
  "\<not> list_all dec_digit str \<Longrightarrow>
    case int_string_loop G s upp pow low str of None \<Rightarrow> True | Some (u, p, l, e) \<Rightarrow> \<not> e"
proof (induction str arbitrary: upp pow low)
  case (Cons c str)
  show ?case
  proof (cases "c = CHR 0x00 \<or> of_char c < (48 :: int) \<or> of_char c > (57 :: int)")
    case False
    then have "\<not> list_all dec_digit str" using Cons.prems dec_digit_def [of c] by auto
    with Cons.IH False show ?thesis by (simp add: Let_def)
  qed auto
qed simp

end

definition dec_sign :: "string \<Rightarrow> int" where
  "dec_sign str = (if str \<noteq> [] \<and> hd str = CHR ''-'' then -1 else 1)"

definition dec_digits :: "string \<Rightarrow> string" where
  "dec_digits str = (if str \<noteq> [] \<and> hd str = CHR ''-'' then tl str else str)"

lemma dec_split: "(case str of c # cs \<Rightarrow> if c = CHR ''-'' then (-1, cs) else (1, str) | [] \<Rightarrow> (1, [])) =
    (dec_sign str, dec_digits str)"
  by (cases str) (auto simp: dec_sign_def dec_digits_def)

context gmp_contract
begin

lemma IntStringInternal_ok:
  assumes "list_all dec_digit (dec_digits str)"
  shows "\<exists>z. IntStringInternal G str = Some z \<and> valid_int z \<and> int_val z = dec_sign str * dec_value (dec_digits str)"
proof -
  have s: "dec_sign str = 1 \<or> dec_sign str = -1" by (auto simp: dec_sign_def)
  obtain upp k low where r: "int_string_loop G (dec_sign str) (INTOBJ 0) 1 0 (dec_digits str) = Some (upp, 10 ^ k, low, True)"
      "valid_int upp" "k < 8" "0 \<le> low" "low < 10 ^ k"
      "int_val upp * 10 ^ k + dec_sign str * low = dec_sign str * dec_value (dec_digits str)"
    using int_string_loop_ok [OF assms, of "INTOBJ 0" 0 0 "dec_sign str"] s by auto
  have "dec_sign str * low \<in> small_range" using group_small [of k low] r s by auto
  moreover have "k = 0 \<Longrightarrow> low = 0" using r by simp
  moreover have "IntStringInternal G str = Some (if upp = INTOBJ 0 then INTOBJ (dec_sign str * low)
      else if k = 0 then upp else SumInt G (ProdInt G upp (INTOBJ (10 ^ k))) (INTOBJ (dec_sign str * low)))"
    using r(1) power_inject_exp [of "10 :: int" k 0] by (simp add: IntStringInternal_def dec_split)
  ultimately show ?thesis
    using group_step [OF r(2) _ r(4,5) s] r INTOBJ_eq_iff [OF r(2), of 0] by (cases "k = 0") auto
qed

lemma IntStringInternal_bad:
  assumes "\<not> list_all dec_digit (dec_digits str)"
  shows "IntStringInternal G str = None"
  using int_string_loop_bad [OF assms, of "dec_sign str" "INTOBJ 0" 1 0]
  by (auto simp: IntStringInternal_def dec_split split: option.splits)

end

subsection \<open>Round trips\<close>

lemma digits_str_step:
  "2 \<le> b \<Longrightarrow> b \<le> k \<Longrightarrow> digits_str b k = digits_str b (k div b) @ [digit_char (k mod b)]"
  by (subst digits_str.simps) simp

lemma digits_str_last: "k < b \<Longrightarrow> digits_str b k = [digit_char k]"
  by (subst digits_str.simps) simp

lemma digits_str_induct [consumes 1, case_names digit step]:
  fixes k :: nat
  assumes "2 \<le> b" "\<And>k. k < b \<Longrightarrow> P k" "\<And>k. b \<le> k \<Longrightarrow> P (k div b) \<Longrightarrow> P k"
  shows "P k"
proof (induction k rule: less_induct)
  case (less k)
  show ?case
  proof (cases "k < b")
    case False
    then have "k div b < k" using assms(1) by (intro div_less_dividend) auto
    with less assms(3) [of k] False show ?thesis by simp
  qed (rule assms(2))
qed

lemma below_16: "d < 16 \<longleftrightarrow> d = 0 \<or> d = 1 \<or> d = 2 \<or> d = 3 \<or> d = 4 \<or> d = 5 \<or> d = 6 \<or> d = 7 \<or>
    d = 8 \<or> d = 9 \<or> d = 10 \<or> d = 11 \<or> d = 12 \<or> d = 13 \<or> d = 14 \<or> d = (15 :: nat)"
  by presburger

lemma hex_char_digit_char: "d < 16 \<Longrightarrow> unat (hex_char (digit_char d)) = d"
  unfolding below_16 by (elim disjE; hypsubst; code_simp)

lemma digit_char_not_minus: "d < 16 \<Longrightarrow> digit_char d \<noteq> CHR ''-''"
  unfolding below_16 by (elim disjE; hypsubst; code_simp)

lemma digits_str_hex: "hex_ok (digits_str 16 k) \<and> hex_value (digits_str 16 k) = k"
proof -
  have "2 \<le> (16 :: nat)" by simp
  then show ?thesis
  proof (induction k rule: digits_str_induct)
    case (digit k)
    then show ?case by (simp add: digits_str_last hex_char_ok hex_char_digit_char hex_value_Cons)
  next
    case (step k)
    then show ?case
      by (simp add: digits_str_step hex_char_ok hex_char_digit_char hex_value_append hex_value_Cons)
  qed
qed

lemma of_char_digit_char: "d < 10 \<Longrightarrow> of_char (digit_char d) = (48 + int d)"
proof -
  assume "d < 10"
  moreover from this have "d < 16" by simp
  ultimately show ?thesis unfolding below_16 by (elim disjE; hypsubst; (code_simp | simp))
qed

lemma digits_str_dec: "list_all dec_digit (digits_str 10 k) \<and> dec_value (digits_str 10 k) = int k"
proof -
  have "2 \<le> (10 :: nat)" by simp
  then show ?thesis
  proof (induction k rule: digits_str_induct)
    case (digit k)
    then show ?case by (simp add: digits_str_last dec_digit_def of_char_digit_char dec_value_Cons)
  next
    case (step k)
    then show ?case
      by (simp add: digits_str_step dec_digit_def of_char_digit_char dec_value_append dec_value_Cons zdiv_int zmod_int)
  qed
qed

lemma digits_str_head:
  assumes "2 \<le> b" "b \<le> 16"
  shows "digits_str b k \<noteq> [] \<and> hd (digits_str b k) \<noteq> CHR ''-''"
  using assms(1)
  by (induction k rule: digits_str_induct)
    (use assms in \<open>auto simp: digits_str_last digits_str_step digit_char_not_minus\<close>)

lemma digits_str_zero: "2 \<le> b \<Longrightarrow> digits_str b 0 = ''0''"
proof -
  have "digit_char 0 = CHR ''0''" by code_simp
  then show "2 \<le> b \<Longrightarrow> digits_str b 0 = ''0''" by (simp add: digits_str_last)
qed

context gmp_contract
begin

lemma StringIntBase_eq:
  assumes "valid_int x" "2 \<le> b" "b \<le> 36"
  shows "StringIntBase G x b = (if int_val x < 0 then ''-'' else []) @ digits_str (nat b) (nat \<bar>int_val x\<bar>)"
  using assms FAKEMPZ_in [of x] mpz_get_str [of "mpz_v (FAKEMPZ_GMPorINTOBJ x)" b] INTOBJ_eq_iff [of x 0]
  by (auto simp: StringIntBase_def digits_str_zero)

text \<open>The buffer has room for the sign, the digits and the terminating zero.\<close>

lemma StringIntBase_fits:
  assumes "valid_int x" "2 \<le> b" "b \<le> 36"
  shows "length (StringIntBase G x b) + 1 \<le> StringIntBase_buffer G x b + 1"
    "int_val x \<noteq> 0 \<Longrightarrow> length (StringIntBase G x b) + 1 \<le> StringIntBase_buffer G x b"
  using StringIntBase_eq [OF assms] FAKEMPZ_in [of x] mpz_sizeinbase [of "mpz_v (FAKEMPZ_GMPorINTOBJ x)" b]
    assms INTOBJ_eq_iff [of x 0]
  by (auto simp: StringIntBase_buffer_def StringIntBase_def digits_str_zero)

lemma hex_round_trip:
  assumes x: "valid_int x"
  shows "IntHexString (FuncHexStringInt G x) = Inr x"
proof -
  let ?d = "digits_str 16 (nat \<bar>int_val x\<bar>)"
  have str: "FuncHexStringInt G x = (if int_val x < 0 then ''-'' else []) @ ?d"
    using StringIntBase_eq [OF x, of 16] by (simp add: FuncHexStringInt_def)
  have neg: "hex_neg (FuncHexStringInt G x) \<longleftrightarrow> int_val x < 0" "hex_digits (FuncHexStringInt G x) = ?d"
    using digits_str_head [of 16] by (auto simp: str hex_neg_def hex_digits_def)
  obtain z where z: "IntHexString (FuncHexStringInt G x) = Inr z" "valid_int z"
      "int_val z = (if int_val x < 0 then -1 else 1) * int (nat \<bar>int_val x\<bar>)"
    using IntHexString_ok [of "FuncHexStringInt G x"] digits_str_hex neg by auto
  then have "z = x" using int_val_inject [OF z(2) x] by (auto split: if_splits)
  then show ?thesis using z(1) by simp
qed

lemma decimal_round_trip:
  assumes x: "valid_int x"
  shows "IntStringInternal G (FuncSTRING_INT G x) = Some x"
proof -
  let ?d = "digits_str 10 (nat \<bar>int_val x\<bar>)"
  have str: "FuncSTRING_INT G x = (if int_val x < 0 then ''-'' else []) @ ?d"
    using StringIntBase_eq [OF x, of 10] by (simp add: FuncSTRING_INT_def)
  have d: "dec_digits (FuncSTRING_INT G x) = ?d"
      "dec_sign (FuncSTRING_INT G x) = (if int_val x < 0 then -1 else 1)"
    using digits_str_head [of 10] by (auto simp: str dec_sign_def dec_digits_def)
  obtain z where z: "IntStringInternal G (FuncSTRING_INT G x) = Some z" "valid_int z"
      "int_val z = (if int_val x < 0 then -1 else 1) * int (nat \<bar>int_val x\<bar>)"
    using IntStringInternal_ok [of "FuncSTRING_INT G x"] digits_str_dec d by auto
  then have "z = x" using int_val_inject [OF z(2) x] by (auto split: if_splits)
  then show ?thesis using z(1) by simp
qed

end

subsection \<open>Meaning of the logarithms\<close>

definition is_log2 :: "nat \<Rightarrow> int \<Rightarrow> bool" where
  "is_log2 n k \<longleftrightarrow> 0 \<le> k \<and> 2 ^ nat k \<le> n \<and> n < 2 ^ (nat k + 1)"

lemma is_log2_unique:
  assumes "is_log2 n j" "is_log2 n k"
  shows "j = k"
proof -
  have "(2::nat) ^ nat j < 2 ^ (nat k + 1)" "(2::nat) ^ nat k < 2 ^ (nat j + 1)"
    using assms by (auto simp: is_log2_def)
  then have "nat j < nat k + 1" "nat k < nat j + 1" by (simp_all only: power_strict_increasing_iff)
  then show ?thesis using assms by (auto simp: is_log2_def)
qed

lemma LogTable256_ok:
  assumes "0 < n" "n < 256"
  shows "is_log2 n (LogTable256 ! n)"
proof -
  have "list_all (\<lambda>n. is_log2 n (LogTable256 ! n)) [1..<256]" by code_simp
  then show ?thesis using assms by (simp add: list_all_iff)
qed

lemma is_log2_shift:
  assumes "is_log2 (n div 2 ^ s) k"
  shows "is_log2 n (k + int s)"
proof -
  have k: "0 \<le> k" "2 ^ nat k \<le> n div 2 ^ s" "n div 2 ^ s < 2 ^ (nat k + 1)" "nat (k + int s) = nat k + s"
    using assms by (auto simp: is_log2_def nat_add_distrib)
  have "2 ^ nat k * 2 ^ s \<le> n" "n < 2 ^ (nat k + 1) * 2 ^ s"
    using k(2,3) by (simp_all add: less_eq_div_iff_mult_less_eq div_less_iff_less_mult)
  then show ?thesis using k(1,4) by (simp add: is_log2_def power_add ac_simps)
qed

lemma unat_drop_bit_UInt: "unat (drop_bit s a :: UInt) = unat a div 2 ^ s"
proof -
  have "take_bit 64 (unat a) = unat a" using unat_UInt_lt [of a] by (simp add: take_bit_nat_eq_self_iff)
  then have "unat (drop_bit s a) = drop_bit s (unat a)" by (simp add: unsigned_drop_bit_eq)
  then show ?thesis by (simp only: drop_bit_eq_div)
qed

lemma CLog2UInt_correct:
  assumes "a \<noteq> 0"
  shows "is_log2 (unat a) (CLog2UInt a)"
proof -
  define step where "step s = (\<lambda>(r :: int, x :: UInt). if drop_bit s x \<noteq> 0 then (r + int s, drop_bit s x) else (r, x))" for s
  have unfold: "CLog2UInt a = (case step 8 (step 16 (step 32 (0, a))) of (r, x) \<Rightarrow> r + LogTable256 ! unat x)"
    by (simp add: CLog2UInt_def step_def Let_def split: prod.splits)
  have step_ok: "(is_log2 (unat x') (k - r') \<longrightarrow> is_log2 (unat x) (k - r)) \<and> x' \<noteq> 0 \<and>
      (unat x < 2 ^ (2 * s) \<longrightarrow> unat x' < 2 ^ s)"
    if "step s (r, x) = (r', x')" "x \<noteq> 0" for s r x r' x' k
  proof (cases "drop_bit s x \<noteq> 0")
    case True
    then show ?thesis using that is_log2_shift [of "unat x" s "k - r - int s"]
      by (auto simp: step_def unat_drop_bit_UInt algebra_simps div_less_iff_less_mult mult_2_right power_add)
  next
    case False
    then have "unat x div 2 ^ s = 0" using unat_drop_bit_UInt [of s x] by simp
    then have "unat x < 2 ^ s" by (simp add: div_eq_0_iff)
    with False that show ?thesis by (auto simp: step_def)
  qed
  obtain r1 x1 r2 x2 r3 x3 where st: "step 32 (0, a) = (r1, x1)" "step 16 (r1, x1) = (r2, x2)" "step 8 (r2, x2) = (r3, x3)"
    by (metis surj_pair)
  have "unat a < 2 ^ (2 * 32)" using unat_UInt_lt [of a] by simp
  then have x3: "x3 \<noteq> 0" "unat x3 < 2 ^ 8"
    using step_ok [OF st(1) assms] step_ok [OF st(2)] step_ok [OF st(3)] by auto
  then have "is_log2 (unat x3) (LogTable256 ! unat x3)" by (intro LogTable256_ok) (auto simp: unat_gt_0)
  then have "is_log2 (unat a) (r3 + LogTable256 ! unat x3)"
    using step_ok [OF st(1) assms, of "r3 + LogTable256 ! unat x3"] step_ok [OF st(2), of "r3 + LogTable256 ! unat x3"]
      step_ok [OF st(3), of "r3 + LogTable256 ! unat x3"] by simp
  then show ?thesis by (simp add: unfold st)
qed

lemma CLog2UInt_builtin_correct:
  assumes "a \<noteq> 0"
  shows "is_log2 (unat a) (CLog2UInt_builtin a)"
proof -
  let ?P = "\<lambda>i. \<not> bit a i" and ?xs = "rev [0..<64]"
  define n where "n = builtin_clzl a"
  obtain i where i: "bit a i" "i < 64"
    using bit_word_eqI [of a 0] assms by auto
  then have "63 - i < length ?xs \<and> \<not> ?P (?xs ! (63 - i))" by (simp add: rev_nth)
  have "takeWhile ?P ?xs \<noteq> ?xs"
  proof
    assume "takeWhile ?P ?xs = ?xs"
    then have "\<forall>x \<in> set ?xs. ?P x" using takeWhile_eq_all_conv [of ?P ?xs] by blast
    with i show False by simp
  qed
  then have n: "n < 64" unfolding n_def builtin_clzl_def
    by (metis length_rev length_takeWhile_le length_upt minus_nat.diff_0 nat_less_le takeWhile_eq_take take_all_iff)
  have top: "bit a (63 - n)"
    using nth_length_takeWhile [of ?P ?xs] n by (simp add: n_def builtin_clzl_def rev_nth)
  have above: "\<not> bit a m" if "63 - n < m" "m < 64" for m
  proof -
    have "63 - m < length (takeWhile ?P ?xs)" using that n by (simp add: n_def builtin_clzl_def)
    then have "?P (?xs ! (63 - m))" by (metis nth_mem set_takeWhileD takeWhile_nth)
    then show ?thesis using that by (simp add: rev_nth)
  qed
  have "bit (unat a) (63 - n)" using top by (simp add: bit_unsigned_iff)
  then have "odd (unat a div 2 ^ (63 - n))" unfolding bit_iff_odd .
  then have low: "2 ^ (63 - n) \<le> unat a" by (metis div_less even_zero not_less)
  have "take_bit (64 - n) a = a"
  proof (rule bit_word_eqI)
    fix m assume "m < LENGTH(64)"
    then show "bit (take_bit (64 - n) a) m \<longleftrightarrow> bit a m"
      using above [of m] n by (cases "63 - n < m") (auto simp: bit_take_bit_iff)
  qed
  then have "take_bit (64 - n) (unat a) = unat a" by (metis unsigned_take_bit_eq)
  then have high: "unat a < 2 ^ (64 - n)" by (simp add: take_bit_nat_eq_self_iff)
  have k: "CLog2UInt_builtin a = int (63 - n)" using n by (simp add: CLog2UInt_builtin_def n_def)
  have "64 - n = 63 - n + 1" using n by simp
  then show ?thesis using low high unfolding k is_log2_def nat_int by (metis of_nat_0_le_iff)
qed

lemma CLog2Int_correct:
  assumes "a \<in> Int_range"
  shows "if a = 0 then CLog2Int a = -1 else is_log2 (nat \<bar>a\<bar>) (CLog2Int a)"
proof (cases "a = 0")
  case False
  let ?w = "word_of_int \<bar>a\<bar> :: UInt"
  have "\<bar>a\<bar> < 2 ^ 64" using assms by (auto simp: Int_range_def)
  then have "uint ?w = \<bar>a\<bar>" by (simp add: uint_word_of_int)
  then have "unat ?w = nat \<bar>a\<bar>" "?w \<noteq> 0" using False by (auto simp: unat_eq_nat_uint)
  moreover have "(if a < 0 then - a else a) = \<bar>a\<bar>" by simp
  ultimately show ?thesis using CLog2UInt_correct [of ?w] False by (simp only: CLog2Int_def if_False) simp
qed (simp add: CLog2Int_def)

lemma limbs_log2:
  assumes "d \<noteq> []" "last d \<noteq> 0"
  shows "is_log2 (limbs_val d) (int (length d - 1) * 64 + CLog2UInt (d ! (length d - 1)))"
proof -
  have "limbs_val d = limbs_val (butlast d) + 2 ^ (64 * (length d - 1)) * unat (last d)"
    using limbs_val_append [of "butlast d" "[last d]"] assms by simp
  moreover have "limbs_val (butlast d) < 2 ^ (64 * (length d - 1))"
    using limbs_val_bound [of "butlast d"] by simp
  ultimately have "limbs_val d div 2 ^ (64 * (length d - 1)) = unat (last d)" by simp
  then have "is_log2 (limbs_val d) (CLog2UInt (last d) + int (64 * (length d - 1)))"
    using is_log2_shift [of "limbs_val d" "64 * (length d - 1)"] CLog2UInt_correct [OF assms(2)] by simp
  moreover have "CLog2UInt (last d) + int (64 * (length d - 1)) =
      int (length d - 1) * 64 + CLog2UInt (d ! (length d - 1))"
    using last_conv_nth [OF assms(1)] by simp
  ultimately show ?thesis by (simp only:)
qed

lemma CLog2UInt_bounds: "a \<noteq> 0 \<Longrightarrow> 0 \<le> CLog2UInt a \<and> CLog2UInt a < 64"
proof -
  assume "a \<noteq> 0"
  then have k: "is_log2 (unat a) (CLog2UInt a)" by (rule CLog2UInt_correct)
  then have "2 ^ nat (CLog2UInt a) < (2::nat) ^ 64" using unat_UInt_lt [of a] by (simp add: is_log2_def)
  then have "nat (CLog2UInt a) < 64" by (simp only: power_strict_increasing_iff)
  then show ?thesis using k by (simp add: is_log2_def)
qed

lemma FuncLog2Int_correct:
  assumes x: "valid_int x" and room: "SIZE_INT x < 2 ^ 50"
  shows "valid_int (FuncLog2Int x) \<and> (if int_val x = 0 then int_val (FuncLog2Int x) = -1
    else is_log2 (nat \<bar>int_val x\<bar>) (int_val (FuncLog2Int x)))"
proof (cases "IS_SMALL x")
  case True
  then obtain w where w: "x = T_INT w" by (cases x) auto
  have r: "INT_INTOBJ w \<in> Int_range" using x valid_intobj_bounds [of w] by (auto simp: w Int_range_def)
  have "-1 \<le> CLog2Int (INT_INTOBJ w) \<and> CLog2Int (INT_INTOBJ w) < 64"
    using CLog2UInt_bounds [of "word_of_int \<bar>INT_INTOBJ w\<bar>"] word_small_nonzero [of "\<bar>INT_INTOBJ w\<bar>"]
      valid_intobj_bounds [of w] x
    by (auto simp: CLog2Int_def w abs_if split: if_splits)
  then have "CLog2Int (INT_INTOBJ w) \<in> small_range" unfolding small_range_iff by simp
  then show ?thesis using CLog2Int_correct [OF r] by (auto simp: FuncLog2Int_def w split: if_splits)
next
  case False
  then have d: "LIMBS x \<noteq> []" "last (LIMBS x) \<noteq> 0" "int_val x \<noteq> 0" "nat \<bar>int_val x\<bar> = limbs_val (LIMBS x)"
    using x by (cases x; auto simp: valid_int_simps)+
  define k where "k = int (SIZE_INT x - 1) * 64 + CLog2UInt (LIMBS x ! (SIZE_INT x - 1))"
  have "0 \<le> k" "k < 2 ^ 60"
    using CLog2UInt_bounds [OF d(2)] d(1) room by (auto simp: k_def SIZE_INT_def last_conv_nth)
  then have "k \<in> small_range" "wrap_Int k = k" by (auto simp: small_range_iff Int_range_def)
  moreover have "FuncLog2Int x = INTOBJ (wrap_Int k)"
    using False by (cases x) (simp_all add: FuncLog2Int_def k_def Let_def)
  ultimately show ?thesis using limbs_log2 [OF d(1,2)] d(3,4) by (simp add: k_def SIZE_INT_def)
qed

subsection \<open>Properties\<close>



text \<open>\<open>IntStringInternal\<close> accepts exactly the strings of an optional minus sign and decimal
  digits (a zero byte or any other character gives \<open>Fail\<close>) and returns their value, however long
  they are: collecting the digits in groups of eight loses nothing.\<close>

lemma decimal_parser_sound:
  assumes "gmp_contract G"
  shows "if list_all dec_digit (dec_digits str)
    then \<exists>z. IntStringInternal G str = Some z \<and> valid_int z \<and> int_val z = dec_sign str * dec_value (dec_digits str)
    else IntStringInternal G str = None"
  using gmp_contract.IntStringInternal_ok [OF assms, of str] gmp_contract.IntStringInternal_bad [OF assms, of str]
  by simp

lemma decimal_parser_sound_witness:
  "(\<exists>z. IntStringInternal gmp_ref ''-1234567890'' = Some z \<and> int_val z = - 1234567890) \<and>
   IntStringInternal gmp_ref ''12a'' = None"
proof -
  have "list_all dec_digit (dec_digits ''-1234567890'')" "dec_sign ''-1234567890'' = - 1"
    "dec_value (dec_digits ''-1234567890'') = 1234567890" "\<not> list_all dec_digit (dec_digits ''12a'')"
    by code_simp+
  then show ?thesis
    using decimal_parser_sound [OF gmp_ref.gmp_contract_axioms, of "''-1234567890''"]
      decimal_parser_sound [OF gmp_ref.gmp_contract_axioms, of "''12a''"] by auto
qed

text \<open>\<open>IntHexString\<close> returns the value of the digits after the sign, as an immediate or a large
  integer, exactly when every character after the sign is accepted by \<open>hexstr2int\<close>, and raises
  its error otherwise.\<close>

lemma hex_parser_sound:
  "if hex_ok (hex_digits str)
   then \<exists>z. IntHexString str = Inr z \<and> valid_int z \<and>
     int_val z = (if hex_neg str then -1 else 1) * int (hex_value (hex_digits str))
   else \<exists>e. IntHexString str = Inl e"
  using IntHexString_ok [of str] IntHexString_error [of str] by simp

text \<open>\<open>hexstr2int\<close> takes the characters between the decimal digits and the capital letters for
  hexadecimal digits: the string of one colon is read as 10, although it is no hexadecimal string.\<close>

lemma hex_parser_accepts_colon: "IntHexString '':'' = Inr (INTOBJ 10)"
  by code_simp

text \<open>The text of an integer in a base up to 36 together with its terminating zero byte fits the
  buffer \<open>StringIntBase\<close> allocates for it.\<close>

lemma StringIntBase_buffer_suffices:
  assumes "gmp_contract G" "valid_int x" "2 \<le> b" "b \<le> 36" "int_val x \<noteq> 0"
  shows "length (StringIntBase G x b) + 1 \<le> StringIntBase_buffer G x b"
  using gmp_contract.StringIntBase_fits(2) [OF assms] .

lemma StringIntBase_buffer_suffices_witness:
  "length (StringIntBase gmp_ref (T_INTPOS [0, 1]) 10) + 1 \<le> StringIntBase_buffer gmp_ref (T_INTPOS [0, 1]) 10"
  using StringIntBase_buffer_suffices [OF gmp_ref.gmp_contract_axioms, of "T_INTPOS [0, 1]" 10] by simp

text \<open>The table-driven base 2 logarithm and the one on the compiler's leading zero count agree
  on every nonzero word and give the position of the highest bit.\<close>

lemma CLog2UInt_portable:
  assumes "a \<noteq> 0"
  shows "CLog2UInt a = CLog2UInt_builtin a \<and> 2 ^ nat (CLog2UInt a) \<le> unat a \<and> unat a < 2 ^ (nat (CLog2UInt a) + 1)"
  using CLog2UInt_correct [OF assms] CLog2UInt_builtin_correct [OF assms] is_log2_unique
  by (auto simp: is_log2_def)

lemma CLog2UInt_portable_witness:
  "CLog2UInt 1000 = CLog2UInt_builtin 1000 \<and> 2 ^ nat (CLog2UInt 1000) \<le> unat (1000 :: UInt)"
proof -
  have "(1000 :: UInt) \<noteq> 0" by simp
  from CLog2UInt_portable [OF this] show ?thesis by blast
qed

end
