(* ===== verification/IntNumber.thy ===== *)
theory IntNumber
  imports IntGcd IntString
begin

text \<open>
  Number-theoretic functions of \<open>src/src/integer.c\<close>: \<open>FuncFACTORIAL_INT\<close>, \<open>BinomialInt\<close>,
  \<open>FuncPVALUATION_INT\<close> and \<open>FuncROOT_INT\<close>. The argument \<open>same\<close> of \<open>BinomialInt\<close> says whether the C
  comparison \<open>n == k\<close> of two handles finds the same bag when the two large integers are equal: the
  result does not depend on it. The lemmas relate every path to factorials, generalized binomial
  coefficients, valuations and integer roots.
\<close>

definition FuncFACTORIAL_INT :: "gmp \<Rightarrow> gapint \<Rightarrow> gapint result" where
  "FuncFACTORIAL_INT G n =
     (case n of
        T_INT w \<Rightarrow> if IS_NONNEG_INTOBJ w then Inr (GMPorINTOBJ_MPZ (mpz_fac_ui G (word_of_int (INT_INTOBJ w))))
                   else Inl ''FACTORIAL_INT: <n> must be a non-negative small integer''
      | _ \<Rightarrow> Inl ''FACTORIAL_INT: <n> must be a non-negative small integer'')"

text \<open>The value of a nonnegative integer of one limb as a machine word.\<close>

definition limb_value :: "gapint \<Rightarrow> UInt" where
  "limb_value x = (case x of T_INT w \<Rightarrow> word_of_int (INT_INTOBJ w) | _ \<Rightarrow> VAL_LIMB0 x)"

definition BinomialInt :: "bool \<Rightarrow> gmp \<Rightarrow> gapint \<Rightarrow> gapint \<Rightarrow> gapint option" where
  "BinomialInt same G n k =
     (if k = INTOBJ 0 then Some (INTOBJ 1)
      else if k = INTOBJ 1 then Some n
      else if IS_NEG_INT k then Some (INTOBJ 0)
      else
        let (negate_result, n) =
              (if IS_NEG_INT n then (IS_ODD_INT k, DiffInt G (DiffInt G k n) (INTOBJ 1)) else (False, n))
        in if n = k \<and> (IS_SMALL n \<or> same) then Some (if negate_result then INTOBJ (-1) else INTOBJ 1)
           else if LtInt G n k then Some (INTOBJ 0)
           else
             let k2 = DiffInt G n k; k = (if LtInt G k2 k then k2 else k)
             in if SIZE_INT_OR_INTOBJ k > 1 then None
                else
                  let K = limb_value k;
                      res = (if SIZE_INT_OR_INTOBJ n = 1 then mpz_bin_uiui G (limb_value n) K
                             else mpz_bin_ui G (mpz_v (FAKEMPZ_GMPorINTOBJ n)) K);
                      res = (if negate_result then res\<lparr>mp_size := - mp_size res\<rparr> else res)
                  in Some (GMPorINTOBJ_MPZ res))"

text \<open>
  The division loop of \<open>PVALUATION_INT\<close>, as it is written: \<open>None\<close> is a run without end, and also the trap of a
  division by zero. The caller's tests have to keep the loop away from both.
\<close>

partial_function (option) valuation_loop :: "UInt \<Rightarrow> UInt \<Rightarrow> int \<Rightarrow> int option" where
  "valuation_loop N P k =
     (if P = 0 then None
      else if N mod P = 0 then valuation_loop (N div P) P (k + 1)
      else Some k)"

declare valuation_loop.simps [code]

text \<open>The count of GMP is stored in a C \<open>int\<close>.\<close>

definition FuncPVALUATION_INT :: "gmp \<Rightarrow> gapint \<Rightarrow> gapint \<Rightarrow> gapint result option" where
  "FuncPVALUATION_INT G n p =
     (if p = INTOBJ 0 then Some (Inl (RequireNonzero_msg ''PVALUATION_INT'' ''p''))
      else if SIZE_INT_OR_INTOBJ n = 1 \<and> SIZE_INT_OR_INTOBJ p = 1 then
        let N = AbsOfSmallInt n; P = AbsOfSmallInt p
        in if N = 0 \<or> P = 1 then Some (Inr (INTOBJ 0))
           else map_option (\<lambda>k. Inr (INTOBJ k)) (valuation_loop N P 0)
      else Some (Inr (INTOBJ (sint (word_of_nat
        (mpz_remove G (mpz_v (FAKEMPZ_GMPorINTOBJ n)) (mpz_v (FAKEMPZ_GMPorINTOBJ p))) :: 32 word)))))"

definition FuncROOT_INT :: "gmp \<Rightarrow> gapint \<Rightarrow> gapint \<Rightarrow> gapint result" where
  "FuncROOT_INT G n k =
     (if \<not> IS_POS_INT k then Inl ''Root: <k> must be a positive integer''
      else if IS_NEG_INT n \<and> IS_EVEN_INT k then Inl ''Root: <n> is negative but <k> is even''
      else if k = INTOBJ 1 \<or> n = INTOBJ 0 then Inr n
      else case k of
        T_INT w \<Rightarrow>
          let K = word_of_int (INT_INTOBJ w) :: UInt;
              root_size = 1 + (SIZE_INT_OR_INTOBJ n - 1) div unat K;
              result = NEW_FAKEMPZ root_size;
              n_mpz = mpz_v (FAKEMPZ_GMPorINTOBJ n)
          in Inr (GMPorINTOBJ_FAKEMPZ (result\<lparr>mpz_v :=
               (if K = 2 then mpz_sqrt G (mpz_v result) n_mpz else mpz_root G (mpz_v result) n_mpz K)\<rparr>))
      | _ \<Rightarrow> Inr (if IS_NEG_INT n then INTOBJ (-1) else INTOBJ 1))"

subsection \<open>Integers built by GMP\<close>

lemma MakeObjInt_correct:
  assumes "mpz_wf z"
  shows "valid_int (GMPorINTOBJ_MPZ z) \<and> int_val (GMPorINTOBJ_MPZ z) = mpz_val z"
proof -
  let ?n = "nat \<bar>mp_size z\<bar>"
  have n: "?n \<le> length (mp_d z)" using assms by (simp add: mpz_wf_def)
  consider "mp_size z = 0" | "mp_size z = 1" | "mp_size z = -1" | "2 \<le> mp_size z" | "mp_size z \<le> -2"
    by linarith
  then show ?thesis
  proof cases
    case 2
    with n have "take 1 (mp_d z) = [mp_d z ! 0]" by (cases "mp_d z") auto
    with 2 show ?thesis using ObjInt_UInt_correct by (simp add: GMPorINTOBJ_MPZ_def MakeObjInt_def mpz_val_def)
  next
    case 3
    with n have "take 1 (mp_d z) = [mp_d z ! 0]" by (cases "mp_d z") auto
    with 3 show ?thesis using ObjInt_UIntInv_correct by (simp add: GMPorINTOBJ_MPZ_def MakeObjInt_def mpz_val_def)
  next
    case 4
    then have "take ?n (mp_d z) \<noteq> []" using n by auto
    with 4 GMP_NORMALIZE_POS show ?thesis
      by (simp add: GMPorINTOBJ_MPZ_def MakeObjInt_def mpz_val_def Let_def del: GMP_NORMALIZE.simps)
  next
    case 5
    then have "take ?n (mp_d z) \<noteq> []" using n by auto
    with 5 GMP_NORMALIZE_NEG show ?thesis
      by (simp add: GMPorINTOBJ_MPZ_def MakeObjInt_def mpz_val_def Let_def del: GMP_NORMALIZE.simps)
  qed (simp add: GMPorINTOBJ_MPZ_def MakeObjInt_def mpz_val_def)
qed

lemma mpz_negate: "mpz_wf z \<Longrightarrow> mpz_wf (z\<lparr>mp_size := - mp_size z\<rparr>) \<and> mpz_val (z\<lparr>mp_size := - mp_size z\<rparr>) = - mpz_val z"
  by (auto simp: mpz_wf_def mpz_val_def)

lemma odd_unat: "odd (unat (w :: UInt)) \<longleftrightarrow> w AND 1 \<noteq> 0"
proof -
  have "bit (unat w) 0 \<longleftrightarrow> bit w 0" by (simp only: bit_unsigned_iff) simp
  then show ?thesis using and_exp_eq_0_iff_not_bit [of w 0] by (simp add: bit_0)
qed

lemma odd_INTOBJ_INT: "INTOBJ_INT i AND 4 \<noteq> 0 \<longleftrightarrow> odd i"
proof -
  have "INTOBJ_INT i AND 4 \<noteq> 0 \<longleftrightarrow> bit (INTOBJ_INT i) 2"
    using and_exp_eq_0_iff_not_bit [of "INTOBJ_INT i" 2] by simp
  also have "\<dots> \<longleftrightarrow> bit (4 * i + 1) 2" unfolding INTOBJ_INT_word bit_word_of_int_iff by simp
  also have "\<dots> \<longleftrightarrow> odd i" by (simp add: bit_iff_odd)
  finally show ?thesis .
qed

lemma IS_ODD_INT_correct:
  assumes "valid_int x"
  shows "IS_ODD_INT x \<longleftrightarrow> odd (int_val x)"
proof -
  have limb: "VAL_LIMB0 x AND 1 \<noteq> 0 \<longleftrightarrow> odd (limbs_val (LIMBS x))" if "LIMBS x \<noteq> []"
  proof -
    have "odd (limbs_val (LIMBS x)) \<longleftrightarrow> odd (unat (LIMBS x ! 0))" using that by (cases "LIMBS x") auto
    then show ?thesis by (simp add: VAL_LIMB0_def odd_unat)
  qed
  from assms show ?thesis
  proof (cases rule: valid_int_cases)
    case (small w)
    then show ?thesis using odd_INTOBJ_INT [of "INT_INTOBJ w"] by (simp add: valid_intobj_def)
  qed (use limb in auto)
qed

lemma IS_NONNEG_INTOBJ_correct: "valid_intobj w \<Longrightarrow> IS_NONNEG_INTOBJ w \<longleftrightarrow> 0 \<le> INT_INTOBJ w"
proof -
  assume w: "valid_intobj w"
  then have "w = word_of_int (4 * INT_INTOBJ w + 1)" using INTOBJ_INT_word [of "INT_INTOBJ w"] by (simp add: valid_intobj_def)
  moreover have "bit (word_of_int (4 * i + 1) :: UInt) 0" for i unfolding bit_word_of_int_iff by (simp add: bit_0)
  ultimately have "bit w 0" by metis
  then have "w AND 1 \<noteq> 0" using and_exp_eq_0_iff_not_bit [of w 0] by simp
  then show ?thesis using sint_valid [OF w] by (auto simp: IS_NONNEG_INTOBJ_def)
qed

subsection \<open>Factorials and binomial coefficients\<close>

definition binomial_spec :: "int \<Rightarrow> int \<Rightarrow> int" where
  "binomial_spec n k =
     (if k < 0 then 0 else if 0 \<le> n then int (nat n choose nat k)
      else (-1) ^ nat k * int (nat (k - n - 1) choose nat k))"

text \<open>It is the generalized binomial coefficient.\<close>

lemma binomial_spec_gbinomial: "0 \<le> k \<Longrightarrow> of_int (binomial_spec n k) = (of_int n :: rat) gchoose nat k"
proof (cases "0 \<le> n")
  case True
  then have "(of_int n :: rat) = of_nat (nat n)" by simp
  then show "0 \<le> k \<Longrightarrow> ?thesis" using True by (simp add: binomial_spec_def binomial_gbinomial del: of_nat_nat)
next
  case False
  assume k: "0 \<le> k"
  have "(of_nat (nat k) - of_int n - 1 :: rat) = of_nat (nat (k - n - 1))" using False k by simp
  then show ?thesis using False k gbinomial_negated_upper [of "of_int n :: rat" "nat k"]
    by (simp add: binomial_spec_def binomial_gbinomial)
qed

lemma limb_value_correct:
  assumes "valid_int x" "SIZE_INT_OR_INTOBJ x = 1" "0 \<le> int_val x"
  shows "int (unat (limb_value x)) = int_val x"
  using assms(1)
proof (cases rule: valid_int_cases)
  case (small w)
  then show ?thesis using assms(3) uint_small_word [of "int_val x"] by (simp add: limb_value_def)
next
  case (pos d)
  then show ?thesis using assms(2) limbs_val_one [of d] by (simp add: limb_value_def VAL_LIMB0_def)
next
  case (neg d)
  then show ?thesis using assms(3) by simp
qed

lemma multi_limb:
  assumes "valid_int x" "SIZE_INT_OR_INTOBJ x > 1"
  shows "2 ^ 64 \<le> \<bar>int_val x\<bar>"
proof -
  have d: "LIMBS x \<noteq> []" "last (LIMBS x) \<noteq> 0" "1 < length (LIMBS x)" "\<bar>int_val x\<bar> = int (limbs_val (LIMBS x))"
    using assms by (cases x; auto simp: valid_int_simps)+
  have "(2::nat) ^ (64 * 1) \<le> 2 ^ (64 * (length (LIMBS x) - 1))" using d(3) by (intro power_increasing) auto
  also have "\<dots> \<le> limbs_val (LIMBS x)" using limbs_val_lower [OF d(1,2)] .
  finally show ?thesis using d(4) by simp
qed

context gmp_contract
begin

lemma FuncFACTORIAL_INT_correct:
  assumes "valid_int x"
  shows "if IS_SMALL x \<and> 0 \<le> int_val x
    then \<exists>z. FuncFACTORIAL_INT G x = Inr z \<and> valid_int z \<and> int_val z = fact (nat (int_val x))
    else \<exists>e. FuncFACTORIAL_INT G x = Inl e"
  using assms
proof (cases rule: valid_int_cases)
  case (small w)
  have "IS_NONNEG_INTOBJ w \<longleftrightarrow> 0 \<le> INT_INTOBJ w" using IS_NONNEG_INTOBJ_correct small(2) .
  moreover have "0 \<le> INT_INTOBJ w \<Longrightarrow> unat (word_of_int (INT_INTOBJ w) :: UInt) = nat (INT_INTOBJ w)"
    using uint_small_word [of "INT_INTOBJ w"] small by (simp add: unat_eq_nat_uint)
  ultimately show ?thesis using small mpz_fac_ui MakeObjInt_correct
    by (auto simp: FuncFACTORIAL_INT_def)
qed (auto simp: FuncFACTORIAL_INT_def)

text \<open>The tail of \<open>BinomialInt\<close>, for a nonnegative \<open>n\<close>.\<close>

lemma bin_by_gmp:
  assumes n: "valid_int n" "0 \<le> int_val n" and k: "valid_int k" "0 \<le> int_val k" "SIZE_INT_OR_INTOBJ k = 1"
  defines "r \<equiv> if SIZE_INT_OR_INTOBJ n = 1 then mpz_bin_uiui G (limb_value n) (limb_value k)
    else mpz_bin_ui G (mpz_v (FAKEMPZ_GMPorINTOBJ n)) (limb_value k)"
  shows "mpz_wf r \<and> mpz_val r = int (nat (int_val n) choose nat (int_val k))"
proof -
  have K: "unat (limb_value k) = nat (int_val k)" using limb_value_correct [OF k(1,3,2)] by linarith
  have N: "SIZE_INT_OR_INTOBJ n = 1 \<Longrightarrow> unat (limb_value n) = nat (int_val n)"
    using limb_value_correct [OF n(1) _ n(2)] by linarith
  show ?thesis
    using mpz_bin_uiui [of "limb_value n" "limb_value k"] mpz_bin_ui [of "mpz_v (FAKEMPZ_GMPorINTOBJ n)" "limb_value k"]
      FAKEMPZ_in [OF n(1)] n(2) K N by (simp add: r_def)
qed

lemma BinomialInt_correct:
  assumes n: "valid_int n" and k: "valid_int k"
  shows "case BinomialInt same G n k of
      Some z \<Rightarrow> valid_int z \<and> int_val z = binomial_spec (int_val n) (int_val k)
    | None \<Rightarrow> 2 ^ 64 \<le> int_val k \<and> (0 \<le> int_val n \<longrightarrow> 2 ^ 64 \<le> int_val n - int_val k)"
proof -
  note eqk = INTOBJ_eq_iff [OF k]
  consider "int_val k \<le> 0" | "int_val k = 1" | "2 \<le> int_val k" by linarith
  then show ?thesis
  proof cases
    case 1
    then show ?thesis using eqk IS_NEG_INT_iff [OF k] by (auto simp: BinomialInt_def binomial_spec_def)
  next
    case 2
    then show ?thesis using eqk n by (auto simp: BinomialInt_def binomial_spec_def)
  next
    case 3
    define m where "m = (if IS_NEG_INT n then DiffInt G (DiffInt G k n) (INTOBJ 1) else n)"
    define ng where "ng = (IS_NEG_INT n \<and> IS_ODD_INT k)"
    have m: "valid_int m" "0 \<le> int_val m"
        "binomial_spec (int_val n) (int_val k) = (if ng then -1 else 1) * int (nat (int_val m) choose nat (int_val k))"
      using DiffInt_correct [OF k n] DiffInt_correct [of "DiffInt G k n" "INTOBJ 1"] n 3
        IS_NEG_INT_iff [OF n] IS_ODD_INT_correct [OF k]
      by (auto simp: m_def ng_def binomial_spec_def even_nat_iff)
    have nm: "0 \<le> int_val n \<Longrightarrow> m = n" using IS_NEG_INT_iff [OF n] by (simp add: m_def)
    define k' where "k' = (if LtInt G (DiffInt G m k) k then DiffInt G m k else k)"
    define r where "r = (if SIZE_INT_OR_INTOBJ m = 1 then mpz_bin_uiui G (limb_value m) (limb_value k')
      else mpz_bin_ui G (mpz_v (FAKEMPZ_GMPorINTOBJ m)) (limb_value k'))"
    have unfold: "BinomialInt same G n k =
        (if m = k \<and> (IS_SMALL m \<or> same) then Some (if ng then INTOBJ (-1) else INTOBJ 1)
         else if LtInt G m k then Some (INTOBJ 0)
         else if SIZE_INT_OR_INTOBJ k' > 1 then None
         else Some (GMPorINTOBJ_MPZ (if ng then r\<lparr>mp_size := - mp_size r\<rparr> else r)))"
    proof -
      have pair: "(if IS_NEG_INT n then (IS_ODD_INT k, DiffInt G (DiffInt G k n) (INTOBJ 1)) else (False, n)) = (ng, m)"
        by (simp add: m_def ng_def)
      have "k \<noteq> INTOBJ 0" "k \<noteq> INTOBJ 1" "\<not> IS_NEG_INT k" using 3 eqk IS_NEG_INT_iff [OF k] by auto
      then show ?thesis unfolding BinomialInt_def pair Let_def prod.case k'_def [symmetric] r_def [symmetric]
        by simp
    qed
    consider (same) "m = k \<and> (IS_SMALL m \<or> same)" | (less) "\<not> (m = k \<and> (IS_SMALL m \<or> same))" "int_val m < int_val k"
      | (ge) "\<not> (m = k \<and> (IS_SMALL m \<or> same))" "int_val k \<le> int_val m" by linarith
    then show ?thesis
    proof cases
      case same
      then show ?thesis unfolding unfold using m(3) by auto
    next
      case less
      then have "nat (int_val m) choose nat (int_val k) = 0" using 3 by (intro binomial_eq_0) simp
      then show ?thesis unfolding unfold using less m(3) LtInt_correct [OF m(1) k] by auto
    next
      case ge
      have False: "\<not> LtInt G m k" using ge(2) LtInt_correct [OF m(1) k] by simp
      note ge = ge(2) and ge1 = ge(1)
      have k': "valid_int k'" "int_val k' = min (int_val k) (int_val m - int_val k)"
        using DiffInt_correct [OF m(1) k] LtInt_correct [of "DiffInt G m k" k] k by (auto simp: k'_def)
      have choose: "nat (int_val m) choose nat (int_val k') = nat (int_val m) choose nat (int_val k)"
        using k'(2) ge 3 binomial_symmetric [of "nat (int_val k)" "nat (int_val m)"]
        by (auto simp: min_def nat_diff_distrib)
      show ?thesis
      proof (cases "SIZE_INT_OR_INTOBJ k' > 1")
        case True
        have "2 ^ 64 \<le> int_val k'" using multi_limb [OF k'(1) True] k'(2) ge 3 by simp
        then show ?thesis unfolding unfold using True False ge1 nm k'(2) by auto
      next
        case small: False
        then have "SIZE_INT_OR_INTOBJ k' = 1" using size_int_pos [OF k'(1)] by simp
        then have r: "mpz_wf r" "mpz_val r = int (nat (int_val m) choose nat (int_val k))"
          using bin_by_gmp [OF m(1,2) k'(1)] k'(2) ge 3 choose by (simp_all add: r_def)
        show ?thesis unfolding unfold using small False ge1 m(3) r mpz_negate [OF r(1)] MakeObjInt_correct
          by auto
      qed
    qed
  qed
qed

end

subsection \<open>Valuations\<close>

definition is_valuation :: "int \<Rightarrow> int \<Rightarrow> int \<Rightarrow> bool" where
  "is_valuation p n k \<longleftrightarrow> 0 \<le> k \<and> p ^ nat k dvd n \<and> \<not> p ^ Suc (nat k) dvd n"

lemma is_valuation_abs: "is_valuation \<bar>p\<bar> \<bar>n\<bar> k \<longleftrightarrow> is_valuation p n k"
  by (simp add: is_valuation_def power_abs [symmetric] del: power_Suc)

text \<open>Without the caller's tests the loop would run forever: on 0, and on any number divided by 1.\<close>

lemma valuation_loop_result:
  assumes "valuation_loop N P k = Some j"
  shows "N \<noteq> 0 \<and> P \<noteq> 1"
proof -
  have "(\<lambda>((N, P), k) (j :: int). N \<noteq> 0 \<and> P \<noteq> 1) ((N, P), k) j"
    by (rule valuation_loop.raw_induct [OF _ assms]) (fastforce split: if_splits)
  then show ?thesis by simp
qed

lemma valuation_loop_correct:
  assumes "N \<noteq> 0" "2 \<le> P"
  shows "\<exists>j. valuation_loop N P k = Some (k + int j) \<and> unat P ^ j dvd unat N \<and> \<not> unat P ^ Suc j dvd unat N"
  using assms
proof (induction "unat N" arbitrary: N k rule: less_induct)
  case less
  have P: "2 \<le> unat P" "P \<noteq> 0" using less.prems(2) by (auto simp: word_le_nat_alt)
  have md: "N mod P = 0 \<longleftrightarrow> unat P dvd unat N"
    by (metis dvd_eq_mod_eq_0 unat_eq_zero unat_mod_distrib)
  show ?case
  proof (cases "N mod P = 0")
    case True
    then obtain q where q: "unat N = unat P * q" using md by (auto elim: dvdE)
    have qd: "unat (N div P) = q" using q P by (simp add: unat_div_distrib)
    have q0: "q \<noteq> 0" using q less.prems(1) by (metis mult_0_right unat_eq_zero)
    then have "N div P \<noteq> 0" using qd by auto
    moreover have "unat (N div P) < unat N" using q0 P(1) unfolding qd q by simp
    ultimately obtain j where j: "valuation_loop (N div P) P (k + 1) = Some (k + 1 + int j)"
        "unat P ^ j dvd q" "\<not> unat P ^ Suc j dvd q"
      using less.hyps [of "N div P" "k + 1"] less.prems(2) qd by auto
    then have "valuation_loop N P k = Some (k + int (Suc j))"
      using True P(2) by (subst valuation_loop.simps) simp
    moreover have "unat P ^ Suc j dvd unat N" "\<not> unat P ^ Suc (Suc j) dvd unat N"
      using j P unfolding q by (simp_all add: dvd_mult_cancel1 mult_dvd_mono)
    ultimately show ?thesis by blast
  next
    case False
    then show ?thesis using md P(2) by (intro exI [of _ 0]) (subst valuation_loop.simps, simp)
  qed
qed

lemma valuation_bound:
  assumes "(p :: int) ^ k dvd n" "n \<noteq> 0" "2 \<le> \<bar>p\<bar>" "nat \<bar>n\<bar> < 2 ^ b"
  shows "k < b"
proof -
  have "(2::int) ^ k \<le> \<bar>p\<bar> ^ k" using assms(3) by (intro power_mono) auto
  also have "\<dots> \<le> \<bar>n\<bar>" using assms(1,2) by (simp add: power_abs [symmetric] dvd_imp_le_int)
  also have "\<dots> < 2 ^ b" using assms(4) by (metis abs_ge_zero nat_less_iff of_nat_numeral of_nat_power zless_nat_eq_int_zless nat_power_eq nat_numeral nat_less_eq_zless)
  finally show ?thesis by (simp only: power_strict_increasing_iff)
qed

lemma AbsOfSmallInt_nat:
  "valid_int x \<Longrightarrow> SIZE_INT_OR_INTOBJ x = 1 \<Longrightarrow> unat (AbsOfSmallInt x) = nat \<bar>int_val x\<bar>"
  using AbsOfSmallInt_correct [of x] by linarith

context gmp_contract
begin

lemma FuncPVALUATION_INT_correct:
  assumes n: "valid_int n" and p: "valid_int p" and "int_val p \<noteq> 0" and room: "SIZE_INT_OR_INTOBJ n < 2 ^ 24"
  shows "\<exists>z. FuncPVALUATION_INT G n p = Some (Inr z) \<and> valid_int z \<and>
    (if int_val n = 0 \<or> \<bar>int_val p\<bar> = 1 then int_val z = 0 else is_valuation (int_val p) (int_val n) (int_val z))"
proof -
  have p0: "p \<noteq> INTOBJ 0" using INTOBJ_eq_iff [OF p, of 0] assms(3) by simp
  have small: "k \<in> small_range" if "k = int j" "int_val p ^ j dvd int_val n" "int_val n \<noteq> 0" "2 \<le> \<bar>int_val p\<bar>" for k j
  proof -
    have "j < 64 * SIZE_INT_OR_INTOBJ n" using valuation_bound [OF that(2-4) size_int_bound [OF n]] .
    then show ?thesis using room that(1) by (simp add: small_range_iff)
  qed
  show ?thesis
  proof (cases "SIZE_INT_OR_INTOBJ n = 1 \<and> SIZE_INT_OR_INTOBJ p = 1")
    case True
    define N where "N = AbsOfSmallInt n"
    define P where "P = AbsOfSmallInt p"
    have N: "unat N = nat \<bar>int_val n\<bar>" and P: "unat P = nat \<bar>int_val p\<bar>"
      using True n p AbsOfSmallInt_nat by (simp_all add: N_def P_def)
    have N0: "N = 0 \<longleftrightarrow> int_val n = 0" using N unat_eq_zero [of N] by auto
    have P1: "P = 1 \<longleftrightarrow> \<bar>int_val p\<bar> = 1" using P by (auto simp: word_unat_eq_iff)
    show ?thesis
    proof (cases "N = 0 \<or> P = 1")
      case True
      then show ?thesis using \<open>_ \<and> _\<close> p0 N0 P1 by (auto simp: FuncPVALUATION_INT_def N_def P_def)
    next
      case False
      then have "2 \<le> \<bar>int_val p\<bar>" "int_val n \<noteq> 0" using P1 N0 assms(3) by auto
      then have "2 \<le> P" using P by (simp add: word_le_nat_alt)
      then obtain j where
        j: "valuation_loop N P 0 = Some (int j)" "unat P ^ j dvd unat N" "\<not> unat P ^ Suc j dvd unat N"
        using valuation_loop_correct [of N P 0] False by auto
      have dvd: "unat P ^ i dvd unat N \<longleftrightarrow> int_val p ^ i dvd int_val n" for i
        by (simp add: N P nat_abs_dvd_iff [symmetric] nat_power_eq [symmetric] power_abs [symmetric] nat_dvd_iff)
      have "is_valuation (int_val p) (int_val n) (int j)" using j dvd by (simp add: is_valuation_def del: power_Suc)
      moreover have "int j \<in> small_range"
        using small [of "int j" j] j(2) dvd \<open>2 \<le> \<bar>int_val p\<bar>\<close> \<open>int_val n \<noteq> 0\<close> by blast
      moreover have "FuncPVALUATION_INT G n p = Some (Inr (INTOBJ (int j)))"
        using \<open>_ \<and> _\<close> p0 False j(1) by (simp add: FuncPVALUATION_INT_def N_def P_def)
      ultimately show ?thesis using False N0 P1 by simp
    qed
  next
    case False
    let ?n = "mpz_v (FAKEMPZ_GMPorINTOBJ n)" and ?p = "mpz_v (FAKEMPZ_GMPorINTOBJ p)"
    define k where "k = mpz_remove G ?n ?p"
    have eq: "FuncPVALUATION_INT G n p = Some (Inr (INTOBJ (sint (word_of_nat k :: 32 word))))"
      using False p0 by (auto simp: FuncPVALUATION_INT_def k_def)
    show ?thesis
    proof (cases "int_val n = 0 \<or> \<bar>int_val p\<bar> = 1")
      case True
      then have "k = 0" using mpz_remove_trivial [of ?n ?p] FAKEMPZ_in [OF n] FAKEMPZ_in [OF p] by (simp add: k_def)
      then show ?thesis using True eq by simp
    next
      case nz: False
      then have p2: "2 \<le> \<bar>int_val p\<bar>" using assms(3) by linarith
      then have val: "int_val p ^ k dvd int_val n" "\<not> int_val p ^ Suc k dvd int_val n"
        using mpz_remove [of ?n ?p] FAKEMPZ_in [OF n] FAKEMPZ_in [OF p] nz by (auto simp: k_def)
      have "k < 64 * SIZE_INT_OR_INTOBJ n" using valuation_bound [OF val(1) _ p2 size_int_bound [OF n]] nz by simp
      then have "int k < 2 ^ 31" using room by simp
      then have "sint (word_of_int (int k) :: 32 word) = int k"
        unfolding sint_sbintrunc' by (intro signed_take_bit_int_eq_self) auto
      then have "sint (word_of_nat k :: 32 word) = int k" by simp
      then show ?thesis using eq val nz small [of "int k" k] p2 by (auto simp: is_valuation_def)
    qed
  qed
qed

end

subsection \<open>Roots\<close>

definition is_root :: "nat \<Rightarrow> int \<Rightarrow> int \<Rightarrow> bool" where
  "is_root k n z \<longleftrightarrow> \<bar>z\<bar> ^ k \<le> \<bar>n\<bar> \<and> \<bar>n\<bar> < (\<bar>z\<bar> + 1) ^ k \<and> sgn z = sgn n"

lemma root_exists:
  fixes a :: int
  assumes "0 < k" "0 \<le> a"
  shows "\<exists>s \<ge> 0. s ^ k \<le> a \<and> a < (s + 1) ^ k"
  using assms(2)
proof (induction a rule: int_ge_induct)
  case base
  then show ?case using assms(1) by (intro exI [of _ 0]) (simp add: zero_power)
next
  case (step a)
  then obtain s where s: "0 \<le> s" "s ^ k \<le> a" "a < (s + 1) ^ k" by blast
  show ?case
  proof (cases "a + 1 < (s + 1) ^ k")
    case True
    with s show ?thesis by (intro exI [of _ s]) auto
  next
    case False
    have "(s + 1) ^ k < (s + 1 + 1) ^ k" using s(1) assms(1) by (intro power_strict_mono) auto
    with s False show ?thesis by (intro exI [of _ "s + 1"]) auto
  qed
qed

text \<open>The \<open>k\<close>-th root of an integer of \<open>n\<close> limbs has at most \<open>1 + (n - 1) div k\<close> limbs.\<close>

lemma root_fits:
  fixes s a :: int
  assumes "0 \<le> s" "s ^ k \<le> \<bar>a\<bar>" "nat \<bar>a\<bar> < 2 ^ (64 * n)" "0 < k" "0 < n"
  shows "nat \<bar>s\<bar> < 2 ^ (64 * (1 + (n - 1) div k))"
proof -
  have "n - 1 < (1 + (n - 1) div k) * k" using assms(4) by (simp add: dividend_less_div_times)
  then have "n \<le> (1 + (n - 1) div k) * k" using assms(5) by linarith
  then have "64 * n \<le> 64 * (1 + (n - 1) div k) * k" unfolding mult.assoc by (rule mult_le_mono2)
  then have "(2::nat) ^ (64 * n) \<le> 2 ^ (64 * (1 + (n - 1) div k) * k)" by (intro power_increasing) simp_all
  moreover have "nat s ^ k \<le> nat \<bar>a\<bar>" using assms(1,2) by (simp add: nat_power_eq [symmetric] nat_le_eq_zle)
  ultimately have "nat s ^ k < 2 ^ (64 * (1 + (n - 1) div k) * k)" using assms(3) by linarith
  then have "nat s ^ k < (2 ^ (64 * (1 + (n - 1) div k))) ^ k" by (simp only: power_mult)
  then show ?thesis using assms(1) power_less_imp_less_base by fastforce
qed

lemma is_rootI:
  assumes "0 \<le> s" "s ^ k \<le> \<bar>n\<bar>" "\<bar>n\<bar> < (s + 1) ^ k" "n \<noteq> 0" "0 < k"
  shows "is_root k n (sgn n * s)"
proof -
  have "s \<noteq> 0" using assms(3,4) by auto
  then show ?thesis using assms by (auto simp: is_root_def abs_mult sgn_if)
qed

lemma root_of_huge_exponent:
  assumes "n \<noteq> 0" "nat \<bar>n\<bar> < 2 ^ b" "b \<le> k"
  shows "is_root k n (sgn n)"
proof -
  have "int (nat \<bar>n\<bar>) < int (2 ^ b)" using assms(2) by (simp only: of_nat_less_iff)
  then have "\<bar>n\<bar> < 2 ^ b" by simp
  also have "(2::int) ^ b \<le> 2 ^ k" using assms(3) by (intro power_increasing) auto
  finally show ?thesis using assms(1) is_rootI [of 1 k n] by (cases "k = 0") (auto simp: is_root_def sgn_if)
qed

context gmp_contract
begin

lemma FuncROOT_INT_small:
  assumes n: "valid_int n" and k: "valid_int (T_INT w)" and K: "2 \<le> INT_INTOBJ w"
    and nz: "int_val n \<noteq> 0" and ev: "0 \<le> int_val n \<or> odd (INT_INTOBJ w)"
  shows "\<exists>z. FuncROOT_INT G n (T_INT w) = Inr z \<and> valid_int z \<and> is_root (nat (INT_INTOBJ w)) (int_val n) (int_val z)"
proof -
  define K where "K = (word_of_int (INT_INTOBJ w) :: UInt)"
  have unatK: "unat K = nat (INT_INTOBJ w)"
    using uint_small_word [of "INT_INTOBJ w"] valid_intobj_bounds [of w] k K by (simp add: K_def unat_eq_nat_uint)
  have K2: "K = 2 \<longleftrightarrow> INT_INTOBJ w = 2" using unatK K by (auto simp: word_unat_eq_iff)
  let ?m = "1 + (SIZE_INT_OR_INTOBJ n - 1) div unat K"
  let ?n = "mpz_v (FAKEMPZ_GMPorINTOBJ n)"
  obtain s where s: "0 \<le> s" "s ^ unat K \<le> \<bar>int_val n\<bar>" "\<bar>int_val n\<bar> < (s + 1) ^ unat K"
    using root_exists [of "unat K" "\<bar>int_val n\<bar>"] unatK K by auto
  have fits: "mpz_fits (mpz_v (NEW_FAKEMPZ ?m)) s"
    unfolding NEW_FAKEMPZ_fits using s size_int_bound [OF n] size_int_pos [OF n] unatK K
    by (intro root_fits [of s "unat K" "int_val n"]) auto
  define r where "r = (if K = 2 then mpz_sqrt G (mpz_v (NEW_FAKEMPZ ?m)) ?n else mpz_root G (mpz_v (NEW_FAKEMPZ ?m)) ?n K)"
  have "mpz_out ?m r (sgn (int_val n) * s)"
  proof (cases "K = 2")
    case True
    then have "0 < int_val n" "unat K = 2" using ev K2 nz unatK by auto
    then show ?thesis using mpz_sqrt [of ?n s "mpz_v (NEW_FAKEMPZ ?m)"] FAKEMPZ_in [OF n] s fits True
      by (simp add: r_def)
  next
    case False
    have "odd (unat K) \<longleftrightarrow> odd (INT_INTOBJ w)" using unatK K by (simp add: even_nat_iff)
    then show ?thesis using mpz_root [of ?n K s "mpz_v (NEW_FAKEMPZ ?m)"] FAKEMPZ_in [OF n] s fits False ev unatK K
      by (simp add: r_def)
  qed
  from FAKEMPZ_out [OF this] have "valid_int (GMPorINTOBJ_FAKEMPZ ((NEW_FAKEMPZ ?m)\<lparr>mpz_v := r\<rparr>))"
    "int_val (GMPorINTOBJ_FAKEMPZ ((NEW_FAKEMPZ ?m)\<lparr>mpz_v := r\<rparr>)) = sgn (int_val n) * s" by auto
  moreover have "FuncROOT_INT G n (T_INT w) = Inr (GMPorINTOBJ_FAKEMPZ ((NEW_FAKEMPZ ?m)\<lparr>mpz_v := r\<rparr>))"
    using IS_POS_INT_iff [OF k] IS_NEG_INT_iff [OF n] IS_ODD_INT_correct [OF k] K ev nz
      INTOBJ_eq_iff [OF k, of 1] INTOBJ_eq_iff [OF n, of 0]
    by (auto simp: FuncROOT_INT_def IS_EVEN_INT_def Let_def K_def [symmetric] r_def)
  moreover have "is_root (nat (INT_INTOBJ w)) (int_val n) (sgn (int_val n) * s)"
    using s nz unatK K by (intro is_rootI) auto
  ultimately show ?thesis by auto
qed

lemma FuncROOT_INT_correct:
  assumes n: "valid_int n" and k: "valid_int k" and room: "SIZE_INT_OR_INTOBJ n < 2 ^ 50"
  shows "if 0 < int_val k \<and> (0 \<le> int_val n \<or> odd (int_val k))
    then \<exists>z. FuncROOT_INT G n k = Inr z \<and> valid_int z \<and> is_root (nat (int_val k)) (int_val n) (int_val z)
    else \<exists>e. FuncROOT_INT G n k = Inl e"
proof -
  note iffs = IS_POS_INT_iff [OF k] IS_NEG_INT_iff [OF n] IS_ODD_INT_correct [OF k]
    INTOBJ_eq_iff [OF k, of 1] INTOBJ_eq_iff [OF n, of 0]
  show ?thesis
  proof (cases "0 < int_val k \<and> (0 \<le> int_val n \<or> odd (int_val k))")
    case False
    then show ?thesis using iffs by (auto simp: FuncROOT_INT_def IS_EVEN_INT_def)
  next
    case True
    consider "int_val k = 1 \<or> int_val n = 0" | w where "2 \<le> int_val k" "int_val n \<noteq> 0" "k = T_INT w"
      | "2 ^ 60 \<le> int_val k" "int_val n \<noteq> 0" "\<not> IS_SMALL k"
    proof (cases "int_val k = 1 \<or> int_val n = 0")
      case False
      then have "2 \<le> int_val k" using True by linarith
      then show thesis using False that(2,3) valid_small_iff [OF k]
        by (cases k) (auto simp: small_range_iff)
    qed (rule that(1))
    then show ?thesis
    proof cases
      case 1
      then show ?thesis using True iffs n
        by (auto simp: FuncROOT_INT_def IS_EVEN_INT_def is_root_def zero_power)
    next
      case 2
      then show ?thesis using FuncROOT_INT_small [OF n, of w] k True by simp
    next
      case 3
      have "64 * SIZE_INT_OR_INTOBJ n \<le> nat (int_val k)" using room 3(1) by simp
      then have "is_root (nat (int_val k)) (int_val n) (sgn (int_val n))"
        using root_of_huge_exponent [OF 3(2) size_int_bound [OF n]] by blast
      moreover have "FuncROOT_INT G n k = Inr (INTOBJ (sgn (int_val n)))"
        using 3 True iffs by (cases k) (auto simp: FuncROOT_INT_def IS_EVEN_INT_def)
      moreover have "sgn (int_val n) \<in> small_range" by (auto simp: small_range_iff sgn_if)
      ultimately show ?thesis using True by simp
    qed
  qed
qed

end

subsection \<open>Properties\<close>

text \<open>C38: \<open>BinomialInt\<close> returns the generalized binomial coefficient for all integers \<open>n\<close> and \<open>k\<close>
  (negative ones included); \<open>Fail\<close> is returned only when \<open>k\<close> and, for nonnegative \<open>n\<close>, also
  \<open>n - k\<close> need more than one limb; the outcome does not depend on the identity of equal bags.\<close>

theorem binomial_sound:
  assumes "gmp_contract G" "valid_int n" "valid_int k"
  shows "case BinomialInt same G n k of
      Some z \<Rightarrow> valid_int z \<and> int_val z = binomial_spec (int_val n) (int_val k) \<and>
        (0 \<le> int_val k \<longrightarrow> of_int (int_val z) = (of_int (int_val n) :: rat) gchoose nat (int_val k))
    | None \<Rightarrow> 2 ^ 64 \<le> int_val k \<and> (0 \<le> int_val n \<longrightarrow> 2 ^ 64 \<le> int_val n - int_val k)"
  using gmp_contract.BinomialInt_correct [OF assms, of same] binomial_spec_gbinomial
  by (auto split: option.splits)

theorem binomial_sound_witness:
  "\<exists>z. BinomialInt True gmp_ref (INTOBJ (- 3)) (INTOBJ 2) = Some z \<and> int_val z = 6"
proof -
  have "binomial_spec (- 3) 2 = 6" by code_simp
  then show ?thesis
    using binomial_sound [OF gmp_ref.gmp_contract_axioms, of "INTOBJ (- 3)" "INTOBJ 2" True]
    by (auto simp: small_range_iff split: option.splits)
qed

text \<open>C40: \<open>PVALUATION_INT\<close> returns, for every \<open>n\<close> of fewer than \<open>2 ^ 24\<close> limbs (the count is stored in a C \<open>int\<close>):
  an error for \<open>p\<close> zero, 0 when \<open>n\<close> is zero or \<open>p\<close> a unit, and otherwise the exponent of the exact power of
  \<open>p\<close> dividing \<open>n\<close>, from the division loop or from GMP. The loop, which would run forever for \<open>n\<close> zero or \<open>p\<close> a unit,
  ends on every input it is called on.\<close>

theorem valuation_sound:
  assumes "gmp_contract G" "valid_int n" "valid_int p" "SIZE_INT_OR_INTOBJ n < 2 ^ 24"
  shows "(if int_val p = 0 then FuncPVALUATION_INT G n p = Some (Inl (RequireNonzero_msg ''PVALUATION_INT'' ''p''))
     else \<exists>z. FuncPVALUATION_INT G n p = Some (Inr z) \<and> valid_int z \<and>
       (if int_val n = 0 \<or> \<bar>int_val p\<bar> = 1 then int_val z = 0
        else 0 \<le> int_val z \<and> int_val p ^ nat (int_val z) dvd int_val n \<and> \<not> int_val p ^ Suc (nat (int_val z)) dvd int_val n)) \<and>
    valuation_loop 0 P k = None \<and> valuation_loop N 1 k = None"
proof -
  have "valuation_loop 0 P k = None" "valuation_loop N 1 k = None"
    using valuation_loop_result [of 0 P k] valuation_loop_result [of N 1 k] by (meson not_None_eq)+
  moreover have "FuncPVALUATION_INT G n p = Some (Inl (RequireNonzero_msg ''PVALUATION_INT'' ''p''))" if "int_val p = 0"
    using INTOBJ_eq_iff [OF assms(3), of 0] that by (simp add: FuncPVALUATION_INT_def)
  ultimately show ?thesis
    using gmp_contract.FuncPVALUATION_INT_correct [OF assms(1-3) _ assms(4)]
    by (cases "int_val p = 0") (simp_all only: is_valuation_def simp_thms if_True if_False not_False_eq_True)
qed

theorem valuation_sound_witness:
  "\<exists>z. FuncPVALUATION_INT gmp_ref (INTOBJ 48) (INTOBJ 2) = Some (Inr z) \<and> 2 ^ nat (int_val z) dvd (48 :: int)"
  using conjunct1 [OF valuation_sound [OF gmp_ref.gmp_contract_axioms, of "INTOBJ 48" "INTOBJ 2"]]
  by (auto simp: small_range_iff)

text \<open>C37: \<open>ROOT_INT\<close> returns the integer part of the \<open>k\<close>-th root with the sign of \<open>n\<close>: the result
  always fits the limbs allocated for it; a nonpositive \<open>k\<close>, or an even \<open>k\<close> with a negative \<open>n\<close>,
  is an error.\<close>

theorem root_sound:
  assumes "gmp_contract G" "valid_int n" "valid_int k" "SIZE_INT_OR_INTOBJ n < 2 ^ 50"
  shows "if 0 < int_val k \<and> (0 \<le> int_val n \<or> odd (int_val k))
    then \<exists>z. FuncROOT_INT G n k = Inr z \<and> valid_int z \<and> \<bar>int_val z\<bar> ^ nat (int_val k) \<le> \<bar>int_val n\<bar> \<and>
      \<bar>int_val n\<bar> < (\<bar>int_val z\<bar> + 1) ^ nat (int_val k) \<and> sgn (int_val z) = sgn (int_val n)
    else \<exists>e. FuncROOT_INT G n k = Inl e"
  using gmp_contract.FuncROOT_INT_correct [OF assms] by (simp only: is_root_def)

theorem root_sound_witness:
  "(\<exists>z. FuncROOT_INT gmp_ref (INTOBJ 30) (INTOBJ 3) = Inr z \<and> \<bar>int_val z\<bar> ^ 3 \<le> 30) \<and>
   (\<exists>e. FuncROOT_INT gmp_ref (INTOBJ (- 30)) (INTOBJ 2) = Inl e)"
  using root_sound [OF gmp_ref.gmp_contract_axioms, of "INTOBJ 30" "INTOBJ 3"]
    root_sound [OF gmp_ref.gmp_contract_axioms, of "INTOBJ (- 30)" "INTOBJ 2"]
  by (auto simp: small_range_iff)

end
