(* ===== verification/IntPow.thy ===== *)
theory IntPow
  imports Integer
begin

text \<open>
  Multiples and powers by repeated doubling, \<open>src/src/integer.c\<close>: \<open>ProdIntObj\<close> and \<open>PowObjInt\<close>,
  which work on any kind of object through the dispatched operations \<open>SUM\<close>, \<open>PROD\<close> and their
  kin, and the squaring loop of \<open>PowInt\<close> on integers. The dispatched operations are the fields of
  the records \<open>add_ops\<close> and \<open>mul_ops\<close>. The locale \<open>assoc_op\<close> is the contract the loops rely on, an
  associative operation on a carrier; it is interpreted on \<open>SumInt\<close> and \<open>ProdInt\<close>.
\<close>

subsection \<open>The loops\<close>

text \<open>\<open>res == 0\<close>, the neutral element not yet materialized, is \<open>None\<close>.\<close>

fun op_opt :: "('a \<Rightarrow> 'a \<Rightarrow> 'a) \<Rightarrow> 'a option \<Rightarrow> 'a \<Rightarrow> 'a option" where
  "op_opt f None y = Some y"
| "op_opt f (Some r) y = Some (f r y)"

definition double_opt :: "('a \<Rightarrow> 'a \<Rightarrow> 'a) \<Rightarrow> 'a option \<Rightarrow> 'a option" where
  "double_opt f res = (case res of None \<Rightarrow> None | Some r \<Rightarrow> Some (f r r))"

fun small_doubling :: "('a \<Rightarrow> 'a \<Rightarrow> 'a) \<Rightarrow> 'a \<Rightarrow> nat \<Rightarrow> nat \<Rightarrow> 'a option \<Rightarrow> 'a option" where
  "small_doubling f op k l res =
     (if 0 < k then
        let res = double_opt f res;
            (res, l) = (if k \<le> l then (op_opt f res op, l - k) else (res, l))
        in small_doubling f op (k div 2) l res
      else res)"

declare small_doubling.simps [simp del]

fun limb_doubling :: "('a \<Rightarrow> 'a \<Rightarrow> 'a) \<Rightarrow> 'a \<Rightarrow> UInt \<Rightarrow> nat \<Rightarrow> 'a option \<Rightarrow> 'a option" where
  "limb_doubling f op l 0 res = res"
| "limb_doubling f op l (Suc k) res =
     (let res = double_opt f res;
          res = (if drop_bit k l AND 1 \<noteq> 0 then op_opt f res op else res)
      in limb_doubling f op l k res)"

text \<open>The limbs are visited from the top one down.\<close>

definition large_doubling :: "('a \<Rightarrow> 'a \<Rightarrow> 'a) \<Rightarrow> 'a \<Rightarrow> UInt list \<Rightarrow> 'a option" where
  "large_doubling f op limbs = foldl (\<lambda>res l. limb_doubling f op l 64 res) None (rev limbs)"

subsection \<open>Multiples of an object\<close>

record 'a add_ops =
  ZERO_SAMEMUT :: "'a \<Rightarrow> 'a"
  SUM_op :: "'a \<Rightarrow> 'a \<Rightarrow> 'a"
  AINV_SAMEMUT :: "'a \<Rightarrow> 'a option"
  IS_MUTABLE_OBJ :: "'a \<Rightarrow> bool"
  PROD_INT :: "gapint \<Rightarrow> 'a \<Rightarrow> 'a"

text \<open>What the functions return: the null handle (no branch applied), \<open>Fail\<close>, or an object.\<close>

datatype 'a handle = Null | FailObj | Obj 'a

definition handle_opt :: "'a option \<Rightarrow> 'a handle" where
  "handle_opt res = (case res of None \<Rightarrow> Null | Some r \<Rightarrow> Obj r)"

definition handle_fail :: "'a option \<Rightarrow> 'a handle" where
  "handle_fail res = (case res of None \<Rightarrow> FailObj | Some r \<Rightarrow> Obj r)"

definition ProdIntObj :: "'a add_ops \<Rightarrow> gapint \<Rightarrow> 'a \<Rightarrow> 'a handle result" where
  "ProdIntObj A n op =
     (if n = INTOBJ 0 then Inr (Obj ((ZERO_SAMEMUT A op)))
      else if n = INTOBJ 1 then
        Inr (Obj ((if IS_MUTABLE_OBJ A op then SUM_op A (ZERO_SAMEMUT A op) op else op)))
      else if n = INTOBJ (-1) then Inr (handle_fail (AINV_SAMEMUT A op))
      else if IS_NEG_INT n then
        (case AINV_SAMEMUT A op of
           None \<Rightarrow> Inl ''Operations: <obj> must have an additive inverse''
         | Some res \<Rightarrow> Inr (Obj ((PROD_INT A (AInvInt n) res))))
      else case n of
        T_INT w \<Rightarrow> Inr (handle_opt (small_doubling (SUM_op A) op (2 ^ NR_SMALL_INT_BITS) (nat (INT_INTOBJ w)) None))
      | T_INTPOS limbs \<Rightarrow> Inr (handle_opt (large_doubling (SUM_op A) op limbs))
      | T_INTNEG limbs \<Rightarrow> Inr Null)"

subsection \<open>Powers of an object\<close>

record 'a mul_ops =
  ONE_SAMEMUT :: "'a \<Rightarrow> 'a"
  PROD_op :: "'a \<Rightarrow> 'a \<Rightarrow> 'a"
  INV_SAMEMUT :: "'a \<Rightarrow> 'a option"
  CopyObj :: "'a \<Rightarrow> 'a"
  POW_INT :: "'a \<Rightarrow> gapint \<Rightarrow> 'a"

definition PowObjInt :: "'a mul_ops \<Rightarrow> 'a \<Rightarrow> gapint \<Rightarrow> 'a handle result" where
  "PowObjInt M op n =
     (if n = INTOBJ 0 then Inr (Obj ((ONE_SAMEMUT M op)))
      else if n = INTOBJ 1 then Inr (Obj ((CopyObj M op)))
      else if n = INTOBJ (-1) then Inr (handle_fail (INV_SAMEMUT M op))
      else if IS_NEG_INT n then
        (case INV_SAMEMUT M op of
           None \<Rightarrow> Inl ''Operations: <obj> must have an inverse''
         | Some res \<Rightarrow> Inr (Obj ((POW_INT M res (AInvInt n)))))
      else case n of
        T_INT w \<Rightarrow> Inr (handle_opt (small_doubling (PROD_op M) op (2 ^ NR_SMALL_INT_BITS) (nat (INT_INTOBJ w)) None))
      | T_INTPOS limbs \<Rightarrow> Inr (handle_opt (large_doubling (PROD_op M) op limbs))
      | T_INTNEG limbs \<Rightarrow> Inr Null)"

subsection \<open>The squaring loop of PowInt\<close>

fun pow_int_loop :: "gmp \<Rightarrow> gapint \<Rightarrow> gapint \<Rightarrow> nat \<Rightarrow> gapint" where
  "pow_int_loop G pow opL i =
     (if i \<noteq> 0 then
        let pow = (if i mod 2 = 1 then ProdInt G pow opL else pow);
            opL = (if i > 1 then ProdInt G opL opL else opL)
        in pow_int_loop G pow opL (i div 2)
      else pow)"

declare pow_int_loop.simps [simp del]

subsection \<open>Associative operations\<close>

text \<open>The \<open>n\<close>-fold application of an operation to one operand, \<open>None\<close> for \<open>n = 0\<close>.\<close>

primrec nfold :: "('a \<Rightarrow> 'a \<Rightarrow> 'a) \<Rightarrow> 'a \<Rightarrow> nat \<Rightarrow> 'a option" where
  "nfold f x 0 = None"
| "nfold f x (Suc n) = op_opt f (nfold f x n) x"

lemma nfold_None [simp]: "nfold f x n = None \<longleftrightarrow> n = 0"
  by (cases n; cases "nfold f x (n - 1)") auto

locale assoc_op =
  fixes carrier :: "'a \<Rightarrow> bool" and f :: "'a \<Rightarrow> 'a \<Rightarrow> 'a"
  assumes closed: "carrier x \<Longrightarrow> carrier y \<Longrightarrow> carrier (f x y)"
    and assoc: "carrier x \<Longrightarrow> carrier y \<Longrightarrow> carrier z \<Longrightarrow> f (f x y) z = f x (f y z)"
begin

lemma nfold_carrier: "carrier x \<Longrightarrow> nfold f x n = Some y \<Longrightarrow> carrier y"
  by (induction n arbitrary: y) (auto elim!: op_opt.elims intro: closed)

lemma nfold_Suc: "carrier x \<Longrightarrow> \<exists>y. nfold f x (Suc n) = Some y \<and> carrier y"
  by (cases "nfold f x n") (auto intro: closed dest: nfold_carrier)

lemma nfold_add:
  assumes "carrier x" "nfold f x m = Some a" "nfold f x n = Some b"
  shows "nfold f x (m + n) = Some (f a b)"
  using assms(3)
proof (induction n arbitrary: b)
  case (Suc n)
  show ?case
  proof (cases "nfold f x n")
    case None
    with Suc.prems have "n = 0" by (cases n) (auto elim: op_opt.elims)
    with Suc.prems assms show ?thesis by simp
  next
    case (Some c)
    with Suc assms show ?thesis using nfold_carrier [OF assms(1)] by (auto simp: assoc)
  qed
qed simp

lemma nfold_double: "carrier x \<Longrightarrow> double_opt f (nfold f x n) = nfold f x (2 * n)"
proof (cases n)
  case (Suc m)
  assume x: "carrier x"
  obtain y where "nfold f x n = Some y" using nfold_Suc [OF x, of m] Suc by auto
  with nfold_add [OF x this this] show ?thesis by (simp add: double_opt_def mult_2)
qed (simp add: double_opt_def)

lemma small_doubling_correct:
  assumes "carrier x" "l < 2 * 2 ^ j"
  shows "small_doubling f x (2 ^ j) l (nfold f x m) = nfold f x (m * 2 ^ Suc j + l)"
  using assms(2)
proof (induction j arbitrary: l m)
  case 0
  then have "l = 0 \<or> l = 1" by auto
  then show ?case using assms(1)
    by (auto simp: small_doubling.simps nfold_double mult.commute)
next
  case (Suc j)
  have half: "2 ^ Suc j div 2 = (2 :: nat) ^ j" by simp
  show ?case
  proof (cases "2 ^ Suc j \<le> l")
    case True
    then have "small_doubling f x (2 ^ Suc j) l (nfold f x m) =
        small_doubling f x (2 ^ j) (l - 2 ^ Suc j) (nfold f x (Suc (2 * m)))"
      using assms(1) by (subst small_doubling.simps) (simp add: nfold_double)
    also have "\<dots> = nfold f x (Suc (2 * m) * 2 ^ Suc j + (l - 2 ^ Suc j))"
      using Suc.prems True by (intro Suc.IH) simp
    also have "Suc (2 * m) * 2 ^ Suc j + (l - 2 ^ Suc j) = m * 2 ^ Suc (Suc j) + l" using True by simp
    finally show ?thesis .
  next
    case False
    then have "small_doubling f x (2 ^ Suc j) l (nfold f x m) = small_doubling f x (2 ^ j) l (nfold f x (2 * m))"
      using assms(1) by (subst small_doubling.simps) (simp add: nfold_double)
    also have "\<dots> = nfold f x (2 * m * 2 ^ Suc j + l)" using False by (intro Suc.IH) simp
    also have "2 * m * 2 ^ Suc j = m * 2 ^ Suc (Suc j)" by simp
    finally show ?thesis .
  qed
qed

lemma limb_doubling_correct:
  assumes "carrier x"
  shows "limb_doubling f x l k (nfold f x m) = nfold f x (m * 2 ^ k + take_bit k (unat l))"
proof (induction k arbitrary: m)
  case (Suc k)
  have test: "drop_bit k l AND 1 \<noteq> 0 \<longleftrightarrow> bit (unat l) k"
    using and_exp_eq_0_iff_not_bit [of "drop_bit k l" 0]
    by (simp add: bit_0 bit_iff_odd_drop_bit [symmetric] bit_unsigned_iff)
  have "limb_doubling f x l (Suc k) (nfold f x m) = limb_doubling f x l k (nfold f x (2 * m + of_bool (bit (unat l) k)))"
    using assms test by (simp add: nfold_double)
  also have "\<dots> = nfold f x ((2 * m + of_bool (bit (unat l) k)) * 2 ^ k + take_bit k (unat l))"
    by (rule Suc.IH)
  also have "(2 * m + of_bool (bit (unat l) k)) * 2 ^ k + take_bit k (unat l) = m * 2 ^ Suc k + take_bit (Suc k) (unat l)"
    by (simp add: take_bit_Suc_from_most algebra_simps)
  finally show ?case .
qed simp

lemma large_doubling_correct:
  assumes "carrier x"
  shows "large_doubling f x limbs = nfold f x (limbs_val limbs)"
proof -
  have "foldl (\<lambda>res l. limb_doubling f x l 64 res) (nfold f x m) (rev ls) =
      nfold f x (m * 2 ^ (64 * length ls) + limbs_val ls)" for m ls
  proof (induction ls arbitrary: m)
    case (Cons l ls)
    have "take_bit 64 (unat l) = unat l" using unat_UInt_lt [of l] by (simp add: take_bit_nat_eq_self_iff)
    moreover have "(m * 2 ^ (64 * length ls) + limbs_val ls) * 2 ^ 64 = m * 2 ^ (64 * length (l # ls)) + 2 ^ 64 * limbs_val ls"
      by (simp add: power_add algebra_simps)
    ultimately show ?case using limb_doubling_correct [OF assms, of l 64]
      by (simp only: rev.simps foldl_append foldl_Cons foldl_Nil Cons limbs_val.simps) (simp only: ac_simps)
  qed simp
  from this [of 0 limbs] show ?thesis by (simp add: large_doubling_def)
qed

text \<open>Both branches of the generic functions for an integer above one.\<close>

lemma doubling_correct:
  assumes x: "carrier x" and n: "valid_int n" "1 < int_val n"
  shows "\<exists>y. carrier y \<and> nfold f x (nat (int_val n)) = Some y \<and>
    (case n of T_INT w \<Rightarrow> small_doubling f x (2 ^ NR_SMALL_INT_BITS) (nat (INT_INTOBJ w)) None = Some y
     | T_INTPOS limbs \<Rightarrow> large_doubling f x limbs = Some y | T_INTNEG limbs \<Rightarrow> False)"
proof -
  obtain y where y: "nfold f x (nat (int_val n)) = Some y" "carrier y"
    using nfold_Suc [OF x, of "nat (int_val n) - 1"] n(2) by auto
  from n(1) show ?thesis
  proof (cases rule: valid_int_cases)
    case (small w)
    then have "nat (INT_INTOBJ w) < 2 * 2 ^ NR_SMALL_INT_BITS" by (simp add: NR_SMALL_INT_BITS_def)
    from small_doubling_correct [OF x this, of 0] small y show ?thesis by simp
  next
    case (pos d)
    with large_doubling_correct [OF x, of d] y show ?thesis by simp
  qed (use n in auto)
qed

end

subsection \<open>Integers as an instance\<close>

text \<open>On integers the operations are those of \<open>Integer\<close>; objects are immutable.\<close>

definition int_add_ops :: "gmp \<Rightarrow> gapint add_ops" where
  "int_add_ops G = \<lparr>ZERO_SAMEMUT = (\<lambda>x. INTOBJ 0), SUM_op = SumInt G, AINV_SAMEMUT = (\<lambda>x. Some (AInvInt x)),
     IS_MUTABLE_OBJ = (\<lambda>x. False), PROD_INT = ProdInt G\<rparr>"

definition int_mul_ops :: "gmp \<Rightarrow> gapint mul_ops" where
  "int_mul_ops G = \<lparr>ONE_SAMEMUT = (\<lambda>x. INTOBJ 1), PROD_op = ProdInt G,
     INV_SAMEMUT = (\<lambda>x. if x = INTOBJ 1 \<or> x = INTOBJ (-1) then Some x else None), CopyObj = (\<lambda>x. x),
     POW_INT = (\<lambda>x n. pow_int_loop G (INTOBJ 1) x (nat (int_val n)))\<rparr>"

context gmp_contract
begin

lemma SumInt_assoc:
  assumes "valid_int x" "valid_int y" "valid_int z"
  shows "SumInt G (SumInt G x y) z = SumInt G x (SumInt G y z)"
proof -
  have "valid_int (SumInt G x y)" "valid_int (SumInt G y z)" using assms SumInt_correct by blast+
  then show ?thesis using assms SumInt_correct by (subst int_val_inject [symmetric]) auto
qed

lemma ProdInt_assoc:
  assumes "valid_int x" "valid_int y" "valid_int z"
  shows "ProdInt G (ProdInt G x y) z = ProdInt G x (ProdInt G y z)"
proof -
  have "valid_int (ProdInt G x y)" "valid_int (ProdInt G y z)" using assms ProdInt_correct by blast+
  then show ?thesis using assms ProdInt_correct by (subst int_val_inject [symmetric]) auto
qed

end

sublocale gmp_contract \<subseteq> sum_op: assoc_op valid_int "SumInt G"
  using SumInt_correct by unfold_locales (auto simp: SumInt_assoc)

sublocale gmp_contract \<subseteq> prod_op: assoc_op valid_int "ProdInt G"
  using ProdInt_correct by unfold_locales (auto simp: ProdInt_assoc)

context gmp_contract
begin

lemma nfold_SumInt:
  assumes "valid_int x" "nfold (SumInt G) x n = Some y"
  shows "valid_int y \<and> int_val y = int n * int_val x"
  using assms(2)
proof (induction n arbitrary: y)
  case (Suc n)
  show ?case
  proof (cases "nfold (SumInt G) x n")
    case None
    with Suc.prems assms(1) show ?thesis by simp
  next
    case (Some r)
    with Suc SumInt_correct [of r x] assms(1) show ?thesis by (auto simp: algebra_simps)
  qed
qed simp

lemma nfold_ProdInt:
  assumes "valid_int x" "nfold (ProdInt G) x n = Some y"
  shows "valid_int y \<and> int_val y = int_val x ^ n"
  using assms(2)
proof (induction n arbitrary: y)
  case (Suc n)
  show ?case
  proof (cases "nfold (ProdInt G) x n")
    case None
    with Suc.prems assms(1) show ?thesis by simp
  next
    case (Some r)
    with Suc ProdInt_correct [of r x] assms(1) show ?thesis by (auto simp: mult.commute)
  qed
qed simp

lemma pow_int_loop_correct:
  assumes "valid_int p" "valid_int x"
  shows "valid_int (pow_int_loop G p x i) \<and> int_val (pow_int_loop G p x i) = int_val p * int_val x ^ i"
  using assms
proof (induction i arbitrary: p x rule: less_induct)
  case (less i)
  show ?case
  proof (cases "i = 0")
    case True
    then show ?thesis using less.prems by (simp add: pow_int_loop.simps)
  next
    case False
    define p' where "p' = (if i mod 2 = 1 then ProdInt G p x else p)"
    define x' where "x' = (if i > 1 then ProdInt G x x else x)"
    have eq: "pow_int_loop G p x i = pow_int_loop G p' x' (i div 2)"
      using False by (subst pow_int_loop.simps) (simp add: p'_def x'_def Let_def)
    have p': "valid_int p'" "int_val p' = int_val p * int_val x ^ (i mod 2)"
      using less.prems ProdInt_correct [of p x] by (auto simp: p'_def)
    have x': "valid_int x'" "int_val x' ^ (i div 2) = int_val x ^ (2 * (i div 2))"
      using less.prems ProdInt_correct [of x x] False by (auto simp: x'_def power_mult power2_eq_square)
    have "int_val p * int_val x ^ (i mod 2) * int_val x ^ (2 * (i div 2)) = int_val p * int_val x ^ i"
      by (simp add: mult.assoc power_add [symmetric])
    then show ?thesis using less.IH [of "i div 2" p' x'] False p' x' eq by simp
  qed
qed

text \<open>The generic functions on integers compute products and powers.\<close>

lemma ProdIntObj_int:
  assumes n: "valid_int n" and x: "valid_int x"
  shows "\<exists>y. ProdIntObj (int_add_ops G) n x = Inr (Obj y) \<and> valid_int y \<and> int_val y = int_val n * int_val x"
proof -
  note eqs = INTOBJ_eq_iff [OF n] and ng = IS_NEG_INT_iff [OF n] and inv = AInvInt_correct [OF x] AInvInt_correct [OF n]
  consider "int_val n = 0 \<or> int_val n = 1 \<or> int_val n = -1" | "int_val n < -1" | "1 < int_val n" by linarith
  then show ?thesis
  proof cases
    case 1
    then show ?thesis using eqs x inv by (auto simp: ProdIntObj_def int_add_ops_def handle_fail_def)
  next
    case 2
    then show ?thesis using eqs ng inv ProdInt_correct [of "AInvInt n" "AInvInt x"]
      by (auto simp: ProdIntObj_def int_add_ops_def)
  next
    case 3
    from sum_op.doubling_correct [OF x n 3] obtain y where y: "nfold (SumInt G) x (nat (int_val n)) = Some y"
      "case n of T_INT w \<Rightarrow> small_doubling (SumInt G) x (2 ^ NR_SMALL_INT_BITS) (nat (INT_INTOBJ w)) None = Some y
       | T_INTPOS limbs \<Rightarrow> large_doubling (SumInt G) x limbs = Some y | T_INTNEG limbs \<Rightarrow> False" by blast
    with 3 eqs ng nfold_SumInt [OF x y(1)] show ?thesis
      by (cases n) (auto simp: ProdIntObj_def int_add_ops_def handle_opt_def)
  qed
qed

lemma PowObjInt_int:
  assumes n: "valid_int n" and x: "valid_int x" and "0 \<le> int_val n"
  shows "\<exists>y. PowObjInt (int_mul_ops G) x n = Inr (Obj y) \<and> valid_int y \<and> int_val y = int_val x ^ nat (int_val n)"
proof -
  note eqs = INTOBJ_eq_iff [OF n] and ng = IS_NEG_INT_iff [OF n]
  consider "int_val n = 0 \<or> int_val n = 1" | "1 < int_val n" using assms(3) by linarith
  then show ?thesis
  proof cases
    case 1
    then show ?thesis using eqs x by (auto simp: PowObjInt_def int_mul_ops_def)
  next
    case 2
    from prod_op.doubling_correct [OF x n 2] obtain y where y: "nfold (ProdInt G) x (nat (int_val n)) = Some y"
      "case n of T_INT w \<Rightarrow> small_doubling (ProdInt G) x (2 ^ NR_SMALL_INT_BITS) (nat (INT_INTOBJ w)) None = Some y
       | T_INTPOS limbs \<Rightarrow> large_doubling (ProdInt G) x limbs = Some y | T_INTNEG limbs \<Rightarrow> False" by blast
    with 2 eqs ng nfold_ProdInt [OF x y(1)] show ?thesis
      by (cases n) (auto simp: PowObjInt_def int_mul_ops_def handle_opt_def)
  qed
qed

end

subsection \<open>Properties\<close>

text \<open>For any associative operation on a carrier, the doubling loops of \<open>ProdIntObj\<close> and
  \<open>PowObjInt\<close> (the immediate one and the one over limbs) compute the \<open>n\<close>-fold sum or product of the
  operand for every integer above one.\<close>

lemma doubling_computes_nfold:
  assumes "assoc_op carrier f" "carrier x" "valid_int n" "1 < int_val n"
  shows "\<exists>y. carrier y \<and> nfold f x (nat (int_val n)) = Some y \<and>
    (case n of T_INT w \<Rightarrow> small_doubling f x (2 ^ NR_SMALL_INT_BITS) (nat (INT_INTOBJ w)) None = Some y
     | T_INTPOS limbs \<Rightarrow> large_doubling f x limbs = Some y | T_INTNEG limbs \<Rightarrow> False)"
  using assoc_op.doubling_correct [OF assms] .

lemma doubling_computes_nfold_witness:
  "\<exists>y. nfold (ProdInt gmp_ref) (INTOBJ 3) 5 = Some y \<and>
    small_doubling (ProdInt gmp_ref) (INTOBJ 3) (2 ^ NR_SMALL_INT_BITS) 5 None = Some y"
  using doubling_computes_nfold [OF gmp_ref.prod_op.assoc_op_axioms, of "INTOBJ 3" "INTOBJ 5"]
  by (auto simp: small_range_iff)

text \<open>On integers the generic routines agree with integer arithmetic: \<open>ProdIntObj\<close> gives the
  product for all integer multipliers and \<open>PowObjInt\<close> the power for all nonnegative exponents.\<close>

lemma generic_routines_on_integers:
  assumes "gmp_contract G" "valid_int n" "valid_int x"
  shows "(\<exists>y. ProdIntObj (int_add_ops G) n x = Inr (Obj y) \<and> y = ProdInt G n x) \<and>
    (0 \<le> int_val n \<longrightarrow> (\<exists>y. PowObjInt (int_mul_ops G) x n = Inr (Obj y) \<and> valid_int y \<and>
      int_val y = int_val x ^ nat (int_val n)))"
  using gmp_contract.ProdIntObj_int [OF assms] gmp_contract.PowObjInt_int [OF assms]
    gmp_contract.ProdInt_correct [OF assms] int_val_inject by metis

lemma generic_routines_on_integers_witness:
  "\<exists>y. PowObjInt (int_mul_ops gmp_ref) (INTOBJ 3) (INTOBJ 5) = Inr (Obj y) \<and> int_val y = 243"
  using generic_routines_on_integers [OF gmp_ref.gmp_contract_axioms, of "INTOBJ 5" "INTOBJ 3"]
  by (auto simp: small_range_iff)

end
