(* ===== verification/Rational.thy ===== *)
theory Rational
  imports IntGcd IntNumber IntPow
begin

text \<open>
  Rationals, \<open>src/src/rational.c\<close>, with \<open>PowInt\<close> of \<open>src/src/integer.c\<close>, whose negative exponents lead
  here. A rational object is an integer or a bag \<open>T_RAT\<close> of a numerator and a denominator; the
  invariant \<open>valid_rat\<close> is what \<open>CHECK_RAT\<close> checks: the denominator is above one and the fraction is
  reduced. \<open>rat_val\<close> is the rational number an object denotes. The lemmas show that every
  operation computes on rational numbers and keeps fractions reduced.
\<close>

datatype gaprat = RInt gapint | T_RAT gapint gapint

text \<open>
  The contents of a bag of type \<open>T_RAT\<close>. The functions that are only called on such bags take the contents;
  the ones that also take integers test the type first and work with the denominator 1.
\<close>

type_synonym rat_bag = "gapint \<times> gapint"

definition NUM_RAT :: "rat_bag \<Rightarrow> gapint" where
  "NUM_RAT rat = fst rat"

definition DEN_RAT :: "rat_bag \<Rightarrow> gapint" where
  "DEN_RAT rat = snd rat"

fun operand_num :: "gaprat \<Rightarrow> gapint" where
  "operand_num (T_RAT n d) = NUM_RAT (n, d)"
| "operand_num (RInt x) = x"

fun operand_den :: "gaprat \<Rightarrow> gapint" where
  "operand_den (T_RAT n d) = DEN_RAT (n, d)"
| "operand_den (RInt x) = INTOBJ 1"

lemmas bag_contents [simp] = NUM_RAT_def DEN_RAT_def

definition CHECK_RAT :: "gmp \<Rightarrow> gaprat \<Rightarrow> bool" where
  "CHECK_RAT G r = (case r of RInt x \<Rightarrow> True
     | T_RAT n d \<Rightarrow> LtInt G (INTOBJ 1) d \<and> GcdInt G n d = INTOBJ 1)"

text \<open>\<open>MakeRat\<close> unless the denominator is the immediate one.\<close>

definition make_rat :: "gapint \<Rightarrow> gapint \<Rightarrow> gaprat" where
  "make_rat n d = (if d \<noteq> INTOBJ 1 then T_RAT n d else RInt n)"

definition EqRat :: "gmp \<Rightarrow> rat_bag \<Rightarrow> rat_bag \<Rightarrow> bool" where
  "EqRat G opL opR =
     (let numL = NUM_RAT opL; denL = DEN_RAT opL; numR = NUM_RAT opR; denR = DEN_RAT opR
      in if \<not> EqInt G numL numR then False
         else if \<not> EqInt G denL denR then False
         else True)"

definition LtRat :: "gmp \<Rightarrow> gaprat \<Rightarrow> gaprat \<Rightarrow> bool" where
  "LtRat G opL opR =
     LtInt G (ProdInt G (operand_num opL) (operand_den opR)) (ProdInt G (operand_num opR) (operand_den opL))"

text \<open>
  The comparisons \<open>EQ\<close> and \<open>LT\<close> of \<open>src/src/ariths.h\<close> on numbers, with the entries of their tables for the types of
  integers and fractions; \<open>same\<close> says that the two handles are identical. An integer and a fraction have no entry of
  their own for \<open>EQ\<close>, which is \<open>EqNot\<close>.
\<close>

fun EQ_num :: "gmp \<Rightarrow> bool \<Rightarrow> gaprat \<Rightarrow> gaprat \<Rightarrow> bool" where
  "EQ_num G same (RInt (T_INT l)) (RInt (T_INT r)) = (if same then True else False)"
| "EQ_num G same (RInt l) (RInt r) = (if same then True else EqInt G l r)"
| "EQ_num G same (T_RAT nl dl) (T_RAT nr dr) = (if same then True else EqRat G (nl, dl) (nr, dr))"
| "EQ_num G same opL opR = (if same then True else False)"

fun LT_num :: "gmp \<Rightarrow> bool \<Rightarrow> gaprat \<Rightarrow> gaprat \<Rightarrow> bool" where
  "LT_num G same (RInt (T_INT l)) (RInt (T_INT r)) = (if same then False else sint l < sint r)"
| "LT_num G same (RInt l) (RInt r) = (if same then False else LtInt G l r)"
| "LT_num G same opL opR = (if same then False else LtRat G opL opR)"

text \<open>The common text of \<open>SumRat\<close> and \<open>DiffRat\<close>, which differ in the integer operation they call.\<close>

definition sum_like_rat :: "gmp \<Rightarrow> (gapint \<Rightarrow> gapint \<Rightarrow> gapint) \<Rightarrow> gaprat \<Rightarrow> gaprat \<Rightarrow> gaprat result" where
  "sum_like_rat G add opL opR =
     (let numL = operand_num opL; denL = operand_den opL; numR = operand_num opR; denR = operand_den opR;
          gcd1 = GcdInt G denL denR
      in rbind
        (if gcd1 = INTOBJ 1 then
           Inr (add (ProdInt G numL denR) (ProdInt G numR denL), ProdInt G denL denR)
         else
           rbind (QuoInt G denR gcd1) (\<lambda>qR. rbind (QuoInt G denL gcd1) (\<lambda>qL.
             let numS = add (ProdInt G numL qR) (ProdInt G numR qL);
                 gcd2 = GcdInt G numS gcd1
             in rbind (QuoInt G numS gcd2) (\<lambda>numS. rbind (QuoInt G denR gcd2) (\<lambda>qR.
                  Inr (numS, ProdInt G qL qR))))))
        (\<lambda>(numS, denS). Inr (make_rat numS denS)))"

definition SumRat :: "gmp \<Rightarrow> gaprat \<Rightarrow> gaprat \<Rightarrow> gaprat result" where
  "SumRat G opL opR = sum_like_rat G (SumInt G) opL opR"

definition DiffRat :: "gmp \<Rightarrow> gaprat \<Rightarrow> gaprat \<Rightarrow> gaprat result" where
  "DiffRat G opL opR = sum_like_rat G (DiffInt G) opL opR"

lemma compare_same [simp]: "EQ_num G True opL opR" "\<not> LT_num G True opL opR"
  by (cases "(G, True, opL, opR)" rule: EQ_num.cases; simp) (cases "(G, True, opL, opR)" rule: LT_num.cases; simp)

definition AInvRat :: "rat_bag \<Rightarrow> gaprat" where
  "AInvRat op = (let tmp = AInvInt (NUM_RAT op) in T_RAT tmp (DEN_RAT op))"

definition AbsRat :: "rat_bag \<Rightarrow> gaprat" where
  "AbsRat op =
     (let tmp = AbsInt (NUM_RAT op) in
      if tmp = NUM_RAT op then T_RAT (NUM_RAT op) (DEN_RAT op) else T_RAT tmp (DEN_RAT op))"

definition FuncABS_RAT :: "gaprat \<Rightarrow> gaprat" where
  "FuncABS_RAT op = (case op of T_RAT n d \<Rightarrow> AbsRat (n, d) | RInt x \<Rightarrow> RInt (AbsInt x))"

definition SignRat :: "rat_bag \<Rightarrow> gapint" where
  "SignRat op = SignInt (NUM_RAT op)"

definition FuncSIGN_RAT :: "gaprat \<Rightarrow> gapint" where
  "FuncSIGN_RAT op = (case op of T_RAT n d \<Rightarrow> SignRat (n, d) | RInt x \<Rightarrow> SignInt x)"

text \<open>The cancelling product that \<open>ProdRat\<close> and \<open>QuoRat\<close> form from two fractions.\<close>

definition prod_like_rat :: "gmp \<Rightarrow> gapint \<Rightarrow> gapint \<Rightarrow> gapint \<Rightarrow> gapint \<Rightarrow> gaprat result" where
  "prod_like_rat G numL denL numR denR =
     (let gcd1 = GcdInt G numL denR; gcd2 = GcdInt G numR denL
      in rbind
        (if gcd1 = INTOBJ 1 \<and> gcd2 = INTOBJ 1 then
           Inr (ProdInt G numL numR, ProdInt G denL denR)
         else
           rbind (QuoInt G numL gcd1) (\<lambda>a. rbind (QuoInt G numR gcd2) (\<lambda>b.
           rbind (QuoInt G denL gcd2) (\<lambda>c. rbind (QuoInt G denR gcd1) (\<lambda>d.
             Inr (ProdInt G a b, ProdInt G c d))))))
        (\<lambda>(numP, denP). Inr (make_rat numP denP)))"

definition ProdRat :: "gmp \<Rightarrow> gaprat \<Rightarrow> gaprat \<Rightarrow> gaprat result" where
  "ProdRat G opL opR = prod_like_rat G (operand_num opL) (operand_den opL) (operand_num opR) (operand_den opR)"

text \<open>The quotient multiplies by the right operand turned over, its sign moved upstairs.\<close>

definition QuoRat :: "gmp \<Rightarrow> gaprat \<Rightarrow> gaprat \<Rightarrow> gaprat result" where
  "QuoRat G opL opR =
     (let numR = operand_num opR; denR = operand_den opR
      in if numR = INTOBJ 0 then Inl ''Rational operations: <divisor> must not be zero''
         else
           let (numR, denR) = (if IS_NEG_INT numR then (AInvInt numR, AInvInt denR) else (numR, denR))
           in prod_like_rat G (operand_num opL) (operand_den opL) denR numR)"

definition InvRat :: "gmp \<Rightarrow> gaprat \<Rightarrow> gaprat option result" where
  "InvRat G op =
     (if op = RInt (INTOBJ 0) then Inr None
      else rbind (QuoRat G (RInt (INTOBJ 1)) op) (\<lambda>r. Inr (Some r)))"

definition ModRat :: "gmp \<Rightarrow> rat_bag \<Rightarrow> gapint \<Rightarrow> gapint result" where
  "ModRat G opL n =
     rbind (InverseModInt G (DEN_RAT opL) n) (\<lambda>d. case d of
       None \<Rightarrow> Inl ''ModRat: for <r>/<s> mod <n>, <s>/gcd(<r>,<s>) and <n> must be coprime''
     | Some d \<Rightarrow> ModInt G (ProdInt G (NUM_RAT opL) d) n)"

subsection \<open>Powers\<close>

text \<open>
  \<open>PowInt\<close>. In the branch of a negative exponent the recursive call has a base other than 0, 1, -1
  and a positive exponent, so it runs the squaring loop; \<open>QUO\<close> of two integers is \<open>QuoRat\<close>.
\<close>

definition PowInt :: "gmp \<Rightarrow> gapint \<Rightarrow> gapint \<Rightarrow> gaprat result" where
  "PowInt G opL opR =
     (if opR = INTOBJ 0 then Inr (RInt (INTOBJ 1))
      else if opL = INTOBJ 0 then
        (if IS_NEG_INT opR then Inl ''Integer operands: <base> must not be zero'' else Inr (RInt (INTOBJ 0)))
      else if opL = INTOBJ 1 then Inr (RInt (INTOBJ 1))
      else if opL = INTOBJ (-1) then Inr (RInt (if IS_EVEN_INT opR then INTOBJ 1 else INTOBJ (-1)))
      else case opR of
        T_INT w \<Rightarrow>
          if INT_INTOBJ w < 0 then
            QuoRat G (RInt (INTOBJ 1))
              (RInt (pow_int_loop G (INTOBJ 1) opL (nat (INT_INTOBJ (INTOBJ_INT (- INT_INTOBJ w))))))
          else Inr (RInt (pow_int_loop G (INTOBJ 1) opL (nat (INT_INTOBJ w))))
      | _ \<Rightarrow> Inl ''Integer operands: <exponent> is too large'')"

text \<open>An integer power of an integer to a nonnegative exponent, as \<open>PowRat\<close> uses it.\<close>

definition PowInt_int :: "gmp \<Rightarrow> gapint \<Rightarrow> gapint \<Rightarrow> gapint result" where
  "PowInt_int G opL opR = rbind (PowInt G opL opR) (\<lambda>r. case r of RInt z \<Rightarrow> Inr z
     | T_RAT n d \<Rightarrow> Inl ''PowRat: integer expected'')"

definition PowRat :: "gmp \<Rightarrow> gapint \<Rightarrow> gapint \<Rightarrow> gapint \<Rightarrow> gaprat result" where
  "PowRat G num den opR =
     (if opR = INTOBJ 0 then Inr (RInt (INTOBJ 1))
      else if opR = INTOBJ 1 then Inr (T_RAT num den)
      else if IS_POS_INT opR then
        rbind (PowInt_int G num opR) (\<lambda>numP. rbind (PowInt_int G den opR) (\<lambda>denP. Inr (T_RAT numP denP)))
      else if num = INTOBJ 1 then rbind (PowInt_int G den (AInvInt opR)) (\<lambda>p. Inr (RInt p))
      else if num = INTOBJ (-1) then
        rbind (PowInt_int G num (AInvInt opR)) (\<lambda>numP. rbind (PowInt_int G den (AInvInt opR)) (\<lambda>denP.
          Inr (RInt (ProdInt G numP denP))))
      else
        rbind (PowInt_int G den (AInvInt opR)) (\<lambda>numP. rbind (PowInt_int G num (AInvInt opR)) (\<lambda>denP.
          if IS_NEG_INT denP then Inr (T_RAT (AInvInt numP) (AInvInt denP)) else Inr (T_RAT numP denP))))"

subsection \<open>The invariant and the denotation\<close>

definition valid_rat :: "gaprat \<Rightarrow> bool" where
  "valid_rat r = (case r of RInt x \<Rightarrow> valid_int x
     | T_RAT n d \<Rightarrow> valid_int n \<and> valid_int d \<and> 1 < int_val d \<and> coprime (int_val n) (int_val d))"

definition rat_val :: "gaprat \<Rightarrow> rat" where
  "rat_val r = of_int (int_val (operand_num r)) / of_int (int_val (operand_den r))"

text \<open>Identical handles belong to one object, and an immediate integer has one handle only.\<close>

definition handles_ok :: "bool \<Rightarrow> gaprat \<Rightarrow> gaprat \<Rightarrow> bool" where
  "handles_ok same x y \<longleftrightarrow> (same \<longrightarrow> x = y) \<and> (x = y \<longrightarrow> (\<exists>w. x = RInt (T_INT w)) \<longrightarrow> same)"

lemma valid_rat_parts:
  assumes "valid_rat r"
  shows "valid_int (operand_num r)" "valid_int (operand_den r)" "0 < int_val (operand_den r)"
    "coprime (int_val (operand_num r)) (int_val (operand_den r))"
  using assms by (auto simp: valid_rat_def split: gaprat.splits)

lemma reduced_unique:
  fixes a b c d :: int
  assumes "0 < b" "0 < d" "coprime a b" "coprime c d" "(of_int a :: rat) / of_int b = of_int c / of_int d"
  shows "a = c \<and> b = d"
proof -
  have "quotient_of (Fract a b) = (a, b)" "quotient_of (Fract c d) = (c, d)"
    using assms(1-4) by (simp_all add: quotient_of_Fract normalize_stable)
  then show ?thesis using assms(5) by (simp add: Fract_of_int_quotient)
qed

lemma rat_val_inject:
  assumes x: "valid_rat x" and y: "valid_rat y"
  shows "rat_val x = rat_val y \<longleftrightarrow> x = y"
proof
  assume "rat_val x = rat_val y"
  then have "int_val (operand_num x) = int_val (operand_num y) \<and> int_val (operand_den x) = int_val (operand_den y)"
    unfolding rat_val_def
    by (intro reduced_unique valid_rat_parts(3,4) [OF x] valid_rat_parts(3,4) [OF y])
  then have "operand_num x = operand_num y" "operand_den x = operand_den y"
    using int_val_inject [OF valid_rat_parts(1) [OF x] valid_rat_parts(1) [OF y]]
      int_val_inject [OF valid_rat_parts(2) [OF x] valid_rat_parts(2) [OF y]] by simp_all
  then show "x = y" using x y by (cases x; cases y) (auto simp: valid_rat_def)
qed simp

lemma make_rat_correct:
  assumes "valid_int n" "valid_int d" "0 < int_val d" "coprime (int_val n) (int_val d)"
  shows "valid_rat (make_rat n d) \<and> rat_val (make_rat n d) = of_int (int_val n) / of_int (int_val d)"
  using assms INTOBJ_eq_iff [OF assms(2), of 1] by (auto simp: make_rat_def valid_rat_def rat_val_def)

subsection \<open>Arithmetic of reduced fractions\<close>

lemma sdiv_exact: "0 < (g :: int) \<Longrightarrow> g dvd a \<Longrightarrow> a sdiv g = a div g"
proof -
  assume g: "0 < g" "g dvd a"
  then obtain c where c: "a = g * c" by blast
  have "\<bar>a\<bar> div g = \<bar>c\<bar>" "sgn a = sgn c" using g by (simp_all add: c abs_mult sgn_mult)
  then show ?thesis using g by (simp add: signed_divide_int_def c sgn_mult_abs)
qed

lemma coprime_shift: "coprime x m \<Longrightarrow> coprime (x + k * m) m" for x m k :: int
  by (metis add.commute coprime_iff_gcd_eq_1 gcd.commute gcd_add_mult)

text \<open>The sum of two reduced fractions, with the two gcds taken out as the code does.\<close>

lemma reduced_sum:
  fixes nL dL nR dR :: int
  assumes d: "0 < dL" "0 < dR" and cop: "coprime nL dL" "coprime nR dR"
  defines "g1 \<equiv> gcd dL dR"
  defines "t \<equiv> nL * (dR div g1) + nR * (dL div g1)"
  defines "g2 \<equiv> gcd t g1"
  shows "0 < (dL div g1) * (dR div g2)" "coprime (t div g2) ((dL div g1) * (dR div g2))"
    "(of_int (t div g2) :: rat) / of_int ((dL div g1) * (dR div g2)) = of_int nL / of_int dL + of_int nR / of_int dR"
proof -
  define a where "a = dL div g1"
  define b where "b = dR div g1"
  have g1: "0 < g1" using d by (simp add: g1_def)
  have ab: "dL = a * g1" "dR = b * g1" "0 < a" "0 < b"
    using d g1 by (auto simp: a_def b_def g1_def pos_imp_zdiv_pos_iff zdvd_imp_le)
  have "coprime a b" unfolding a_def b_def g1_def using d by (intro div_gcd_coprime) auto
  have g2: "0 < g2" "g2 dvd g1" "g2 dvd t" using g1 by (auto simp: g2_def)
  define h where "h = g1 div g2"
  have h: "g1 = h * g2" "0 < h" using g2 g1 by (auto simp: h_def pos_imp_zdiv_pos_iff zdvd_imp_le)
  define u where "u = t div g2"
  have u: "t = u * g2" using g2 by (simp add: u_def)
  have t: "t = nL * b + nR * a" by (simp add: t_def a_def b_def)
  have "coprime nL a" "coprime nR b" using cop ab by auto
  then have "coprime t a" "coprime t b"
    using \<open>coprime a b\<close>
      coprime_shift [of "nL * b" a nR] coprime_shift [of "nR * a" b nL] by (simp_all add: t ac_simps)
  then have "coprime u a" "coprime u b" using u by auto
  moreover have "coprime u h" unfolding u_def h_def g2_def using g1 by (intro div_gcd_coprime) auto
  moreover have den: "dR div g2 = b * h" using ab(2) h(1) g2(1) by simp
  ultimately show "coprime (t div g2) ((dL div g1) * (dR div g2))"
    unfolding a_def [symmetric] u_def [symmetric] den by simp
  show "0 < (dL div g1) * (dR div g2)" unfolding a_def [symmetric] den using ab h by simp
  have "(of_int u :: rat) / of_int (a * (b * h)) = of_int (u * g2) / of_int (a * b * g1)"
    using g2(1) h by simp
  also have "\<dots> = of_int (nL * b + nR * a) / of_int (a * b * g1)" using u t by simp
  also have "\<dots> = of_int nL / of_int dL + of_int nR / of_int dR"
    using ab g1 by (simp add: field_simps)
  finally show "(of_int (t div g2) :: rat) / of_int ((dL div g1) * (dR div g2)) = of_int nL / of_int dL + of_int nR / of_int dR"
    unfolding a_def [symmetric] u_def [symmetric] den .
qed

lemma reduced_prod:
  fixes nL dL nR dR :: int
  assumes d: "0 < dL" "0 < dR" and cop: "coprime nL dL" "coprime nR dR"
  defines "g1 \<equiv> gcd nL dR" and "g2 \<equiv> gcd nR dL"
  shows "0 < (dL div g2) * (dR div g1)" "coprime ((nL div g1) * (nR div g2)) ((dL div g2) * (dR div g1))"
    "(of_int ((nL div g1) * (nR div g2)) :: rat) / of_int ((dL div g2) * (dR div g1)) =
      (of_int nL / of_int dL) * (of_int nR / of_int dR)"
proof -
  define a b where "a = nL div g1" and "b = dR div g1"
  define c e where "c = nR div g2" and "e = dL div g2"
  have g: "0 < g1" "0 < g2" using d by (auto simp: g1_def g2_def)
  have eqs: "nL = a * g1" "dR = b * g1" "nR = c * g2" "dL = e * g2"
    by (auto simp: a_def b_def c_def e_def g1_def g2_def)
  have pos: "0 < b" "0 < e" using d eqs g by (auto simp: zero_less_mult_iff)
  have "coprime a b" "coprime c e" unfolding a_def b_def c_def e_def g1_def g2_def
    using d by (auto intro!: div_gcd_coprime)
  moreover have "coprime a e" "coprime c b" using cop unfolding eqs by auto
  ultimately show "coprime ((nL div g1) * (nR div g2)) ((dL div g2) * (dR div g1))"
    unfolding a_def [symmetric] b_def [symmetric] c_def [symmetric] e_def [symmetric] by simp
  show "0 < (dL div g2) * (dR div g1)"
    unfolding b_def [symmetric] e_def [symmetric] using pos by simp
  show "(of_int ((nL div g1) * (nR div g2)) :: rat) / of_int ((dL div g2) * (dR div g1)) =
      (of_int nL / of_int dL) * (of_int nR / of_int dR)"
    unfolding a_def [symmetric] b_def [symmetric] c_def [symmetric] e_def [symmetric]
    using g pos by (simp add: eqs field_simps)
qed

subsection \<open>Correctness of the operations\<close>

context gmp_contract
begin

text \<open>Exact quotients by a gcd.\<close>

lemma QuoInt_exact:
  assumes "valid_int x" "valid_int g" "0 < int_val g" "int_val g dvd int_val x"
  shows "\<exists>q. QuoInt G x g = Inr q \<and> valid_int q \<and> int_val q = int_val x div int_val g"
  using QuoInt_correct [OF assms(1,2)] assms(3) sdiv_exact [OF assms(3,4)] by auto

lemma sum_like_rat_correct:
  assumes x: "valid_rat x" and y: "valid_rat y"
    and add: "\<And>a b. valid_int a \<Longrightarrow> valid_int b \<Longrightarrow> valid_int (f a b) \<and> int_val (f a b) = int_val a + s * int_val b"
    and s: "s = 1 \<or> s = -1"
  shows "\<exists>z. sum_like_rat G f x y = Inr z \<and> valid_rat z \<and> rat_val z = rat_val x + of_int s * rat_val y"
proof -
  define nL dL nR dR where "nL = operand_num x" and "dL = operand_den x" and "nR = operand_num y" and "dR = operand_den y"
  have v: "valid_int nL" "valid_int dL" "valid_int nR" "valid_int dR" "0 < int_val dL" "0 < int_val dR"
      "coprime (int_val nL) (int_val dL)" "coprime (s * int_val nR) (int_val dR)"
    using valid_rat_parts [OF x] valid_rat_parts [OF y] s by (auto simp: nL_def dL_def nR_def dR_def)
  define g where "g = GcdInt G dL dR"
  have g: "valid_int g" "int_val g = gcd (int_val dL) (int_val dR)" "0 < int_val g"
    using GcdInt_correct [OF v(2,4)] v(5) by (auto simp: g_def)
  note red = reduced_sum [OF v(5-8), folded g(2)]
  have goal: "\<exists>z. rbind (Inr (n, d)) (\<lambda>(n, d). Inr (make_rat n d)) = Inr z \<and> valid_rat z \<and>
      rat_val z = rat_val x + of_int s * rat_val y"
    if "valid_int n" "valid_int d" "0 < int_val d" "coprime (int_val n) (int_val d)"
      "(of_int (int_val n) :: rat) / of_int (int_val d) =
        of_int (int_val nL) / of_int (int_val dL) + of_int (s * int_val nR) / of_int (int_val dR)" for n d
    using make_rat_correct [OF that(1-4)] that(5)
    by (simp add: rat_val_def nL_def dL_def nR_def dR_def)
  show ?thesis
  proof (cases "g = INTOBJ 1")
    case True
    then have g1: "int_val g = 1" by simp
    let ?n = "f (ProdInt G nL dR) (ProdInt G nR dL)" and ?d = "ProdInt G dL dR"
    have n: "valid_int ?n" "int_val ?n = int_val nL * int_val dR + s * int_val nR * int_val dL"
      using add [of "ProdInt G nL dR" "ProdInt G nR dL"] ProdInt_correct v by (auto simp: mult.assoc)
    have d: "valid_int ?d" "int_val ?d = int_val dL * int_val dR" using ProdInt_correct v by auto
    have "sum_like_rat G f x y = rbind (Inr (?n, ?d)) (\<lambda>(n, d). Inr (make_rat n d))"
      using True by (simp add: sum_like_rat_def nL_def dL_def nR_def dR_def g_def Let_def)
    then show ?thesis using goal [OF n(1) d(1)] red n(2) d(2) by (simp add: g1)
  next
    case False
    obtain qR qL where q: "QuoInt G dR g = Inr qR" "valid_int qR" "int_val qR = int_val dR div int_val g"
        "QuoInt G dL g = Inr qL" "valid_int qL" "int_val qL = int_val dL div int_val g"
      using QuoInt_exact [OF v(4) g(1,3)] QuoInt_exact [OF v(2) g(1,3)] g(2) by auto
    define t where "t = f (ProdInt G nL qR) (ProdInt G nR qL)"
    have t: "valid_int t" "int_val t = int_val nL * (int_val dR div int_val g) + s * int_val nR * (int_val dL div int_val g)"
      using add [of "ProdInt G nL qR" "ProdInt G nR qL"] ProdInt_correct v q by (auto simp: t_def mult.assoc)
    define h where "h = GcdInt G t g"
    have h: "valid_int h" "int_val h = gcd (int_val t) (int_val g)" "0 < int_val h"
      using GcdInt_correct [OF t(1) g(1)] g(3) by (auto simp: h_def)
    have "int_val h dvd int_val dR" using h(2) g(2) by (metis dvd_trans gcd_dvd2)
    then obtain n r where nr: "QuoInt G t h = Inr n" "valid_int n" "int_val n = int_val t div int_val h"
        "QuoInt G dR h = Inr r" "valid_int r" "int_val r = int_val dR div int_val h"
      using QuoInt_exact [OF t(1) h(1,3)] QuoInt_exact [OF v(4) h(1,3)] h(2) by auto
    have d: "valid_int (ProdInt G qL r)" "int_val (ProdInt G qL r) = (int_val dL div int_val g) * (int_val dR div int_val h)"
      using ProdInt_correct [OF q(5) nr(5)] q(6) nr(6) by auto
    have "sum_like_rat G f x y = rbind (Inr (n, ProdInt G qL r)) (\<lambda>(n, d). Inr (make_rat n d))"
      using False q nr by (simp add: sum_like_rat_def nL_def dL_def nR_def dR_def g_def Let_def t_def h_def)
    then show ?thesis using goal [OF nr(2) d(1)] red nr(3) d(2) unfolding h(2) t(2) by simp
  qed
qed

lemma SumRat_correct:
  assumes "valid_rat x" "valid_rat y"
  shows "\<exists>z. SumRat G x y = Inr z \<and> valid_rat z \<and> rat_val z = rat_val x + rat_val y"
  using sum_like_rat_correct [OF assms, of "SumInt G" 1] SumInt_correct by (simp add: SumRat_def)

lemma DiffRat_correct:
  assumes "valid_rat x" "valid_rat y"
  shows "\<exists>z. DiffRat G x y = Inr z \<and> valid_rat z \<and> rat_val z = rat_val x - rat_val y"
  using sum_like_rat_correct [OF assms, of "DiffInt G" "-1"] DiffInt_correct by (simp add: DiffRat_def)

lemma prod_like_rat_correct:
  assumes v: "valid_int nL" "valid_int dL" "valid_int nR" "valid_int dR" "0 < int_val dL" "0 < int_val dR"
      "coprime (int_val nL) (int_val dL)" "coprime (int_val nR) (int_val dR)"
  shows "\<exists>z. prod_like_rat G nL dL nR dR = Inr z \<and> valid_rat z \<and>
    rat_val z = (of_int (int_val nL) / of_int (int_val dL)) * (of_int (int_val nR) / of_int (int_val dR))"
proof -
  define g where "g = GcdInt G nL dR"
  define h where "h = GcdInt G nR dL"
  have g: "valid_int g" "int_val g = gcd (int_val nL) (int_val dR)" "0 < int_val g"
    using GcdInt_correct [OF v(1,4)] v(6) by (auto simp: g_def)
  have h: "valid_int h" "int_val h = gcd (int_val nR) (int_val dL)" "0 < int_val h"
    using GcdInt_correct [OF v(3,2)] v(5) by (auto simp: h_def)
  note red = reduced_prod [OF v(5-8), folded g(2) h(2)]
  show ?thesis
  proof (cases "g = INTOBJ 1 \<and> h = INTOBJ 1")
    case True
    then have "prod_like_rat G nL dL nR dR = Inr (make_rat (ProdInt G nL nR) (ProdInt G dL dR))"
      by (simp add: prod_like_rat_def Let_def g_def h_def)
    then show ?thesis using True red make_rat_correct [of "ProdInt G nL nR" "ProdInt G dL dR"]
        ProdInt_correct [OF v(1,3)] ProdInt_correct [OF v(2,4)] by simp
  next
    case False
    obtain a b c d where q: "QuoInt G nL g = Inr a" "valid_int a" "int_val a = int_val nL div int_val g"
        "QuoInt G nR h = Inr b" "valid_int b" "int_val b = int_val nR div int_val h"
        "QuoInt G dL h = Inr c" "valid_int c" "int_val c = int_val dL div int_val h"
        "QuoInt G dR g = Inr d" "valid_int d" "int_val d = int_val dR div int_val g"
      using QuoInt_exact [OF v(1) g(1,3)] QuoInt_exact [OF v(3) h(1,3)]
        QuoInt_exact [OF v(2) h(1,3)] QuoInt_exact [OF v(4) g(1,3)] g(2) h(2) by auto
    then have "prod_like_rat G nL dL nR dR = Inr (make_rat (ProdInt G a b) (ProdInt G c d))"
      using False by (auto simp: prod_like_rat_def Let_def g_def h_def)
    then show ?thesis using red make_rat_correct [of "ProdInt G a b" "ProdInt G c d"]
        ProdInt_correct [OF q(2,5)] ProdInt_correct [OF q(8,11)] q(3,6,9,12) by simp
  qed
qed

lemma ProdRat_correct:
  assumes "valid_rat x" "valid_rat y"
  shows "\<exists>z. ProdRat G x y = Inr z \<and> valid_rat z \<and> rat_val z = rat_val x * rat_val y"
  using prod_like_rat_correct valid_rat_parts [OF assms(1)] valid_rat_parts [OF assms(2)]
  by (simp add: ProdRat_def rat_val_def)

lemma QuoRat_correct:
  assumes x: "valid_rat x" and y: "valid_rat y" and nz: "rat_val y \<noteq> 0"
  shows "\<exists>z. QuoRat G x y = Inr z \<and> valid_rat z \<and> rat_val z = rat_val x / rat_val y"
proof -
  note px = valid_rat_parts [OF x] and py = valid_rat_parts [OF y]
  have n0: "int_val (operand_num y) \<noteq> 0" using nz by (simp add: rat_val_def)
  then have "operand_num y \<noteq> INTOBJ 0" using INTOBJ_eq_iff [OF py(1), of 0] by simp
  then have eq: "QuoRat G x y = (if IS_NEG_INT (operand_num y)
      then prod_like_rat G (operand_num x) (operand_den x) (AInvInt (operand_den y)) (AInvInt (operand_num y))
      else prod_like_rat G (operand_num x) (operand_den x) (operand_den y) (operand_num y))"
    by (simp add: QuoRat_def Let_def)
  show ?thesis
  proof (cases "int_val (operand_num y) < 0")
    case True
    then show ?thesis
      using prod_like_rat_correct [OF px(1,2), of "AInvInt (operand_den y)" "AInvInt (operand_num y)"]
        AInvInt_correct [OF py(1)] AInvInt_correct [OF py(2)] px(3,4) py(4) IS_NEG_INT_iff [OF py(1)] eq
      by (simp add: rat_val_def coprime_commute)
  next
    case False
    then show ?thesis
      using prod_like_rat_correct [OF px(1,2) py(2,1)] px(3,4) py(4) n0 IS_NEG_INT_iff [OF py(1)] eq
      by (simp add: rat_val_def coprime_commute)
  qed
qed

lemma QuoRat_by_zero:
  assumes "valid_rat y" "rat_val y = 0"
  shows "\<exists>e. QuoRat G x y = Inl e"
proof -
  have "int_val (operand_num y) = 0" using assms valid_rat_parts [OF assms(1)] by (simp add: rat_val_def)
  then have "operand_num y = INTOBJ 0" using INTOBJ_eq_iff [of "operand_num y" 0] valid_rat_parts [OF assms(1)] by simp
  then show ?thesis by (simp add: QuoRat_def)
qed

lemma LtRat_correct:
  assumes x: "valid_rat x" and y: "valid_rat y"
  shows "LtRat G x y \<longleftrightarrow> rat_val x < rat_val y"
proof -
  note px = valid_rat_parts [OF x] and py = valid_rat_parts [OF y]
  have "LtRat G x y \<longleftrightarrow> int_val (operand_num x) * int_val (operand_den y) < int_val (operand_num y) * int_val (operand_den x)"
    using LtInt_correct ProdInt_correct [OF px(1) py(2)] ProdInt_correct [OF py(1) px(2)] by (simp add: LtRat_def)
  also have "\<dots> \<longleftrightarrow> (of_int (int_val (operand_num x)) * of_int (int_val (operand_den y)) :: rat) <
      of_int (int_val (operand_num y)) * of_int (int_val (operand_den x))"
    by (simp flip: of_int_mult)
  also have "\<dots> \<longleftrightarrow> rat_val x < rat_val y"
    using px(3) py(3) by (simp add: rat_val_def field_simps)
  finally show ?thesis .
qed

lemma EqRat_correct:
  assumes x: "valid_rat (T_RAT nL dL)" and y: "valid_rat (T_RAT nR dR)"
  shows "EqRat G (nL, dL) (nR, dR) \<longleftrightarrow> rat_val (T_RAT nL dL) = rat_val (T_RAT nR dR)"
proof -
  have v: "valid_int nL" "valid_int dL" "valid_int nR" "valid_int dR" using x y by (auto simp: valid_rat_def)
  have "EqRat G (nL, dL) (nR, dR) \<longleftrightarrow> nL = nR \<and> dL = dR"
    using EqInt_correct [OF v(1,3)] EqInt_correct [OF v(2,4)] int_val_inject [OF v(1,3)] int_val_inject [OF v(2,4)]
    by (simp add: EqRat_def)
  then show ?thesis using rat_val_inject [OF x y] by simp
qed

lemma EQ_num_correct:
  assumes "valid_rat x" "valid_rat y" "handles_ok same x y"
  shows "EQ_num G same x y \<longleftrightarrow> rat_val x = rat_val y"
proof -
  note inj = rat_val_inject [OF assms(1,2)]
  show ?thesis
  proof (cases same)
    case True
    then have "x = y" using assms(3) by (simp add: handles_ok_def)
    moreover have "EQ_num G True x y" by (cases "(G, True, x, y)" rule: EQ_num.cases) simp_all
    ultimately show ?thesis using True inj by simp
  next
    case False
    have ints: "EqInt G a b \<longleftrightarrow> a = b" if "x = RInt a" "y = RInt b" for a b
      using that assms(1,2) EqInt_correct [of a b] int_val_inject [of a b] by (simp add: valid_rat_def)
    have bags: "EqRat G (a, b) (c, d) \<longleftrightarrow> a = c \<and> b = d" if "x = T_RAT a b" "y = T_RAT c d" for a b c d
      using that assms(1,2) EqRat_correct [of a b c d] inj by simp
    show ?thesis
      using False assms(3) ints bags unfolding inj
      by (cases "(G, same, x, y)" rule: EQ_num.cases) (auto simp: handles_ok_def)
  qed
qed

lemma LT_num_correct:
  assumes "valid_rat x" "valid_rat y" "handles_ok same x y"
  shows "LT_num G same x y \<longleftrightarrow> rat_val x < rat_val y"
proof (cases same)
  case True
  then have "x = y" using assms(3) by (simp add: handles_ok_def)
  moreover have "\<not> LT_num G True x y" by (cases "(G, True, x, y)" rule: LT_num.cases) simp_all
  ultimately show ?thesis using True by simp
next
  case False
  have ints: "LtInt G a b \<longleftrightarrow> rat_val x < rat_val y" if "x = RInt a" "y = RInt b" for a b
    using that assms(1,2) LtInt_correct [of a b] by (simp add: valid_rat_def rat_val_def)
  have small: "sint l < sint r \<longleftrightarrow> rat_val x < rat_val y" if "x = RInt (T_INT l)" "y = RInt (T_INT r)" for l r
    using ints [OF that] by (simp add: LtInt_def)
  show ?thesis
    using False ints small LtRat_correct [OF assms(1,2)] by (cases "(G, same, x, y)" rule: LT_num.cases) auto
qed

end

lemma AInvRat_correct:
  "valid_rat (T_RAT n d) \<Longrightarrow> valid_rat (AInvRat (n, d)) \<and> rat_val (AInvRat (n, d)) = - rat_val (T_RAT n d)"
  using AInvInt_correct by (auto simp: AInvRat_def Let_def valid_rat_def rat_val_def)

lemma FuncABS_RAT_correct:
  assumes "valid_rat x"
  shows "valid_rat (FuncABS_RAT x) \<and> rat_val (FuncABS_RAT x) = \<bar>rat_val x\<bar>"
proof (cases x)
  case (RInt n)
  then show ?thesis using assms AbsInt_correct by (auto simp: FuncABS_RAT_def valid_rat_def rat_val_def)
next
  case (T_RAT n d)
  then have "valid_int n" "1 < int_val d" using assms by (simp_all add: valid_rat_def)
  note AbsInt_correct [OF this(1)] this
  then show ?thesis using assms
    by (auto simp: T_RAT FuncABS_RAT_def AbsRat_def valid_rat_def rat_val_def Let_def abs_divide)
qed

lemma of_int_sgn_rat: "(of_int (sgn n) :: rat) = sgn (of_int n)"
  by (auto simp: sgn_if)

lemma FuncSIGN_RAT_correct:
  "valid_rat x \<Longrightarrow> valid_int (FuncSIGN_RAT x) \<and> of_int (int_val (FuncSIGN_RAT x)) = sgn (rat_val x)"
  using valid_rat_parts [of x] SignInt_correct [of "operand_num x"]
  by (cases x) (simp_all add: FuncSIGN_RAT_def SignRat_def rat_val_def of_int_sgn_rat)

text \<open>A word above the immediate range still holds the negated smallest exponent.\<close>

lemma INT_INTOBJ_negated:
  assumes "valid_intobj w" "INT_INTOBJ w < 0"
  shows "INT_INTOBJ (INTOBJ_INT (- INT_INTOBJ w)) = - INT_INTOBJ w"
proof -
  have "- (2 ^ 60) \<le> INT_INTOBJ w" using valid_intobj_bounds [OF assms(1)] by simp
  then have "sint (INTOBJ_INT (- INT_INTOBJ w)) = 4 * (- INT_INTOBJ w) + 1"
    unfolding INTOBJ_INT_word using assms(2) by (intro sint_word_of_int_UInt) auto
  then show ?thesis by (simp add: INT_INTOBJ_div)
qed

context gmp_contract
begin

lemma CHECK_RAT_correct: "valid_rat x \<Longrightarrow> CHECK_RAT G x"
  using LtInt_correct [of "INTOBJ 1"] GcdInt_correct INTOBJ_eq_iff [of "GcdInt G _ _" 1]
  by (cases x) (auto simp: CHECK_RAT_def valid_rat_def coprime_iff_gcd_eq_1)

lemma InvRat_correct:
  assumes "valid_rat x"
  shows "if rat_val x = 0 then InvRat G x = Inr None
    else \<exists>z. InvRat G x = Inr (Some z) \<and> valid_rat z \<and> rat_val z = inverse (rat_val x)"
proof -
  have z: "valid_rat (RInt (INTOBJ 0))" "rat_val (RInt (INTOBJ 0)) = 0"
    and o: "valid_rat (RInt (INTOBJ 1))" "rat_val (RInt (INTOBJ 1)) = 1"
    by (simp_all add: valid_rat_def rat_val_def)
  show ?thesis using rat_val_inject [OF assms z(1)] z(2) QuoRat_correct [OF o(1) assms] o(2)
    by (auto simp: InvRat_def divide_inverse)
qed

lemma ModRat_correct:
  assumes x: "valid_rat (T_RAT r s)" and n: "valid_int n" and "int_val n \<noteq> 0" and cop: "coprime (int_val s) (int_val n)"
  shows "\<exists>z. ModRat G (r, s) n = Inr z \<and> valid_int z \<and> 0 \<le> int_val z \<and> int_val z < \<bar>int_val n\<bar> \<and>
    (int_val s * int_val z) mod \<bar>int_val n\<bar> = int_val r mod \<bar>int_val n\<bar>"
proof -
  have px: "valid_int r" "valid_int s" using x by (simp_all add: valid_rat_def)
  let ?m = "\<bar>int_val n\<bar>" and ?d = "int_val s" and ?p = "int_val r"
  obtain u where u: "InverseModInt G s n = Inr (Some u)" "valid_int u" "(?d * int_val u) mod ?m = 1 mod ?m"
    using InverseModInt_correct [OF px(2) n assms(3)] cop by auto
  note pr = ProdInt_correct [OF px(1) u(2)]
  obtain z where z: "ModInt G (ProdInt G r u) n = Inr z" "valid_int z" "int_val z = (?p * int_val u) mod ?m"
    using ModInt_correct [of "ProdInt G r u" n] pr n assms(3) by auto
  have "(?d * int_val z) mod ?m = (?p * (?d * int_val u)) mod ?m"
    by (simp add: z(3) mod_mult_right_eq ac_simps)
  also have "\<dots> = (?p * ((?d * int_val u) mod ?m)) mod ?m" by (simp add: mod_mult_right_eq)
  also have "\<dots> = ?p mod ?m" unfolding u(3) by (simp add: mod_mult_right_eq)
  finally show ?thesis using u(1) z assms(3) by (auto simp: ModRat_def)
qed

lemma ModRat_not_coprime:
  assumes "valid_rat (T_RAT r s)" "valid_int n" "int_val n \<noteq> 0" "\<not> coprime (int_val s) (int_val n)"
  shows "\<exists>e. ModRat G (r, s) n = Inl e"
  using assms InverseModInt_correct [of s n] by (simp add: ModRat_def valid_rat_def)

lemma PowInt_correct:
  assumes x: "valid_int x" and e: "valid_int e"
    and ok: "int_val x = 0 \<longrightarrow> 0 \<le> int_val e" "IS_SMALL e \<or> \<bar>int_val x\<bar> \<le> 1"
  shows "\<exists>z. PowInt G x e = Inr z \<and> valid_rat z \<and> rat_val z = of_int (int_val x) powi int_val e \<and>
    (0 \<le> int_val e \<longrightarrow> (\<exists>n. z = RInt n))"
proof -
  note ex = INTOBJ_eq_iff [OF x] and ee = INTOBJ_eq_iff [OF e]
  consider (e0) "int_val e = 0" | (x0) "int_val e > 0" "int_val x = 0" | (x1) "int_val e \<noteq> 0" "int_val x = 1"
    | (xm) "int_val e \<noteq> 0" "int_val x = -1"
    | (gen) w where "int_val e \<noteq> 0" "2 \<le> \<bar>int_val x\<bar>" "e = T_INT w"
    using ok by (cases e) force+
  then show ?thesis
  proof cases
    case e0
    then show ?thesis using ee by (simp add: PowInt_def valid_rat_def rat_val_def)
  next
    case x0
    then show ?thesis using ex ee IS_NEG_INT_iff [OF e] by (simp add: PowInt_def valid_rat_def rat_val_def)
  next
    case x1
    then show ?thesis using ex ee by (simp add: PowInt_def valid_rat_def rat_val_def)
  next
    case xm
    then show ?thesis using ex ee IS_ODD_INT_correct [OF e]
      by (auto simp: PowInt_def valid_rat_def rat_val_def IS_EVEN_INT_def power_int_minus_one_minus)
  next
    case gen
    have neq: "x \<noteq> INTOBJ 0" "x \<noteq> INTOBJ 1" "x \<noteq> INTOBJ (-1)" "e \<noteq> INTOBJ 0" using gen ex ee by auto
    note loop = pow_int_loop_correct [of "INTOBJ 1" x]
    show ?thesis
    proof (cases "INT_INTOBJ w < 0")
      case False
      then show ?thesis using neq gen(3) loop x
        by (simp add: PowInt_def valid_rat_def rat_val_def power_int_def)
    next
      case True
      define p where "p = pow_int_loop G (INTOBJ 1) x (nat (- INT_INTOBJ w))"
      have p: "valid_rat (RInt p)" "rat_val (RInt p) = of_int (int_val x) ^ nat (- INT_INTOBJ w)"
        using loop x by (simp_all add: p_def valid_rat_def rat_val_def)
      have o: "valid_rat (RInt (INTOBJ 1))" "rat_val (RInt (INTOBJ 1)) = 1"
        by (simp_all add: valid_rat_def rat_val_def)
      have "PowInt G x e = QuoRat G (RInt (INTOBJ 1)) (RInt p)"
        using neq gen(3) True e INT_INTOBJ_negated [of w] by (simp add: PowInt_def p_def)
      moreover have "rat_val (RInt p) \<noteq> 0" using p(2) gen(2) by auto
      ultimately show ?thesis using QuoRat_correct [OF o(1) p(1)] p(2) o(2) True gen(3)
        by (simp add: power_int_def power_inverse divide_inverse)
    qed
  qed
qed

lemma PowInt_errors:
  assumes x: "valid_int x" and e: "valid_int e"
    and bad: "int_val x = 0 \<and> int_val e < 0 \<or> \<not> IS_SMALL e \<and> 1 < \<bar>int_val x\<bar>"
  shows "\<exists>msg. PowInt G x e = Inl msg"
proof (cases "int_val x = 0")
  case True
  then show ?thesis using bad INTOBJ_eq_iff [OF x] INTOBJ_eq_iff [OF e] IS_NEG_INT_iff [OF e]
    by (auto simp: PowInt_def)
next
  case False
  then have "x \<noteq> INTOBJ 0" "x \<noteq> INTOBJ 1" "x \<noteq> INTOBJ (-1)" "e \<noteq> INTOBJ 0"
    using bad INTOBJ_eq_iff [OF x] by auto
  then show ?thesis using False bad by (cases e) (auto simp: PowInt_def)
qed

lemma PowInt_int_correct:
  assumes "valid_int x" "valid_int e" "0 < int_val e" "IS_SMALL e \<or> \<bar>int_val x\<bar> \<le> 1"
  shows "\<exists>z. PowInt_int G x e = Inr z \<and> valid_int z \<and> int_val z = int_val x ^ nat (int_val e)"
proof -
  obtain n where n: "PowInt G x e = Inr (RInt n)" "valid_int n" "rat_val (RInt n) = of_int (int_val x) powi int_val e"
    using PowInt_correct [OF assms(1,2)] assms(3,4) by (auto simp: valid_rat_def)
  have "(of_int (int_val n) :: rat) = of_int (int_val x ^ nat (int_val e))"
    using n(3) assms(3) by (simp add: rat_val_def power_int_def)
  then show ?thesis using n(1,2) by (simp add: PowInt_int_def)
qed

lemma PowRat_correct:
  assumes x: "valid_rat (T_RAT n d)" and e: "valid_int e" and small: "IS_SMALL (AInvInt e)" "IS_SMALL e"
  shows "\<exists>z. PowRat G n d e = Inr z \<and> valid_rat z \<and> rat_val z = rat_val (T_RAT n d) powi int_val e"
proof -
  have v: "valid_int n" "valid_int d" "1 < int_val d" "coprime (int_val n) (int_val d)" "int_val n \<noteq> 0"
    using x by (auto simp: valid_rat_def)
  have val: "rat_val (T_RAT n d) = of_int (int_val n) / of_int (int_val d)" by (simp add: rat_val_def)
  note ee = INTOBJ_eq_iff [OF e] and en = INTOBJ_eq_iff [OF v(1)] and ne = AInvInt_correct [OF e]
  consider (zero) "int_val e = 0" | (one) "int_val e = 1" | (pos) "1 < int_val e" | (neg) "int_val e < 0" by linarith
  then show ?thesis
  proof cases
    case zero
    then show ?thesis using ee by (simp add: PowRat_def valid_rat_def rat_val_def)
  next
    case one
    then show ?thesis using ee x by (simp add: PowRat_def)
  next
    case pos
    let ?k = "nat (int_val e)"
    obtain p q where p: "PowInt_int G n e = Inr p" "valid_int p" "int_val p = int_val n ^ ?k"
        and q: "PowInt_int G d e = Inr q" "valid_int q" "int_val q = int_val d ^ ?k"
      using PowInt_int_correct [OF v(1) e] PowInt_int_correct [OF v(2) e] pos small by auto
    have "1 < int_val d ^ ?k" using v(3) pos by (intro one_less_power) auto
    then have "valid_rat (T_RAT p q)" using p q v(4) by (simp add: valid_rat_def)
    moreover have "PowRat G n d e = Inr (T_RAT p q)"
      using pos ee IS_POS_INT_iff [OF e] p q by (auto simp: PowRat_def)
    ultimately show ?thesis using pos p(3) q(3)
      by (simp add: val rat_val_def power_int_def power_divide)
  next
    case neg
    let ?k = "nat (- int_val e)"
    have k: "0 < ?k" using neg by simp
    obtain p q where p: "PowInt_int G n (AInvInt e) = Inr p" "valid_int p" "int_val p = int_val n ^ ?k"
        and q: "PowInt_int G d (AInvInt e) = Inr q" "valid_int q" "int_val q = int_val d ^ ?k"
      using PowInt_int_correct [OF v(1), of "AInvInt e"] PowInt_int_correct [OF v(2), of "AInvInt e"] ne neg small by auto
    have pw: "rat_val (T_RAT n d) powi int_val e = of_int (int_val d) ^ ?k / of_int (int_val n) ^ ?k"
      using neg by (simp add: val power_int_def power_divide)
    have br: "e \<noteq> INTOBJ 0" "e \<noteq> INTOBJ 1" "\<not> IS_POS_INT e" using neg ee IS_POS_INT_iff [OF e] by auto
    consider "int_val n = 1" | "int_val n = -1" | "2 \<le> \<bar>int_val n\<bar>" using v(5) by linarith
    then show ?thesis
    proof cases
      case 1
      then show ?thesis using br en q pw by (simp add: PowRat_def valid_rat_def rat_val_def)
    next
      case 2
      then show ?thesis using br en p q pw ProdInt_correct [OF p(2) q(2)]
        by (auto simp: PowRat_def valid_rat_def rat_val_def minus_one_power_iff)
    next
      case 3
      have big: "1 < \<bar>int_val p\<bar>" unfolding p(3) power_abs using 3 k by (intro one_less_power) auto
      have cop: "coprime (int_val q) (int_val p)" unfolding p(3) q(3) using v(4) by (simp add: coprime_commute)
      have "n \<noteq> INTOBJ 1" "n \<noteq> INTOBJ (-1)" using 3 en by auto
      then have eq: "PowRat G n d e = Inr (if IS_NEG_INT p then T_RAT (AInvInt q) (AInvInt p) else T_RAT q p)"
        using br p(1) q(1) by (simp add: PowRat_def)
      have pwr: "rat_val (T_RAT (AInvInt q) (AInvInt p)) = rat_val (T_RAT n d) powi int_val e"
          "rat_val (T_RAT q p) = rat_val (T_RAT n d) powi int_val e"
        using pw AInvInt_correct [OF p(2)] AInvInt_correct [OF q(2)] p(3) q(3) by (simp_all add: rat_val_def)
      have "valid_rat (if IS_NEG_INT p then T_RAT (AInvInt q) (AInvInt p) else T_RAT q p)"
        using big cop AInvInt_correct [OF p(2)] AInvInt_correct [OF q(2)] p(2) q(2) IS_NEG_INT_iff [OF p(2)]
        by (simp add: valid_rat_def) linarith
      then show ?thesis using eq pwr by simp
    qed
  qed
qed

end

subsection \<open>Properties\<close>

lemma fraction_example: "valid_rat (T_RAT (INTOBJ 1) (INTOBJ 2))" "rat_val (T_RAT (INTOBJ 1) (INTOBJ 2)) = 1 / 2"
  "valid_rat (T_RAT (INTOBJ (- 2)) (INTOBJ 3))" "rat_val (T_RAT (INTOBJ (- 2)) (INTOBJ 3)) = - 2 / 3"
proof -
  have "coprime (- 2 :: int) 3" by code_simp
  then show "valid_rat (T_RAT (INTOBJ 1) (INTOBJ 2))" "rat_val (T_RAT (INTOBJ 1) (INTOBJ 2)) = 1 / 2"
    "valid_rat (T_RAT (INTOBJ (- 2)) (INTOBJ 3))" "rat_val (T_RAT (INTOBJ (- 2)) (INTOBJ 3)) = - 2 / 3"
    by (simp_all add: valid_rat_def rat_val_def small_range_iff)
qed

text \<open>C2: Refinement of the field of rational numbers: \<open>SumRat\<close>, \<open>DiffRat\<close>, \<open>ProdRat\<close> never fail,
  compute the sum, difference and product of the rational numbers denoted, and return reduced
  fractions with positive denominators above one, or integers.\<close>

theorem rational_ring_refinement:
  assumes "gmp_contract G" "valid_rat x" "valid_rat y"
  shows "(\<exists>z. SumRat G x y = Inr z \<and> valid_rat z \<and> rat_val z = rat_val x + rat_val y) \<and>
    (\<exists>z. DiffRat G x y = Inr z \<and> valid_rat z \<and> rat_val z = rat_val x - rat_val y) \<and>
    (\<exists>z. ProdRat G x y = Inr z \<and> valid_rat z \<and> rat_val z = rat_val x * rat_val y)"
  using gmp_contract.SumRat_correct [OF assms] gmp_contract.DiffRat_correct [OF assms]
    gmp_contract.ProdRat_correct [OF assms] by blast

theorem rational_ring_refinement_witness:
  "\<exists>z. SumRat gmp_ref (T_RAT (INTOBJ 1) (INTOBJ 2)) (T_RAT (INTOBJ (- 2)) (INTOBJ 3)) = Inr z \<and>
    valid_rat z \<and> rat_val z = - 1 / 6"
  using rational_ring_refinement [OF gmp_ref.gmp_contract_axioms fraction_example(1,3)] fraction_example(2,4)
  by auto

text \<open>C32: \<open>QuoRat\<close> returns the reduced quotient for a nonzero divisor (its sign moved to the
  numerator) and raises an error for a zero divisor; \<open>InvRat\<close> gives the inverse, or \<open>Fail\<close> for zero.\<close>

theorem rational_division_sound:
  assumes "gmp_contract G" "valid_rat x" "valid_rat y"
  shows "if rat_val y = 0 then (\<exists>e. QuoRat G x y = Inl e) \<and> InvRat G y = Inr None
    else (\<exists>z. QuoRat G x y = Inr z \<and> valid_rat z \<and> rat_val z = rat_val x / rat_val y) \<and>
      (\<exists>z. InvRat G y = Inr (Some z) \<and> valid_rat z \<and> rat_val z = inverse (rat_val y))"
  using gmp_contract.QuoRat_correct [OF assms] gmp_contract.QuoRat_by_zero [OF assms(1,3)]
    gmp_contract.InvRat_correct [OF assms(1,3)] by (auto split: if_splits)

theorem rational_division_sound_witness:
  "\<exists>z. QuoRat gmp_ref (T_RAT (INTOBJ 1) (INTOBJ 2)) (T_RAT (INTOBJ (- 2)) (INTOBJ 3)) = Inr z \<and> rat_val z = - 3 / 4"
  using rational_division_sound [OF gmp_ref.gmp_contract_axioms fraction_example(1,3)] fraction_example(2,4)
  by auto

text \<open>C33: Rational objects are canonical: equal values have equal objects. \<open>EQ\<close> on integers and fractions, which
  compares two fractions by their numerators and denominators with \<open>EqRat\<close> and never calls it on an integer,
  decides equality, and \<open>LT\<close>, by cross multiplication in \<open>LtRat\<close> unless both are integers, decides the order
  of the rational numbers.\<close>

theorem rational_order_sound:
  assumes "gmp_contract G" "valid_rat x" "valid_rat y" "handles_ok same x y"
  shows "(rat_val x = rat_val y \<longleftrightarrow> x = y) \<and>
    (EQ_num G same x y \<longleftrightarrow> rat_val x = rat_val y) \<and>
    (\<forall>nL dL nR dR. x = T_RAT nL dL \<and> y = T_RAT nR dR \<longrightarrow>
      (EqRat G (nL, dL) (nR, dR) \<longleftrightarrow> rat_val x = rat_val y)) \<and>
    (LT_num G same x y \<longleftrightarrow> rat_val x < rat_val y) \<and>
    (LtRat G x y \<longleftrightarrow> rat_val x < rat_val y)"
  using rat_val_inject [OF assms(2,3)] gmp_contract.EQ_num_correct [OF assms] gmp_contract.LT_num_correct [OF assms]
    gmp_contract.LtRat_correct [OF assms(1-3)] gmp_contract.EqRat_correct [OF assms(1)] assms(2,3) by blast

theorem rational_order_sound_witness:
  "LT_num gmp_ref False (T_RAT (INTOBJ (- 2)) (INTOBJ 3)) (T_RAT (INTOBJ 1) (INTOBJ 2)) \<and>
   \<not> EqRat gmp_ref (INTOBJ (- 2), INTOBJ 3) (INTOBJ 1, INTOBJ 2)"
proof -
  have "handles_ok False (T_RAT (INTOBJ (- 2)) (INTOBJ 3)) (T_RAT (INTOBJ 1) (INTOBJ 2))" by (simp add: handles_ok_def)
  from rational_order_sound [OF gmp_ref.gmp_contract_axioms fraction_example(3,1) this] fraction_example(2,4)
  show ?thesis by simp
qed

text \<open>\<open>ModRat\<close> returns the residue \<open>k\<close> in \<open>[0, |n|)\<close> with \<open>den * k = num\<close> modulo \<open>n\<close> when the
  reduced denominator and \<open>n\<close> are coprime, and raises an error otherwise.\<close>

lemma ModRat_sound:
  assumes "gmp_contract G" "valid_rat (T_RAT r s)" "valid_int n" "int_val n \<noteq> 0"
  shows "if coprime (int_val s) (int_val n)
    then \<exists>z. ModRat G (r, s) n = Inr z \<and> valid_int z \<and> 0 \<le> int_val z \<and> int_val z < \<bar>int_val n\<bar> \<and>
      (int_val s * int_val z) mod \<bar>int_val n\<bar> = int_val r mod \<bar>int_val n\<bar>
    else \<exists>e. ModRat G (r, s) n = Inl e"
  using gmp_contract.ModRat_correct [OF assms] gmp_contract.ModRat_not_coprime [OF assms] by simp

lemma ModRat_sound_witness:
  "\<exists>e. ModRat gmp_ref (INTOBJ 1, INTOBJ 2) (INTOBJ 6) = Inl e"
proof -
  have "\<not> coprime (2 :: int) 6" by code_simp
  then show ?thesis
    using ModRat_sound [OF gmp_ref.gmp_contract_axioms fraction_example(1), of "INTOBJ 6"]
    by (simp add: small_range_iff)
qed

text \<open>C17: \<open>PowInt\<close> raises an integer to an integer power: the exact rational power whenever the power
  exists and the exponent is immediate or the base is 0, 1 or -1, a negative exponent giving a
  reduced fraction; a negative power of zero and an exponent too large are errors.\<close>

theorem PowInt_sound:
  assumes "gmp_contract G" "valid_int x" "valid_int e"
  shows "if int_val x = 0 \<and> int_val e < 0 \<or> \<not> IS_SMALL e \<and> 1 < \<bar>int_val x\<bar>
    then \<exists>msg. PowInt G x e = Inl msg
    else \<exists>z. PowInt G x e = Inr z \<and> valid_rat z \<and> rat_val z = of_int (int_val x) powi int_val e"
proof (cases "int_val x = 0 \<and> int_val e < 0 \<or> \<not> IS_SMALL e \<and> 1 < \<bar>int_val x\<bar>")
  case True
  then show ?thesis using gmp_contract.PowInt_errors [OF assms True] by simp
next
  case False
  then have "int_val x = 0 \<longrightarrow> 0 \<le> int_val e" "IS_SMALL e \<or> \<bar>int_val x\<bar> \<le> 1" by auto
  with False show ?thesis using gmp_contract.PowInt_correct [OF assms] by auto
qed

theorem PowInt_sound_witness:
  "\<exists>z. PowInt gmp_ref (INTOBJ (- 2)) (INTOBJ (- 3)) = Inr z \<and> rat_val z = - 1 / 8"
  using PowInt_sound [OF gmp_ref.gmp_contract_axioms, of "INTOBJ (- 2)" "INTOBJ (- 3)"]
  by (auto simp: small_range_iff power_int_def power3_eq_cube)

end
