(* ===== verification/SortCorrect.thy ===== *)
theory SortCorrect
  imports SortBase
begin

text \<open>
  Correctness of the sort template. The comparison is a strict weak order on a carrier (locale
  \<open>weak_order_on\<close>), so that it may identify different objects and may be meaningless on other objects.
  Every routine is shown to permute exactly its range of the array (\<open>range_perm\<close>) and to leave it
  sorted; the insertion sort and the merge sort keep the order of equivalent entries.
\<close>

subsection \<open>Ranges of an array\<close>

definition seg :: "nat \<Rightarrow> nat \<Rightarrow> 'a list \<Rightarrow> 'a list" where
  "seg s e xs = take (e + 1 - s) (drop (s - 1) xs)"

definition range_perm :: "nat \<Rightarrow> nat \<Rightarrow> 'a list \<Rightarrow> 'a list \<Rightarrow> bool" where
  "range_perm s e xs ys \<longleftrightarrow>
     mset ys = mset xs \<and> take (s - 1) ys = take (s - 1) xs \<and> drop e ys = drop e xs"

lemmas sort_access = SORT_ASS_LIST_TO_LOCAL_def SORT_ASS_LOCAL_TO_LIST_def

lemma range_perm_refl [simp]: "range_perm s e xs xs"
  by (simp add: range_perm_def)

lemma range_perm_trans: "range_perm s e xs ys \<Longrightarrow> range_perm s e ys zs \<Longrightarrow> range_perm s e xs zs"
  by (simp add: range_perm_def)

lemma range_perm_length: "range_perm s e xs ys \<Longrightarrow> length ys = length xs"
  by (metis range_perm_def mset_eq_length)

lemma range_perm_set: "range_perm s e xs ys \<Longrightarrow> set ys = set xs"
  by (metis range_perm_def mset_eq_setD)

lemma range_perm_widen:
  assumes "range_perm s' e' xs ys" "s \<le> s'" "e' \<le> e"
  shows "range_perm s e xs ys"
proof -
  have "take (s' - 1) ys = take (s' - 1) xs" "drop e' ys = drop e' xs"
    using assms(1) by (simp_all only: range_perm_def)
  from arg_cong [OF this(1), of "take (s - 1)"] arg_cong [OF this(2), of "drop (e - e')"]
  have "take (s - 1) ys = take (s - 1) xs" "drop e ys = drop e xs"
    using assms(2,3) by (simp_all add: min_absorb1 diff_le_mono)
  with assms(1) show ?thesis by (simp only: range_perm_def)
qed

lemma seg_split:
  assumes "1 \<le> s" "s \<le> e + 1"
  shows "xs = take (s - 1) xs @ seg s e xs @ drop e xs"
proof -
  have "take (e + 1 - s) (drop (s - 1) xs) @ drop e xs = drop (s - 1) xs"
    using append_take_drop_id [of "e + 1 - s" "drop (s - 1) xs"] assms by simp
  then show ?thesis by (simp add: seg_def)
qed

lemma length_seg: "1 \<le> s \<Longrightarrow> e \<le> length xs \<Longrightarrow> length (seg s e xs) = e + 1 - s"
  by (auto simp: seg_def)

lemma nth_seg:
  "1 \<le> s \<Longrightarrow> e \<le> length xs \<Longrightarrow> i < e + 1 - s \<Longrightarrow> seg s e xs ! i = xs ! (s - 1 + i)"
  by (simp add: seg_def)

lemma seg_append:
  assumes "1 \<le> s" "s \<le> m" "m \<le> e + 1"
  shows "seg s e xs = seg s (m - 1) xs @ seg m e xs"
proof -
  have "e + 1 - s = (m - s) + (e + 1 - m)" "m - s + (s - 1) = m - 1" "m - 1 + 1 - s = m - s"
    using assms by auto
  then show ?thesis by (simp only: seg_def take_add drop_drop)
qed

lemma seg_whole: "seg 1 (length xs) xs = xs"
  by (simp add: seg_def)

lemma in_set_seg:
  assumes "1 \<le> s" "e \<le> length xs" "x \<in> set (seg s e xs)"
  obtains i where "s \<le> i" "i \<le> e" "x = SORT_ASS_LIST_TO_LOCAL xs i"
proof -
  obtain j where "j < length (seg s e xs)" "x = seg s e xs ! j"
    using assms(3) by (auto simp: in_set_conv_nth)
  then have "s \<le> s + j" "s + j \<le> e" "x = SORT_ASS_LIST_TO_LOCAL xs (s + j)"
    using assms by (auto simp: length_seg nth_seg sort_access)
  then show thesis by (rule that)
qed

lemma range_perm_seg:
  assumes "range_perm s e xs ys" "1 \<le> s" "s \<le> e + 1"
  shows "mset (seg s e ys) = mset (seg s e xs)"
proof -
  have "mset (take (s - 1) ys) + mset (seg s e ys) + mset (drop e ys) = mset ys"
    using arg_cong [OF seg_split [OF assms(2,3), of ys], of mset] by simp
  moreover have "mset (take (s - 1) xs) + mset (seg s e xs) + mset (drop e xs) = mset xs"
    using arg_cong [OF seg_split [OF assms(2,3), of xs], of mset] by simp
  ultimately show ?thesis using assms(1) unfolding range_perm_def
    by (metis add_left_cancel add_right_cancel)
qed

lemma range_perm_set_seg:
  "range_perm s e xs ys \<Longrightarrow> 1 \<le> s \<Longrightarrow> s \<le> e + 1 \<Longrightarrow> set (seg s e ys) = set (seg s e xs)"
  by (metis range_perm_seg mset_eq_setD)

lemma range_perm_left:
  assumes "range_perm s e xs ys" "e' < s" "1 \<le> s'"
  shows "seg s' e' ys = seg s' e' xs"
proof -
  have "take (s - 1) ys = take (s - 1) xs" using assms(1) by (simp only: range_perm_def)
  from arg_cong [OF this, of "\<lambda>zs. drop (s' - 1) (take e' zs)"]
  have "drop (s' - 1) (take e' ys) = drop (s' - 1) (take e' xs)"
    using assms(2) by (simp add: min_absorb1)
  moreover have "e' + 1 - s' = e' - (s' - 1)" using assms(3) by simp
  ultimately show ?thesis by (simp only: seg_def drop_take)
qed

lemma range_perm_right:
  assumes "range_perm s e xs ys" "e < s'"
  shows "seg s' e' ys = seg s' e' xs"
proof -
  have "drop (s' - 1 - e) (drop e ys) = drop (s' - 1 - e) (drop e xs)"
    using assms(1) by (simp add: range_perm_def)
  then show ?thesis using assms(2) by (simp add: seg_def)
qed

lemma range_perm_move:
  assumes "s \<le> a" "a \<le> e" "s \<le> b" "b \<le> e" "1 \<le> s" "e \<le> length xs"
  shows "range_perm s e (xs[a - 1 := v]) (xs[a - 1 := xs ! (b - 1), b - 1 := v])"
proof (cases "a = b")
  case False
  let ?ys = "xs[a - 1 := v]"
  have "xs[a - 1 := xs ! (b - 1), b - 1 := v] = ?ys[a - 1 := ?ys ! (b - 1), b - 1 := ?ys ! (a - 1)]"
    using assms False by simp
  moreover have "mset (?ys[a - 1 := ?ys ! (b - 1), b - 1 := ?ys ! (a - 1)]) = mset ?ys"
    using assms by (intro mset_swap) auto
  ultimately show ?thesis using assms by (auto simp: range_perm_def)
qed simp

lemma range_perm_Swap:
  assumes "s \<le> a" "a \<le> e" "s \<le> b" "b \<le> e" "1 \<le> s" "e \<le> length xs"
  shows "range_perm s e xs (Swap xs a b)"
  using range_perm_move [of s b e a xs "xs ! (b - 1)"] assms
  by (simp add: Swap_def Let_def sort_access)

lemma Swap_nth:
  assumes "1 \<le> a" "a \<le> length xs" "1 \<le> b" "b \<le> length xs" "1 \<le> i"
  shows "SORT_ASS_LIST_TO_LOCAL (Swap xs a b) i =
    SORT_ASS_LIST_TO_LOCAL xs (if i = a then b else if i = b then a else i)"
proof -
  have "i - 1 = a - 1 \<longleftrightarrow> i = a" "i - 1 = b - 1 \<longleftrightarrow> i = b" using assms by auto
  then show ?thesis using assms by (auto simp: Swap_def Let_def sort_access nth_list_update)
qed

lemma length_Swap [simp]: "length (Swap xs a b) = length xs"
  by (simp add: Swap_def Let_def sort_access)

subsection \<open>Insertion sort as a function on lists\<close>

text \<open>\<open>ins_rev\<close> inserts into the reversed sorted prefix, as the inner loops do from the right.\<close>

primrec ins_rev :: "('a \<Rightarrow> 'a \<Rightarrow> bool) \<Rightarrow> 'a \<Rightarrow> 'a list \<Rightarrow> 'a list" where
  "ins_rev lt v [] = [v]"
| "ins_rev lt v (a # as) = (if lt v a then a # ins_rev lt v as else v # a # as)"

primrec isort_from :: "('a \<Rightarrow> 'a \<Rightarrow> bool) \<Rightarrow> 'a list \<Rightarrow> 'a list \<Rightarrow> 'a list" where
  "isort_from lt as [] = as"
| "isort_from lt as (y # ys) = isort_from lt (rev (ins_rev lt y (rev as))) ys"

lemma mset_ins_rev [simp]: "mset (ins_rev lt v as) = add_mset v (mset as)"
  by (induction as) auto

lemma set_ins_rev [simp]: "set (ins_rev lt v as) = insert v (set as)"
  by (induction as) auto

lemma ins_rev_not_Nil [simp]: "ins_rev lt v as \<noteq> []"
  by (cases as) auto

lemma length_ins_rev [simp]: "length (ins_rev lt v as) = Suc (length as)"
  by (induction as) auto

lemma mset_isort_from [simp]: "mset (isort_from lt as ys) = mset as + mset ys"
  by (induction ys arbitrary: as) auto

lemma length_isort_from [simp]: "length (isort_from lt as ys) = length as + length ys"
  by (induction ys arbitrary: as) auto

lemma insertion_inner_list:
  "(as \<noteq> [] \<Longrightarrow> w = hd as) \<Longrightarrow>
   insertion_inner S (length ps + 1) v (ps @ rev as @ x # bs) (length ps + length as + 1) w
     = ps @ rev (ins_rev (SORT_COMP_CHECK_EQ S) v as) @ bs"
proof (induction as arbitrary: x bs w)
  case Nil
  then show ?case by (subst insertion_inner.simps) (simp add: sort_access)
next
  case (Cons a as)
  let ?w' = "if as \<noteq> [] then hd as else a"
  have put: "SORT_ASS_LOCAL_TO_LIST (ps @ rev (a # as) @ x # bs) (length ps + length (a # as) + 1) a
      = ps @ rev as @ a # a # bs"
    by (simp add: sort_access list_update_append)
  have get: "as \<noteq> [] \<Longrightarrow>
      SORT_ASS_LIST_TO_LOCAL (ps @ rev as @ a # a # bs) (length ps + length as) = hd as"
    by (cases as) (auto simp: sort_access nth_append)
  have "insertion_inner S (length ps + 1) v (ps @ rev as @ a # a # bs) (length ps + length as + 1) ?w'
      = ps @ rev (ins_rev (SORT_COMP_CHECK_EQ S) v as) @ a # bs"
    by (rule Cons.IH) simp
  with Cons.prems show ?case
    using put get
    by (subst insertion_inner.simps) (auto simp: Let_def sort_access list_update_append)
qed

lemma insertion_outer_list:
  "acc \<noteq> [] \<Longrightarrow>
   insertion_outer S (length ps + 1) (length ps + length acc + length ys) (length ps + length acc + 1)
     (ps @ acc @ ys @ zs) = ps @ isort_from (SORT_COMP_CHECK_EQ S) acc ys @ zs"
proof (induction ys arbitrary: acc)
  case Nil
  then show ?case by (subst insertion_outer.simps) simp
next
  case (Cons y ys)
  let ?acc = "rev (ins_rev (SORT_COMP_CHECK_EQ S) y (rev acc))"
  have "SORT_ASS_LIST_TO_LOCAL (ps @ acc @ y # ys @ zs) (length ps + length acc + 1) = y"
    by (simp add: sort_access nth_append)
  moreover have "SORT_ASS_LIST_TO_LOCAL (ps @ acc @ y # ys @ zs) (length ps + length acc) = last acc"
    using Cons.prems by (cases acc rule: rev_cases) (simp_all add: sort_access nth_append)
  moreover have "insertion_inner S (length ps + 1) y (ps @ acc @ y # ys @ zs)
      (length ps + length acc + 1) (last acc) = ps @ ?acc @ ys @ zs"
    using insertion_inner_list [of "rev acc" "last acc" S ps y y "ys @ zs"] Cons.prems
    by (simp add: hd_rev)
  ultimately show ?case
    using Cons.IH [of ?acc] by (subst insertion_outer.simps) simp
qed

lemma Insertion_list:
  "Insertion S (ps @ ys @ zs) (length ps + 1) (length ps + length ys)
     = ps @ isort_from (SORT_COMP_CHECK_EQ S) [] ys @ zs"
proof (cases ys)
  case Nil
  then show ?thesis by (simp add: Insertion_def insertion_outer.simps)
next
  case (Cons y ys')
  then show ?thesis using insertion_outer_list [of "[y]" S ps ys' zs] by (simp add: Insertion_def)
qed

lemma Insertion_seg:
  assumes "1 \<le> s" "s \<le> e + 1" "e \<le> length xs"
  shows "Insertion S xs s e
    = take (s - 1) xs @ isort_from (SORT_COMP_CHECK_EQ S) [] (seg s e xs) @ drop e xs"
  using Insertion_list [of S "take (s - 1) xs" "seg s e xs" "drop e xs"] seg_split [of s e xs] assms
  by (simp add: length_seg min_absorb2)

lemma seg_middle:
  "length ps = s - 1 \<Longrightarrow> length ps + length ms = e \<Longrightarrow> 1 \<le> s \<Longrightarrow> seg s e (ps @ ms @ zs) = ms"
  by (auto simp: seg_def)

lemma range_perm_middle:
  assumes "1 \<le> s" "s \<le> e + 1" "e \<le> length xs" "mset ms = mset (seg s e xs)"
  shows "range_perm s e xs (take (s - 1) xs @ ms @ drop e xs)"
    "seg s e (take (s - 1) xs @ ms @ drop e xs) = ms"
proof -
  have len: "length ms = e + 1 - s" using assms by (metis length_seg mset_eq_length)
  show "range_perm s e xs (take (s - 1) xs @ ms @ drop e xs)"
    using arg_cong [OF seg_split [OF assms(1,2), of xs], of mset] assms len
    by (simp add: range_perm_def min_absorb2)
  show "seg s e (take (s - 1) xs @ ms @ drop e xs) = ms"
    using assms len by (intro seg_middle) auto
qed

lemma Insertion_range:
  assumes "1 \<le> s" "s \<le> e + 1" "e \<le> length xs"
  shows "range_perm s e xs (Insertion S xs s e)"
    "seg s e (Insertion S xs s e) = isort_from (SORT_COMP_CHECK_EQ S) [] (seg s e xs)"
  using range_perm_middle [OF assms, of "isort_from (SORT_COMP_CHECK_EQ S) [] (seg s e xs)"]
  by (simp_all add: Insertion_seg [OF assms])

subsection \<open>Strict weak orders\<close>

locale weak_order_on =
  fixes lt :: "'a \<Rightarrow> 'a \<Rightarrow> bool" and D :: "'a set"
  assumes lt_asym: "a \<in> D \<Longrightarrow> b \<in> D \<Longrightarrow> lt a b \<Longrightarrow> \<not> lt b a"
    and not_lt_trans: "a \<in> D \<Longrightarrow> b \<in> D \<Longrightarrow> c \<in> D \<Longrightarrow> \<not> lt a b \<Longrightarrow> \<not> lt b c \<Longrightarrow> \<not> lt a c"
begin

lemma lt_irrefl: "a \<in> D \<Longrightarrow> \<not> lt a a"
  using lt_asym by blast

lemma lt_trans: "a \<in> D \<Longrightarrow> b \<in> D \<Longrightarrow> c \<in> D \<Longrightarrow> lt a b \<Longrightarrow> lt b c \<Longrightarrow> lt a c"
  using lt_asym not_lt_trans by blast

lemma lt_le_trans: "a \<in> D \<Longrightarrow> b \<in> D \<Longrightarrow> c \<in> D \<Longrightarrow> lt a b \<Longrightarrow> \<not> lt c b \<Longrightarrow> lt a c"
  using not_lt_trans by blast

lemma ins_rev_sorted:
  assumes "set (v # as) \<subseteq> D" "sorted_wrt (\<lambda>a b. \<not> lt a b) as"
  shows "sorted_wrt (\<lambda>a b. \<not> lt a b) (ins_rev lt v as)"
  using assms
proof (induction as)
  case (Cons a as)
  have "\<not> lt a v" if "lt v a" using that Cons.prems lt_asym [of v a] by simp
  moreover have "\<not> lt v x" if "\<not> lt v a" "x \<in> set as" for x
    using that Cons.prems not_lt_trans [of v a x] by auto
  ultimately show ?case using Cons by simp
qed simp

lemma isort_from_sorted:
  assumes "set as \<union> set ys \<subseteq> D" "sorted_wrt (\<lambda>a b. \<not> lt b a) as"
  shows "sorted_wrt (\<lambda>a b. \<not> lt b a) (isort_from lt as ys)"
  using assms
proof (induction ys arbitrary: as)
  case (Cons y ys)
  have "sorted_wrt (\<lambda>a b. \<not> lt b a) (rev (ins_rev lt y (rev as)))"
    using ins_rev_sorted [of y "rev as"] Cons.prems by (simp add: sorted_wrt_rev)
  then show ?case using Cons.prems Cons.IH by simp
qed simp

text \<open>Entries that are pairwise equivalent keep their order.\<close>

definition alike :: "'a \<Rightarrow> 'a \<Rightarrow> bool" where
  "alike x y \<longleftrightarrow> \<not> lt x y \<and> \<not> lt y x"

lemma alike_not_lt: "x \<in> D \<Longrightarrow> a \<in> D \<Longrightarrow> b \<in> D \<Longrightarrow> alike x a \<Longrightarrow> alike x b \<Longrightarrow> \<not> lt a b"
  using not_lt_trans [of a x b] by (simp add: alike_def)

lemma filter_ins_rev:
  assumes "x \<in> D" "set (v # as) \<subseteq> D"
  shows "filter (alike x) (ins_rev lt v as) = filter (alike x) (v # as)"
  using assms
proof (induction as)
  case (Cons a as)
  then show ?case using alike_not_lt [of x v a] by auto
qed simp

lemma filter_isort_from:
  assumes "x \<in> D" "set as \<union> set ys \<subseteq> D"
  shows "filter (alike x) (isort_from lt as ys) = filter (alike x) (as @ ys)"
  using assms
proof (induction ys arbitrary: as)
  case (Cons y ys)
  then show ?case using filter_ins_rev [of x y "rev as"] by (simp add: rev_filter [symmetric])
qed simp

lemma sorted_append_through:
  assumes "sorted_wrt (\<lambda>a b. \<not> lt b a) as" "sorted_wrt (\<lambda>a b. \<not> lt b a) bs"
    and "p \<in> D" "set as \<subseteq> D" "set bs \<subseteq> D"
    and "\<And>a. a \<in> set as \<Longrightarrow> \<not> lt p a" "\<And>b. b \<in> set bs \<Longrightarrow> \<not> lt b p"
  shows "sorted_wrt (\<lambda>a b. \<not> lt b a) (as @ bs)"
proof -
  have "\<not> lt b a" if "a \<in> set as" "b \<in> set bs" for a b
    using that assms(3-7) not_lt_trans [of b p a] by blast
  with assms(1,2) show ?thesis by (simp add: sorted_wrt_append)
qed

end

subsection \<open>Limited insertion sort\<close>

lemma limited_inner_range:
  assumes "s \<le> k" "k \<le> e" "1 \<le> s" "e \<le> length xs" "s < k \<Longrightarrow> w = SORT_ASS_LIST_TO_LOCAL xs (k - 1)"
  shows "range_perm s e (SORT_ASS_LOCAL_TO_LIST xs k v) (fst (limited_inner S s v xs k w limit))"
  using assms
proof (induction S s v xs k w limit rule: limited_inner.induct)
  case (1 S s v xs k w limit)
  let ?xs = "SORT_ASS_LOCAL_TO_LIST xs k w" and ?k = "k - 1"
  show ?case
  proof (cases "s < k \<and> SORT_COMP_CHECK_EQ S v w \<and> limit - 1 \<noteq> 0")
    case True
    define w' where "w' = (if s < ?k then SORT_ASS_LIST_TO_LOCAL ?xs (?k - 1) else w)"
    have "range_perm s e (SORT_ASS_LOCAL_TO_LIST ?xs ?k v)
        (fst (limited_inner S s v ?xs ?k w' (limit - 1)))"
      using True "1.prems" unfolding w'_def by (intro "1.IH") (auto simp: sort_access)
    moreover have "range_perm s e (SORT_ASS_LOCAL_TO_LIST xs k v) (SORT_ASS_LOCAL_TO_LIST ?xs ?k v)"
      using range_perm_move [of s k e "k - 1" xs v] "1.prems" True
      by (auto simp: sort_access)
    ultimately show ?thesis using True range_perm_trans
      by (subst limited_inner.simps) (auto simp: Let_def w'_def)
  next
    case False
    then show ?thesis by (subst limited_inner.simps) (auto simp: Let_def)
  qed
qed

lemma limited_inner_Some:
  "limited_inner S s v xs k w limit = (ys, Some limit') \<Longrightarrow> ys = insertion_inner S s v xs k w"
proof (induction S s v xs k w limit rule: limited_inner.induct)
  case (1 S s v xs k w limit)
  from "1.prems" show ?case
    by (subst insertion_inner.simps, subst (asm) limited_inner.simps)
      (use "1.IH" in \<open>auto simp: Let_def split: if_splits\<close>)
qed

lemma list_update_get: "1 \<le> i \<Longrightarrow> SORT_ASS_LOCAL_TO_LIST xs i (SORT_ASS_LIST_TO_LOCAL xs i) = xs"
  by (simp add: sort_access)

lemma limited_outer_range:
  assumes "s < i" "1 \<le> s" "e \<le> length xs"
  shows "range_perm s e xs (fst (limited_outer S s e limit i xs))"
  using assms
proof (induction S s e limit i xs rule: limited_outer.induct)
  case (1 S s e limit i xs)
  show ?case
  proof (cases "i \<le> e")
    case True
    obtain ys lim where l: "limited_inner S s (SORT_ASS_LIST_TO_LOCAL xs i) xs i
        (SORT_ASS_LIST_TO_LOCAL xs (i - 1)) limit = (ys, lim)" by fastforce
    have r: "range_perm s e xs ys"
      using limited_inner_range [of s i e xs _ "SORT_ASS_LIST_TO_LOCAL xs i" S limit]
        l "1.prems" True
      by (metis (no_types, lifting) fst_conv less_imp_le_nat list_update_get order.trans)
    then have "e \<le> length ys" using "1.prems" by (simp add: range_perm_length)
    then show ?thesis
      using "1.IH" [OF True l [symmetric]] "1.prems" l True r range_perm_trans [OF r]
      by (subst limited_outer.simps) (auto split: option.splits)
  qed (subst limited_outer.simps, simp)
qed

lemma limited_outer_done:
  "limited_outer S s e limit i xs = (ys, True) \<Longrightarrow> ys = insertion_outer S s e i xs"
proof (induction S s e limit i xs rule: limited_outer.induct)
  case (1 S s e limit i xs)
  from "1.prems" show ?case
    by (subst insertion_outer.simps, subst (asm) limited_outer.simps)
      (use "1.IH" limited_inner_Some in \<open>fastforce split: if_splits prod.splits option.splits\<close>)
qed

lemma LimitedInsertion_range:
  assumes "1 \<le> s" "e \<le> length xs" "LimitedInsertion S xs s e = (ys, ok)"
  shows "range_perm s e xs ys" "ok \<Longrightarrow> ys = Insertion S xs s e"
  using limited_outer_range [of s "s + 1" e xs S 8] limited_outer_done [of S s e 8 "s + 1" xs ys] assms
  by (auto simp: LimitedInsertion_def Insertion_def)

subsection \<open>Shellsort\<close>

lemma shell_inner_range:
  assumes "s \<le> k" "k \<le> e" "1 \<le> s" "e \<le> length xs"
    and "h + (s - 1) < k \<Longrightarrow> w = SORT_ASS_LIST_TO_LOCAL xs (k - h)"
  shows "range_perm s e (SORT_ASS_LOCAL_TO_LIST xs k v) (shell_inner S h s v xs k w)"
  using assms
proof (induction S h s v xs k w rule: shell_inner.induct)
  case (1 S h s v xs k w)
  let ?xs = "SORT_ASS_LOCAL_TO_LIST xs k w" and ?k = "k - h"
  show ?case
  proof (cases "0 < h \<and> h + (s - 1) < k \<and> SORT_COMP_CHECK_EQ S v w")
    case True
    define w' where "w' = (if h + (s - 1) < ?k then SORT_ASS_LIST_TO_LOCAL ?xs (?k - h) else w)"
    have "s \<le> ?k" using True "1.prems" by auto
    then have "range_perm s e (SORT_ASS_LOCAL_TO_LIST ?xs ?k v) (shell_inner S h s v ?xs ?k w')"
      using True "1.prems" unfolding w'_def by (intro "1.IH") (auto simp: sort_access)
    moreover have "range_perm s e (SORT_ASS_LOCAL_TO_LIST xs k v) (SORT_ASS_LOCAL_TO_LIST ?xs ?k v)"
      using range_perm_move [of s k e "k - h" xs v] "1.prems" True \<open>s \<le> ?k\<close> by (simp add: sort_access)
    ultimately show ?thesis using True range_perm_trans
      by (subst shell_inner.simps) (auto simp: Let_def w'_def)
  next
    case False
    then show ?thesis by (subst shell_inner.simps) auto
  qed
qed

lemma shell_pass_range:
  assumes "h + s \<le> i" "1 \<le> s" "e \<le> length xs"
  shows "range_perm s e xs (shell_pass S h s e i xs)"
  using assms
proof (induction S h s e i xs rule: shell_pass.induct)
  case (1 S h s e i xs)
  show ?case
  proof (cases "i \<le> e")
    case True
    let ?ys = "shell_inner S h s (SORT_ASS_LIST_TO_LOCAL xs i) xs i (SORT_ASS_LIST_TO_LOCAL xs (i - h))"
    have r: "range_perm s e xs ?ys"
      using shell_inner_range [of s i e xs h _ "SORT_ASS_LIST_TO_LOCAL xs i" S] True "1.prems"
      by (simp add: list_update_get)
    have "range_perm s e ?ys (shell_pass S h s e (i + 1) ?ys)"
      using "1.IH" True "1.prems" range_perm_length [OF r] by simp
    with r True show ?thesis using range_perm_trans by (subst shell_pass.simps) auto
  qed (subst shell_pass.simps, simp)
qed

lemma shell_inner_one: "1 \<le> s \<Longrightarrow> shell_inner S 1 s v xs k w = insertion_inner S s v xs k w"
  by (induction S s v xs k w rule: insertion_inner.induct)
    (subst shell_inner.simps, subst insertion_inner.simps, simp add: Let_def)

lemma shell_pass_one: "1 \<le> s \<Longrightarrow> shell_pass S 1 s e i xs = insertion_outer S s e i xs"
  by (induction S s e i xs rule: insertion_outer.induct)
    (subst shell_pass.simps, subst insertion_outer.simps, simp add: shell_inner_one [simplified])

text \<open>The gaps are 1, 4, 13, 40, ...; dividing by three leads back through all of them to 1.\<close>

inductive knuth_gap :: "nat \<Rightarrow> bool" where
  "knuth_gap 1"
| "knuth_gap h \<Longrightarrow> knuth_gap (3 * h + 1)"

lemma shell_gap_knuth: "knuth_gap h \<Longrightarrow> knuth_gap (shell_gap len h)"
  by (induction len h rule: shell_gap.induct)
    (subst shell_gap.simps, simp add: knuth_gap.intros(2) [simplified])

lemma shell_loop_range:
  assumes "knuth_gap h" "1 \<le> s" "s \<le> e + 1" "e \<le> length xs"
  shows "\<exists>ys. range_perm s e xs ys \<and> shell_loop S s e h xs = Insertion S ys s e"
  using assms
proof (induction h arbitrary: xs rule: knuth_gap.induct)
  case 1
  then show ?case
    by (subst shell_loop.simps, subst shell_loop.simps)
      (auto simp: Insertion_def shell_pass_one [simplified] intro!: exI [of _ xs])
next
  case (2 h)
  let ?ys = "shell_pass S (3 * h + 1) s e (3 * h + 1 + s) xs"
  have r: "range_perm s e xs ?ys" using 2 by (intro shell_pass_range) auto
  moreover have "e \<le> length ?ys" using 2 range_perm_length [OF r] by simp
  ultimately obtain zs where "range_perm s e ?ys zs" "shell_loop S s e h ?ys = Insertion S zs s e"
    using 2 by blast
  moreover have "(3 * h + 1) div 3 = h" by simp
  ultimately show ?case using range_perm_trans [OF r]
    by (subst shell_loop.simps) auto
qed

lemma Shell_range:
  assumes "1 \<le> s" "s \<le> e + 1" "e \<le> length xs"
  shows "\<exists>ys. range_perm s e xs ys \<and> Shell S xs s e = Insertion S ys s e"
  unfolding Shell_def using assms
  by (intro shell_loop_range shell_gap_knuth knuth_gap.intros(1)) auto

subsection \<open>Partition\<close>

lemma partition_left_spec:
  "left \<le> right \<Longrightarrow> partition_left S p xs left right = l \<Longrightarrow>
   left \<le> l \<and> l \<le> right \<and>
   (\<forall>i. left \<le> i \<and> i < l \<longrightarrow> \<not> SORT_COMP_CHECK_EQ S p (SORT_ASS_LIST_TO_LOCAL xs i)) \<and>
   (l < right \<longrightarrow> SORT_COMP_CHECK_EQ S p (SORT_ASS_LIST_TO_LOCAL xs l))"
proof (induction S p xs left right arbitrary: l rule: partition_left.induct)
  case (1 S p xs left right)
  show ?case
  proof (cases "left < right \<and> \<not> SORT_COMP_CHECK_EQ S p (SORT_ASS_LIST_TO_LOCAL xs left)")
    case True
    then have rec: "partition_left S p xs (left + 1) right = l"
      using "1.prems"(2) by (subst (asm) partition_left.simps) simp
    have *: "left + 1 \<le> l \<and> l \<le> right \<and>
        (\<forall>i. left + 1 \<le> i \<and> i < l \<longrightarrow> \<not> SORT_COMP_CHECK_EQ S p (SORT_ASS_LIST_TO_LOCAL xs i)) \<and>
        (l < right \<longrightarrow> SORT_COMP_CHECK_EQ S p (SORT_ASS_LIST_TO_LOCAL xs l))"
      by (rule "1.IH" [OF True _ rec]) (use True in simp)
    have "\<not> SORT_COMP_CHECK_EQ S p (SORT_ASS_LIST_TO_LOCAL xs i)" if "left \<le> i" "i < l" for i
      using * True that by (cases "i = left") auto
    with * True show ?thesis by simp
  next
    case False
    then have "l = left" using "1.prems"(2) by (subst (asm) partition_left.simps) auto
    with False "1.prems"(1) show ?thesis by auto
  qed
qed

lemma partition_right_spec:
  "left \<le> right \<Longrightarrow> partition_right S p xs left right = r \<Longrightarrow>
   left \<le> r \<and> r \<le> right \<and>
   (\<forall>i. r < i \<and> i \<le> right \<longrightarrow> SORT_COMP_CHECK_EQ S p (SORT_ASS_LIST_TO_LOCAL xs i)) \<and>
   (left < r \<longrightarrow> \<not> SORT_COMP_CHECK_EQ S p (SORT_ASS_LIST_TO_LOCAL xs r))"
proof (induction S p xs left right arbitrary: r rule: partition_right.induct)
  case (1 S p xs left right)
  show ?case
  proof (cases "left < right \<and> SORT_COMP_CHECK_EQ S p (SORT_ASS_LIST_TO_LOCAL xs right)")
    case True
    then have rec: "partition_right S p xs left (right - 1) = r"
      using "1.prems"(2) by (subst (asm) partition_right.simps) simp
    have *: "left \<le> r \<and> r \<le> right - 1 \<and>
        (\<forall>i. r < i \<and> i \<le> right - 1 \<longrightarrow> SORT_COMP_CHECK_EQ S p (SORT_ASS_LIST_TO_LOCAL xs i)) \<and>
        (left < r \<longrightarrow> \<not> SORT_COMP_CHECK_EQ S p (SORT_ASS_LIST_TO_LOCAL xs r))"
      by (rule "1.IH" [OF True _ rec]) (use True in auto)
    have "SORT_COMP_CHECK_EQ S p (SORT_ASS_LIST_TO_LOCAL xs i)" if "r < i" "i \<le> right" for i
      using * True that by (cases "i = right") auto
    with * True show ?thesis by auto
  next
    case False
    then have "r = right" using "1.prems"(2) by (subst (asm) partition_right.simps) auto
    with False "1.prems"(1) show ?thesis by auto
  qed
qed

text \<open>The invariant of the outer loop: what is left of \<open>left\<close> is not above the pivot, and what starts at
  \<open>right\<close> is not below it.\<close>

definition split_at :: "('a \<Rightarrow> 'a \<Rightarrow> bool) \<Rightarrow> 'a \<Rightarrow> nat \<Rightarrow> nat \<Rightarrow> nat \<Rightarrow> nat \<Rightarrow> 'a list \<Rightarrow> bool" where
  "split_at lt p s e left right xs \<longleftrightarrow>
     s < left \<and> left \<le> right \<and> right \<le> e \<and> 1 \<le> s \<and> e \<le> length xs \<and>
     (\<forall>i. s \<le> i \<and> i < left \<longrightarrow> \<not> lt p (SORT_ASS_LIST_TO_LOCAL xs i)) \<and>
     (\<forall>i. right \<le> i \<and> i \<le> e \<longrightarrow> \<not> lt (SORT_ASS_LIST_TO_LOCAL xs i) p)"

text \<open>The template instantiated with a comparison that is a strict weak order on a carrier.\<close>

locale sort_order = weak_order_on "SORT_COMP_CHECK_EQ S" D
  for S :: "'a sort_macros" and D :: "'a set"
begin

abbreviation "lt \<equiv> SORT_COMP_CHECK_EQ S"

lemma get_in: "set xs \<subseteq> D \<Longrightarrow> 1 \<le> i \<Longrightarrow> i \<le> length xs \<Longrightarrow> SORT_ASS_LIST_TO_LOCAL xs i \<in> D"
  by (auto simp: sort_access)

lemma partition_step:
  assumes "split_at lt p s e left right xs" "p \<in> D" "set xs \<subseteq> D"
    and "l = partition_left S p xs left right" "r = partition_right S p xs l (right - 1)"
  shows "r \<le> l \<Longrightarrow> split_at lt p s e l l xs"
    and "l < r \<Longrightarrow> split_at lt p s e (l + 1) r (Swap xs l r) \<and> r \<le> e \<and> s < l"
proof -
  have inv: "s < left" "left \<le> right" "right \<le> e" "1 \<le> s" "e \<le> length xs"
    and lo: "s \<le> i \<Longrightarrow> i < left \<Longrightarrow> \<not> lt p (SORT_ASS_LIST_TO_LOCAL xs i)"
    and hi: "right \<le> i \<Longrightarrow> i \<le> e \<Longrightarrow> \<not> lt (SORT_ASS_LIST_TO_LOCAL xs i) p" for i
    using assms(1) by (auto simp: split_at_def)
  have l: "left \<le> l" "l \<le> right"
    "left \<le> i \<Longrightarrow> i < l \<Longrightarrow> \<not> lt p (SORT_ASS_LIST_TO_LOCAL xs i)"
    "l < right \<Longrightarrow> lt p (SORT_ASS_LIST_TO_LOCAL xs l)" for i
    using partition_left_spec [OF inv(2) assms(4) [symmetric]] by auto
  have lo': "\<not> lt p (SORT_ASS_LIST_TO_LOCAL xs i)" if "s \<le> i" "i < l" for i
    using lo l(3) that by (cases "i < left") auto
  have r: "l \<le> r" "r \<le> right - 1"
    "r < i \<Longrightarrow> i \<le> right - 1 \<Longrightarrow> lt p (SORT_ASS_LIST_TO_LOCAL xs i)"
    "l < r \<Longrightarrow> \<not> lt p (SORT_ASS_LIST_TO_LOCAL xs r)" if "l < right" for i
    using partition_right_spec [OF _ assms(5) [symmetric]] that by auto
  have above: "\<not> lt (SORT_ASS_LIST_TO_LOCAL xs i) p" if "lt p (SORT_ASS_LIST_TO_LOCAL xs i)" "s \<le> i" "i \<le> e" for i
    using lt_asym [OF assms(2) get_in [OF assms(3)] that(1)] that inv by simp
  have hi': "\<not> lt (SORT_ASS_LIST_TO_LOCAL xs i) p" if "r < i" "i \<le> e" "l < right" for i
  proof (cases "right \<le> i")
    case False
    then have "lt p (SORT_ASS_LIST_TO_LOCAL xs i)" using r(3) that by auto
    then show ?thesis using above that r(1) l(1) inv by simp
  qed (use hi that in auto)
  have lte: "\<not> lt (SORT_ASS_LIST_TO_LOCAL xs l) p" if "l < right"
    using above l that inv by simp
  show "split_at lt p s e l l xs" if "r \<le> l"
  proof -
    have "\<not> lt (SORT_ASS_LIST_TO_LOCAL xs i) p" if "l \<le> i" "i \<le> e" for i
      using that \<open>r \<le> l\<close> hi hi' lte l(2) by (cases "i = l"; cases "l < right") auto
    then show ?thesis using lo' l inv by (auto simp: split_at_def)
  qed
  show "split_at lt p s e (l + 1) r (Swap xs l r) \<and> r \<le> e \<and> s < l" if "l < r"
  proof -
    have lr: "l < right"
    proof (rule ccontr)
      assume "\<not> l < right"
      with l(2) have "l = right" by simp
      with that assms(5) partition_right_le [of S p xs l "right - 1"] show False by simp
    qed
    have "\<not> lt p (SORT_ASS_LIST_TO_LOCAL (Swap xs l r) i)" if "s \<le> i" "i < l + 1" for i
      using that \<open>l < r\<close> lr lo' r inv l Swap_nth [of l xs r i] by (cases "i = l") auto
    moreover have "\<not> lt (SORT_ASS_LIST_TO_LOCAL (Swap xs l r) i) p" if "r \<le> i" "i \<le> e" for i
      using that \<open>l < r\<close> lr hi' lte r inv l Swap_nth [of l xs r i] by (cases "i = r") auto
    ultimately show ?thesis using \<open>l < r\<close> lr r inv l by (auto simp: split_at_def)
  qed
qed

lemma partition_loop_spec:
  assumes "split_at lt p s e left right xs" "p \<in> D" "set xs \<subseteq> D"
    and "partition_loop S p first xs left right = (first', m, ys)"
  shows "range_perm s e xs ys \<and> split_at lt p s e m m ys"
  using assms
proof (induction "right - left" arbitrary: first xs left right rule: less_induct)
  case less
  define l where "l = partition_left S p xs left right"
  define r where "r = partition_right S p xs l (right - 1)"
  note step = partition_step [OF less.prems(1-3) l_def r_def]
  have eq: "partition_loop S p first xs left right =
      (if r \<le> l then (first, l, xs) else partition_loop S p False (Swap xs l r) (l + 1) r)"
    by (subst partition_loop.simps) (simp add: l_def r_def Let_def)
  show ?case
  proof (cases "r \<le> l")
    case True
    with eq less.prems(4) step(1) show ?thesis by simp
  next
    case False
    then have st: "split_at lt p s e (l + 1) r (Swap xs l r)" "r \<le> e" "s < l" using step(2) by auto
    have inv: "1 \<le> s" "e \<le> length xs" using less.prems(1) by (auto simp: split_at_def)
    have sw: "range_perm s e xs (Swap xs l r)"
      using st False inv by (intro range_perm_Swap) auto
    have "left \<le> l" "r \<le> right - 1"
      using partition_left_ge partition_right_le by (auto simp: l_def r_def)
    with False have "r - (l + 1) < right - left" by linarith
    then have "range_perm s e (Swap xs l r) ys \<and> split_at lt p s e m m ys"
      using less.hyps [OF _ st(1) less.prems(2)] less.prems(3,4) False eq range_perm_set [OF sw] by simp
    with range_perm_trans [OF sw] show ?thesis by blast
  qed
qed

lemma Sort3_spec:
  assumes "1 \<le> a" "a < b" "b < c" "c \<le> length xs" "set xs \<subseteq> D"
  shows "range_perm a c xs (Sort3 S xs a b c)"
    "\<not> lt (SORT_ASS_LIST_TO_LOCAL (Sort3 S xs a b c) b) (SORT_ASS_LIST_TO_LOCAL (Sort3 S xs a b c) a)"
    "\<not> lt (SORT_ASS_LIST_TO_LOCAL (Sort3 S xs a b c) c) (SORT_ASS_LIST_TO_LOCAL (Sort3 S xs a b c) b)"
proof -
  let ?a = "SORT_ASS_LIST_TO_LOCAL xs a" and ?b = "SORT_ASS_LIST_TO_LOCAL xs b"
    and ?c = "SORT_ASS_LIST_TO_LOCAL xs c"
  have D: "?a \<in> D" "?b \<in> D" "?c \<in> D" using assms by (auto intro!: get_in)
  have sw: "range_perm a c ys (Swap ys i j)"
    if "length ys = length xs" "a \<le> i" "i \<le> c" "a \<le> j" "j \<le> c" for ys i j
    using that assms by (intro range_perm_Swap) auto
  have "range_perm a c xs (Swap (Swap xs b c) a b)" "range_perm a c xs (Swap (Swap xs a b) b c)"
    using range_perm_trans [OF sw [of xs b c] sw [of _ a b]] assms
      range_perm_trans [OF sw [of xs a b] sw [of _ b c]] by auto
  then show "range_perm a c xs (Sort3 S xs a b c)"
    using sw [of xs b c] sw [of xs a b] sw [of xs a c] assms by (simp add: Sort3_def Let_def)
  have nth: "SORT_ASS_LIST_TO_LOCAL (Swap ys i j) k =
      SORT_ASS_LIST_TO_LOCAL ys (if k = i then j else if k = j then i else k)"
    if "length ys = length xs" "a \<le> i" "i \<le> c" "a \<le> j" "j \<le> c" "a \<le> k" for ys i j k
    using that assms by (intro Swap_nth) auto
  have val: "Sort3 S xs a b c =
      (if \<not> lt ?b ?a then if \<not> lt ?c ?b then xs
         else if lt ?c ?a then Swap (Swap xs b c) a b else Swap xs b c
       else if lt ?c ?b then Swap xs a c
       else if lt ?c ?a then Swap (Swap xs a b) b c else Swap xs a b)"
    using assms(2,3) by (simp add: Sort3_def Let_def CompIndices_def nth)
  have get: "SORT_ASS_LIST_TO_LOCAL (Sort3 S xs a b c) a =
        (if \<not> lt ?b ?a then if \<not> lt ?c ?b then ?a else if lt ?c ?a then ?c else ?a
         else if lt ?c ?b then ?c else ?b)"
    "SORT_ASS_LIST_TO_LOCAL (Sort3 S xs a b c) b =
        (if \<not> lt ?b ?a then if \<not> lt ?c ?b then ?b else if lt ?c ?a then ?a else ?c
         else if lt ?c ?b then ?b else if lt ?c ?a then ?c else ?a)"
    "SORT_ASS_LIST_TO_LOCAL (Sort3 S xs a b c) c =
        (if \<not> lt ?b ?a then if \<not> lt ?c ?b then ?c else ?b
         else if lt ?c ?b then ?a else if lt ?c ?a then ?a else ?c)"
    using assms(2,3) by (simp_all add: val nth)
  show "\<not> lt (SORT_ASS_LIST_TO_LOCAL (Sort3 S xs a b c) b) (SORT_ASS_LIST_TO_LOCAL (Sort3 S xs a b c) a)"
    unfolding get using lt_asym [of ?b ?a] lt_asym [of ?c ?b] lt_asym [of ?c ?a] D by simp
  show "\<not> lt (SORT_ASS_LIST_TO_LOCAL (Sort3 S xs a b c) c) (SORT_ASS_LIST_TO_LOCAL (Sort3 S xs a b c) b)"
    unfolding get using lt_asym [of ?c ?b] lt_asym [of ?c ?a] lt_asym [of ?b ?a] D
    by simp
qed

end

subsection \<open>Quicksort\<close>

context sort_order
begin

definition sorts :: "nat \<Rightarrow> nat \<Rightarrow> 'a list \<Rightarrow> 'a list \<Rightarrow> bool" where
  "sorts s e xs ys \<longleftrightarrow> range_perm s e xs ys \<and> sorted_wrt (\<lambda>a b. \<not> lt b a) (seg s e ys)"

definition parted :: "'a \<Rightarrow> nat \<Rightarrow> nat \<Rightarrow> nat \<Rightarrow> 'a list \<Rightarrow> bool" where
  "parted p s m e xs \<longleftrightarrow> p \<in> D \<and> set xs \<subseteq> D \<and> 1 \<le> s \<and> s < m \<and> m \<le> e \<and> e \<le> length xs \<and>
     (\<forall>x \<in> set (seg s (m - 1) xs). \<not> lt p x) \<and> (\<forall>x \<in> set (seg m e xs). \<not> lt x p)"

lemma set_seg_subset: "set (seg s e xs) \<subseteq> set xs"
  by (auto simp: seg_def dest: in_set_takeD in_set_dropD)

lemma Insertion_sorts:
  assumes "1 \<le> s" "s \<le> e + 1" "e \<le> length xs" "set xs \<subseteq> D"
  shows "sorts s e xs (Insertion S xs s e)"
  using Insertion_range [OF assms(1-3), of S] isort_from_sorted [of "[]" "seg s e xs"]
    set_seg_subset [of s e xs] assms(4) by (auto simp: sorts_def)

lemma Shell_sorts:
  assumes "1 \<le> s" "s \<le> e + 1" "e \<le> length xs" "set xs \<subseteq> D"
  shows "sorts s e xs (Shell S xs s e)"
proof -
  obtain ys where ys: "range_perm s e xs ys" "Shell S xs s e = Insertion S ys s e"
    using Shell_range [OF assms(1-3)] by blast
  then have "sorts s e ys (Insertion S ys s e)"
    using Insertion_sorts [of s e ys] assms range_perm_length [OF ys(1)] range_perm_set [OF ys(1)] by simp
  with ys range_perm_trans [OF ys(1)] show ?thesis by (simp add: sorts_def)
qed

lemma parted_left:
  assumes "parted p s m e xs" "range_perm s (m - 1) xs ys"
  shows "parted p s m e ys" "seg m e ys = seg m e xs"
proof -
  show eq: "seg m e ys = seg m e xs"
    using range_perm_right [OF assms(2)] assms(1) by (simp add: parted_def)
  show "parted p s m e ys"
    using assms(1) range_perm_set_seg [OF assms(2)] range_perm_length [OF assms(2)]
      range_perm_set [OF assms(2)] eq by (simp add: parted_def)
qed

lemma parted_right:
  assumes "parted p s m e xs" "range_perm m e xs ys"
  shows "parted p s m e ys" "seg s (m - 1) ys = seg s (m - 1) xs"
proof -
  show eq: "seg s (m - 1) ys = seg s (m - 1) xs"
    using range_perm_left [OF assms(2)] assms(1) by (simp add: parted_def)
  show "parted p s m e ys"
    using assms(1) range_perm_set_seg [OF assms(2)] range_perm_length [OF assms(2)]
      range_perm_set [OF assms(2)] eq by (simp add: parted_def)
qed

lemma Partition_parted:
  assumes "1 \<le> s" "s + 24 \<le> e" "e \<le> length xs" "set xs \<subseteq> D" "Partition S xs s e = (first, m, ys)"
  shows "range_perm s e xs ys \<and> (\<exists>p. parted p s m e ys)"
proof -
  define b where "b = s div 2 + e div 2"
  have b: "s < b" "b < e" using assms(2) by (auto simp: b_def)
  define zs where "zs = Sort3 S xs s b e"
  define p where "p = SORT_ASS_LIST_TO_LOCAL zs b"
  note three = Sort3_spec [OF assms(1) b assms(3,4), folded zs_def, folded p_def]
  have zs: "length zs = length xs" "set zs = set xs"
    using range_perm_length [OF three(1)] range_perm_set [OF three(1)] by auto
  have "p \<in> D" unfolding p_def using zs assms b by (intro get_in) auto
  moreover have "split_at lt p s e (s + 1) e zs"
    using three(2,3) assms(1-3) zs by (auto simp: split_at_def le_antisym dest: le_less_Suc_eq)
  moreover have "partition_loop S p True zs (s + 1) e = (first, m, ys)"
    using assms(5) by (simp add: Partition_def Let_def zs_def p_def b_def)
  ultimately have loop: "range_perm s e zs ys" "split_at lt p s e m m ys"
    using partition_loop_spec zs assms(4) by auto
  have "set ys \<subseteq> D" using range_perm_set [OF loop(1)] zs assms(4) by simp
  moreover have "\<not> lt p x" if x: "x \<in> set (seg s (m - 1) ys)" for x
  proof -
    have "m - 1 \<le> length ys" using loop(2) by (auto simp: split_at_def)
    then obtain i where "s \<le> i" "i \<le> m - 1" "x = SORT_ASS_LIST_TO_LOCAL ys i"
      using in_set_seg [OF assms(1) _ x] by blast
    then show ?thesis using loop(2) by (auto simp: split_at_def)
  qed
  moreover have "\<not> lt x p" if x: "x \<in> set (seg m e ys)" for x
  proof -
    obtain i where "m \<le> i" "i \<le> e" "x = SORT_ASS_LIST_TO_LOCAL ys i"
      using in_set_seg [OF _ _ x] loop(2) by (auto simp: split_at_def)
    then show ?thesis using loop(2) by (auto simp: split_at_def)
  qed
  ultimately have "parted p s m e ys"
    using \<open>p \<in> D\<close> loop(2) by (auto simp: parted_def split_at_def)
  with range_perm_trans [OF three(1) loop(1)] show ?thesis by blast
qed

lemma CheckBadPivot_parted:
  assumes "parted p s m e xs" "s + 24 \<le> e"
  shows "parted p s m e (CheckBadPivot xs s e m) \<and> range_perm s e xs (CheckBadPivot xs s e m)"
proof -
  have b: "1 \<le> s" "s < m" "m \<le> e" "e \<le> length xs" using assms(1) by (auto simp: parted_def)
  define q where "q = (e - s) div 4"
  define ys where "ys = (if m - s < (e - s) div 8 then Swap (Swap xs m (m + q)) e (e - q) else xs)"
  have ys: "range_perm m e xs ys"
  proof (cases "m - s < (e - s) div 8")
    case True
    then have "m + q \<le> e" "m \<le> e - q" using b by (auto simp: q_def)
    then have "range_perm m e xs (Swap xs m (m + q))"
      "range_perm m e (Swap xs m (m + q)) (Swap (Swap xs m (m + q)) e (e - q))"
      using b by (auto intro!: range_perm_Swap)
    then show ?thesis using True range_perm_trans by (auto simp: ys_def)
  qed (simp add: ys_def)
  note p1 = parted_right(1) [OF assms(1) ys]
  have len: "length ys = length xs" by (rule range_perm_length [OF ys])
  define zs where "zs = CheckBadPivot xs s e m"
  have zs_eq: "zs = (if m - s > 7 * ((e - s) div 8)
      then Swap (Swap ys s (s + q)) (m - 1) (m - 1 - q) else ys)"
    by (simp add: zs_def CheckBadPivot_def Let_def ys_def q_def)
  have zs: "range_perm s (m - 1) ys zs"
  proof (cases "m - s > 7 * ((e - s) div 8)")
    case True
    have "q \<le> 2 * ((e - s) div 8) + 1" "1 \<le> (e - s) div 8" using assms(2) by (auto simp: q_def)
    with True have "s + q \<le> m - 1" by simp
    then have "range_perm s (m - 1) ys (Swap ys s (s + q))"
      "range_perm s (m - 1) (Swap ys s (s + q)) (Swap (Swap ys s (s + q)) (m - 1) (m - 1 - q))"
      using b len by (auto intro!: range_perm_Swap)
    then show ?thesis using True range_perm_trans by (auto simp: zs_eq)
  qed (simp add: zs_eq)
  have "range_perm s e xs zs"
    using range_perm_trans [OF range_perm_widen [OF ys, of s e] range_perm_widen [OF zs, of s e]] b by simp
  with parted_left(1) [OF p1 zs] show ?thesis by (simp add: zs_def)
qed

lemma parted_sorted:
  assumes "parted p s m e xs" "sorted_wrt (\<lambda>a b. \<not> lt b a) (seg s (m - 1) xs)"
    "sorted_wrt (\<lambda>a b. \<not> lt b a) (seg m e xs)"
  shows "sorted_wrt (\<lambda>a b. \<not> lt b a) (seg s e xs)"
proof -
  have "seg s e xs = seg s (m - 1) xs @ seg m e xs"
    using assms(1) by (intro seg_append) (auto simp: parted_def)
  moreover have "set (seg i j xs) \<subseteq> D" for i j
    using assms(1) set_seg_subset by (fastforce simp: parted_def)
  ultimately show ?thesis
    using sorted_append_through [OF assms(2,3), of p] assms(1) by (simp add: parted_def)
qed

lemma LimitedInsertion_sorts:
  assumes "1 \<le> s" "s \<le> e + 1" "e \<le> length xs" "set xs \<subseteq> D"
    "(if first then LimitedInsertion S xs s e else (xs, False)) = (ys, ok)"
  shows "range_perm s e xs ys \<and> (ok \<longrightarrow> sorts s e xs ys)"
  using LimitedInsertion_range [OF assms(1,3)] Insertion_sorts [OF assms(1-4)] assms(5)
  by (auto split: if_splits)

lemma QuickSort_sorts:
  assumes "1 \<le> s" "s \<le> e + 1" "e \<le> length xs" "set xs \<subseteq> D"
  shows "sorts s e xs (QuickSort S xs s e depth)"
  using assms
proof (induction "nat depth" arbitrary: depth xs s e rule: less_induct)
  case less
  show ?case
  proof (cases "e < s + 24 \<or> depth \<le> 0")
    case True
    then show ?thesis
      using less.prems Insertion_sorts Shell_sorts by (subst QuickSort.simps) auto
  next
    case False
    obtain first m xs1 where part: "Partition S xs s e = (first, m, xs1)" by (cases "Partition S xs s e")
    define xs2 where "xs2 = CheckBadPivot xs1 s e m"
    obtain xs3 done1 where l1:
      "(if first then LimitedInsertion S xs2 s (m - 1) else (xs2, False)) = (xs3, done1)" by fastforce
    define xs4 where "xs4 = (if done1 then xs3 else QuickSort S xs3 s (m - 1) (depth - 1))"
    obtain xs5 done2 where l2:
      "(if first then LimitedInsertion S xs4 m e else (xs4, False)) = (xs5, done2)" by fastforce
    define xs6 where "xs6 = (if done2 then xs5 else QuickSort S xs5 m e (depth - 1))"
    have eq: "QuickSort S xs s e depth = xs6"
      unfolding xs6_def using False
      by (subst QuickSort.simps)
        (simp only: part l1 l2 Let_def prod.case xs2_def [symmetric] xs4_def [symmetric]
          de_Morgan_disj if_False simp_thms)
    obtain p where r1: "range_perm s e xs xs1" and p1: "parted p s m e xs1"
      using Partition_parted [OF less.prems(1) _ less.prems(3,4) part] False by auto
    have p2: "parted p s m e xs2" and r2: "range_perm s e xs1 xs2"
      using CheckBadPivot_parted [OF p1] False by (auto simp: xs2_def)
    have pd: "1 \<le> s \<and> s < m \<and> m \<le> e \<and> e \<le> length ys \<and> set ys \<subseteq> D" if "parted p s m e ys" for ys
      using that by (simp add: parted_def)
    have r3: "range_perm s (m - 1) xs2 xs3" and s3: "done1 \<longrightarrow> sorts s (m - 1) xs2 xs3"
      using LimitedInsertion_sorts [OF _ _ _ _ l1] pd [OF p2] by auto
    note p3 = parted_left(1) [OF p2 r3]
    have s4: "sorts s (m - 1) xs3 xs4"
      using s3 less.hyps [of "depth - 1" s "m - 1" xs3] pd [OF p3] False by (auto simp: xs4_def sorts_def)
    then have p4: "parted p s m e xs4" and r4: "range_perm s (m - 1) xs3 xs4"
      using parted_left(1) [OF p3] by (auto simp: sorts_def)
    have r5: "range_perm m e xs4 xs5" and s5: "done2 \<longrightarrow> sorts m e xs4 xs5"
      using LimitedInsertion_sorts [OF _ _ _ _ l2] pd [OF p4] by auto
    note p5 = parted_right(1) [OF p4 r5]
    have s6: "sorts m e xs5 xs6"
      using s5 less.hyps [of "depth - 1" m e xs5] pd [OF p5] False by (auto simp: xs6_def sorts_def)
    then have p6: "parted p s m e xs6" and r6: "range_perm m e xs5 xs6"
      using parted_right(1) [OF p5] by (auto simp: sorts_def)
    have "seg s (m - 1) xs6 = seg s (m - 1) xs4"
      using parted_right(2) [OF p4 r5] parted_right(2) [OF p5 r6] by simp
    then have "sorted_wrt (\<lambda>a b. \<not> lt b a) (seg s e xs6)"
      using parted_sorted [OF p6] s4 s6 by (simp add: sorts_def)
    moreover have "range_perm s e xs xs6"
    proof -
      have "range_perm s e xs2 xs4"
        using range_perm_widen [OF range_perm_trans [OF r3 r4], of s e] pd [OF p2] by auto
      moreover have "range_perm s e xs4 xs6"
        using range_perm_widen [OF range_perm_trans [OF r5 r6], of s e] pd [OF p2] by simp
      ultimately show ?thesis using r1 r2 range_perm_trans by blast
    qed
    ultimately show ?thesis by (simp add: eq sorts_def)
  qed
qed

lemma SORT_FUNC_sorts:
  assumes "set xs \<subseteq> D"
  shows "mset (SORT_FUNC S xs) = mset xs" "sorted_wrt (\<lambda>a b. \<not> lt b a) (SORT_FUNC S xs)"
proof -
  have "sorts 1 (length xs) xs (SORT_FUNC S xs)"
    unfolding SORT_FUNC_def by (rule QuickSort_sorts) (use assms in auto)
  moreover from this have "length (SORT_FUNC S xs) = length xs"
    by (auto simp: sorts_def range_perm_length)
  ultimately show "mset (SORT_FUNC S xs) = mset xs" "sorted_wrt (\<lambda>a b. \<not> lt b a) (SORT_FUNC S xs)"
    using seg_whole [of "SORT_FUNC S xs"] by (auto simp: sorts_def range_perm_def)
qed

end

subsection \<open>Merge sort\<close>

lemma seg_Cons:
  "1 \<le> s \<Longrightarrow> s \<le> e \<Longrightarrow> e \<le> length xs \<Longrightarrow> seg s e xs = SORT_ASS_LIST_TO_LOCAL xs s # seg (s + 1) e xs"
proof -
  assume s: "1 \<le> s" "s \<le> e" "e \<le> length xs"
  then have "drop (s - 1) xs = xs ! (s - 1) # drop s xs" using Cons_nth_drop_Suc [of "s - 1" xs] by simp
  moreover have "e + 1 - s = Suc (e - s)" "e + 1 - (s + 1) = e - s" using s by auto
  ultimately show ?thesis by (simp add: seg_def sort_access)
qed

lemma seg_empty: "e < s \<Longrightarrow> seg s e xs = []"
  by (simp add: seg_def)

fun list_merge :: "('a \<Rightarrow> 'a \<Rightarrow> bool) \<Rightarrow> 'a list \<Rightarrow> 'a list \<Rightarrow> 'a list" where
  "list_merge lt (x # xs) (y # ys) =
     (if lt y x then y # list_merge lt (x # xs) ys else x # list_merge lt xs (y # ys))"
| "list_merge lt [] ys = ys"
| "list_merge lt xs [] = xs"

lemma pair_list_induct:
  assumes "\<And>x xs y ys. P (x # xs) ys \<Longrightarrow> P xs (y # ys) \<Longrightarrow> P (x # xs) (y # ys)"
    and "\<And>ys. P [] ys" "\<And>xs. P xs []"
  shows "P xs ys"
proof (induction xs arbitrary: ys)
  case (Cons x xs)
  then show ?case by (induction ys) (auto intro: assms)
qed (rule assms)

lemma list_merge_Nil2 [simp]: "list_merge lt xs [] = xs"
  by (cases xs) auto

lemma mset_list_merge [simp]: "mset (list_merge lt xs ys) = mset xs + mset ys"
  by (induction lt xs ys rule: list_merge.induct) auto

lemma set_list_merge [simp]: "set (list_merge lt xs ys) = set xs \<union> set ys"
  by (induction lt xs ys rule: list_merge.induct) auto

lemma merge_rest_seg:
  "1 \<le> pos \<Longrightarrow> e \<le> length xs \<Longrightarrow> merge_rest xs e pos buf = buf @ seg pos e xs"
  by (induction xs e pos buf rule: merge_rest.induct)
    (subst merge_rest.simps, simp add: seg_Cons [simplified] seg_empty)

lemma merge_main_seg:
  assumes "1 \<le> pos1" "1 \<le> pos2" "e1 \<le> length xs" "e2 \<le> length xs"
    and "merge_main S xs e1 e2 pos1 pos2 buf = (p1, p2, buf')"
  shows "merge_rest xs e2 p2 (merge_rest xs e1 p1 buf')
    = buf @ list_merge (SORT_COMP_CHECK_EQ S) (seg pos1 e1 xs) (seg pos2 e2 xs)"
  using assms
proof (induction S xs e1 e2 pos1 pos2 buf rule: merge_main.induct)
  case (1 S xs e1 e2 pos1 pos2 buf)
  show ?case
  proof (cases "pos1 \<le> e1 \<and> pos2 \<le> e2")
    case True
    then have "seg pos1 e1 xs = SORT_ASS_LIST_TO_LOCAL xs pos1 # seg (pos1 + 1) e1 xs"
      "seg pos2 e2 xs = SORT_ASS_LIST_TO_LOCAL xs pos2 # seg (pos2 + 1) e2 xs"
      using "1.prems" by (simp_all add: seg_Cons [simplified])
    moreover have "merge_main S xs e1 e2 pos1 pos2 buf =
        (if CompIndices S xs pos2 pos1
         then merge_main S xs e1 e2 pos1 (pos2 + 1) (buf @ [SORT_ASS_LIST_TO_LOCAL xs pos2])
         else merge_main S xs e1 e2 (pos1 + 1) pos2 (buf @ [SORT_ASS_LIST_TO_LOCAL xs pos1]))"
      using True by (subst merge_main.simps) simp
    ultimately show ?thesis
      using "1.IH" [OF True] "1.prems"
      by (cases "CompIndices S xs pos2 pos1") (simp_all add: CompIndices_def)
  next
    case False
    then have "p1 = pos1" "p2 = pos2" "buf' = buf"
      using "1.prems"(5) by (subst (asm) merge_main.simps, auto)+
    with False "1.prems" show ?thesis by (auto simp: merge_rest_seg seg_empty not_le)
  qed
qed

lemma merge_back_eq:
  "1 \<le> i \<Longrightarrow> i - 1 + length buf \<le> length xs \<Longrightarrow>
   merge_back xs i buf = take (i - 1) xs @ buf @ drop (i - 1 + length buf) xs"
proof (induction xs i buf rule: merge_back.induct)
  case (2 xs i t buf)
  then show ?case
    by (simp add: sort_access take_Suc_conv_app_nth take_update_swap [symmetric] upd_conv_take_nth_drop ac_simps)
qed simp

lemma MergeRanges_seg:
  assumes "1 \<le> b1" "b1 \<le> e1 + 1" "e1 \<le> e2" "e2 \<le> length xs"
  shows "MergeRanges S xs b1 e1 e2 = take (b1 - 1) xs @
    list_merge (SORT_COMP_CHECK_EQ S) (seg b1 e1 xs) (seg (e1 + 1) e2 xs) @ drop e2 xs"
proof -
  obtain p1 p2 buf where m: "merge_main S xs e1 e2 b1 (e1 + 1) [] = (p1, p2, buf)"
    by (cases "merge_main S xs e1 e2 b1 (e1 + 1) []")
  let ?m = "list_merge (SORT_COMP_CHECK_EQ S) (seg b1 e1 xs) (seg (e1 + 1) e2 xs)"
  have "length ?m = length (seg b1 e1 xs) + length (seg (e1 + 1) e2 xs)"
    by (metis mset_list_merge size_mset size_union)
  then have "b1 - 1 + length ?m = e2" using assms by (simp add: length_seg)
  then show ?thesis
    using merge_main_seg [OF _ _ _ _ m] merge_back_eq [of b1 ?m xs] assms m
    by (simp add: MergeRanges_def)
qed

context sort_order
begin

lemma list_merge_sorted:
  assumes "set xs \<union> set ys \<subseteq> D" "sorted_wrt (\<lambda>a b. \<not> lt b a) xs" "sorted_wrt (\<lambda>a b. \<not> lt b a) ys"
  shows "sorted_wrt (\<lambda>a b. \<not> lt b a) (list_merge lt xs ys)"
  using assms
proof (induction xs ys rule: pair_list_induct)
  case (1 x xs y ys)
  show ?case
  proof (cases "lt y x")
    case True
    have "\<not> lt z y" if "z \<in> set xs" for z
      using that 1 True lt_asym [of y x] not_lt_trans [of z x y] lt_le_trans [of z y x] lt_asym [of z x]
      by (auto simp: subset_iff)
    then show ?thesis using 1 True lt_asym [of y x] by auto
  next
    case False
    have "\<not> lt z x" if "z \<in> set ys" for z
      using that 1 False not_lt_trans [of z y x] by auto
    then show ?thesis using 1 False by auto
  qed
qed auto

lemma filter_list_merge:
  assumes "x \<in> D" "set as \<union> set bs \<subseteq> D" "sorted_wrt (\<lambda>a b. \<not> lt b a) as"
  shows "filter (alike x) (list_merge lt as bs) = filter (alike x) (as @ bs)"
  using assms
proof (induction as bs rule: pair_list_induct)
  case (1 a as b bs)
  show ?case
  proof (cases "lt b a")
    case True
    have "\<not> alike x z" if "z \<in> set (a # as)" "alike x b" for z
    proof
      assume "alike x z"
      then have "\<not> lt b z" using alike_not_lt [of x b z] that 1 by auto
      moreover have "\<not> lt z a" using that 1 lt_irrefl by auto
      ultimately show False using not_lt_trans [of b z a] that True 1 by auto
    qed
    then have "alike x b \<Longrightarrow> filter (alike x) (a # as) = []" by (simp add: filter_empty_conv)
    then show ?thesis using 1 True by (auto simp: filter_empty_conv)
  next
    case False
    then show ?thesis using 1 by auto
  qed
qed auto

end

context sort_order
begin

text \<open>Keeping the multiset and the order of equivalent entries of the whole list.\<close>

definition stable :: "'a list \<Rightarrow> 'a list \<Rightarrow> bool" where
  "stable xs ys \<longleftrightarrow> mset ys = mset xs \<and> (\<forall>x \<in> D. filter (alike x) ys = filter (alike x) xs)"

lemma stable_trans: "stable xs ys \<Longrightarrow> stable ys zs \<Longrightarrow> stable xs zs"
  by (simp add: stable_def)

lemma stable_refl [simp]: "stable xs xs"
  by (simp add: stable_def)

lemma stable_middle:
  assumes "1 \<le> s" "s \<le> e + 1"
    and "mset ms = mset (seg s e xs)" "\<And>x. x \<in> D \<Longrightarrow> filter (alike x) ms = filter (alike x) (seg s e xs)"
  shows "stable xs (take (s - 1) xs @ ms @ drop e xs)"
proof -
  have "mset (take (s - 1) xs @ ms @ drop e xs) = mset (take (s - 1) xs @ seg s e xs @ drop e xs)"
    using assms(3) by simp
  moreover have "filter (alike x) (take (s - 1) xs @ ms @ drop e xs)
      = filter (alike x) (take (s - 1) xs @ seg s e xs @ drop e xs)" if "x \<in> D" for x
    using assms(4) that by simp
  ultimately show ?thesis unfolding stable_def using seg_split [OF assms(1,2), of xs] by metis
qed

lemma Insertion_stable:
  assumes "1 \<le> s" "s \<le> e + 1" "e \<le> length xs" "set xs \<subseteq> D"
  shows "stable xs (Insertion S xs s e)"
proof -
  have "filter (alike x) (isort_from lt [] (seg s e xs)) = filter (alike x) (seg s e xs)" if "x \<in> D" for x
    using filter_isort_from [of x "[]" "seg s e xs"] that set_seg_subset [of s e xs] assms(4) by auto
  then have "stable xs (take (s - 1) xs @ isort_from lt [] (seg s e xs) @ drop e xs)"
    using assms by (intro stable_middle) auto
  then show ?thesis using assms by (simp add: Insertion_seg)
qed

lemma MergeRanges_stable:
  assumes "1 \<le> b1" "b1 \<le> e1 + 1" "e1 \<le> e2" "e2 \<le> length xs" "set xs \<subseteq> D"
    and "sorted_wrt (\<lambda>a b. \<not> lt b a) (seg b1 e1 xs)" "sorted_wrt (\<lambda>a b. \<not> lt b a) (seg (e1 + 1) e2 xs)"
  shows "stable xs (MergeRanges S xs b1 e1 e2) \<and> sorts b1 e2 xs (MergeRanges S xs b1 e1 e2)"
proof -
  let ?m = "list_merge lt (seg b1 e1 xs) (seg (e1 + 1) e2 xs)"
  have D: "set (seg b1 e1 xs) \<union> set (seg (e1 + 1) e2 xs) \<subseteq> D"
    using set_seg_subset [of b1 e1 xs] set_seg_subset [of "e1 + 1" e2 xs] assms(5) by auto
  have split: "seg b1 e2 xs = seg b1 e1 xs @ seg (e1 + 1) e2 xs"
    using seg_append [of b1 "e1 + 1" e2 xs] assms by simp
  have m: "mset ?m = mset (seg b1 e2 xs)" by (simp add: split)
  have "stable xs (take (b1 - 1) xs @ ?m @ drop e2 xs)"
  proof (rule stable_middle)
    show "filter (alike x) ?m = filter (alike x) (seg b1 e2 xs)" if "x \<in> D" for x
      using filter_list_merge [OF that D assms(6)] by (simp add: split)
  qed (use assms m in auto)
  moreover have "sorts b1 e2 xs (take (b1 - 1) xs @ ?m @ drop e2 xs)"
    using range_perm_middle [OF assms(1) _ assms(4) m] list_merge_sorted [OF D assms(6,7)] assms
    by (simp add: sorts_def)
  ultimately show ?thesis using assms by (simp add: MergeRanges_seg)
qed

text \<open>The \<open>k\<close>-th run of width \<open>step\<close>.\<close>

definition run :: "nat \<Rightarrow> nat \<Rightarrow> nat \<Rightarrow> 'a list \<Rightarrow> bool" where
  "run step len k xs \<longleftrightarrow> sorted_wrt (\<lambda>a b. \<not> lt b a) (seg (k * step + 1) (min len ((k + 1) * step)) xs)"

lemma run_other:
  assumes "range_perm s e xs ys" "min len ((k + 1) * step) < s \<or> e < k * step + 1"
  shows "run step len k ys = run step len k xs"
  using range_perm_left [OF assms(1), of "min len ((k + 1) * step)" "k * step + 1"]
    range_perm_right [OF assms(1), of "k * step + 1" "min len ((k + 1) * step)"] assms(2)
  by (auto simp: run_def)

lemma run_empty: "len \<le> k * step \<Longrightarrow> run step len k xs"
  by (simp add: run_def seg_empty)

lemma merge_blocks_runs:
  assumes "0 < step" "i = k * step + 1" "set xs \<subseteq> D" "len = length xs" "\<And>j. j < k \<Longrightarrow> run step len j xs"
    and "i \<le> len + 1"
  shows "stable xs (merge_blocks S len step i xs) \<and> (\<forall>j. run step len j (merge_blocks S len step i xs))"
  using assms
proof (induction "len - i" arbitrary: i k xs rule: less_induct)
  case less
  show ?case
  proof (cases "i + step \<le> len")
    case True
    let ?ys = "Insertion S xs i (i + step - 1)"
    have s: "sorts i (i + step - 1) xs ?ys" and st: "stable xs ?ys"
      using less.prems True by (auto intro!: Insertion_sorts Insertion_stable)
    then have r: "range_perm i (i + step - 1) xs ?ys" by (simp add: sorts_def)
    have "run step len j ?ys" if "j < k + 1" for j
    proof (cases "j = k")
      case True
      then show ?thesis using s less.prems(2) \<open>i + step \<le> len\<close>
        by (simp add: run_def sorts_def min_absorb2 algebra_simps)
    next
      case False
      have "(j + 1) * step \<le> k * step" using that False by (intro mult_le_mono1) auto
      then have "min len ((j + 1) * step) < i" using less.prems(2) by linarith
      then show ?thesis using run_other [OF r] less.prems(5) that False by auto
    qed
    then have "stable ?ys (merge_blocks S len step (i + step) ?ys) \<and>
        (\<forall>j. run step len j (merge_blocks S len step (i + step) ?ys))"
      using less.prems True range_perm_set [OF r] range_perm_length [OF r]
      by (intro less.hyps [of _ "k + 1"]) auto
    then show ?thesis using True less.prems(1) stable_trans [OF st]
      by (subst merge_blocks.simps, subst merge_blocks.simps) simp
  next
    case False
    let ?ys = "Insertion S xs i len"
    have eq: "merge_blocks S len step i xs = ?ys"
      using False by (subst merge_blocks.simps) (auto simp: Insertion_def insertion_outer.simps)
    have s: "sorts i len xs ?ys" and st: "stable xs ?ys"
      using less.prems by (auto intro!: Insertion_sorts Insertion_stable)
    then have r: "range_perm i len xs ?ys" by (simp add: sorts_def)
    have "run step len j ?ys" for j
    proof -
      consider "j < k" | "j = k" | "k + 1 \<le> j" by linarith
      then show ?thesis
      proof cases
        case 1
        then have "(j + 1) * step \<le> k * step" by (intro mult_le_mono1) auto
        then have "min len ((j + 1) * step) < i" using less.prems(2) by linarith
        then show ?thesis using run_other [OF r] less.prems(5) 1 by auto
      next
        case 2
        then show ?thesis using s less.prems(2) False by (simp add: run_def sorts_def min_absorb1 algebra_simps)
      next
        case 3
        then have "(k + 1) * step \<le> j * step" by (rule mult_le_mono1)
        then show ?thesis using less.prems(2) False by (intro run_empty) (simp add: algebra_simps)
      qed
    qed
    with st show ?thesis by (simp add: eq)
  qed
qed

lemma merge_pass_runs:
  assumes "0 < step" "i = k * (step * 2) + 1" "set xs \<subseteq> D" "len = length xs"
    and "\<And>j. j < k \<Longrightarrow> run (step * 2) len j xs" "\<And>j. 2 * k \<le> j \<Longrightarrow> run step len j xs" "i \<le> len + 1"
  shows "stable xs (merge_pass S len step i xs) \<and> (\<forall>j. run (step * 2) len j (merge_pass S len step i xs))"
  using assms
proof (induction "len - i" arbitrary: i k xs rule: less_induct)
  case less
  have blk: "run step len (2 * k) xs" "run step len (2 * k + 1) xs" using less.prems(6) by auto
  have kk: "2 * k * step + 1 = i" "(2 * k + 1) * step + 1 = i + step" "(2 * k + 1) * step = i + step - 1"
    "(2 * k + 1 + 1) * step = i + step * 2 - 1" "(k + 1) * (step * 2) = i + step * 2 - 1"
    using less.prems(2) by (simp_all add: algebra_simps)
  have early: "min len ((j + 1) * (step * 2)) < i" if "j < k" for j
  proof -
    have "(j + 1) * (step * 2) \<le> k * (step * 2)" using that by (intro mult_le_mono1) auto
    then show ?thesis using less.prems(2) by linarith
  qed
  show ?case
  proof (cases "i + step \<le> len")
    case True
    define e where "e = min len (i + step * 2 - 1)"
    let ?ys = "MergeRanges S xs i (i + step - 1) e"
    have e: "i + step - 1 \<le> e" "e \<le> len" using True less.prems(1) by (auto simp: e_def)
    have sg: "sorted_wrt (\<lambda>a b. \<not> lt b a) (seg i (i + step - 1) xs)"
      "sorted_wrt (\<lambda>a b. \<not> lt b a) (seg (i + step - 1 + 1) e xs)"
      using blk True less.prems(1) unfolding run_def kk e_def by (simp_all add: min_absorb2)
    have st: "stable xs ?ys" and s: "sorts i e xs ?ys"
      using MergeRanges_stable [OF _ _ e(1) _ less.prems(3) sg] less.prems e by auto
    then have r: "range_perm i e xs ?ys" by (simp add: sorts_def)
    have upto: "run (step * 2) len j ?ys" if "j < k + 1" for j
    proof (cases "j = k")
      case True
      then show ?thesis using s less.prems(2) by (simp add: run_def sorts_def e_def algebra_simps)
    next
      case False
      then show ?thesis using run_other [OF r] early [of j] less.prems(5) that by auto
    qed
    show ?thesis
    proof (cases "i + step * 2 \<le> len")
      case True
      have "run step len j ?ys" if "2 * (k + 1) \<le> j" for j
      proof -
        have "2 * (k + 1) * step \<le> j * step" using that by (rule mult_le_mono1)
        then have "e < j * step + 1" using True less.prems(2) by (simp add: e_def algebra_simps)
        then show ?thesis using run_other [OF r] less.prems(6) [of j] that by auto
      qed
      then have "stable ?ys (merge_pass S len step (i + step * 2) ?ys) \<and>
          (\<forall>j. run (step * 2) len j (merge_pass S len step (i + step * 2) ?ys))"
        using less.prems(1-4) True range_perm_set [OF r] range_perm_length [OF r] upto
        by (intro less.hyps [of _ "k + 1"]) auto
      moreover have "e = i + step * 2 - 1" using True by (simp add: e_def)
      ultimately show ?thesis using True less.prems(1) stable_trans [OF st]
        by (subst merge_pass.simps, subst merge_pass.simps) simp
    next
      case False
      have "e = len" using False by (simp add: e_def)
      then have "merge_pass S len step i xs = ?ys" using True False by (subst merge_pass.simps) simp
      moreover have "run (step * 2) len j ?ys" if "k + 1 \<le> j" for j
      proof -
        have "(k + 1) * (step * 2) \<le> j * (step * 2)" using that by (rule mult_le_mono1)
        then show ?thesis using False less.prems(2) by (intro run_empty) (simp add: algebra_simps)
      qed
      then have "run (step * 2) len j ?ys" for j using upto by (cases "j < k + 1") auto
      ultimately show ?thesis using st by simp
    qed
  next
    case False
    have "run (step * 2) len k xs"
      using blk(1) False less.prems(1) unfolding run_def kk by (simp add: min_absorb1 less.prems(2))
    moreover have "run (step * 2) len j xs" if "k + 1 \<le> j" for j
    proof -
      have "(k + 1) * (step * 2) \<le> j * (step * 2)" using that by (rule mult_le_mono1)
      then show ?thesis using False less.prems(2) by (intro run_empty) (simp add: algebra_simps)
    qed
    ultimately have "\<forall>j. run (step * 2) len j xs"
      using less.prems(5) by (metis Suc_eq_plus1 not_less_eq_eq not_less less_antisym)
    moreover have "merge_pass S len step i xs = xs" using False by (subst merge_pass.simps) auto
    ultimately show ?thesis by simp
  qed
qed

lemma stable_length: "stable xs ys \<Longrightarrow> length ys = length xs"
  by (metis stable_def mset_eq_length)

lemma stable_set: "stable xs ys \<Longrightarrow> set ys = set xs"
  by (metis stable_def mset_eq_setD)

lemma merge_loop_sorts:
  assumes "0 < step" "set xs \<subseteq> D" "len = length xs" "\<And>j. run step len j xs"
  shows "stable xs (merge_loop S len step xs) \<and> sorted_wrt (\<lambda>a b. \<not> lt b a) (merge_loop S len step xs)"
  using assms
proof (induction "len - step" arbitrary: step xs rule: less_induct)
  case less
  show ?case
  proof (cases "step < len")
    case True
    let ?ys = "merge_pass S len step 1 xs"
    have p: "stable xs ?ys" "\<forall>j. run (step * 2) len j ?ys"
      using merge_pass_runs [of step 1 0 xs len] less.prems by auto
    then have "stable ?ys (merge_loop S len (step * 2) ?ys) \<and>
        sorted_wrt (\<lambda>a b. \<not> lt b a) (merge_loop S len (step * 2) ?ys)"
      using True less.prems(1-3) stable_length [OF p(1)] stable_set [OF p(1)] by (intro less.hyps) auto
    then show ?thesis using True less.prems(1) stable_trans [OF p(1)] by (subst (1 2) merge_loop.simps) auto
  next
    case False
    then have "sorted_wrt (\<lambda>a b. \<not> lt b a) xs"
      using less.prems(3) less.prems(4) [of 0] seg_whole [of xs] by (simp add: run_def min_absorb1)
    with False show ?thesis by (subst (1 2) merge_loop.simps) auto
  qed
qed

lemma SORT_FUNCMerge_sorts:
  assumes "set xs \<subseteq> D"
  shows "stable xs (SORT_FUNCMerge S xs)" "sorted_wrt (\<lambda>a b. \<not> lt b a) (SORT_FUNCMerge S xs)"
proof -
  let ?ys = "merge_blocks S (length xs) 24 1 xs"
  have b: "stable xs ?ys" "\<forall>j. run 24 (length xs) j ?ys"
    using merge_blocks_runs [of 24 1 0 xs "length xs"] assms by auto
  then have "stable ?ys (SORT_FUNCMerge S xs) \<and> sorted_wrt (\<lambda>a b. \<not> lt b a) (SORT_FUNCMerge S xs)"
    unfolding SORT_FUNCMerge_def
    using assms stable_length [OF b(1)] stable_set [OF b(1)] by (intro merge_loop_sorts) auto
  with stable_trans [OF b(1)]
  show "stable xs (SORT_FUNCMerge S xs)" "sorted_wrt (\<lambda>a b. \<not> lt b a) (SORT_FUNCMerge S xs)" by auto
qed

end

end
