(* ===== verification/Plist.thy ===== *)
theory Plist
  imports GapPrelude
begin

text \<open>
  Plain lists: the types of \<open>src/src/objects.h\<close> that record what is known about a list, the filter
  tables of \<open>src/src/plist.c\<close> with their installation (\<open>src/src/modules.c\<close>) and the operations of
  \<open>src/src/lists.h\<close> that read, set and clear filters. The C tables are transcribed entry by
  entry. The lemmas show that the tables agree with each other: setting a filter adds the filter and
  what follows from it and nothing else, resetting never adds a claim, and no type contradicts itself.
\<close>

subsection \<open>Types and filters\<close>

text \<open>
  A type number is a member of the enumeration of plain list types together with the bit
  \<open>IMMUTABLE\<close>.
\<close>

datatype plist_tnum =
    T_PLIST | T_PLIST_NDENSE | T_PLIST_DENSE | T_PLIST_DENSE_NHOM | T_PLIST_DENSE_NHOM_SSORT
  | T_PLIST_DENSE_NHOM_NSORT | T_PLIST_EMPTY | T_PLIST_HOM | T_PLIST_HOM_NSORT | T_PLIST_HOM_SSORT
  | T_PLIST_TAB | T_PLIST_TAB_NSORT | T_PLIST_TAB_SSORT | T_PLIST_TAB_RECT | T_PLIST_TAB_RECT_NSORT
  | T_PLIST_TAB_RECT_SSORT | T_PLIST_CYC | T_PLIST_CYC_NSORT | T_PLIST_CYC_SSORT | T_PLIST_FFE

datatype FilterNumber =
    FN_IS_SSORT | FN_IS_NSORT | FN_IS_DENSE | FN_IS_NDENSE | FN_IS_HOMOG | FN_IS_NHOMOG
  | FN_IS_TABLE | FN_IS_RECT

type_synonym tnum = "plist_tnum \<times> bool"

text \<open>
  An entry of the tables of type numbers: 0 (no change), \<open>(UInt)-1\<close> (an error) or a type number.
\<close>

datatype 'a tab_entry = NoEntry | BadEntry | Entry 'a

subsection \<open>The tables\<close>

definition ClearFiltsTab :: "(plist_tnum \<times> plist_tnum) list" where
  "ClearFiltsTab = [
    (T_PLIST, T_PLIST),
    (T_PLIST_NDENSE, T_PLIST),
    (T_PLIST_DENSE, T_PLIST),
    (T_PLIST_DENSE_NHOM, T_PLIST),
    (T_PLIST_DENSE_NHOM_SSORT, T_PLIST),
    (T_PLIST_DENSE_NHOM_NSORT, T_PLIST),
    (T_PLIST_EMPTY, T_PLIST),
    (T_PLIST_HOM, T_PLIST),
    (T_PLIST_HOM_NSORT, T_PLIST),
    (T_PLIST_HOM_SSORT, T_PLIST),
    (T_PLIST_TAB, T_PLIST),
    (T_PLIST_TAB_NSORT, T_PLIST),
    (T_PLIST_TAB_SSORT, T_PLIST),
    (T_PLIST_TAB_RECT, T_PLIST),
    (T_PLIST_TAB_RECT_NSORT, T_PLIST),
    (T_PLIST_TAB_RECT_SSORT, T_PLIST),
    (T_PLIST_CYC, T_PLIST),
    (T_PLIST_CYC_NSORT, T_PLIST),
    (T_PLIST_CYC_SSORT, T_PLIST),
    (T_PLIST_FFE, T_PLIST)]"

definition HasFiltTab :: "(plist_tnum \<times> FilterNumber \<times> bool) list" where
  "HasFiltTab = [
    (T_PLIST, FN_IS_DENSE, False), (T_PLIST, FN_IS_NDENSE, False),
    (T_PLIST, FN_IS_HOMOG, False), (T_PLIST, FN_IS_NHOMOG, False),
    (T_PLIST, FN_IS_TABLE, False), (T_PLIST, FN_IS_RECT, False),
    (T_PLIST, FN_IS_SSORT, False), (T_PLIST, FN_IS_NSORT, False),

    (T_PLIST_EMPTY, FN_IS_DENSE, True), (T_PLIST_EMPTY, FN_IS_NDENSE, False),
    (T_PLIST_EMPTY, FN_IS_HOMOG, True), (T_PLIST_EMPTY, FN_IS_NHOMOG, False),
    (T_PLIST_EMPTY, FN_IS_TABLE, False), (T_PLIST_EMPTY, FN_IS_RECT, False),
    (T_PLIST_EMPTY, FN_IS_SSORT, True), (T_PLIST_EMPTY, FN_IS_NSORT, False),

    (T_PLIST_DENSE, FN_IS_DENSE, True), (T_PLIST_DENSE, FN_IS_NDENSE, False),
    (T_PLIST_DENSE, FN_IS_HOMOG, False), (T_PLIST_DENSE, FN_IS_NHOMOG, False),
    (T_PLIST_DENSE, FN_IS_TABLE, False), (T_PLIST_DENSE, FN_IS_RECT, False),
    (T_PLIST_DENSE, FN_IS_SSORT, False), (T_PLIST_DENSE, FN_IS_NSORT, False),

    (T_PLIST_DENSE_NHOM, FN_IS_DENSE, True), (T_PLIST_DENSE_NHOM, FN_IS_NDENSE, False),
    (T_PLIST_DENSE_NHOM, FN_IS_HOMOG, False), (T_PLIST_DENSE_NHOM, FN_IS_NHOMOG, True),
    (T_PLIST_DENSE_NHOM, FN_IS_TABLE, False), (T_PLIST_DENSE_NHOM, FN_IS_RECT, False),
    (T_PLIST_DENSE_NHOM, FN_IS_SSORT, False), (T_PLIST_DENSE_NHOM, FN_IS_NSORT, False),

    (T_PLIST_DENSE_NHOM_SSORT, FN_IS_DENSE, True), (T_PLIST_DENSE_NHOM_SSORT, FN_IS_NDENSE, False),
    (T_PLIST_DENSE_NHOM_SSORT, FN_IS_HOMOG, False), (T_PLIST_DENSE_NHOM_SSORT, FN_IS_NHOMOG, True),
    (T_PLIST_DENSE_NHOM_SSORT, FN_IS_TABLE, False), (T_PLIST_DENSE_NHOM_SSORT, FN_IS_RECT, False),
    (T_PLIST_DENSE_NHOM_SSORT, FN_IS_SSORT, True), (T_PLIST_DENSE_NHOM_SSORT, FN_IS_NSORT, False),

    (T_PLIST_DENSE_NHOM_NSORT, FN_IS_DENSE, True), (T_PLIST_DENSE_NHOM_NSORT, FN_IS_NDENSE, False),
    (T_PLIST_DENSE_NHOM_NSORT, FN_IS_HOMOG, False), (T_PLIST_DENSE_NHOM_NSORT, FN_IS_NHOMOG, True),
    (T_PLIST_DENSE_NHOM_NSORT, FN_IS_TABLE, False), (T_PLIST_DENSE_NHOM_NSORT, FN_IS_RECT, False),
    (T_PLIST_DENSE_NHOM_NSORT, FN_IS_SSORT, False), (T_PLIST_DENSE_NHOM_NSORT, FN_IS_NSORT, True),

    (T_PLIST_NDENSE, FN_IS_DENSE, False), (T_PLIST_NDENSE, FN_IS_NDENSE, True),
    (T_PLIST_NDENSE, FN_IS_HOMOG, False), (T_PLIST_NDENSE, FN_IS_NHOMOG, False),
    (T_PLIST_NDENSE, FN_IS_TABLE, False), (T_PLIST_NDENSE, FN_IS_RECT, False),
    (T_PLIST_NDENSE, FN_IS_SSORT, False), (T_PLIST_NDENSE, FN_IS_NSORT, False),

    (T_PLIST_HOM, FN_IS_DENSE, True), (T_PLIST_HOM, FN_IS_NDENSE, False),
    (T_PLIST_HOM, FN_IS_HOMOG, True), (T_PLIST_HOM, FN_IS_NHOMOG, False),
    (T_PLIST_HOM, FN_IS_TABLE, False), (T_PLIST_HOM, FN_IS_RECT, False),
    (T_PLIST_HOM, FN_IS_SSORT, False), (T_PLIST_HOM, FN_IS_NSORT, False),

    (T_PLIST_HOM_SSORT, FN_IS_DENSE, True), (T_PLIST_HOM_SSORT, FN_IS_NDENSE, False),
    (T_PLIST_HOM_SSORT, FN_IS_HOMOG, True), (T_PLIST_HOM_SSORT, FN_IS_NHOMOG, False),
    (T_PLIST_HOM_SSORT, FN_IS_TABLE, False), (T_PLIST_HOM_SSORT, FN_IS_RECT, False),
    (T_PLIST_HOM_SSORT, FN_IS_SSORT, True), (T_PLIST_HOM_SSORT, FN_IS_NSORT, False),

    (T_PLIST_HOM_NSORT, FN_IS_DENSE, True), (T_PLIST_HOM_NSORT, FN_IS_NDENSE, False),
    (T_PLIST_HOM_NSORT, FN_IS_HOMOG, True), (T_PLIST_HOM_NSORT, FN_IS_NHOMOG, False),
    (T_PLIST_HOM_NSORT, FN_IS_TABLE, False), (T_PLIST_HOM_NSORT, FN_IS_RECT, False),
    (T_PLIST_HOM_NSORT, FN_IS_SSORT, False), (T_PLIST_HOM_NSORT, FN_IS_NSORT, True),

    (T_PLIST_TAB, FN_IS_DENSE, True), (T_PLIST_TAB, FN_IS_NDENSE, False),
    (T_PLIST_TAB, FN_IS_HOMOG, True), (T_PLIST_TAB, FN_IS_NHOMOG, False),
    (T_PLIST_TAB, FN_IS_TABLE, True), (T_PLIST_TAB, FN_IS_RECT, False),
    (T_PLIST_TAB, FN_IS_SSORT, False), (T_PLIST_TAB, FN_IS_NSORT, False),

    (T_PLIST_TAB_SSORT, FN_IS_DENSE, True), (T_PLIST_TAB_SSORT, FN_IS_NDENSE, False),
    (T_PLIST_TAB_SSORT, FN_IS_HOMOG, True), (T_PLIST_TAB_SSORT, FN_IS_NHOMOG, False),
    (T_PLIST_TAB_SSORT, FN_IS_TABLE, True), (T_PLIST_TAB_SSORT, FN_IS_RECT, False),
    (T_PLIST_TAB_SSORT, FN_IS_SSORT, True), (T_PLIST_TAB_SSORT, FN_IS_NSORT, False),

    (T_PLIST_TAB_NSORT, FN_IS_DENSE, True), (T_PLIST_TAB_NSORT, FN_IS_NDENSE, False),
    (T_PLIST_TAB_NSORT, FN_IS_HOMOG, True), (T_PLIST_TAB_NSORT, FN_IS_NHOMOG, False),
    (T_PLIST_TAB_NSORT, FN_IS_TABLE, True), (T_PLIST_TAB_NSORT, FN_IS_RECT, False),
    (T_PLIST_TAB_NSORT, FN_IS_SSORT, False), (T_PLIST_TAB_NSORT, FN_IS_NSORT, True),

    (T_PLIST_TAB_RECT, FN_IS_DENSE, True), (T_PLIST_TAB_RECT, FN_IS_NDENSE, False),
    (T_PLIST_TAB_RECT, FN_IS_HOMOG, True), (T_PLIST_TAB_RECT, FN_IS_NHOMOG, False),
    (T_PLIST_TAB_RECT, FN_IS_TABLE, True), (T_PLIST_TAB_RECT, FN_IS_RECT, True),
    (T_PLIST_TAB_RECT, FN_IS_SSORT, False), (T_PLIST_TAB_RECT, FN_IS_NSORT, False),

    (T_PLIST_TAB_RECT_SSORT, FN_IS_DENSE, True), (T_PLIST_TAB_RECT_SSORT, FN_IS_NDENSE, False),
    (T_PLIST_TAB_RECT_SSORT, FN_IS_HOMOG, True), (T_PLIST_TAB_RECT_SSORT, FN_IS_NHOMOG, False),
    (T_PLIST_TAB_RECT_SSORT, FN_IS_TABLE, True), (T_PLIST_TAB_RECT_SSORT, FN_IS_RECT, True),
    (T_PLIST_TAB_RECT_SSORT, FN_IS_SSORT, True), (T_PLIST_TAB_RECT_SSORT, FN_IS_NSORT, False),

    (T_PLIST_TAB_RECT_NSORT, FN_IS_DENSE, True), (T_PLIST_TAB_RECT_NSORT, FN_IS_NDENSE, False),
    (T_PLIST_TAB_RECT_NSORT, FN_IS_HOMOG, True), (T_PLIST_TAB_RECT_NSORT, FN_IS_NHOMOG, False),
    (T_PLIST_TAB_RECT_NSORT, FN_IS_TABLE, True), (T_PLIST_TAB_RECT_NSORT, FN_IS_RECT, True),
    (T_PLIST_TAB_RECT_NSORT, FN_IS_SSORT, False), (T_PLIST_TAB_RECT_NSORT, FN_IS_NSORT, True),

    (T_PLIST_CYC, FN_IS_DENSE, True), (T_PLIST_CYC, FN_IS_NDENSE, False),
    (T_PLIST_CYC, FN_IS_HOMOG, True), (T_PLIST_CYC, FN_IS_NHOMOG, False),
    (T_PLIST_CYC, FN_IS_TABLE, False), (T_PLIST_CYC, FN_IS_RECT, False),
    (T_PLIST_CYC, FN_IS_SSORT, False), (T_PLIST_CYC, FN_IS_NSORT, False),

    (T_PLIST_CYC_SSORT, FN_IS_DENSE, True), (T_PLIST_CYC_SSORT, FN_IS_NDENSE, False),
    (T_PLIST_CYC_SSORT, FN_IS_HOMOG, True), (T_PLIST_CYC_SSORT, FN_IS_NHOMOG, False),
    (T_PLIST_CYC_SSORT, FN_IS_TABLE, False), (T_PLIST_CYC_SSORT, FN_IS_RECT, False),
    (T_PLIST_CYC_SSORT, FN_IS_SSORT, True), (T_PLIST_CYC_SSORT, FN_IS_NSORT, False),

    (T_PLIST_CYC_NSORT, FN_IS_DENSE, True), (T_PLIST_CYC_NSORT, FN_IS_NDENSE, False),
    (T_PLIST_CYC_NSORT, FN_IS_HOMOG, True), (T_PLIST_CYC_NSORT, FN_IS_NHOMOG, False),
    (T_PLIST_CYC_NSORT, FN_IS_TABLE, False), (T_PLIST_CYC_NSORT, FN_IS_RECT, False),
    (T_PLIST_CYC_NSORT, FN_IS_SSORT, False), (T_PLIST_CYC_NSORT, FN_IS_NSORT, True),

    (T_PLIST_FFE, FN_IS_DENSE, True), (T_PLIST_FFE, FN_IS_NDENSE, False),
    (T_PLIST_FFE, FN_IS_HOMOG, True), (T_PLIST_FFE, FN_IS_NHOMOG, False),
    (T_PLIST_FFE, FN_IS_TABLE, False), (T_PLIST_FFE, FN_IS_RECT, False),
    (T_PLIST_FFE, FN_IS_SSORT, False), (T_PLIST_FFE, FN_IS_NSORT, False)]"

definition SetFiltTab :: "(plist_tnum \<times> FilterNumber \<times> plist_tnum option) list" where
  "SetFiltTab = [
    (T_PLIST, FN_IS_DENSE, Some T_PLIST_DENSE), (T_PLIST, FN_IS_NDENSE, Some T_PLIST_NDENSE),
    (T_PLIST, FN_IS_HOMOG, Some T_PLIST_HOM), (T_PLIST, FN_IS_NHOMOG, Some T_PLIST),
    (T_PLIST, FN_IS_TABLE, Some T_PLIST_TAB), (T_PLIST, FN_IS_RECT, Some T_PLIST_TAB_RECT),
    (T_PLIST, FN_IS_SSORT, Some T_PLIST), (T_PLIST, FN_IS_NSORT, Some T_PLIST),

    (T_PLIST_EMPTY, FN_IS_DENSE, Some T_PLIST_EMPTY), (T_PLIST_EMPTY, FN_IS_NDENSE, None),
    (T_PLIST_EMPTY, FN_IS_HOMOG, Some T_PLIST_EMPTY), (T_PLIST_EMPTY, FN_IS_NHOMOG, None),
    (T_PLIST_EMPTY, FN_IS_TABLE, None), (T_PLIST_EMPTY, FN_IS_RECT, None),
    (T_PLIST_EMPTY, FN_IS_SSORT, Some T_PLIST_EMPTY), (T_PLIST_EMPTY, FN_IS_NSORT, None),

    (T_PLIST_DENSE, FN_IS_DENSE, Some T_PLIST_DENSE), (T_PLIST_DENSE, FN_IS_NDENSE, None),
    (T_PLIST_DENSE, FN_IS_HOMOG, Some T_PLIST_HOM), (T_PLIST_DENSE, FN_IS_NHOMOG, Some T_PLIST_DENSE_NHOM),
    (T_PLIST_DENSE, FN_IS_TABLE, Some T_PLIST_TAB), (T_PLIST_DENSE, FN_IS_RECT, Some T_PLIST_TAB_RECT),
    (T_PLIST_DENSE, FN_IS_SSORT, Some T_PLIST_DENSE), (T_PLIST_DENSE, FN_IS_NSORT, Some T_PLIST_DENSE),

    (T_PLIST_DENSE_NHOM, FN_IS_DENSE, Some T_PLIST_DENSE_NHOM), (T_PLIST_DENSE_NHOM, FN_IS_NDENSE, None),
    (T_PLIST_DENSE_NHOM, FN_IS_HOMOG, None), (T_PLIST_DENSE_NHOM, FN_IS_NHOMOG, Some T_PLIST_DENSE_NHOM),
    (T_PLIST_DENSE_NHOM, FN_IS_TABLE, None), (T_PLIST_DENSE_NHOM, FN_IS_RECT, None),
    (T_PLIST_DENSE_NHOM, FN_IS_SSORT, Some T_PLIST_DENSE_NHOM_SSORT), (T_PLIST_DENSE_NHOM, FN_IS_NSORT, Some T_PLIST_DENSE_NHOM_NSORT),

    (T_PLIST_DENSE_NHOM_SSORT, FN_IS_DENSE, Some T_PLIST_DENSE_NHOM_SSORT), (T_PLIST_DENSE_NHOM_SSORT, FN_IS_NDENSE, None),
    (T_PLIST_DENSE_NHOM_SSORT, FN_IS_HOMOG, None), (T_PLIST_DENSE_NHOM_SSORT, FN_IS_NHOMOG, Some T_PLIST_DENSE_NHOM_SSORT),
    (T_PLIST_DENSE_NHOM_SSORT, FN_IS_TABLE, None), (T_PLIST_DENSE_NHOM_SSORT, FN_IS_RECT, None),
    (T_PLIST_DENSE_NHOM_SSORT, FN_IS_SSORT, Some T_PLIST_DENSE_NHOM_SSORT), (T_PLIST_DENSE_NHOM_SSORT, FN_IS_NSORT, None),

    (T_PLIST_DENSE_NHOM_NSORT, FN_IS_DENSE, Some T_PLIST_DENSE_NHOM_NSORT), (T_PLIST_DENSE_NHOM_NSORT, FN_IS_NDENSE, None),
    (T_PLIST_DENSE_NHOM_NSORT, FN_IS_HOMOG, None), (T_PLIST_DENSE_NHOM_NSORT, FN_IS_NHOMOG, Some T_PLIST_DENSE_NHOM_NSORT),
    (T_PLIST_DENSE_NHOM_NSORT, FN_IS_TABLE, None), (T_PLIST_DENSE_NHOM_NSORT, FN_IS_RECT, None),
    (T_PLIST_DENSE_NHOM_NSORT, FN_IS_SSORT, None), (T_PLIST_DENSE_NHOM_NSORT, FN_IS_NSORT, Some T_PLIST_DENSE_NHOM_NSORT),

    (T_PLIST_NDENSE, FN_IS_DENSE, None), (T_PLIST_NDENSE, FN_IS_NDENSE, Some T_PLIST_NDENSE),
    (T_PLIST_NDENSE, FN_IS_HOMOG, None), (T_PLIST_NDENSE, FN_IS_NHOMOG, Some T_PLIST_NDENSE),
    (T_PLIST_NDENSE, FN_IS_TABLE, None), (T_PLIST_NDENSE, FN_IS_RECT, None),
    (T_PLIST_NDENSE, FN_IS_SSORT, Some T_PLIST_NDENSE), (T_PLIST_NDENSE, FN_IS_NSORT, Some T_PLIST_NDENSE),

    (T_PLIST_HOM, FN_IS_DENSE, Some T_PLIST_HOM), (T_PLIST_HOM, FN_IS_NDENSE, None),
    (T_PLIST_HOM, FN_IS_HOMOG, Some T_PLIST_HOM), (T_PLIST_HOM, FN_IS_NHOMOG, None),
    (T_PLIST_HOM, FN_IS_TABLE, Some T_PLIST_TAB), (T_PLIST_HOM, FN_IS_RECT, Some T_PLIST_TAB_RECT),
    (T_PLIST_HOM, FN_IS_SSORT, Some T_PLIST_HOM_SSORT), (T_PLIST_HOM, FN_IS_NSORT, Some T_PLIST_HOM_NSORT),

    (T_PLIST_HOM_SSORT, FN_IS_DENSE, Some T_PLIST_HOM_SSORT), (T_PLIST_HOM_SSORT, FN_IS_NDENSE, None),
    (T_PLIST_HOM_SSORT, FN_IS_HOMOG, Some T_PLIST_HOM_SSORT), (T_PLIST_HOM_SSORT, FN_IS_NHOMOG, None),
    (T_PLIST_HOM_SSORT, FN_IS_TABLE, Some T_PLIST_TAB_SSORT), (T_PLIST_HOM_SSORT, FN_IS_RECT, Some T_PLIST_TAB_RECT_SSORT),
    (T_PLIST_HOM_SSORT, FN_IS_SSORT, Some T_PLIST_HOM_SSORT), (T_PLIST_HOM_SSORT, FN_IS_NSORT, None),

    (T_PLIST_HOM_NSORT, FN_IS_DENSE, Some T_PLIST_HOM_NSORT), (T_PLIST_HOM_NSORT, FN_IS_NDENSE, None),
    (T_PLIST_HOM_NSORT, FN_IS_HOMOG, Some T_PLIST_HOM_NSORT), (T_PLIST_HOM_NSORT, FN_IS_NHOMOG, None),
    (T_PLIST_HOM_NSORT, FN_IS_TABLE, Some T_PLIST_TAB_NSORT), (T_PLIST_HOM_NSORT, FN_IS_RECT, Some T_PLIST_TAB_RECT_NSORT),
    (T_PLIST_HOM_NSORT, FN_IS_SSORT, None), (T_PLIST_HOM_NSORT, FN_IS_NSORT, Some T_PLIST_HOM_NSORT),

    (T_PLIST_TAB, FN_IS_DENSE, Some T_PLIST_TAB), (T_PLIST_TAB, FN_IS_NDENSE, None),
    (T_PLIST_TAB, FN_IS_HOMOG, Some T_PLIST_TAB), (T_PLIST_TAB, FN_IS_NHOMOG, None),
    (T_PLIST_TAB, FN_IS_TABLE, Some T_PLIST_TAB), (T_PLIST_TAB, FN_IS_RECT, Some T_PLIST_TAB_RECT),
    (T_PLIST_TAB, FN_IS_SSORT, Some T_PLIST_TAB_SSORT), (T_PLIST_TAB, FN_IS_NSORT, Some T_PLIST_TAB_NSORT),

    (T_PLIST_TAB_SSORT, FN_IS_DENSE, Some T_PLIST_TAB_SSORT), (T_PLIST_TAB_SSORT, FN_IS_NDENSE, None),
    (T_PLIST_TAB_SSORT, FN_IS_HOMOG, Some T_PLIST_TAB_SSORT), (T_PLIST_TAB_SSORT, FN_IS_NHOMOG, None),
    (T_PLIST_TAB_SSORT, FN_IS_TABLE, Some T_PLIST_TAB_SSORT), (T_PLIST_TAB_SSORT, FN_IS_RECT, Some T_PLIST_TAB_RECT_SSORT),
    (T_PLIST_TAB_SSORT, FN_IS_SSORT, Some T_PLIST_TAB_SSORT), (T_PLIST_TAB_SSORT, FN_IS_NSORT, None),

    (T_PLIST_TAB_NSORT, FN_IS_DENSE, Some T_PLIST_TAB_NSORT), (T_PLIST_TAB_NSORT, FN_IS_NDENSE, None),
    (T_PLIST_TAB_NSORT, FN_IS_HOMOG, Some T_PLIST_TAB_NSORT), (T_PLIST_TAB_NSORT, FN_IS_NHOMOG, None),
    (T_PLIST_TAB_NSORT, FN_IS_TABLE, Some T_PLIST_TAB_NSORT), (T_PLIST_TAB_NSORT, FN_IS_RECT, Some T_PLIST_TAB_RECT_NSORT),
    (T_PLIST_TAB_NSORT, FN_IS_SSORT, None), (T_PLIST_TAB_NSORT, FN_IS_NSORT, Some T_PLIST_TAB_NSORT),

    (T_PLIST_TAB_RECT, FN_IS_DENSE, Some T_PLIST_TAB_RECT), (T_PLIST_TAB_RECT, FN_IS_NDENSE, None),
    (T_PLIST_TAB_RECT, FN_IS_HOMOG, Some T_PLIST_TAB_RECT), (T_PLIST_TAB_RECT, FN_IS_NHOMOG, None),
    (T_PLIST_TAB_RECT, FN_IS_TABLE, Some T_PLIST_TAB_RECT), (T_PLIST_TAB_RECT, FN_IS_RECT, Some T_PLIST_TAB_RECT),
    (T_PLIST_TAB_RECT, FN_IS_SSORT, Some T_PLIST_TAB_RECT_SSORT), (T_PLIST_TAB_RECT, FN_IS_NSORT, Some T_PLIST_TAB_RECT_NSORT),

    (T_PLIST_TAB_RECT_SSORT, FN_IS_DENSE, Some T_PLIST_TAB_RECT_SSORT), (T_PLIST_TAB_RECT_SSORT, FN_IS_NDENSE, None),
    (T_PLIST_TAB_RECT_SSORT, FN_IS_HOMOG, Some T_PLIST_TAB_RECT_SSORT), (T_PLIST_TAB_RECT_SSORT, FN_IS_NHOMOG, None),
    (T_PLIST_TAB_RECT_SSORT, FN_IS_TABLE, Some T_PLIST_TAB_RECT_SSORT), (T_PLIST_TAB_RECT_SSORT, FN_IS_RECT, Some T_PLIST_TAB_RECT_SSORT),
    (T_PLIST_TAB_RECT_SSORT, FN_IS_SSORT, Some T_PLIST_TAB_RECT_SSORT), (T_PLIST_TAB_RECT_SSORT, FN_IS_NSORT, None),

    (T_PLIST_TAB_RECT_NSORT, FN_IS_DENSE, Some T_PLIST_TAB_RECT_NSORT), (T_PLIST_TAB_RECT_NSORT, FN_IS_NDENSE, None),
    (T_PLIST_TAB_RECT_NSORT, FN_IS_HOMOG, Some T_PLIST_TAB_RECT_NSORT), (T_PLIST_TAB_RECT_NSORT, FN_IS_NHOMOG, None),
    (T_PLIST_TAB_RECT_NSORT, FN_IS_TABLE, Some T_PLIST_TAB_RECT_NSORT), (T_PLIST_TAB_RECT_NSORT, FN_IS_RECT, Some T_PLIST_TAB_RECT_NSORT),
    (T_PLIST_TAB_RECT_NSORT, FN_IS_SSORT, None), (T_PLIST_TAB_RECT_NSORT, FN_IS_NSORT, Some T_PLIST_TAB_RECT_NSORT),

    (T_PLIST_CYC, FN_IS_DENSE, Some T_PLIST_CYC), (T_PLIST_CYC, FN_IS_NDENSE, None),
    (T_PLIST_CYC, FN_IS_HOMOG, Some T_PLIST_CYC), (T_PLIST_CYC, FN_IS_NHOMOG, None),
    (T_PLIST_CYC, FN_IS_TABLE, None), (T_PLIST_CYC, FN_IS_RECT, None),
    (T_PLIST_CYC, FN_IS_SSORT, Some T_PLIST_CYC_SSORT), (T_PLIST_CYC, FN_IS_NSORT, Some T_PLIST_CYC_NSORT),

    (T_PLIST_CYC_SSORT, FN_IS_DENSE, Some T_PLIST_CYC_SSORT), (T_PLIST_CYC_SSORT, FN_IS_NDENSE, None),
    (T_PLIST_CYC_SSORT, FN_IS_HOMOG, Some T_PLIST_CYC_SSORT), (T_PLIST_CYC_SSORT, FN_IS_NHOMOG, None),
    (T_PLIST_CYC_SSORT, FN_IS_TABLE, None), (T_PLIST_CYC_SSORT, FN_IS_RECT, None),
    (T_PLIST_CYC_SSORT, FN_IS_SSORT, Some T_PLIST_CYC_SSORT), (T_PLIST_CYC_SSORT, FN_IS_NSORT, None),

    (T_PLIST_CYC_NSORT, FN_IS_DENSE, Some T_PLIST_CYC_NSORT), (T_PLIST_CYC_NSORT, FN_IS_NDENSE, None),
    (T_PLIST_CYC_NSORT, FN_IS_HOMOG, Some T_PLIST_CYC_NSORT), (T_PLIST_CYC_NSORT, FN_IS_NHOMOG, None),
    (T_PLIST_CYC_NSORT, FN_IS_TABLE, None), (T_PLIST_CYC_NSORT, FN_IS_RECT, None),
    (T_PLIST_CYC_NSORT, FN_IS_SSORT, None), (T_PLIST_CYC_NSORT, FN_IS_NSORT, Some T_PLIST_CYC_NSORT),

    (T_PLIST_FFE, FN_IS_DENSE, Some T_PLIST_FFE), (T_PLIST_FFE, FN_IS_NDENSE, None),
    (T_PLIST_FFE, FN_IS_HOMOG, Some T_PLIST_FFE), (T_PLIST_FFE, FN_IS_NHOMOG, None),
    (T_PLIST_FFE, FN_IS_TABLE, None), (T_PLIST_FFE, FN_IS_RECT, None),
    (T_PLIST_FFE, FN_IS_SSORT, Some T_PLIST_FFE), (T_PLIST_FFE, FN_IS_NSORT, Some T_PLIST_FFE)]"

definition ResetFiltTab :: "(plist_tnum \<times> FilterNumber \<times> plist_tnum option) list" where
  "ResetFiltTab = [
    (T_PLIST, FN_IS_DENSE, Some T_PLIST), (T_PLIST, FN_IS_NDENSE, Some T_PLIST),
    (T_PLIST, FN_IS_HOMOG, Some T_PLIST), (T_PLIST, FN_IS_NHOMOG, Some T_PLIST),
    (T_PLIST, FN_IS_TABLE, Some T_PLIST), (T_PLIST, FN_IS_RECT, Some T_PLIST),
    (T_PLIST, FN_IS_SSORT, Some T_PLIST), (T_PLIST, FN_IS_NSORT, Some T_PLIST),

    (T_PLIST_EMPTY, FN_IS_DENSE, Some T_PLIST), (T_PLIST_EMPTY, FN_IS_NDENSE, Some T_PLIST_EMPTY),
    (T_PLIST_EMPTY, FN_IS_HOMOG, Some T_PLIST), (T_PLIST_EMPTY, FN_IS_NHOMOG, Some T_PLIST_EMPTY),
    (T_PLIST_EMPTY, FN_IS_TABLE, Some T_PLIST_EMPTY), (T_PLIST_EMPTY, FN_IS_RECT, Some T_PLIST_EMPTY),
    (T_PLIST_EMPTY, FN_IS_SSORT, Some T_PLIST), (T_PLIST_EMPTY, FN_IS_NSORT, Some T_PLIST_EMPTY),

    (T_PLIST_DENSE, FN_IS_DENSE, Some T_PLIST), (T_PLIST_DENSE, FN_IS_NDENSE, Some T_PLIST_DENSE),
    (T_PLIST_DENSE, FN_IS_HOMOG, Some T_PLIST_DENSE), (T_PLIST_DENSE, FN_IS_NHOMOG, Some T_PLIST_DENSE),
    (T_PLIST_DENSE, FN_IS_TABLE, Some T_PLIST_DENSE), (T_PLIST_DENSE, FN_IS_RECT, Some T_PLIST_DENSE),
    (T_PLIST_DENSE, FN_IS_SSORT, Some T_PLIST_DENSE), (T_PLIST_DENSE, FN_IS_NSORT, Some T_PLIST_DENSE),

    (T_PLIST_DENSE_NHOM, FN_IS_DENSE, Some T_PLIST), (T_PLIST_DENSE_NHOM, FN_IS_NDENSE, Some T_PLIST_DENSE_NHOM),
    (T_PLIST_DENSE_NHOM, FN_IS_HOMOG, Some T_PLIST_DENSE_NHOM), (T_PLIST_DENSE_NHOM, FN_IS_NHOMOG, Some T_PLIST_DENSE),
    (T_PLIST_DENSE_NHOM, FN_IS_TABLE, Some T_PLIST_DENSE_NHOM), (T_PLIST_DENSE_NHOM, FN_IS_RECT, Some T_PLIST_DENSE_NHOM),
    (T_PLIST_DENSE_NHOM, FN_IS_SSORT, Some T_PLIST_DENSE_NHOM), (T_PLIST_DENSE_NHOM, FN_IS_NSORT, Some T_PLIST_DENSE_NHOM),

    (T_PLIST_DENSE_NHOM_SSORT, FN_IS_DENSE, Some T_PLIST), (T_PLIST_DENSE_NHOM_SSORT, FN_IS_NDENSE, Some T_PLIST_DENSE_NHOM_SSORT),
    (T_PLIST_DENSE_NHOM_SSORT, FN_IS_HOMOG, Some T_PLIST_DENSE_NHOM_SSORT), (T_PLIST_DENSE_NHOM_SSORT, FN_IS_NHOMOG, Some T_PLIST_DENSE),
    (T_PLIST_DENSE_NHOM_SSORT, FN_IS_TABLE, Some T_PLIST_DENSE_NHOM_SSORT), (T_PLIST_DENSE_NHOM_SSORT, FN_IS_RECT, Some T_PLIST_DENSE_NHOM_SSORT),
    (T_PLIST_DENSE_NHOM_SSORT, FN_IS_SSORT, Some T_PLIST_DENSE_NHOM), (T_PLIST_DENSE_NHOM_SSORT, FN_IS_NSORT, Some T_PLIST_DENSE_NHOM_SSORT),

    (T_PLIST_DENSE_NHOM_NSORT, FN_IS_DENSE, Some T_PLIST), (T_PLIST_DENSE_NHOM_NSORT, FN_IS_NDENSE, Some T_PLIST_DENSE_NHOM_NSORT),
    (T_PLIST_DENSE_NHOM_NSORT, FN_IS_HOMOG, Some T_PLIST_DENSE_NHOM_NSORT), (T_PLIST_DENSE_NHOM_NSORT, FN_IS_NHOMOG, Some T_PLIST_DENSE),
    (T_PLIST_DENSE_NHOM_NSORT, FN_IS_TABLE, Some T_PLIST_DENSE_NHOM_NSORT), (T_PLIST_DENSE_NHOM_NSORT, FN_IS_RECT, Some T_PLIST_DENSE_NHOM_NSORT),
    (T_PLIST_DENSE_NHOM_NSORT, FN_IS_SSORT, Some T_PLIST_DENSE_NHOM_NSORT), (T_PLIST_DENSE_NHOM_NSORT, FN_IS_NSORT, Some T_PLIST_DENSE_NHOM),

    (T_PLIST_NDENSE, FN_IS_DENSE, Some T_PLIST_NDENSE), (T_PLIST_NDENSE, FN_IS_NDENSE, Some T_PLIST),
    (T_PLIST_NDENSE, FN_IS_HOMOG, Some T_PLIST_NDENSE), (T_PLIST_NDENSE, FN_IS_NHOMOG, Some T_PLIST_NDENSE),
    (T_PLIST_NDENSE, FN_IS_TABLE, Some T_PLIST_NDENSE), (T_PLIST_NDENSE, FN_IS_RECT, Some T_PLIST_NDENSE),
    (T_PLIST_NDENSE, FN_IS_SSORT, Some T_PLIST_NDENSE), (T_PLIST_NDENSE, FN_IS_NSORT, Some T_PLIST_NDENSE),

    (T_PLIST_HOM, FN_IS_DENSE, Some T_PLIST), (T_PLIST_HOM, FN_IS_NDENSE, Some T_PLIST_HOM),
    (T_PLIST_HOM, FN_IS_HOMOG, Some T_PLIST_DENSE), (T_PLIST_HOM, FN_IS_NHOMOG, Some T_PLIST_HOM),
    (T_PLIST_HOM, FN_IS_TABLE, Some T_PLIST_HOM), (T_PLIST_HOM, FN_IS_RECT, Some T_PLIST_HOM),
    (T_PLIST_HOM, FN_IS_SSORT, Some T_PLIST_HOM), (T_PLIST_HOM, FN_IS_NSORT, Some T_PLIST_HOM),

    (T_PLIST_HOM_SSORT, FN_IS_DENSE, Some T_PLIST), (T_PLIST_HOM_SSORT, FN_IS_NDENSE, Some T_PLIST_HOM_SSORT),
    (T_PLIST_HOM_SSORT, FN_IS_HOMOG, Some T_PLIST_DENSE), (T_PLIST_HOM_SSORT, FN_IS_NHOMOG, Some T_PLIST_HOM_SSORT),
    (T_PLIST_HOM_SSORT, FN_IS_TABLE, Some T_PLIST_HOM_SSORT), (T_PLIST_HOM_SSORT, FN_IS_RECT, Some T_PLIST_HOM_SSORT),
    (T_PLIST_HOM_SSORT, FN_IS_SSORT, Some T_PLIST_HOM), (T_PLIST_HOM_SSORT, FN_IS_NSORT, Some T_PLIST_HOM_SSORT),

    (T_PLIST_HOM_NSORT, FN_IS_DENSE, Some T_PLIST), (T_PLIST_HOM_NSORT, FN_IS_NDENSE, Some T_PLIST_HOM_NSORT),
    (T_PLIST_HOM_NSORT, FN_IS_HOMOG, Some T_PLIST_DENSE), (T_PLIST_HOM_NSORT, FN_IS_NHOMOG, Some T_PLIST_HOM_NSORT),
    (T_PLIST_HOM_NSORT, FN_IS_TABLE, Some T_PLIST_HOM_NSORT), (T_PLIST_HOM_NSORT, FN_IS_RECT, Some T_PLIST_HOM_NSORT),
    (T_PLIST_HOM_NSORT, FN_IS_SSORT, Some T_PLIST_HOM_NSORT), (T_PLIST_HOM_NSORT, FN_IS_NSORT, Some T_PLIST_HOM),

    (T_PLIST_TAB, FN_IS_DENSE, Some T_PLIST), (T_PLIST_TAB, FN_IS_NDENSE, Some T_PLIST_TAB),
    (T_PLIST_TAB, FN_IS_HOMOG, Some T_PLIST_DENSE), (T_PLIST_TAB, FN_IS_NHOMOG, Some T_PLIST_TAB),
    (T_PLIST_TAB, FN_IS_TABLE, Some T_PLIST_HOM), (T_PLIST_TAB, FN_IS_RECT, Some T_PLIST_TAB),
    (T_PLIST_TAB, FN_IS_SSORT, Some T_PLIST_TAB), (T_PLIST_TAB, FN_IS_NSORT, Some T_PLIST_TAB),

    (T_PLIST_TAB_SSORT, FN_IS_DENSE, Some T_PLIST), (T_PLIST_TAB_SSORT, FN_IS_NDENSE, Some T_PLIST_TAB_SSORT),
    (T_PLIST_TAB_SSORT, FN_IS_HOMOG, Some T_PLIST_DENSE), (T_PLIST_TAB_SSORT, FN_IS_NHOMOG, Some T_PLIST_TAB_SSORT),
    (T_PLIST_TAB_SSORT, FN_IS_TABLE, Some T_PLIST_HOM_SSORT), (T_PLIST_TAB_SSORT, FN_IS_RECT, Some T_PLIST_TAB_SSORT),
    (T_PLIST_TAB_SSORT, FN_IS_SSORT, Some T_PLIST_TAB), (T_PLIST_TAB_SSORT, FN_IS_NSORT, Some T_PLIST_TAB_SSORT),

    (T_PLIST_TAB_NSORT, FN_IS_DENSE, Some T_PLIST), (T_PLIST_TAB_NSORT, FN_IS_NDENSE, Some T_PLIST_TAB_NSORT),
    (T_PLIST_TAB_NSORT, FN_IS_HOMOG, Some T_PLIST_DENSE), (T_PLIST_TAB_NSORT, FN_IS_NHOMOG, Some T_PLIST_TAB_NSORT),
    (T_PLIST_TAB_NSORT, FN_IS_TABLE, Some T_PLIST_HOM_NSORT), (T_PLIST_TAB_NSORT, FN_IS_RECT, Some T_PLIST_TAB_NSORT),
    (T_PLIST_TAB_NSORT, FN_IS_SSORT, Some T_PLIST_TAB_NSORT), (T_PLIST_TAB_NSORT, FN_IS_NSORT, Some T_PLIST_TAB),

    (T_PLIST_TAB_RECT, FN_IS_DENSE, Some T_PLIST), (T_PLIST_TAB_RECT, FN_IS_NDENSE, Some T_PLIST_TAB_RECT),
    (T_PLIST_TAB_RECT, FN_IS_HOMOG, Some T_PLIST_DENSE), (T_PLIST_TAB_RECT, FN_IS_NHOMOG, Some T_PLIST_TAB_RECT),
    (T_PLIST_TAB_RECT, FN_IS_TABLE, Some T_PLIST_HOM), (T_PLIST_TAB_RECT, FN_IS_RECT, Some T_PLIST_TAB),
    (T_PLIST_TAB_RECT, FN_IS_SSORT, Some T_PLIST_TAB_RECT), (T_PLIST_TAB_RECT, FN_IS_NSORT, Some T_PLIST_TAB_RECT),

    (T_PLIST_TAB_RECT_SSORT, FN_IS_DENSE, Some T_PLIST), (T_PLIST_TAB_RECT_SSORT, FN_IS_NDENSE, Some T_PLIST_TAB_RECT_SSORT),
    (T_PLIST_TAB_RECT_SSORT, FN_IS_HOMOG, Some T_PLIST_DENSE), (T_PLIST_TAB_RECT_SSORT, FN_IS_NHOMOG, Some T_PLIST_TAB_RECT_SSORT),
    (T_PLIST_TAB_RECT_SSORT, FN_IS_TABLE, Some T_PLIST_HOM_SSORT), (T_PLIST_TAB_RECT_SSORT, FN_IS_RECT, Some T_PLIST_TAB_SSORT),
    (T_PLIST_TAB_RECT_SSORT, FN_IS_SSORT, Some T_PLIST_TAB_RECT), (T_PLIST_TAB_RECT_SSORT, FN_IS_NSORT, Some T_PLIST_TAB_RECT_SSORT),

    (T_PLIST_TAB_RECT_NSORT, FN_IS_DENSE, Some T_PLIST), (T_PLIST_TAB_RECT_NSORT, FN_IS_NDENSE, Some T_PLIST_TAB_RECT_NSORT),
    (T_PLIST_TAB_RECT_NSORT, FN_IS_HOMOG, Some T_PLIST_DENSE), (T_PLIST_TAB_RECT_NSORT, FN_IS_NHOMOG, Some T_PLIST_TAB_RECT_NSORT),
    (T_PLIST_TAB_RECT_NSORT, FN_IS_TABLE, Some T_PLIST_HOM_NSORT), (T_PLIST_TAB_RECT_NSORT, FN_IS_RECT, Some T_PLIST_TAB_NSORT),
    (T_PLIST_TAB_RECT_NSORT, FN_IS_SSORT, Some T_PLIST_TAB_RECT_NSORT), (T_PLIST_TAB_RECT_NSORT, FN_IS_NSORT, Some T_PLIST_TAB_RECT),

    (T_PLIST_CYC, FN_IS_DENSE, Some T_PLIST), (T_PLIST_CYC, FN_IS_NDENSE, Some T_PLIST_CYC),
    (T_PLIST_CYC, FN_IS_HOMOG, Some T_PLIST_DENSE), (T_PLIST_CYC, FN_IS_NHOMOG, Some T_PLIST_CYC),
    (T_PLIST_CYC, FN_IS_TABLE, Some T_PLIST_CYC), (T_PLIST_CYC, FN_IS_RECT, Some T_PLIST_CYC),
    (T_PLIST_CYC, FN_IS_SSORT, Some T_PLIST_CYC), (T_PLIST_CYC, FN_IS_NSORT, Some T_PLIST_CYC),

    (T_PLIST_CYC_SSORT, FN_IS_DENSE, Some T_PLIST), (T_PLIST_CYC_SSORT, FN_IS_NDENSE, Some T_PLIST_CYC_SSORT),
    (T_PLIST_CYC_SSORT, FN_IS_HOMOG, Some T_PLIST), (T_PLIST_CYC_SSORT, FN_IS_NHOMOG, Some T_PLIST_CYC_SSORT),
    (T_PLIST_CYC_SSORT, FN_IS_TABLE, Some T_PLIST_CYC_SSORT), (T_PLIST_CYC_SSORT, FN_IS_RECT, Some T_PLIST_CYC_SSORT),
    (T_PLIST_CYC_SSORT, FN_IS_SSORT, Some T_PLIST_CYC), (T_PLIST_CYC_SSORT, FN_IS_NSORT, Some T_PLIST_CYC_SSORT),

    (T_PLIST_CYC_NSORT, FN_IS_DENSE, Some T_PLIST), (T_PLIST_CYC_NSORT, FN_IS_NDENSE, Some T_PLIST_CYC_NSORT),
    (T_PLIST_CYC_NSORT, FN_IS_HOMOG, Some T_PLIST), (T_PLIST_CYC_NSORT, FN_IS_NHOMOG, Some T_PLIST_CYC_NSORT),
    (T_PLIST_CYC_NSORT, FN_IS_TABLE, Some T_PLIST_CYC_NSORT), (T_PLIST_CYC_NSORT, FN_IS_RECT, Some T_PLIST_CYC_NSORT),
    (T_PLIST_CYC_NSORT, FN_IS_SSORT, Some T_PLIST_CYC_NSORT), (T_PLIST_CYC_NSORT, FN_IS_NSORT, Some T_PLIST_CYC),

    (T_PLIST_FFE, FN_IS_DENSE, Some T_PLIST), (T_PLIST_FFE, FN_IS_NDENSE, Some T_PLIST_FFE),
    (T_PLIST_FFE, FN_IS_HOMOG, Some T_PLIST), (T_PLIST_FFE, FN_IS_NHOMOG, Some T_PLIST_FFE),
    (T_PLIST_FFE, FN_IS_TABLE, Some T_PLIST_FFE), (T_PLIST_FFE, FN_IS_RECT, Some T_PLIST_FFE),
    (T_PLIST_FFE, FN_IS_SSORT, Some T_PLIST_FFE), (T_PLIST_FFE, FN_IS_NSORT, Some T_PLIST_FFE)]"


text \<open>The loops that enter a table, for the mutable type and for the immutable one.\<close>

definition InitClearFiltsTNumsFromTable ::
  "(plist_tnum \<times> plist_tnum) list \<Rightarrow> (tnum \<Rightarrow> tnum tab_entry) \<Rightarrow> tnum \<Rightarrow> tnum tab_entry" where
  "InitClearFiltsTNumsFromTable tab tnums = fold (\<lambda>(t, t') m.
     m((t, False) := Entry (t', False), (t, True) := Entry (t', True))) tab tnums"

definition InitHasFiltListTNumsFromTable ::
  "(plist_tnum \<times> FilterNumber \<times> bool) list \<Rightarrow> (tnum \<times> FilterNumber \<Rightarrow> bool) \<Rightarrow> tnum \<times> FilterNumber \<Rightarrow> bool"
  where
  "InitHasFiltListTNumsFromTable tab tnums = fold (\<lambda>(t, f, v) m.
     m(((t, False), f) := v, ((t, True), f) := v)) tab tnums"

text \<open>The value -1 keeps all its bits when \<open>IMMUTABLE\<close> is added.\<close>

definition table_value :: "plist_tnum option \<Rightarrow> bool \<Rightarrow> tnum tab_entry" where
  "table_value v imm = (case v of None \<Rightarrow> BadEntry | Some t \<Rightarrow> Entry (t, imm))"

definition InitSetFiltListTNumsFromTable ::
  "(plist_tnum \<times> FilterNumber \<times> plist_tnum option) list \<Rightarrow> (tnum \<times> FilterNumber \<Rightarrow> tnum tab_entry)
     \<Rightarrow> tnum \<times> FilterNumber \<Rightarrow> tnum tab_entry" where
  "InitSetFiltListTNumsFromTable tab tnums = fold (\<lambda>(t, f, v) m.
     m(((t, False), f) := table_value v False, ((t, True), f) := table_value v True)) tab tnums"

definition InitResetFiltListTNumsFromTable ::
  "(plist_tnum \<times> FilterNumber \<times> plist_tnum option) list \<Rightarrow> (tnum \<times> FilterNumber \<Rightarrow> tnum tab_entry)
     \<Rightarrow> tnum \<times> FilterNumber \<Rightarrow> tnum tab_entry" where
  "InitResetFiltListTNumsFromTable tab tnums = fold (\<lambda>(t, f, v) m.
     m(((t, False), f) := table_value v False, ((t, True), f) := table_value v True)) tab tnums"

definition ClearFiltsTNums :: "tnum \<Rightarrow> tnum tab_entry" where
  "ClearFiltsTNums = InitClearFiltsTNumsFromTable ClearFiltsTab (\<lambda>_. NoEntry)"

definition HasFiltListTNums :: "tnum \<times> FilterNumber \<Rightarrow> bool" where
  "HasFiltListTNums = InitHasFiltListTNumsFromTable HasFiltTab (\<lambda>_. False)"

definition SetFiltListTNums :: "tnum \<times> FilterNumber \<Rightarrow> tnum tab_entry" where
  "SetFiltListTNums = InitSetFiltListTNumsFromTable SetFiltTab (\<lambda>_. NoEntry)"

definition ResetFiltListTNums :: "tnum \<times> FilterNumber \<Rightarrow> tnum tab_entry" where
  "ResetFiltListTNums = InitResetFiltListTNumsFromTable ResetFiltTab (\<lambda>_. NoEntry)"

subsection \<open>Plain lists\<close>

text \<open>
  A plain list: its type and its entries, of which \<open>LEN_PLIST\<close> is the number; an entry is \<open>None\<close> where
  the bag holds 0, a hole of the list.
\<close>

record 'a plist =
  tnum :: plist_tnum
  immutable :: bool
  elms :: "'a option list"

definition TNUM_OBJ :: "'a plist \<Rightarrow> tnum" where
  "TNUM_OBJ list = (tnum list, immutable list)"

definition RetypeBag :: "'a plist \<Rightarrow> tnum \<Rightarrow> 'a plist" where
  "RetypeBag list n = list\<lparr>tnum := fst n, immutable := snd n\<rparr>"

text \<open>\<open>RetypeBagSM\<close> keeps the mutability of the list.\<close>

definition RetypeBagSM :: "'a plist \<Rightarrow> plist_tnum \<Rightarrow> 'a plist" where
  "RetypeBagSM list t = list\<lparr>tnum := t\<rparr>"

definition HAS_FILT_LIST :: "'a plist \<Rightarrow> FilterNumber \<Rightarrow> bool" where
  "HAS_FILT_LIST list f = HasFiltListTNums (TNUM_OBJ list, f)"

text \<open>An entry -1 prints a message and leaves the list alone.\<close>

definition SET_FILT_LIST :: "'a plist \<Rightarrow> FilterNumber \<Rightarrow> 'a plist" where
  "SET_FILT_LIST list f = (case SetFiltListTNums (TNUM_OBJ list, f) of
     NoEntry \<Rightarrow> list | BadEntry \<Rightarrow> list | Entry n \<Rightarrow> RetypeBag list n)"

definition RESET_FILT_LIST :: "'a plist \<Rightarrow> FilterNumber \<Rightarrow> 'a plist" where
  "RESET_FILT_LIST list f = (case ResetFiltListTNums (TNUM_OBJ list, f) of
     NoEntry \<Rightarrow> list | BadEntry \<Rightarrow> list | Entry n \<Rightarrow> RetypeBag list n)"

definition CLEAR_FILTS_LIST :: "'a plist \<Rightarrow> 'a plist" where
  "CLEAR_FILTS_LIST list = (case ClearFiltsTNums (TNUM_OBJ list) of
     Entry n \<Rightarrow> RetypeBag list n | _ \<Rightarrow> list)"

subsection \<open>Reading the tables\<close>

text \<open>What each type claims, and what the claim of one filter implies.\<close>

fun claims :: "plist_tnum \<Rightarrow> FilterNumber list" where
  "claims T_PLIST = []"
| "claims T_PLIST_EMPTY = [FN_IS_DENSE, FN_IS_HOMOG, FN_IS_SSORT]"
| "claims T_PLIST_DENSE = [FN_IS_DENSE]"
| "claims T_PLIST_DENSE_NHOM = [FN_IS_DENSE, FN_IS_NHOMOG]"
| "claims T_PLIST_DENSE_NHOM_SSORT = [FN_IS_DENSE, FN_IS_NHOMOG, FN_IS_SSORT]"
| "claims T_PLIST_DENSE_NHOM_NSORT = [FN_IS_DENSE, FN_IS_NHOMOG, FN_IS_NSORT]"
| "claims T_PLIST_NDENSE = [FN_IS_NDENSE]"
| "claims T_PLIST_HOM = [FN_IS_DENSE, FN_IS_HOMOG]"
| "claims T_PLIST_HOM_SSORT = [FN_IS_DENSE, FN_IS_HOMOG, FN_IS_SSORT]"
| "claims T_PLIST_HOM_NSORT = [FN_IS_DENSE, FN_IS_HOMOG, FN_IS_NSORT]"
| "claims T_PLIST_TAB = [FN_IS_DENSE, FN_IS_HOMOG, FN_IS_TABLE]"
| "claims T_PLIST_TAB_SSORT = [FN_IS_DENSE, FN_IS_HOMOG, FN_IS_TABLE, FN_IS_SSORT]"
| "claims T_PLIST_TAB_NSORT = [FN_IS_DENSE, FN_IS_HOMOG, FN_IS_TABLE, FN_IS_NSORT]"
| "claims T_PLIST_TAB_RECT = [FN_IS_DENSE, FN_IS_HOMOG, FN_IS_TABLE, FN_IS_RECT]"
| "claims T_PLIST_TAB_RECT_SSORT = [FN_IS_DENSE, FN_IS_HOMOG, FN_IS_TABLE, FN_IS_RECT, FN_IS_SSORT]"
| "claims T_PLIST_TAB_RECT_NSORT = [FN_IS_DENSE, FN_IS_HOMOG, FN_IS_TABLE, FN_IS_RECT, FN_IS_NSORT]"
| "claims T_PLIST_CYC = [FN_IS_DENSE, FN_IS_HOMOG]"
| "claims T_PLIST_CYC_SSORT = [FN_IS_DENSE, FN_IS_HOMOG, FN_IS_SSORT]"
| "claims T_PLIST_CYC_NSORT = [FN_IS_DENSE, FN_IS_HOMOG, FN_IS_NSORT]"
| "claims T_PLIST_FFE = [FN_IS_DENSE, FN_IS_HOMOG]"

fun follows :: "FilterNumber \<Rightarrow> FilterNumber list" where
  "follows FN_IS_HOMOG = [FN_IS_HOMOG, FN_IS_DENSE]"
| "follows FN_IS_TABLE = [FN_IS_TABLE, FN_IS_HOMOG, FN_IS_DENSE]"
| "follows FN_IS_RECT = [FN_IS_RECT, FN_IS_TABLE, FN_IS_HOMOG, FN_IS_DENSE]"
| "follows FN_IS_NHOMOG = [FN_IS_NHOMOG, FN_IS_DENSE]"
| "follows FN_IS_SSORT = [FN_IS_SSORT, FN_IS_DENSE]"
| "follows FN_IS_NSORT = [FN_IS_NSORT, FN_IS_DENSE]"
| "follows f = [f]"

text \<open>The types that say more than their filters: empty lists, cyclotomics, finite field elements.\<close>

definition cyc_tnum :: "plist_tnum \<Rightarrow> bool" where
  "cyc_tnum t = (t \<in> {T_PLIST_CYC, T_PLIST_CYC_NSORT, T_PLIST_CYC_SSORT})"

fun opposite :: "FilterNumber \<Rightarrow> FilterNumber option" where
  "opposite FN_IS_SSORT = Some FN_IS_NSORT"
| "opposite FN_IS_NSORT = Some FN_IS_SSORT"
| "opposite FN_IS_DENSE = Some FN_IS_NDENSE"
| "opposite FN_IS_NDENSE = Some FN_IS_DENSE"
| "opposite FN_IS_HOMOG = Some FN_IS_NHOMOG"
| "opposite FN_IS_NHOMOG = Some FN_IS_HOMOG"
| "opposite f = None"

lemma fold_table:
  fixes tab :: "(plist_tnum \<times> FilterNumber \<times> 'v) list" and g :: "'v \<Rightarrow> bool \<Rightarrow> 'r"
  defines "enter \<equiv> \<lambda>(t, f, v) m. m(((t, False), f) := g v False, ((t, True), f) := g v True)"
  shows "(\<exists>v. (t, f, v) \<in> set tab \<and> fold enter tab m ((t, b), f) = g v b) \<or>
    (\<forall>v. (t, f, v) \<notin> set tab) \<and> fold enter tab m ((t, b), f) = m ((t, b), f)"
proof (induction tab rule: rev_induct)
  case (snoc x tab)
  then show ?case by (cases x; cases b) (auto simp: enter_def)
qed simp

lemma HasFiltTab_claims: "list_all (\<lambda>(t, f, v). v = (f \<in> set (claims t))) HasFiltTab"
  by code_simp

lemma HasFiltTab_total: "\<exists>v. (t, f, v) \<in> set HasFiltTab"
  by (cases t; cases f) (auto simp: HasFiltTab_def)

lemma HAS_FILT_LIST_claims [simp]: "HAS_FILT_LIST p f \<longleftrightarrow> f \<in> set (claims (tnum p))"
  using fold_table [of "tnum p" f HasFiltTab "\<lambda>v b. v" "\<lambda>_. False" "immutable p"]
    HasFiltTab_claims HasFiltTab_total [of "tnum p" f]
  by (auto simp: HAS_FILT_LIST_def HasFiltListTNums_def InitHasFiltListTNumsFromTable_def TNUM_OBJ_def
      list_all_iff)

text \<open>Every entry of the setter and the resetter tables, checked against the claims.\<close>

definition set_entry_ok :: "plist_tnum \<times> FilterNumber \<times> plist_tnum option \<Rightarrow> bool" where
  "set_entry_ok = (\<lambda>(t, f, v). case v of
     None \<Rightarrow> t = T_PLIST_EMPTY \<or> list_ex (\<lambda>g. (case opposite g of None \<Rightarrow> False | Some h \<Rightarrow> h \<in> set (claims t)))
                (follows f) \<or> (f \<in> {FN_IS_TABLE, FN_IS_RECT} \<and> (cyc_tnum t \<or> t = T_PLIST_FFE))
   | Some t' \<Rightarrow> list_all (\<lambda>g. g \<in> set (claims t) \<or> g \<in> set (follows f)) (claims t')
       \<and> list_all (\<lambda>g. g \<in> set (claims t')) (claims t)
       \<and> cyc_tnum t' = cyc_tnum t \<and> (t' = T_PLIST_FFE) = (t = T_PLIST_FFE)
       \<and> (t' = T_PLIST_EMPTY) = (t = T_PLIST_EMPTY))"

definition reset_entry_ok :: "plist_tnum \<times> FilterNumber \<times> plist_tnum option \<Rightarrow> bool" where
  "reset_entry_ok = (\<lambda>(t, f, v). case v of
     None \<Rightarrow> False
   | Some t' \<Rightarrow> list_all (\<lambda>g. g \<in> set (claims t) \<and> g \<noteq> f) (claims t')
       \<and> (f \<notin> set (claims t) \<longrightarrow> t' = t)
       \<and> (cyc_tnum t' \<longrightarrow> cyc_tnum t) \<and> (t' = T_PLIST_FFE \<longrightarrow> t = T_PLIST_FFE)
       \<and> (t' = T_PLIST_EMPTY \<longrightarrow> t = T_PLIST_EMPTY))"

lemma SetFiltTab_ok: "list_all set_entry_ok SetFiltTab"
  by code_simp

lemma ResetFiltTab_ok: "list_all reset_entry_ok ResetFiltTab"
  by code_simp

lemma SetFiltTab_entry: "(t, f, v) \<in> set SetFiltTab \<Longrightarrow> set_entry_ok (t, f, v)"
  using SetFiltTab_ok by (simp only: list_all_iff)

lemma ResetFiltTab_entry: "(t, f, v) \<in> set ResetFiltTab \<Longrightarrow> reset_entry_ok (t, f, v)"
  using ResetFiltTab_ok by (simp only: list_all_iff)

lemma SetFiltTab_total: "\<exists>v. (t, f, v) \<in> set SetFiltTab"
  by (cases t; cases f) (simp_all add: SetFiltTab_def)

lemma ResetFiltTab_total: "\<exists>v. (t, f, v) \<in> set ResetFiltTab"
  by (cases t; cases f) (simp_all add: ResetFiltTab_def)

lemma SET_FILT_LIST_entry:
  "SET_FILT_LIST p f = p \<and> (tnum p, f, None) \<in> set SetFiltTab \<or>
   (\<exists>t'. (tnum p, f, Some t') \<in> set SetFiltTab \<and> SET_FILT_LIST p f = p\<lparr>tnum := t'\<rparr>)"
  using fold_table [of "tnum p" f SetFiltTab table_value "\<lambda>_. NoEntry" "immutable p"]
    SetFiltTab_total [of "tnum p" f]
  by (auto simp: SET_FILT_LIST_def SetFiltListTNums_def InitSetFiltListTNumsFromTable_def TNUM_OBJ_def
      RetypeBag_def table_value_def split: option.splits)

lemma RESET_FILT_LIST_entry:
  "\<exists>t'. (tnum p, f, Some t') \<in> set ResetFiltTab \<and> RESET_FILT_LIST p f = p\<lparr>tnum := t'\<rparr>"
proof -
  have "(tnum p, f, None) \<notin> set ResetFiltTab"
    using ResetFiltTab_entry [of "tnum p" f None] by (auto simp: reset_entry_ok_def)
  then show ?thesis
    using fold_table [of "tnum p" f ResetFiltTab table_value "\<lambda>_. NoEntry" "immutable p"]
      ResetFiltTab_total [of "tnum p" f]
    by (auto simp: RESET_FILT_LIST_def ResetFiltListTNums_def InitResetFiltListTNumsFromTable_def
        TNUM_OBJ_def RetypeBag_def table_value_def split: option.splits)
qed

lemma CLEAR_FILTS_LIST_simp [simp]: "CLEAR_FILTS_LIST p = p\<lparr>tnum := T_PLIST\<rparr>"
proof -
  have "ClearFiltsTNums (t, b) = Entry (T_PLIST, b)" for t b
    by (cases t; cases b) (simp_all add: ClearFiltsTNums_def InitClearFiltsTNumsFromTable_def ClearFiltsTab_def)
  then show ?thesis by (simp add: CLEAR_FILTS_LIST_def TNUM_OBJ_def RetypeBag_def)
qed

lemma filt_keeps [simp]:
  "elms (SET_FILT_LIST p f) = elms p" "immutable (SET_FILT_LIST p f) = immutable p"
  "elms (RESET_FILT_LIST p f) = elms p" "immutable (RESET_FILT_LIST p f) = immutable p"
  using SET_FILT_LIST_entry [of p f] RESET_FILT_LIST_entry [of p f] by auto

lemma SET_FILT_LIST_claims:
  "g \<in> set (claims (tnum (SET_FILT_LIST p f))) \<Longrightarrow> g \<in> set (claims (tnum p)) \<or> g \<in> set (follows f)"
  "g \<in> set (claims (tnum p)) \<Longrightarrow> g \<in> set (claims (tnum (SET_FILT_LIST p f)))"
  "cyc_tnum (tnum (SET_FILT_LIST p f)) = cyc_tnum (tnum p)"
  "tnum (SET_FILT_LIST p f) = T_PLIST_FFE \<longleftrightarrow> tnum p = T_PLIST_FFE"
  "tnum (SET_FILT_LIST p f) = T_PLIST_EMPTY \<longleftrightarrow> tnum p = T_PLIST_EMPTY"
proof -
  have "(SET_FILT_LIST p f = p) \<or> (\<exists>t'. SET_FILT_LIST p f = p\<lparr>tnum := t'\<rparr> \<and> set_entry_ok (tnum p, f, Some t'))"
    using SET_FILT_LIST_entry [of p f] SetFiltTab_entry by blast
  then show "g \<in> set (claims (tnum (SET_FILT_LIST p f))) \<Longrightarrow> g \<in> set (claims (tnum p)) \<or> g \<in> set (follows f)"
    "g \<in> set (claims (tnum p)) \<Longrightarrow> g \<in> set (claims (tnum (SET_FILT_LIST p f)))"
    "cyc_tnum (tnum (SET_FILT_LIST p f)) = cyc_tnum (tnum p)"
    "tnum (SET_FILT_LIST p f) = T_PLIST_FFE \<longleftrightarrow> tnum p = T_PLIST_FFE"
    "tnum (SET_FILT_LIST p f) = T_PLIST_EMPTY \<longleftrightarrow> tnum p = T_PLIST_EMPTY"
    by (auto simp: list_all_iff set_entry_ok_def)
qed

lemma RESET_FILT_LIST_claims:
  "g \<in> set (claims (tnum (RESET_FILT_LIST p f))) \<Longrightarrow> g \<in> set (claims (tnum p)) \<and> g \<noteq> f"
  "f \<notin> set (claims (tnum p)) \<Longrightarrow> RESET_FILT_LIST p f = p"
  "cyc_tnum (tnum (RESET_FILT_LIST p f)) \<Longrightarrow> cyc_tnum (tnum p)"
  "tnum (RESET_FILT_LIST p f) = T_PLIST_FFE \<Longrightarrow> tnum p = T_PLIST_FFE"
  "tnum (RESET_FILT_LIST p f) = T_PLIST_EMPTY \<Longrightarrow> tnum p = T_PLIST_EMPTY"
proof -
  obtain t' where t': "RESET_FILT_LIST p f = p\<lparr>tnum := t'\<rparr>" "reset_entry_ok (tnum p, f, Some t')"
    using RESET_FILT_LIST_entry [of p f] ResetFiltTab_entry by blast
  note ok = t'(2) [unfolded reset_entry_ok_def prod.case option.case list_all_iff]
  have t: "tnum (RESET_FILT_LIST p f) = t'" by (simp add: t'(1))
  show "g \<in> set (claims (tnum (RESET_FILT_LIST p f))) \<Longrightarrow> g \<in> set (claims (tnum p)) \<and> g \<noteq> f"
    "cyc_tnum (tnum (RESET_FILT_LIST p f)) \<Longrightarrow> cyc_tnum (tnum p)"
    "tnum (RESET_FILT_LIST p f) = T_PLIST_FFE \<Longrightarrow> tnum p = T_PLIST_FFE"
    "tnum (RESET_FILT_LIST p f) = T_PLIST_EMPTY \<Longrightarrow> tnum p = T_PLIST_EMPTY"
    unfolding t using ok by blast+
  show "RESET_FILT_LIST p f = p" if "f \<notin> set (claims (tnum p))"
  proof -
    have "t' = tnum p" using ok that by blast
    then show ?thesis unfolding t'(1) by (cases p) simp
  qed
qed

text \<open>An entry -1 is only reached when the filter contradicts the type.\<close>

lemma SET_FILT_LIST_bad:
  assumes "SetFiltListTNums (TNUM_OBJ p, f) = BadEntry"
  shows "tnum p = T_PLIST_EMPTY \<or>
    (\<exists>g h. g \<in> set (follows f) \<and> opposite g = Some h \<and> h \<in> set (claims (tnum p))) \<or>
    (f \<in> {FN_IS_TABLE, FN_IS_RECT} \<and> (cyc_tnum (tnum p) \<or> tnum p = T_PLIST_FFE))"
proof -
  have "(tnum p, f, None) \<in> set SetFiltTab"
    using fold_table [of "tnum p" f SetFiltTab table_value "\<lambda>_. NoEntry" "immutable p"] assms
    by (auto simp: SetFiltListTNums_def InitSetFiltListTNumsFromTable_def TNUM_OBJ_def table_value_def
        split: option.splits)
  from SetFiltTab_entry [OF this] show ?thesis
    by (auto simp: list_ex_iff set_entry_ok_def split: option.splits)
qed

lemma claims_closed: "f \<in> set (claims t) \<Longrightarrow> set (follows f) \<subseteq> set (claims t)"
  by (cases t) auto

lemma claims_consistent: "f \<in> set (claims t) \<Longrightarrow> opposite f = Some g \<Longrightarrow> g \<notin> set (claims t)"
  by (cases t) auto

subsection \<open>The rule behind the tables\<close>

text \<open>
  The types fall into four kinds: the empty list, lists of cyclotomics, lists of finite field elements and all
  others; within a kind a type is determined by its claims.
\<close>

definition same_kind :: "plist_tnum \<Rightarrow> plist_tnum \<Rightarrow> bool" where
  "same_kind t t' \<longleftrightarrow> (t = T_PLIST_EMPTY) = (t' = T_PLIST_EMPTY) \<and> cyc_tnum t = cyc_tnum t' \<and>
     (t = T_PLIST_FFE) = (t' = T_PLIST_FFE)"

text \<open>The type that adds the filter and what follows from it to the claims of a type.\<close>

definition adds_claim :: "plist_tnum \<Rightarrow> FilterNumber \<Rightarrow> plist_tnum \<Rightarrow> bool" where
  "adds_claim t f t' \<longleftrightarrow> same_kind t t' \<and> set (claims t') = set (claims t) \<union> set (follows f)"

text \<open>
  The claims left when a filter is reset: those from which the filter does not follow. There is no type for sortedness
  without a claim on homogeneity, and four types fall back to no claim at all.
\<close>

definition kept_claims :: "plist_tnum \<Rightarrow> FilterNumber \<Rightarrow> FilterNumber set" where
  "kept_claims t f =
     (if f \<notin> set (claims t) then set (claims t)
      else if t = T_PLIST_EMPTY \<or> f = FN_IS_HOMOG \<and> t \<in> {T_PLIST_CYC_SSORT, T_PLIST_CYC_NSORT, T_PLIST_FFE} then {}
      else {g \<in> set (claims t). f \<notin> set (follows g) \<and>
        \<not> (f \<in> {FN_IS_HOMOG, FN_IS_NHOMOG} \<and> g \<in> {FN_IS_SSORT, FN_IS_NSORT})})"

definition all_tnums :: "plist_tnum list" where
  "all_tnums = map fst ClearFiltsTab"

lemma all_tnums_all: "t \<in> set all_tnums"
  by (cases t) (simp_all add: all_tnums_def ClearFiltsTab_def)

definition set_entry_exact :: "plist_tnum \<times> FilterNumber \<times> plist_tnum option \<Rightarrow> bool" where
  "set_entry_exact = (\<lambda>(t, f, v). list_all (\<lambda>t'. adds_claim t f t' \<longrightarrow>
       v = Some (if t = T_PLIST \<and> f = FN_IS_NHOMOG then t else t')) all_tnums \<and>
     (list_ex (adds_claim t f) all_tnums \<or> v \<in> {None, Some t}))"

definition reset_entry_exact :: "plist_tnum \<times> FilterNumber \<times> plist_tnum option \<Rightarrow> bool" where
  "reset_entry_exact = (\<lambda>(t, f, v). case v of None \<Rightarrow> False
     | Some t' \<Rightarrow> set (claims t') = kept_claims t f \<and>
         (same_kind t t' \<or> same_kind T_PLIST t' \<and>
            list_all (\<lambda>u. same_kind t u \<longrightarrow> set (claims u) \<noteq> kept_claims t f) all_tnums))"

lemma SetFiltTab_exact: "list_all set_entry_exact SetFiltTab"
  by code_simp

lemma ResetFiltTab_exact: "list_all reset_entry_exact ResetFiltTab"
  by code_simp

lemma claims_of_kind: "same_kind t t' \<Longrightarrow> set (claims t) = set (claims t') \<Longrightarrow> t = t'"
proof -
  have "list_all (\<lambda>t. list_all (\<lambda>t'. same_kind t t' \<longrightarrow> set (claims t) = set (claims t') \<longrightarrow> t = t') all_tnums) all_tnums"
    by code_simp
  then show "same_kind t t' \<Longrightarrow> set (claims t) = set (claims t') \<Longrightarrow> t = t'"
    using all_tnums_all by (simp add: list_all_iff)
qed

lemma SET_FILT_LIST_exact:
  "adds_claim (tnum p) f t' \<Longrightarrow> \<not> (tnum p = T_PLIST \<and> f = FN_IS_NHOMOG) \<Longrightarrow> SET_FILT_LIST p f = p\<lparr>tnum := t'\<rparr>"
  "(\<nexists>t'. adds_claim (tnum p) f t') \<or> tnum p = T_PLIST \<and> f = FN_IS_NHOMOG \<Longrightarrow> SET_FILT_LIST p f = p"
proof -
  obtain v where v: "(tnum p, f, v) \<in> set SetFiltTab"
    "SET_FILT_LIST p f = (case v of None \<Rightarrow> p | Some t' \<Rightarrow> p\<lparr>tnum := t'\<rparr>)"
    using SET_FILT_LIST_entry [of p f] by force
  have ex: "set_entry_exact (tnum p, f, v)" using SetFiltTab_exact v(1) by (simp only: list_all_iff)
  have add: "v = Some (if tnum p = T_PLIST \<and> f = FN_IS_NHOMOG then tnum p else t')" if "adds_claim (tnum p) f t'" for t'
    using ex that all_tnums_all [of t'] by (simp add: set_entry_exact_def list_all_iff)
  show "SET_FILT_LIST p f = p\<lparr>tnum := t'\<rparr>" if "adds_claim (tnum p) f t'" "\<not> (tnum p = T_PLIST \<and> f = FN_IS_NHOMOG)"
  proof -
    have "v = Some t'" using add [OF that(1)] unfolding if_not_P [OF that(2)] .
    then show ?thesis using v(2) by simp
  qed
  have keep: "p\<lparr>tnum := tnum p\<rparr> = p" by (cases p) simp
  have "v \<in> {None, Some (tnum p)}" if "\<nexists>t'. adds_claim (tnum p) f t'"
    using ex that by (simp add: set_entry_exact_def list_ex_iff)
  then have none: "SET_FILT_LIST p f = p" if "\<nexists>t'. adds_claim (tnum p) f t'"
    using that v(2) keep by auto
  have "SET_FILT_LIST p f = p" if "adds_claim (tnum p) f t'" "tnum p = T_PLIST \<and> f = FN_IS_NHOMOG" for t'
    using add [OF that(1)] that(2) v(2) keep by simp
  with none show "(\<nexists>t'. adds_claim (tnum p) f t') \<or> tnum p = T_PLIST \<and> f = FN_IS_NHOMOG \<Longrightarrow> SET_FILT_LIST p f = p"
    by blast
qed

lemma RESET_FILT_LIST_exact:
  obtains t' where "RESET_FILT_LIST p f = p\<lparr>tnum := t'\<rparr>" "set (claims t') = kept_claims (tnum p) f"
    "same_kind (tnum p) t' \<or>
     same_kind T_PLIST t' \<and> (\<nexists>u. same_kind (tnum p) u \<and> set (claims u) = kept_claims (tnum p) f)"
proof -
  obtain t' where t': "(tnum p, f, Some t') \<in> set ResetFiltTab" "RESET_FILT_LIST p f = p\<lparr>tnum := t'\<rparr>"
    using RESET_FILT_LIST_entry [of p f] by blast
  then have "reset_entry_exact (tnum p, f, Some t')" using ResetFiltTab_exact by (simp only: list_all_iff)
  then show ?thesis using that [OF t'(2)] all_tnums_all by (auto simp: reset_entry_exact_def list_all_iff)
qed

text \<open>C27: The filter tables follow one rule. The tester reads off claims that are closed under implication, never
  contradictory and the same for the mutable and the immutable type. \<open>SET_FILT_LIST\<close> changes the type to the one of the same
  kind that claims what was claimed and what follows from the filter, and leaves the list alone if there is no such type; the only
  exception is the filter for inhomogeneous lists on a list of which nothing is known, which is not recorded. \<open>RESET_FILT_LIST\<close> leaves
  exactly the claims of \<open>kept_claims\<close>, and the kind unless no type of this kind claims only them, \<open>CLEAR_FILTS_LIST\<close>
  leaves no claim, and all three keep the entries and the mutability of the list.\<close>

theorem filter_tables_sound:
  fixes p :: "'a plist"
  shows "(\<Union>g \<in> {g. HAS_FILT_LIST p g}. set (follows g)) = {g. HAS_FILT_LIST p g} \<and>
    \<not> (HAS_FILT_LIST p f \<and> opposite f = Some g \<and> HAS_FILT_LIST p g) \<and>
    HAS_FILT_LIST (p\<lparr>immutable := b\<rparr>) f = HAS_FILT_LIST p f \<and>
    (if tnum p = T_PLIST \<and> f = FN_IS_NHOMOG then SET_FILT_LIST p f = p
     else (\<exists>t'. same_kind (tnum p) t' \<and> {g. HAS_FILT_LIST (p\<lparr>tnum := t'\<rparr>) g} = {g. HAS_FILT_LIST p g} \<union> set (follows f) \<and>
             SET_FILT_LIST p f = p\<lparr>tnum := t'\<rparr>) \<or>
          (\<nexists>t'. same_kind (tnum p) t' \<and> {g. HAS_FILT_LIST (p\<lparr>tnum := t'\<rparr>) g} = {g. HAS_FILT_LIST p g} \<union> set (follows f)) \<and>
             SET_FILT_LIST p f = p) \<and>
    (\<exists>t'. RESET_FILT_LIST p f = p\<lparr>tnum := t'\<rparr> \<and> {g. HAS_FILT_LIST (p\<lparr>tnum := t'\<rparr>) g} = kept_claims (tnum p) f \<and>
      (same_kind (tnum p) t' \<or> same_kind T_PLIST t' \<and>
        (\<nexists>u. same_kind (tnum p) u \<and> {g. HAS_FILT_LIST (p\<lparr>tnum := u\<rparr>) g} = kept_claims (tnum p) f))) \<and>
    CLEAR_FILTS_LIST p = p\<lparr>tnum := T_PLIST\<rparr> \<and> {g. HAS_FILT_LIST (CLEAR_FILTS_LIST p) g} = {}"
proof -
  have cl: "{g. HAS_FILT_LIST q g} = set (claims (tnum q))" for q :: "'a plist" by simp
  have fs: "f \<in> set (follows f)" for f by (cases f) auto
  have closed: "(\<Union>g \<in> {g. HAS_FILT_LIST p g}. set (follows g)) = {g. HAS_FILT_LIST p g}"
    using claims_closed fs unfolding cl by blast
  have consistent: "\<not> (HAS_FILT_LIST p f \<and> opposite f = Some g \<and> HAS_FILT_LIST p g)"
    by (auto dest: claims_consistent)
  have adds: "same_kind (tnum p) t' \<and> {g. HAS_FILT_LIST (p\<lparr>tnum := t'\<rparr>) g} = {g. HAS_FILT_LIST p g} \<union> set (follows f) \<longleftrightarrow>
      adds_claim (tnum p) f t'" for t' unfolding cl adds_claim_def by simp
  have set: "if tnum p = T_PLIST \<and> f = FN_IS_NHOMOG then SET_FILT_LIST p f = p
     else (\<exists>t'. adds_claim (tnum p) f t' \<and> SET_FILT_LIST p f = p\<lparr>tnum := t'\<rparr>) \<or>
          (\<nexists>t'. adds_claim (tnum p) f t') \<and> SET_FILT_LIST p f = p"
  proof (cases "tnum p = T_PLIST \<and> f = FN_IS_NHOMOG")
    case True
    then show ?thesis using SET_FILT_LIST_exact(2) [of p f] by simp
  next
    case False
    then show ?thesis using SET_FILT_LIST_exact [of p f] unfolding if_not_P [OF False] by blast
  qed
  have reset: "\<exists>t'. RESET_FILT_LIST p f = p\<lparr>tnum := t'\<rparr> \<and> {g. HAS_FILT_LIST (p\<lparr>tnum := t'\<rparr>) g} = kept_claims (tnum p) f \<and>
      (same_kind (tnum p) t' \<or> same_kind T_PLIST t' \<and>
        (\<nexists>u. same_kind (tnum p) u \<and> {g. HAS_FILT_LIST (p\<lparr>tnum := u\<rparr>) g} = kept_claims (tnum p) f))"
    unfolding cl by (rule RESET_FILT_LIST_exact [of p f]) auto
  show ?thesis
    by (intro conjI closed consistent reset set [folded adds, unfolded conj_assoc]) simp_all
qed

end
