(* ===== verification/ListObj.thy ===== *)
theory ListObj
  imports Plist Rational SortCorrect
begin

text \<open>
  Plain lists over objects: the accessors of \<open>src/src/plist.h\<close>, the comparison of plain lists and the
  tests for strictly sorted lists of \<open>src/src/plist.c\<close> with their dispatch table. What a list
  needs to know of its entries is the record \<open>objops\<close> of the operations the kernel dispatches on the
  type of an object; the locale \<open>ordered_objects\<close> states their laws, and it is interpreted on the
  rational numbers of the kernel and, through \<open>LtPlist\<close>, on plain lists. \<open>type_ok\<close> says that
  everything the type of a list claims is true of its entries.
\<close>

subsection \<open>Operations on objects\<close>

text \<open>
  \<open>IDENT\<close> is the comparison \<open>a == b\<close> of two references; \<open>IS_HOMOG_LIST\<close> and \<open>LEN_LIST\<close> are asked of
  entries that may themselves be lists.
\<close>

record 'a objops =
  IDENT :: "'a \<Rightarrow> 'a \<Rightarrow> bool"
  EQ :: "'a \<Rightarrow> 'a \<Rightarrow> bool"
  LT :: "'a \<Rightarrow> 'a \<Rightarrow> bool"
  FAMILY_OBJ :: "'a \<Rightarrow> nat"
  IS_MUTABLE_OBJ :: "'a \<Rightarrow> bool"
  IS_CYC :: "'a \<Rightarrow> bool"
  IS_FFE :: "'a \<Rightarrow> bool"
  IS_HOMOG_LIST :: "'a \<Rightarrow> bool"
  LEN_LIST :: "'a \<Rightarrow> nat"
  SyInitializing :: bool

definition LEN_PLIST :: "'a plist \<Rightarrow> nat" where
  "LEN_PLIST list = length (elms list)"

definition ELM_PLIST :: "'a plist \<Rightarrow> nat \<Rightarrow> 'a option" where
  "ELM_PLIST list i = elms list ! (i - 1)"

definition SET_ELM_PLIST :: "'a plist \<Rightarrow> nat \<Rightarrow> 'a option \<Rightarrow> 'a plist" where
  "SET_ELM_PLIST list i v = list\<lparr>elms := (elms list)[i - 1 := v]\<rparr>"

text \<open>\<open>NEW_PLIST\<close> with the length set, the entries still to be assigned.\<close>

definition NEW_PLIST :: "plist_tnum \<Rightarrow> nat \<Rightarrow> 'a plist" where
  "NEW_PLIST t len = \<lparr>tnum = t, immutable = False, elms = replicate len None\<rparr>"

text \<open>The comparison of types is by the order of the enumeration.\<close>

definition IS_DENSE_PLIST :: "'a plist \<Rightarrow> bool" where
  "IS_DENSE_PLIST list = (tnum list \<notin> {T_PLIST, T_PLIST_NDENSE})"

subsection \<open>Comparison of plain lists\<close>

text \<open>\<open>EQ\<close> of two absent entries compares null references and holds.\<close>

definition EQ0 :: "'a objops \<Rightarrow> 'a option \<Rightarrow> 'a option \<Rightarrow> bool" where
  "EQ0 ops a b = (case (a, b) of (None, None) \<Rightarrow> True | (Some x, Some y) \<Rightarrow> EQ ops x y | _ \<Rightarrow> False)"

fun eq_plist_loop :: "'a objops \<Rightarrow> 'a option list \<Rightarrow> 'a option list \<Rightarrow> bool" where
  "eq_plist_loop ops (elmL # ls) (elmR # rs) =
     (if (elmL = None) \<noteq> (elmR = None) \<or> \<not> EQ0 ops elmL elmR then False else eq_plist_loop ops ls rs)"
| "eq_plist_loop ops _ _ = True"

definition EqPlist :: "'a objops \<Rightarrow> 'a plist \<Rightarrow> 'a plist \<Rightarrow> bool" where
  "EqPlist ops left right =
     (if LEN_PLIST left \<noteq> LEN_PLIST right then False else eq_plist_loop ops (elms left) (elms right))"

fun lt_plist_loop :: "'a objops \<Rightarrow> bool \<Rightarrow> 'a option list \<Rightarrow> 'a option list \<Rightarrow> bool" where
  "lt_plist_loop ops res (elmL # ls) (elmR # rs) =
     (case (elmL, elmR) of
        (None, Some y) \<Rightarrow> True
      | (Some x, None) \<Rightarrow> False
      | (None, None) \<Rightarrow> lt_plist_loop ops res ls rs
      | (Some x, Some y) \<Rightarrow> if \<not> EQ ops x y then LT ops x y else lt_plist_loop ops res ls rs)"
| "lt_plist_loop ops res _ _ = res"

definition LtPlist :: "'a objops \<Rightarrow> 'a plist \<Rightarrow> 'a plist \<Rightarrow> bool" where
  "LtPlist ops left right =
     lt_plist_loop ops (LEN_PLIST left < LEN_PLIST right) (elms left) (elms right)"

subsection \<open>Tests for strictly sorted lists\<close>

text \<open>
  The loop of \<open>IsSSortPlist\<close>: \<open>None\<close> is the jump to \<open>notDense\<close>; otherwise the result says whether the end
  was reached, with \<open>areMut\<close> and \<open>isHom\<close>.
\<close>

fun ssort_loop :: "'a objops \<Rightarrow> nat \<Rightarrow> 'a \<Rightarrow> bool \<Rightarrow> bool \<Rightarrow> 'a option list \<Rightarrow> (bool \<times> bool \<times> bool) option" where
  "ssort_loop ops fam elm1 areMut isHom [] = Some (True, areMut, isHom)"
| "ssort_loop ops fam elm1 areMut isHom (None # rest) = None"
| "ssort_loop ops fam elm1 areMut isHom (Some elm2 # rest) =
     (if \<not> LT ops elm1 elm2 then Some (False, areMut, isHom)
      else ssort_loop ops fam elm2 (areMut \<or> IS_MUTABLE_OBJ ops elm2)
             (isHom \<and> fam = FAMILY_OBJ ops elm2) rest)"

definition IsSSortPlist :: "'a objops \<Rightarrow> 'a plist \<Rightarrow> 'a plist \<times> bool" where
  "IsSSortPlist ops list =
     (if LEN_PLIST list = 0 then (RetypeBagSM list T_PLIST_EMPTY, True)
      else case ELM_PLIST list 1 of
        None \<Rightarrow> (SET_FILT_LIST list FN_IS_NDENSE, False)
      | Some elm1 \<Rightarrow>
          (case ssort_loop ops (FAMILY_OBJ ops elm1) elm1 (IS_MUTABLE_OBJ ops elm1) (\<not> SyInitializing ops)
                  (tl (elms list)) of
             None \<Rightarrow> (SET_FILT_LIST list FN_IS_NDENSE, False)
           | Some (at_end, areMut, isHom) \<Rightarrow>
               (let list1 = (if \<not> areMut \<and> \<not> isHom then SET_FILT_LIST list FN_IS_NHOMOG else list) in
                if at_end then
                  let list2 = SET_FILT_LIST list1 FN_IS_DENSE;
                      list3 = (if \<not> areMut then
                                 SET_FILT_LIST
                                   (SET_FILT_LIST list2 (if isHom then FN_IS_HOMOG else FN_IS_NHOMOG))
                                   FN_IS_SSORT
                               else list2)
                  in (list3, True)
                else (if \<not> areMut then SET_FILT_LIST list1 FN_IS_NSORT else list1, False))))"

text \<open>The dense variants do not look for holes.\<close>

fun ssort_loop_dense :: "'a objops \<Rightarrow> nat \<Rightarrow> 'a \<Rightarrow> bool \<Rightarrow> bool \<Rightarrow> 'a list \<Rightarrow> bool \<times> bool \<times> bool" where
  "ssort_loop_dense ops fam elm1 areMut isHom [] = (True, areMut, isHom)"
| "ssort_loop_dense ops fam elm1 areMut isHom (elm2 # rest) =
     (if \<not> LT ops elm1 elm2 then (False, areMut, isHom)
      else ssort_loop_dense ops fam elm2 (areMut \<or> IS_MUTABLE_OBJ ops elm2)
             (isHom \<and> fam = FAMILY_OBJ ops elm2) rest)"

definition entries :: "'a plist \<Rightarrow> 'a list" where
  "entries list = map the (elms list)"

definition IsSSortPlistDense :: "'a objops \<Rightarrow> 'a plist \<Rightarrow> 'a plist \<times> bool" where
  "IsSSortPlistDense ops list =
     (if LEN_PLIST list = 0 then (RetypeBagSM list T_PLIST_EMPTY, True)
      else
        let elm1 = the (ELM_PLIST list 1);
            (at_end, areMut, isHom) = ssort_loop_dense ops (FAMILY_OBJ ops elm1) elm1
               (IS_MUTABLE_OBJ ops elm1) (\<not> SyInitializing ops) (tl (entries list));
            list1 = (if \<not> areMut \<and> \<not> isHom then SET_FILT_LIST list FN_IS_NHOMOG else list)
        in if at_end then
             (if \<not> areMut then
                SET_FILT_LIST (SET_FILT_LIST list1 (if isHom then FN_IS_HOMOG else FN_IS_NHOMOG)) FN_IS_SSORT
              else list1, True)
           else (if \<not> areMut then SET_FILT_LIST list1 FN_IS_NSORT else list1, False))"

fun ssort_loop_hom :: "'a objops \<Rightarrow> 'a \<Rightarrow> 'a list \<Rightarrow> bool" where
  "ssort_loop_hom ops elm1 [] = True"
| "ssort_loop_hom ops elm1 (elm2 # rest) =
     (if \<not> LT ops elm1 elm2 then False else ssort_loop_hom ops elm2 rest)"

definition IsSSortPlistHom :: "'a objops \<Rightarrow> 'a plist \<Rightarrow> 'a plist \<times> bool" where
  "IsSSortPlistHom ops list =
     (if LEN_PLIST list = 0 then (RetypeBagSM list T_PLIST_EMPTY, True)
      else if ssort_loop_hom ops (the (ELM_PLIST list 1)) (tl (entries list))
      then (SET_FILT_LIST list FN_IS_SSORT, True)
      else (SET_FILT_LIST list FN_IS_NSORT, False))"

text \<open>The table \<open>IsSSortListFuncs\<close> for the types of plain lists.\<close>

definition IS_SSORT_LIST :: "'a objops \<Rightarrow> 'a plist \<Rightarrow> 'a plist \<times> bool" where
  "IS_SSORT_LIST ops list = (case tnum list of
     T_PLIST \<Rightarrow> IsSSortPlist ops list
   | T_PLIST_NDENSE \<Rightarrow> (list, False)
   | T_PLIST_DENSE \<Rightarrow> IsSSortPlistDense ops list
   | T_PLIST_DENSE_NHOM \<Rightarrow> IsSSortPlistDense ops list
   | T_PLIST_DENSE_NHOM_SSORT \<Rightarrow> (list, True)
   | T_PLIST_DENSE_NHOM_NSORT \<Rightarrow> (list, False)
   | T_PLIST_EMPTY \<Rightarrow> (list, True)
   | T_PLIST_HOM \<Rightarrow> IsSSortPlistHom ops list
   | T_PLIST_HOM_NSORT \<Rightarrow> (list, False)
   | T_PLIST_HOM_SSORT \<Rightarrow> (list, True)
   | T_PLIST_TAB \<Rightarrow> IsSSortPlistHom ops list
   | T_PLIST_TAB_NSORT \<Rightarrow> (list, False)
   | T_PLIST_TAB_SSORT \<Rightarrow> (list, True)
   | T_PLIST_TAB_RECT \<Rightarrow> IsSSortPlistHom ops list
   | T_PLIST_TAB_RECT_NSORT \<Rightarrow> (list, False)
   | T_PLIST_TAB_RECT_SSORT \<Rightarrow> (list, True)
   | T_PLIST_CYC \<Rightarrow> IsSSortPlistHom ops list
   | T_PLIST_CYC_NSORT \<Rightarrow> (list, False)
   | T_PLIST_CYC_SSORT \<Rightarrow> (list, True)
   | T_PLIST_FFE \<Rightarrow> IsSSortPlistHom ops list)"

definition IsDensePlist :: "'a plist \<Rightarrow> 'a plist \<times> bool" where
  "IsDensePlist list =
     (if LEN_PLIST list = 0 then (RetypeBagSM list T_PLIST_EMPTY, True)
      else if list_ex (\<lambda>elm. elm = None) (elms list) then (list, False)
      else (SET_FILT_LIST list FN_IS_DENSE, True))"

subsection \<open>The laws of objects\<close>

locale ordered_objects = weak_order_on "LT ops" D
  for ops :: "'a objops" and D :: "'a set" +
  assumes EQ_iff: "a \<in> D \<Longrightarrow> b \<in> D \<Longrightarrow> EQ ops a b \<longleftrightarrow> \<not> LT ops a b \<and> \<not> LT ops b a"
    and IDENT_EQ: "a \<in> D \<Longrightarrow> b \<in> D \<Longrightarrow> IDENT ops a b \<Longrightarrow> EQ ops a b"
    and EQ_kind: "a \<in> D \<Longrightarrow> b \<in> D \<Longrightarrow> EQ ops a b \<Longrightarrow>
       FAMILY_OBJ ops a = FAMILY_OBJ ops b \<and> IS_CYC ops a = IS_CYC ops b \<and> IS_FFE ops a = IS_FFE ops b \<and>
       IS_HOMOG_LIST ops a = IS_HOMOG_LIST ops b \<and> LEN_LIST ops a = LEN_LIST ops b"

subsection \<open>What the types claim\<close>

definition dense :: "'a option list \<Rightarrow> bool" where
  "dense xs \<longleftrightarrow> None \<notin> set xs"

definition homog :: "'a objops \<Rightarrow> 'a list \<Rightarrow> bool" where
  "homog ops xs \<longleftrightarrow> (\<forall>x \<in> set xs. \<forall>y \<in> set xs. FAMILY_OBJ ops x = FAMILY_OBJ ops y)"

definition same_length :: "'a objops \<Rightarrow> 'a list \<Rightarrow> bool" where
  "same_length ops xs \<longleftrightarrow> (\<forall>x \<in> set xs. \<forall>y \<in> set xs. LEN_LIST ops x = LEN_LIST ops y)"

fun holds :: "'a objops \<Rightarrow> FilterNumber \<Rightarrow> 'a option list \<Rightarrow> bool" where
  "holds ops FN_IS_DENSE xs \<longleftrightarrow> dense xs"
| "holds ops FN_IS_NDENSE xs \<longleftrightarrow> \<not> dense xs"
| "holds ops FN_IS_SSORT xs \<longleftrightarrow> dense xs \<and> sorted_wrt (LT ops) (map the xs)"
| "holds ops FN_IS_NSORT xs \<longleftrightarrow> dense xs \<and> \<not> sorted_wrt (LT ops) (map the xs)"
| "holds ops FN_IS_HOMOG xs \<longleftrightarrow> dense xs \<and> homog ops (map the xs)"
| "holds ops FN_IS_NHOMOG xs \<longleftrightarrow> dense xs \<and> \<not> homog ops (map the xs)"
| "holds ops FN_IS_TABLE xs \<longleftrightarrow> dense xs \<and> homog ops (map the xs) \<and>
     (\<forall>x \<in> set (map the xs). IS_HOMOG_LIST ops x)"
| "holds ops FN_IS_RECT xs \<longleftrightarrow> dense xs \<and> homog ops (map the xs) \<and>
     (\<forall>x \<in> set (map the xs). IS_HOMOG_LIST ops x) \<and>
     same_length ops (map the xs)"

definition type_ok :: "'a objops \<Rightarrow> 'a plist \<Rightarrow> bool" where
  "type_ok ops p \<longleftrightarrow> (\<forall>f \<in> set (claims (tnum p)). holds ops f (elms p)) \<and>
     (tnum p = T_PLIST_EMPTY \<longrightarrow> elms p = []) \<and>
     (cyc_tnum (tnum p) \<longrightarrow> (\<forall>x \<in> set (entries p). IS_CYC ops x)) \<and>
     (tnum p = T_PLIST_FFE \<longrightarrow> (\<forall>x \<in> set (entries p). IS_FFE ops x))"

lemma holds_follows: "holds ops f xs \<Longrightarrow> g \<in> set (follows f) \<Longrightarrow> holds ops g xs"
  by (cases f; cases g) simp_all

lemma type_ok_SET:
  assumes "type_ok ops p" "holds ops f (elms p)"
  shows "type_ok ops (SET_FILT_LIST p f)"
proof -
  have "holds ops g (elms p)" if "g \<in> set (claims (tnum (SET_FILT_LIST p f)))" for g
    using SET_FILT_LIST_claims(1) [OF that] assms holds_follows by (metis type_ok_def)
  then show ?thesis using assms(1) by (simp add: type_ok_def entries_def SET_FILT_LIST_claims(3-5))
qed

lemma type_ok_RESET: "type_ok ops p \<Longrightarrow> type_ok ops (RESET_FILT_LIST p f)"
  using RESET_FILT_LIST_claims(1) [of _ p f] RESET_FILT_LIST_claims(3-5) [of p f]
  unfolding type_ok_def entries_def filt_keeps by blast

lemma type_ok_T_PLIST: "type_ok ops (p\<lparr>tnum := T_PLIST\<rparr>)"
  by (simp add: type_ok_def cyc_tnum_def)

lemma type_ok_claims: "type_ok ops p \<Longrightarrow> f \<in> set (claims (tnum p)) \<Longrightarrow> holds ops f (elms p)"
  by (simp add: type_ok_def)

lemma SetFiltTab_distinct: "distinct (map (\<lambda>(t, f, v). (t, f)) SetFiltTab)"
  by code_simp

lemma SET_FILT_LIST_at:
  assumes "(tnum p, f, v) \<in> set SetFiltTab"
  shows "SET_FILT_LIST p f = (case v of None \<Rightarrow> p | Some t' \<Rightarrow> p\<lparr>tnum := t'\<rparr>)"
proof -
  have "v' = v" if "(tnum p, f, v') \<in> set SetFiltTab" for v'
    using eq_key_imp_eq_value [of "map (\<lambda>(t, f, v). ((t, f), v)) SetFiltTab" "(tnum p, f)" v' v]
      SetFiltTab_distinct that assms by (force simp: comp_def case_prod_unfold)
  then show ?thesis using SET_FILT_LIST_entry [of p f] by auto
qed

lemma SET_T_PLIST:
  assumes "tnum p = T_PLIST" "f \<in> {FN_IS_NHOMOG, FN_IS_SSORT, FN_IS_NSORT}"
  shows "SET_FILT_LIST p f = p"
proof -
  have "(T_PLIST, f, Some T_PLIST) \<in> set SetFiltTab" using assms(2) by (auto simp: SetFiltTab_def)
  then show ?thesis using SET_FILT_LIST_at [of p f "Some T_PLIST"] assms(1) by (cases p) simp
qed

subsection \<open>The test for strictly sorted lists\<close>

lemma dense_map_the: "dense xs \<Longrightarrow> map Some (map the xs) = xs"
  by (induction xs) (auto simp: dense_def)

lemma ssort_loop_dense_hom:
  "ssort_loop ops fam e mut hom (map Some xs) = Some (ssort_loop_dense ops fam e mut hom xs)"
  by (induction xs arbitrary: e mut hom) auto

lemma ssort_loop_None: "ssort_loop ops fam e mut hom xs = None \<Longrightarrow> \<not> dense xs"
  by (induction ops fam e mut hom xs rule: ssort_loop.induct) (auto simp: dense_def split: if_splits)

lemma ssort_loop_end: "ssort_loop ops fam e mut hom xs = Some (True, m, h) \<Longrightarrow> dense xs"
  by (induction ops fam e mut hom xs rule: ssort_loop.induct) (auto simp: dense_def split: if_splits)

lemma ssort_loop_dense_fst: "fst (ssort_loop_dense ops fam e mut hom xs) = ssort_loop_hom ops e xs"
  by (induction ops e xs arbitrary: mut hom rule: ssort_loop_hom.induct) auto

lemma ssort_loop_dense_homog:
  assumes "ssort_loop_dense ops fam e mut hom xs = (at_end, m, h)"
  shows "(h \<longrightarrow> hom) \<and> (\<not> h \<longrightarrow> \<not> hom \<or> (\<exists>x \<in> set xs. FAMILY_OBJ ops x \<noteq> fam)) \<and>
    (at_end \<longrightarrow> h \<longrightarrow> (\<forall>x \<in> set xs. FAMILY_OBJ ops x = fam))"
  using assms
proof (induction xs arbitrary: e mut hom)
  case (Cons x xs)
  show ?case
  proof (cases "LT ops e x")
    case True
    then show ?thesis using Cons by fastforce
  qed (use Cons in simp)
qed simp

context ordered_objects
begin

lemma ssort_loop_hom_sorted:
  "set (e # xs) \<subseteq> D \<Longrightarrow> ssort_loop_hom ops e xs \<longleftrightarrow> sorted_wrt (LT ops) (e # xs)"
proof (induction xs arbitrary: e)
  case (Cons x xs)
  then have "LT ops e y" if "LT ops e x" "sorted_wrt (LT ops) (x # xs)" "y \<in> set xs" for y
    using that lt_trans [of e x y] by auto
  with Cons show ?case by auto
qed simp

end

definition objs :: "'a plist \<Rightarrow> 'a set" where
  "objs p = {x. Some x \<in> set (elms p)}"

lemma elms_entries: "dense (elms p) \<Longrightarrow> elms p = map Some (entries p)"
  by (simp only: entries_def dense_map_the)

lemma entries_objs: "dense (elms p) \<Longrightarrow> set (entries p) = objs p"
  unfolding objs_def by (subst elms_entries) auto

lemma objs_keeps [simp]:
  "objs (SET_FILT_LIST p f) = objs p" "objs (RESET_FILT_LIST p f) = objs p" "objs (RetypeBagSM p t) = objs p"
  "entries (SET_FILT_LIST p f) = entries p" "entries (RESET_FILT_LIST p f) = entries p"
  by (simp_all add: objs_def entries_def RetypeBagSM_def)

lemma RetypeBagSM_empty:
  "elms p = [] \<Longrightarrow> type_ok ops (RetypeBagSM p T_PLIST_EMPTY)"
  by (simp add: type_ok_def RetypeBagSM_def dense_def homog_def cyc_tnum_def)

context ordered_objects
begin

definition test_ok :: "'a plist \<Rightarrow> 'a plist \<times> bool \<Rightarrow> bool" where
  "test_ok p qr \<longleftrightarrow> (snd qr \<longleftrightarrow> holds ops FN_IS_SSORT (elms p)) \<and> type_ok ops (fst qr) \<and>
     elms (fst qr) = elms p \<and> immutable (fst qr) = immutable p"

lemma test_ok_empty: "elms p = [] \<Longrightarrow> test_ok p (RetypeBagSM p T_PLIST_EMPTY, True)"
  by (auto simp: test_ok_def RetypeBagSM_empty dense_def) (simp_all add: RetypeBagSM_def)

lemma loop_sorted:
  assumes "entries p = y # ys" "dense (elms p)" "objs p \<subseteq> D"
  shows "ssort_loop_hom ops y ys \<longleftrightarrow> sorted_wrt (LT ops) (entries p)"
  using ssort_loop_hom_sorted [of y ys] entries_objs [OF assms(2)] assms(1,3) by metis

lemma scan_facts:
  assumes "entries p = y # ys" "dense (elms p)" "objs p \<subseteq> D"
    and l: "ssort_loop_dense ops (FAMILY_OBJ ops y) y m0 True ys = (b, m, h)"
  shows "holds ops FN_IS_SSORT (elms p) \<longleftrightarrow> b" "holds ops FN_IS_NSORT (elms p) \<longleftrightarrow> \<not> b"
    "\<not> h \<Longrightarrow> holds ops FN_IS_NHOMOG (elms p)" "b \<Longrightarrow> h \<Longrightarrow> holds ops FN_IS_HOMOG (elms p)"
proof -
  have "b \<longleftrightarrow> sorted_wrt (LT ops) (entries p)"
    using loop_sorted [OF assms(1-3)] ssort_loop_dense_fst [of ops "FAMILY_OBJ ops y" y m0 True ys] l by simp
  then show "holds ops FN_IS_SSORT (elms p) \<longleftrightarrow> b" "holds ops FN_IS_NSORT (elms p) \<longleftrightarrow> \<not> b"
    using assms(2) by (simp_all add: entries_def)
  have "map the (elms p) = y # ys" using assms(1) by (simp add: entries_def)
  then show "\<not> h \<Longrightarrow> holds ops FN_IS_NHOMOG (elms p)" "b \<Longrightarrow> h \<Longrightarrow> holds ops FN_IS_HOMOG (elms p)"
    using ssort_loop_dense_homog [OF l] assms(2) by (auto simp: homog_def)
qed

lemma IsSSortPlistHom_ok:
  assumes "type_ok ops p" "dense (elms p)" "objs p \<subseteq> D"
  shows "test_ok p (IsSSortPlistHom ops p)"
proof (cases "elms p")
  case (Cons x xs)
  then have e: "entries p = the x # map the xs" "ELM_PLIST p 1 = x" "LEN_PLIST p \<noteq> 0"
    by (auto simp: entries_def ELM_PLIST_def LEN_PLIST_def)
  then have "holds ops FN_IS_SSORT (elms p) \<longleftrightarrow> ssort_loop_hom ops (the x) (map the xs)"
    "holds ops FN_IS_NSORT (elms p) \<longleftrightarrow> \<not> ssort_loop_hom ops (the x) (map the xs)"
    using loop_sorted [OF e(1) assms(2,3)] assms(2) by (simp_all add: entries_def)
  with e assms(1) show ?thesis
    by (auto simp: IsSSortPlistHom_def test_ok_def simp del: holds.simps intro!: type_ok_SET)
qed (simp add: IsSSortPlistHom_def LEN_PLIST_def test_ok_empty)

lemma IsSSortPlistDense_ok:
  assumes "type_ok ops p" "dense (elms p)" "objs p \<subseteq> D" "\<not> SyInitializing ops"
  shows "test_ok p (IsSSortPlistDense ops p)"
proof (cases "elms p")
  case (Cons x xs)
  then have e: "entries p = the x # map the xs" "ELM_PLIST p 1 = x" "LEN_PLIST p \<noteq> 0"
    by (auto simp: entries_def ELM_PLIST_def LEN_PLIST_def)
  obtain b m h where l: "ssort_loop_dense ops (FAMILY_OBJ ops (the x)) (the x)
      (IS_MUTABLE_OBJ ops (the x)) True (map the xs) = (b, m, h)" by (metis prod_cases3)
  show ?thesis using e l assms(1,4) scan_facts [OF e(1) assms(2,3) l]
    by (auto simp: IsSSortPlistDense_def test_ok_def Let_def simp del: holds.simps intro!: type_ok_SET)
qed (simp add: IsSSortPlistDense_def LEN_PLIST_def test_ok_empty)

lemma IsSSortPlist_ok:
  assumes "type_ok ops p" "tnum p = T_PLIST" "objs p \<subseteq> D" "\<not> SyInitializing ops"
  shows "test_ok p (IsSSortPlist ops p)"
proof -
  note set_T = SET_T_PLIST [OF assms(2)]
  consider "elms p = []" | xs where "elms p = None # xs" | x xs where "elms p = Some x # xs"
    by (metis neq_Nil_conv option.exhaust)
  then show ?thesis
  proof cases
    case 1
    then show ?thesis by (simp add: IsSSortPlist_def LEN_PLIST_def test_ok_empty)
  next
    case 2
    then show ?thesis using assms(1)
      by (auto simp: IsSSortPlist_def LEN_PLIST_def ELM_PLIST_def test_ok_def dense_def intro!: type_ok_SET)
  next
    case (3 x xs)
    let ?l = "ssort_loop ops (FAMILY_OBJ ops x) x (IS_MUTABLE_OBJ ops x) True xs"
    show ?thesis
    proof (cases "dense xs")
      case True
      then obtain ys where xs: "xs = map Some ys" by (metis dense_map_the)
      have d: "dense (elms p)" using True 3 by (simp add: dense_def)
      have e: "entries p = x # ys" using 3 xs by (simp add: entries_def comp_def)
      obtain b m h where l: "ssort_loop_dense ops (FAMILY_OBJ ops x) x (IS_MUTABLE_OBJ ops x) True ys = (b, m, h)"
        by (metis prod_cases3)
      then have "?l = Some (b, m, h)" by (simp add: xs ssort_loop_dense_hom)
      moreover have "holds ops FN_IS_DENSE (elms p)" using d by simp
      ultimately show ?thesis using 3 assms(1,4) scan_facts [OF e d assms(3) l]
        by (auto simp: IsSSortPlist_def LEN_PLIST_def ELM_PLIST_def test_ok_def Let_def
            simp del: holds.simps intro!: type_ok_SET)
    next
      case False
      then have nd: "\<not> dense (elms p)" using 3 by (simp add: dense_def)
      then have "test_ok p (SET_FILT_LIST p FN_IS_NDENSE, False)"
        using assms(1) by (auto simp: test_ok_def intro!: type_ok_SET)
      moreover have "test_ok p (p, False)" using assms(1) nd by (auto simp: test_ok_def)
      moreover have "?l \<noteq> Some (True, m, h)" for m h
        using ssort_loop_end [of ops "FAMILY_OBJ ops x" x _ True xs m h] False by blast
      ultimately show ?thesis using 3 assms(4) set_T
        by (auto simp: IsSSortPlist_def LEN_PLIST_def ELM_PLIST_def Let_def split: option.split)
    qed
  qed
qed

lemma IS_SSORT_LIST_ok:
  assumes "type_ok ops p" "objs p \<subseteq> D" "\<not> SyInitializing ops"
  shows "test_ok p (IS_SSORT_LIST ops p)"
proof -
  have h: "\<And>f. f \<in> set (claims (tnum p)) \<Longrightarrow> holds ops f (elms p)"
    using assms(1) by (rule type_ok_claims)
  have d: "dense (elms p)" if "FN_IS_DENSE \<in> set (claims (tnum p))" using h [OF that] by simp
  have nd: "\<not> dense (elms p)" if "tnum p = T_PLIST_NDENSE" using h [of FN_IS_NDENSE] that by simp
  have yes: "test_ok p (p, True)" if "FN_IS_SSORT \<in> set (claims (tnum p))"
    using h [OF that] assms(1) by (simp add: test_ok_def)
  have no: "test_ok p (p, False)" if "FN_IS_NSORT \<in> set (claims (tnum p))"
    using h [OF that] assms(1) by (simp add: test_ok_def)
  show ?thesis
  proof (cases "tnum p")
    case T_PLIST
    then show ?thesis using IsSSortPlist_ok assms by (simp add: IS_SSORT_LIST_def)
  next
    case T_PLIST_NDENSE
    then show ?thesis using nd assms(1) by (simp add: IS_SSORT_LIST_def test_ok_def)
  qed (use d yes no IsSSortPlistDense_ok IsSSortPlistHom_ok assms in \<open>simp_all add: IS_SSORT_LIST_def\<close>)
qed

end

subsection \<open>Rational numbers and plain lists as objects\<close>

text \<open>All rational numbers are cyclotomics of the kernel, immutable and of one family.\<close>

definition rat_ops :: "gmp \<Rightarrow> gaprat objops" where
  "rat_ops G = \<lparr>IDENT = (=), EQ = (\<lambda>a b. EQ_num G (a = b) a b), LT = (\<lambda>a b. LT_num G (a = b) a b), FAMILY_OBJ = (\<lambda>_. 0), IS_MUTABLE_OBJ = (\<lambda>_. False),
     IS_CYC = (\<lambda>_. True), IS_FFE = (\<lambda>_. False), IS_HOMOG_LIST = (\<lambda>_. False), LEN_LIST = (\<lambda>_. 0),
     SyInitializing = False\<rparr>"

context gmp_contract
begin

lemma rat_compare:
  "valid_rat a \<Longrightarrow> valid_rat b \<Longrightarrow> EQ_num G (a = b) a b \<longleftrightarrow> rat_val a = rat_val b"
  "valid_rat a \<Longrightarrow> valid_rat b \<Longrightarrow> LT_num G (a = b) a b \<longleftrightarrow> rat_val a < rat_val b"
  using EQ_num_correct [of a b "a = b"] LT_num_correct [of a b "a = b"] by (simp_all add: handles_ok_def)

end

sublocale gmp_contract \<subseteq> rats: ordered_objects "rat_ops G" "{x. valid_rat x}"
proof unfold_locales
  note [simp] = rat_ops_def rat_compare
  show "a \<in> {x. valid_rat x} \<Longrightarrow> b \<in> {x. valid_rat x} \<Longrightarrow> LT (rat_ops G) a b \<Longrightarrow> \<not> LT (rat_ops G) b a" for a b
    by simp
  show "a \<in> {x. valid_rat x} \<Longrightarrow> b \<in> {x. valid_rat x} \<Longrightarrow> c \<in> {x. valid_rat x} \<Longrightarrow> \<not> LT (rat_ops G) a b \<Longrightarrow>
      \<not> LT (rat_ops G) b c \<Longrightarrow> \<not> LT (rat_ops G) a c" for a b c
    by simp
  show "a \<in> {x. valid_rat x} \<Longrightarrow> b \<in> {x. valid_rat x} \<Longrightarrow>
      EQ (rat_ops G) a b = (\<not> LT (rat_ops G) a b \<and> \<not> LT (rat_ops G) b a)" for a b
    by auto
qed (auto simp: rat_ops_def rat_compare)

text \<open>
  Plain lists as entries of lists. The family of a list is computed by the library and is a parameter;
  equal lists have equal families.
\<close>

definition plist_ops :: "('a plist \<Rightarrow> nat) \<Rightarrow> 'a objops \<Rightarrow> 'a plist objops" where
  "plist_ops fam ops = \<lparr>IDENT = (=), EQ = EqPlist ops, LT = LtPlist ops, FAMILY_OBJ = fam,
     IS_MUTABLE_OBJ = (\<lambda>p. \<not> immutable p), IS_CYC = (\<lambda>_. False), IS_FFE = (\<lambda>_. False),
     IS_HOMOG_LIST = (\<lambda>p. holds ops FN_IS_HOMOG (elms p)), LEN_LIST = LEN_PLIST,
     SyInitializing = SyInitializing ops\<rparr>"

fun lt0 :: "'a objops \<Rightarrow> 'a option \<Rightarrow> 'a option \<Rightarrow> bool" where
  "lt0 ops (Some x) (Some y) = LT ops x y"
| "lt0 ops None (Some y) = True"
| "lt0 ops _ None = False"

fun lex_lt :: "'a objops \<Rightarrow> 'a option list \<Rightarrow> 'a option list \<Rightarrow> bool" where
  "lex_lt ops (a # as) (b # bs) = (lt0 ops a b \<or> (\<not> lt0 ops b a \<and> lex_lt ops as bs))"
| "lex_lt ops [] bs = (bs \<noteq> [])"
| "lex_lt ops as [] = False"

definition lifted :: "'a set \<Rightarrow> 'a option set" where
  "lifted D = insert None (Some ` D)"

context ordered_objects
begin

lemma lt0_asym: "a \<in> lifted D \<Longrightarrow> b \<in> lifted D \<Longrightarrow> lt0 ops a b \<Longrightarrow> \<not> lt0 ops b a"
  using lt_asym by (auto simp: lifted_def)

lemma not_lt0_trans:
  "a \<in> lifted D \<Longrightarrow> b \<in> lifted D \<Longrightarrow> c \<in> lifted D \<Longrightarrow> \<not> lt0 ops a b \<Longrightarrow> \<not> lt0 ops b c \<Longrightarrow> \<not> lt0 ops a c"
  using not_lt_trans [of "the a" "the b" "the c"] by (cases a; cases b; cases c) (auto simp: lifted_def)

lemma EQ0_iff: "a \<in> lifted D \<Longrightarrow> b \<in> lifted D \<Longrightarrow> EQ0 ops a b \<longleftrightarrow> \<not> lt0 ops a b \<and> \<not> lt0 ops b a"
  by (cases a; cases b) (auto simp: lifted_def EQ0_def EQ_iff)

lemma lex_lt_asym:
  "set as \<subseteq> lifted D \<Longrightarrow> set bs \<subseteq> lifted D \<Longrightarrow> lex_lt ops as bs \<Longrightarrow> \<not> lex_lt ops bs as"
proof (induction as arbitrary: bs)
  case Nil
  then show ?case by (cases bs) auto
next
  case (Cons a as)
  then show ?case using lt0_asym [of a "hd bs"] by (cases bs) auto
qed

lemma not_lex_lt_trans:
  "set as \<subseteq> lifted D \<Longrightarrow> set bs \<subseteq> lifted D \<Longrightarrow> set cs \<subseteq> lifted D \<Longrightarrow> \<not> lex_lt ops as bs \<Longrightarrow>
   \<not> lex_lt ops bs cs \<Longrightarrow> \<not> lex_lt ops as cs"
proof (induction as arbitrary: bs cs)
  case Nil
  then show ?case by (cases bs; cases cs) auto
next
  case (Cons a as)
  show ?case
  proof (cases cs)
    case cs: (Cons c cs')
    with Cons.prems obtain b bs' where bs: "bs = b # bs'" by (cases bs) auto
    have D: "a \<in> lifted D" "b \<in> lifted D" "c \<in> lifted D" using Cons.prems bs cs by auto
    have "\<not> lt0 ops a b" "\<not> lt0 ops b c" using Cons.prems bs cs by auto
    moreover have "lt0 ops b a \<or> \<not> lex_lt ops as bs'" "lt0 ops c b \<or> \<not> lex_lt ops bs' cs'"
      using Cons.prems bs cs by auto
    moreover have "\<not> lex_lt ops as cs'" if "\<not> lex_lt ops as bs'" "\<not> lex_lt ops bs' cs'"
      using Cons.IH [of bs' cs'] Cons.prems bs cs that by simp
    ultimately show ?thesis
      using not_lt0_trans [OF D] not_lt0_trans [of c a b] not_lt0_trans [of b c a] D cs by auto
  qed simp
qed

lemma eq_plist_loop_iff:
  "length as = length bs \<Longrightarrow> set as \<subseteq> lifted D \<Longrightarrow> set bs \<subseteq> lifted D \<Longrightarrow>
   eq_plist_loop ops as bs \<longleftrightarrow> \<not> lex_lt ops as bs \<and> \<not> lex_lt ops bs as"
proof (induction as bs rule: list_induct2)
  case (Cons a as b bs)
  have "EQ0 ops a b \<Longrightarrow> (a = None) = (b = None)" by (auto simp: EQ0_def split: option.splits)
  then show ?case using Cons EQ0_iff [of a b] by auto
qed simp

lemma lex_lt_length: "\<not> lex_lt ops as bs \<Longrightarrow> \<not> lex_lt ops bs as \<Longrightarrow> length as = length bs"
proof (induction as arbitrary: bs)
  case Nil
  then show ?case by (cases bs) auto
next
  case (Cons a as)
  then show ?case by (cases bs) auto
qed

lemma lt_plist_loop_lex:
  "set as \<subseteq> lifted D \<Longrightarrow> set bs \<subseteq> lifted D \<Longrightarrow>
   lt_plist_loop ops (length as < length bs) as bs = lex_lt ops as bs"
proof (induction as arbitrary: bs)
  case Nil
  then show ?case by (cases bs) auto
next
  case (Cons a as)
  show ?case
  proof (cases bs)
    case bs: (Cons b bs')
    have IH: "lt_plist_loop ops (length as < length bs') as bs' = lex_lt ops as bs'"
      using Cons bs by auto
    show ?thesis
    proof (cases "a = None \<or> b = None")
      case True
      then show ?thesis using IH bs by (cases a; cases b) simp_all
    next
      case False
      then obtain x y where xy: "a = Some x" "b = Some y" by auto
      then have "x \<in> D" "y \<in> D" using Cons.prems bs by (auto simp: lifted_def)
      then have "EQ ops x y \<longleftrightarrow> \<not> LT ops x y \<and> \<not> LT ops y x" "LT ops x y \<Longrightarrow> \<not> LT ops y x"
        using EQ_iff lt_asym by blast+
      then show ?thesis using IH bs xy by (simp split: if_split)
    qed
  qed simp
qed

lemma objs_lifted: "objs p \<subseteq> D \<Longrightarrow> set (elms p) \<subseteq> lifted D"
  unfolding objs_def lifted_def
proof
  fix x assume p: "{x. Some x \<in> set (elms p)} \<subseteq> D" and "x \<in> set (elms p)"
  then show "x \<in> insert None (Some ` D)" by (cases x) auto
qed

lemma LtPlist_lex: "objs p \<subseteq> D \<Longrightarrow> objs q \<subseteq> D \<Longrightarrow> LtPlist ops p q = lex_lt ops (elms p) (elms q)"
  using lt_plist_loop_lex objs_lifted by (simp add: LtPlist_def LEN_PLIST_def)

lemma EqPlist_lex:
  assumes "objs p \<subseteq> D" "objs q \<subseteq> D"
  shows "EqPlist ops p q \<longleftrightarrow> \<not> LtPlist ops p q \<and> \<not> LtPlist ops q p"
proof (cases "LEN_PLIST p = LEN_PLIST q")
  case True
  then show ?thesis using eq_plist_loop_iff [of "elms p" "elms q"] assms objs_lifted
    by (simp add: EqPlist_def LtPlist_lex LEN_PLIST_def)
next
  case False
  then show ?thesis using lex_lt_length [of "elms p" "elms q"] assms
    by (auto simp: EqPlist_def LtPlist_lex LEN_PLIST_def)
qed

end

text \<open>Lists of objects are objects again; the family of a list is the same for equal lists.\<close>

locale ordered_lists = ordered_objects ops D
  for ops :: "'a objops" and D :: "'a set" +
  fixes fam :: "'a plist \<Rightarrow> nat"
  assumes fam_EqPlist: "objs p \<subseteq> D \<Longrightarrow> objs q \<subseteq> D \<Longrightarrow> EqPlist ops p q \<Longrightarrow> fam p = fam q"
begin

lemma eq_plist_loop_homog:
  assumes "length as = length bs" "eq_plist_loop ops as bs" "set as \<subseteq> lifted D" "set bs \<subseteq> lifted D"
  shows "dense as = dense bs"
    "dense as \<Longrightarrow> map (FAMILY_OBJ ops) (map the as) = map (FAMILY_OBJ ops) (map the bs)"
proof -
  have "dense as = dense bs \<and>
      (dense as \<longrightarrow> map (FAMILY_OBJ ops) (map the as) = map (FAMILY_OBJ ops) (map the bs))"
    using assms
  proof (induction as bs rule: list_induct2)
    case (Cons a as b bs)
    then have "EQ0 ops a b" "eq_plist_loop ops as bs" by (auto split: if_splits)
    moreover from this have "(a = None) = (b = None)" by (auto simp: EQ0_def split: option.splits)
    ultimately show ?case using Cons EQ_kind by (auto simp: dense_def EQ0_def lifted_def)
  qed simp
  then show "dense as = dense bs"
    "dense as \<Longrightarrow> map (FAMILY_OBJ ops) (map the as) = map (FAMILY_OBJ ops) (map the bs)" by auto
qed

lemma homog_families: "homog ops xs \<longleftrightarrow> (\<forall>x \<in> set (map (FAMILY_OBJ ops) xs). \<forall>y \<in> set (map (FAMILY_OBJ ops) xs). x = y)"
  by (auto simp: homog_def)

lemma EqPlist_homog:
  assumes "objs p \<subseteq> D" "objs q \<subseteq> D" "EqPlist ops p q"
  shows "holds ops FN_IS_HOMOG (elms p) = holds ops FN_IS_HOMOG (elms q)" "LEN_PLIST p = LEN_PLIST q"
proof -
  have l: "length (elms p) = length (elms q)" "eq_plist_loop ops (elms p) (elms q)"
    using assms(3) by (auto simp: EqPlist_def LEN_PLIST_def split: if_splits)
  then show "LEN_PLIST p = LEN_PLIST q" by (simp add: LEN_PLIST_def)
  show "holds ops FN_IS_HOMOG (elms p) = holds ops FN_IS_HOMOG (elms q)"
    using eq_plist_loop_homog [OF l objs_lifted [OF assms(1)] objs_lifted [OF assms(2)]]
    by (simp only: holds.simps homog_families) metis
qed

end

sublocale ordered_lists \<subseteq> lists: ordered_objects "plist_ops fam ops" "{p. objs p \<subseteq> D}"
proof unfold_locales
  show "a \<in> {p. objs p \<subseteq> D} \<Longrightarrow> b \<in> {p. objs p \<subseteq> D} \<Longrightarrow> LT (plist_ops fam ops) a b \<Longrightarrow>
      \<not> LT (plist_ops fam ops) b a" for a b
    using lex_lt_asym objs_lifted by (simp add: plist_ops_def LtPlist_lex)
  show "a \<in> {p. objs p \<subseteq> D} \<Longrightarrow> b \<in> {p. objs p \<subseteq> D} \<Longrightarrow> c \<in> {p. objs p \<subseteq> D} \<Longrightarrow>
      \<not> LT (plist_ops fam ops) a b \<Longrightarrow> \<not> LT (plist_ops fam ops) b c \<Longrightarrow> \<not> LT (plist_ops fam ops) a c" for a b c
    using not_lex_lt_trans [of "elms a" "elms b" "elms c"] objs_lifted by (simp add: plist_ops_def LtPlist_lex)
  show eq: "a \<in> {p. objs p \<subseteq> D} \<Longrightarrow> b \<in> {p. objs p \<subseteq> D} \<Longrightarrow> EQ (plist_ops fam ops) a b =
      (\<not> LT (plist_ops fam ops) a b \<and> \<not> LT (plist_ops fam ops) b a)" for a b
    by (simp add: plist_ops_def EqPlist_lex)
  show "a \<in> {p. objs p \<subseteq> D} \<Longrightarrow> b \<in> {p. objs p \<subseteq> D} \<Longrightarrow> IDENT (plist_ops fam ops) a b \<Longrightarrow>
      EQ (plist_ops fam ops) a b" for a b
    using eq [of a b] lex_lt_asym [of "elms a" "elms a"] objs_lifted [of a]
    by (auto simp: plist_ops_def LtPlist_lex)
qed (use EqPlist_homog fam_EqPlist in \<open>auto simp: plist_ops_def simp del: holds.simps\<close>)

interpretation rat_lists: ordered_lists "rat_ops gmp_ref" "{x. valid_rat x}" "\<lambda>_. 1"
  by unfold_locales simp

end
