(* ===== verification/ListFunc.thy ===== *)
theory ListFunc
  imports ListObj
begin

text \<open>
  The functions on plain lists of \<open>src/src/listfunc.c\<close>: the binary searches, the instances of the sort
  template for dense plain lists with the filters they reset, the removal of duplicates and the
  action on sets; the searches of \<open>src/src/plist.c\<close> in sorted lists. The lemmas show that they find,
  sort and remove what they should, and that the types they leave are true, with one exception in
  \<open>FuncOnSets\<close>.
\<close>

subsection \<open>Binary search\<close>

text \<open>The loop with the comparison \<open>below m\<close> of the entry at position \<open>m\<close> with the object sought.\<close>

function binary_search :: "(nat \<Rightarrow> bool) \<Rightarrow> nat \<Rightarrow> nat \<Rightarrow> nat" where
  "binary_search below l h =
     (if l + 1 < h then
        let m = (l + h) div 2 in
        if below m then binary_search below m h else binary_search below l m
      else h)"
  by pat_completeness auto
termination by (relation "measure (\<lambda>(below, l, h). h - l)") auto

declare binary_search.simps [simp del]

definition PositionSortedDensePlist :: "'a objops \<Rightarrow> 'a plist \<Rightarrow> 'a \<Rightarrow> nat" where
  "PositionSortedDensePlist ops list obj =
     binary_search (\<lambda>m. LT ops (the (ELM_PLIST list m)) obj) 0 (LEN_PLIST list + 1)"

definition PositionSortedDensePlistComp :: "('a \<Rightarrow> 'a \<Rightarrow> bool) \<Rightarrow> 'a plist \<Rightarrow> 'a \<Rightarrow> nat" where
  "PositionSortedDensePlistComp func list obj =
     binary_search (\<lambda>m. func (the (ELM_PLIST list m)) obj) 0 (LEN_PLIST list + 1)"

definition FuncPOSITION_SORTED_BY :: "'b objops \<Rightarrow> 'a plist \<Rightarrow> 'b \<Rightarrow> ('a \<Rightarrow> 'b) \<Rightarrow> nat" where
  "FuncPOSITION_SORTED_BY ops list val func =
     binary_search (\<lambda>m. LT ops (func (the (ELM_PLIST list m))) val) 0 (LEN_PLIST list + 1)"

text \<open>\<open>PosPlistSort\<close> searches behind the position \<open>start\<close>; \<open>None\<close> is \<open>Fail\<close>.\<close>

definition PosPlistSort :: "'a objops \<Rightarrow> 'a plist \<Rightarrow> 'a \<Rightarrow> gapint \<Rightarrow> nat option" where
  "PosPlistSort ops list val start = (case start of
     T_INT w \<Rightarrow>
       (let istart = nat (INT_INTOBJ w);
            k = binary_search (\<lambda>m. LT ops (the (ELM_PLIST list m)) val) istart (LEN_PLIST list + 1)
        in if LEN_PLIST list < k \<or> \<not> EQ ops (the (ELM_PLIST list k)) val then None else Some k)
   | _ \<Rightarrow> None)"

definition PosPlistHomSort :: "'a objops \<Rightarrow> 'a plist \<Rightarrow> 'a \<Rightarrow> gapint \<Rightarrow> nat option" where
  "PosPlistHomSort ops list val start =
     (if FAMILY_OBJ ops val \<noteq> FAMILY_OBJ ops (the (ELM_PLIST list 1)) then None
      else PosPlistSort ops list val start)"

subsection \<open>Sorting plain lists\<close>

text \<open>
  The macros of the instances: an entry of a dense plain list is a reference, the comparison is \<open>LT\<close> or
  the call of a function.
\<close>

definition plist_macros :: "('a \<Rightarrow> 'a \<Rightarrow> bool) \<Rightarrow> ('a \<Rightarrow> 'a \<Rightarrow> bool) \<Rightarrow> 'a option sort_macros" where
  "plist_macros ident cmp = \<lparr>identical = rel_option ident, SORT_COMP = (\<lambda>v w. cmp (the v) (the w))\<rparr>"

definition SortDensePlist :: "'a objops \<Rightarrow> 'a plist \<Rightarrow> 'a plist" where
  "SortDensePlist ops list =
     (let list1 = RESET_FILT_LIST list FN_IS_NSORT
      in list1\<lparr>elms := SORT_FUNC (plist_macros (IDENT ops) (LT ops)) (elms list1)\<rparr>)"

definition SortDensePlistMerge :: "'a objops \<Rightarrow> 'a plist \<Rightarrow> 'a plist" where
  "SortDensePlistMerge ops list =
     (let list1 = RESET_FILT_LIST list FN_IS_NSORT
      in list1\<lparr>elms := SORT_FUNCMerge (plist_macros (IDENT ops) (LT ops)) (elms list1)\<rparr>)"

definition SortDensePlistComp :: "'a objops \<Rightarrow> 'a plist \<Rightarrow> ('a \<Rightarrow> 'a \<Rightarrow> bool) \<Rightarrow> 'a plist" where
  "SortDensePlistComp ops list func =
     (let list1 = RESET_FILT_LIST (RESET_FILT_LIST list FN_IS_SSORT) FN_IS_NSORT
      in list1\<lparr>elms := SORT_FUNC (plist_macros (IDENT ops) func) (elms list1)\<rparr>)"

definition SortDensePlistCompMerge :: "'a objops \<Rightarrow> 'a plist \<Rightarrow> ('a \<Rightarrow> 'a \<Rightarrow> bool) \<Rightarrow> 'a plist" where
  "SortDensePlistCompMerge ops list func =
     (let list1 = RESET_FILT_LIST (RESET_FILT_LIST list FN_IS_SSORT) FN_IS_NSORT
      in list1\<lparr>elms := SORT_FUNCMerge (plist_macros (IDENT ops) func) (elms list1)\<rparr>)"

text \<open>The parallel sorts move the entries of the list and of its shadow together and compare the former.\<close>

definition para_macros ::
  "('a \<Rightarrow> 'a \<Rightarrow> bool) \<Rightarrow> ('a \<Rightarrow> 'a \<Rightarrow> bool) \<Rightarrow> ('a option \<times> 'b option) sort_macros" where
  "para_macros ident cmp = \<lparr>identical = (\<lambda>v w. rel_option ident (fst v) (fst w)),
     SORT_COMP = (\<lambda>v w. cmp (the (fst v)) (the (fst w)))\<rparr>"

definition SortParaDensePlist :: "'a objops \<Rightarrow> 'a plist \<Rightarrow> 'b plist \<Rightarrow> 'a plist \<times> 'b plist" where
  "SortParaDensePlist ops list shadow =
     (let list1 = RESET_FILT_LIST list FN_IS_NSORT;
          shadow1 = RESET_FILT_LIST (RESET_FILT_LIST shadow FN_IS_SSORT) FN_IS_NSORT;
          res = SORT_FUNC (para_macros (IDENT ops) (LT ops)) (zip (elms list1) (elms shadow1))
      in (list1\<lparr>elms := map fst res\<rparr>, shadow1\<lparr>elms := map snd res\<rparr>))"

definition SortParaDensePlistMerge :: "'a objops \<Rightarrow> 'a plist \<Rightarrow> 'b plist \<Rightarrow> 'a plist \<times> 'b plist" where
  "SortParaDensePlistMerge ops list shadow =
     (let list1 = RESET_FILT_LIST list FN_IS_NSORT;
          shadow1 = RESET_FILT_LIST (RESET_FILT_LIST shadow FN_IS_SSORT) FN_IS_NSORT;
          res = SORT_FUNCMerge (para_macros (IDENT ops) (LT ops)) (zip (elms list1) (elms shadow1))
      in (list1\<lparr>elms := map fst res\<rparr>, shadow1\<lparr>elms := map snd res\<rparr>))"

subsection \<open>Removing duplicates\<close>

function remove_dups_loop ::
  "'a objops \<Rightarrow> nat \<Rightarrow> 'a option list \<Rightarrow> nat \<Rightarrow> nat \<Rightarrow> 'a \<Rightarrow> bool \<Rightarrow> bool \<Rightarrow> 'a option list \<times> nat \<times> bool \<times> bool"
  where
  "remove_dups_loop ops fam xs l i v mutable homo =
     (if i \<le> length xs then
        let w = the (xs ! (i - 1));
            mutable' = (mutable \<or> IS_MUTABLE_OBJ ops w)
        in if \<not> EQ ops v w then
             let xs' = (if l + 1 \<noteq> i then (xs[l := Some w])[i - 1 := None] else xs)
             in remove_dups_loop ops fam xs' (l + 1) (i + 1) w mutable'
                  (\<not> mutable' \<and> homo \<and> fam = FAMILY_OBJ ops w)
           else remove_dups_loop ops fam xs l (i + 1) v mutable' homo
      else (xs, l, mutable, homo))"
  by pat_completeness auto
termination by (relation "measure (\<lambda>(ops, fam, xs, l, i, v, mutable, homo). Suc (length xs) - i)") (auto simp: Let_def)

declare remove_dups_loop.simps [simp del]

definition RemoveDupsDensePlist :: "'a objops \<Rightarrow> 'a plist \<Rightarrow> 'a plist \<times> nat" where
  "RemoveDupsDensePlist ops list =
     (if LEN_PLIST list = 0 then (list, 0)
      else
        let v = the (ELM_PLIST list 1);
            (xs, l, mutable, homo) =
              remove_dups_loop ops (FAMILY_OBJ ops v) (elms list) 1 2 v (IS_MUTABLE_OBJ ops v) True;
            list1 = list\<lparr>elms := take l xs\<rparr>;
            list2 = (if \<not> mutable then
                       SET_FILT_LIST (SET_FILT_LIST list1 (if \<not> homo then FN_IS_NHOMOG else FN_IS_HOMOG))
                         FN_IS_SSORT
                     else list1)
        in (list2, if mutable then 0 else if \<not> homo then 1 else 2))"

subsection \<open>The action on sets\<close>

text \<open>
  An acting element, as \<open>FuncOnTuples\<close> and \<open>FuncOnSets\<close> see it: whether it is a permutation, a transformation or a
  partial permutation, the special functions that act with these on lists (\<open>permutat.cc\<close>, \<open>trans.cc\<close> and \<open>pperm.cc\<close>, which
  are not modelled), and \<open>POW\<close>, which applies any other element to a point.
\<close>

record 'a acting =
  IS_PERM :: bool
  IS_TRANS :: bool
  IS_PPERM :: bool
  POW :: "'a \<Rightarrow> 'a"
  OnTuplesPerm :: "'a plist \<Rightarrow> 'a plist result"
  OnTuplesTrans :: "'a plist \<Rightarrow> 'a plist result"
  OnTuplesPPerm :: "'a plist \<Rightarrow> 'a plist result"
  OnSetsPerm :: "'a plist \<Rightarrow> 'a plist result"
  OnSetsTrans :: "'a plist \<Rightarrow> 'a plist result"
  OnSetsPPerm :: "'a plist \<Rightarrow> 'a plist result"

definition NewEmptyPlist :: "'a plist" where
  "NewEmptyPlist = \<lparr>tnum = T_PLIST_EMPTY, immutable = False, elms = []\<rparr>"

text \<open>The loop over the points, from the last one to the first; a hole is an error of \<open>ELMV_LIST\<close>.\<close>

fun on_tuples_loop :: "('a \<Rightarrow> 'a) \<Rightarrow> 'a option list \<Rightarrow> 'a option list \<Rightarrow> 'a option list result" where
  "on_tuples_loop pow [] img = Inr img"
| "on_tuples_loop pow (None # points) img = Inl ''List Element: <list>[<pos>] must have an assigned value''"
| "on_tuples_loop pow (Some x # points) img = on_tuples_loop pow points (Some (pow x) # img)"

definition FuncOnTuples :: "'a plist \<Rightarrow> 'a acting \<Rightarrow> 'a plist result" where
  "FuncOnTuples tuple elm =
     (if LEN_PLIST tuple = 0 then Inr (if \<not> immutable tuple then NewEmptyPlist else tuple)
      else if IS_PERM elm then OnTuplesPerm elm tuple
      else if IS_TRANS elm then OnTuplesTrans elm tuple
      else if IS_PPERM elm then OnTuplesPPerm elm tuple
      else rbind (on_tuples_loop (POW elm) (rev (elms tuple)) [])
             (\<lambda>img. Inr \<lparr>tnum = T_PLIST, immutable = immutable tuple, elms = img\<rparr>))"

text \<open>
  \<open>FuncOnSets\<close> returns the set, whose type the test may have changed, and the image. The first \<open>case\<close> of its switch
  has no \<open>break\<close>, so that the retyping of an image that is not homogeneous is followed by the retyping of the next \<open>case\<close>.
\<close>

definition FuncOnSets :: "'a objops \<Rightarrow> 'a plist \<Rightarrow> 'a acting \<Rightarrow> ('a plist \<times> 'a plist) result" where
  "FuncOnSets ops set0 elm =
     (let (set1, is_set) = (if HAS_FILT_LIST set0 FN_IS_SSORT then (set0, True) else IS_SSORT_LIST ops set0) in
      if \<not> is_set then Inl ''must be a set''
      else if LEN_PLIST set1 = 0 then Inr (set1, if \<not> immutable set1 then NewEmptyPlist else set1)
      else if IS_PERM elm then rbind (OnSetsPerm elm set1) (\<lambda>img. Inr (set1, img))
      else if IS_TRANS elm then rbind (OnSetsTrans elm set1) (\<lambda>img. Inr (set1, img))
      else if IS_PPERM elm then rbind (OnSetsPPerm elm set1) (\<lambda>img. Inr (set1, img))
      else rbind (FuncOnTuples set1 elm) (\<lambda>img.
        let img1 = SortDensePlist ops img;
            (img2, status) = RemoveDupsDensePlist ops img1;
            img3 = (if status = 1 then RetypeBagSM img2 T_PLIST_DENSE_NHOM_SSORT else img2);
            img4 = (if status = 1 \<or> status = 2 then RetypeBagSM img3 T_PLIST_HOM_SSORT else img3)
        in Inr (set1, img4)))"

subsection \<open>Binary search finds the boundary\<close>

lemma binary_search_spec:
  assumes "l < h" "\<And>i j. l < i \<Longrightarrow> i \<le> j \<Longrightarrow> j < h \<Longrightarrow> below j \<Longrightarrow> below i"
  shows "l < binary_search below l h \<and> binary_search below l h \<le> h \<and>
    (\<forall>i. l < i \<and> i < h \<longrightarrow> below i \<longleftrightarrow> i < binary_search below l h)"
  using assms
proof (induction below l h rule: binary_search.induct)
  case (1 below l h)
  define m where "m = (l + h) div 2"
  show ?case
  proof (cases "l + 1 < h")
    case True
    then have m: "l < m" "m < h" by (auto simp: m_def)
    show ?thesis
    proof (cases "below m")
      case bm: True
      have "m < binary_search below m h \<and> binary_search below m h \<le> h \<and>
          (\<forall>i. m < i \<and> i < h \<longrightarrow> below i \<longleftrightarrow> i < binary_search below m h)"
        using "1.IH"(1) [OF True m_def bm] m "1.prems" by simp
      moreover have "below i" if "l < i" "i \<le> m" for i using "1.prems"(2) [OF that m(2) bm] .
      ultimately have "(\<forall>i. l < i \<and> i < h \<longrightarrow> below i \<longleftrightarrow> i < binary_search below m h)"
        by (metis le_less_trans not_le)
      with \<open>m < _ \<and> _\<close> m bm True show ?thesis by (subst (1 2 3) binary_search.simps) (simp add: m_def)
    next
      case bm: False
      have "l < binary_search below l m \<and> binary_search below l m \<le> m \<and>
          (\<forall>i. l < i \<and> i < m \<longrightarrow> below i \<longleftrightarrow> i < binary_search below l m)"
        using "1.IH"(2) [OF True m_def bm] m "1.prems" by simp
      moreover have "\<not> below i" if "m \<le> i" "i < h" for i using "1.prems"(2) [OF m(1) that] bm by blast
      ultimately have "(\<forall>i. l < i \<and> i < h \<longrightarrow> below i \<longleftrightarrow> i < binary_search below l m)"
        by (metis le_less_trans not_le order.strict_trans2)
      with \<open>l < _ \<and> _\<close> m bm True show ?thesis by (subst (1 2 3) binary_search.simps) (simp add: m_def)
    qed
  next
    case False
    then show ?thesis using "1.prems"(1) by (subst (1 2 3) binary_search.simps) auto
  qed
qed

context ordered_objects
begin

lemma below_mono:
  assumes "objs p \<subseteq> D" "dense (elms p)" "x \<in> D" "sorted_wrt (\<lambda>a b. \<not> LT ops b a) (entries p)"
    and "0 < i" "i \<le> j" "j < LEN_PLIST p + 1" "LT ops (the (ELM_PLIST p j)) x"
  shows "LT ops (the (ELM_PLIST p i)) x"
proof (cases "i = j")
  case False
  let ?xi = "entries p ! (i - 1)" and ?xj = "entries p ! (j - 1)"
  have e: "the (ELM_PLIST p k) = entries p ! (k - 1)" if "0 < k" "k \<le> LEN_PLIST p" for k
    using that by (simp add: ELM_PLIST_def entries_def LEN_PLIST_def)
  have len: "length (entries p) = LEN_PLIST p" by (simp add: entries_def LEN_PLIST_def)
  have in_D: "entries p ! k \<in> D" if "k < LEN_PLIST p" for k
    using entries_objs [OF assms(2)] assms(1) that len nth_mem by (metis subset_iff)
  have D: "?xi \<in> D" "?xj \<in> D" using in_D [of "i - 1"] in_D [of "j - 1"] assms(5-7) by auto
  have "\<not> LT ops ?xj ?xi" using assms(4-7) False len by (auto simp: sorted_wrt_iff_nth_less)
  then show ?thesis using assms(3,5-8) e not_lt_trans [of ?xj ?xi x] D by auto
qed (use assms in simp)

lemma PositionSortedDensePlist_ok:
  assumes "objs p \<subseteq> D" "dense (elms p)" "x \<in> D" "sorted_wrt (\<lambda>a b. \<not> LT ops b a) (entries p)"
  shows "1 \<le> PositionSortedDensePlist ops p x" "PositionSortedDensePlist ops p x \<le> LEN_PLIST p + 1"
    "1 \<le> i \<Longrightarrow> i \<le> LEN_PLIST p \<Longrightarrow>
       LT ops (the (ELM_PLIST p i)) x \<longleftrightarrow> i < PositionSortedDensePlist ops p x"
  using binary_search_spec [of 0 "LEN_PLIST p + 1" "\<lambda>m. LT ops (the (ELM_PLIST p m)) x"]
    below_mono [OF assms] by (auto simp: PositionSortedDensePlist_def Suc_le_eq)

end

subsection \<open>The sort instances sort\<close>

text \<open>A comparison function passed to the sorts, with the identity test that precedes its calls.\<close>

locale comparator = weak_order_on func D
  for func :: "'a \<Rightarrow> 'a \<Rightarrow> bool" and D :: "'a set" +
  fixes ident :: "'a \<Rightarrow> 'a \<Rightarrow> bool"
  assumes ident_not: "a \<in> D \<Longrightarrow> b \<in> D \<Longrightarrow> ident a b \<Longrightarrow> \<not> func a b"
begin

lemma plist_macros_cmp:
  "a \<in> D \<Longrightarrow> b \<in> D \<Longrightarrow> SORT_COMP_CHECK_EQ (plist_macros ident func) (Some a) (Some b) = func a b"
  using ident_not by (auto simp: SORT_COMP_CHECK_EQ_def plist_macros_def)

lemma para_macros_cmp:
  "a \<in> D \<Longrightarrow> b \<in> D \<Longrightarrow>
   SORT_COMP_CHECK_EQ (para_macros ident func) (Some a, s) (Some b, t) = func a b"
  using ident_not by (auto simp: SORT_COMP_CHECK_EQ_def para_macros_def)

end

sublocale comparator \<subseteq> cells: sort_order "plist_macros ident func" "Some ` D"
proof unfold_locales
  show "a \<in> Some ` D \<Longrightarrow> b \<in> Some ` D \<Longrightarrow> SORT_COMP_CHECK_EQ (plist_macros ident func) a b \<Longrightarrow>
      \<not> SORT_COMP_CHECK_EQ (plist_macros ident func) b a" for a b
    using plist_macros_cmp lt_asym by auto
  show "a \<in> Some ` D \<Longrightarrow> b \<in> Some ` D \<Longrightarrow> c \<in> Some ` D \<Longrightarrow>
      \<not> SORT_COMP_CHECK_EQ (plist_macros ident func) a b \<Longrightarrow>
      \<not> SORT_COMP_CHECK_EQ (plist_macros ident func) b c \<Longrightarrow>
      \<not> SORT_COMP_CHECK_EQ (plist_macros ident func) a c" for a b c
    using plist_macros_cmp not_lt_trans [of "the a" "the b" "the c"] by auto
qed

sublocale comparator \<subseteq> pairs: sort_order "para_macros ident func" "Some ` D \<times> UNIV"
proof unfold_locales
  show "a \<in> Some ` D \<times> UNIV \<Longrightarrow> b \<in> Some ` D \<times> UNIV \<Longrightarrow> SORT_COMP_CHECK_EQ (para_macros ident func) a b \<Longrightarrow>
      \<not> SORT_COMP_CHECK_EQ (para_macros ident func) b a" for a b :: "'a option \<times> 'b option"
    using para_macros_cmp [of "the (fst a)" "the (fst b)" "snd a" "snd b"] para_macros_cmp [of "the (fst b)" "the (fst a)" "snd b" "snd a"]
      lt_asym [of "the (fst a)" "the (fst b)"] by auto
  show "a \<in> Some ` D \<times> UNIV \<Longrightarrow> b \<in> Some ` D \<times> UNIV \<Longrightarrow> c \<in> Some ` D \<times> UNIV \<Longrightarrow>
      \<not> SORT_COMP_CHECK_EQ (para_macros ident func) a b \<Longrightarrow>
      \<not> SORT_COMP_CHECK_EQ (para_macros ident func) b c \<Longrightarrow>
      \<not> SORT_COMP_CHECK_EQ (para_macros ident func) a c" for a b c :: "'a option \<times> 'b option"
    using para_macros_cmp [of "the (fst a)" "the (fst b)" "snd a" "snd b"] para_macros_cmp [of "the (fst b)" "the (fst c)" "snd b" "snd c"]
      para_macros_cmp [of "the (fst a)" "the (fst c)" "snd a" "snd c"]
      not_lt_trans [of "the (fst a)" "the (fst b)" "the (fst c)"] by auto
qed

sublocale ordered_objects \<subseteq> cmp: comparator "LT ops" D "IDENT ops"
  by unfold_locales (use IDENT_EQ EQ_iff in blast)

context comparator
begin

lemma cells_D: "dense xs \<Longrightarrow> set (map the xs) \<subseteq> D \<Longrightarrow> set xs \<subseteq> Some ` D"
proof (induction xs)
  case (Cons a xs)
  then show ?case by (cases a) (auto simp: dense_def)
qed simp

lemma sorted_cells:
  assumes "sorted_wrt (\<lambda>a b. \<not> SORT_COMP_CHECK_EQ (plist_macros ident func) b a) ys" "set ys \<subseteq> Some ` D"
  shows "sorted_wrt (\<lambda>a b. \<not> func b a) (map the ys)"
  unfolding sorted_wrt_map
proof (rule sorted_wrt_mono_rel [OF _ assms(1)])
  fix a b
  assume "a \<in> set ys" "b \<in> set ys" and n: "\<not> SORT_COMP_CHECK_EQ (plist_macros ident func) b a"
  then obtain x y where "a = Some x" "b = Some y" "x \<in> D" "y \<in> D" using assms(2) by blast
  with n show "\<not> func (the b) (the a)" by (simp add: plist_macros_cmp)
qed

lemma SORT_FUNC_plist:
  assumes "dense xs" "set (map the xs) \<subseteq> D"
  shows "dense (SORT_FUNC (plist_macros ident func) xs)"
    "mset (map the (SORT_FUNC (plist_macros ident func) xs)) = mset (map the xs)"
    "sorted_wrt (\<lambda>a b. \<not> func b a) (map the (SORT_FUNC (plist_macros ident func) xs))"
proof -
  note D = cells_D [OF assms]
  note s = cells.SORT_FUNC_sorts [OF D]
  have set: "set (SORT_FUNC (plist_macros ident func) xs) = set xs" by (rule mset_eq_setD [OF s(1)])
  show "dense (SORT_FUNC (plist_macros ident func) xs)" using assms(1) set by (simp add: dense_def)
  show "mset (map the (SORT_FUNC (plist_macros ident func) xs)) = mset (map the xs)" using s(1) by simp
  show "sorted_wrt (\<lambda>a b. \<not> func b a) (map the (SORT_FUNC (plist_macros ident func) xs))"
    using sorted_cells [OF s(2)] set D by simp
qed

lemma SORT_FUNCMerge_plist:
  assumes "dense xs" "set (map the xs) \<subseteq> D"
  shows "dense (SORT_FUNCMerge (plist_macros ident func) xs)"
    "mset (map the (SORT_FUNCMerge (plist_macros ident func) xs)) = mset (map the xs)"
    "sorted_wrt (\<lambda>a b. \<not> func b a) (map the (SORT_FUNCMerge (plist_macros ident func) xs))"
    "x \<in> D \<Longrightarrow> filter (alike x) (map the (SORT_FUNCMerge (plist_macros ident func) xs))
       = filter (alike x) (map the xs)"
proof -
  let ?ys = "SORT_FUNCMerge (plist_macros ident func) xs"
  note D = cells_D [OF assms]
  note s = cells.SORT_FUNCMerge_sorts [OF D]
  have m: "mset ?ys = mset xs" using s(1) by (simp add: cells.stable_def)
  have set: "set ?ys = set xs" by (rule mset_eq_setD [OF m])
  show d: "dense ?ys" using assms(1) set by (simp add: dense_def)
  show "mset (map the ?ys) = mset (map the xs)" using m by simp
  show "sorted_wrt (\<lambda>a b. \<not> func b a) (map the ?ys)" using sorted_cells [OF s(2)] set D by simp
  show "filter (alike x) (map the ?ys) = filter (alike x) (map the xs)" if "x \<in> D"
  proof -
    have "cells.alike (Some x) y = alike x (the y)" if "y \<in> set xs" for y
      using that D \<open>x \<in> D\<close> by (auto simp: cells.alike_def alike_def plist_macros_cmp)
    then have "filter (cells.alike (Some x)) zs = filter (alike x \<circ> the) zs" if "set zs = set xs" for zs
      using that by (intro filter_cong) auto
    moreover have "filter (cells.alike (Some x)) ?ys = filter (cells.alike (Some x)) xs"
      using s(1) that by (simp add: cells.stable_def)
    ultimately show ?thesis using set by (simp add: filter_map)
  qed
qed

end

subsection \<open>Sorting keeps the types true\<close>

lemma holds_same_set:
  "f \<notin> {FN_IS_SSORT, FN_IS_NSORT} \<Longrightarrow> set xs = set ys \<Longrightarrow> holds ops f xs = holds ops f ys"
  by (cases f) (simp_all add: dense_def homog_def same_length_def)

lemma type_ok_same_set:
  assumes "type_ok ops p" "set ys = set (elms p)" "FN_IS_NSORT \<notin> set (claims (tnum p))"
    and "FN_IS_SSORT \<in> set (claims (tnum p)) \<Longrightarrow> sorted_wrt (LT ops) (map the ys)"
  shows "type_ok ops (p\<lparr>elms := ys\<rparr>)"
proof -
  have "holds ops f ys" if "f \<in> set (claims (tnum p))" for f
  proof (cases "f = FN_IS_SSORT")
    case True
    then have "dense (elms p)" using type_ok_claims [OF assms(1) that] by simp
    then show ?thesis using True assms(2,4) that by (simp add: dense_def)
  next
    case False
    then show ?thesis using holds_same_set [of f "elms p" ys ops] type_ok_claims [OF assms(1) that]
        assms(2,3) that by auto
  qed
  moreover have "ys = [] \<longleftrightarrow> elms p = []" using assms(2) by (metis set_empty)
  ultimately show ?thesis using assms(1,2) by (simp add: type_ok_def entries_def)
qed

context weak_order_on
begin

text \<open>A sorted permutation of a strictly sorted list is strictly sorted.\<close>

lemma strict_of_perm:
  assumes "sorted_wrt lt xs" "mset ys = mset xs" "sorted_wrt (\<lambda>a b. \<not> lt b a) ys" "set xs \<subseteq> D"
  shows "sorted_wrt lt ys"
proof -
  have pair: "a = b \<or> lt a b \<or> lt b a" if "a \<in> set xs" "b \<in> set xs" for a b
    using that assms(1) by (metis in_set_conv_nth linorder_neqE_nat sorted_wrt_nth_less)
  have "distinct xs" using assms(1,4)
  proof (induction xs)
    case (Cons x xs)
    then show ?case using lt_irrefl [of x] by auto
  qed simp
  then have d: "distinct ys" using assms(2) by (metis mset_eq_imp_distinct_iff)
  have s: "set ys = set xs" using assms(2) by (rule mset_eq_setD)
  have "lt (ys ! i) (ys ! j)" if "i < j" "j < length ys" for i j
  proof -
    have "ys ! i \<noteq> ys ! j" using d that by (auto simp: nth_eq_iff_index_eq)
    moreover have "ys ! i \<in> set xs" "ys ! j \<in> set xs" using that s nth_mem by force+
    moreover have "\<not> lt (ys ! j) (ys ! i)" using assms(3) that by (simp add: sorted_wrt_iff_nth_less)
    ultimately show ?thesis using pair by blast
  qed
  then show ?thesis by (simp add: sorted_wrt_iff_nth_less)
qed

lemma strict_sorted_weak: "sorted_wrt lt xs \<Longrightarrow> set xs \<subseteq> D \<Longrightarrow> sorted_wrt (\<lambda>a b. \<not> lt b a) xs"
  by (rule sorted_wrt_mono_rel [of xs lt]) (use lt_asym in blast)+

end

lemma plist_update_keeps [simp]:
  "objs (p\<lparr>tnum := t\<rparr>) = objs p" "entries (p\<lparr>tnum := t\<rparr>) = entries p"
  by (simp_all add: objs_def entries_def)

context ordered_objects
begin

lemma type_ok_sorted:
  assumes "type_ok ops p" "dense (elms p)" "objs p \<subseteq> D" "mset ys = mset (elms p)"
    and "sorted_wrt (\<lambda>a b. \<not> LT ops b a) (map the ys)" "FN_IS_NSORT \<notin> set (claims (tnum p))"
  shows "type_ok ops (p\<lparr>elms := ys\<rparr>)"
proof (rule type_ok_same_set [OF assms(1) mset_eq_setD [OF assms(4)] assms(6)])
  assume "FN_IS_SSORT \<in> set (claims (tnum p))"
  then have "sorted_wrt (LT ops) (entries p)"
    using type_ok_claims [OF assms(1)] by (fastforce simp: entries_def)
  moreover have "mset (map the ys) = mset (entries p)" using assms(4) by (simp add: entries_def)
  ultimately show "sorted_wrt (LT ops) (map the ys)"
    using strict_of_perm assms(5) entries_objs [OF assms(2)] assms(3) by simp
qed

lemma SortDensePlist_ok:
  assumes "type_ok ops p" "dense (elms p)" "objs p \<subseteq> D"
  defines "q \<equiv> SortDensePlist ops p"
  shows "dense (elms q)" "mset (entries q) = mset (entries p)" "objs q = objs p"
    "sorted_wrt (\<lambda>a b. \<not> LT ops b a) (entries q)" "type_ok ops q" "immutable q = immutable p"
    "FN_IS_NSORT \<notin> set (claims (tnum q))"
proof -
  let ?r = "RESET_FILT_LIST p FN_IS_NSORT" and ?ys = "SORT_FUNC (plist_macros (IDENT ops) (LT ops)) (elms p)"
  have q: "q = ?r\<lparr>elms := ?ys\<rparr>" by (simp add: q_def SortDensePlist_def Let_def)
  have D: "set (map the (elms p)) \<subseteq> D" using entries_objs [OF assms(2)] assms(3) by (simp only: entries_def)
  note s = cmp.SORT_FUNC_plist [OF assms(2) D]
  note m = cmp.cells.SORT_FUNC_sorts(1) [OF cmp.cells_D [OF assms(2) D]]
  show ns: "FN_IS_NSORT \<notin> set (claims (tnum q))" using RESET_FILT_LIST_claims(1) [of _ p FN_IS_NSORT] by (auto simp: q)
  show "dense (elms q)" "mset (entries q) = mset (entries p)" "immutable q = immutable p"
    "sorted_wrt (\<lambda>a b. \<not> LT ops b a) (entries q)" using s by (simp_all add: q entries_def)
  show "objs q = objs p" using mset_eq_setD [OF m] by (simp add: q objs_def)
  show "type_ok ops q"
    using type_ok_sorted [OF type_ok_RESET [OF assms(1)], of FN_IS_NSORT ?ys] assms(2,3) m s(3) ns
    by (simp add: q)
qed

lemma SortDensePlistMerge_ok:
  assumes "type_ok ops p" "dense (elms p)" "objs p \<subseteq> D"
  defines "q \<equiv> SortDensePlistMerge ops p"
  shows "dense (elms q)" "mset (entries q) = mset (entries p)"
    "sorted_wrt (\<lambda>a b. \<not> LT ops b a) (entries q)" "type_ok ops q"
    "x \<in> D \<Longrightarrow> filter (EQ ops x) (entries q) = filter (EQ ops x) (entries p)"
proof -
  let ?r = "RESET_FILT_LIST p FN_IS_NSORT" and ?ys = "SORT_FUNCMerge (plist_macros (IDENT ops) (LT ops)) (elms p)"
  have q: "q = ?r\<lparr>elms := ?ys\<rparr>" by (simp add: q_def SortDensePlistMerge_def Let_def)
  have D: "set (map the (elms p)) \<subseteq> D" using entries_objs [OF assms(2)] assms(3) by (simp only: entries_def)
  note s = cmp.SORT_FUNCMerge_plist [OF assms(2) D]
  have m: "mset ?ys = mset (elms p)"
    using cmp.cells.SORT_FUNCMerge_sorts(1) [OF cmp.cells_D [OF assms(2) D]] by (simp add: cmp.cells.stable_def)
  have ns: "FN_IS_NSORT \<notin> set (claims (tnum q))" using RESET_FILT_LIST_claims(1) [of _ p FN_IS_NSORT] by (auto simp: q)
  show "dense (elms q)" and mq: "mset (entries q) = mset (entries p)"
    "sorted_wrt (\<lambda>a b. \<not> LT ops b a) (entries q)" using s by (simp_all add: q entries_def)
  show "type_ok ops q"
    using type_ok_sorted [OF type_ok_RESET [OF assms(1)], of FN_IS_NSORT ?ys] assms(2,3) m s(3) ns
    by (simp add: q)
  show "filter (EQ ops x) (entries q) = filter (EQ ops x) (entries p)" if x: "x \<in> D"
  proof -
    have "EQ ops x y = alike x y" if "y \<in> set (entries p)" for y
      using x EQ_iff that D by (auto simp: alike_def entries_def)
    then have "filter (EQ ops x) zs = filter (alike x) zs" if "set zs = set (entries p)" for zs
      using that by (intro filter_cong) auto
    then show ?thesis using s(4) [OF x] mset_eq_setD [OF mq(1)] by (simp add: entries_def q)
  qed
qed

lemma SortParaDensePlist_ok:
  assumes "dense (elms p)" "objs p \<subseteq> D" "LEN_PLIST p = LEN_PLIST s" "SortParaDensePlist ops p s = (q, t)"
  shows "mset (zip (elms q) (elms t)) = mset (zip (elms p) (elms s))"
    "sorted_wrt (\<lambda>a b. \<not> LT ops b a) (entries q)"
proof -
  let ?z = "zip (elms p) (elms s)" and ?M = "para_macros (IDENT ops) (LT ops)"
  have D: "set ?z \<subseteq> Some ` D \<times> UNIV"
    using cmp.cells_D [OF assms(1)] entries_objs [OF assms(1)] assms(2)
    by (auto simp: entries_def dest!: set_zip_leftD)
  note so = cmp.pairs.SORT_FUNC_sorts [OF D]
  have q: "elms q = map fst (SORT_FUNC ?M ?z)" "elms t = map snd (SORT_FUNC ?M ?z)"
    using assms(4) by (auto simp: SortParaDensePlist_def Let_def)
  show "mset (zip (elms q) (elms t)) = mset ?z" unfolding q zip_map_fst_snd by (rule so(1))
  have set: "set (SORT_FUNC ?M ?z) = set ?z" by (rule mset_eq_setD [OF so(1)])
  show "sorted_wrt (\<lambda>a b. \<not> LT ops b a) (entries q)"
    unfolding entries_def q(1) sorted_wrt_map
  proof (rule sorted_wrt_mono_rel [OF _ so(2)])
    fix a b
    assume "a \<in> set (SORT_FUNC ?M ?z)" "b \<in> set (SORT_FUNC ?M ?z)" and n: "\<not> SORT_COMP_CHECK_EQ ?M b a"
    then have "a \<in> Some ` D \<times> UNIV" "b \<in> Some ` D \<times> UNIV" using D set by auto
    then obtain x y u v where "a = (Some x, u)" "b = (Some y, v)" "x \<in> D" "y \<in> D" by auto
    with n show "\<not> LT ops (the (fst b)) (the (fst a))" by (simp add: cmp.para_macros_cmp)
  qed
qed

end

subsection \<open>Removing duplicates\<close>

primrec dedup :: "('a \<Rightarrow> 'a \<Rightarrow> bool) \<Rightarrow> 'a \<Rightarrow> 'a list \<Rightarrow> 'a list" where
  "dedup eq v [] = []"
| "dedup eq v (w # ws) = (if eq v w then dedup eq v ws else w # dedup eq w ws)"

lemma set_dedup: "set (dedup eq v ws) \<subseteq> set ws"
  by (induction ws arbitrary: v) auto

lemma remove_dups_loop_dedup:
  assumes "length pre = l" "l + length junk = i - 1" "1 \<le> i"
    and "remove_dups_loop ops fam (pre @ junk @ map Some ws) l i v mut hom = (ys, l', mut', hom')"
  shows "take l' ys = pre @ map Some (dedup (EQ ops) v ws) \<and>
    (mut' \<longleftrightarrow> mut \<or> (\<exists>w \<in> set ws. IS_MUTABLE_OBJ ops w)) \<and>
    (\<not> mut' \<longrightarrow> (hom' \<longleftrightarrow> hom \<and> (\<forall>w \<in> set (dedup (EQ ops) v ws). FAMILY_OBJ ops w = fam)))"
  using assms
proof (induction ws arbitrary: pre junk l i v mut hom)
  case Nil
  then have "\<not> i \<le> length (pre @ junk)" by simp
  with Nil have "l' = l" "ys = pre @ junk" "mut' = mut" "hom' = hom"
    by (subst (asm) remove_dups_loop.simps, simp)+
  with Nil show ?case by simp
next
  case (Cons w ws)
  let ?xs = "pre @ junk @ map Some (w # ws)" and ?mut = "mut \<or> IS_MUTABLE_OBJ ops w"
  have i: "i \<le> length ?xs" "?xs ! (i - 1) = Some w" using Cons.prems(1-3) by (auto simp: nth_append)
  show ?case
  proof (cases "EQ ops v w")
    case True
    have "remove_dups_loop ops fam ?xs l i v mut hom =
        remove_dups_loop ops fam (pre @ (junk @ [Some w]) @ map Some ws) l (i + 1) v ?mut hom"
      using i True by (subst remove_dups_loop.simps) simp
    with Cons.IH [of pre l "junk @ [Some w]" "i + 1" v ?mut hom] Cons.prems True show ?thesis by auto
  next
    case False
    define hom2 where "hom2 \<longleftrightarrow> \<not> ?mut \<and> hom \<and> fam = FAMILY_OBJ ops w"
    define junk' where "junk' = (if junk = [] then [] else tl junk @ [None :: 'a option])"
    have "(if l + 1 \<noteq> i then (?xs[l := Some w])[i - 1 := None] else ?xs)
        = (pre @ [Some w]) @ junk' @ map Some ws"
    proof (cases junk)
      case Nil
      then show ?thesis using Cons.prems(1-3) by (auto simp: junk'_def)
    next
      case (Cons j js)
      then have "l + 1 \<noteq> i" "i - 1 = length (pre @ [Some w] @ js)" using Cons.prems(1-3) by auto
      then show ?thesis using Cons \<open>length pre = l\<close>
        by (auto simp: junk'_def list_update_append)
    qed
    then have eq: "remove_dups_loop ops fam ?xs l i v mut hom =
        remove_dups_loop ops fam ((pre @ [Some w]) @ junk' @ map Some ws) (l + 1) (i + 1) w ?mut hom2"
      using i False by (subst remove_dups_loop.simps) (simp add: hom2_def Let_def)
    have "l + 1 + length junk' = i + 1 - 1" using Cons.prems(1-3) by (cases junk) (auto simp: junk'_def)
    then have "take l' ys = (pre @ [Some w]) @ map Some (dedup (EQ ops) w ws) \<and>
        (mut' \<longleftrightarrow> ?mut \<or> (\<exists>w \<in> set ws. IS_MUTABLE_OBJ ops w)) \<and>
        (\<not> mut' \<longrightarrow> (hom' \<longleftrightarrow> hom2 \<and> (\<forall>w \<in> set (dedup (EQ ops) w ws). FAMILY_OBJ ops w = fam)))"
      using Cons.prems eq by (intro Cons.IH) auto
    then show ?thesis using False by (auto simp: hom2_def)
  qed
qed

lemma homog_image: "homog ops xs \<longleftrightarrow> (\<forall>a \<in> FAMILY_OBJ ops ` set xs. \<forall>b \<in> FAMILY_OBJ ops ` set xs. a = b)"
  by (auto simp: homog_def)

lemma homog_sub: "homog ops xs \<Longrightarrow> set ys \<subseteq> set xs \<Longrightarrow> homog ops ys"
  by (auto simp: homog_def)

lemma same_length_sub: "same_length ops xs \<Longrightarrow> set ys \<subseteq> set xs \<Longrightarrow> same_length ops ys"
  unfolding same_length_def by blast

text \<open>A list of some of the entries inherits every claim but those of order and of inhomogeneity.\<close>

lemma type_ok_sub:
  assumes "type_ok ops p" "dense (elms p)" "set ys \<subseteq> set (entries p)" "FN_IS_NSORT \<notin> set (claims (tnum p))"
    and "FN_IS_SSORT \<in> set (claims (tnum p)) \<Longrightarrow> sorted_wrt (LT ops) ys"
    and "FN_IS_NHOMOG \<in> set (claims (tnum p)) \<Longrightarrow> \<not> homog ops ys"
  shows "type_ok ops (p\<lparr>elms := map Some ys\<rparr>)"
proof -
  have d: "dense (map Some ys)" "map the (map Some ys) = ys" by (auto simp: dense_def comp_def)
  have "holds ops f (map Some ys)" if "f \<in> set (claims (tnum p))" for f
  proof -
    have h: "holds ops f (elms p)" by (rule type_ok_claims [OF assms(1) that])
    have m: "homog ops (map the (elms p)) \<Longrightarrow> homog ops ys" "same_length ops (map the (elms p)) \<Longrightarrow> same_length ops ys"
      using homog_sub same_length_sub assms(3) unfolding entries_def by blast+
    show ?thesis
    proof (cases f)
      case FN_IS_TABLE
      with h m d assms(3) show ?thesis by (auto simp: entries_def comp_def)
    next
      case FN_IS_RECT
      with h m d assms(3) show ?thesis by (auto simp: entries_def comp_def)
    qed (use h m d assms(2,4-6) that in \<open>simp_all add: comp_def\<close>)
  qed
  moreover have "elms p = [] \<Longrightarrow> ys = []" using assms(3) by (simp add: entries_def)
  ultimately show ?thesis using assms(1,3) d by (auto simp: type_ok_def entries_def comp_def)
qed

context ordered_objects
begin

lemma EQ_refl: "a \<in> D \<Longrightarrow> EQ ops a a"
  using EQ_iff lt_irrefl by blast

lemma EQ_sym: "a \<in> D \<Longrightarrow> b \<in> D \<Longrightarrow> EQ ops a b \<Longrightarrow> EQ ops b a"
  using EQ_iff by blast

lemma EQ_trans: "a \<in> D \<Longrightarrow> b \<in> D \<Longrightarrow> c \<in> D \<Longrightarrow> EQ ops a b \<Longrightarrow> EQ ops b c \<Longrightarrow> EQ ops a c"
  using EQ_iff not_lt_trans by blast

lemma LT_EQ: "a \<in> D \<Longrightarrow> b \<in> D \<Longrightarrow> c \<in> D \<Longrightarrow> EQ ops a b \<Longrightarrow> LT ops b c \<Longrightarrow> LT ops a c"
  "a \<in> D \<Longrightarrow> b \<in> D \<Longrightarrow> c \<in> D \<Longrightarrow> EQ ops a b \<Longrightarrow> LT ops c a \<Longrightarrow> LT ops c b"
  using EQ_iff not_lt_trans by blast+

text \<open>Membership up to the equality of objects.\<close>

definition mem :: "'a \<Rightarrow> 'a list \<Rightarrow> bool" where
  "mem x xs \<longleftrightarrow> (\<exists>y \<in> set xs. EQ ops x y)"

lemma dedup_sorted:
  assumes "set (v # ws) \<subseteq> D" "sorted_wrt (\<lambda>a b. \<not> LT ops b a) (v # ws)"
  shows "sorted_wrt (LT ops) (v # dedup (EQ ops) v ws)"
  using assms
proof (induction ws arbitrary: v)
  case (Cons w ws)
  show ?case
  proof (cases "EQ ops v w")
    case False
    then have "LT ops v w" using Cons.prems EQ_iff [of v w] by auto
    moreover have s: "sorted_wrt (LT ops) (w # dedup (EQ ops) w ws)" using Cons by auto
    moreover have "set (dedup (EQ ops) w ws) \<subseteq> D" using set_dedup Cons.prems(1) by fastforce
    ultimately show ?thesis using False Cons.prems(1) lt_trans [of v w] by auto
  qed (use Cons in auto)
qed simp

lemma mem_dedup:
  assumes "set (v # ws) \<subseteq> D" "x \<in> D"
  shows "mem x (v # dedup (EQ ops) v ws) \<longleftrightarrow> mem x (v # ws)"
  using assms
proof (induction ws arbitrary: v)
  case (Cons w ws)
  show ?case
  proof (cases "EQ ops v w")
    case True
    then have "EQ ops x w \<Longrightarrow> EQ ops x v" using EQ_trans [of x w v] EQ_sym [of v w] Cons.prems by auto
    then show ?thesis using Cons True by (auto simp: mem_def)
  next
    case False
    then show ?thesis using Cons by (auto simp: mem_def)
  qed
qed simp

lemma dedup_families:
  assumes "set (v # ws) \<subseteq> D"
  shows "homog ops (v # dedup (EQ ops) v ws) \<longleftrightarrow> homog ops (v # ws)"
proof -
  have ex: "FAMILY_OBJ ops x \<in> FAMILY_OBJ ops ` set (v # dedup (EQ ops) v ws)" if "x \<in> set (v # ws)" for x
  proof -
    have "x \<in> D" using that assms by blast
    moreover have "mem x (v # ws)" using that EQ_refl [OF \<open>x \<in> D\<close>] by (auto simp: mem_def)
    ultimately obtain y where "y \<in> set (v # dedup (EQ ops) v ws)" "EQ ops x y"
      using mem_dedup [OF assms] by (auto simp: mem_def)
    moreover have "y \<in> D" using calculation(1) assms set_dedup [of "EQ ops" v ws] by auto
    ultimately show ?thesis using EQ_kind [OF \<open>x \<in> D\<close>] by (metis imageI)
  qed
  have "FAMILY_OBJ ops ` set (v # ws) \<subseteq> FAMILY_OBJ ops ` set (v # dedup (EQ ops) v ws)"
    by (rule image_subsetI) (rule ex)
  moreover have "set (v # dedup (EQ ops) v ws) \<subseteq> set (v # ws)" using set_dedup [of "EQ ops" v ws] by auto
  ultimately have "FAMILY_OBJ ops ` set (v # dedup (EQ ops) v ws) = FAMILY_OBJ ops ` set (v # ws)"
    by (metis image_mono subset_antisym)
  then show ?thesis by (simp only: homog_image)
qed

lemma type_ok_dedup:
  assumes "type_ok ops p" "dense (elms p)" "objs p \<subseteq> D" "entries p = v # ws"
    and "sorted_wrt (\<lambda>a b. \<not> LT ops b a) (entries p)" "FN_IS_NSORT \<notin> set (claims (tnum p))"
  shows "type_ok ops (p\<lparr>elms := map Some (v # dedup (EQ ops) v ws)\<rparr>)"
proof -
  let ?d = "v # dedup (EQ ops) v ws"
  have D: "set (v # ws) \<subseteq> D" using entries_objs [OF assms(2)] assms(3,4) by metis
  have sub: "set ?d \<subseteq> set (v # ws)" using set_dedup [of "EQ ops" v ws] by auto
  have e: "map the (elms p) = v # ws" using assms(4) by (simp add: entries_def)
  have "sorted_wrt (LT ops) ?d" using dedup_sorted [OF D] assms(4,5) by simp
  moreover have "\<not> homog ops ?d" if "FN_IS_NHOMOG \<in> set (claims (tnum p))"
    using type_ok_claims [OF assms(1) that] dedup_families [OF D] e by simp
  ultimately show ?thesis using assms(2,6) sub e by (intro type_ok_sub [OF assms(1)]) (auto simp: entries_def)
qed

lemma RemoveDupsDensePlist_ok:
  assumes "type_ok ops p" "dense (elms p)" "objs p \<subseteq> D"
    and "sorted_wrt (\<lambda>a b. \<not> LT ops b a) (entries p)" "FN_IS_NSORT \<notin> set (claims (tnum p))"
    and "RemoveDupsDensePlist ops p = (q, status)"
  shows "dense (elms q)" "sorted_wrt (LT ops) (entries q)" "set (entries q) \<subseteq> set (entries p)"
    "x \<in> D \<Longrightarrow> mem x (entries q) \<longleftrightarrow> mem x (entries p)" "type_ok ops q" "immutable q = immutable p"
    "status = (if elms p = [] \<or> (\<exists>x \<in> set (entries p). IS_MUTABLE_OBJ ops x) then 0
       else if \<not> homog ops (entries p) then 1 else 2)"
    "status \<noteq> 0 \<Longrightarrow> homog ops (entries q) \<longleftrightarrow> homog ops (entries p)"
proof -
  have "dense (elms q) \<and> sorted_wrt (LT ops) (entries q) \<and> set (entries q) \<subseteq> set (entries p) \<and>
    (\<forall>x \<in> D. mem x (entries q) \<longleftrightarrow> mem x (entries p)) \<and> type_ok ops q \<and> immutable q = immutable p \<and>
    status = (if elms p = [] \<or> (\<exists>x \<in> set (entries p). IS_MUTABLE_OBJ ops x) then 0
       else if \<not> homog ops (entries p) then 1 else 2) \<and>
    (status \<noteq> 0 \<longrightarrow> homog ops (entries q) = homog ops (entries p))"
  proof (cases "elms p = []")
    case True
    then have "q = p" "status = 0" using assms(6) by (auto simp: RemoveDupsDensePlist_def LEN_PLIST_def)
    with True assms(1,2) show ?thesis by (simp add: entries_def)
  next
    case False
    then obtain v ws where e: "entries p = v # ws" by (cases "entries p") (auto simp: entries_def)
    let ?d = "v # dedup (EQ ops) v ws"
    have D: "set (v # ws) \<subseteq> D" using entries_objs [OF assms(2)] assms(3) e by metis
    have el: "elms p = [Some v] @ [] @ map Some ws" using elms_entries [OF assms(2)] e by simp
    obtain xs l mut hom where loop: "remove_dups_loop ops (FAMILY_OBJ ops v) (elms p) 1 2 v (IS_MUTABLE_OBJ ops v) True
        = (xs, l, mut, hom)" by (metis prod_cases4)
    from remove_dups_loop_dedup [of "[Some v]" 1 "[]" 2, OF _ _ _ loop [unfolded el]]
    have r: "take l xs = map Some ?d" "mut \<longleftrightarrow> (\<exists>x \<in> set (v # ws). IS_MUTABLE_OBJ ops x)"
      "\<not> mut \<Longrightarrow> hom \<longleftrightarrow> (\<forall>w \<in> set (dedup (EQ ops) v ws). FAMILY_OBJ ops w = FAMILY_OBJ ops v)" by auto
    have hom: "\<not> mut \<Longrightarrow> hom \<longleftrightarrow> homog ops (v # ws)"
      using r(3) dedup_families [OF D] by (auto simp: homog_def)
    define p1 where "p1 = p\<lparr>elms := map Some ?d\<rparr>"
    have p1: "type_ok ops p1" unfolding p1_def by (rule type_ok_dedup [OF assms(1-3) e assms(4,5)])
    have e1: "elms p1 = map Some ?d" "entries p1 = ?d" "immutable p1 = immutable p"
      by (simp_all add: p1_def entries_def comp_def)
    have srt: "sorted_wrt (LT ops) ?d" using dedup_sorted [OF D] assms(4) e by simp
    have h: "dense (elms p1)" "holds ops FN_IS_SSORT (elms p1)"
      "\<not> mut \<Longrightarrow> hom \<Longrightarrow> holds ops FN_IS_HOMOG (elms p1)" "\<not> mut \<Longrightarrow> \<not> hom \<Longrightarrow> holds ops FN_IS_NHOMOG (elms p1)"
      using srt hom dedup_families [OF D] by (auto simp: e1 dense_def comp_def)
    have q: "q = (if mut then p1 else
        SET_FILT_LIST (SET_FILT_LIST p1 (if \<not> hom then FN_IS_NHOMOG else FN_IS_HOMOG)) FN_IS_SSORT)"
      "status = (if mut then 0 else if \<not> hom then 1 else 2)"
      using assms(6) False loop r(1) el by (auto simp: RemoveDupsDensePlist_def LEN_PLIST_def ELM_PLIST_def p1_def)
    have qe: "elms q = elms p1" "entries q = ?d" "immutable q = immutable p" by (auto simp: q e1)
    have "type_ok ops q" using h p1 by (auto simp: q(1) simp del: holds.simps intro!: type_ok_SET)
    moreover have "set ?d \<subseteq> set (v # ws)" using set_dedup [of "EQ ops" v ws] by auto
    ultimately show ?thesis
      using h(1) srt mem_dedup [OF D] hom r(2) False dedup_families [OF D]
      by (simp add: qe e q(2) del: set_simps)
  qed
  then show "dense (elms q)" "sorted_wrt (LT ops) (entries q)" "set (entries q) \<subseteq> set (entries p)"
    "x \<in> D \<Longrightarrow> mem x (entries q) \<longleftrightarrow> mem x (entries p)" "type_ok ops q" "immutable q = immutable p"
    "status = (if elms p = [] \<or> (\<exists>x \<in> set (entries p). IS_MUTABLE_OBJ ops x) then 0
       else if \<not> homog ops (entries p) then 1 else 2)"
    "status \<noteq> 0 \<Longrightarrow> homog ops (entries q) \<longleftrightarrow> homog ops (entries p)" by blast+
qed

end

end
