(* ===== verification/Sets.thy ===== *)
theory Sets
  imports ListFunc
begin

text \<open>
  Proper sets, \<open>src/src/set.c\<close>: plain lists without holes and duplicates that are sorted. The operations
  test their arguments, convert what is not a set, work in place on the entries of the first argument
  and fix up its type. Each handler is a function from its arguments to the error it raises or to
  the arguments as it leaves them. The loops on two sorted arrays are modelled with their indices and
  stores, including the loop whose result array is one of the arrays it reads.
\<close>

subsection \<open>Testing and making sets\<close>

definition IsPlainSet :: "'a objops \<Rightarrow> 'a plist \<Rightarrow> 'a plist \<times> bool" where
  "IsPlainSet ops list = IS_SSORT_LIST ops list"

definition IsSet :: "'a objops \<Rightarrow> 'a plist \<Rightarrow> 'a plist \<times> bool" where
  "IsSet ops list =
     (let (list1, plain) = IsPlainSet ops list in
      if plain then (list1, True)
      else if LEN_PLIST list1 = 0 then (RetypeBagSM list1 T_PLIST_EMPTY, True)
      else
        let (list2, ssort) = IS_SSORT_LIST ops list1 in
        if ssort then (SET_FILT_LIST list2 FN_IS_SSORT, True) else (list2, False))"

text \<open>\<open>RequireMutableSet\<close>: the list as the test leaves it, or the error.\<close>

definition RequireMutableSet :: "'a objops \<Rightarrow> 'a plist \<Rightarrow> 'a plist result" where
  "RequireMutableSet ops op =
     (if immutable op then Inl ''must be a mutable proper set''
      else let (op1, ok) = IsSet ops op in
           if ok then Inr op1 else Inl ''must be a mutable proper set'')"

definition SetList :: "'a objops \<Rightarrow> 'a plist \<Rightarrow> 'a plist" where
  "SetList ops list =
     (let set1 = (NEW_PLIST T_PLIST (LEN_PLIST list))\<lparr>elms :=
                    fold (\<lambda>elm es. if elm \<noteq> None then es @ [elm] else es) (elms list) []\<rparr>;
          set2 = SET_FILT_LIST set1 FN_IS_DENSE;
          set3 = SortDensePlist ops set2;
          (set4, status) = RemoveDupsDensePlist ops set3
      in if status = 1 then SET_FILT_LIST (SET_FILT_LIST set4 FN_IS_NHOMOG) FN_IS_SSORT
         else if status = 2 then SET_FILT_LIST (SET_FILT_LIST set4 FN_IS_HOMOG) FN_IS_SSORT
         else set4)"

text \<open>\<open>SHALLOW_COPY_OBJ\<close> of a plain list, \<open>ShallowCopyPlist\<close>: a mutable list of the same type.\<close>

definition ShallowCopyPlist :: "'a plist \<Rightarrow> 'a plist" where
  "ShallowCopyPlist list = list\<lparr>immutable := False\<rparr>"

text \<open>The result and the argument, whose type the test may have changed.\<close>

definition FuncLIST_SORTED_LIST :: "'a objops \<Rightarrow> 'a plist \<Rightarrow> 'a plist \<times> 'a plist" where
  "FuncLIST_SORTED_LIST ops list =
     (if LEN_PLIST list = 0 then (NewEmptyPlist, list)
      else
        let (list1, ssort) = IS_SSORT_LIST ops list in
        if ssort then (ShallowCopyPlist list1, list1) else (SetList ops list1, list1))"

text \<open>The conversion of an argument that need not be a set: the set to use and the argument as it is left.\<close>

definition as_set :: "'a objops \<Rightarrow> 'a plist \<Rightarrow> 'a plist \<times> 'a plist" where
  "as_set ops list =
     (let (list1, plain) = IsPlainSet ops list in
      if \<not> plain then (SetList ops list1, list1) else (list1, list1))"

subsection \<open>Comparing sets\<close>

function eq_set_loop :: "'a objops \<Rightarrow> 'a plist \<Rightarrow> 'a plist \<Rightarrow> nat \<Rightarrow> bool" where
  "eq_set_loop ops listL listR i =
     (if i \<le> LEN_PLIST listL then
        if \<not> EQ ops (the (ELM_PLIST listL i)) (the (ELM_PLIST listR i)) then False
        else eq_set_loop ops listL listR (i + 1)
      else True)"
  by pat_completeness auto
termination by (relation "measure (\<lambda>(ops, listL, listR, i). Suc (LEN_PLIST listL) - i)") auto

declare eq_set_loop.simps [simp del]

definition EqSet :: "'a objops \<Rightarrow> 'a plist \<Rightarrow> 'a plist \<Rightarrow> bool" where
  "EqSet ops listL listR =
     (if LEN_PLIST listL \<noteq> LEN_PLIST listR then False else eq_set_loop ops listL listR 1)"

definition FuncIS_EQUAL_SET :: "'a objops \<Rightarrow> 'a plist \<Rightarrow> 'a plist \<Rightarrow> bool" where
  "FuncIS_EQUAL_SET ops list1 list2 = EqSet ops (fst (as_set ops list1)) (fst (as_set ops list2))"

function subset_loop :: "'a objops \<Rightarrow> 'a plist \<Rightarrow> 'a plist \<Rightarrow> nat \<Rightarrow> nat \<Rightarrow> nat" where
  "subset_loop ops set1 set2 i1 i2 =
     (if i1 \<le> LEN_PLIST set1 \<and> i2 \<le> LEN_PLIST set2 \<and> LEN_PLIST set2 - i2 \<le> LEN_PLIST set1 - i1 then
        let e1 = the (ELM_PLIST set1 i1); e2 = the (ELM_PLIST set2 i2) in
        if EQ ops e1 e2 then subset_loop ops set1 set2 (i1 + 1) (i2 + 1)
        else if LT ops e1 e2 then subset_loop ops set1 set2 (i1 + 1) i2
        else i2
      else i2)"
  by pat_completeness auto
termination by (relation "measure (\<lambda>(ops, set1, set2, i1, i2). Suc (LEN_PLIST set1) - i1)") auto

declare subset_loop.simps [simp del]

definition FuncIS_SUBSET_SET :: "'a objops \<Rightarrow> 'a plist \<Rightarrow> 'a plist \<Rightarrow> bool" where
  "FuncIS_SUBSET_SET ops set1 set2 =
     (let s1 = fst (as_set ops set1); s2 = fst (as_set ops set2)
      in subset_loop ops s1 s2 1 1 = LEN_PLIST s2 + 1)"

subsection \<open>Adding and removing an element\<close>

text \<open>\<open>SyMemmove\<close> within the entries of a list, by positions counted from 0.\<close>

definition SyMemmove :: "'a list \<Rightarrow> nat \<Rightarrow> nat \<Rightarrow> nat \<Rightarrow> 'a list" where
  "SyMemmove xs dst src n = take dst xs @ take n (drop src xs) @ drop (dst + n) xs"

text \<open>The type of the enlarged set: \<open>len\<close> is the length before, \<open>pos\<close> the position of the new entry.\<close>

definition add_set_type :: "'a objops \<Rightarrow> 'a plist \<Rightarrow> nat \<Rightarrow> nat \<Rightarrow> 'a \<Rightarrow> 'a plist" where
  "add_set_type ops set0 len pos obj =
     (if HAS_FILT_LIST set0 FN_IS_SSORT then
        let isCyc = (TNUM_OBJ set0 = (T_PLIST_CYC_SSORT, False));
            wasHom = HAS_FILT_LIST set0 FN_IS_HOMOG;
            wasTab = HAS_FILT_LIST set0 FN_IS_TABLE;
            wasNHom = HAS_FILT_LIST set0 FN_IS_NHOMOG;
            set1 = SET_FILT_LIST (CLEAR_FILTS_LIST set0) FN_IS_DENSE;
            set2 =
              (if \<not> IS_MUTABLE_OBJ ops obj then
                 if len = 0 then
                   if IS_CYC ops obj then RetypeBag set1 (T_PLIST_CYC_SSORT, False)
                   else
                     let s = SET_FILT_LIST (SET_FILT_LIST set1 FN_IS_HOMOG) FN_IS_SSORT
                     in if IS_HOMOG_LIST ops obj then SET_FILT_LIST s FN_IS_TABLE else s
                 else if isCyc then
                   if IS_CYC ops obj then RetypeBag set1 (T_PLIST_CYC_SSORT, False)
                   else SET_FILT_LIST (RESET_FILT_LIST set1 FN_IS_HOMOG) FN_IS_NHOMOG
                 else if wasHom then
                   if \<not> SyInitializing ops then
                     let notpos = (if pos = 1 then 2 else 1) in
                     if FAMILY_OBJ ops (the (ELM_PLIST set1 notpos)) = FAMILY_OBJ ops obj then
                       let s = SET_FILT_LIST set1 FN_IS_HOMOG
                       in if wasTab \<and> IS_HOMOG_LIST ops obj then SET_FILT_LIST s FN_IS_TABLE else s
                     else SET_FILT_LIST set1 FN_IS_NHOMOG
                   else set1
                 else if wasNHom then SET_FILT_LIST set1 FN_IS_NHOMOG
                 else set1
               else set1)
        in SET_FILT_LIST set2 FN_IS_SSORT
      else SET_FILT_LIST (CLEAR_FILTS_LIST set0) FN_IS_DENSE)"

text \<open>
  The number of entries moved, \<open>len - pos + 1\<close> in unsigned arithmetic, is 0 when \<open>pos\<close> is \<open>len + 1\<close>; it is
  written \<open>len + 1 - pos\<close> over the natural numbers.
\<close>

definition FuncADD_SET :: "'a objops \<Rightarrow> 'a plist \<Rightarrow> 'a \<Rightarrow> 'a plist result" where
  "FuncADD_SET ops set0 obj =
     rbind (RequireMutableSet ops set0) (\<lambda>set1.
       let len = LEN_PLIST set1;
           pos = PositionSortedDensePlist ops set1 obj
       in if len < pos \<or> \<not> EQ ops (the (ELM_PLIST set1 pos)) obj then
            let set2 = set1\<lparr>elms := SyMemmove (elms set1 @ [None]) pos (pos - 1) (len + 1 - pos)\<rparr>;
                set3 = SET_ELM_PLIST set2 pos (Some obj)
            in Inr (add_set_type ops set3 len pos obj)
          else Inr set1)"

definition FuncREM_SET :: "'a objops \<Rightarrow> 'a plist \<Rightarrow> 'a \<Rightarrow> 'a plist result" where
  "FuncREM_SET ops set0 obj =
     rbind (RequireMutableSet ops set0) (\<lambda>set1.
       let len = LEN_PLIST set1;
           pos = PositionSortedDensePlist ops set1 obj
       in if pos \<le> len \<and> EQ ops (the (ELM_PLIST set1 pos)) obj then
            let set2 = set1\<lparr>elms := SyMemmove (elms set1) (pos - 1) pos (len - pos)\<rparr>;
                set3 = SET_ELM_PLIST set2 len None;
                set4 = set3\<lparr>elms := take (len - 1) (elms set3)\<rparr>
            in Inr (if len - 1 = 0 then RetypeBag set4 (T_PLIST_EMPTY, False) else set4)
          else Inr set1)"

subsection \<open>Union\<close>

function unite_main ::
  "'a objops \<Rightarrow> 'a plist \<Rightarrow> 'a plist \<Rightarrow> nat \<Rightarrow> nat \<Rightarrow> 'a option list \<Rightarrow> nat \<times> nat \<times> 'a option list" where
  "unite_main ops set1 set2 i1 i2 tmp =
     (if i1 \<le> LEN_PLIST set1 \<and> i2 \<le> LEN_PLIST set2 then
        let e1 = the (ELM_PLIST set1 i1); e2 = the (ELM_PLIST set2 i2) in
        if EQ ops e1 e2 then unite_main ops set1 set2 (i1 + 1) (i2 + 1) (tmp @ [Some e1])
        else if LT ops e1 e2 then unite_main ops set1 set2 (i1 + 1) i2 (tmp @ [Some e1])
        else unite_main ops set1 set2 i1 (i2 + 1) (tmp @ [Some e2])
      else (i1, i2, tmp))"
  by pat_completeness auto
termination by (relation "measure (\<lambda>(ops, set1, set2, i1, i2, tmp).
    (Suc (LEN_PLIST set1) - i1) + (Suc (LEN_PLIST set2) - i2))") auto

declare unite_main.simps [simp del]

function unite_rest :: "'a plist \<Rightarrow> nat \<Rightarrow> 'a option list \<Rightarrow> 'a option list" where
  "unite_rest set0 i tmp =
     (if i \<le> LEN_PLIST set0 then unite_rest set0 (i + 1) (tmp @ [ELM_PLIST set0 i]) else tmp)"
  by pat_completeness auto
termination by (relation "measure (\<lambda>(set0, i, tmp). Suc (LEN_PLIST set0) - i)") auto

declare unite_rest.simps [simp del]

definition unite_set_type :: "'a objops \<Rightarrow> 'a plist \<Rightarrow> 'a plist \<Rightarrow> 'a plist" where
  "unite_set_type ops set1 set2 =
     SET_FILT_LIST
       (if LEN_PLIST set1 = 0 then RetypeBag set1 (tnum set2, False)
        else if LEN_PLIST set2 \<noteq> 0 then
          if HAS_FILT_LIST set1 FN_IS_HOMOG then
            if \<not> HAS_FILT_LIST set2 FN_IS_HOMOG then RESET_FILT_LIST set1 FN_IS_HOMOG
            else if \<not> SyInitializing ops \<and>
                FAMILY_OBJ ops (the (ELM_PLIST set1 1)) \<noteq> FAMILY_OBJ ops (the (ELM_PLIST set2 1))
            then RetypeBag set1 (T_PLIST_DENSE_NHOM, False)
            else set1
          else set1
        else set1)
       FN_IS_SSORT"

definition FuncUNITE_SET :: "'a objops \<Rightarrow> 'a plist \<Rightarrow> 'a plist \<Rightarrow> ('a plist \<times> 'a plist) result" where
  "FuncUNITE_SET ops set1 set2 =
     rbind (RequireMutableSet ops set1) (\<lambda>s1.
       let (s2, arg2) = as_set ops set2;
           (i1, i2, tmp) = unite_main ops s1 s2 1 1 [];
           tmp1 = unite_rest s1 i1 tmp;
           tmp2 = unite_rest s2 i2 tmp1
       in Inr ((unite_set_type ops s1 s2)\<lparr>elms := tmp2\<rparr>, arg2))"

subsection \<open>Intersection\<close>

text \<open>The length of a number in bits: \<open>while (x > 0) { ll++; x >>= 1; }\<close>.\<close>

function bit_count :: "nat \<Rightarrow> nat" where
  "bit_count x = (if x > 0 then bit_count (x div 2) + 1 else 0)"
  by pat_completeness auto
termination by (relation "measure id") auto

declare bit_count.simps [simp del]

text \<open>\<open>InterSetInner1\<close> writes its result over the front of the first array.\<close>

function InterSetInner1 ::
  "'a objops \<Rightarrow> nat \<Rightarrow> nat \<Rightarrow> 'a option list \<Rightarrow> 'a option list \<Rightarrow> nat \<Rightarrow> nat \<Rightarrow> nat \<Rightarrow> 'a option list \<times> nat" where
  "InterSetInner1 ops len1 len2 set1 set2 lenr i1 i2 =
     (if i1 \<le> len1 \<and> i2 \<le> len2 then
        let e1 = set1 ! (i1 - 1); e2 = set2 ! (i2 - 1) in
        if EQ ops (the e1) (the e2) then
          InterSetInner1 ops len1 len2 (set1[lenr := e1]) set2 (lenr + 1) (i1 + 1) (i2 + 1)
        else if LT ops (the e1) (the e2) then InterSetInner1 ops len1 len2 set1 set2 lenr (i1 + 1) i2
        else InterSetInner1 ops len1 len2 set1 set2 lenr i1 (i2 + 1)
      else (set1, lenr))"
  by pat_completeness auto
termination by (relation "measure (\<lambda>(ops, len1, len2, set1, set2, lenr, i1, i2). (Suc len1 - i1) + (Suc len2 - i2))") auto

declare InterSetInner1.simps [simp del]

text \<open>The binary search of the second variants: \<open>Inl\<close> the final \<open>bottom\<close> or \<open>Inr\<close> the position found.\<close>

function inner_search :: "'a objops \<Rightarrow> 'a option list \<Rightarrow> 'a \<Rightarrow> nat \<Rightarrow> nat \<Rightarrow> nat + nat" where
  "inner_search ops set2 e1 lower upper =
     (if lower \<le> upper \<and> 0 < lower then
        let middle = (lower + upper) div 2; e2 = the (set2 ! (middle - 1)) in
        if LT ops e1 e2 then inner_search ops set2 e1 lower (middle - 1)
        else if EQ ops e1 e2 then Inr middle
        else inner_search ops set2 e1 (middle + 1) upper
      else Inl lower)"
  by pat_completeness auto
termination by (relation "measure (\<lambda>(ops, set2, e1, lower, upper). Suc upper - lower)") auto

declare inner_search.simps [simp del]

text \<open>
  \<open>InterSetInner2\<close> is called with its result array equal to its first array (\<open>first\<close>) or to its second one,
  which it searches at the same time.
\<close>

function InterSetInner2 ::
  "'a objops \<Rightarrow> bool \<Rightarrow> nat \<Rightarrow> nat \<Rightarrow> 'a option list \<Rightarrow> 'a option list \<Rightarrow> nat \<Rightarrow> nat \<Rightarrow> nat
     \<Rightarrow> 'a option list \<times> 'a option list \<times> nat" where
  "InterSetInner2 ops first len1 len2 set1 set2 lenr i1 i2 =
     (if i1 \<le> len1 then
        let e1 = set1 ! (i1 - 1) in
        case inner_search ops set2 (the e1) i2 len2 of
          Inr middle \<Rightarrow>
            (let set1' = (if first then set1[lenr := e1] else set1);
                 set2' = (if first then set2 else set2[lenr := e1])
             in InterSetInner2 ops first len1 len2 set1' set2' (lenr + 1) (i1 + 1) (middle + 1))
        | Inl lower \<Rightarrow> InterSetInner2 ops first len1 len2 set1 set2 lenr (i1 + 1) lower
      else (set1, set2, lenr))"
  by pat_completeness auto
termination by (relation "measure (\<lambda>(ops, first, len1, len2, set1, set2, lenr, i1, i2). Suc len1 - i1)") auto

declare InterSetInner2.simps [simp del]

text \<open>The choice of the loop: the new entries of the first set and their number.\<close>

definition inter_entries :: "'a objops \<Rightarrow> 'a option list \<Rightarrow> 'a option list \<Rightarrow> 'a option list \<times> nat" where
  "inter_entries ops set1 set2 =
     (let len1 = length set1; len2 = length set2 in
      if len1 < len2 then
        let ll = bit_count len2 in
        if len1 * ll < len2 then
          let (s1, s2, lenr) = InterSetInner2 ops True len1 len2 set1 set2 0 1 1 in (s1, lenr)
        else InterSetInner1 ops len1 len2 set1 set2 0 1 1
      else
        let ll = bit_count len1 in
        if len2 * ll < len1 then
          let (s2, s1, lenr) = InterSetInner2 ops False len2 len1 set2 set1 0 1 1 in (s1, lenr)
        else InterSetInner1 ops len1 len2 set1 set2 0 1 1)"

definition inter_set_type :: "'a objops \<Rightarrow> 'a plist \<Rightarrow> 'a plist \<Rightarrow> 'a plist" where
  "inter_set_type ops set1 set2 =
     (if LEN_PLIST set1 = 0 then RetypeBag set1 (T_PLIST_EMPTY, False)
      else if LEN_PLIST set1 = 1 then
        if IS_CYC ops (the (ELM_PLIST set1 1)) then RetypeBag set1 (T_PLIST_CYC_SSORT, False)
        else RetypeBag set1 (T_PLIST_HOM_SSORT, False)
      else if tnum set2 \<in> {T_PLIST_CYC, T_PLIST_CYC_NSORT, T_PLIST_CYC_SSORT, T_PLIST_FFE}
      then RetypeBag set1 (tnum set2, False)
      else
        let s = RESET_FILT_LIST set1 FN_IS_NHOMOG in
        if HAS_FILT_LIST set2 FN_IS_HOMOG
        then SET_FILT_LIST (SET_FILT_LIST s FN_IS_HOMOG) FN_IS_SSORT
        else s)"

definition FuncINTER_SET :: "'a objops \<Rightarrow> 'a plist \<Rightarrow> 'a plist \<Rightarrow> ('a plist \<times> 'a plist) result" where
  "FuncINTER_SET ops set1 set2 =
     rbind (RequireMutableSet ops set1) (\<lambda>s1.
       let (s2, arg2) = as_set ops set2;
           (es, lenr) = inter_entries ops (elms s1) (elms s2)
       in Inr (inter_set_type ops (s1\<lparr>elms := take lenr es\<rparr>) s2, arg2))"

subsection \<open>Difference\<close>

function SubtrSetInner1 ::
  "'a objops \<Rightarrow> nat \<Rightarrow> nat \<Rightarrow> 'a option list \<Rightarrow> 'a option list \<Rightarrow> nat \<Rightarrow> nat \<Rightarrow> nat \<Rightarrow> 'a option list \<times> nat" where
  "SubtrSetInner1 ops len1 len2 set1 set2 lenr i1 i2 =
     (if i1 \<le> len1 \<and> i2 \<le> len2 then
        let e1 = set1 ! (i1 - 1); e2 = set2 ! (i2 - 1) in
        if EQ ops (the e1) (the e2) then SubtrSetInner1 ops len1 len2 set1 set2 lenr (i1 + 1) (i2 + 1)
        else if LT ops (the e1) (the e2) then
          SubtrSetInner1 ops len1 len2 (set1[lenr := e1]) set2 (lenr + 1) (i1 + 1) i2
        else SubtrSetInner1 ops len1 len2 set1 set2 lenr i1 (i2 + 1)
      else if i1 \<le> len1 then
        SubtrSetInner1 ops len1 len2 (set1[lenr := set1 ! (i1 - 1)]) set2 (lenr + 1) (i1 + 1) i2
      else (set1, lenr))"
  by pat_completeness auto
termination by (relation "measure (\<lambda>(ops, len1, len2, set1, set2, lenr, i1, i2). (Suc len1 - i1) + (Suc len2 - i2))") auto

declare SubtrSetInner1.simps [simp del]

function SubtrSetInner2 ::
  "'a objops \<Rightarrow> nat \<Rightarrow> nat \<Rightarrow> 'a option list \<Rightarrow> 'a option list \<Rightarrow> nat \<Rightarrow> nat \<Rightarrow> nat \<Rightarrow> 'a option list \<times> nat" where
  "SubtrSetInner2 ops len1 len2 set1 set2 lenr i1 i2 =
     (if i1 \<le> len1 then
        let e1 = set1 ! (i1 - 1) in
        case inner_search ops set2 (the e1) i2 len2 of
          Inr middle \<Rightarrow> SubtrSetInner2 ops len1 len2 set1 set2 lenr (i1 + 1) (middle + 1)
        | Inl lower \<Rightarrow> SubtrSetInner2 ops len1 len2 (set1[lenr := e1]) set2 (lenr + 1) (i1 + 1) lower
      else (set1, lenr))"
  by pat_completeness auto
termination by (relation "measure (\<lambda>(ops, len1, len2, set1, set2, lenr, i1, i2). Suc len1 - i1)") auto

declare SubtrSetInner2.simps [simp del]

definition subtr_entries :: "'a objops \<Rightarrow> 'a option list \<Rightarrow> 'a option list \<Rightarrow> 'a option list \<times> nat" where
  "subtr_entries ops set1 set2 =
     (let len1 = length set1; len2 = length set2; ll = bit_count len2 in
      if len1 * ll < len2 then SubtrSetInner2 ops len1 len2 set1 set2 0 1 1
      else SubtrSetInner1 ops len1 len2 set1 set2 0 1 1)"

definition subtr_set_type :: "'a objops \<Rightarrow> 'a plist \<Rightarrow> 'a plist" where
  "subtr_set_type ops set1 =
     (if LEN_PLIST set1 = 0 then RetypeBag set1 (T_PLIST_EMPTY, False)
      else if LEN_PLIST set1 = 1 then
        if IS_CYC ops (the (ELM_PLIST set1 1)) then RetypeBag set1 (T_PLIST_CYC_SSORT, False)
        else RetypeBag set1 (T_PLIST_HOM_SSORT, False)
      else RESET_FILT_LIST set1 FN_IS_NHOMOG)"

definition FuncSUBTR_SET :: "'a objops \<Rightarrow> 'a plist \<Rightarrow> 'a plist \<Rightarrow> ('a plist \<times> 'a plist) result" where
  "FuncSUBTR_SET ops set1 set2 =
     rbind (RequireMutableSet ops set1) (\<lambda>s1.
       let (s2, arg2) = as_set ops set2;
           (es, lenr) = subtr_entries ops (elms s1) (elms s2)
       in Inr (subtr_set_type ops (s1\<lparr>elms := take lenr es\<rparr>), arg2))"

end
