(* ===== verification/SetCorrect.thy ===== *)
theory SetCorrect
  imports Sets
begin

text \<open>
  The operations on proper sets do what sets promise: the loops on strictly sorted entries compute the
  union, intersection and difference up to the equality of objects, the two variants of the intersection and the
  difference agree, insertion and deletion keep the order, and the types the results carry stay true.
\<close>

subsection \<open>Union of entries\<close>


subsection \<open>The loops as functions on the lists of entries\<close>

text \<open>What each loop computes from two lists of entries.\<close>

fun union_entries :: "'a objops \<Rightarrow> 'a list \<Rightarrow> 'a list \<Rightarrow> 'a list" where
  "union_entries ops (x # xs) (y # ys) =
     (if EQ ops x y then x # union_entries ops xs ys
      else if LT ops x y then x # union_entries ops xs (y # ys)
      else y # union_entries ops (x # xs) ys)"
| "union_entries ops [] ys = ys"
| "union_entries ops xs [] = xs"

lemma union_entries_Nil2 [simp]: "union_entries ops xs [] = xs"
  by (cases xs) auto

lemma pair_list_induct3:
  assumes "\<And>x xs y ys. P xs ys \<Longrightarrow> P xs (y # ys) \<Longrightarrow> P (x # xs) ys \<Longrightarrow> P (x # xs) (y # ys)"
    and "\<And>ys. P [] ys" "\<And>xs. P xs []"
  shows "P xs ys"
proof (induction "length xs + length ys" arbitrary: xs ys rule: less_induct)
  case less
  then show ?case by (cases xs; cases ys) (auto intro!: assms)
qed

lemma entry_drop:
  "1 \<le> i \<Longrightarrow> i \<le> length xs \<Longrightarrow> drop (i - 1) xs = xs ! (i - 1) # drop i xs"
  using Cons_nth_drop_Suc [of "i - 1" xs] by simp

lemma entries_nth: "1 \<le> i \<Longrightarrow> i \<le> LEN_PLIST p \<Longrightarrow> the (ELM_PLIST p i) = entries p ! (i - 1)"
  by (simp add: ELM_PLIST_def entries_def LEN_PLIST_def)

lemma length_entries [simp]: "length (entries p) = LEN_PLIST p"
  by (simp add: entries_def LEN_PLIST_def)

lemma entries_drop:
  "1 \<le> i \<Longrightarrow> i \<le> LEN_PLIST p \<Longrightarrow> drop (i - 1) (entries p) = the (ELM_PLIST p i) # drop i (entries p)"
  using entry_drop [of i "entries p"] by (simp add: entries_nth [simplified])

lemma ELM_PLIST_dense:
  assumes "dense (elms p)" "1 \<le> i" "i \<le> LEN_PLIST p"
  shows "ELM_PLIST p i = Some (the (ELM_PLIST p i))"
proof -
  have "elms p ! (i - 1) \<in> set (elms p)" using assms(2,3) by (intro nth_mem) (simp add: LEN_PLIST_def)
  then have "elms p ! (i - 1) \<noteq> None" using assms(1) by (metis dense_def)
  then show ?thesis by (simp add: ELM_PLIST_def)
qed

lemma unite_rest_entries:
  assumes "dense (elms p)" "1 \<le> i"
  shows "unite_rest p i tmp = tmp @ map Some (drop (i - 1) (entries p))"
  using assms
proof (induction p i tmp rule: unite_rest.induct)
  case (1 p i tmp)
  show ?case
  proof (cases "i \<le> LEN_PLIST p")
    case True
    then have "ELM_PLIST p i = Some (the (ELM_PLIST p i))"
      using ELM_PLIST_dense [OF "1.prems"] by blast
    with True 1 entries_drop [OF "1.prems"(2) True] show ?thesis by (subst unite_rest.simps) simp
  next
    case False
    then show ?thesis by (subst unite_rest.simps) simp
  qed
qed

lemma unite_main_entries:
  assumes "dense (elms s1)" "dense (elms s2)" "1 \<le> i1" "1 \<le> i2"
    and "unite_main ops s1 s2 i1 i2 tmp = (j1, j2, tmp')"
  shows "unite_rest s2 j2 (unite_rest s1 j1 tmp') =
    tmp @ map Some (union_entries ops (drop (i1 - 1) (entries s1)) (drop (i2 - 1) (entries s2)))"
  using assms
proof (induction ops s1 s2 i1 i2 tmp rule: unite_main.induct)
  case (1 ops s1 s2 i1 i2 tmp)
  show ?case
  proof (cases "i1 \<le> LEN_PLIST s1 \<and> i2 \<le> LEN_PLIST s2")
    case True
    let ?e1 = "the (ELM_PLIST s1 i1)" and ?e2 = "the (ELM_PLIST s2 i2)"
    have d: "drop (i1 - 1) (entries s1) = ?e1 # drop i1 (entries s1)"
      "drop (i2 - 1) (entries s2) = ?e2 # drop i2 (entries s2)"
      using True "1.prems" entries_drop by blast+
    have st: "unite_main ops s1 s2 i1 i2 tmp =
        (if EQ ops ?e1 ?e2 then unite_main ops s1 s2 (i1 + 1) (i2 + 1) (tmp @ [Some ?e1])
         else if LT ops ?e1 ?e2 then unite_main ops s1 s2 (i1 + 1) i2 (tmp @ [Some ?e1])
         else unite_main ops s1 s2 i1 (i2 + 1) (tmp @ [Some ?e2]))"
      using True by (subst unite_main.simps) (simp add: Let_def)
    consider (eq) "EQ ops ?e1 ?e2" | (lt) "\<not> EQ ops ?e1 ?e2" "LT ops ?e1 ?e2"
      | (gt) "\<not> EQ ops ?e1 ?e2" "\<not> LT ops ?e1 ?e2" by blast
    then show ?thesis
    proof cases
      case eq
      then have "unite_main ops s1 s2 (i1 + 1) (i2 + 1) (tmp @ [Some ?e1]) = (j1, j2, tmp')"
        using st "1.prems"(5) by simp
      from "1.IH"(1) [OF True refl refl eq "1.prems"(1,2) _ _ this] show ?thesis using d eq by simp
    next
      case lt
      then have "unite_main ops s1 s2 (i1 + 1) i2 (tmp @ [Some ?e1]) = (j1, j2, tmp')"
        using st "1.prems"(5) by simp
      from "1.IH"(2) [OF True refl refl lt "1.prems"(1,2) _ _ this] show ?thesis
        using d lt "1.prems"(4) by simp
    next
      case gt
      then have "unite_main ops s1 s2 i1 (i2 + 1) (tmp @ [Some ?e2]) = (j1, j2, tmp')"
        using st "1.prems"(5) by simp
      from "1.IH"(3) [OF True refl refl gt "1.prems"(1,2) _ _ this] show ?thesis
        using d gt "1.prems"(3) by simp
    qed
  next
    case False
    then have "j1 = i1" "j2 = i2" "tmp' = tmp" using "1.prems"(5) by (subst (asm) unite_main.simps, auto)+
    then show ?thesis using False "1.prems" by (auto simp: unite_rest_entries not_le)
  qed
qed

context ordered_objects
begin

lemma mem_Nil [simp]: "\<not> mem x []"
  by (simp add: mem_def)

lemma mem_Cons: "mem x (y # ys) \<longleftrightarrow> EQ ops x y \<or> mem x ys"
  by (auto simp: mem_def)

lemma mem_append: "mem x (xs @ ys) \<longleftrightarrow> mem x xs \<or> mem x ys"
  by (auto simp: mem_def)

lemma set_union_entries: "set (union_entries ops xs ys) \<subseteq> set xs \<union> set ys"
  by (induction xs ys rule: pair_list_induct3) auto

lemma mem_union_entries:
  assumes "set xs \<subseteq> D" "set ys \<subseteq> D" "x \<in> D"
  shows "mem x (union_entries ops xs ys) \<longleftrightarrow> mem x xs \<or> mem x ys"
  using assms(1,2)
proof (induction xs ys rule: pair_list_induct3)
  case (1 a as b bs)
  have "EQ ops a b \<Longrightarrow> EQ ops x b \<longleftrightarrow> EQ ops x a"
    using EQ_trans [of x a b] EQ_trans [of x b a] EQ_sym [of a b] "1.prems" assms(3) by auto
  with 1 show ?case by (auto simp: mem_Cons)
qed auto

lemma cases_EQ_LT:
  assumes "a \<in> D" "b \<in> D"
  obtains "EQ ops a b" "\<not> LT ops a b" "\<not> LT ops b a" | "LT ops a b" "\<not> EQ ops a b" "\<not> LT ops b a"
    | "LT ops b a" "\<not> EQ ops a b" "\<not> LT ops a b"
  using EQ_iff [OF assms] lt_asym [OF assms] by blast

lemma union_entries_sorted:
  assumes "set xs \<subseteq> D" "set ys \<subseteq> D" "sorted_wrt (LT ops) xs" "sorted_wrt (LT ops) ys"
  shows "sorted_wrt (LT ops) (union_entries ops xs ys)"
  using assms
proof (induction xs ys rule: pair_list_induct3)
  case (1 a as b bs)
  have D: "a \<in> D" "b \<in> D" using "1.prems" by auto
  have as: "LT ops a z" "z \<in> D" if "z \<in> set as" for z using "1.prems" that by auto
  have bs: "LT ops b z" "z \<in> D" if "z \<in> set bs" for z using "1.prems" that by auto
  from D show ?case
  proof (cases rule: cases_EQ_LT)
    case 1
    have "LT ops a z" if "z \<in> set as \<union> set bs" for z
      using that as bs LT_EQ(1) [of a b z] D 1 by auto
    with 1 "1.IH"(1) "1.prems" set_union_entries [of as bs] show ?thesis by auto
  next
    case 2
    have "LT ops a z" if "z \<in> set as \<union> set (b # bs)" for z
      using that as bs lt_trans [of a b z] D 2 by auto
    with 2 "1.IH"(2) "1.prems" set_union_entries [of as "b # bs"] show ?thesis by auto
  next
    case 3
    have "LT ops b z" if "z \<in> set (a # as) \<union> set bs" for z
      using that as bs lt_trans [of b a z] D 3 by auto
    with 3 "1.IH"(3) "1.prems" set_union_entries [of "a # as" bs] show ?thesis by auto
  qed
qed auto

end


subsection \<open>Intersection and difference of entries\<close>

text \<open>The cell at position \<open>i\<close> and the cells behind it, when the array from \<open>i\<close> on holds \<open>x # xs\<close>.\<close>

lemma cell_at:
  assumes "drop (i - 1) A = map Some (x # xs)" "1 \<le> i"
  shows "A ! (i - 1) = Some x" "drop i A = map Some xs" "i \<le> length A"
proof -
  have l: "i - 1 < length A" using assms(1) by (metis drop_all list.distinct(1) list.map(2) not_le)
  then show "i \<le> length A" using assms(2) by simp
  have "A ! (i - 1) # drop i A = Some x # map Some xs"
    using Cons_nth_drop_Suc [OF l] assms by simp
  then show "A ! (i - 1) = Some x" "drop i A = map Some xs" by auto
qed

lemma no_cell: "drop (i - 1) A = [] \<Longrightarrow> 1 \<le> i \<Longrightarrow> \<not> i \<le> length A"
  by simp

text \<open>Writing the next result in front of the cells still to be read.\<close>

lemma write_front:
  assumes "lenr < i" "lenr < length A"
  shows "drop i (A[lenr := v]) = drop i A" "take (lenr + 1) (A[lenr := v]) = take lenr A @ [v]"
  using assms by (auto simp: take_Suc_conv_app_nth)

context ordered_objects
begin

lemma mem_skip: "z \<in> D \<Longrightarrow> y \<in> D \<Longrightarrow> LT ops y z \<Longrightarrow> mem z (y # ys) = mem z ys"
  using EQ_iff by (auto simp: mem_Cons)

lemma not_mem_above: "x \<in> D \<Longrightarrow> set ys \<subseteq> D \<Longrightarrow> (\<And>y. y \<in> set ys \<Longrightarrow> LT ops x y) \<Longrightarrow> \<not> mem x ys"
  using EQ_iff by (auto simp: mem_def)

lemma filter_mem_skip:
  assumes "set xs \<subseteq> D" "y \<in> D" "\<And>z. z \<in> set xs \<Longrightarrow> LT ops y z"
  shows "filter (\<lambda>z. mem z (y # ys)) xs = filter (\<lambda>z. mem z ys) xs"
    "filter (\<lambda>z. \<not> mem z (y # ys)) xs = filter (\<lambda>z. \<not> mem z ys) xs"
  using assms mem_skip by (auto intro!: filter_cong)

text \<open>One step of the linear loops on strictly sorted entries.\<close>

lemma mem_step:
  assumes "set (x # xs) \<subseteq> D" "set (y # ys) \<subseteq> D" "sorted_wrt (LT ops) (x # xs)" "sorted_wrt (LT ops) (y # ys)"
  shows "EQ ops x y \<Longrightarrow> mem x (y # ys) \<and> (\<forall>z \<in> set xs. LT ops y z)"
    "LT ops x y \<Longrightarrow> \<not> mem x (y # ys)"
    "\<not> EQ ops x y \<Longrightarrow> \<not> LT ops x y \<Longrightarrow> \<forall>z \<in> set (x # xs). LT ops y z"
proof -
  have D: "x \<in> D" "y \<in> D" using assms by auto
  have xs: "LT ops x z" "z \<in> D" if "z \<in> set xs" for z using that assms by auto
  have ys: "LT ops y z" "z \<in> D" if "z \<in> set ys" for z using that assms by auto
  show "EQ ops x y \<Longrightarrow> mem x (y # ys) \<and> (\<forall>z \<in> set xs. LT ops y z)"
    using D xs LT_EQ(1) [of y x] EQ_sym by (auto simp: mem_Cons)
  show "LT ops x y \<Longrightarrow> \<not> mem x (y # ys)"
    using D ys lt_trans [of x y] assms(2) by (intro not_mem_above) auto
  show "\<not> EQ ops x y \<Longrightarrow> \<not> LT ops x y \<Longrightarrow> \<forall>z \<in> set (x # xs). LT ops y z"
    using D xs lt_trans [of y x] EQ_iff [of x y] by auto
qed

lemma InterSetInner1_entries:
  assumes "length A = len1" "length B = len2" "1 \<le> i1" "1 \<le> i2" "lenr < i1"
    and "drop (i1 - 1) A = map Some xs" "drop (i2 - 1) B = map Some ys"
    and "set xs \<subseteq> D" "set ys \<subseteq> D" "sorted_wrt (LT ops) xs" "sorted_wrt (LT ops) ys"
    and "InterSetInner1 ops len1 len2 A B lenr i1 i2 = (R, n)"
  shows "take n R = take lenr A @ map Some (filter (\<lambda>x. mem x ys) xs)"
  using assms
proof (induction "(len1 + 1 - i1) + (len2 + 1 - i2)" arbitrary: A lenr i1 i2 xs ys rule: less_induct)
  case less
  show ?case
  proof (cases "xs = [] \<or> ys = []")
    case True
    then have "\<not> (i1 \<le> len1 \<and> i2 \<le> len2)" using less.prems no_cell by fastforce
    then have "R = A" "n = lenr" using less.prems(12) by (subst (asm) InterSetInner1.simps, auto)+
    with True show ?thesis by auto
  next
    case False
    then obtain x xs' y ys' where xy: "xs = x # xs'" "ys = y # ys'" by (meson neq_Nil_conv)
    note A = cell_at [OF less.prems(6) [unfolded xy] less.prems(3)]
    note B = cell_at [OF less.prems(7) [unfolded xy] less.prems(4)]
    have le: "i1 \<le> len1" "i2 \<le> len2" using A(3) B(3) less.prems(1,2) by auto
    note S = mem_step [OF less.prems(8-11) [unfolded xy]]
    have st: "InterSetInner1 ops len1 len2 A B lenr i1 i2 =
        (if EQ ops x y then InterSetInner1 ops len1 len2 (A[lenr := Some x]) B (lenr + 1) (i1 + 1) (i2 + 1)
         else if LT ops x y then InterSetInner1 ops len1 len2 A B lenr (i1 + 1) i2
         else InterSetInner1 ops len1 len2 A B lenr i1 (i2 + 1))"
      using le A B by (subst InterSetInner1.simps) (simp add: Let_def)
    have D: "set xs' \<subseteq> D" "y \<in> D" "x \<in> D" "set ys' \<subseteq> D" using less.prems(8,9) xy by auto
    consider (eq) "EQ ops x y" | (lt) "\<not> EQ ops x y" "LT ops x y" | (gt) "\<not> EQ ops x y" "\<not> LT ops x y" by blast
    then show ?thesis
    proof cases
      case eq
      have w: "drop (i1 + 1 - 1) (A[lenr := Some x]) = map Some xs'"
        "take (lenr + 1) (A[lenr := Some x]) = take lenr A @ [Some x]"
        using write_front [of lenr i1 A "Some x"] less.prems(1,5) le A(2) by auto
      have "take n R = take (lenr + 1) (A[lenr := Some x]) @ map Some (filter (\<lambda>x. mem x ys') xs')"
        using less.prems le st eq w(1) B xy by (intro less.hyps [of "i1 + 1" "i2 + 1"]) auto
      then show ?thesis using w(2) S(1) [OF eq] xy filter_mem_skip(1) [of xs' y ys'] D by simp
    next
      case lt
      have "take n R = take lenr A @ map Some (filter (\<lambda>x. mem x ys) xs')"
        using less.prems le st lt A xy by (intro less.hyps [of "i1 + 1" i2]) auto
      then show ?thesis using S(2) [OF lt(2)] xy by simp
    next
      case gt
      have "take n R = take lenr A @ map Some (filter (\<lambda>x. mem x ys') xs)"
        using less.prems le st gt B xy by (intro less.hyps [of i1 "i2 + 1"]) auto
      moreover have "\<And>z. z \<in> set xs \<Longrightarrow> LT ops y z" using S(3) [OF gt] xy(1) by blast
      ultimately show ?thesis using filter_mem_skip(1) [of xs y ys'] less.prems(8) D(2) by (simp only: xy(2))
    qed
  qed
qed

end
subsection \<open>The loops that search\<close>

context ordered_objects
begin

lemma inner_search_spec:
  assumes "1 \<le> lower" "x \<in> D" "\<And>j. lower \<le> j \<Longrightarrow> j \<le> upper \<Longrightarrow> the (B ! (j - 1)) \<in> D"
    and "\<And>j k. lower \<le> j \<Longrightarrow> j < k \<Longrightarrow> k \<le> upper \<Longrightarrow> LT ops (the (B ! (j - 1))) (the (B ! (k - 1)))"
    and "lower \<le> upper + 1"
  shows "case inner_search ops B x lower upper of
      Inr m \<Rightarrow> lower \<le> m \<and> m \<le> upper \<and> EQ ops x (the (B ! (m - 1))) \<and>
        (\<forall>j. lower \<le> j \<and> j < m \<longrightarrow> LT ops (the (B ! (j - 1))) x)
    | Inl l \<Rightarrow> lower \<le> l \<and> l \<le> upper + 1 \<and> (\<forall>j. lower \<le> j \<and> j < l \<longrightarrow> LT ops (the (B ! (j - 1))) x) \<and>
        (\<forall>j. l \<le> j \<and> j \<le> upper \<longrightarrow> LT ops x (the (B ! (j - 1))))"
  using assms
proof (induction "upper + 1 - lower" arbitrary: lower upper rule: less_induct)
  case less
  show ?case
  proof (cases "lower \<le> upper")
    case False
    then show ?thesis using less.prems(1,5) by (subst inner_search.simps) auto
  next
    case True
    define m where "m = (lower + upper) div 2"
    let ?b = "\<lambda>j. the (B ! (j - 1))"
    have m: "lower \<le> m" "m \<le> upper" using True by (auto simp: m_def)
    have D: "?b m \<in> D" using less.prems(3) m by blast
    have st: "inner_search ops B x lower upper =
        (if LT ops x (?b m) then inner_search ops B x lower (m - 1)
         else if EQ ops x (?b m) then Inr m else inner_search ops B x (m + 1) upper)"
      using True less.prems(1) by (subst inner_search.simps) (simp add: Let_def m_def)
    have up: "LT ops (?b m) (?b j)" "?b j \<in> D" if "m < j" "j \<le> upper" for j
      using less.prems(3,4) that m by auto
    have dn: "LT ops (?b j) (?b m)" "?b j \<in> D" if "lower \<le> j" "j < m" for j
      using less.prems(3,4) that m by auto
    from less.prems(2) D show ?thesis
    proof (cases rule: cases_EQ_LT)
      case 1
      have "LT ops (?b j) x" if "lower \<le> j" "j < m" for j
        using dn [OF that] 1 LT_EQ(2) [of "?b m" x "?b j"] EQ_sym less.prems(2) D by blast
      with 1 st m show ?thesis by simp
    next
      case 2
      have ge: "LT ops x (?b j)" if "m \<le> j" "j \<le> upper" for j
        using up [of j] 2(1) that lt_trans [of x "?b m" "?b j"] less.prems(2) D by (cases "j = m") auto
      have IH: "case inner_search ops B x lower (m - 1) of
          Inr k \<Rightarrow> lower \<le> k \<and> k \<le> m - 1 \<and> EQ ops x (?b k) \<and> (\<forall>j. lower \<le> j \<and> j < k \<longrightarrow> LT ops (?b j) x)
        | Inl l \<Rightarrow> lower \<le> l \<and> l \<le> m - 1 + 1 \<and> (\<forall>j. lower \<le> j \<and> j < l \<longrightarrow> LT ops (?b j) x) \<and>
            (\<forall>j. l \<le> j \<and> j \<le> m - 1 \<longrightarrow> LT ops x (?b j))"
        using less.prems m True by (intro less.hyps) auto
      show ?thesis
      proof (cases "inner_search ops B x lower (m - 1)")
        case (Inl l)
        have "LT ops x (?b j)" if "l \<le> j" "j \<le> upper" for j
          using that IH Inl ge [of j] by (cases "m \<le> j") auto
        with IH Inl st 2 m less.prems(1) show ?thesis by simp
      next
        case (Inr k)
        have "k \<le> upper" using IH Inr m by auto
        with IH Inr st 2 m show ?thesis by simp
      qed
    next
      case 3
      have le: "LT ops (?b j) x" if "lower \<le> j" "j \<le> m" for j
        using dn [of j] 3(1) that lt_trans [of "?b j" "?b m" x] less.prems(2) D by (cases "j = m") auto
      have IH: "case inner_search ops B x (m + 1) upper of
          Inr k \<Rightarrow> m + 1 \<le> k \<and> k \<le> upper \<and> EQ ops x (?b k) \<and> (\<forall>j. m + 1 \<le> j \<and> j < k \<longrightarrow> LT ops (?b j) x)
        | Inl l \<Rightarrow> m + 1 \<le> l \<and> l \<le> upper + 1 \<and> (\<forall>j. m + 1 \<le> j \<and> j < l \<longrightarrow> LT ops (?b j) x) \<and>
            (\<forall>j. l \<le> j \<and> j \<le> upper \<longrightarrow> LT ops x (?b j))"
        using less.prems m True by (intro less.hyps) auto
      show ?thesis
      proof (cases "inner_search ops B x (m + 1) upper")
        case (Inl l)
        have "LT ops (?b j) x" if "lower \<le> j" "j < l" for j
          using that IH Inl le [of j] by (cases "j \<le> m") auto
        with IH Inl st 3 m show ?thesis by simp
      next
        case (Inr k)
        have "LT ops (?b j) x" if "lower \<le> j" "j < k" for j
          using that IH Inr le [of j] by (cases "j \<le> m") auto
        with IH Inr st 3 m show ?thesis by simp
      qed
    qed
  qed
qed

end
context ordered_objects
begin

text \<open>The search on the array from position \<open>i\<close> on, as a split of the entries it holds.\<close>

lemma inner_search_list:
  assumes "1 \<le> i" "length B = len" "drop (i - 1) B = map Some ys" "i \<le> len + 1"
    and "set ys \<subseteq> D" "sorted_wrt (LT ops) ys" "x \<in> D"
  shows "inner_search ops B x i len = Inr m \<Longrightarrow> \<exists>us y vs. ys = us @ y # vs \<and> EQ ops x y \<and> i \<le> m \<and> m \<le> len \<and>
      drop m B = map Some vs \<and> (\<forall>u \<in> set us. LT ops u x)"
    and "inner_search ops B x i len = Inl l \<Longrightarrow> \<exists>us vs. ys = us @ vs \<and> i \<le> l \<and> l \<le> len + 1 \<and>
      drop (l - 1) B = map Some vs \<and> (\<forall>u \<in> set us. LT ops u x) \<and> (\<forall>v \<in> set vs. LT ops x v)"
proof -
  have n: "length ys = len - (i - 1)" using assms(2) arg_cong [OF assms(3), of length] by simp
  have b: "the (B ! (j - 1)) = ys ! (j - i)" if "i \<le> j" "j \<le> len" for j
  proof -
    have "B ! (j - 1) = drop (i - 1) B ! (j - i)" using that assms(1,2) by simp
    then show ?thesis using that n assms(1,3) by simp
  qed
  have dr: "drop j B = map Some (drop (j - (i - 1)) ys)" if "i - 1 \<le> j" for j
  proof -
    have "drop j B = drop (j - (i - 1)) (drop (i - 1) B)" using that by simp
    then show ?thesis unfolding assms(3) drop_map by simp
  qed
  have tk: "\<exists>j. i \<le> j \<and> j < i + k \<and> u = ys ! (j - i)" if u: "u \<in> set (take k ys)" for k u
  proof -
    obtain q where q: "q < length (take k ys)" "take k ys ! q = u" using u by (metis in_set_conv_nth)
    then have "ys ! q = u" "q < k" by simp_all
    then show ?thesis by (intro exI [of _ "i + q"]) simp
  qed
  have sp: "case inner_search ops B x i len of
      Inr m \<Rightarrow> i \<le> m \<and> m \<le> len \<and> EQ ops x (the (B ! (m - 1))) \<and>
        (\<forall>j. i \<le> j \<and> j < m \<longrightarrow> LT ops (the (B ! (j - 1))) x)
    | Inl l \<Rightarrow> i \<le> l \<and> l \<le> len + 1 \<and> (\<forall>j. i \<le> j \<and> j < l \<longrightarrow> LT ops (the (B ! (j - 1))) x) \<and>
        (\<forall>j. l \<le> j \<and> j \<le> len \<longrightarrow> LT ops x (the (B ! (j - 1))))"
  proof (rule inner_search_spec)
    show "the (B ! (j - 1)) \<in> D" if "i \<le> j" "j \<le> len" for j
    proof -
      have "j - i < length ys" using that n assms(1) by simp
      then show ?thesis using b [OF that] nth_mem [of "j - i" ys] assms(5) by auto
    qed
    show "LT ops (the (B ! (j - 1))) (the (B ! (k - 1)))" if "i \<le> j" "j < k" "k \<le> len" for j k
      using b [of j] b [of k] that sorted_wrt_nth_less [OF assms(6), of "j - i" "k - i"] n assms(1) by simp
  qed (use assms in auto)
  show "\<exists>us y vs. ys = us @ y # vs \<and> EQ ops x y \<and> i \<le> m \<and> m \<le> len \<and>
      drop m B = map Some vs \<and> (\<forall>u \<in> set us. LT ops u x)" if "inner_search ops B x i len = Inr m"
  proof (intro exI conjI ballI)
    have m: "i \<le> m" "m \<le> len" "EQ ops x (the (B ! (m - 1)))" and
      lt: "\<And>j. i \<le> j \<Longrightarrow> j < m \<Longrightarrow> LT ops (the (B ! (j - 1))) x" using sp that by auto
    have ml: "m - i < length ys" using m(1,2) n assms(1) by simp
    show "ys = take (m - i) ys @ ys ! (m - i) # drop (m - (i - 1)) ys"
      using id_take_nth_drop [OF ml] m(1) assms(1) by (simp add: Suc_diff_le)
    show "EQ ops x (ys ! (m - i))" using m(3) b [OF m(1,2)] by simp
    show "drop m B = map Some (drop (m - (i - 1)) ys)" using dr [of m] m(1) by simp
    show "LT ops u x" if u: "u \<in> set (take (m - i) ys)" for u
    proof -
      obtain j where "i \<le> j" "j < i + (m - i)" "u = ys ! (j - i)" using tk [OF u] by blast
      then show ?thesis using lt [of j] b [of j] m(1,2) by simp
    qed
  qed (use sp that in auto)
  show "\<exists>us vs. ys = us @ vs \<and> i \<le> l \<and> l \<le> len + 1 \<and>
      drop (l - 1) B = map Some vs \<and> (\<forall>u \<in> set us. LT ops u x) \<and> (\<forall>v \<in> set vs. LT ops x v)"
    if "inner_search ops B x i len = Inl l"
  proof (intro exI conjI ballI)
    have l: "i \<le> l" "l \<le> len + 1" and lt: "\<And>j. i \<le> j \<Longrightarrow> j < l \<Longrightarrow> LT ops (the (B ! (j - 1))) x"
      and gt: "\<And>j. l \<le> j \<Longrightarrow> j \<le> len \<Longrightarrow> LT ops x (the (B ! (j - 1)))" using sp that by auto
    show "ys = take (l - i) ys @ drop (l - i) ys" by simp
    show "drop (l - 1) B = map Some (drop (l - i) ys)" using dr [of "l - 1"] l(1) assms(1) by simp
    show "LT ops u x" if u: "u \<in> set (take (l - i) ys)" for u
    proof -
      obtain j where "i \<le> j" "j < i + (l - i)" "u = ys ! (j - i)" using tk [OF u] by blast
      then show ?thesis using lt [of j] b [of j] l by simp
    qed
    show "LT ops x v" if v: "v \<in> set (drop (l - i) ys)" for v
    proof -
      obtain q where q: "q < length (drop (l - i) ys)" "v = drop (l - i) ys ! q"
        using v by (metis in_set_conv_nth)
      then have "v = ys ! (l + q - i)" "l + q \<le> len" using l(1) n assms(1) by (auto simp: add.commute)
      then show ?thesis using gt [of "l + q"] b [of "l + q"] l(1) by simp
    qed
  qed (use sp that in auto)
qed

lemma mem_split:
  assumes "set (us @ y # vs) \<subseteq> D" "x \<in> D" "z \<in> D" "LT ops x z" "\<forall>u \<in> set us. LT ops u x"
  shows "EQ ops x y \<Longrightarrow> mem z (us @ y # vs) \<longleftrightarrow> mem z vs" "mem z (us @ vs) \<longleftrightarrow> mem z vs"
proof -
  have "\<not> EQ ops z u" if "u \<in> set us" for u
    using that assms EQ_iff [of z u] lt_trans [of u x z] by auto
  then have us: "\<not> mem z us" by (auto simp: mem_def)
  then show "mem z (us @ vs) \<longleftrightarrow> mem z vs" by (simp add: mem_append)
  assume "EQ ops x y"
  then have "LT ops y z" using LT_EQ(1) [of y x z] EQ_sym [of x y] assms by auto
  then have "\<not> EQ ops z y" using EQ_iff [of z y] assms by auto
  with us show "mem z (us @ y # vs) \<longleftrightarrow> mem z vs" by (simp add: mem_append mem_Cons)
qed

text \<open>One round of the searching loops: what is found, and what the rest of the search can still find.\<close>

lemma search_step:
  assumes "1 \<le> i" "length B = len" "drop (i - 1) B = map Some ys" "i \<le> len + 1"
    and "set ys \<subseteq> D" "sorted_wrt (LT ops) ys" "set (x # xs) \<subseteq> D" "sorted_wrt (LT ops) (x # xs)"
  shows "inner_search ops B x i len = Inr m \<Longrightarrow> \<exists>vs. i \<le> m \<and> m \<le> len \<and> drop m B = map Some vs \<and> mem x ys \<and>
      set vs \<subseteq> D \<and> sorted_wrt (LT ops) vs \<and> (\<forall>z \<in> set xs. mem z ys = mem z vs)"
    and "inner_search ops B x i len = Inl l \<Longrightarrow> \<exists>vs. i \<le> l \<and> l \<le> len + 1 \<and> drop (l - 1) B = map Some vs \<and>
      \<not> mem x ys \<and> set vs \<subseteq> D \<and> sorted_wrt (LT ops) vs \<and> (\<forall>z \<in> set xs. mem z ys = mem z vs)"
proof -
  have x: "x \<in> D" and z: "\<And>z. z \<in> set xs \<Longrightarrow> z \<in> D \<and> LT ops x z" using assms(7,8) by auto
  note s = inner_search_list [OF assms(1-6) x]
  show "\<exists>vs. i \<le> m \<and> m \<le> len \<and> drop m B = map Some vs \<and> mem x ys \<and>
      set vs \<subseteq> D \<and> sorted_wrt (LT ops) vs \<and> (\<forall>z \<in> set xs. mem z ys = mem z vs)"
    if r: "inner_search ops B x i len = Inr m"
  proof -
    obtain us y vs where e: "ys = us @ y # vs" "EQ ops x y" "i \<le> m" "m \<le> len"
      "drop m B = map Some vs" "\<forall>u \<in> set us. LT ops u x" using s(1) [OF r] by blast
    have "mem z ys = mem z vs" if "z \<in> set xs" for z
      using mem_split(1) [of us y vs x z] e(1,2,6) assms(5) x z [OF that] by simp
    then show ?thesis using e assms(5,6) by (intro exI [of _ vs]) (auto simp: mem_append mem_Cons sorted_wrt_append)
  qed
  show "\<exists>vs. i \<le> l \<and> l \<le> len + 1 \<and> drop (l - 1) B = map Some vs \<and>
      \<not> mem x ys \<and> set vs \<subseteq> D \<and> sorted_wrt (LT ops) vs \<and> (\<forall>z \<in> set xs. mem z ys = mem z vs)"
    if r: "inner_search ops B x i len = Inl l"
  proof -
    obtain us vs where e: "ys = us @ vs" "i \<le> l" "l \<le> len + 1" "drop (l - 1) B = map Some vs"
      "\<forall>u \<in> set us. LT ops u x" "\<forall>v \<in> set vs. LT ops x v" using s(2) [OF r] by blast
    have "mem z ys = mem z vs" if "z \<in> set xs" for z
      using mem_split(2) [of us x vs x z] e(1,5) assms(5) x z [OF that] by simp
    moreover have "\<not> EQ ops x u" if "u \<in> set ys" for u
      using that e(1,5,6) assms(5) x EQ_iff [of x u] by auto
    ultimately show ?thesis using e assms(5,6)
      by (intro exI [of _ vs]) (auto simp: mem_def sorted_wrt_append)
  qed
qed

end
subsection \<open>Intersection and difference by search\<close>

context ordered_objects
begin

lemma InterSetInner2_entries:
  assumes "length A = len1" "length B = len2" "1 \<le> i1" "1 \<le> i2" "i2 \<le> len2 + 1"
    and "lenr < (if first then i1 else i2)"
    and "drop (i1 - 1) A = map Some xs" "drop (i2 - 1) B = map Some ys"
    and "set xs \<subseteq> D" "set ys \<subseteq> D" "sorted_wrt (LT ops) xs" "sorted_wrt (LT ops) ys"
    and "InterSetInner2 ops first len1 len2 A B lenr i1 i2 = (A', B', n)"
  shows "take n (if first then A' else B') =
    take lenr (if first then A else B) @ map Some (filter (\<lambda>x. mem x ys) xs)"
  using assms
proof (induction xs arbitrary: A B lenr i1 i2 ys)
  case Nil
  then have "\<not> i1 \<le> len1" using no_cell [of i1 A] by simp
  then have "A' = A" "B' = B" "n = lenr" using Nil.prems(13) by (subst (asm) InterSetInner2.simps, simp)+
  then show ?case by simp
next
  case (Cons x xs)
  note A = cell_at [OF Cons.prems(7,3)]
  have le: "i1 \<le> len1" using A(3) Cons.prems(1) by simp
  note S = search_step [OF Cons.prems(4,2,8,5,10,12,9,11)]
  show ?case
  proof (cases "inner_search ops B x i2 len2")
    case (Inr m)
    from S(1) [OF Inr] obtain vs where v: "i2 \<le> m" "m \<le> len2" "drop m B = map Some vs" "mem x ys"
      "set vs \<subseteq> D" "sorted_wrt (LT ops) vs" "\<forall>z \<in> set xs. mem z ys = mem z vs" by blast
    define A2 B2 where "A2 = (if first then A[lenr := Some x] else A)"
      and "B2 = (if first then B else B[lenr := Some x])"
    have "InterSetInner2 ops first len1 len2 A2 B2 (lenr + 1) (i1 + 1) (m + 1) = (A', B', n)"
      using Cons.prems(13) le A(1) Inr
      by (subst (asm) InterSetInner2.simps) (cases first; simp add: Let_def A2_def B2_def)
    moreover have "drop i1 A2 = map Some xs" "drop m B2 = map Some vs" "length A2 = len1" "length B2 = len2"
      using A(2) v(1-3) Cons.prems(1,2,6) by (auto simp: A2_def B2_def)
    ultimately have "take n (if first then A' else B') =
        take (lenr + 1) (if first then A2 else B2) @ map Some (filter (\<lambda>x. mem x vs) xs)"
      using Cons.prems v by (intro Cons.IH [of A2 B2 "i1 + 1" "m + 1"]) auto
    moreover have "take (lenr + 1) (if first then A2 else B2) = take lenr (if first then A else B) @ [Some x]"
      using write_front(2) [of lenr i1 A "Some x"] write_front(2) [of lenr "m + 1" B "Some x"]
        Cons.prems(1,2,6) le v(1,2) by (auto simp: A2_def B2_def)
    moreover have "filter (\<lambda>z. mem z vs) xs = filter (\<lambda>z. mem z ys) xs" using v(7) by (intro filter_cong) auto
    ultimately show ?thesis using v(4) by simp
  next
    case (Inl l)
    from S(2) [OF Inl] obtain vs where v: "i2 \<le> l" "l \<le> len2 + 1" "drop (l - 1) B = map Some vs" "\<not> mem x ys"
      "set vs \<subseteq> D" "sorted_wrt (LT ops) vs" "\<forall>z \<in> set xs. mem z ys = mem z vs" by blast
    have "InterSetInner2 ops first len1 len2 A B lenr (i1 + 1) l = (A', B', n)"
      using Cons.prems(13) le A(1) Inl by (subst (asm) InterSetInner2.simps) (simp add: Let_def)
    then have "take n (if first then A' else B') =
        take lenr (if first then A else B) @ map Some (filter (\<lambda>x. mem x vs) xs)"
      using Cons.prems v A(2) by (intro Cons.IH [of A B "i1 + 1" l]) (auto split: if_splits)
    moreover have "filter (\<lambda>z. mem z vs) xs = filter (\<lambda>z. mem z ys) xs" using v(7) by (intro filter_cong) auto
    ultimately show ?thesis using v(4) by simp
  qed
qed

lemma SubtrSetInner2_entries:
  assumes "length A = len1" "length B = len2" "1 \<le> i1" "1 \<le> i2" "i2 \<le> len2 + 1" "lenr < i1"
    and "drop (i1 - 1) A = map Some xs" "drop (i2 - 1) B = map Some ys"
    and "set xs \<subseteq> D" "set ys \<subseteq> D" "sorted_wrt (LT ops) xs" "sorted_wrt (LT ops) ys"
    and "SubtrSetInner2 ops len1 len2 A B lenr i1 i2 = (R, n)"
  shows "take n R = take lenr A @ map Some (filter (\<lambda>x. \<not> mem x ys) xs)"
  using assms
proof (induction xs arbitrary: A lenr i1 i2 ys)
  case Nil
  then have "\<not> i1 \<le> len1" using no_cell [of i1 A] by simp
  then have "R = A" "n = lenr" using Nil.prems(13) by (subst (asm) SubtrSetInner2.simps, simp)+
  then show ?case by simp
next
  case (Cons x xs)
  note A = cell_at [OF Cons.prems(7,3)]
  have le: "i1 \<le> len1" using A(3) Cons.prems(1) by simp
  note S = search_step [OF Cons.prems(4,2,8,5,10,12,9,11)]
  have flt: "filter (\<lambda>z. \<not> mem z vs) xs = filter (\<lambda>z. \<not> mem z ys) xs"
    if "\<forall>z \<in> set xs. mem z ys = mem z vs" for vs using that by (intro filter_cong) auto
  show ?case
  proof (cases "inner_search ops B x i2 len2")
    case (Inr m)
    from S(1) [OF Inr] obtain vs where v: "i2 \<le> m" "m \<le> len2" "drop m B = map Some vs" "mem x ys"
      "set vs \<subseteq> D" "sorted_wrt (LT ops) vs" "\<forall>z \<in> set xs. mem z ys = mem z vs" by blast
    have "SubtrSetInner2 ops len1 len2 A B lenr (i1 + 1) (m + 1) = (R, n)"
      using Cons.prems(13) le A(1) Inr by (subst (asm) SubtrSetInner2.simps) (simp add: Let_def)
    then have "take n R = take lenr A @ map Some (filter (\<lambda>x. \<not> mem x vs) xs)"
      using Cons.prems v A(2) by (intro Cons.IH [of A "i1 + 1" "m + 1"]) auto
    then show ?thesis using v(4) flt [OF v(7)] by simp
  next
    case (Inl l)
    from S(2) [OF Inl] obtain vs where v: "i2 \<le> l" "l \<le> len2 + 1" "drop (l - 1) B = map Some vs" "\<not> mem x ys"
      "set vs \<subseteq> D" "sorted_wrt (LT ops) vs" "\<forall>z \<in> set xs. mem z ys = mem z vs" by blast
    have "SubtrSetInner2 ops len1 len2 (A[lenr := Some x]) B (lenr + 1) (i1 + 1) l = (R, n)"
      using Cons.prems(13) le A(1) Inl by (subst (asm) SubtrSetInner2.simps) (simp add: Let_def)
    moreover have w: "drop i1 (A[lenr := Some x]) = map Some xs"
      "take (lenr + 1) (A[lenr := Some x]) = take lenr A @ [Some x]"
      using write_front [of lenr i1 A "Some x"] Cons.prems(1,6) le A(2) by auto
    ultimately have "take n R = take (lenr + 1) (A[lenr := Some x]) @ map Some (filter (\<lambda>x. \<not> mem x vs) xs)"
      using Cons.prems v by (intro Cons.IH [of _ "i1 + 1" l]) auto
    then show ?thesis using v(4) w(2) flt [OF v(7)] by simp
  qed
qed

lemma SubtrSetInner1_entries:
  assumes "length A = len1" "length B = len2" "1 \<le> i1" "1 \<le> i2" "lenr < i1"
    and "drop (i1 - 1) A = map Some xs" "drop (i2 - 1) B = map Some ys"
    and "set xs \<subseteq> D" "set ys \<subseteq> D" "sorted_wrt (LT ops) xs" "sorted_wrt (LT ops) ys"
    and "SubtrSetInner1 ops len1 len2 A B lenr i1 i2 = (R, n)"
  shows "take n R = take lenr A @ map Some (filter (\<lambda>x. \<not> mem x ys) xs)"
  using assms
proof (induction "(len1 + 1 - i1) + (len2 + 1 - i2)" arbitrary: A lenr i1 i2 xs ys rule: less_induct)
  case less
  show ?case
  proof (cases xs)
    case Nil
    then have "\<not> i1 \<le> len1" using less.prems no_cell [of i1 A] by simp
    then have "R = A" "n = lenr" using less.prems(12) by (subst (asm) SubtrSetInner1.simps, simp)+
    with Nil show ?thesis by simp
  next
    case xs: (Cons x xs')
    note A = cell_at [OF less.prems(6) [unfolded xs] less.prems(3)]
    have le: "i1 \<le> len1" using A(3) less.prems(1) by simp
    have w: "drop i1 (A[lenr := Some x]) = map Some xs'"
      "take (lenr + 1) (A[lenr := Some x]) = take lenr A @ [Some x]"
      using write_front [of lenr i1 A "Some x"] less.prems(1,5) le A(2) by auto
    show ?thesis
    proof (cases ys)
      case Nil
      then have "\<not> i2 \<le> len2" using less.prems no_cell [of i2 B] by simp
      then have "SubtrSetInner1 ops len1 len2 (A[lenr := Some x]) B (lenr + 1) (i1 + 1) i2 = (R, n)"
        using less.prems(12) le A(1) by (subst (asm) SubtrSetInner1.simps) simp
      then have "take n R = take (lenr + 1) (A[lenr := Some x]) @ map Some (filter (\<lambda>x. \<not> mem x ys) xs')"
        using less.prems le w(1) xs by (intro less.hyps [of "i1 + 1" i2]) auto
      then show ?thesis using w(2) xs Nil by simp
    next
      case ys: (Cons y ys')
      note B = cell_at [OF less.prems(7) [unfolded ys] less.prems(4)]
      have le2: "i2 \<le> len2" using B(3) less.prems(2) by simp
      note S = mem_step [OF less.prems(8-11) [unfolded xs ys]]
      have D: "set xs' \<subseteq> D" "y \<in> D" "x \<in> D" "set ys' \<subseteq> D" using less.prems(8,9) xs ys by auto
      have st: "SubtrSetInner1 ops len1 len2 A B lenr i1 i2 =
          (if EQ ops x y then SubtrSetInner1 ops len1 len2 A B lenr (i1 + 1) (i2 + 1)
           else if LT ops x y then SubtrSetInner1 ops len1 len2 (A[lenr := Some x]) B (lenr + 1) (i1 + 1) i2
           else SubtrSetInner1 ops len1 len2 A B lenr i1 (i2 + 1))"
        using le le2 A B by (subst SubtrSetInner1.simps) (simp add: Let_def)
      consider (eq) "EQ ops x y" | (lt) "\<not> EQ ops x y" "LT ops x y" | (gt) "\<not> EQ ops x y" "\<not> LT ops x y" by blast
      then show ?thesis
      proof cases
        case eq
        have "take n R = take lenr A @ map Some (filter (\<lambda>x. \<not> mem x ys') xs')"
          using less.prems le le2 st eq A(2) B xs ys by (intro less.hyps [of "i1 + 1" "i2 + 1"]) auto
        then show ?thesis using S(1) [OF eq] xs ys filter_mem_skip(2) [of xs' y ys'] D by simp
      next
        case lt
        have "take n R = take (lenr + 1) (A[lenr := Some x]) @ map Some (filter (\<lambda>x. \<not> mem x ys) xs')"
          using less.prems le le2 st lt w(1) xs by (intro less.hyps [of "i1 + 1" i2]) auto
        then show ?thesis using S(2) [OF lt(2)] xs ys w(2) by simp
      next
        case gt
        have "take n R = take lenr A @ map Some (filter (\<lambda>x. \<not> mem x ys') xs)"
          using less.prems le le2 st gt B ys by (intro less.hyps [of i1 "i2 + 1"]) auto
        moreover have "\<And>z. z \<in> set xs \<Longrightarrow> LT ops y z" using S(3) [OF gt] xs by blast
        ultimately show ?thesis using filter_mem_skip(2) [of xs y ys'] less.prems(8) D(2) by (simp only: ys)
      qed
    qed
  qed
qed

end
subsection \<open>The choice of the loop\<close>

context ordered_objects
begin

lemma filter_sorted: "sorted_wrt (LT ops) xs \<Longrightarrow> sorted_wrt (LT ops) (filter P xs)"
  by (rule sorted_wrt_filter)

lemma inter_entries_ok:
  assumes "set xs \<subseteq> D" "set ys \<subseteq> D" "sorted_wrt (LT ops) xs" "sorted_wrt (LT ops) ys"
    and "inter_entries ops (map Some xs) (map Some ys) = (es, n)"
  shows "take n es = map Some (filter (\<lambda>x. mem x ys) xs) \<or> take n es = map Some (filter (\<lambda>y. mem y xs) ys)"
proof -
  let ?A = "map Some xs" and ?B = "map Some ys"
  consider (i1) "InterSetInner1 ops (length xs) (length ys) ?A ?B 0 1 1 = (es, n)"
    | (i2) s where "InterSetInner2 ops True (length xs) (length ys) ?A ?B 0 1 1 = (es, s, n)"
    | (i3) s where "InterSetInner2 ops False (length ys) (length xs) ?B ?A 0 1 1 = (s, es, n)"
    using assms(5) by (auto simp: inter_entries_def Let_def split: if_splits prod.splits)
  then show ?thesis
  proof cases
    case i1
    then show ?thesis using InterSetInner1_entries [of ?A "length xs" ?B "length ys" 1 1 0 xs ys es n] assms by simp
  next
    case i2
    then show ?thesis using InterSetInner2_entries [of ?A "length xs" ?B "length ys" 1 1 0 True xs ys es s n] assms by simp
  next
    case i3
    then show ?thesis using InterSetInner2_entries [of ?B "length ys" ?A "length xs" 1 1 0 False ys xs s es n] assms by simp
  qed
qed

lemma subtr_entries_ok:
  assumes "set xs \<subseteq> D" "set ys \<subseteq> D" "sorted_wrt (LT ops) xs" "sorted_wrt (LT ops) ys"
    and "subtr_entries ops (map Some xs) (map Some ys) = (es, n)"
  shows "take n es = map Some (filter (\<lambda>x. \<not> mem x ys) xs)"
proof -
  let ?A = "map Some xs" and ?B = "map Some ys"
  consider (s1) "SubtrSetInner1 ops (length xs) (length ys) ?A ?B 0 1 1 = (es, n)"
    | (s2) "SubtrSetInner2 ops (length xs) (length ys) ?A ?B 0 1 1 = (es, n)"
    using assms(5) by (auto simp: subtr_entries_def Let_def split: if_splits)
  then show ?thesis
  proof cases
    case s1
    then show ?thesis using SubtrSetInner1_entries [of ?A "length xs" ?B "length ys" 1 1 0 xs ys es n] assms by simp
  next
    case s2
    then show ?thesis using SubtrSetInner2_entries [of ?A "length xs" ?B "length ys" 1 1 0 xs ys es n] assms by simp
  qed
qed

lemma mem_cong: "set xs \<subseteq> D \<Longrightarrow> x \<in> D \<Longrightarrow> y \<in> D \<Longrightarrow> EQ ops x y \<Longrightarrow> mem x xs = mem y xs"
  unfolding mem_def using EQ_trans [of x y] EQ_trans [of y x] EQ_sym [of x y] by blast

lemma mem_filter_mem:
  assumes "set xs \<subseteq> D" "set ys \<subseteq> D" "x \<in> D"
  shows "mem x (filter (\<lambda>x. mem x ys) xs) \<longleftrightarrow> mem x xs \<and> mem x ys"
    "mem x (filter (\<lambda>x. \<not> mem x ys) xs) \<longleftrightarrow> mem x xs \<and> \<not> mem x ys"
proof -
  have "mem x ys = mem z ys" if "z \<in> set xs" "EQ ops x z" for z
    using mem_cong [OF assms(2,3), of z] that assms(1) by auto
  then show "mem x (filter (\<lambda>x. mem x ys) xs) \<longleftrightarrow> mem x xs \<and> mem x ys"
    "mem x (filter (\<lambda>x. \<not> mem x ys) xs) \<longleftrightarrow> mem x xs \<and> \<not> mem x ys" by (auto simp: mem_def)
qed

end

subsection \<open>Making sets\<close>

text \<open>A proper set of objects: strictly sorted entries, no holes, and a type whose claims are true.\<close>

definition proper_set :: "'a objops \<Rightarrow> 'a set \<Rightarrow> 'a plist \<Rightarrow> bool" where
  "proper_set ops D p \<longleftrightarrow> type_ok ops p \<and> objs p \<subseteq> D \<and> holds ops FN_IS_SSORT (elms p)"

text \<open>Membership up to the equality of objects; \<open>valid_list\<close> is any list with a true type.\<close>

definition member :: "'a objops \<Rightarrow> 'a \<Rightarrow> 'a plist \<Rightarrow> bool" where
  "member ops x p \<longleftrightarrow> (\<exists>y \<in> objs p. EQ ops x y)"

definition valid_list :: "'a objops \<Rightarrow> 'a set \<Rightarrow> 'a plist \<Rightarrow> bool" where
  "valid_list ops D p \<longleftrightarrow> type_ok ops p \<and> objs p \<subseteq> D"

context ordered_objects
begin

lemma properD:
  assumes "proper_set ops D p"
  shows "type_ok ops p" "objs p \<subseteq> D" "dense (elms p)" "sorted_wrt (LT ops) (entries p)" "set (entries p) \<subseteq> D"
    "elms p = map Some (entries p)"
  using assms entries_objs [of p] elms_entries [of p] by (auto simp: proper_set_def entries_def)

lemma properI:
  assumes "type_ok ops p" "elms p = map Some xs" "sorted_wrt (LT ops) xs" "set xs \<subseteq> D"
  shows "proper_set ops D p"
  using assms by (auto simp: proper_set_def objs_def dense_def comp_def)

lemma test_proper:
  assumes "valid_list ops D p" "\<not> SyInitializing ops" "IS_SSORT_LIST ops p = (q, b)"
  shows "elms q = elms p" "entries q = entries p" "immutable q = immutable p" "type_ok ops q" "objs q = objs p"
    "b \<longleftrightarrow> proper_set ops D q" "b \<longleftrightarrow> proper_set ops D p"
proof -
  have "test_ok p (q, b)" using IS_SSORT_LIST_ok [of p] assms by (simp add: valid_list_def)
  then show "elms q = elms p" "immutable q = immutable p" "type_ok ops q" "b \<longleftrightarrow> proper_set ops D q" "b \<longleftrightarrow> proper_set ops D p"
    "entries q = entries p" "objs q = objs p"
    using assms(1) by (auto simp: test_ok_def valid_list_def proper_set_def objs_def entries_def simp del: holds.simps)
qed

end
context ordered_objects
begin

lemma proper_valid: "proper_set ops D p \<Longrightarrow> valid_list ops D p"
  by (simp add: proper_set_def valid_list_def)

lemma member_mem: "dense (elms p) \<Longrightarrow> member ops x p \<longleftrightarrow> mem x (entries p)"
  by (simp add: member_def mem_def entries_objs)

lemma member_proper: "proper_set ops D p \<Longrightarrow> member ops x p \<longleftrightarrow> mem x (entries p)"
  by (intro member_mem properD)

lemma IsSet_ok:
  assumes "valid_list ops D p" "\<not> SyInitializing ops" "IsSet ops p = (q, b)"
  shows "b \<longleftrightarrow> proper_set ops D p" "b \<Longrightarrow> proper_set ops D q" "elms q = elms p" "immutable q = immutable p"
    "valid_list ops D q"
proof -
  obtain p1 b1 where 1: "IS_SSORT_LIST ops p = (p1, b1)" by (metis surj_pair)
  note t1 = test_proper [OF assms(1,2) 1]
  have v1: "valid_list ops D p1" using t1 assms(1) by (simp add: valid_list_def)
  obtain p2 b2 where 2: "IS_SSORT_LIST ops p1 = (p2, b2)" by (metis surj_pair)
  note t2 = test_proper [OF v1 assms(2) 2]
  have pe: "proper_set ops D p1" if "LEN_PLIST p1 = 0"
    using that v1 by (simp add: proper_set_def valid_list_def LEN_PLIST_def dense_def)
  then have "\<not> b1 \<Longrightarrow> LEN_PLIST p1 \<noteq> 0 \<and> \<not> b2" using t1(6) t2(7) by blast
  then have q: "q = (if b1 then p1 else p2)" "b = b1"
    using assms(3) 1 2 by (auto simp: IsSet_def IsPlainSet_def split: if_splits)
  show "b \<longleftrightarrow> proper_set ops D p" "b \<Longrightarrow> proper_set ops D q" "elms q = elms p" "immutable q = immutable p"
    "valid_list ops D q"
    using q assms(1) t1 t2 by (auto simp: valid_list_def)
qed

lemma RequireMutableSet_ok:
  assumes "valid_list ops D p" "\<not> SyInitializing ops"
  shows "immutable p \<or> \<not> proper_set ops D p \<Longrightarrow> RequireMutableSet ops p = Inl ''must be a mutable proper set''"
    "\<not> immutable p \<Longrightarrow> proper_set ops D p \<Longrightarrow>
      \<exists>q. RequireMutableSet ops p = Inr q \<and> proper_set ops D q \<and> elms q = elms p \<and> \<not> immutable q"
proof -
  obtain q b where s: "IsSet ops p = (q, b)" by (metis surj_pair)
  note t = IsSet_ok [OF assms s]
  show "immutable p \<or> \<not> proper_set ops D p \<Longrightarrow> RequireMutableSet ops p = Inl ''must be a mutable proper set''"
    using t s by (auto simp: RequireMutableSet_def)
  show "\<not> immutable p \<Longrightarrow> proper_set ops D p \<Longrightarrow>
      \<exists>q. RequireMutableSet ops p = Inr q \<and> proper_set ops D q \<and> elms q = elms p \<and> \<not> immutable q"
    using t s by (simp add: RequireMutableSet_def)
qed

lemma fold_present: "fold (\<lambda>elm es. if elm \<noteq> None then es @ [elm] else es) xs es = es @ filter (\<lambda>e. e \<noteq> None) xs"
  by (induction xs arbitrary: es) auto

lemma SetList_ok:
  assumes "objs p \<subseteq> D"
  shows "proper_set ops D (SetList ops p)" "x \<in> D \<Longrightarrow> member ops x (SetList ops p) \<longleftrightarrow> member ops x p"
    "\<not> immutable (SetList ops p)"
proof -
  define es where "es = filter (\<lambda>e. e \<noteq> None) (elms p)"
  define s1 where "s1 = (NEW_PLIST T_PLIST (LEN_PLIST p) :: 'a plist)\<lparr>elms := es\<rparr>"
  define s2 where "s2 = SET_FILT_LIST s1 FN_IS_DENSE"
  define s3 where "s3 = SortDensePlist ops s2"
  obtain s4 st where 4: "RemoveDupsDensePlist ops s3 = (s4, st)" by (metis surj_pair)
  have d: "dense es" by (auto simp: es_def dense_def)
  have o: "objs s1 = objs p" by (auto simp: s1_def es_def objs_def)
  have "type_ok ops s1" by (simp add: s1_def NEW_PLIST_def type_ok_def cyc_tnum_def)
  then have t2: "type_ok ops s2" "dense (elms s2)" "objs s2 \<subseteq> D"
    using d assms o by (simp_all add: s2_def type_ok_SET s1_def)
  note s3 = SortDensePlist_ok [OF t2, folded s3_def]
  have o3: "objs s3 \<subseteq> D" "objs s3 = objs p" using s3(3) o assms by (auto simp: s2_def)
  note s4 = RemoveDupsDensePlist_ok [OF s3(5,1) o3(1) s3(4,7) 4]
  have en: "\<not> homog ops (entries s3) \<Longrightarrow> \<not> homog ops (map the (elms s4))" if "st \<noteq> 0"
    using s4(8) [OF that] by (simp add: entries_def)
  have eh: "homog ops (entries s3) \<Longrightarrow> homog ops (map the (elms s4))" if "st \<noteq> 0"
    using s4(8) [OF that] by (simp add: entries_def)
  have q: "SetList ops p = (if st = 1 then SET_FILT_LIST (SET_FILT_LIST s4 FN_IS_NHOMOG) FN_IS_SSORT
      else if st = 2 then SET_FILT_LIST (SET_FILT_LIST s4 FN_IS_HOMOG) FN_IS_SSORT else s4)"
    using 4 by (simp add: SetList_def Let_def fold_present es_def s1_def s2_def s3_def del: not_None_eq)
  have h: "holds ops FN_IS_SSORT (elms s4)" using s4(1,2) by (simp add: entries_def)
  have e: "elms (SetList ops p) = elms s4" "immutable (SetList ops p) = immutable s4" by (auto simp: q)
  have "st = 1 \<Longrightarrow> \<not> homog ops (entries s3)" "st = 2 \<Longrightarrow> homog ops (entries s3)"
    using s4(7) by (simp_all only: split: if_splits) simp_all
  then have "st = 1 \<Longrightarrow> holds ops FN_IS_NHOMOG (elms s4)" "st = 2 \<Longrightarrow> holds ops FN_IS_HOMOG (elms s4)"
    using s4(1) en eh by simp_all
  then have "type_ok ops (SetList ops p)" using s4(5) h by (simp add: q type_ok_SET del: holds.simps)
  moreover have os: "objs (SetList ops p) = objs s4" by (simp add: objs_def e)
  moreover have "objs s4 \<subseteq> D" using s4(3) entries_objs [OF s4(1)] entries_objs [OF s3(1)] o3 by auto
  ultimately show "proper_set ops D (SetList ops p)" using h by (simp add: proper_set_def e)
  show "member ops x (SetList ops p) \<longleftrightarrow> member ops x p" if "x \<in> D"
    using s4(4) [OF that] os o3(2) entries_objs [OF s4(1)] entries_objs [OF s3(1)] by (simp add: member_def mem_def)
  show "\<not> immutable (SetList ops p)" using s4(6) s3(6) e by (simp add: s2_def s1_def NEW_PLIST_def)
qed

lemma as_set_ok:
  assumes "valid_list ops D p" "\<not> SyInitializing ops" "as_set ops p = (q, p')"
  shows "proper_set ops D q" "x \<in> D \<Longrightarrow> member ops x q \<longleftrightarrow> member ops x p" "valid_list ops D p'" "elms p' = elms p"
proof -
  obtain p1 b1 where 1: "IS_SSORT_LIST ops p = (p1, b1)" by (metis surj_pair)
  note t1 = test_proper [OF assms(1,2) 1]
  have v: "valid_list ops D p1" "member ops x p1 = member ops x p" for x
    using t1 assms(1) by (simp_all add: valid_list_def member_def)
  have q: "q = (if b1 then p1 else SetList ops p1)" "p' = p1"
    using assms(3) 1 by (auto simp: as_set_def IsPlainSet_def split: if_splits)
  note s = SetList_ok [of p1]
  show "proper_set ops D q" "x \<in> D \<Longrightarrow> member ops x q \<longleftrightarrow> member ops x p" "valid_list ops D p'" "elms p' = elms p"
    using q t1 v s by (auto simp: valid_list_def)
qed

end

end
