(* ===== verification/SetOps.thy ===== *)
theory SetOps
  imports SetCorrect
begin

text \<open>
  The handlers of \<open>src/src/set.c\<close> against sets of objects up to equality: comparison, insertion, deletion, union,
  intersection and difference of proper sets return proper sets with the right members, report an
  argument that is not a mutable proper set, and leave true types. The union, the insertion and the deletion leave a
  true type in the cases that the lemmas spell out only (\<open>unite_type_ok\<close>, \<open>add_type_ok\<close>, \<open>FuncREM_SET_ok\<close>):
  they copy a claim, or deny one, without looking at all that the claim says.
\<close>

subsection \<open>Comparison of sets\<close>

context ordered_objects
begin

text \<open>Strictly sorted lists with the same members are equal entry by entry.\<close>

lemma same_members:
  assumes "set xs \<subseteq> D" "set ys \<subseteq> D" "sorted_wrt (LT ops) xs" "sorted_wrt (LT ops) ys"
  shows "list_all2 (EQ ops) xs ys \<longleftrightarrow> (\<forall>z \<in> D. mem z xs = mem z ys)"
  using assms
proof (induction xs arbitrary: ys)
  case Nil
  then show ?case using EQ_refl by (cases ys) (auto simp: mem_Cons)
next
  case (Cons x xs)
  show ?case
  proof (cases ys)
    case Nil
    then show ?thesis using Cons.prems EQ_refl [of x] by (auto simp: mem_Cons)
  next
    case ys: (Cons y ys')
    have D: "x \<in> D" "y \<in> D" "set xs \<subseteq> D" "set ys' \<subseteq> D" using Cons.prems ys by auto
    note S = mem_step [OF Cons.prems(1) Cons.prems(2) [unfolded ys] Cons.prems(3) Cons.prems(4) [unfolded ys]]
    note S' = mem_step [OF Cons.prems(2) [unfolded ys] Cons.prems(1) Cons.prems(4) [unfolded ys] Cons.prems(3)]
    have IH: "list_all2 (EQ ops) xs ys' \<longleftrightarrow> (\<forall>z \<in> D. mem z xs = mem z ys')"
      using Cons.IH [of ys'] Cons.prems ys by simp
    show ?thesis
    proof (cases "EQ ops x y")
      case True
      have xy: "EQ ops z x = EQ ops z y" if "z \<in> D" for z
        using that True D EQ_trans [of z x y] EQ_trans [of z y x] EQ_sym [of x y] by blast
      have nx: "\<not> mem z xs" "\<not> mem z ys'" if "z \<in> D" "EQ ops z x" for z
      proof -
        have "LT ops z w" if "w \<in> set xs \<union> set ys'" for w
          using LT_EQ(1) [of z x w] LT_EQ(1) [of z y w] xy that \<open>z \<in> D\<close> \<open>EQ ops z x\<close> D Cons.prems(3,4) ys by auto
        then show "\<not> mem z xs" "\<not> mem z ys'" using not_mem_above [OF that(1)] D by auto
      qed
      have "(\<forall>z \<in> D. mem z xs = mem z ys') \<longleftrightarrow> (\<forall>z \<in> D. mem z (x # xs) = mem z ys)"
        using nx xy by (auto simp: ys mem_Cons)
      then show ?thesis using IH True ys by simp
    next
      case False
      then have "LT ops x y \<or> LT ops y x" using EQ_iff [OF D(1,2)] by blast
      then have "\<not> mem x ys \<or> \<not> mem y (x # xs)" using S(2) S'(2) ys by blast
      moreover have "mem x (x # xs)" "mem y ys" using EQ_refl D ys by (auto simp: mem_Cons)
      ultimately have "\<not> (\<forall>z \<in> D. mem z (x # xs) = mem z ys)" using D(1,2) by blast
      then show ?thesis using False ys by simp
    qed
  qed
qed

lemma eq_set_loop_all:
  assumes "LEN_PLIST p = LEN_PLIST q" "1 \<le> i" "i \<le> LEN_PLIST p + 1"
  shows "eq_set_loop ops p q i \<longleftrightarrow> list_all2 (EQ ops) (drop (i - 1) (entries p)) (drop (i - 1) (entries q))"
  using assms
proof (induction "LEN_PLIST p + 1 - i" arbitrary: i)
  case 0
  then show ?case by (subst eq_set_loop.simps) simp
next
  case (Suc n)
  then have le: "i \<le> LEN_PLIST p" "i \<le> LEN_PLIST q" by auto
  have "eq_set_loop ops p q (i + 1) \<longleftrightarrow>
      list_all2 (EQ ops) (drop (i + 1 - 1) (entries p)) (drop (i + 1 - 1) (entries q))"
    using Suc by (intro Suc.hyps) auto
  then show ?case using le entries_drop [OF Suc.prems(2) le(1)] entries_drop [OF Suc.prems(2) le(2)]
    by (subst eq_set_loop.simps) simp
qed

lemma EqSet_ok:
  assumes "proper_set ops D p" "proper_set ops D q"
  shows "EqSet ops p q \<longleftrightarrow> (\<forall>x \<in> D. member ops x p = member ops x q)"
proof -
  have "EqSet ops p q \<longleftrightarrow> list_all2 (EQ ops) (entries p) (entries q)"
    using eq_set_loop_all [of p q 1] list_all2_lengthD [of "EQ ops" "entries p" "entries q"]
    by (auto simp: EqSet_def)
  then show ?thesis
    using same_members properD [OF assms(1)] properD [OF assms(2)] member_proper assms by auto
qed

lemma sub_length:
  assumes "set xs \<subseteq> D" "set ys \<subseteq> D" "sorted_wrt (LT ops) xs" "sorted_wrt (LT ops) ys" "\<forall>y \<in> set ys. mem y xs"
  shows "length ys \<le> length xs"
  using assms
proof (induction xs arbitrary: ys)
  case Nil
  then show ?case by (cases ys) auto
next
  case (Cons x xs)
  show ?case
  proof (cases ys)
    case ys: (Cons y ys')
    note S = mem_step [OF Cons.prems(2) [unfolded ys] Cons.prems(1) Cons.prems(4) [unfolded ys] Cons.prems(3)]
    have skip: "mem z xs" if "z \<in> set ys" "LT ops x z" for z
      using that Cons.prems(1,2,5) mem_skip [of z x xs] by auto
    show ?thesis
    proof (cases "EQ ops y x")
      case True
      then have "\<forall>z \<in> set ys'. mem z xs" using S(1) skip ys by auto
      then show ?thesis using Cons.IH [of ys'] Cons.prems ys by auto
    next
      case False
      then have "\<not> LT ops y x" using S(2) Cons.prems(5) ys by auto
      then have "\<forall>z \<in> set ys. mem z xs" using S(3) False skip ys by auto
      then have "length ys \<le> length xs" using Cons.IH [of ys] Cons.prems by auto
      then show ?thesis by simp
    qed
  qed simp
qed

lemma subset_loop_ok:
  assumes "proper_set ops D p" "proper_set ops D q" "1 \<le> i1" "1 \<le> i2" "i1 \<le> LEN_PLIST p + 1" "i2 \<le> LEN_PLIST q + 1"
  shows "subset_loop ops p q i1 i2 = LEN_PLIST q + 1 \<longleftrightarrow>
    (\<forall>y \<in> set (drop (i2 - 1) (entries q)). mem y (drop (i1 - 1) (entries p)))"
  using assms(3-6)
proof (induction "LEN_PLIST p + 1 - i1" arbitrary: i1 i2 rule: less_induct)
  case less
  let ?xs = "drop (i1 - 1) (entries p)" and ?ys = "drop (i2 - 1) (entries q)"
  note P = properD [OF assms(1)] and Q = properD [OF assms(2)]
  have sD: "set ?xs \<subseteq> D" "set ?ys \<subseteq> D" using P(5) Q(5) set_drop_subset by fast+
  have so: "sorted_wrt (LT ops) ?xs" "sorted_wrt (LT ops) ?ys" using P(4) Q(4) by (simp_all add: sorted_wrt_drop)
  show ?case
  proof (cases "i1 \<le> LEN_PLIST p \<and> i2 \<le> LEN_PLIST q \<and> LEN_PLIST q - i2 \<le> LEN_PLIST p - i1")
    case False
    then have st: "subset_loop ops p q i1 i2 = i2" by (subst subset_loop.simps) auto
    show ?thesis
    proof (cases "i2 = LEN_PLIST q + 1")
      case True
      then show ?thesis using st by simp
    next
      case f: False
      then have "length ?xs < length ?ys" using False less.prems by auto
      then have "\<not> (\<forall>y \<in> set ?ys. mem y ?xs)" using sub_length [OF sD so] by linarith
      then show ?thesis using st f by simp
    qed
  next
    case True
    let ?x = "the (ELM_PLIST p i1)" and ?y = "the (ELM_PLIST q i2)"
    have d: "?xs = ?x # drop i1 (entries p)" "?ys = ?y # drop i2 (entries q)"
      using True less.prems entries_drop by blast+
    note S = mem_step [OF sD(2) [unfolded d] sD(1) [unfolded d] so(2) [unfolded d] so(1) [unfolded d]]
    have D: "?x \<in> D" "?y \<in> D" using sD d by auto
    have st: "subset_loop ops p q i1 i2 =
        (if EQ ops ?x ?y then subset_loop ops p q (i1 + 1) (i2 + 1)
         else if LT ops ?x ?y then subset_loop ops p q (i1 + 1) i2 else i2)"
      using True by (subst subset_loop.simps) (simp add: Let_def)
    have skip: "mem z ?xs = mem z (drop i1 (entries p))" if "z \<in> set ?ys" "LT ops ?x z" for z
      using that mem_skip [of z ?x] D(1) sD(2) d by auto
    from D show ?thesis
    proof (cases rule: cases_EQ_LT)
      case 1
      have IH: "subset_loop ops p q (i1 + 1) (i2 + 1) = LEN_PLIST q + 1 \<longleftrightarrow>
          (\<forall>y \<in> set (drop (i2 + 1 - 1) (entries q)). mem y (drop (i1 + 1 - 1) (entries p)))"
        using True less.prems by (intro less.hyps) auto
      have "EQ ops ?y ?x" using 1 EQ_sym D by blast
      then have "mem ?y ?xs" "\<forall>z \<in> set (drop i2 (entries q)). LT ops ?x z" using S(1) d by auto
      then have "(\<forall>y \<in> set ?ys. mem y ?xs) \<longleftrightarrow>
          (\<forall>y \<in> set (drop i2 (entries q)). mem y (drop i1 (entries p)))" using skip d(2) by auto
      then show ?thesis using IH st 1 by simp
    next
      case 2
      have IH: "subset_loop ops p q (i1 + 1) i2 = LEN_PLIST q + 1 \<longleftrightarrow>
          (\<forall>y \<in> set (drop (i2 - 1) (entries q)). mem y (drop (i1 + 1 - 1) (entries p)))"
        using True less.prems by (intro less.hyps) auto
      have "\<not> EQ ops ?y ?x" using 2 EQ_sym D by blast
      then have "\<forall>z \<in> set ?ys. LT ops ?x z" using S(3) 2 d by auto
      then show ?thesis using IH st 2 skip by auto
    next
      case 3
      then have "\<not> mem ?y ?xs" using S(2) d by auto
      then show ?thesis using st 3 True d(2) by auto
    qed
  qed
qed

lemma mem_subset:
  assumes "set xs \<subseteq> D" "set ys \<subseteq> D"
  shows "(\<forall>y \<in> set ys. mem y xs) \<longleftrightarrow> (\<forall>x \<in> D. mem x ys \<longrightarrow> mem x xs)"
proof (intro iffI ballI impI)
  fix x
  assume a: "\<forall>y \<in> set ys. mem y xs" "x \<in> D" "mem x ys"
  then obtain y where y: "y \<in> set ys" "EQ ops x y" by (auto simp: mem_def)
  then show "mem x xs" using a mem_cong [OF assms(1) a(2), of y] assms(2) by blast
next
  fix y
  assume a: "\<forall>x \<in> D. mem x ys \<longrightarrow> mem x xs" "y \<in> set ys"
  then have "y \<in> D" "mem y ys" using assms(2) EQ_refl [of y] by (auto simp: mem_def)
  then show "mem y xs" using a(1) by blast
qed

lemma FuncIS_EQUAL_SET_ok:
  assumes "valid_list ops D p" "valid_list ops D q" "\<not> SyInitializing ops"
  shows "FuncIS_EQUAL_SET ops p q \<longleftrightarrow> (\<forall>x \<in> D. member ops x p = member ops x q)"
proof -
  obtain p1 p2 q1 q2 where e: "as_set ops p = (p1, p2)" "as_set ops q = (q1, q2)" by (metis surj_pair)
  note P = as_set_ok [OF assms(1,3) e(1)] and Q = as_set_ok [OF assms(2,3) e(2)]
  show ?thesis using EqSet_ok [OF P(1) Q(1)] P(2) Q(2) by (simp add: FuncIS_EQUAL_SET_def e)
qed

lemma FuncIS_SUBSET_SET_ok:
  assumes "valid_list ops D p" "valid_list ops D q" "\<not> SyInitializing ops"
  shows "FuncIS_SUBSET_SET ops p q \<longleftrightarrow> (\<forall>x \<in> D. member ops x q \<longrightarrow> member ops x p)"
proof -
  obtain p1 p2 q1 q2 where e: "as_set ops p = (p1, p2)" "as_set ops q = (q1, q2)" by (metis surj_pair)
  note P = as_set_ok [OF assms(1,3) e(1)] and Q = as_set_ok [OF assms(2,3) e(2)]
  have "FuncIS_SUBSET_SET ops p q \<longleftrightarrow> (\<forall>y \<in> set (entries q1). mem y (entries p1))"
    using subset_loop_ok [OF P(1) Q(1), of 1 1] by (simp add: FuncIS_SUBSET_SET_def e)
  also have "\<dots> \<longleftrightarrow> (\<forall>x \<in> D. mem x (entries q1) \<longrightarrow> mem x (entries p1))"
    by (rule mem_subset [OF properD(5) [OF P(1)] properD(5) [OF Q(1)]])
  finally show ?thesis using P(2) Q(2) member_proper P(1) Q(1) by auto
qed

lemma FuncLIST_SORTED_LIST_ok:
  assumes "valid_list ops D p" "\<not> SyInitializing ops" "FuncLIST_SORTED_LIST ops p = (q, p')"
  shows "proper_set ops D q" "x \<in> D \<Longrightarrow> member ops x q \<longleftrightarrow> member ops x p" "\<not> immutable q" "valid_list ops D p'"
    "elms p' = elms p"
proof -
  obtain p1 b where 1: "IS_SSORT_LIST ops p = (p1, b)" by (metis surj_pair)
  note t = test_proper [OF assms(1,2) 1]
  have v: "valid_list ops D p1" "member ops x p1 = member ops x p" for x
    using t assms(1) by (simp_all add: valid_list_def member_def)
  have copy: "proper_set ops D (ShallowCopyPlist r)" "member ops x (ShallowCopyPlist r) = member ops x r"
    if "proper_set ops D r" for r x
    using that by (auto simp: ShallowCopyPlist_def proper_set_def type_ok_def objs_def entries_def member_def)
  have empty: "proper_set ops D NewEmptyPlist"
    by (auto simp: NewEmptyPlist_def proper_set_def type_ok_def objs_def dense_def homog_def cyc_tnum_def)
  have q: "q = NewEmptyPlist \<and> p' = p \<and> elms p = [] \<or>
      p' = p1 \<and> (if b then q = ShallowCopyPlist p1 else q = SetList ops p1)"
    using assms(3) 1 by (auto simp: FuncLIST_SORTED_LIST_def LEN_PLIST_def split: if_splits)
  note s = SetList_ok [of p1]
  show "proper_set ops D q" "x \<in> D \<Longrightarrow> member ops x q \<longleftrightarrow> member ops x p" "\<not> immutable q" "valid_list ops D p'"
    "elms p' = elms p"
    using q t(1,6) v s copy empty assms(1)
    by (auto simp: valid_list_def NewEmptyPlist_def ShallowCopyPlist_def member_def objs_def split: if_splits)
qed

end
subsection \<open>Types of the results\<close>

text \<open>What the types record of an object.\<close>

definition kind :: "'a objops \<Rightarrow> 'a \<Rightarrow> nat \<times> bool \<times> bool \<times> bool \<times> nat" where
  "kind ops x = (FAMILY_OBJ ops x, IS_CYC ops x, IS_FFE ops x, IS_HOMOG_LIST ops x, LEN_LIST ops x)"

lemma type_ok_cong: "tnum p = tnum q \<Longrightarrow> elms p = elms q \<Longrightarrow> type_ok ops p = type_ok ops q"
  by (simp add: type_ok_def entries_def)

lemma elms_same [simp]: "p\<lparr>elms := elms p\<rparr> = p"
  by (cases p) simp

lemma SET_FILT_LIST_elms: "(SET_FILT_LIST p f)\<lparr>elms := es\<rparr> = SET_FILT_LIST (p\<lparr>elms := es\<rparr>) f"
  by (simp add: SET_FILT_LIST_def TNUM_OBJ_def RetypeBag_def split: tab_entry.split)

lemma RESET_FILT_LIST_elms: "(RESET_FILT_LIST p f)\<lparr>elms := es\<rparr> = RESET_FILT_LIST (p\<lparr>elms := es\<rparr>) f"
  by (simp add: RESET_FILT_LIST_def TNUM_OBJ_def RetypeBag_def split: tab_entry.split)

lemma homogD: "homog ops xs \<Longrightarrow> a \<in> set xs \<Longrightarrow> b \<in> set xs \<Longrightarrow> FAMILY_OBJ ops a = FAMILY_OBJ ops b"
  unfolding homog_def by blast

lemma same_lengthD: "same_length ops xs \<Longrightarrow> a \<in> set xs \<Longrightarrow> b \<in> set xs \<Longrightarrow> LEN_LIST ops a = LEN_LIST ops b"
  unfolding same_length_def by blast

lemma holds_Some:
  "dense (map Some zs)"
  "holds ops FN_IS_DENSE (map Some zs)" "\<not> holds ops FN_IS_NDENSE (map Some zs)"
  "holds ops FN_IS_SSORT (map Some zs) \<longleftrightarrow> sorted_wrt (LT ops) zs"
  "holds ops FN_IS_NSORT (map Some zs) \<longleftrightarrow> \<not> sorted_wrt (LT ops) zs"
  "holds ops FN_IS_HOMOG (map Some zs) \<longleftrightarrow> homog ops zs" "holds ops FN_IS_NHOMOG (map Some zs) \<longleftrightarrow> \<not> homog ops zs"
  "holds ops FN_IS_TABLE (map Some zs) \<longleftrightarrow> homog ops zs \<and> (\<forall>x \<in> set zs. IS_HOMOG_LIST ops x)"
  "holds ops FN_IS_RECT (map Some zs) \<longleftrightarrow> homog ops zs \<and> (\<forall>x \<in> set zs. IS_HOMOG_LIST ops x) \<and> same_length ops zs"
  by (auto simp: dense_def comp_def)

text \<open>Entries whose kinds occur in a list inherit its type, up to order and inhomogeneity.\<close>

lemma type_ok_kinds:
  assumes "type_ok ops p" "dense (elms p)" "\<And>z. z \<in> set zs \<Longrightarrow> \<exists>x \<in> set (entries p). kind ops z = kind ops x"
    and "FN_IS_NSORT \<notin> set (claims (tnum p))"
    and "FN_IS_SSORT \<in> set (claims (tnum p)) \<Longrightarrow> sorted_wrt (LT ops) zs"
    and "FN_IS_NHOMOG \<in> set (claims (tnum p)) \<Longrightarrow> \<not> homog ops zs"
  shows "type_ok ops (p\<lparr>elms := map Some zs\<rparr>)"
proof -
  have hom: "homog ops zs" if "homog ops (entries p)"
    unfolding homog_def
  proof (intro ballI)
    fix x y assume "x \<in> set zs" "y \<in> set zs"
    then obtain a b where "a \<in> set (entries p)" "b \<in> set (entries p)" "kind ops x = kind ops a" "kind ops y = kind ops b"
      using assms(3) by meson
    then show "FAMILY_OBJ ops x = FAMILY_OBJ ops y" using homogD [OF that, of a b] by (simp add: kind_def)
  qed
  have len: "same_length ops zs" if "same_length ops (entries p)"
    unfolding same_length_def
  proof (intro ballI)
    fix x y assume "x \<in> set zs" "y \<in> set zs"
    then obtain a b where "a \<in> set (entries p)" "b \<in> set (entries p)" "kind ops x = kind ops a" "kind ops y = kind ops b"
      using assms(3) by meson
    then show "LEN_LIST ops x = LEN_LIST ops y" using same_lengthD [OF that, of a b] by (simp add: kind_def)
  qed
  have all: "\<forall>z \<in> set zs. Q z" if "\<forall>x \<in> set (entries p). Q x" "\<And>x y. kind ops x = kind ops y \<Longrightarrow> Q x = Q y" for Q
    using assms(3) that by blast
  have tab: "\<forall>x \<in> set (entries p). IS_HOMOG_LIST ops x \<Longrightarrow> \<forall>z \<in> set zs. IS_HOMOG_LIST ops z"
    "\<forall>x \<in> set (entries p). IS_CYC ops x \<Longrightarrow> \<forall>z \<in> set zs. IS_CYC ops z"
    "\<forall>x \<in> set (entries p). IS_FFE ops x \<Longrightarrow> \<forall>z \<in> set zs. IS_FFE ops z"
    by (rule all; simp add: kind_def)+
  have "holds ops f (map Some zs)" if "f \<in> set (claims (tnum p))" for f
  proof -
    have "holds ops f (map Some (entries p))"
      using type_ok_claims [OF assms(1) that] elms_entries [OF assms(2)] by simp
    then show ?thesis using that assms(4-6) hom len tab(1) by (cases f; simp only: holds_Some simp_thms; blast)
  qed
  moreover have "elms p = [] \<Longrightarrow> zs = []" using assms(3) by (cases zs) (auto simp: entries_def)
  moreover have "entries (p\<lparr>elms := map Some zs\<rparr>) = zs" by (simp add: entries_def comp_def)
  moreover have "tnum p = T_PLIST_EMPTY \<Longrightarrow> elms p = []" "cyc_tnum (tnum p) \<Longrightarrow> \<forall>x \<in> set (entries p). IS_CYC ops x"
    "tnum p = T_PLIST_FFE \<Longrightarrow> \<forall>x \<in> set (entries p). IS_FFE ops x"
    using assms(1) unfolding type_ok_def by blast+
  ultimately show ?thesis using tab(2,3) unfolding type_ok_def by simp
qed

text \<open>A type that does not claim homogeneity is true of any strictly sorted entries.\<close>

lemma type_ok_no_homog:
  assumes "FN_IS_HOMOG \<notin> set (claims t)" "FN_IS_NDENSE \<notin> set (claims t)" "FN_IS_NSORT \<notin> set (claims t)"
    and "sorted_wrt (LT ops) zs" "FN_IS_NHOMOG \<in> set (claims t) \<Longrightarrow> \<not> homog ops zs"
  shows "type_ok ops \<lparr>tnum = t, immutable = b, elms = map Some zs\<rparr>"
  using assms by (cases t) (auto simp: type_ok_def cyc_tnum_def dense_def entries_def comp_def)

lemma plist_eta: "p\<lparr>elms := es\<rparr> = \<lparr>tnum = tnum p, immutable = immutable p, elms = es\<rparr>"
  by (cases p) simp

text \<open>
  The kernel's cyclotomics lie in one family; other objects of this family, such as \<open>infinity\<close>, need not be
  cyclotomics of the kernel, and nothing else is assumed of the objects of one family.
\<close>

locale cyclotomic_objects = ordered_objects ops D
  for ops :: "'a objops" and D :: "'a set" +
  assumes cyc_family: "a \<in> D \<Longrightarrow> b \<in> D \<Longrightarrow> IS_CYC ops a \<Longrightarrow> IS_CYC ops b \<Longrightarrow> FAMILY_OBJ ops a = FAMILY_OBJ ops b"

sublocale gmp_contract \<subseteq> cyclotomics: cyclotomic_objects "rat_ops G" "{x. valid_rat x}"
  by unfold_locales (simp_all add: rat_ops_def)

text \<open>
  What a type records of each entry \<open>y\<close> beyond its family, in a list with the entry \<open>x\<close>: that it is a homogeneous list, of
  the length of \<open>x\<close>, a cyclotomic of the kernel or a finite field element.
\<close>

definition fits :: "'a objops \<Rightarrow> plist_tnum \<Rightarrow> 'a \<Rightarrow> 'a \<Rightarrow> bool" where
  "fits ops t x y \<longleftrightarrow> (FN_IS_TABLE \<in> set (claims t) \<longrightarrow> IS_HOMOG_LIST ops y) \<and>
     (FN_IS_RECT \<in> set (claims t) \<longrightarrow> LEN_LIST ops y = LEN_LIST ops x) \<and>
     (cyc_tnum t \<longrightarrow> IS_CYC ops y) \<and> (t = T_PLIST_FFE \<longrightarrow> IS_FFE ops y)"

lemma fits_kind: "kind ops y = kind ops z \<Longrightarrow> fits ops t x y = fits ops t x z"
  by (simp add: fits_def kind_def)

lemma fits_trivial: "FN_IS_HOMOG \<notin> set (claims t) \<Longrightarrow> fits ops t x y"
  by (cases t) (simp_all add: fits_def cyc_tnum_def)

lemma IS_SSORT_LIST_elms: "elms (fst (IS_SSORT_LIST ops p)) = elms p"
proof -
  have "elms (fst (IsSSortPlist ops p)) = elms p" "elms (fst (IsSSortPlistDense ops p)) = elms p"
    "elms (fst (IsSSortPlistHom ops p)) = elms p"
    by (auto simp: IsSSortPlist_def IsSSortPlistDense_def IsSSortPlistHom_def RetypeBagSM_def Let_def
        split: option.splits prod.splits)
  then show ?thesis by (cases "tnum p") (simp_all add: IS_SSORT_LIST_def)
qed

lemma IsSet_elms: "elms (fst (IsSet ops p)) = elms p"
  using IS_SSORT_LIST_elms [of ops p] IS_SSORT_LIST_elms [of ops "fst (IS_SSORT_LIST ops p)"]
  by (auto simp: IsSet_def IsPlainSet_def RetypeBagSM_def split: prod.splits)

text \<open>The tests do not touch what \<open>fits\<close> looks at.\<close>

definition same_fits :: "'a plist \<Rightarrow> 'a plist \<Rightarrow> bool" where
  "same_fits p q \<longleftrightarrow> (\<forall>ops x y. fits ops (tnum p) x y = fits (ops :: 'a objops) (tnum q) x y)"

lemma same_fits_refl [simp]: "same_fits p p"
  by (simp add: same_fits_def)

lemma same_fits_trans: "same_fits p q \<Longrightarrow> same_fits q r \<Longrightarrow> same_fits p r"
  by (simp add: same_fits_def)

lemma same_fits_SET:
  assumes "f \<notin> {FN_IS_TABLE, FN_IS_RECT}"
  shows "same_fits p (SET_FILT_LIST p f)"
proof -
  have "g \<in> set (claims (tnum (SET_FILT_LIST p f))) \<longleftrightarrow> g \<in> set (claims (tnum p))" if "g \<in> {FN_IS_TABLE, FN_IS_RECT}" for g
  proof -
    have "g \<notin> set (follows f)" using assms that by (cases f) auto
    then show ?thesis using SET_FILT_LIST_claims(1,2) [of g p f] by blast
  qed
  then show ?thesis using SET_FILT_LIST_claims(3,4) [of p f] by (simp add: same_fits_def fits_def)
qed

lemma same_fits_test:
  assumes "elms p \<noteq> []" "IS_SSORT_LIST ops p = (q, b)"
  shows "same_fits p q"
proof -
  have set: "same_fits p (SET_FILT_LIST r f)" if "same_fits p r" "f \<notin> {FN_IS_TABLE, FN_IS_RECT}" for r f
    using same_fits_trans [OF that(1) same_fits_SET [OF that(2)]] .
  have len: "LEN_PLIST p \<noteq> 0" using assms(1) by (simp add: LEN_PLIST_def)
  have "same_fits p (fst (IsSSortPlist ops p))" "same_fits p (fst (IsSSortPlistDense ops p))"
    "same_fits p (fst (IsSSortPlistHom ops p))"
    using len by (auto simp: IsSSortPlist_def IsSSortPlistDense_def IsSSortPlistHom_def Let_def set
        split: option.splits prod.splits)
  then show ?thesis using assms(2) by (cases "tnum p") (simp_all add: IS_SSORT_LIST_def)
qed

context ordered_objects
begin

lemma EQ_kinds: "a \<in> D \<Longrightarrow> b \<in> D \<Longrightarrow> EQ ops a b \<Longrightarrow> kind ops a = kind ops b"
  using EQ_kind [of a b] by (simp add: kind_def)

lemma mem_kind: "x \<in> D \<Longrightarrow> set xs \<subseteq> D \<Longrightarrow> mem x xs \<Longrightarrow> \<exists>y \<in> set xs. kind ops x = kind ops y"
  unfolding mem_def using EQ_kinds by blast

text \<open>What holds of the members by their kind does not depend on which equal objects represent them.\<close>

lemma ball_kind:
  assumes "A \<subseteq> D" "B \<subseteq> D" "\<And>x. x \<in> D \<Longrightarrow> (\<exists>y \<in> A. EQ ops x y) = (\<exists>y \<in> B. EQ ops x y)"
    and "\<And>x y. kind ops x = kind ops y \<Longrightarrow> Q x = Q y"
  shows "(\<forall>y \<in> A. Q y) \<longleftrightarrow> (\<forall>y \<in> B. Q y)"
proof -
  have "Q y" if h: "\<forall>y \<in> B. Q y" "y \<in> A" "A \<subseteq> D" "B \<subseteq> D" "\<And>x. x \<in> D \<Longrightarrow> (\<exists>y \<in> A. EQ ops x y) = (\<exists>y \<in> B. EQ ops x y)"
    for A B y
  proof -
    have "y \<in> D" using h(2,3) by blast
    then obtain z where "z \<in> B" "EQ ops y z" using h(2,5) EQ_refl [of y] by blast
    then show ?thesis using h(1,4) assms(4) [of y z] EQ_kinds [of y z] \<open>y \<in> D\<close> by blast
  qed
  from this [of B _ A] this [of A _ B] show ?thesis using assms(1,2,3) by blast
qed

lemma not_homog_mem:
  assumes "\<not> homog ops xs" "set xs \<subseteq> D" "set zs \<subseteq> D" "\<And>x. x \<in> set xs \<Longrightarrow> mem x zs"
  shows "\<not> homog ops zs"
proof
  assume h: "homog ops zs"
  have "FAMILY_OBJ ops x = FAMILY_OBJ ops y" if x: "x \<in> set xs" and y: "y \<in> set xs" for x y
  proof -
    have "\<exists>a \<in> set zs. kind ops x = kind ops a" using mem_kind [OF _ assms(3)] assms(2,4) x by blast
    moreover have "\<exists>b \<in> set zs. kind ops y = kind ops b" using mem_kind [OF _ assms(3)] assms(2,4) y by blast
    ultimately obtain a b where "a \<in> set zs" "b \<in> set zs" "kind ops x = kind ops a" "kind ops y = kind ops b" by blast
    moreover from homogD [OF h this(1,2)] have "FAMILY_OBJ ops a = FAMILY_OBJ ops b" .
    ultimately show ?thesis by (simp add: kind_def)
  qed
  then have "homog ops xs" unfolding homog_def by blast
  with assms(1) show False by blast
qed

text \<open>The claims of the type of a proper set.\<close>

lemma proper_claims:
  assumes "proper_set ops D p"
  shows "FN_IS_NSORT \<notin> set (claims (tnum p))" "FN_IS_NDENSE \<notin> set (claims (tnum p))"
    "FN_IS_HOMOG \<in> set (claims (tnum p)) \<Longrightarrow> homog ops (entries p)"
    "FN_IS_NHOMOG \<in> set (claims (tnum p)) \<Longrightarrow> \<not> homog ops (entries p)"
proof -
  have h: "holds ops f (elms p)" if "f \<in> set (claims (tnum p))" for f
    by (rule type_ok_claims [OF properD(1) [OF assms] that])
  show "FN_IS_NSORT \<notin> set (claims (tnum p))" "FN_IS_NDENSE \<notin> set (claims (tnum p))"
    "FN_IS_HOMOG \<in> set (claims (tnum p)) \<Longrightarrow> homog ops (entries p)"
    "FN_IS_NHOMOG \<in> set (claims (tnum p)) \<Longrightarrow> \<not> homog ops (entries p)"
    using h [of FN_IS_NSORT] h [of FN_IS_NDENSE] h [of FN_IS_HOMOG] h [of FN_IS_NHOMOG] properD(3,4) [OF assms]
    by (auto simp: entries_def)
qed

lemma type_ok_RESET_HOMOG:
  assumes "proper_set ops D p" "sorted_wrt (LT ops) zs" "FN_IS_HOMOG \<in> set (claims (tnum p))"
  shows "type_ok ops ((RESET_FILT_LIST p FN_IS_HOMOG)\<lparr>elms := map Some zs\<rparr>)"
proof -
  let ?t = "tnum (RESET_FILT_LIST p FN_IS_HOMOG)"
  have c: "g \<in> set (claims (tnum p)) \<and> g \<noteq> FN_IS_HOMOG" if "g \<in> set (claims ?t)" for g
    using RESET_FILT_LIST_claims(1) [OF that] .
  have "FN_IS_NHOMOG \<notin> set (claims ?t)" using c claims_consistent [OF assms(3)] by auto
  then show ?thesis unfolding plist_eta [of _ "RESET_FILT_LIST p FN_IS_HOMOG"]
    using c proper_claims(1,2) [OF assms(1)] assms(2) by (intro type_ok_no_homog) blast+
qed

end
subsection \<open>Union\<close>

context ordered_objects
begin

text \<open>
  The union of two homogeneous sets of one family keeps the type of the first set, which is true exactly if the
  entries of the second one fit it.
\<close>

lemma unite_kept_type:
  assumes "proper_set ops D s" "sorted_wrt (LT ops) zs" "set zs \<subseteq> set (entries s) \<union> ys" "ys \<subseteq> D"
    and "\<And>x. x \<in> set (entries s) \<union> ys \<Longrightarrow> mem x zs" "homog ops zs" "FN_IS_HOMOG \<in> set (claims (tnum s))" "x0 \<in> set (entries s)"
  shows "type_ok ops ((SET_FILT_LIST s FN_IS_SSORT)\<lparr>elms := map Some zs\<rparr>) \<longleftrightarrow>
    (\<forall>x \<in> set (entries s). \<forall>y \<in> ys. fits ops (tnum s) x y)"
proof
  note P = properD [OF assms(1)]
  have zD: "set zs \<subseteq> D" using assms(3,4) P(5) by blast
  have kinds: "\<exists>z \<in> set zs. kind ops x = kind ops z" if "x \<in> set (entries s) \<union> ys" for x
    using mem_kind [OF _ zD assms(5) [OF that]] that P(5) assms(4) by blast
  let ?r = "(SET_FILT_LIST s FN_IS_SSORT)\<lparr>elms := map Some zs\<rparr>"
  have same: "fits ops (tnum ?r) x y = fits ops (tnum s) x y" for x y
    using same_fits_SET [of FN_IS_SSORT s] by (simp add: same_fits_def)
  assume t: "type_ok ops ?r"
  have c: "holds ops f (map Some zs)" if "f \<in> set (claims (tnum ?r))" for f
    using type_ok_claims [OF t that] by simp
  have ent: "entries ?r = zs" by (simp add: entries_def comp_def)
  show "\<forall>x \<in> set (entries s). \<forall>y \<in> ys. fits ops (tnum s) x y"
  proof (intro ballI)
    fix x y assume x: "x \<in> set (entries s)" and y: "y \<in> ys"
    obtain u v where u: "u \<in> set zs" "kind ops x = kind ops u" and v: "v \<in> set zs" "kind ops y = kind ops v"
      using kinds x y by blast
    have "fits ops (tnum ?r) u v"
      using c [of FN_IS_TABLE] c [of FN_IS_RECT] u(1) v(1) t ent same_lengthD [of ops zs v u]
      unfolding fits_def type_ok_def holds_Some by simp
    then have "fits ops (tnum s) u v" by (simp only: same)
    then show "fits ops (tnum s) x y" using u(2) v(2) by (simp add: fits_def kind_def)
  qed
next
  note P = properD [OF assms(1)]
  let ?r = "(SET_FILT_LIST s FN_IS_SSORT)\<lparr>elms := map Some zs\<rparr>"
  assume "\<forall>x \<in> set (entries s). \<forall>y \<in> ys. fits ops (tnum s) x y"
  then have fy: "fits ops (tnum s) x0 y" if "y \<in> ys" for y using assms(8) that by blast
  have c: "holds ops f (map Some (entries s))" if "f \<in> set (claims (tnum s))" for f
    using type_ok_claims [OF P(1) that] P(6) by simp
  have fx: "fits ops (tnum s) x0 x" if "x \<in> set (entries s)" for x
    using c [of FN_IS_TABLE] c [of FN_IS_RECT] that assms(8) P(1) same_lengthD [of ops "entries s" x x0]
    unfolding fits_def type_ok_def holds_Some by simp
  have fz: "fits ops (tnum s) x0 z" if "z \<in> set zs" for z using fx fy assms(3) that by blast
  have len: "same_length ops zs" if "FN_IS_RECT \<in> set (claims (tnum s))"
    using fz that unfolding same_length_def fits_def by simp
  have "holds ops f (map Some zs)" if f: "f \<in> set (claims (tnum s))" for f
  proof (cases f)
    case FN_IS_NHOMOG
    then show ?thesis using claims_consistent [OF assms(7)] f by simp
  next
    case FN_IS_RECT
    have "FN_IS_TABLE \<in> set (claims (tnum s))" using f FN_IS_RECT by (cases "tnum s") simp_all
    then show ?thesis unfolding FN_IS_RECT holds_Some using assms(6) fz len f FN_IS_RECT by (simp add: fits_def)
  next
    case FN_IS_TABLE
    then show ?thesis unfolding FN_IS_TABLE holds_Some using assms(6) fz f FN_IS_TABLE by (simp add: fits_def)
  qed (use f assms(2,6) proper_claims(1,2) [OF assms(1)] in \<open>simp_all only: holds_Some simp_thms\<close>)
  moreover have "tnum s = T_PLIST_EMPTY \<Longrightarrow> zs = []" using P(1) assms(8) by (simp add: type_ok_def entries_def)
  moreover have "entries (s\<lparr>elms := map Some zs\<rparr>) = zs" by (simp add: entries_def comp_def)
  ultimately have "type_ok ops (s\<lparr>elms := map Some zs\<rparr>)" using fz unfolding type_ok_def fits_def by simp
  then show "type_ok ops ?r" unfolding SET_FILT_LIST_elms using assms(2) holds_Some(4) by (intro type_ok_SET) auto
qed

lemma unite_type_ok:
  assumes "proper_set ops D s1" "proper_set ops D s2" "\<not> SyInitializing ops"
  defines "zs \<equiv> union_entries ops (entries s1) (entries s2)"
  shows "type_ok ops ((unite_set_type ops s1 s2)\<lparr>elms := map Some zs\<rparr>) \<longleftrightarrow>
    (FN_IS_HOMOG \<in> set (claims (tnum s2)) \<longrightarrow>
      (\<forall>x \<in> set (entries s1). \<forall>y \<in> set (entries s2). FAMILY_OBJ ops x = FAMILY_OBJ ops y \<longrightarrow> fits ops (tnum s1) x y))"
proof -
  note P = properD [OF assms(1)] and Q = properD [OF assms(2)]
  have zs: "sorted_wrt (LT ops) zs" "set zs \<subseteq> set (entries s1) \<union> set (entries s2)"
    using union_entries_sorted [OF P(5) Q(5) P(4) Q(4)] set_union_entries [of "entries s1" "entries s2"]
    by (simp_all add: zs_def)
  then have zD: "set zs \<subseteq> D" using P(5) Q(5) by blast
  have mem: "mem x zs" if "x \<in> set (entries s1) \<union> set (entries s2)" for x
    using that mem_union_entries [OF P(5) Q(5), of x] EQ_refl [of x] P(5) Q(5) unfolding zs_def mem_def by blast
  define r where "r = (if LEN_PLIST s1 = 0 then RetypeBag s1 (tnum s2, False)
        else if LEN_PLIST s2 \<noteq> 0 then
          if HAS_FILT_LIST s1 FN_IS_HOMOG then
            if \<not> HAS_FILT_LIST s2 FN_IS_HOMOG then RESET_FILT_LIST s1 FN_IS_HOMOG
            else if FAMILY_OBJ ops (the (ELM_PLIST s1 1)) \<noteq> FAMILY_OBJ ops (the (ELM_PLIST s2 1))
            then RetypeBag s1 (T_PLIST_DENSE_NHOM, False)
            else s1
          else s1
        else s1)"
  have r: "unite_set_type ops s1 s2 = SET_FILT_LIST r FN_IS_SSORT"
    using assms(3) by (simp add: unite_set_type_def r_def)
  have in1: "the (ELM_PLIST s1 1) \<in> set (entries s1)" if "LEN_PLIST s1 \<noteq> 0"
    using that entries_nth [of 1 s1] nth_mem [of 0 "entries s1"] by simp
  have in2: "the (ELM_PLIST s2 1) \<in> set (entries s2)" if "LEN_PLIST s2 \<noteq> 0"
    using that entries_nth [of 1 s2] nth_mem [of 0 "entries s2"] by simp
  let ?fits = "FN_IS_HOMOG \<in> set (claims (tnum s2)) \<longrightarrow>
      (\<forall>x \<in> set (entries s1). \<forall>y \<in> set (entries s2). FAMILY_OBJ ops x = FAMILY_OBJ ops y \<longrightarrow> fits ops (tnum s1) x y)"
  have good: "type_ok ops ((unite_set_type ops s1 s2)\<lparr>elms := map Some zs\<rparr>) \<longleftrightarrow> ?fits"
    if "type_ok ops (r\<lparr>elms := map Some zs\<rparr>)" "?fits"
  proof -
    have "type_ok ops ((unite_set_type ops s1 s2)\<lparr>elms := map Some zs\<rparr>)"
      unfolding r SET_FILT_LIST_elms using zs(1) holds_Some(4) that(1) by (intro type_ok_SET) auto
    then show ?thesis using that(2) by blast
  qed
  consider (a) "LEN_PLIST s1 = 0" | (b) "LEN_PLIST s1 \<noteq> 0" "LEN_PLIST s2 = 0"
    | (c) "LEN_PLIST s1 \<noteq> 0" "LEN_PLIST s2 \<noteq> 0" "FN_IS_HOMOG \<in> set (claims (tnum s1))"
        "FN_IS_HOMOG \<notin> set (claims (tnum s2))"
    | (d) "LEN_PLIST s1 \<noteq> 0" "LEN_PLIST s2 \<noteq> 0" "FN_IS_HOMOG \<in> set (claims (tnum s1))"
        "FN_IS_HOMOG \<in> set (claims (tnum s2))"
        "FAMILY_OBJ ops (the (ELM_PLIST s1 1)) \<noteq> FAMILY_OBJ ops (the (ELM_PLIST s2 1))"
    | (e) "LEN_PLIST s1 \<noteq> 0" "LEN_PLIST s2 \<noteq> 0" "FN_IS_HOMOG \<in> set (claims (tnum s1))"
        "FN_IS_HOMOG \<in> set (claims (tnum s2))"
        "FAMILY_OBJ ops (the (ELM_PLIST s1 1)) = FAMILY_OBJ ops (the (ELM_PLIST s2 1))"
    | (f) "LEN_PLIST s1 \<noteq> 0" "LEN_PLIST s2 \<noteq> 0" "FN_IS_HOMOG \<notin> set (claims (tnum s1))" by blast
  then show ?thesis
  proof cases
    case a
    then have e: "entries s1 = []" by (simp add: LEN_PLIST_def entries_def)
    then have "zs = entries s2" by (simp add: zs_def)
    then show ?thesis using a e type_ok_cong [of "r\<lparr>elms := map Some zs\<rparr>" s2 ops] P(1) Q(1,6)
      by (intro good) (simp_all add: r_def RetypeBag_def)
  next
    case b
    then have e: "entries s2 = []" by (simp add: LEN_PLIST_def entries_def)
    then have "map Some zs = elms s1" using P(6) by (simp add: zs_def)
    then show ?thesis using b e P(1) by (intro good) (simp_all add: r_def)
  next
    case c
    then show ?thesis using type_ok_RESET_HOMOG [OF assms(1) zs(1)] by (intro good) (simp_all add: r_def)
  next
    case d
    have "\<not> homog ops (the (ELM_PLIST s1 1) # the (ELM_PLIST s2 1) # [])" using d(5) by (auto simp: homog_def)
    then have "\<not> homog ops zs" using in1 in2 d(1,2) P(5) Q(5) mem zD by (elim not_homog_mem) auto
    then have "type_ok ops (r\<lparr>elms := map Some zs\<rparr>)" using d zs(1) unfolding plist_eta [of _ r]
      by (intro type_ok_no_homog) (simp_all add: r_def RetypeBag_def)
    moreover have "FAMILY_OBJ ops x \<noteq> FAMILY_OBJ ops y" if "x \<in> set (entries s1)" "y \<in> set (entries s2)" for x y
      using homogD [OF proper_claims(3) [OF assms(1) d(3)] that(1) in1 [OF d(1)]]
        homogD [OF proper_claims(3) [OF assms(2) d(4)] that(2) in2 [OF d(2)]] d(5) by simp
    ultimately show ?thesis by (intro good) blast+
  next
    case e
    have h: "homog ops (entries s1)" "homog ops (entries s2)"
      using proper_claims(3) [OF assms(1) e(3)] proper_claims(3) [OF assms(2) e(4)] .
    have f1: "FAMILY_OBJ ops x = FAMILY_OBJ ops (the (ELM_PLIST s1 1))" if "x \<in> set (entries s1) \<union> set (entries s2)" for x
      using that homogD [OF h(1) _ in1 [OF e(1)], of x] homogD [OF h(2) _ in2 [OF e(2)], of x] e(5) by auto
    have hz: "homog ops zs" unfolding homog_def
    proof (intro ballI)
      fix x y assume "x \<in> set zs" "y \<in> set zs"
      then have "FAMILY_OBJ ops x = FAMILY_OBJ ops (the (ELM_PLIST s1 1))"
        "FAMILY_OBJ ops y = FAMILY_OBJ ops (the (ELM_PLIST s1 1))" using f1 zs(2) by blast+
      then show "FAMILY_OBJ ops x = FAMILY_OBJ ops y" by simp
    qed
    have "FAMILY_OBJ ops x = FAMILY_OBJ ops y" if "x \<in> set (entries s1)" "y \<in> set (entries s2)" for x y
      using f1 [of x] f1 [of y] that by simp
    moreover have "unite_set_type ops s1 s2 = SET_FILT_LIST s1 FN_IS_SSORT" unfolding r using e by (simp add: r_def)
    ultimately show ?thesis using unite_kept_type [OF assms(1) zs Q(5) mem hz e(3) in1 [OF e(1)]] e(4) by auto
  next
    case f
    have "\<not> homog ops zs" if "FN_IS_NHOMOG \<in> set (claims (tnum s1))"
      using proper_claims(4) [OF assms(1) that] P(5) mem zD by (elim not_homog_mem) auto
    then have "type_ok ops (s1\<lparr>elms := map Some zs\<rparr>)"
      unfolding plist_eta [of _ s1] using f(3) proper_claims(1,2) [OF assms(1)] zs(1) by (intro type_ok_no_homog)
    then show ?thesis using f fits_trivial [OF f(3), of ops] by (intro good) (simp_all add: r_def)
  qed
qed

text \<open>The checked first argument is the one that the test leaves.\<close>

lemma RequireMutableSet_IsSet: "RequireMutableSet ops p = Inr s \<Longrightarrow> fst (IsSet ops p) = s"
  by (auto simp: RequireMutableSet_def split: if_splits prod.splits)

text \<open>The checked first argument is the tested one, which fits the same entries.\<close>

lemma RequireMutableSet_fits:
  assumes "RequireMutableSet ops p = Inr s" "objs p \<noteq> {}"
  shows "fits ops (tnum s) x y = fits ops (tnum p) x y"
proof -
  have ne: "elms p \<noteq> []" using assms(2) by (auto simp: objs_def)
  obtain p1 b1 where p1: "IS_SSORT_LIST ops p = (p1, b1)" by (metis surj_pair)
  obtain p2 b2 where p2: "IS_SSORT_LIST ops p1 = (p2, b2)" by (metis surj_pair)
  have e1: "elms p1 = elms p" using IS_SSORT_LIST_elms [of ops p] p1 by simp
  have f1: "same_fits p p1" by (rule same_fits_test [OF ne p1])
  moreover have "same_fits p1 p2" using same_fits_test [OF _ p2] ne e1 by simp
  moreover have "same_fits p2 (SET_FILT_LIST p2 FN_IS_SSORT)" by (rule same_fits_SET) simp
  ultimately have "same_fits p (SET_FILT_LIST p2 FN_IS_SSORT)" using same_fits_trans by blast
  then have "same_fits p s"
    using assms(1) f1 ne e1 p1 p2 by (auto simp: RequireMutableSet_def IsSet_def IsPlainSet_def LEN_PLIST_def split: if_splits)
  then show ?thesis by (simp add: same_fits_def)
qed

lemma FuncUNITE_SET_ok:
  assumes "valid_list ops D p" "valid_list ops D q" "\<not> SyInitializing ops" "\<not> immutable p" "proper_set ops D p"
  shows "\<exists>r q'. FuncUNITE_SET ops p q = Inr (r, q') \<and> holds ops FN_IS_SSORT (elms r) \<and> objs r \<subseteq> D \<and> \<not> immutable r \<and>
    valid_list ops D q' \<and> elms q' = elms q \<and> (\<forall>x \<in> D. member ops x r \<longleftrightarrow> member ops x p \<or> member ops x q) \<and>
    (proper_set ops D r \<longleftrightarrow> (HAS_FILT_LIST (fst (as_set ops q)) FN_IS_HOMOG \<longrightarrow>
      (\<forall>x \<in> objs p. \<forall>y \<in> objs q. FAMILY_OBJ ops x = FAMILY_OBJ ops y \<longrightarrow> fits ops (tnum p) x y)))"
proof -
  from RequireMutableSet_ok(2) [OF assms(1,3,4,5)] obtain s1 where
    s1: "RequireMutableSet ops p = Inr s1" "proper_set ops D s1" "elms s1 = elms p" "\<not> immutable s1" by blast
  obtain s2 q' where q: "as_set ops q = (s2, q')" by (metis surj_pair)
  note s2 = as_set_ok [OF assms(2,3) q]
  note P = properD [OF s1(2)] and Q = properD [OF s2(1)]
  let ?zs = "union_entries ops (entries s1) (entries s2)"
  obtain j1 j2 tmp where m: "unite_main ops s1 s2 1 1 [] = (j1, j2, tmp)" by (metis prod_cases3)
  have tmp: "unite_rest s2 j2 (unite_rest s1 j1 tmp) = map Some ?zs"
    using unite_main_entries [OF P(3) Q(3) _ _ m] by simp
  define r where "r = (unite_set_type ops s1 s2)\<lparr>elms := map Some ?zs\<rparr>"
  have r: "FuncUNITE_SET ops p q = Inr (r, q')"
    using s1(1) q m tmp by (simp add: FuncUNITE_SET_def r_def)
  have re: "elms r = map Some ?zs" "entries r = ?zs" by (simp_all add: r_def entries_def comp_def)
  have zD: "set ?zs \<subseteq> D" using set_union_entries P(5) Q(5) by blast
  have srt: "sorted_wrt (LT ops) ?zs" by (rule union_entries_sorted [OF P(5) Q(5) P(4) Q(4)])
  have h: "holds ops FN_IS_SSORT (elms r)" "objs r \<subseteq> D" "dense (elms r)"
    using srt re(1) zD holds_Some(1) [of ?zs] holds_Some(4) [of ops ?zs] by (auto simp: objs_def simp del: holds.simps)
  have mem: "member ops x r \<longleftrightarrow> member ops x p \<or> member ops x q" if "x \<in> D" for x
    using that member_mem [OF h(3)] re(2) member_proper [OF s1(2)] member_proper [OF s2(1)] s2(2) [OF that]
      mem_union_entries [OF P(5) Q(5) that] s1(3) by (simp add: member_def objs_def)
  have pr: "proper_set ops D r \<longleftrightarrow> type_ok ops r"
    using properI [OF _ re(1) srt zD] properD(1) by blast
  have o1: "set (entries s1) = objs p" using entries_objs [OF P(3)] s1(3) by (simp add: objs_def)
  have q2: "(\<exists>y \<in> set (entries s2). EQ ops x y) = (\<exists>y \<in> objs q. EQ ops x y)" if "x \<in> D" for x
    using member_proper [OF s2(1)] s2(2) [OF that] by (simp add: member_def mem_def)
  have k: "(\<forall>y \<in> set (entries s2). FAMILY_OBJ ops x = FAMILY_OBJ ops y \<longrightarrow> fits ops (tnum p) x y) \<longleftrightarrow>
      (\<forall>y \<in> objs q. FAMILY_OBJ ops x = FAMILY_OBJ ops y \<longrightarrow> fits ops (tnum p) x y)" for x
  proof (rule ball_kind)
    show "set (entries s2) \<subseteq> D" "objs q \<subseteq> D" using Q(5) assms(2) by (simp_all add: valid_list_def)
    fix a b assume k: "kind ops a = kind ops b"
    then have "FAMILY_OBJ ops a = FAMILY_OBJ ops b" by (simp add: kind_def)
    with fits_kind [OF k] show "(FAMILY_OBJ ops x = FAMILY_OBJ ops a \<longrightarrow> fits ops (tnum p) x a) =
      (FAMILY_OBJ ops x = FAMILY_OBJ ops b \<longrightarrow> fits ops (tnum p) x b)" by simp
  qed (rule q2)
  have f: "fits ops (tnum s1) x y = fits ops (tnum p) x y" if "x \<in> objs p" for x y
    using RequireMutableSet_fits [OF s1(1)] that by blast
  have t: "type_ok ops r \<longleftrightarrow> (FN_IS_HOMOG \<in> set (claims (tnum s2)) \<longrightarrow>
      (\<forall>x \<in> objs p. \<forall>y \<in> objs q. FAMILY_OBJ ops x = FAMILY_OBJ ops y \<longrightarrow> fits ops (tnum p) x y))"
    using unite_type_ok [OF s1(2) s2(1) assms(3)] k f unfolding r_def o1 by simp
  have "\<not> immutable r"
    using s1(4) by (simp add: r_def unite_set_type_def RetypeBag_def)
  then show ?thesis using r h(1,2) s2(3,4) mem t pr q by (simp only: HAS_FILT_LIST_claims fst_conv) blast
qed

end
subsection \<open>Intersection and difference\<close>

context ordered_objects
begin

lemma mem_self: "x \<in> set xs \<Longrightarrow> set xs \<subseteq> D \<Longrightarrow> mem x xs"
  using EQ_refl unfolding mem_def by blast

lemma filter_kinds:
  assumes "set xs \<subseteq> D" "set ys \<subseteq> D" "zs = filter (\<lambda>x. mem x ys) xs \<or> zs = filter (\<lambda>y. mem y xs) ys"
  shows "set zs \<subseteq> D" "z \<in> set zs \<Longrightarrow> \<exists>x \<in> set xs. kind ops z = kind ops x"
    "z \<in> set zs \<Longrightarrow> \<exists>y \<in> set ys. kind ops z = kind ops y"
proof -
  show "set zs \<subseteq> D" using assms by auto
  have "z \<in> D \<and> mem z xs \<and> mem z ys" if "z \<in> set zs" for z
    using that assms mem_self [OF _ assms(1)] mem_self [OF _ assms(2)] by auto
  then show "z \<in> set zs \<Longrightarrow> \<exists>x \<in> set xs. kind ops z = kind ops x"
    "z \<in> set zs \<Longrightarrow> \<exists>y \<in> set ys. kind ops z = kind ops y"
    using mem_kind [OF _ assms(1)] mem_kind [OF _ assms(2)] by blast+
qed

text \<open>The fix-up shared by the intersection and the difference: short results, and a reset of the claim of inhomogeneity.\<close>

lemma short_type_ok:
  "type_ok ops (RetypeBag (p\<lparr>elms := []\<rparr>) (T_PLIST_EMPTY, False))"
  "IS_CYC ops z \<Longrightarrow> type_ok ops (RetypeBag (p\<lparr>elms := [Some z]\<rparr>) (T_PLIST_CYC_SSORT, False))"
  "type_ok ops (RetypeBag (p\<lparr>elms := [Some z]\<rparr>) (T_PLIST_HOM_SSORT, False))"
  by (auto simp: RetypeBag_def type_ok_def dense_def homog_def cyc_tnum_def entries_def)

lemma reset_type_ok:
  assumes "proper_set ops D p" "sorted_wrt (LT ops) zs" "\<And>z. z \<in> set zs \<Longrightarrow> \<exists>x \<in> set (entries p). kind ops z = kind ops x"
  shows "type_ok ops (RESET_FILT_LIST (p\<lparr>elms := map Some zs\<rparr>) FN_IS_NHOMOG)"
proof -
  have c: "g \<in> set (claims (tnum p)) \<and> g \<noteq> FN_IS_NHOMOG"
    if "g \<in> set (claims (tnum (RESET_FILT_LIST p FN_IS_NHOMOG)))" for g
    using RESET_FILT_LIST_claims(1) [OF that] .
  show ?thesis
    unfolding RESET_FILT_LIST_elms [symmetric]
    using c proper_claims(1) [OF assms(1)] assms(2,3) properD(3) [OF assms(1)]
    by (intro type_ok_kinds [OF type_ok_RESET [OF properD(1) [OF assms(1)]]]) auto
qed

lemma list_cases_length: obtains "zs = []" | z where "zs = [z]" | "2 \<le> length zs"
  by (cases zs rule: remdups_adj.cases) auto

lemma inter_type_ok:
  assumes "proper_set ops D s1" "proper_set ops D s2" "sorted_wrt (LT ops) zs"
    and "zs = filter (\<lambda>x. mem x (entries s2)) (entries s1) \<or> zs = filter (\<lambda>y. mem y (entries s1)) (entries s2)"
  shows "type_ok ops (inter_set_type ops (s1\<lparr>elms := map Some zs\<rparr>) s2)"
proof (cases rule: list_cases_length [of zs])
  case 1
  then show ?thesis using short_type_ok(1) [of s1] by (simp add: inter_set_type_def LEN_PLIST_def)
next
  case (2 z)
  then show ?thesis using short_type_ok(2,3) [of z s1]
    by (simp add: inter_set_type_def LEN_PLIST_def ELM_PLIST_def)
next
  case 3
  note P = properD [OF assms(1)] and Q = properD [OF assms(2)]
  note k = filter_kinds [OF P(5) Q(5) assms(4)]
  let ?r = "s1\<lparr>elms := map Some zs\<rparr>" and ?cyc = "{T_PLIST_CYC, T_PLIST_CYC_NSORT, T_PLIST_CYC_SSORT, T_PLIST_FFE}"
  show ?thesis
  proof (cases "tnum s2 \<in> ?cyc")
    case True
    then have "type_ok ops (s2\<lparr>elms := map Some zs\<rparr>)"
      using k(3) assms(3) proper_claims(1) [OF assms(2)] by (intro type_ok_kinds [OF Q(1,3)]) auto
    then have "type_ok ops (RetypeBag ?r (tnum s2, False))"
      using type_ok_cong [of "RetypeBag ?r (tnum s2, False)" "s2\<lparr>elms := map Some zs\<rparr>" ops] by (simp add: RetypeBag_def)
    moreover have "inter_set_type ops ?r s2 = RetypeBag ?r (tnum s2, False)"
      using True 3 by (simp only: inter_set_type_def LEN_PLIST_def) auto
    ultimately show ?thesis by simp
  next
    case False
    have h: "holds ops FN_IS_HOMOG (map Some zs)" if "FN_IS_HOMOG \<in> set (claims (tnum s2))"
    proof -
      note hom = homogD [OF proper_claims(3) [OF assms(2) that]]
      have "FAMILY_OBJ ops x = FAMILY_OBJ ops y" if x: "x \<in> set zs" and y: "y \<in> set zs" for x y
      proof -
        obtain a b where "a \<in> set (entries s2)" "b \<in> set (entries s2)" "kind ops x = kind ops a" "kind ops y = kind ops b"
          using k(3) [OF x] k(3) [OF y] by blast
        then show ?thesis using hom [of a b] by (simp add: kind_def)
      qed
      then show ?thesis unfolding holds_Some homog_def by blast
    qed
    have "type_ok ops (RESET_FILT_LIST ?r FN_IS_NHOMOG)" using reset_type_ok [OF assms(1,3) k(2)] .
    moreover have "holds ops FN_IS_SSORT (map Some zs)" using assms(3) by (simp only: holds_Some)
    moreover have "inter_set_type ops ?r s2 = (if FN_IS_HOMOG \<in> set (claims (tnum s2))
        then SET_FILT_LIST (SET_FILT_LIST (RESET_FILT_LIST ?r FN_IS_NHOMOG) FN_IS_HOMOG) FN_IS_SSORT
        else RESET_FILT_LIST ?r FN_IS_NHOMOG)"
      using False 3 by (simp only: inter_set_type_def LEN_PLIST_def HAS_FILT_LIST_claims Let_def) auto
    ultimately show ?thesis using h by (simp add: type_ok_SET del: holds.simps)
  qed
qed

lemma subtr_type_ok:
  assumes "proper_set ops D s1" "sorted_wrt (LT ops) zs" "set zs \<subseteq> set (entries s1)"
  shows "type_ok ops (subtr_set_type ops (s1\<lparr>elms := map Some zs\<rparr>))"
proof (cases rule: list_cases_length [of zs])
  case 1
  then show ?thesis using short_type_ok(1) [of s1] by (simp add: subtr_set_type_def LEN_PLIST_def)
next
  case (2 z)
  then show ?thesis using short_type_ok(2,3) [of z s1]
    by (simp add: subtr_set_type_def LEN_PLIST_def ELM_PLIST_def)
next
  case 3
  then show ?thesis using reset_type_ok [OF assms(1,2)] assms(3)
    by (simp only: subtr_set_type_def LEN_PLIST_def) auto
qed

text \<open>What the preparation of both arguments gives.\<close>

lemma two_sets:
  assumes "valid_list ops D p" "valid_list ops D q" "\<not> SyInitializing ops" "\<not> immutable p" "proper_set ops D p"
  obtains s1 s2 q' where "RequireMutableSet ops p = Inr s1" "as_set ops q = (s2, q')" "proper_set ops D s1"
    "proper_set ops D s2" "elms s1 = elms p" "\<not> immutable s1" "valid_list ops D q'" "elms q' = elms q"
    "\<And>x. x \<in> D \<Longrightarrow> mem x (entries s1) = member ops x p" "\<And>x. x \<in> D \<Longrightarrow> mem x (entries s2) = member ops x q"
proof -
  from RequireMutableSet_ok(2) [OF assms(1,3,4,5)] obtain s1 where
    s1: "RequireMutableSet ops p = Inr s1" "proper_set ops D s1" "elms s1 = elms p" "\<not> immutable s1" by blast
  obtain s2 q' where q: "as_set ops q = (s2, q')" by (metis surj_pair)
  note s2 = as_set_ok [OF assms(2,3) q]
  have "mem x (entries s1) = member ops x p" for x
    using member_proper [OF s1(2)] s1(3) by (simp add: member_def objs_def)
  moreover have "mem x (entries s2) = member ops x q" if "x \<in> D" for x
    using member_proper [OF s2(1)] s2(2) [OF that] by simp
  ultimately show ?thesis using that s1 q s2 by blast
qed

lemma FuncINTER_SET_ok:
  assumes "valid_list ops D p" "valid_list ops D q" "\<not> SyInitializing ops" "\<not> immutable p" "proper_set ops D p"
  shows "\<exists>r q'. FuncINTER_SET ops p q = Inr (r, q') \<and> proper_set ops D r \<and> \<not> immutable r \<and> valid_list ops D q' \<and>
    elms q' = elms q \<and> (\<forall>x \<in> D. member ops x r \<longleftrightarrow> member ops x p \<and> member ops x q)"
proof -
  obtain s1 s2 q' where s: "RequireMutableSet ops p = Inr s1" "as_set ops q = (s2, q')" "proper_set ops D s1"
    "proper_set ops D s2" "elms s1 = elms p" "\<not> immutable s1" "valid_list ops D q'" "elms q' = elms q"
    "\<And>x. x \<in> D \<Longrightarrow> mem x (entries s1) = member ops x p" "\<And>x. x \<in> D \<Longrightarrow> mem x (entries s2) = member ops x q"
    by (rule two_sets [OF assms]) blast
  note P = properD [OF s(3)] and Q = properD [OF s(4)]
  obtain es n where i: "inter_entries ops (elms s1) (elms s2) = (es, n)" by (metis surj_pair)
  then have "inter_entries ops (map Some (entries s1)) (map Some (entries s2)) = (es, n)" using P(6) Q(6) by simp
  from inter_entries_ok [OF P(5) Q(5) P(4) Q(4) this] obtain zs where zs: "take n es = map Some zs"
    "zs = filter (\<lambda>x. mem x (entries s2)) (entries s1) \<or> zs = filter (\<lambda>y. mem y (entries s1)) (entries s2)" by blast
  have srt: "sorted_wrt (LT ops) zs" using zs(2) filter_sorted P(4) Q(4) by blast
  define r where "r = inter_set_type ops (s1\<lparr>elms := map Some zs\<rparr>) s2"
  have r: "FuncINTER_SET ops p q = Inr (r, q')" using s(1,2) i zs(1) by (simp add: FuncINTER_SET_def r_def)
  have re: "elms r = map Some zs" "\<not> immutable r"
    using s(6) by (simp_all add: r_def inter_set_type_def RetypeBag_def Let_def)
  have "set zs \<subseteq> D" by (rule filter_kinds(1) [OF P(5) Q(5) zs(2)])
  then have pr: "proper_set ops D r"
    using inter_type_ok [OF s(3,4) srt zs(2)] srt re(1) unfolding r_def by (intro properI)
  have "entries r = zs" by (simp add: re(1) entries_def comp_def)
  moreover have "mem x zs \<longleftrightarrow> mem x (entries s1) \<and> mem x (entries s2)" if "x \<in> D" for x
    using zs(2) mem_filter_mem(1) [OF P(5) Q(5) that] mem_filter_mem(1) [OF Q(5) P(5) that] by metis
  ultimately have "member ops x r \<longleftrightarrow> member ops x p \<and> member ops x q" if "x \<in> D" for x
    using member_proper [OF pr] s(9,10) [OF that] that by simp
  then show ?thesis using r pr re(2) s(7,8) by blast
qed

lemma FuncSUBTR_SET_ok:
  assumes "valid_list ops D p" "valid_list ops D q" "\<not> SyInitializing ops" "\<not> immutable p" "proper_set ops D p"
  shows "\<exists>r q'. FuncSUBTR_SET ops p q = Inr (r, q') \<and> proper_set ops D r \<and> \<not> immutable r \<and> valid_list ops D q' \<and>
    elms q' = elms q \<and> (\<forall>x \<in> D. member ops x r \<longleftrightarrow> member ops x p \<and> \<not> member ops x q)"
proof -
  obtain s1 s2 q' where s: "RequireMutableSet ops p = Inr s1" "as_set ops q = (s2, q')" "proper_set ops D s1"
    "proper_set ops D s2" "elms s1 = elms p" "\<not> immutable s1" "valid_list ops D q'" "elms q' = elms q"
    "\<And>x. x \<in> D \<Longrightarrow> mem x (entries s1) = member ops x p" "\<And>x. x \<in> D \<Longrightarrow> mem x (entries s2) = member ops x q"
    by (rule two_sets [OF assms]) blast
  note P = properD [OF s(3)] and Q = properD [OF s(4)]
  let ?zs = "filter (\<lambda>x. \<not> mem x (entries s2)) (entries s1)"
  obtain es n where i: "subtr_entries ops (elms s1) (elms s2) = (es, n)" by (metis surj_pair)
  then have "subtr_entries ops (map Some (entries s1)) (map Some (entries s2)) = (es, n)" using P(6) Q(6) by simp
  note zs = subtr_entries_ok [OF P(5) Q(5) P(4) Q(4) this]
  have srt: "sorted_wrt (LT ops) ?zs" using filter_sorted P(4) by blast
  define r where "r = subtr_set_type ops (s1\<lparr>elms := map Some ?zs\<rparr>)"
  have r: "FuncSUBTR_SET ops p q = Inr (r, q')" using s(1,2) i zs by (simp add: FuncSUBTR_SET_def r_def)
  have re: "elms r = map Some ?zs" "\<not> immutable r" using s(6) by (simp_all add: r_def subtr_set_type_def RetypeBag_def)
  have "set ?zs \<subseteq> D" using P(5) by auto
  then have pr: "proper_set ops D r"
    using subtr_type_ok [OF s(3) srt] srt re(1) unfolding r_def by (intro properI) auto
  have "entries r = ?zs" by (simp add: re(1) entries_def comp_def)
  then have "member ops x r \<longleftrightarrow> member ops x p \<and> \<not> member ops x q" if "x \<in> D" for x
    using that member_proper [OF pr] s(9,10) [OF that] mem_filter_mem(2) [OF P(5) Q(5) that] by simp
  then show ?thesis using r pr re(2) s(7,8) by blast
qed

end
subsection \<open>Adding and removing an element\<close>

lemma move_up:
  "(SyMemmove (map Some (us @ ws) @ [None]) (length us + 1) (length us) (length ws))[length us := Some x]
   = map Some (us @ x # ws)"
  by (simp add: SyMemmove_def list_update_append take_Cons' split: nat.split) (cases ws; simp add: list_update_append)

lemma move_down:
  "take (length us + length ws)
     ((SyMemmove (map Some (us @ v # ws)) (length us) (length us + 1) (length ws))[length us + length ws := None])
   = map Some (us @ ws)"
  by (simp add: SyMemmove_def)

context ordered_objects
begin

text \<open>Where the binary search ends: at an equal entry, or between the smaller and the larger ones.\<close>

lemma position_cases:
  assumes "proper_set ops D p" "x \<in> D"
  defines "pos \<equiv> PositionSortedDensePlist ops p x"
  obtains (found) us v ws where "entries p = us @ v # ws" "pos = length us + 1" "pos \<le> LEN_PLIST p"
      "EQ ops (the (ELM_PLIST p pos)) x" "EQ ops v x" "\<forall>u \<in> set us. LT ops u x" "\<forall>w \<in> set ws. LT ops x w"
  | (new) us ws where "entries p = us @ ws" "pos = length us + 1"
      "LEN_PLIST p < pos \<or> \<not> EQ ops (the (ELM_PLIST p pos)) x" "\<forall>u \<in> set us. LT ops u x" "\<forall>w \<in> set ws. LT ops x w"
proof -
  note P = properD [OF assms(1)]
  have w: "sorted_wrt (\<lambda>a b. \<not> LT ops b a) (entries p)" using strict_sorted_weak [OF P(4,5)] .
  note pos = PositionSortedDensePlist_ok [OF P(2,3) assms(2) w, folded pos_def]
  define us vs where "us = take (pos - 1) (entries p)" and "vs = drop (pos - 1) (entries p)"
  have e: "entries p = us @ vs" "pos = length us + 1" using pos(1,2) by (simp_all add: us_def vs_def)
  have D: "set us \<subseteq> D" "set vs \<subseteq> D" using P(5) e by auto
  have us: "LT ops u x" if u: "u \<in> set us" for u
  proof -
    obtain i where "i < length us" "us ! i = u" using u by (metis in_set_conv_nth)
    then show ?thesis using pos(3) [of "i + 1"] pos(2) e entries_nth [of "i + 1" p] by (simp add: nth_append)
  qed
  show ?thesis
  proof (cases vs)
    case Nil
    then have "LEN_PLIST p < pos" using e length_entries [of p] by simp
    then show ?thesis using new [of us vs] e us Nil by simp
  next
    case (Cons v ws)
    have le: "pos \<le> LEN_PLIST p" using e Cons length_entries [of p] by simp
    have v: "the (ELM_PLIST p pos) = v" using entries_nth [OF pos(1) le] e Cons by simp
    have nl: "\<not> LT ops v x" using pos(3) [OF pos(1) le] v by simp
    have ws: "LT ops v w" if "w \<in> set ws" for w using that P(4) e(1) Cons by (simp add: sorted_wrt_append)
    have vD: "v \<in> D" using D Cons by simp
    have gt: "LT ops x w" if "w \<in> set ws" for w
      using ws [OF that] nl not_lt_trans [of x v w] lt_asym D(2) Cons that vD assms(2)
      by (metis EQ_iff LT_EQ(1) insert_subset list.simps(15) lt_trans subsetD)
    show ?thesis
    proof (cases "EQ ops v x")
      case True
      then show ?thesis using found [of us v ws] e Cons le v us gt by simp
    next
      case False
      then have "LT ops x v" using EQ_iff [OF vD assms(2)] nl by blast
      then show ?thesis using new [of us vs] e Cons v us gt False by simp
    qed
  qed
qed

lemma insert_sorted:
  assumes "set (us @ ws) \<subseteq> D" "x \<in> D" "sorted_wrt (LT ops) (us @ ws)" "\<forall>u \<in> set us. LT ops u x" "\<forall>w \<in> set ws. LT ops x w"
  shows "sorted_wrt (LT ops) (us @ x # ws)"
  using assms by (auto simp: sorted_wrt_append)

lemma delete_members:
  assumes "set (us @ v # ws) \<subseteq> D" "x \<in> D" "EQ ops v x" "\<forall>u \<in> set us. LT ops u x" "\<forall>w \<in> set ws. LT ops x w" "z \<in> D"
  shows "mem z (us @ ws) \<longleftrightarrow> mem z (us @ v # ws) \<and> \<not> EQ ops z x"
proof -
  have vD: "v \<in> D" using assms(1) by simp
  have n: "\<not> mem x (us @ ws)"
    using assms(1,2,4,5) EQ_iff by (auto simp: mem_def)
  have "EQ ops z v = EQ ops z x"
    using EQ_trans [of z v x] EQ_trans [of z x v] EQ_sym [of v x] assms(2,3,6) vD by blast
  moreover have "EQ ops z x \<Longrightarrow> \<not> mem z (us @ ws)" using n mem_cong [of "us @ ws" z x] assms(1,2,6) by auto
  ultimately show ?thesis by (auto simp: mem_append mem_Cons)
qed

lemma FuncREM_SET_ok:
  assumes "valid_list ops D p" "\<not> SyInitializing ops" "\<not> immutable p" "proper_set ops D p" "x \<in> D"
  shows "\<exists>r. FuncREM_SET ops p x = Inr r \<and> \<not> immutable r \<and> objs r \<subseteq> D \<and> holds ops FN_IS_SSORT (elms r) \<and>
    (\<forall>z \<in> D. member ops z r \<longleftrightarrow> member ops z p \<and> \<not> EQ ops z x) \<and>
    (proper_set ops D r \<longleftrightarrow>
      \<not> (HAS_FILT_LIST (fst (IsSet ops p)) FN_IS_NHOMOG \<and> elms r \<noteq> [] \<and> homog ops (entries r)))"
proof -
  from RequireMutableSet_ok(2) [OF assms(1-4)] obtain s1 where
    s1: "RequireMutableSet ops p = Inr s1" "proper_set ops D s1" "elms s1 = elms p" "\<not> immutable s1" by blast
  note i1 = RequireMutableSet_IsSet [OF s1(1)]
  note P = properD [OF s1(2)]
  have mp: "member ops z p = mem z (entries s1)" "entries p = entries s1" for z
    using member_proper [OF s1(2)] s1(3) by (simp_all add: member_def objs_def entries_def)
  let ?pos = "PositionSortedDensePlist ops s1 x"
  from s1(2) assms(5) show ?thesis
  proof (cases rule: position_cases)
    case (found us v ws)
    define r where "r = (if us @ ws = [] then RetypeBag (s1\<lparr>elms := []\<rparr>) (T_PLIST_EMPTY, False)
        else s1\<lparr>elms := map Some (us @ ws)\<rparr>)"
    have len: "LEN_PLIST s1 = length us + length ws + 1" using found(1) length_entries [of s1] by simp
    have mv: "take (LEN_PLIST s1 - 1) ((SyMemmove (elms s1) (?pos - 1) ?pos (LEN_PLIST s1 - ?pos))[LEN_PLIST s1 - 1 := None])
        = map Some (us @ ws)"
      using move_down [of us ws v] P(6) found(1,2) len by simp
    have r: "FuncREM_SET ops p x = Inr r"
      using s1(1) found(3,4) mv len by (simp add: FuncREM_SET_def Let_def r_def SET_ELM_PLIST_def)
    have re: "elms r = map Some (us @ ws)" "\<not> immutable r" using s1(4) by (auto simp: r_def RetypeBag_def)
    have en: "entries r = us @ ws" "set (us @ ws) \<subseteq> D"
      using P(5) re(1) unfolding found(1) by (simp_all add: entries_def comp_def)
    have srt: "sorted_wrt (LT ops) (us @ ws)" using P(4) found(1) by (simp add: sorted_wrt_append)
    have t: "type_ok ops r \<longleftrightarrow> \<not> (FN_IS_NHOMOG \<in> set (claims (tnum s1)) \<and> us @ ws \<noteq> [] \<and> homog ops (us @ ws))"
    proof (cases "us @ ws = []")
      case True
      then show ?thesis using short_type_ok(1) by (simp add: r_def)
    next
      case False
      have "type_ok ops (s1\<lparr>elms := map Some (us @ ws)\<rparr>)"
        if "FN_IS_NHOMOG \<in> set (claims (tnum s1)) \<longrightarrow> \<not> homog ops (us @ ws)"
        using that found(1) srt proper_claims(1) [OF s1(2)] by (intro type_ok_kinds [OF P(1,3)]) auto
      moreover have "\<not> homog ops (us @ ws)"
        if "type_ok ops (s1\<lparr>elms := map Some (us @ ws)\<rparr>)" "FN_IS_NHOMOG \<in> set (claims (tnum s1))"
        using type_ok_claims [OF that(1), of FN_IS_NHOMOG] that(2) unfolding holds_Some by (simp add: holds_Some)
      ultimately show ?thesis using False by (auto simp: r_def)
    qed
    then have "proper_set ops D r \<longleftrightarrow>
        \<not> (HAS_FILT_LIST (fst (IsSet ops p)) FN_IS_NHOMOG \<and> elms r \<noteq> [] \<and> homog ops (entries r))"
      using properI [OF _ re(1) srt en(2)] properD(1) [of r] i1 re(1) en(1) by auto
    moreover have h: "holds ops FN_IS_SSORT (elms r)" "objs r \<subseteq> D"
      using srt re(1) en(2) holds_Some(4) [of ops "us @ ws"] by (auto simp: objs_def simp del: holds.simps)
    moreover have "member ops z r \<longleftrightarrow> member ops z p \<and> \<not> EQ ops z x" if "z \<in> D" for z
    proof -
      have "dense (elms r)" unfolding re(1) by (rule holds_Some(1))
      then show ?thesis using delete_members [of us v ws x z] P(5) found(1,5-7) assms(5) that mp(1)
        by (simp add: member_mem en(1))
    qed
    ultimately show ?thesis using r re(2) by blast
  next
    case (new us ws)
    have "\<not> mem x (entries s1)" using new P(5) assms(5) EQ_iff by (fastforce simp: mem_def)
    then have "\<not> EQ ops z x" if "z \<in> D" "mem z (entries s1)" for z
      using mem_cong [OF P(5) that(1) assms(5)] that by blast
    moreover have "FuncREM_SET ops p x = Inr s1" using s1(1) new(3) by (auto simp: FuncREM_SET_def Let_def)
    moreover have "\<not> (HAS_FILT_LIST (fst (IsSet ops p)) FN_IS_NHOMOG \<and> homog ops (entries s1))"
      using proper_claims(4) [OF s1(2)] i1 by auto
    ultimately show ?thesis using s1 member_proper [OF s1(2)] mp(1)
      by (auto simp: proper_set_def simp del: holds.simps HAS_FILT_LIST_claims)
  qed
qed

end

text \<open>
  Where \<open>FuncADD_SET\<close> claims inhomogeneity wrongly: the type of the set says that its entries are cyclotomics
  of the kernel, and the new immutable object is none of them but lies in their family, as \<open>infinity\<close> does.
\<close>

definition false_nhomog :: "'a objops \<Rightarrow> 'a plist \<Rightarrow> 'a \<Rightarrow> bool" where
  "false_nhomog ops s x \<longleftrightarrow> tnum s = T_PLIST_CYC_SSORT \<and> \<not> IS_CYC ops x \<and> \<not> IS_MUTABLE_OBJ ops x \<and>
     (\<exists>y \<in> set (entries s). FAMILY_OBJ ops y = FAMILY_OBJ ops x)"

lemma RESET_DENSE:
  assumes "tnum p = T_PLIST_DENSE"
  shows "RESET_FILT_LIST p FN_IS_HOMOG = p"
proof -
  obtain t' where t': "RESET_FILT_LIST p FN_IS_HOMOG = p\<lparr>tnum := t'\<rparr>" "set (claims t') = kept_claims (tnum p) FN_IS_HOMOG"
    "same_kind (tnum p) t' \<or>
     same_kind T_PLIST t' \<and> (\<nexists>u. same_kind (tnum p) u \<and> set (claims u) = kept_claims (tnum p) FN_IS_HOMOG)"
    by (rule RESET_FILT_LIST_exact)
  then have "same_kind T_PLIST_DENSE t'" "set (claims T_PLIST_DENSE) = set (claims t')"
    using assms by (auto simp: kept_claims_def same_kind_def cyc_tnum_def)
  then have "t' = T_PLIST_DENSE" using claims_of_kind by blast
  then show ?thesis using t'(1) assms by simp
qed

context cyclotomic_objects
begin

lemma add_type_ok:
  assumes "proper_set ops D s" "x \<in> D" "\<not> SyInitializing ops" "sorted_wrt (LT ops) zs"
    and "set zs = insert x (set (entries s))" "LEN_PLIST s = 0 \<Longrightarrow> zs = [x]"
    and "LEN_PLIST s \<noteq> 0 \<Longrightarrow> the (ELM_PLIST (s\<lparr>elms := map Some zs\<rparr>) (if pos = 1 then 2 else 1)) \<in> set (entries s)"
    and "\<not> immutable s"
  shows "type_ok ops (add_set_type ops (s\<lparr>elms := map Some zs\<rparr>) (LEN_PLIST s) pos x) \<longleftrightarrow> \<not> false_nhomog ops s x"
proof -
  note P = properD [OF assms(1)]
  let ?s = "s\<lparr>elms := map Some zs\<rparr>"
  define c where "c = SET_FILT_LIST (CLEAR_FILTS_LIST ?s) FN_IS_DENSE"
  have c: "type_ok ops c" "elms c = map Some zs"
    by (simp_all add: c_def type_ok_SET type_ok_T_PLIST holds_Some(2) del: holds.simps)
  have el: "ELM_PLIST c i = ELM_PLIST ?s i" for i using c(2) by (simp add: ELM_PLIST_def)
  have D: "set zs \<subseteq> D" using assms(2,5) P(5) by auto
  define notpos where "notpos = (if pos = 1 then 2 else (1::nat))"
  let ?y = "the (ELM_PLIST ?s notpos)"
  have y: "?y \<in> set (entries s)" if "LEN_PLIST s \<noteq> 0" using assms(7) that by (simp add: notpos_def)
  have ssort: "holds ops FN_IS_SSORT (map Some zs)" using assms(4) by (simp only: holds_Some)
  have nhom: "holds ops FN_IS_NHOMOG (map Some zs)" if "\<not> homog ops (entries s)"
    unfolding holds_Some using not_homog_mem [OF that P(5) D] mem_self [OF _ D] assms(5) by blast
  have cyc: "type_ok ops (RetypeBag c (T_PLIST_CYC_SSORT, False))" if "\<forall>z \<in> set zs. IS_CYC ops z"
  proof -
    have "homog ops zs" using that cyc_family D unfolding homog_def by blast
    then show ?thesis using that c(2) assms(4) unfolding type_ok_def RetypeBag_def entries_def
      by (simp add: holds_Some cyc_tnum_def comp_def del: holds.simps)
  qed
  have hom: "homog ops zs" if "LEN_PLIST s \<noteq> 0" "homog ops (entries s)" "FAMILY_OBJ ops ?y = FAMILY_OBJ ops x"
    unfolding homog_def
  proof (intro ballI)
    fix a b assume "a \<in> set zs" "b \<in> set zs"
    then have "FAMILY_OBJ ops a = FAMILY_OBJ ops ?y" "FAMILY_OBJ ops b = FAMILY_OBJ ops ?y"
      using assms(5) homogD [OF that(2) _ y [OF that(1)]] that(3) by auto
    then show "FAMILY_OBJ ops a = FAMILY_OBJ ops b" by simp
  qed
  have nh2: "holds ops FN_IS_NHOMOG (map Some zs)" if "LEN_PLIST s \<noteq> 0" "FAMILY_OBJ ops ?y \<noteq> FAMILY_OBJ ops x"
    unfolding holds_Some using homogD [of ops zs ?y x] that y [OF that(1)] assms(5) by blast
  define t where "t = (if \<not> IS_MUTABLE_OBJ ops x then
                 if LEN_PLIST s = 0 then
                   if IS_CYC ops x then RetypeBag c (T_PLIST_CYC_SSORT, False)
                   else
                     let s = SET_FILT_LIST (SET_FILT_LIST c FN_IS_HOMOG) FN_IS_SSORT
                     in if IS_HOMOG_LIST ops x then SET_FILT_LIST s FN_IS_TABLE else s
                 else if TNUM_OBJ ?s = (T_PLIST_CYC_SSORT, False) then
                   if IS_CYC ops x then RetypeBag c (T_PLIST_CYC_SSORT, False)
                   else SET_FILT_LIST (RESET_FILT_LIST c FN_IS_HOMOG) FN_IS_NHOMOG
                 else if HAS_FILT_LIST s FN_IS_HOMOG then
                   if FAMILY_OBJ ops ?y = FAMILY_OBJ ops x then
                     let s' = SET_FILT_LIST c FN_IS_HOMOG
                     in if HAS_FILT_LIST s FN_IS_TABLE \<and> IS_HOMOG_LIST ops x then SET_FILT_LIST s' FN_IS_TABLE else s'
                   else SET_FILT_LIST c FN_IS_NHOMOG
                 else if HAS_FILT_LIST s FN_IS_NHOMOG then SET_FILT_LIST c FN_IS_NHOMOG
                 else c
               else c)"
  have eq: "add_set_type ops ?s (LEN_PLIST s) pos x =
      (if HAS_FILT_LIST s FN_IS_SSORT then SET_FILT_LIST t FN_IS_SSORT else c)"
    using assms(3) by (simp add: add_set_type_def t_def c_def [symmetric] notpos_def el Let_def del: CLEAR_FILTS_LIST_simp)
  have et: "elms t = map Some zs" using c(2) by (simp add: t_def RetypeBag_def Let_def)
  have good: "type_ok ops t" if ok: "\<not> false_nhomog ops s x"
  proof -
    have homT: "holds ops FN_IS_HOMOG (map Some zs)" "FN_IS_TABLE \<in> set (claims (tnum s)) \<Longrightarrow> IS_HOMOG_LIST ops x \<Longrightarrow>
        holds ops FN_IS_TABLE (map Some zs)"
      if l: "LEN_PLIST s \<noteq> 0" and h: "FN_IS_HOMOG \<in> set (claims (tnum s))" and f: "FAMILY_OBJ ops ?y = FAMILY_OBJ ops x"
    proof -
      have h': "homog ops zs" by (rule hom [OF l proper_claims(3) [OF assms(1) h] f])
      then show "holds ops FN_IS_HOMOG (map Some zs)" by (simp only: holds_Some)
      assume t: "FN_IS_TABLE \<in> set (claims (tnum s))" and x: "IS_HOMOG_LIST ops x"
      have "holds ops FN_IS_TABLE (map Some (entries s))" using type_ok_claims [OF P(1) t] P(6) by simp
      then have "\<forall>z \<in> set (entries s). IS_HOMOG_LIST ops z" unfolding holds_Some by blast
      then show "holds ops FN_IS_TABLE (map Some zs)" unfolding holds_Some using h' x assms(5) by simp
    qed
    note SET = type_ok_SET type_ok_RESET c(2)
    show ?thesis
    proof (cases "IS_MUTABLE_OBJ ops x")
      case True
      then show ?thesis using c by (simp add: t_def)
    next
      case im: False
      show ?thesis
      proof (cases "LEN_PLIST s = 0")
        case True
        then have z: "zs = [x]" by (rule assms(6))
        then have "holds ops FN_IS_HOMOG (map Some zs)" "IS_HOMOG_LIST ops x \<Longrightarrow> holds ops FN_IS_TABLE (map Some zs)"
          unfolding holds_Some by (simp_all add: homog_def)
        then show ?thesis using True im cyc ssort c(1) z
          by (simp add: t_def Let_def SET del: holds.simps)
      next
        case l: False
        show ?thesis
        proof (cases "tnum s = T_PLIST_CYC_SSORT \<and> \<not> immutable s")
          case t: True
          have e: "\<forall>z \<in> set (entries s). IS_CYC ops z" using P(1) t unfolding type_ok_def by (simp add: cyc_tnum_def)
          show ?thesis
          proof (cases "IS_CYC ops x")
            case True
            then have "\<forall>z \<in> set zs. IS_CYC ops z" using e assms(5) by simp
            from cyc [OF this] show ?thesis using True im l t by (simp add: t_def TNUM_OBJ_def)
          next
            case False
            have "FAMILY_OBJ ops ?y \<noteq> FAMILY_OBJ ops x"
              using ok False t im y [OF l] by (auto simp: false_nhomog_def)
            then have "holds ops FN_IS_NHOMOG (map Some zs)" by (rule nh2 [OF l])
            then show ?thesis using False im l t c(1) by (simp add: t_def TNUM_OBJ_def SET del: holds.simps)
          qed
        next
          case nt: False
          have tn: "TNUM_OBJ ?s \<noteq> (T_PLIST_CYC_SSORT, False)" using nt by (auto simp: TNUM_OBJ_def)
          show ?thesis
          proof (cases "FN_IS_HOMOG \<in> set (claims (tnum s))")
            case True
            then show ?thesis using im l tn homT [OF l True] nh2 [OF l] c(1)
              by (simp add: t_def Let_def SET del: holds.simps)
          next
            case nh: False
            then show ?thesis using im l tn nhom [OF proper_claims(4) [OF assms(1)]] c(1)
              by (simp add: t_def SET del: holds.simps)
          qed
        qed
      qed
    qed
  qed
  have bad: "\<not> type_ok ops (add_set_type ops ?s (LEN_PLIST s) pos x)" if no: "false_nhomog ops s x"
  proof -
    have t: "tnum s = T_PLIST_CYC_SSORT" "\<not> IS_CYC ops x" "\<not> IS_MUTABLE_OBJ ops x"
      using no by (simp_all add: false_nhomog_def)
    obtain y0 where y0: "y0 \<in> set (entries s)" "FAMILY_OBJ ops y0 = FAMILY_OBJ ops x"
      using no by (auto simp: false_nhomog_def)
    then have l: "LEN_PLIST s \<noteq> 0" by (auto simp: LEN_PLIST_def entries_def)
    have h: "homog ops (entries s)" using proper_claims(3) [OF assms(1)] t(1) by simp
    have "homog ops zs" unfolding homog_def
    proof (intro ballI)
      fix a b assume "a \<in> set zs" "b \<in> set zs"
      then have "FAMILY_OBJ ops a = FAMILY_OBJ ops x" "FAMILY_OBJ ops b = FAMILY_OBJ ops x"
        using assms(5) homogD [OF h _ y0(1)] y0(2) by auto
      then show "FAMILY_OBJ ops a = FAMILY_OBJ ops b" by simp
    qed
    then have nh: "\<not> holds ops FN_IS_NHOMOG (map Some zs)" unfolding holds_Some by blast
    have "adds_claim T_PLIST FN_IS_DENSE T_PLIST_DENSE" "adds_claim T_PLIST_DENSE FN_IS_NHOMOG T_PLIST_DENSE_NHOM"
      by (auto simp: adds_claim_def same_kind_def cyc_tnum_def)
    note add = this
    have ct: "tnum c = T_PLIST_DENSE"
      using SET_FILT_LIST_exact(1) [of "?s\<lparr>tnum := T_PLIST\<rparr>"] add(1) by (simp add: c_def)
    have rs: "tnum (RESET_FILT_LIST c FN_IS_HOMOG) = T_PLIST_DENSE" using RESET_DENSE [OF ct] ct by simp
    have "t = SET_FILT_LIST (RESET_FILT_LIST c FN_IS_HOMOG) FN_IS_NHOMOG"
      using t l assms(8) by (simp add: t_def TNUM_OBJ_def)
    then have "tnum t = T_PLIST_DENSE_NHOM"
      using SET_FILT_LIST_exact(1) [of "RESET_FILT_LIST c FN_IS_HOMOG" FN_IS_NHOMOG] add(2) rs by simp
    then have "FN_IS_NHOMOG \<in> set (claims (tnum t))" by simp
    then have "FN_IS_NHOMOG \<in> set (claims (tnum (add_set_type ops ?s (LEN_PLIST s) pos x)))"
      unfolding eq using t(1) SET_FILT_LIST_claims(2) by simp
    moreover have "elms (add_set_type ops ?s (LEN_PLIST s) pos x) = map Some zs" unfolding eq using et c(2) by simp
    ultimately show ?thesis using type_ok_claims nh by metis
  qed
  show ?thesis
  proof (cases "false_nhomog ops s x")
    case True
    then show ?thesis using bad by blast
  next
    case False
    then show ?thesis unfolding eq using good c(1) ssort et by (simp add: type_ok_SET del: holds.simps)
  qed
qed


lemma FuncADD_SET_ok:
  assumes "valid_list ops D p" "\<not> SyInitializing ops" "\<not> immutable p" "proper_set ops D p" "x \<in> D"
  shows "\<exists>r. FuncADD_SET ops p x = Inr r \<and> \<not> immutable r \<and> objs r \<subseteq> D \<and> holds ops FN_IS_SSORT (elms r) \<and>
    (\<forall>z \<in> D. member ops z r \<longleftrightarrow> member ops z p \<or> EQ ops z x) \<and> (member ops x p \<longrightarrow> elms r = elms p) \<and>
    (proper_set ops D r \<longleftrightarrow> \<not> false_nhomog ops (fst (IsSet ops p)) x)"
proof -
  from RequireMutableSet_ok(2) [OF assms(1-4)] obtain s1 where
    s1: "RequireMutableSet ops p = Inr s1" "proper_set ops D s1" "elms s1 = elms p" "\<not> immutable s1" by blast
  note i1 = RequireMutableSet_IsSet [OF s1(1)]
  note P = properD [OF s1(2)]
  have mp: "member ops z p = mem z (entries s1)" for z
    using member_proper [OF s1(2)] s1(3) by (simp add: member_def objs_def)
  let ?pos = "PositionSortedDensePlist ops s1 x"
  from s1(2) assms(5) show ?thesis
  proof (cases rule: position_cases)
    case (found us v ws)
    have "\<not> LEN_PLIST s1 < ?pos" using found(3) by simp
    then have "FuncADD_SET ops p x = Inr s1" using s1(1) found(4) by (simp add: FuncADD_SET_def Let_def)
    moreover have "mem x (entries s1)" using found(1,5) EQ_sym [of v x] P(5) assms(5) by (simp add: mem_append mem_Cons)
    then have "EQ ops z x \<Longrightarrow> mem z (entries s1)" if "z \<in> D" for z
      using mem_cong [OF P(5) that assms(5)] by blast
    moreover have "\<not> false_nhomog ops s1 x"
    proof
      assume n: "false_nhomog ops s1 x"
      obtain y where "y \<in> set (entries s1)" "kind ops x = kind ops y" using mem_kind [OF assms(5) P(5) \<open>mem x (entries s1)\<close>] by blast
      then show False using n P(1) unfolding false_nhomog_def type_ok_def by (simp add: kind_def cyc_tnum_def)
    qed
    ultimately show ?thesis using s1 member_proper [OF s1(2)] mp i1 by (auto simp: proper_set_def simp del: holds.simps)
  next
    case (new us ws)
    let ?zs = "us @ x # ws"
    have D: "set (us @ ws) \<subseteq> D" "set ?zs \<subseteq> D" using P(5) assms(5) unfolding new(1) by simp_all
    have srt: "sorted_wrt (LT ops) ?zs" using insert_sorted [OF D(1) assms(5) _ new(4,5)] P(4) new(1) by simp
    have len: "LEN_PLIST s1 = length us + length ws" using new(1) length_entries [of s1] by simp
    have mv: "(SyMemmove (elms s1 @ [None]) ?pos (?pos - 1) (LEN_PLIST s1 + 1 - ?pos))[?pos - 1 := Some x] = map Some ?zs"
      using move_up [of us ws x] P(6) new(1,2) len by simp
    define r where "r = add_set_type ops (s1\<lparr>elms := map Some ?zs\<rparr>) (LEN_PLIST s1) ?pos x"
    have r: "FuncADD_SET ops p x = Inr r"
      using s1(1) new(3) mv by (auto simp: FuncADD_SET_def Let_def r_def SET_ELM_PLIST_def)
    have re: "elms r = map Some ?zs" "\<not> immutable r"
      using s1(4) by (simp_all add: r_def add_set_type_def RetypeBag_def Let_def)
    have t: "type_ok ops r \<longleftrightarrow> \<not> false_nhomog ops s1 x" unfolding r_def
    proof (rule add_type_ok [OF s1(2) assms(5,2) srt])
      show "set ?zs = insert x (set (entries s1))" unfolding new(1) by auto
      show "LEN_PLIST s1 = 0 \<Longrightarrow> ?zs = [x]" using len by simp
      show "the (ELM_PLIST (s1\<lparr>elms := map Some ?zs\<rparr>) (if ?pos = 1 then 2 else 1)) \<in> set (entries s1)"
        if "LEN_PLIST s1 \<noteq> 0"
        using that len new(1,2) by (cases us; cases ws) (auto simp: ELM_PLIST_def)
      show "\<not> immutable s1" by (rule s1(4))
    qed
    have pr: "proper_set ops D r \<longleftrightarrow> type_ok ops r" using properI [OF _ re(1) srt D(2)] properD(1) by blast
    have h: "holds ops FN_IS_SSORT (elms r)" "objs r \<subseteq> D"
      using srt re(1) D(2) holds_Some(4) [of ops ?zs] by (auto simp: objs_def simp del: holds.simps)
    have en: "entries r = ?zs" unfolding entries_def re(1) by (simp add: comp_def)
    have "dense (elms r)" unfolding re(1) by (rule holds_Some(1))
    then have "member ops z r \<longleftrightarrow> member ops z p \<or> EQ ops z x" for z
      unfolding member_mem [OF \<open>dense (elms r)\<close>] mp en new(1) by (auto simp: mem_append mem_Cons)
    moreover have "\<not> mem x (entries s1)" using new D(1) assms(5) EQ_iff by (fastforce simp: mem_def)
    ultimately show ?thesis using r re(2) pr t h mp i1 by blast
  qed
qed

end

end
