(* ===== verification/ListSpec.thy ===== *)
theory ListSpec
  imports SetOps
begin

text \<open>
  What the operations on plain lists and proper sets promise, over any objects that obey the laws of the
  locales \<open>ordered_objects\<close> and \<open>cyclotomic_objects\<close>, with the rational numbers as the instance of the witnesses; and
  the cases in which the types that the operations leave are not true.
\<close>

subsection \<open>Sets as an abstraction of lists\<close>

text \<open>The objects of \<open>D\<close> that are equal to an entry: the set a list stands for.\<close>

definition members :: "'a objops \<Rightarrow> 'a set \<Rightarrow> 'a plist \<Rightarrow> 'a set" where
  "members ops D p = {x \<in> D. member ops x p}"

text \<open>The errors of the handlers that want a mutable proper set.\<close>

definition not_mutable_set :: string where
  "not_mutable_set = ''must be a mutable proper set''"

subsection \<open>Rational numbers as objects\<close>

abbreviation rats :: "gaprat objops" where
  "rats \<equiv> rat_ops gmp_ref"

abbreviation valid_rats :: "gaprat set" where
  "valid_rats \<equiv> {x. valid_rat x}"

lemmas rats_ordered = gmp_ref.rats.ordered_objects_axioms

definition small :: "int \<Rightarrow> gaprat" where
  "small i = RInt (INTOBJ i)"

lemma small_in_range [simp]: "\<bar>i\<bar> < 1000 \<Longrightarrow> i \<in> small_range"
  by (auto simp: small_range_iff)

lemma small_rat [simp]:
  "\<bar>i\<bar> < 1000 \<Longrightarrow> valid_rat (small i)" "\<bar>i\<bar> < 1000 \<Longrightarrow> rat_val (small i) = of_int i"
  by (simp_all add: small_def valid_rat_def rat_val_def)

lemma small_ops [simp]:
  "\<bar>i\<bar> < 1000 \<Longrightarrow> \<bar>j\<bar> < 1000 \<Longrightarrow> LT rats (small i) (small j) \<longleftrightarrow> i < j"
  "\<bar>i\<bar> < 1000 \<Longrightarrow> \<bar>j\<bar> < 1000 \<Longrightarrow> EQ rats (small i) (small j) \<longleftrightarrow> i = j"
  by (simp_all add: rat_ops_def gmp_ref.rat_compare)

definition small_list :: "plist_tnum \<Rightarrow> int list \<Rightarrow> gaprat plist" where
  "small_list t is = \<lparr>tnum = t, immutable = False, elms = map (Some \<circ> small) is\<rparr>"

lemma small_list_simps [simp]:
  "tnum (small_list t is) = t" "immutable (small_list t is) = False" "elms (small_list t is) = map (Some \<circ> small) is"
  "entries (small_list t is) = map small is" "LEN_PLIST (small_list t is) = length is"
  by (simp_all add: small_list_def entries_def LEN_PLIST_def comp_def)

lemma rats_kinds [simp]: "homog rats xs" "IS_CYC rats x" "\<not> IS_MUTABLE_OBJ rats x" "FAMILY_OBJ rats x = 0"
  by (simp_all add: homog_def rat_ops_def)

text \<open>Lists of small integers with a true type: unsorted ones, and sets of cyclotomics.\<close>

lemma small_list_valid:
  assumes "\<forall>i \<in> set is. \<bar>i\<bar> < 1000"
  shows "valid_list rats valid_rats (small_list T_PLIST_DENSE is)"
    "sorted_wrt (<) is \<Longrightarrow> proper_set rats valid_rats (small_list T_PLIST_CYC_SSORT is)"
proof -
  have o: "objs (small_list t is) \<subseteq> valid_rats" for t using assms by (auto simp: objs_def)
  have d: "dense (elms (small_list t is))" for t by (auto simp: dense_def)
  show "valid_list rats valid_rats (small_list T_PLIST_DENSE is)"
    using o d by (simp add: valid_list_def type_ok_def cyc_tnum_def)
  assume "sorted_wrt (<) is"
  then have "sorted_wrt (\<lambda>i j. LT rats (small i) (small j)) is"
    by (rule sorted_wrt_mono_rel [rotated]) (use assms in auto)
  then have "sorted_wrt (LT rats) (map the (elms (small_list t is)))" for t
    by (simp add: comp_def sorted_wrt_map)
  then show "proper_set rats valid_rats (small_list T_PLIST_CYC_SSORT is)"
    using o d by (auto simp: proper_set_def type_ok_def cyc_tnum_def)
qed

lemma small_member:
  assumes "\<forall>i \<in> set is. \<bar>i\<bar> < 1000" "\<bar>j\<bar> < 1000"
  shows "member rats (small j) (small_list t is) \<longleftrightarrow> j \<in> set is"
  using assms by (auto simp: member_def objs_def)

lemma rats_running [simp]: "\<not> SyInitializing rats"
  by (simp add: rat_ops_def)
subsection \<open>Proper sets\<close>

lemma members_iff: "z \<in> members ops D p \<longleftrightarrow> z \<in> D \<and> member ops z p"
  by (simp add: members_def)


lemma small_members:
  "\<forall>i \<in> set is. \<bar>i\<bar> < 1000 \<Longrightarrow> \<bar>j\<bar> < 1000 \<Longrightarrow>
   small j \<in> members rats valid_rats (small_list t is) \<longleftrightarrow> j \<in> set is"
  by (simp add: members_iff small_member)





text \<open>C36: The five handlers that change a set raise an error for an argument that is immutable, and for one
  that is not a proper set, and then return no list.\<close>

theorem set_arguments_checked:
  assumes "ordered_objects ops D" "\<not> SyInitializing ops" "valid_list ops D set1"
    and "immutable set1 \<or> \<not> holds ops FN_IS_SSORT (elms set1)"
  shows "FuncADD_SET ops set1 obj = Inl not_mutable_set \<and> FuncREM_SET ops set1 obj = Inl not_mutable_set \<and>
    FuncUNITE_SET ops set1 set2 = Inl not_mutable_set \<and> FuncINTER_SET ops set1 set2 = Inl not_mutable_set \<and>
    FuncSUBTR_SET ops set1 set2 = Inl not_mutable_set"
proof -
  have "immutable set1 \<or> \<not> proper_set ops D set1" using assms(4) unfolding proper_set_def by blast
  then have "RequireMutableSet ops set1 = Inl not_mutable_set"
    using ordered_objects.RequireMutableSet_ok(1) [OF assms(1,3,2)] by (simp add: not_mutable_set_def)
  then show ?thesis
    by (simp add: FuncADD_SET_def FuncREM_SET_def FuncUNITE_SET_def FuncINTER_SET_def FuncSUBTR_SET_def)
qed

theorem set_arguments_checked_witness:
  "FuncADD_SET rats (small_list T_PLIST_DENSE [4, 3]) (small 1) = Inl not_mutable_set"
proof -
  have "valid_list rats valid_rats (small_list T_PLIST_DENSE [4, 3])" by (rule small_list_valid; simp)
  from set_arguments_checked [OF rats_ordered rats_running this] show ?thesis by (simp add: comp_def)
qed

text \<open>C29: Making sets. From any list, with holes, duplicates and entries in any order, \<open>SetList\<close> makes a mutable
  proper set with the same members, and so does \<open>FuncLIST_SORTED_LIST\<close>, which leaves the entries of its
  argument alone and its type true.\<close>

theorem make_set_sound:
  assumes "ordered_objects ops D" "\<not> SyInitializing ops" "valid_list ops D list"
  shows "proper_set ops D (SetList ops list) \<and> \<not> immutable (SetList ops list) \<and>
    members ops D (SetList ops list) = members ops D list \<and>
    (\<exists>q a. FuncLIST_SORTED_LIST ops list = (q, a) \<and> proper_set ops D q \<and> \<not> immutable q \<and>
      members ops D q = members ops D list \<and> valid_list ops D a \<and> elms a = elms list)"
proof -
  obtain q a where q: "FuncLIST_SORTED_LIST ops list = (q, a)" by (metis surj_pair)
  have "objs list \<subseteq> D" using assms(3) by (simp add: valid_list_def)
  note s = ordered_objects.SetList_ok [OF assms(1) this]
  note f = ordered_objects.FuncLIST_SORTED_LIST_ok [OF assms(1,3,2) q]
  show ?thesis using s f q by (auto simp: members_def)
qed

theorem make_set_sound_witness:
  "proper_set rats valid_rats (SetList rats (small_list T_PLIST_DENSE [4, 3, 3])) \<and>
   small 3 \<in> members rats valid_rats (SetList rats (small_list T_PLIST_DENSE [4, 3, 3]))"
proof -
  have "valid_list rats valid_rats (small_list T_PLIST_DENSE [4, 3, 3])" by (rule small_list_valid; simp)
  from make_set_sound [OF rats_ordered rats_running this] show ?thesis
    by (simp add: small_members)
qed

text \<open>Comparison. \<open>FuncIS_EQUAL_SET\<close> and \<open>FuncIS_SUBSET_SET\<close>, applied to any two lists, decide whether the sets
  they stand for are equal and whether the second is a subset of the first (the early exit when too few
  entries are left included).\<close>

lemma set_comparison_sound:
  assumes "ordered_objects ops D" "\<not> SyInitializing ops" "valid_list ops D list1" "valid_list ops D list2"
  shows "(FuncIS_EQUAL_SET ops list1 list2 \<longleftrightarrow> members ops D list1 = members ops D list2) \<and>
    (FuncIS_SUBSET_SET ops list1 list2 \<longleftrightarrow> members ops D list2 \<subseteq> members ops D list1)"
  using ordered_objects.FuncIS_EQUAL_SET_ok [OF assms(1,3,4,2)] ordered_objects.FuncIS_SUBSET_SET_ok [OF assms(1,3,4,2)]
  by (auto simp: members_def)

lemma set_comparison_sound_witness:
  "FuncIS_SUBSET_SET rats (small_list T_PLIST_CYC_SSORT [1, 3, 5]) (small_list T_PLIST_DENSE [5, 1, 5])"
proof -
  have "proper_set rats valid_rats (small_list T_PLIST_CYC_SSORT [1, 3, 5])"
    "valid_list rats valid_rats (small_list T_PLIST_DENSE [5, 1, 5])" by (rule small_list_valid; simp)+
  moreover from this(1) have "valid_list rats valid_rats (small_list T_PLIST_CYC_SSORT [1, 3, 5])"
    by (simp add: proper_set_def valid_list_def)
  ultimately have "FuncIS_SUBSET_SET rats (small_list T_PLIST_CYC_SSORT [1, 3, 5]) (small_list T_PLIST_DENSE [5, 1, 5]) \<longleftrightarrow>
      members rats valid_rats (small_list T_PLIST_DENSE [5, 1, 5]) \<subseteq> members rats valid_rats (small_list T_PLIST_CYC_SSORT [1, 3, 5])"
    using set_comparison_sound [OF rats_ordered rats_running] by blast
  also have "\<dots>" by (auto simp: members_def member_def objs_def)
  finally show ?thesis .
qed
text \<open>The variants of the inner loops agree. On strictly sorted arrays the linear intersection and the
  one that searches the second array leave the same result in front of the first array, and so do the two
  loops for the difference.\<close>

lemma set_loops_agree:
  fixes ops D xs ys
  defines "A \<equiv> map Some xs" and "B \<equiv> map Some ys" and "m \<equiv> length xs" and "n \<equiv> length ys"
  assumes "ordered_objects ops D" "set xs \<subseteq> D" "set ys \<subseteq> D" "sorted_wrt (LT ops) xs" "sorted_wrt (LT ops) ys"
  shows "(case (InterSetInner1 ops m n A B 0 1 1, InterSetInner2 ops True m n A B 0 1 1) of
      ((R, k), (R', _, k')) \<Rightarrow> take k R = take k' R') \<and>
    (case (SubtrSetInner1 ops m n A B 0 1 1, SubtrSetInner2 ops m n A B 0 1 1) of
      ((R, k), (R', k')) \<Rightarrow> take k R = take k' R')"
proof -
  have AB: "length A = m" "length B = n" "drop (1 - 1) A = map Some xs" "drop (1 - 1) B = map Some ys"
    by (simp_all add: A_def B_def m_def n_def)
  obtain R k R' C k' S l S' l' where e: "InterSetInner1 ops m n A B 0 1 1 = (R, k)"
    "InterSetInner2 ops True m n A B 0 1 1 = (R', C, k')" "SubtrSetInner1 ops m n A B 0 1 1 = (S, l)"
    "SubtrSetInner2 ops m n A B 0 1 1 = (S', l')" by (metis prod_cases3 surj_pair)
  note i1 = ordered_objects.InterSetInner1_entries [OF assms(5) AB(1,2) _ _ _ AB(3,4) assms(6-9) e(1)]
  note i2 = ordered_objects.InterSetInner2_entries [OF assms(5) AB(1,2) _ _ _ _ AB(3,4) assms(6-9) e(2)]
  note s1 = ordered_objects.SubtrSetInner1_entries [OF assms(5) AB(1,2) _ _ _ AB(3,4) assms(6-9) e(3)]
  note s2 = ordered_objects.SubtrSetInner2_entries [OF assms(5) AB(1,2) _ _ _ _ AB(3,4) assms(6-9) e(4)]
  from i1 i2 s1 s2 show ?thesis unfolding e by simp
qed

lemma set_loops_agree_witness:
  "case (SubtrSetInner1 rats 1 2 [Some (small 3)] [Some (small 2), Some (small 3)] 0 1 1,
         SubtrSetInner2 rats 1 2 [Some (small 3)] [Some (small 2), Some (small 3)] 0 1 1) of
     ((R, k), (R', k')) \<Rightarrow> take k R = take k' R'"
  using set_loops_agree [OF rats_ordered, of "[small 3]" "[small 2, small 3]"] by (simp add: numeral_2_eq_2)

subsection \<open>Sorting and searching plain lists\<close>

text \<open>C4: \<open>SortDensePlist\<close>, the quicksort with its fall-backs to insertion sort and shellsort, returns a sorted
  permutation of the entries of any dense plain list, of the same mutability and with a type whose claims
  are true.\<close>

theorem sort_dense_plist_sound:
  assumes "ordered_objects ops D" "valid_list ops D list" "dense (elms list)"
  shows "mset (elms (SortDensePlist ops list)) = mset (elms list) \<and>
    sorted_wrt (\<lambda>a b. \<not> LT ops b a) (entries (SortDensePlist ops list)) \<and>
    type_ok ops (SortDensePlist ops list) \<and> immutable (SortDensePlist ops list) = immutable list"
proof -
  have v: "type_ok ops list" "objs list \<subseteq> D" using assms(2) by (simp_all add: valid_list_def)
  note s = ordered_objects.SortDensePlist_ok [OF assms(1) v(1) assms(3) v(2)]
  have "mset (map Some (entries (SortDensePlist ops list))) = mset (map Some (entries list))"
    using s(2) by simp
  then have "mset (elms (SortDensePlist ops list)) = mset (elms list)"
    by (simp only: elms_entries [OF s(1), symmetric] elms_entries [OF assms(3), symmetric])
  then show ?thesis using s(4-6) by blast
qed

theorem sort_dense_plist_sound_witness:
  "sorted_wrt (\<lambda>a b. \<not> LT rats b a) (entries (SortDensePlist rats (small_list T_PLIST_DENSE [4, 3, 3])))"
proof -
  have "valid_list rats valid_rats (small_list T_PLIST_DENSE [4, 3, 3])" by (rule small_list_valid; simp)
  from sort_dense_plist_sound [OF rats_ordered this] show ?thesis by (simp add: dense_def)
qed

text \<open>C16: \<open>SortDensePlistMerge\<close> is a stable sort: its entries are a sorted permutation in which equal objects keep
  their order, so that it agrees with every stable sort.\<close>

theorem sort_merge_stable:
  assumes "ordered_objects ops D" "valid_list ops D list" "dense (elms list)"
  shows "mset (entries (SortDensePlistMerge ops list)) = mset (entries list) \<and>
    sorted_wrt (\<lambda>a b. \<not> LT ops b a) (entries (SortDensePlistMerge ops list)) \<and>
    (\<forall>x \<in> D. filter (EQ ops x) (entries (SortDensePlistMerge ops list)) = filter (EQ ops x) (entries list)) \<and>
    type_ok ops (SortDensePlistMerge ops list)"
  using ordered_objects.SortDensePlistMerge_ok [OF assms(1) _ assms(3)] assms(2) by (simp add: valid_list_def)

theorem sort_merge_stable_witness:
  "sorted_wrt (\<lambda>a b. \<not> LT rats b a) (entries (SortDensePlistMerge rats (small_list T_PLIST_DENSE [4, 3, 3])))"
proof -
  have "valid_list rats valid_rats (small_list T_PLIST_DENSE [4, 3, 3])" by (rule small_list_valid; simp)
  from sort_merge_stable [OF rats_ordered this] show ?thesis by (simp add: dense_def)
qed

text \<open>C26: The test for strictly sorted lists, dispatched on the type of the list, decides whether the list is
  dense and strictly sorted, and the type it leaves, with what the test found out recorded, is true; the entries
  and the mutability stay.\<close>

theorem sorted_test_sound:
  assumes "ordered_objects ops D" "\<not> SyInitializing ops" "valid_list ops D list"
  shows "case IS_SSORT_LIST ops list of (list', b) \<Rightarrow>
    (b \<longleftrightarrow> None \<notin> set (elms list) \<and> sorted_wrt (LT ops) (entries list)) \<and> type_ok ops list' \<and>
    elms list' = elms list \<and> immutable list' = immutable list"
proof -
  obtain list' b where t: "IS_SSORT_LIST ops list = (list', b)" by (metis surj_pair)
  note s = ordered_objects.test_proper [OF assms(1,3,2) t]
  have "b \<longleftrightarrow> holds ops FN_IS_SSORT (elms list)"
    using s(7) assms(3) by (simp only: proper_set_def valid_list_def simp_thms)
  then show ?thesis using s(1,3,4) by (simp add: t dense_def entries_def)
qed

theorem sorted_test_sound_witness: "\<not> snd (IS_SSORT_LIST rats (small_list T_PLIST_DENSE [4, 3, 3]))"
proof -
  have "valid_list rats valid_rats (small_list T_PLIST_DENSE [4, 3, 3])" by (rule small_list_valid; simp)
  from sorted_test_sound [OF rats_ordered rats_running this] show ?thesis by (auto split: prod.splits)
qed

text \<open>The binary search \<open>PositionSortedDensePlist\<close> on a sorted dense list returns a position between 1 and the
  length plus 1, the first one whose entry is not smaller than the object: all entries before it are smaller,
  none from there on is.\<close>

lemma position_sorted_bounds:
  assumes "ordered_objects ops D" "objs list \<subseteq> D" "dense (elms list)" "obj \<in> D"
    and "sorted_wrt (\<lambda>a b. \<not> LT ops b a) (entries list)"
  shows "1 \<le> PositionSortedDensePlist ops list obj \<and> PositionSortedDensePlist ops list obj \<le> LEN_PLIST list + 1 \<and>
    (\<forall>i. 1 \<le> i \<and> i \<le> LEN_PLIST list \<longrightarrow>
      (LT ops (entries list ! (i - 1)) obj \<longleftrightarrow> i < PositionSortedDensePlist ops list obj))"
  using ordered_objects.PositionSortedDensePlist_ok [OF assms(1-5)] entries_nth [of _ list] by auto

lemma position_sorted_bounds_witness:
  "PositionSortedDensePlist rats (small_list T_PLIST_CYC_SSORT [1, 3]) (small 3) = 2"
proof -
  let ?p = "small_list T_PLIST_CYC_SSORT [1, 3]"
  have "objs ?p \<subseteq> valid_rats" "dense (elms ?p)" by (auto simp: objs_def dense_def)
  from position_sorted_bounds [OF rats_ordered this, of "small 3"]
  have b: "1 \<le> PositionSortedDensePlist rats ?p (small 3)"
    "1 < PositionSortedDensePlist rats ?p (small 3)" "\<not> 2 < PositionSortedDensePlist rats ?p (small 3)" by force+
  then show ?thesis by simp
qed

text \<open>The parallel sort moves the entries of the list and of its shadow together: the pairs are permuted, and
  the list ends sorted.\<close>

lemma parallel_sort_sound:
  assumes "ordered_objects ops D" "objs list \<subseteq> D" "dense (elms list)" "LEN_PLIST list = LEN_PLIST shadow"
  shows "case SortParaDensePlist ops list shadow of (list', shadow') \<Rightarrow>
    mset (zip (elms list') (elms shadow')) = mset (zip (elms list) (elms shadow)) \<and>
    sorted_wrt (\<lambda>a b. \<not> LT ops b a) (entries list')"
proof -
  obtain list' shadow' where t: "SortParaDensePlist ops list shadow = (list', shadow')" by (metis surj_pair)
  from ordered_objects.SortParaDensePlist_ok [OF assms(1,3,2,4) t] show ?thesis by (simp add: t)
qed

lemma parallel_sort_sound_witness:
  "sorted_wrt (\<lambda>a b. \<not> LT rats b a)
     (entries (fst (SortParaDensePlist rats (small_list T_PLIST_DENSE [4, 3]) (small_list T_PLIST_DENSE [1, 2]))))"
proof -
  let ?p = "small_list T_PLIST_DENSE [4, 3]"
  have "objs ?p \<subseteq> valid_rats" "dense (elms ?p)" by (auto simp: objs_def dense_def)
  from parallel_sort_sound [OF rats_ordered this, of "small_list T_PLIST_DENSE [1, 2]"]
  show ?thesis by (simp add: case_prod_unfold)
qed
subsection \<open>The action on sets\<close>

context ordered_objects
begin

text \<open>The image of a set under a function, as \<open>FuncOnTuples\<close> makes it, sorted and without duplicates.\<close>

lemma on_tuples_loop_dense: "on_tuples_loop pow (map Some zs) img = Inr (rev (map (\<lambda>x. Some (pow x)) zs) @ img)"
  by (induction zs arbitrary: img) simp_all

lemma FuncOnTuples_props:
  assumes "dense (elms p)" "\<forall>x \<in> objs p. POW elm x \<in> D" "elms p \<noteq> []" "\<not> IS_PERM elm" "\<not> IS_TRANS elm" "\<not> IS_PPERM elm"
  obtains img where "FuncOnTuples p elm = Inr img"
    "type_ok ops img" "dense (elms img)" "objs img \<subseteq> D" "entries img = map (POW elm) (entries p)"
    "immutable img = immutable p" "objs img = POW elm ` objs p"
proof -
  define img where "img = \<lparr>tnum = T_PLIST, immutable = immutable p, elms = map (\<lambda>x. Some (POW elm x)) (entries p)\<rparr>"
  have "rev (elms p) = map Some (rev (entries p))" using elms_entries [OF assms(1)] by (metis rev_map)
  then have i: "FuncOnTuples p elm = Inr img"
    using assms(3-6) by (simp add: img_def FuncOnTuples_def LEN_PLIST_def on_tuples_loop_dense rev_map)
  have t: "type_ok ops img" by (simp add: img_def type_ok_def cyc_tnum_def)
  have d: "dense (elms img)" by (auto simp: img_def dense_def)
  have e: "entries img = map (POW elm) (entries p)" by (simp add: img_def entries_def)
  have m: "immutable img = immutable p" by (simp add: img_def)
  have o: "objs img = POW elm ` objs p" using entries_objs [OF d] entries_objs [OF assms(1)] e by simp
  then have "objs img \<subseteq> D" using assms(2) by auto
  then show ?thesis using that i t d e m o by blast
qed

text \<open>The set that the test leaves.\<close>

lemma FuncOnSets_set:
  assumes "valid_list ops D p" "\<not> SyInitializing ops" "holds ops FN_IS_SSORT (elms p)"
  obtains a where "(if HAS_FILT_LIST p FN_IS_SSORT then (p, True) else IS_SSORT_LIST ops p) = (a, True)"
    "elms a = elms p" "immutable a = immutable p" "type_ok ops a"
proof -
  have pr: "proper_set ops D p" using assms(1,3) by (simp add: proper_set_def valid_list_def)
  obtain a b where t: "IS_SSORT_LIST ops p = (a, b)" by (metis surj_pair)
  note t' = test_proper [OF assms(1,2) t]
  show ?thesis using that [of "if HAS_FILT_LIST p FN_IS_SSORT then p else a"] t t' pr
    by (auto simp: proper_set_def simp del: holds.simps)
qed

lemma FuncOnSets_special:
  assumes "valid_list ops D p" "\<not> SyInitializing ops" "holds ops FN_IS_SSORT (elms p)"
  shows "\<exists>a. proper_set ops D a \<and> elms a = elms p \<and> immutable a = immutable p \<and> FuncOnSets ops p elm =
    (if elms p = [] then Inr (a, if immutable p then a else NewEmptyPlist)
     else if IS_PERM elm then map_sum id (Pair a) (OnSetsPerm elm a)
     else if IS_TRANS elm then map_sum id (Pair a) (OnSetsTrans elm a)
     else if IS_PPERM elm then map_sum id (Pair a) (OnSetsPPerm elm a)
     else FuncOnSets ops p elm)"
proof -
  obtain a where a: "(if HAS_FILT_LIST p FN_IS_SSORT then (p, True) else IS_SSORT_LIST ops p) = (a, True)"
    "elms a = elms p" "immutable a = immutable p" "type_ok ops a"
    by (rule FuncOnSets_set [OF assms])
  have "proper_set ops D a" using a(2,4) assms(1,3) by (simp add: proper_set_def valid_list_def objs_def)
  moreover have "rbind y (\<lambda>img. Inr (a, img)) = map_sum id (Pair a) y" for y :: "'a plist result"
    by (cases y) simp_all
  ultimately show ?thesis using a(2,3) unfolding FuncOnSets_def a(1)
    by (intro exI [of _ a]) (simp add: LEN_PLIST_def)
qed

lemma FuncOnSets_ok:
  assumes "valid_list ops D p" "\<not> SyInitializing ops" "\<forall>x \<in> objs p. POW elm x \<in> D" "holds ops FN_IS_SSORT (elms p)"
    and "\<not> IS_PERM elm" "\<not> IS_TRANS elm" "\<not> IS_PPERM elm" "elms p \<noteq> []"
  shows "\<exists>a r. FuncOnSets ops p elm = Inr (a, r) \<and> proper_set ops D a \<and> elms a = elms p \<and>
    immutable a = immutable p \<and> holds ops FN_IS_SSORT (elms r) \<and>
    immutable r = immutable p \<and> (\<forall>z \<in> D. member ops z r \<longleftrightarrow> (\<exists>x \<in> objs p. EQ ops z (POW elm x))) \<and>
    (type_ok ops r \<longleftrightarrow> homog ops (map (POW elm) (entries p)) \<or> (\<exists>x \<in> objs p. IS_MUTABLE_OBJ ops (POW elm x)))"
proof -
  have pr: "proper_set ops D p" using assms(1,4) by (simp add: proper_set_def valid_list_def)
  obtain a' where a: "(if HAS_FILT_LIST p FN_IS_SSORT then (p, True) else IS_SSORT_LIST ops p) = (a', True)"
    "elms a' = elms p" "immutable a' = immutable p" "type_ok ops a'"
    by (rule FuncOnSets_set [OF assms(1,2,4)])
  show ?thesis
  proof -
    have ne: "elms a' \<noteq> []" "LEN_PLIST a' \<noteq> 0" using assms(8) a(2) by (simp_all add: LEN_PLIST_def)
    have oa: "objs a' = objs p" "entries a' = entries p" "dense (elms a')"
      using a(2) properD(3) [OF pr] by (simp_all add: objs_def entries_def)
    obtain img where img: "FuncOnTuples a' elm = Inr img" and
      f: "type_ok ops img" "dense (elms img)" "objs img \<subseteq> D" "entries img = map (POW elm) (entries p)"
      "immutable img = immutable a'" "objs img = (POW elm) ` objs p"
      using FuncOnTuples_props [OF oa(3), of elm, unfolded oa, OF assms(3) ne(1) assms(5-7)] by metis
    define i1 where "i1 = SortDensePlist ops img"
    obtain i2 st where r: "RemoveDupsDensePlist ops i1 = (i2, st)" by (metis surj_pair)
    note s = SortDensePlist_ok [OF f(1-3), folded i1_def]
    have D: "objs i1 \<subseteq> D" using s(3) f(3) by simp
    note d = RemoveDupsDensePlist_ok [OF s(5,1) D s(4,7) r]
    have se: "set (entries i1) = (POW elm) ` objs p" using entries_objs [OF s(1)] s(3) f(6) by simp
    have hom: "homog ops (entries i1) \<longleftrightarrow> homog ops (map (POW elm) (entries p))"
      using mset_eq_setD [OF s(2)] f(4) by (simp only: homog_image)
    have st: "st = (if \<exists>x \<in> objs p. IS_MUTABLE_OBJ ops (POW elm x) then 0
        else if \<not> homog ops (map (POW elm) (entries p)) then 1 else 2)"
    proof -
      have "length (entries i1) = length (entries p)" using arg_cong [OF s(2), of size] f(4) by simp
      then have "elms i1 \<noteq> []" using assms(8) by (auto simp: entries_def)
      moreover have "(\<exists>x \<in> set (entries i1). IS_MUTABLE_OBJ ops x) \<longleftrightarrow> (\<exists>x \<in> objs p. IS_MUTABLE_OBJ ops (POW elm x))"
        unfolding se by blast
      ultimately show ?thesis unfolding d(7) hom by simp
    qed
    define q where "q = (if st = 1 \<or> st = 2 then RetypeBagSM i2 T_PLIST_HOM_SSORT else i2)"
    have "FuncOnSets ops p elm = Inr (a', q)"
      using ne r img assms(5-7) unfolding FuncOnSets_def a(1) by (simp add: q_def Let_def i1_def [symmetric] RetypeBagSM_def)
    moreover have q: "elms q = elms i2" "immutable q = immutable p"
      using d(6) s(6) f(5) a(3) by (simp_all add: q_def RetypeBagSM_def)
    moreover have ss: "holds ops FN_IS_SSORT (elms q)" using d(1,2) q(1) by (simp add: entries_def)
    moreover have "member ops z q \<longleftrightarrow> (\<exists>x \<in> objs p. EQ ops z (POW elm x))" if "z \<in> D" for z
    proof -
      have "member ops z q \<longleftrightarrow> mem z (entries i2)" using entries_objs [OF d(1)] q(1) by (simp add: member_def mem_def objs_def)
      also have "\<dots> \<longleftrightarrow> mem z (entries i1)" by (rule d(4) [OF that])
      finally show ?thesis by (simp add: mem_def se)
    qed
    moreover have "type_ok ops q \<longleftrightarrow> homog ops (map (POW elm) (entries p)) \<or> (\<exists>x \<in> objs p. IS_MUTABLE_OBJ ops (POW elm x))"
    proof (cases "st = 0")
      case True
      then show ?thesis using st d(5) by (simp add: q_def split: if_splits)
    next
      case nz: False
      then have t: "tnum q = T_PLIST_HOM_SSORT" "st = 1 \<or> st = 2" using st by (auto simp: q_def RetypeBagSM_def split: if_splits)
      have "elms q = map Some (entries i2)" using q(1) elms_entries [OF d(1)] by simp
      then have "type_ok ops q \<longleftrightarrow> homog ops (entries i2)"
        using t(1) d(1,2) unfolding type_ok_def by (simp add: holds_Some cyc_tnum_def del: holds.simps)
      also have "\<dots> \<longleftrightarrow> homog ops (map (POW elm) (entries p))" using d(8) nz hom by simp
      finally show ?thesis using st nz by (simp split: if_splits)
    qed
    moreover have "proper_set ops D a'" using a(2,4) assms(1,4) by (simp add: proper_set_def valid_list_def objs_def)
    ultimately show ?thesis using a(2,3) by blast
  qed
qed

end



subsection \<open>Types that stop being true\<close>

text \<open>
  Lists of rational numbers as the objects of a set; the family of the empty list is another one than that of
  the lists of numbers, as in the library of GAP.
\<close>

definition list_objs :: "gaprat plist objops" where
  "list_objs = plist_ops (\<lambda>p. if elms p = [] then 0 else 1) rats"

definition imm_list :: "int list \<Rightarrow> gaprat plist" where
  "imm_list is = \<lparr>tnum = (if is = [] then T_PLIST_EMPTY else T_PLIST_CYC_SSORT), immutable = True,
     elms = map (Some \<circ> small) is\<rparr>"

definition set_of_lists :: "plist_tnum \<Rightarrow> int list list \<Rightarrow> gaprat plist plist" where
  "set_of_lists t iss = \<lparr>tnum = t, immutable = False, elms = map (Some \<circ> imm_list) iss\<rparr>"

lemmas list_objs_eval = list_objs_def plist_ops_def set_of_lists_def imm_list_def LtPlist_def EqPlist_def EQ0_def
  LEN_PLIST_def ELM_PLIST_def

text \<open>\<open>FuncREM_SET\<close> removes the only entry of another family and leaves the claim of inhomogeneity.\<close>

lemma remove_set_false_claim:
  defines "s \<equiv> set_of_lists T_PLIST_DENSE_NHOM_SSORT [[], [1], [2]]"
  shows "type_ok list_objs s \<and>
    (\<exists>r. FuncREM_SET list_objs s (imm_list []) = Inr r \<and> elms r = [Some (imm_list [1]), Some (imm_list [2])] \<and>
      HAS_FILT_LIST r FN_IS_NHOMOG \<and> \<not> type_ok list_objs r)"
proof -
  have "type_ok list_objs s"
    by (simp add: s_def type_ok_def dense_def homog_def cyc_tnum_def list_objs_eval)
  moreover have "FuncREM_SET list_objs s (imm_list []) = Inr (set_of_lists T_PLIST_DENSE_NHOM_SSORT [[1], [2]])"
  proof -
    have e: "elms s = [Some (imm_list []), Some (imm_list [1]), Some (imm_list [2])]" "\<not> immutable s"
      "tnum s = T_PLIST_DENSE_NHOM_SSORT" by (simp_all add: s_def set_of_lists_def)
    have q: "\<not> LT list_objs (imm_list []) (imm_list [])" "\<not> LT list_objs (imm_list [1]) (imm_list [])"
      "EQ list_objs (imm_list []) (imm_list [])" by (simp_all add: list_objs_eval)
    have "RequireMutableSet list_objs s = Inr s"
      using e by (simp add: RequireMutableSet_def IsSet_def IsPlainSet_def IS_SSORT_LIST_def)
    moreover have "PositionSortedDensePlist list_objs s (imm_list []) = 1"
      unfolding PositionSortedDensePlist_def
      by (subst binary_search.simps, subst binary_search.simps, subst binary_search.simps)
        (simp add: e q LEN_PLIST_def ELM_PLIST_def)
    ultimately show ?thesis using e q
      by (simp add: FuncREM_SET_def LEN_PLIST_def ELM_PLIST_def SET_ELM_PLIST_def SyMemmove_def)
        (simp add: s_def set_of_lists_def)
  qed
  moreover have "\<not> type_ok list_objs (set_of_lists T_PLIST_DENSE_NHOM_SSORT [[1], [2]])"
    by (simp add: type_ok_def homog_def list_objs_eval)
  ultimately show ?thesis by (simp add: set_of_lists_def)
qed

text \<open>\<open>FuncUNITE_SET\<close> of two rectangular tables of different widths claims a rectangular table.\<close>

lemma unite_set_false_claim:
  defines "s \<equiv> set_of_lists T_PLIST_TAB_RECT_SSORT [[1, 2]]" and "t \<equiv> set_of_lists T_PLIST_TAB_RECT_SSORT [[1, 2, 3]]"
  shows "type_ok list_objs s \<and> type_ok list_objs t \<and>
    (\<exists>r a. FuncUNITE_SET list_objs s t = Inr (r, a) \<and>
      elms r = [Some (imm_list [1, 2]), Some (imm_list [1, 2, 3])] \<and>
      HAS_FILT_LIST r FN_IS_RECT \<and> \<not> type_ok list_objs r)"
proof -
  let ?r = "set_of_lists T_PLIST_TAB_RECT_SSORT [[1, 2], [1, 2, 3]]"
  have ok: "type_ok list_objs s" "type_ok list_objs t"
    by (simp_all add: s_def t_def type_ok_def dense_def homog_def same_length_def cyc_tnum_def list_objs_eval)
  have "(T_PLIST_TAB_RECT_SSORT, FN_IS_SSORT, Some T_PLIST_TAB_RECT_SSORT) \<in> set SetFiltTab"
    by (simp add: SetFiltTab_def)
  then have set_s: "SET_FILT_LIST s FN_IS_SSORT = s" using SET_FILT_LIST_at [of s FN_IS_SSORT] by (simp add: s_def set_of_lists_def)
  have e: "the (ELM_PLIST s 1) = imm_list [1, 2]" "the (ELM_PLIST t 1) = imm_list [1, 2, 3]"
    "LEN_PLIST s = 1" "LEN_PLIST t = 1" "ELM_PLIST s 1 = Some (imm_list [1, 2])" "ELM_PLIST t 1 = Some (imm_list [1, 2, 3])"
    "\<not> immutable s" "tnum s = T_PLIST_TAB_RECT_SSORT" "tnum t = T_PLIST_TAB_RECT_SSORT"
    by (simp_all add: s_def t_def set_of_lists_def ELM_PLIST_def LEN_PLIST_def)
  have q: "\<not> EQ list_objs (imm_list [1, 2]) (imm_list [1, 2, 3])" "LT list_objs (imm_list [1, 2]) (imm_list [1, 2, 3])"
    "FAMILY_OBJ list_objs (imm_list [1, 2]) = FAMILY_OBJ list_objs (imm_list [1, 2, 3])"
    by (simp_all add: list_objs_eval)
  have "unite_main list_objs s t 1 1 [] = unite_main list_objs s t 2 1 [Some (imm_list [1, 2])]"
    using e q by (subst unite_main.simps) (simp add: numeral_2_eq_2)
  also have "\<dots> = (2, 1, [Some (imm_list [1, 2])])" using e by (subst unite_main.simps) simp
  finally have m: "unite_main list_objs s t 1 1 [] = (2, 1, [Some (imm_list [1, 2])])" .
  have "unite_rest s 2 tmp = tmp" "unite_rest t 1 tmp = tmp @ [Some (imm_list [1, 2, 3])]" for tmp
    using e by (subst unite_rest.simps, simp)+
  moreover have "RequireMutableSet list_objs s = Inr s" "as_set list_objs t = (t, t)"
    using e by (simp_all add: RequireMutableSet_def IsSet_def IsPlainSet_def IS_SSORT_LIST_def as_set_def)
  ultimately have "FuncUNITE_SET list_objs s t = Inr (?r, t)"
    using e q m set_s by (simp add: FuncUNITE_SET_def unite_set_type_def) (simp add: s_def set_of_lists_def)
  moreover have "\<not> type_ok list_objs ?r"
    by (simp add: type_ok_def same_length_def list_objs_eval)
  ultimately show ?thesis using ok by (simp add: set_of_lists_def)
qed

text \<open>
  The rational numbers and \<open>infinity\<close> as objects: \<open>None\<close> is \<open>infinity\<close>, an immutable object above all numbers, in the
  family of the numbers (\<open>lib/cyclotom.g\<close>) and not a cyclotomic of the kernel.
\<close>

definition numbers_and_infinity :: "gaprat option objops" where
  "numbers_and_infinity = \<lparr>
     IDENT = (=), EQ = rel_option (EQ rats),
     LT = (\<lambda>x y. x \<noteq> None \<and> (y = None \<or> LT rats (the x) (the y))),
     FAMILY_OBJ = (\<lambda>_. 0), IS_MUTABLE_OBJ = (\<lambda>_. False), IS_CYC = (\<lambda>x. x \<noteq> None), IS_FFE = (\<lambda>_. False),
     IS_HOMOG_LIST = (\<lambda>_. False), LEN_LIST = (\<lambda>_. 0), SyInitializing = False\<rparr>"

definition numbers_list :: "plist_tnum \<Rightarrow> int list \<Rightarrow> gaprat option plist" where
  "numbers_list t is = \<lparr>tnum = t, immutable = False, elms = map (Some \<circ> Some \<circ> small) is\<rparr>"

text \<open>The laws of the locale hold for these objects.\<close>

lemma numbers_and_infinity_laws: "cyclotomic_objects numbers_and_infinity (insert None (Some ` valid_rats))"
proof -
  have LT: "LT numbers_and_infinity x y \<longleftrightarrow> (case x of None \<Rightarrow> False | Some a \<Rightarrow> case y of None \<Rightarrow> True | Some b \<Rightarrow> rat_val a < rat_val b)"
    and EQ: "EQ numbers_and_infinity x y \<longleftrightarrow> map_option rat_val x = map_option rat_val y"
    if "x \<in> insert None (Some ` valid_rats)" "y \<in> insert None (Some ` valid_rats)" for x y
    using that by (auto simp: numbers_and_infinity_def rat_ops_def gmp_ref.rat_compare split: option.splits)
  have "IDENT numbers_and_infinity x y \<longleftrightarrow> x = y" "FAMILY_OBJ numbers_and_infinity x = 0" "IS_CYC numbers_and_infinity x \<longleftrightarrow> x \<noteq> None"
    "\<not> IS_FFE numbers_and_infinity x" "\<not> IS_HOMOG_LIST numbers_and_infinity x" "LEN_LIST numbers_and_infinity x = 0" for x y
    by (simp_all add: numbers_and_infinity_def)
  then show ?thesis
    by unfold_locales (auto simp: LT EQ split: option.splits)
qed

text \<open>\<open>FuncADD_SET\<close> of \<open>infinity\<close> to a set of numbers marks the set as not homogeneous, which it still is.\<close>

lemma add_set_false_claim:
  defines "s \<equiv> numbers_list T_PLIST_CYC_SSORT [1, 2]"
  shows "type_ok numbers_and_infinity s \<and>
    (\<exists>r. FuncADD_SET numbers_and_infinity s None = Inr r \<and>
      elms r = [Some (Some (small 1)), Some (Some (small 2)), Some None] \<and>
      HAS_FILT_LIST r FN_IS_NHOMOG \<and> homog numbers_and_infinity (entries r) \<and> \<not> type_ok numbers_and_infinity r)"
proof -
  let ?ops = numbers_and_infinity
  have ops: "LT ?ops (Some (small 1)) (Some (small 2))" "LT ?ops (Some x) None" "\<not> LT ?ops None y" "\<not> SyInitializing ?ops"
    "FAMILY_OBJ ?ops y = FAMILY_OBJ ?ops z" "\<not> IS_MUTABLE_OBJ ?ops y" "IS_CYC ?ops y \<longleftrightarrow> y \<noteq> None" for x y z
    by (simp_all add: numbers_and_infinity_def)
  have s: "elms s = [Some (Some (small 1)), Some (Some (small 2))]" "tnum s = T_PLIST_CYC_SSORT" "\<not> immutable s"
    by (simp_all add: s_def numbers_list_def)
  let ?es = "[Some (Some (small 1)), Some (Some (small 2)), Some None]"
  have ok: "type_ok ?ops s"
    using s ops by (simp add: type_ok_def dense_def homog_def cyc_tnum_def entries_def)
  have "RequireMutableSet ?ops s = Inr s"
    using s by (simp add: RequireMutableSet_def IsSet_def IsPlainSet_def IS_SSORT_LIST_def)
  moreover have "PositionSortedDensePlist ?ops s None = 3"
    unfolding PositionSortedDensePlist_def
    by (subst binary_search.simps, subst binary_search.simps, subst binary_search.simps)
      (simp add: s ops LEN_PLIST_def ELM_PLIST_def)
  moreover define r where "r = add_set_type ?ops (s\<lparr>elms := ?es\<rparr>) 2 3 None"
  ultimately have r: "FuncADD_SET ?ops s None = Inr r"
    using s by (simp add: FuncADD_SET_def LEN_PLIST_def SET_ELM_PLIST_def SyMemmove_def numeral_2_eq_2 [symmetric])
  have e: "elms r = ?es" by (simp add: r_def add_set_type_def RetypeBag_def Let_def)
  have tab: "(T_PLIST, FN_IS_DENSE, Some T_PLIST_DENSE) \<in> set SetFiltTab"
    "(T_PLIST_DENSE, FN_IS_NHOMOG, Some T_PLIST_DENSE_NHOM) \<in> set SetFiltTab"
    "(T_PLIST_DENSE_NHOM, FN_IS_SSORT, Some T_PLIST_DENSE_NHOM_SSORT) \<in> set SetFiltTab"
    by (simp_all add: SetFiltTab_def)
  have "tnum r = T_PLIST_DENSE_NHOM_SSORT"
    using s ops unfolding r_def add_set_type_def
    by (simp add: TNUM_OBJ_def Let_def SET_FILT_LIST_at [of _ FN_IS_DENSE "Some T_PLIST_DENSE"] RESET_DENSE tab
        SET_FILT_LIST_at [of _ FN_IS_NHOMOG "Some T_PLIST_DENSE_NHOM"]
        SET_FILT_LIST_at [of _ FN_IS_SSORT "Some T_PLIST_DENSE_NHOM_SSORT"])
  then have nh: "HAS_FILT_LIST r FN_IS_NHOMOG" by simp
  have h: "homog ?ops (entries r)" using ops(5) unfolding homog_def by blast
  have "\<not> type_ok ?ops r"
    using type_ok_claims [of ?ops r FN_IS_NHOMOG] nh h by (auto simp: entries_def)
  then show ?thesis using ok r e nh h by blast
qed

end
