(* ===== verification/ObjSet.thy ===== *)
theory ObjSet
  imports IntObj
begin

text \<open>
  Object sets and object maps, \<open>src/src/objset.c\<close>: hash tables with linear probing whose keys are
  compared by identity of handles, and the hash of \<open>src/src/fibhash.h\<close>. A table is the four header words and the
  data words of its bag; an unused entry holds the null handle, a deleted one the handle \<open>und\<close> of the object
  \<open>Undefined\<close>, which is fixed when the kernel starts and a parameter here. A size is a power of 2 of at most 30 bits (the shift
  \<open>1 << bits\<close> is one of the C type \<open>int\<close>, undefined from 31 on), so no sum or product of header
  words leaves the machine word, and the header words are natural numbers. The probing loops have no bound in the
  code: an operation of the model is an option, and \<open>None\<close> is a loop that does not end or an undefined shift.
\<close>

subsection \<open>Handles, hash and slots\<close>

type_synonym handle = UInt

definition FIB_HASH_MULT :: UInt where
  "FIB_HASH_MULT = 0x9e3779b97f4a7c13"

definition FibHash :: "UInt \<Rightarrow> nat \<Rightarrow> UInt" where
  "FibHash word bits = drop_bit (64 - bits) (word * FIB_HASH_MULT)"

record objtable =
  OBJSET_SIZE :: nat
  OBJSET_BITS :: nat
  OBJSET_USED :: nat
  OBJSET_DIRTY :: nat
  slots :: "handle list"

definition DEFAULT_OBJSET_BITS :: nat where
  "DEFAULT_OBJSET_BITS = 2"

definition DEFAULT_OBJSET_SIZE :: nat where
  "DEFAULT_OBJSET_SIZE = 2 ^ DEFAULT_OBJSET_BITS"

definition READ_SLOT :: "objtable \<Rightarrow> nat \<Rightarrow> handle" where
  "READ_SLOT container slot = slots container ! slot"

definition WRITE_SLOT :: "objtable \<Rightarrow> nat \<Rightarrow> handle \<Rightarrow> objtable" where
  "WRITE_SLOT container slot elm = container\<lparr>slots := (slots container)[slot := elm]\<rparr>"

definition ObjHash :: "objtable \<Rightarrow> handle \<Rightarrow> nat" where
  "ObjHash tab obj = unat (FibHash obj (OBJSET_BITS tab))"

text \<open>
  The probing loops of the four search functions have the same text up to the slot the key of an entry is read
  from (\<open>hash\<close> in a tab, \<open>2 * hash\<close> in a tab); \<open>key\<close> is that read.
\<close>

partial_function (option) find_loop :: "(nat \<Rightarrow> handle) \<Rightarrow> nat \<Rightarrow> handle \<Rightarrow> nat \<Rightarrow> int option" where
  "find_loop key size' obj hash =
     (let current = key hash in
      if current = 0 then Some (- 1)
      else if current = obj then Some (int hash)
      else find_loop key size' obj (if hash + 1 \<ge> size' then 0 else hash + 1))"

partial_function (option) free_loop :: "(nat \<Rightarrow> handle) \<Rightarrow> handle \<Rightarrow> nat \<Rightarrow> nat \<Rightarrow> nat option" where
  "free_loop key und size' hash =
     (let current = key hash in
      if current = 0 then Some hash
      else if current = und then Some hash
      else free_loop key und size' (if hash + 1 \<ge> size' then 0 else hash + 1))"

declare find_loop.simps [code] free_loop.simps [code]

subsection \<open>Object sets\<close>

definition NewObjSet :: objtable where
  "NewObjSet = \<lparr>OBJSET_SIZE = DEFAULT_OBJSET_SIZE, OBJSET_BITS = DEFAULT_OBJSET_BITS, OBJSET_USED = 0,
     OBJSET_DIRTY = 0, slots = replicate DEFAULT_OBJSET_SIZE 0\<rparr>"

definition FindObjSet :: "objtable \<Rightarrow> handle \<Rightarrow> int option" where
  "FindObjSet tab obj = find_loop (READ_SLOT tab) (OBJSET_SIZE tab) obj (ObjHash tab obj)"

definition AddObjSetNew :: "handle \<Rightarrow> objtable \<Rightarrow> handle \<Rightarrow> objtable option" where
  "AddObjSetNew und tab obj =
     Option.bind (free_loop (READ_SLOT tab) und (OBJSET_SIZE tab) (ObjHash tab obj)) (\<lambda>hash.
       let current = READ_SLOT tab hash;
           tab' = WRITE_SLOT tab hash obj;
           tab'' = tab'\<lparr>OBJSET_USED := OBJSET_USED tab' + 1\<rparr> in
       if current = 0 then Some tab''
       else Some (tab''\<lparr>OBJSET_DIRTY := OBJSET_DIRTY tab'' - 1\<rparr>))"

text \<open>
  \<open>resize_set_loop und tab n new\<close> runs the loop of \<open>ResizeObjSet\<close> from entry \<open>n - 1\<close> down to entry \<open>0\<close>.
\<close>

primrec resize_set_loop :: "handle \<Rightarrow> objtable \<Rightarrow> nat \<Rightarrow> objtable \<Rightarrow> objtable option" where
  "resize_set_loop und tab 0 new = Some new"
| "resize_set_loop und tab (Suc i) new =
     (let obj = slots tab ! i in
      if obj \<noteq> 0 \<and> obj \<noteq> und then Option.bind (AddObjSetNew und new obj) (resize_set_loop und tab i)
      else resize_set_loop und tab i new)"

definition ResizeObjSet :: "handle \<Rightarrow> objtable \<Rightarrow> nat \<Rightarrow> objtable option" where
  "ResizeObjSet und tab bits =
     (if bits \<ge> 31 then None
      else let new_size = 2 ^ bits in
        resize_set_loop und tab (OBJSET_SIZE tab)
          \<lparr>OBJSET_SIZE = new_size, OBJSET_BITS = bits, OBJSET_USED = 0, OBJSET_DIRTY = 0,
           slots = replicate new_size 0\<rparr>)"

definition CheckObjSetForCleanUp :: "handle \<Rightarrow> objtable \<Rightarrow> nat \<Rightarrow> objtable option" where
  "CheckObjSetForCleanUp und tab expand =
     (let size' = OBJSET_SIZE tab; bits = OBJSET_BITS tab; used = OBJSET_USED tab + expand;
          dirty = OBJSET_DIRTY tab in
      if used * 3 \<ge> size' * 2 then ResizeObjSet und tab (bits + 1)
      else if dirty \<noteq> 0 \<and> (dirty \<ge> used \<or> (dirty + used) * 3 \<ge> size' * 2) then ResizeObjSet und tab bits
      else Some tab)"

definition AddObjSet :: "handle \<Rightarrow> objtable \<Rightarrow> handle \<Rightarrow> objtable option" where
  "AddObjSet und tab obj =
     Option.bind (FindObjSet tab obj) (\<lambda>pos.
       if pos \<ge> 0 then Some tab
       else Option.bind (CheckObjSetForCleanUp und tab 1) (\<lambda>tab. AddObjSetNew und tab obj))"

definition RemoveObjSet :: "handle \<Rightarrow> objtable \<Rightarrow> handle \<Rightarrow> objtable option" where
  "RemoveObjSet und tab obj =
     Option.bind (FindObjSet tab obj) (\<lambda>pos.
       if pos \<ge> 0 then
         let tab = WRITE_SLOT tab (nat pos) und;
             tab = tab\<lparr>OBJSET_USED := OBJSET_USED tab - 1\<rparr>;
             tab = tab\<lparr>OBJSET_DIRTY := OBJSET_DIRTY tab + 1\<rparr> in
         CheckObjSetForCleanUp und tab 0
       else Some tab)"

text \<open>The contents of the bag are exchanged with those of a new one.\<close>

definition ClearObjSet :: "objtable \<Rightarrow> objtable" where
  "ClearObjSet tab = NewObjSet"

text \<open>
  The loops that collect the entries write the plain list \<open>result\<close> at position \<open>p\<close>, counted from 1, and return
  the last \<open>p\<close> with it. A write past the end of \<open>result\<close> has no effect in the model and corrupts memory in the
  code; the lemmas show that there is none.
\<close>

function values_loop :: "(nat \<Rightarrow> handle) \<Rightarrow> handle \<Rightarrow> nat \<Rightarrow> nat \<Rightarrow> nat \<Rightarrow> handle list \<Rightarrow> nat \<times> handle list"
where
  "values_loop read und size' i p result =
     (if i < size' then
        let el = read i in
        if el \<noteq> 0 \<and> el \<noteq> und then values_loop read und size' (i + 1) (p + 1) (result[p - 1 := el])
        else values_loop read und size' (i + 1) p result
      else (p, result))"
  by pat_completeness auto
termination
  by (relation "measure (\<lambda>(read, und, size', i, p, result). size' - i)") auto

declare values_loop.simps [simp del]

definition ObjSetValues :: "handle \<Rightarrow> objtable \<Rightarrow> handle list" where
  "ObjSetValues und tab =
     snd (values_loop (READ_SLOT tab) und (OBJSET_SIZE tab) 0 1 (replicate (OBJSET_USED tab) 0))"

subsection \<open>Object maps\<close>

text \<open>Entry \<open>i\<close> of a tab is its key at slot \<open>2 * i\<close> and its value at slot \<open>2 * i + 1\<close>.\<close>

definition NewObjMap :: objtable where
  "NewObjMap = \<lparr>OBJSET_SIZE = DEFAULT_OBJSET_SIZE, OBJSET_BITS = DEFAULT_OBJSET_BITS, OBJSET_USED = 0,
     OBJSET_DIRTY = 0, slots = replicate (2 * DEFAULT_OBJSET_SIZE) 0\<rparr>"

definition FindObjMap :: "objtable \<Rightarrow> handle \<Rightarrow> int option" where
  "FindObjMap tab obj =
     find_loop (\<lambda>hash. READ_SLOT tab (hash * 2)) (OBJSET_SIZE tab) obj (ObjHash tab obj)"

definition LookupObjMap :: "objtable \<Rightarrow> handle \<Rightarrow> handle option" where
  "LookupObjMap tab obj =
     Option.bind (FindObjMap tab obj) (\<lambda>index.
       if index < 0 then Some 0 else Some (READ_SLOT tab (nat (index * 2 + 1))))"

definition AddObjMapNew :: "handle \<Rightarrow> objtable \<Rightarrow> handle \<Rightarrow> handle \<Rightarrow> objtable option" where
  "AddObjMapNew und tab key val =
     Option.bind (free_loop (\<lambda>hash. READ_SLOT tab (hash * 2)) und (OBJSET_SIZE tab) (ObjHash tab key)) (\<lambda>hash.
       let current = READ_SLOT tab (hash * 2);
           tab' = WRITE_SLOT (WRITE_SLOT tab (hash * 2) key) (hash * 2 + 1) val;
           tab'' = tab'\<lparr>OBJSET_USED := OBJSET_USED tab' + 1\<rparr> in
       if current = 0 then Some tab''
       else Some (tab''\<lparr>OBJSET_DIRTY := OBJSET_DIRTY tab'' - 1\<rparr>))"

function resize_map_loop :: "handle \<Rightarrow> objtable \<Rightarrow> nat \<Rightarrow> objtable \<Rightarrow> objtable option" where
  "resize_map_loop und tab i new =
     (if i < OBJSET_SIZE tab then
        let obj = READ_SLOT tab (i * 2) in
        if obj \<noteq> 0 \<and> obj \<noteq> und then
          Option.bind (AddObjMapNew und new obj (READ_SLOT tab (i * 2 + 1))) (resize_map_loop und tab (i + 1))
        else resize_map_loop und tab (i + 1) new
      else Some new)"
  by pat_completeness auto
termination
  by (relation "measure (\<lambda>(und, tab, i, new). OBJSET_SIZE tab - i)") auto

declare resize_map_loop.simps [simp del]

definition ResizeObjMap :: "handle \<Rightarrow> objtable \<Rightarrow> nat \<Rightarrow> objtable option" where
  "ResizeObjMap und tab bits =
     (if bits \<ge> 31 then None
      else let new_size = 2 ^ bits in
        resize_map_loop und tab 0
          \<lparr>OBJSET_SIZE = new_size, OBJSET_BITS = bits, OBJSET_USED = 0, OBJSET_DIRTY = 0,
           slots = replicate (2 * new_size) 0\<rparr>)"

definition CheckObjMapForCleanUp :: "handle \<Rightarrow> objtable \<Rightarrow> nat \<Rightarrow> objtable option" where
  "CheckObjMapForCleanUp und tab expand =
     (let size' = OBJSET_SIZE tab; bits = OBJSET_BITS tab; used = OBJSET_USED tab + expand;
          dirty = OBJSET_DIRTY tab in
      if used * 3 \<ge> size' * 2 then ResizeObjMap und tab (bits + 1)
      else if dirty \<noteq> 0 \<and> (dirty \<ge> used \<or> (dirty + used) * 3 \<ge> size' * 2) then ResizeObjMap und tab bits
      else Some tab)"

definition AddObjMap :: "handle \<Rightarrow> objtable \<Rightarrow> handle \<Rightarrow> handle \<Rightarrow> objtable option" where
  "AddObjMap und tab key val =
     Option.bind (FindObjMap tab key) (\<lambda>pos.
       if pos \<ge> 0 then Some (WRITE_SLOT tab (nat (pos * 2 + 1)) val)
       else Option.bind (CheckObjMapForCleanUp und tab 1) (\<lambda>tab. AddObjMapNew und tab key val))"

definition RemoveObjMap :: "handle \<Rightarrow> objtable \<Rightarrow> handle \<Rightarrow> objtable option" where
  "RemoveObjMap und tab key =
     Option.bind (FindObjMap tab key) (\<lambda>pos.
       if pos \<ge> 0 then
         let tab = WRITE_SLOT tab (nat (pos * 2)) und;
             tab = WRITE_SLOT tab (nat (pos * 2 + 1)) 0;
             tab = tab\<lparr>OBJSET_USED := OBJSET_USED tab - 1\<rparr>;
             tab = tab\<lparr>OBJSET_DIRTY := OBJSET_DIRTY tab + 1\<rparr> in
         CheckObjMapForCleanUp und tab 0
       else Some tab)"

definition ClearObjMap :: "objtable \<Rightarrow> objtable" where
  "ClearObjMap tab = NewObjMap"

definition ObjMapValues :: "handle \<Rightarrow> objtable \<Rightarrow> handle list" where
  "ObjMapValues und tab =
     snd (values_loop (\<lambda>i. READ_SLOT tab (2 * i + 1)) und (OBJSET_SIZE tab) 0 1 (replicate (OBJSET_USED tab) 0))"

definition ObjMapKeys :: "handle \<Rightarrow> objtable \<Rightarrow> handle list" where
  "ObjMapKeys und tab =
     snd (values_loop (\<lambda>i. READ_SLOT tab (2 * i)) und (OBJSET_SIZE tab) 0 1 (replicate (OBJSET_USED tab) 0))"

subsection \<open>The functions of the GAP level\<close>

text \<open>
  An argument is an object of one of the four table types, with its contents and its mutability, or any other
  object. A list argument is the sequence of its entries, \<open>None\<close> for a hole, or \<open>None\<close> when the object is
  not a list; reading a hole with \<open>ELM_LIST\<close> is an error.
\<close>

datatype gapobj = ObjSet (is_mutable: bool) (contents: objtable) | ObjMap (is_mutable: bool) (contents: objtable)
  | OtherObj

type_synonym list_arg = "handle option list option"

definition IS_OBJSET :: "gapobj \<Rightarrow> bool" where
  "IS_OBJSET obj = (case obj of ObjSet _ _ \<Rightarrow> True | _ \<Rightarrow> False)"

definition IS_OBJMAP :: "gapobj \<Rightarrow> bool" where
  "IS_OBJMAP obj = (case obj of ObjMap _ _ \<Rightarrow> True | _ \<Rightarrow> False)"

definition is_T_OBJSET :: "gapobj \<Rightarrow> bool" where
  "is_T_OBJSET obj \<longleftrightarrow> IS_OBJSET obj \<and> is_mutable obj"

definition is_T_OBJMAP :: "gapobj \<Rightarrow> bool" where
  "is_T_OBJMAP obj \<longleftrightarrow> IS_OBJMAP obj \<and> is_mutable obj"

definition RequireTable :: "bool \<Rightarrow> string \<Rightarrow> 'a option \<Rightarrow> 'a result option" where
  "RequireTable cond msg r = (if \<not> cond then Some (Inl msg) else map_option Inr r)"

primrec obj_set_loop :: "handle \<Rightarrow> objtable \<Rightarrow> handle option list \<Rightarrow> objtable result option" where
  "obj_set_loop und result [] = Some (Inr result)"
| "obj_set_loop und result (elm # elms) =
     (case elm of
        None \<Rightarrow> Some (Inl ''List Element: <list>[<pos>] must have an assigned value'')
      | Some obj \<Rightarrow>
          if obj \<noteq> 0 then Option.bind (AddObjSet und result obj) (\<lambda>result. obj_set_loop und result elms)
          else obj_set_loop und result elms)"

definition FuncOBJ_SET :: "handle \<Rightarrow> list_arg list \<Rightarrow> gapobj result option" where
  "FuncOBJ_SET und arg =
     (case arg of
        [] \<Rightarrow> Some (Inr (ObjSet True NewObjSet))
      | [list] \<Rightarrow>
          (case list of
             None \<Rightarrow> Some (Inl ''OBJ_SET: Argument must be a list'')
           | Some elms \<Rightarrow> map_option (\<lambda>r. rbind r (\<lambda>t. Inr (ObjSet True t))) (obj_set_loop und NewObjSet elms))
      | _ \<Rightarrow> Some (Inl ''OBJ_SET: Too many arguments''))"

definition FuncADD_OBJ_SET :: "handle \<Rightarrow> gapobj \<Rightarrow> handle \<Rightarrow> gapobj result option" where
  "FuncADD_OBJ_SET und oset obj =
     RequireTable (is_T_OBJSET oset) ''must be a mutable object set''
       (map_option (ObjSet True) (AddObjSet und (contents oset) obj))"

definition FuncREMOVE_OBJ_SET :: "handle \<Rightarrow> gapobj \<Rightarrow> handle \<Rightarrow> gapobj result option" where
  "FuncREMOVE_OBJ_SET und oset obj =
     RequireTable (is_T_OBJSET oset) ''must be a mutable object set''
       (map_option (ObjSet True) (RemoveObjSet und (contents oset) obj))"

definition FuncFIND_OBJ_SET :: "gapobj \<Rightarrow> handle \<Rightarrow> bool result option" where
  "FuncFIND_OBJ_SET oset obj =
     RequireTable (IS_OBJSET oset) ''must be an object set''
       (map_option (\<lambda>pos. pos \<ge> 0) (FindObjSet (contents oset) obj))"

definition FuncCLEAR_OBJ_SET :: "gapobj \<Rightarrow> gapobj result option" where
  "FuncCLEAR_OBJ_SET oset =
     RequireTable (is_T_OBJSET oset) ''must be a mutable object set'' (Some (ObjSet True (ClearObjSet (contents oset))))"

definition FuncOBJ_SET_VALUES :: "handle \<Rightarrow> gapobj \<Rightarrow> handle list result option" where
  "FuncOBJ_SET_VALUES und oset =
     RequireTable (IS_OBJSET oset) ''must be an object set'' (Some (ObjSetValues und (contents oset)))"

text \<open>The list of \<open>OBJ_MAP\<close> has even length when its loop starts; the loop reads two entries in a step.\<close>

fun obj_map_loop :: "handle \<Rightarrow> objtable \<Rightarrow> handle option list \<Rightarrow> objtable result option" where
  "obj_map_loop und result (k # v # elms) =
     (case (k, v) of
        (Some key, Some val) \<Rightarrow>
          if key \<noteq> 0 \<and> val \<noteq> 0 then
            Option.bind (AddObjMap und result key val) (\<lambda>result. obj_map_loop und result elms)
          else obj_map_loop und result elms
      | _ \<Rightarrow> Some (Inl ''List Element: <list>[<pos>] must have an assigned value''))"
| "obj_map_loop und result _ = Some (Inr result)"

definition FuncOBJ_MAP :: "handle \<Rightarrow> list_arg list \<Rightarrow> gapobj result option" where
  "FuncOBJ_MAP und arg =
     (case arg of
        [] \<Rightarrow> Some (Inr (ObjMap True NewObjMap))
      | [list] \<Rightarrow>
          (case list of
             None \<Rightarrow> Some (Inl ''OBJ_MAP: Argument must be a list with even length'')
           | Some elms \<Rightarrow>
               if length elms mod 2 \<noteq> 0 then Some (Inl ''OBJ_MAP: Argument must be a list with even length'')
               else map_option (\<lambda>r. rbind r (\<lambda>t. Inr (ObjMap True t))) (obj_map_loop und NewObjMap elms))
      | _ \<Rightarrow> Some (Inl ''OBJ_MAP: Too many arguments''))"

definition FuncADD_OBJ_MAP :: "handle \<Rightarrow> gapobj \<Rightarrow> handle \<Rightarrow> handle \<Rightarrow> gapobj result option" where
  "FuncADD_OBJ_MAP und omap key val =
     RequireTable (is_T_OBJMAP omap) ''must be a mutable object map''
       (map_option (ObjMap True) (AddObjMap und (contents omap) key val))"

definition FuncFIND_OBJ_MAP :: "gapobj \<Rightarrow> handle \<Rightarrow> handle \<Rightarrow> handle result option" where
  "FuncFIND_OBJ_MAP omap key defvalue =
     RequireTable (IS_OBJMAP omap) ''must be an object map''
       (map_option (\<lambda>pos. if pos < 0 then defvalue else READ_SLOT (contents omap) (nat (2 * pos + 1)))
         (FindObjMap (contents omap) key))"

definition FuncCONTAINS_OBJ_MAP :: "gapobj \<Rightarrow> handle \<Rightarrow> bool result option" where
  "FuncCONTAINS_OBJ_MAP omap key =
     RequireTable (IS_OBJMAP omap) ''must be an object map''
       (map_option (\<lambda>pos. pos \<ge> 0) (FindObjMap (contents omap) key))"

definition FuncREMOVE_OBJ_MAP :: "handle \<Rightarrow> gapobj \<Rightarrow> handle \<Rightarrow> gapobj result option" where
  "FuncREMOVE_OBJ_MAP und omap key =
     RequireTable (is_T_OBJMAP omap) ''must be a mutable object map''
       (map_option (ObjMap True) (RemoveObjMap und (contents omap) key))"

definition FuncCLEAR_OBJ_MAP :: "gapobj \<Rightarrow> gapobj result option" where
  "FuncCLEAR_OBJ_MAP omap =
     RequireTable (is_T_OBJMAP omap) ''must be a mutable object map'' (Some (ObjMap True (ClearObjMap (contents omap))))"

definition FuncOBJ_MAP_VALUES :: "handle \<Rightarrow> gapobj \<Rightarrow> handle list result option" where
  "FuncOBJ_MAP_VALUES und omap =
     RequireTable (IS_OBJMAP omap) ''must be an object map'' (Some (ObjMapValues und (contents omap)))"

definition FuncOBJ_MAP_KEYS :: "handle \<Rightarrow> gapobj \<Rightarrow> handle list result option" where
  "FuncOBJ_MAP_KEYS und omap =
     RequireTable (IS_OBJMAP omap) ''must be an object map'' (Some (ObjMapKeys und (contents omap)))"

subsection \<open>Saving, loading and copying\<close>

text \<open>
  A workspace stores a bag by its index (the link word \<open>AddSaveIndex\<close> gives it) shifted by two bits, and an
  immediate object by its word (\<open>src/src/saveload.c\<close>); when it is loaded, the bag with index \<open>n\<close> gets the
  \<open>n\<close>-th master pointer. The model's bags are valid, so the branch with the warning of \<open>SaveSubObj\<close> is not
  taken. The stream is the list of the words written.
\<close>

definition IS_FFE :: "handle \<Rightarrow> bool" where
  "IS_FFE obj \<longleftrightarrow> obj AND 0x02 \<noteq> 0"

definition SaveSubObj :: "(handle \<Rightarrow> UInt) \<Rightarrow> handle \<Rightarrow> UInt" where
  "SaveSubObj LINK_BAG subobj =
     (if subobj = 0 then 0
      else if IS_INTOBJ subobj then subobj
      else if IS_FFE subobj then subobj
      else push_bit 2 (LINK_BAG subobj))"

definition RESTORE_BAG_CONTENT_POINTER :: "UInt \<Rightarrow> UInt \<Rightarrow> handle" where
  "RESTORE_BAG_CONTENT_POINTER MptrBags offset = MptrBags + 8 * offset - 8"

definition LoadSubObj :: "UInt \<Rightarrow> UInt \<Rightarrow> handle" where
  "LoadSubObj MptrBags word =
     (if word = 0 then 0
      else if word AND 0x3 \<noteq> 0 then word
      else RESTORE_BAG_CONTENT_POINTER MptrBags (drop_bit 2 word))"

definition SaveObjSet :: "(handle \<Rightarrow> UInt) \<Rightarrow> handle \<Rightarrow> objtable \<Rightarrow> UInt list" where
  "SaveObjSet LINK_BAG und tab =
     [of_nat (OBJSET_SIZE tab), of_nat (OBJSET_BITS tab), of_nat (OBJSET_USED tab)] @
     map (SaveSubObj LINK_BAG) (filter (\<lambda>val. \<not> (val = 0 \<or> val = und)) (map (READ_SLOT tab) [0 ..< OBJSET_SIZE tab]))"

text \<open>The bag to be loaded has the size of the saved one and is filled with zeroes.\<close>

primrec load_set_loop :: "UInt \<Rightarrow> handle \<Rightarrow> nat \<Rightarrow> UInt list \<Rightarrow> objtable \<Rightarrow> objtable option" where
  "load_set_loop MptrBags und 0 stream tab = Some tab"
| "load_set_loop MptrBags und (Suc n) stream tab =
     (case stream of
        [] \<Rightarrow> None
      | w # stream \<Rightarrow> Option.bind (AddObjSetNew und tab (LoadSubObj MptrBags w)) (load_set_loop MptrBags und n stream))"

definition LoadObjSet :: "UInt \<Rightarrow> handle \<Rightarrow> UInt list \<Rightarrow> handle list \<Rightarrow> objtable option" where
  "LoadObjSet MptrBags und stream data =
     (case stream of
        size' # bits # used # stream \<Rightarrow>
          load_set_loop MptrBags und (unat used) stream
            \<lparr>OBJSET_SIZE = unat size', OBJSET_BITS = unat bits, OBJSET_USED = 0, OBJSET_DIRTY = 0, slots = data\<rparr>
      | _ \<Rightarrow> None)"

definition SaveObjMap :: "(handle \<Rightarrow> UInt) \<Rightarrow> handle \<Rightarrow> objtable \<Rightarrow> UInt list" where
  "SaveObjMap LINK_BAG und tab =
     [of_nat (OBJSET_SIZE tab), of_nat (OBJSET_BITS tab), of_nat (OBJSET_USED tab)] @
     concat (map (\<lambda>i. let key = READ_SLOT tab (2 * i); val = READ_SLOT tab (2 * i + 1) in
       if key = 0 \<or> key = und then [] else [SaveSubObj LINK_BAG key, SaveSubObj LINK_BAG val]) [0 ..< OBJSET_SIZE tab])"

primrec load_map_loop :: "UInt \<Rightarrow> handle \<Rightarrow> nat \<Rightarrow> UInt list \<Rightarrow> objtable \<Rightarrow> objtable option" where
  "load_map_loop MptrBags und 0 stream tab = Some tab"
| "load_map_loop MptrBags und (Suc n) stream tab =
     (case stream of
        k # v # stream \<Rightarrow>
          Option.bind (AddObjMapNew und tab (LoadSubObj MptrBags k) (LoadSubObj MptrBags v))
            (load_map_loop MptrBags und n stream)
      | _ \<Rightarrow> None)"

definition LoadObjMap :: "UInt \<Rightarrow> handle \<Rightarrow> UInt list \<Rightarrow> handle list \<Rightarrow> objtable option" where
  "LoadObjMap MptrBags und stream data =
     (case stream of
        size' # bits # used # stream \<Rightarrow>
          load_map_loop MptrBags und (unat used) stream
            \<lparr>OBJSET_SIZE = unat size', OBJSET_BITS = unat bits, OBJSET_USED = 0, OBJSET_DIRTY = 0, slots = data\<rparr>
      | _ \<Rightarrow> None)"

text \<open>
  The thread-safe copy of a set first copies the bag word by word and then replaces each slot; \<open>repl\<close> is
  \<open>ReplaceByCopy\<close>, which maps an object to its copy.
\<close>

definition CopyObjSet :: "(handle \<Rightarrow> handle) \<Rightarrow> objtable \<Rightarrow> objtable" where
  "CopyObjSet repl original =
     foldl (\<lambda>copy i. WRITE_SLOT copy i (repl (READ_SLOT original i))) original [0 ..< OBJSET_SIZE original]"

end
