(* ===== verification/ObjSetCorrect.thy ===== *)
theory ObjSetCorrect
  imports ObjSet
begin

text \<open>
  The hash tables of object sets and maps do what finite sets and maps do. The first part is about the keys of a
  table as a list \<open>ks\<close>: the invariant \<open>table_ok\<close> of the header words and of the probing order, the two probing
  loops, and how storing or deleting a key keeps the invariant. The others lift it to the operations of sets and
  maps, with the load bound that leaves an empty entry for every search to stop at.
\<close>

subsection \<open>The hash and the probing order\<close>

definition live :: "handle \<Rightarrow> handle \<Rightarrow> bool" where
  "live und h \<longleftrightarrow> h \<noteq> 0 \<and> h \<noteq> und"

definition probe :: "nat \<Rightarrow> nat \<Rightarrow> nat \<Rightarrow> nat" where
  "probe n h d = (h + d) mod n"

definition khash :: "nat \<Rightarrow> handle \<Rightarrow> nat" where
  "khash bits obj = unat (FibHash obj bits)"

lemma khash_less: "bits \<le> 64 \<Longrightarrow> khash bits obj < 2 ^ bits"
proof -
  assume b: "bits \<le> 64"
  let ?w = "unat (obj * FIB_HASH_MULT)"
  have "?w < 2 ^ 64"
  proof -
    have "?w < 2 ^ LENGTH(64)" by (rule unsigned_less)
    then show ?thesis by simp
  qed
  then have "?w < 2 ^ (64 - bits) * 2 ^ bits"
    using b by (simp flip: power_add)
  then have "?w div 2 ^ (64 - bits) < 2 ^ bits"
    by (simp add: div_less_iff_less_mult mult.commute)
  then show ?thesis
    unfolding khash_def FibHash_def unat_drop_bit_eq by (simp add: drop_bit_eq_div)
qed

lemma ObjHash_khash: "ObjHash tab obj = khash (OBJSET_BITS tab) obj"
  by (simp add: ObjHash_def khash_def)

lemma probe_less: "0 < n \<Longrightarrow> probe n h d < n"
  by (simp add: probe_def)

lemma probe_0: "h < n \<Longrightarrow> probe n h 0 = h"
  by (simp add: probe_def)

lemma probe_Suc: "h < n \<Longrightarrow> probe n h (Suc d) = probe n (if h + 1 \<ge> n then 0 else h + 1) d"
proof -
  assume h: "h < n"
  have "(if h + 1 \<ge> n then 0 else h + 1) = (h + 1) mod n"
    using h by (auto simp: le_Suc_eq)
  then show ?thesis
    by (simp add: probe_def mod_add_left_eq)
qed

lemma probe_onto:
  assumes "h < n" "i < n" obtains d where "d < n" "probe n h d = i"
proof -
  have "probe n h ((i + (n - h)) mod n) = (h + (i + (n - h))) mod n"
    by (simp add: probe_def mod_add_right_eq)
  also have "\<dots> = i"
    using assms by simp
  finally show thesis
    using that [of "(i + (n - h)) mod n"] assms by simp
qed

text \<open>Both loops skip the entries they do not stop at.\<close>

lemma find_loop_skip:
  "h < n \<Longrightarrow> (\<And>j. j < d \<Longrightarrow> key (probe n h j) \<noteq> 0 \<and> key (probe n h j) \<noteq> obj) \<Longrightarrow>
   find_loop key n obj h = find_loop key n obj (probe n h d)"
proof (induction d arbitrary: h)
  case 0
  then show ?case by (simp add: probe_0)
next
  case (Suc d)
  let ?h = "if h + 1 \<ge> n then 0 else h + 1"
  have "find_loop key n obj h = find_loop key n obj ?h"
    using Suc.prems(1) Suc.prems(2) [of 0] by (subst find_loop.simps) (simp add: probe_0)
  also have "\<dots> = find_loop key n obj (probe n ?h d)"
    using Suc.prems(1) Suc.prems(2) [of "Suc j" for j] by (intro Suc.IH) (auto simp: probe_Suc)
  finally show ?case
    using Suc.prems(1) by (simp add: probe_Suc)
qed

lemma free_loop_skip:
  "h < n \<Longrightarrow> (\<And>j. j < d \<Longrightarrow> live und (key (probe n h j))) \<Longrightarrow>
   free_loop key und n h = free_loop key und n (probe n h d)"
proof (induction d arbitrary: h)
  case 0
  then show ?case by (simp add: probe_0)
next
  case (Suc d)
  let ?h = "if h + 1 \<ge> n then 0 else h + 1"
  have "free_loop key und n h = free_loop key und n ?h"
    using Suc.prems(1) Suc.prems(2) [of 0] by (subst free_loop.simps) (simp add: probe_0 live_def)
  also have "\<dots> = free_loop key und n (probe n ?h d)"
    using Suc.prems(1) Suc.prems(2) [of "Suc j" for j] by (intro Suc.IH) (auto simp: probe_Suc)
  finally show ?case
    using Suc.prems(1) by (simp add: probe_Suc)
qed

lemma first_probe:
  assumes "h < n" "i < n" "P i"
  obtains d where "P (probe n h d)" "\<And>j. j < d \<Longrightarrow> \<not> P (probe n h j)"
proof -
  obtain d0 where d0: "P (probe n h d0)"
    using probe_onto [OF assms(1,2)] assms(3) by metis
  show thesis
    using that [of "LEAST d. P (probe n h d)"] LeastI [of "\<lambda>d. P (probe n h d)", OF d0] not_less_Least
    by blast
qed

lemma find_loop_stops:
  assumes "h < n" "i < n" "key i = 0 \<or> key i = obj"
  obtains d where "key (probe n h d) = 0 \<or> key (probe n h d) = obj"
    "\<And>j. j < d \<Longrightarrow> key (probe n h j) \<noteq> 0 \<and> key (probe n h j) \<noteq> obj"
    "find_loop key n obj h = Some (if key (probe n h d) = 0 then - 1 else int (probe n h d))"
proof -
  obtain d where d: "key (probe n h d) = 0 \<or> key (probe n h d) = obj"
    "\<And>j. j < d \<Longrightarrow> \<not> (key (probe n h j) = 0 \<or> key (probe n h j) = obj)"
    using first_probe [where P = "\<lambda>i. key i = 0 \<or> key i = obj", OF assms(1,2)] assms(3) by blast
  have "find_loop key n obj h = find_loop key n obj (probe n h d)"
    using d(2) by (intro find_loop_skip [OF assms(1)]) blast
  then have "find_loop key n obj h = Some (if key (probe n h d) = 0 then - 1 else int (probe n h d))"
    using d(1) by (auto simp: find_loop.simps [of key n obj "probe n h d"] Let_def split: if_splits)
  with d show thesis using that by blast
qed

lemma free_loop_stops:
  assumes "h < n" "i < n" "\<not> live und (key i)"
  obtains d where "\<not> live und (key (probe n h d))" "\<And>j. j < d \<Longrightarrow> live und (key (probe n h j))"
    "free_loop key und n h = Some (probe n h d)"
proof -
  obtain d where d: "\<not> live und (key (probe n h d))" "\<And>j. j < d \<Longrightarrow> live und (key (probe n h j))"
    using first_probe [of h n i "\<lambda>i. \<not> live und (key i)"] assms by auto
  have "free_loop key und n h = free_loop key und n (probe n h d)"
    using d(2) by (rule free_loop_skip [OF assms(1)])
  then have "free_loop key und n h = Some (probe n h d)"
    using d(1) by (simp add: live_def free_loop.simps [of key und n "probe n h d"] Let_def split: if_splits)
  with d show thesis using that by blast
qed

subsection \<open>The invariant of the keys\<close>

text \<open>
  The header words describe the keys, no key occurs twice, and on the way from the hash of a key to its entry
  there is no empty entry.
\<close>

definition reached :: "nat \<Rightarrow> handle list \<Rightarrow> nat \<Rightarrow> bool" where
  "reached bits ks i \<longleftrightarrow>
     (\<exists>d. probe (length ks) (khash bits (ks ! i)) d = i \<and>
       (\<forall>j<d. ks ! probe (length ks) (khash bits (ks ! i)) j \<noteq> 0))"

definition table_ok :: "handle \<Rightarrow> nat \<Rightarrow> nat \<Rightarrow> nat \<Rightarrow> handle list \<Rightarrow> bool" where
  "table_ok und bits used dirty ks \<longleftrightarrow>
     bits \<le> 30 \<and> length ks = 2 ^ bits \<and>
     used = card {i. i < length ks \<and> live und (ks ! i)} \<and> dirty = card {i. i < length ks \<and> ks ! i = und} \<and>
     inj_on ((!) ks) {i. i < length ks \<and> live und (ks ! i)} \<and>
     (\<forall>i<length ks. live und (ks ! i) \<longrightarrow> reached bits ks i)"

lemma table_ok_hash_less: "table_ok und bits used dirty ks \<Longrightarrow> khash bits obj < length ks"
  using khash_less [of bits obj] by (simp add: table_ok_def)

text \<open>Every entry is live, deleted or empty.\<close>

lemma entries_partition:
  assumes "und \<noteq> 0"
  shows "card {i. i < length ks \<and> live und (ks ! i)} + card {i. i < length ks \<and> ks ! i = und} +
    card {i. i < length ks \<and> ks ! i = 0} = length ks"
proof -
  let ?L = "{i. i < length ks \<and> live und (ks ! i)}" and ?D = "{i. i < length ks \<and> ks ! i = und}"
    and ?Z = "{i. i < length ks \<and> ks ! i = 0}"
  have "card (?L \<union> ?D \<union> ?Z) = card (?L \<union> ?D) + card ?Z"
    using assms by (intro card_Un_disjoint) (auto simp: live_def)
  also have "card (?L \<union> ?D) = card ?L + card ?D"
    by (intro card_Un_disjoint) (auto simp: live_def)
  finally have "card ?L + card ?D + card ?Z = card (?L \<union> ?D \<union> ?Z)" by simp
  also have "?L \<union> ?D \<union> ?Z = {..<length ks}"
    by (auto simp: live_def)
  finally show ?thesis by simp
qed

lemma table_has_empty:
  assumes "table_ok und bits used dirty ks" "und \<noteq> 0" "used + dirty < length ks"
  obtains i where "i < length ks" "ks ! i = 0"
proof -
  have "card {i. i < length ks \<and> ks ! i = 0} \<noteq> 0"
    using entries_partition [OF assms(2), of ks] assms(1,3) unfolding table_ok_def by linarith
  then show thesis
    using that by (auto simp: card_eq_0_iff)
qed

lemma table_has_free:
  assumes "table_ok und bits used dirty ks" "used < length ks"
  obtains i where "i < length ks" "\<not> live und (ks ! i)"
proof -
  have "{i. i < length ks \<and> live und (ks ! i)} \<noteq> {..<length ks}"
    using assms by (auto simp: table_ok_def)
  then show thesis
    using that by auto
qed

lemma table_ok_empty: "und \<noteq> 0 \<Longrightarrow> bits \<le> 30 \<Longrightarrow> table_ok und bits 0 0 (replicate (2 ^ bits) 0)"
  by (auto simp: table_ok_def live_def inj_on_def)

lemma live_update:
  assumes "i < length ks" "\<not> live und (ks ! i)" "live und obj"
  shows "{j. j < length (ks[i := obj]) \<and> live und (ks[i := obj] ! j)} =
    insert i {j. j < length ks \<and> live und (ks ! j)}"
  using assms by (auto simp: nth_list_update)

lemma deleted_update:
  assumes "i < length ks" "live und obj"
  shows "{j. j < length (ks[i := obj]) \<and> ks[i := obj] ! j = und} = {j. j < length ks \<and> ks ! j = und} - {i}"
  using assms by (auto simp: nth_list_update live_def)

text \<open>Replacing an entry by one that is not empty keeps every other live entry reachable.\<close>

lemma reached_update:
  assumes "reached bits ks j" "j \<noteq> i" "obj \<noteq> 0"
  shows "reached bits (ks[i := obj]) j"
proof -
  have nz: "ks[i := obj] ! k \<noteq> 0" if "ks ! k \<noteq> 0" for k
    using that assms(3) by (cases "k = i"; cases "i < length ks") (simp_all add: list_update_beyond)
  have "ks[i := obj] ! j = ks ! j"
    using assms(2) by simp
  then show ?thesis
    using assms(1) nz unfolding reached_def by auto
qed

lemma table_ok_store:
  assumes ok: "table_ok und bits used dirty ks" and und: "und \<noteq> 0" and obj: "live und obj" "obj \<notin> set ks"
    and d: "\<not> live und (ks ! probe (length ks) (khash bits obj) d)"
    "\<And>j. j < d \<Longrightarrow> live und (ks ! probe (length ks) (khash bits obj) j)"
    and i: "i = probe (length ks) (khash bits obj) d"
  shows "table_ok und bits (used + 1) (if ks ! i = 0 then dirty else dirty - 1) (ks[i := obj])"
proof -
  let ?ks = "ks[i := obj]" and ?L = "{j. j < length ks \<and> live und (ks ! j)}"
  have n: "0 < length ks" using ok by (simp add: table_ok_def)
  then have i_less: "i < length ks" and dead: "\<not> live und (ks ! i)"
    using d(1) by (simp_all add: i probe_less)
  have L: "{j. j < length ?ks \<and> live und (?ks ! j)} = insert i ?L"
    by (rule live_update [OF i_less dead obj(1)])
  have "used + 1 = card {j. j < length ?ks \<and> live und (?ks ! j)}"
    unfolding L using ok dead by (simp add: table_ok_def)
  moreover have "(if ks ! i = 0 then dirty else dirty - 1) = card {j. j < length ?ks \<and> ?ks ! j = und}"
    unfolding deleted_update [OF i_less obj(1)] using ok dead und i_less
    by (auto simp: table_ok_def live_def card_Diff_singleton_if)
  moreover have "inj_on ((!) ?ks) {j. j < length ?ks \<and> live und (?ks ! j)}"
    unfolding L using ok dead obj(2) i_less
    by (auto simp: table_ok_def inj_on_def nth_list_update dest: nth_mem)
  moreover have "reached bits ?ks j" if "j < length ?ks" "live und (?ks ! j)" for j
  proof (cases "j = i")
    case True
    have "?ks ! probe (length ks) (khash bits obj) k \<noteq> 0" if "k < d" for k
      using d(2) [OF that] obj(1) i_less n
      by (cases "probe (length ks) (khash bits obj) k = i") (auto simp: live_def probe_less)
    then show ?thesis
      using True i_less unfolding reached_def i by auto
  next
    case False
    then show ?thesis
      using ok that obj(1) by (intro reached_update) (auto simp: table_ok_def live_def)
  qed
  ultimately show ?thesis
    using ok by (simp add: table_ok_def)
qed

lemma table_ok_delete:
  assumes ok: "table_ok und bits used dirty ks" and und: "und \<noteq> 0" and i: "i < length ks" "live und (ks ! i)"
  shows "table_ok und bits (used - 1) (dirty + 1) (ks[i := und])"
proof -
  let ?ks = "ks[i := und]"
  have L: "{j. j < length ?ks \<and> live und (?ks ! j)} = {j. j < length ks \<and> live und (ks ! j)} - {i}"
    using i by (auto simp: nth_list_update live_def split: if_splits)
  have D: "{j. j < length ?ks \<and> ?ks ! j = und} = insert i {j. j < length ks \<and> ks ! j = und}"
    using i by (auto simp: nth_list_update)
  have "reached bits ?ks j" if "j < length ?ks" "live und (?ks ! j)" for j
    using that ok und i by (cases "j = i") (auto intro: reached_update simp: table_ok_def live_def)
  moreover have "inj_on ((!) ?ks) {j. j < length ?ks \<and> live und (?ks ! j)}"
    unfolding L using ok by (auto simp: table_ok_def inj_on_def)
  ultimately show ?thesis
    using ok i unfolding table_ok_def L D by (auto simp: card_insert_if live_def)
qed

text \<open>With an empty entry left, the search finds every key and ends for all others.\<close>

lemma find_key:
  assumes ok: "table_ok und bits used dirty ks" and und: "und \<noteq> 0" and room: "used + dirty < length ks"
    and key: "\<And>i. i < length ks \<Longrightarrow> key i = ks ! i" and obj: "live und obj"
  shows "obj \<notin> set ks \<Longrightarrow> find_loop key (length ks) obj (khash bits obj) = Some (- 1)"
    and "i < length ks \<Longrightarrow> ks ! i = obj \<Longrightarrow> find_loop key (length ks) obj (khash bits obj) = Some (int i)"
proof -
  let ?p = "probe (length ks) (khash bits obj)"
  have h: "khash bits obj < length ks" by (rule table_ok_hash_less [OF ok])
  then have less: "?p j < length ks" for j by (intro probe_less) auto
  obtain i0 where i0: "i0 < length ks" "ks ! i0 = 0"
    by (rule table_has_empty [OF ok und room])
  obtain d where d: "key (?p d) = 0 \<or> key (?p d) = obj" "\<And>j. j < d \<Longrightarrow> key (?p j) \<noteq> 0 \<and> key (?p j) \<noteq> obj"
    "find_loop key (length ks) obj (khash bits obj) = Some (if key (?p d) = 0 then - 1 else int (?p d))"
    by (rule find_loop_stops [OF h i0(1), of key obj]) (use i0 key in auto)
  show "find_loop key (length ks) obj (khash bits obj) = Some (- 1)" if "obj \<notin> set ks"
  proof -
    have "key (?p d) \<noteq> obj"
      using that nth_mem [OF less] key [OF less] by metis
    then show ?thesis
      using d(1,3) by simp
  qed
  show "find_loop key (length ks) obj (khash bits obj) = Some (int i)" if i: "i < length ks" "ks ! i = obj"
  proof -
    obtain e where e: "?p e = i" "\<And>j. j < e \<Longrightarrow> ks ! ?p j \<noteq> 0"
      using ok i obj unfolding table_ok_def reached_def by blast
    have "d \<le> e"
      using d(2) [of e] e(1) i key by (metis not_le_imp_less)
    then have "key (?p d) = obj \<and> ?p d = i"
      using d(1) e i obj key less ok by (cases "d = e") (auto simp: table_ok_def inj_on_def live_def)
    then show ?thesis
      using d(3) obj by (auto simp: live_def)
  qed
qed

lemma free_key:
  assumes ok: "table_ok und bits used dirty ks" and room: "used < length ks"
    and key: "\<And>i. i < length ks \<Longrightarrow> key i = ks ! i"
  obtains d where "free_loop key und (length ks) (khash bits obj) = Some (probe (length ks) (khash bits obj) d)"
    "\<not> live und (ks ! probe (length ks) (khash bits obj) d)"
    "\<And>j. j < d \<Longrightarrow> live und (ks ! probe (length ks) (khash bits obj) j)"
proof -
  let ?p = "probe (length ks) (khash bits obj)"
  have h: "khash bits obj < length ks" by (rule table_ok_hash_less [OF ok])
  then have less: "?p j < length ks" for j by (intro probe_less) auto
  obtain i where i: "i < length ks" "\<not> live und (ks ! i)"
    by (rule table_has_free [OF ok room])
  obtain d where "\<not> live und (key (?p d))" "\<And>j. j < d \<Longrightarrow> live und (key (?p j))"
    "free_loop key und (length ks) (khash bits obj) = Some (?p d)"
    by (rule free_loop_stops [OF h i(1), of und key]) (use i key in auto)
  then show thesis
    using that less key by simp
qed

subsection \<open>Object sets\<close>

definition members :: "handle \<Rightarrow> objtable \<Rightarrow> handle set" where
  "members und tab = {h \<in> set (slots tab). live und h}"

definition set_ok :: "handle \<Rightarrow> objtable \<Rightarrow> bool" where
  "set_ok und tab \<longleftrightarrow>
     table_ok und (OBJSET_BITS tab) (OBJSET_USED tab) (OBJSET_DIRTY tab) (slots tab) \<and>
     OBJSET_SIZE tab = length (slots tab)"

text \<open>The load that the clean-up keeps: less than two thirds of the entries are in use or deleted.\<close>

definition load_ok :: "objtable \<Rightarrow> bool" where
  "load_ok tab \<longleftrightarrow> 3 * (OBJSET_USED tab + OBJSET_DIRTY tab) < 2 * OBJSET_SIZE tab"

lemma members_card:
  assumes "set_ok und tab"
  shows "card (members und tab) = OBJSET_USED tab"
proof -
  let ?L = "{i. i < length (slots tab) \<and> live und (slots tab ! i)}"
  have "members und tab = (!) (slots tab) ` ?L"
    by (auto simp: members_def in_set_conv_nth)
  moreover have "inj_on ((!) (slots tab)) ?L" and "OBJSET_USED tab = card ?L"
    using assms unfolding set_ok_def table_ok_def by blast+
  ultimately show ?thesis
    by (simp only: card_image)
qed

lemma members_finite [simp]: "finite (members und tab)"
  by (simp add: members_def)

lemma not_live_member: "\<not> live und obj \<Longrightarrow> obj \<notin> members und tab"
  by (simp add: members_def)

lemma FindObjSet_member:
  assumes "set_ok und tab" "load_ok tab" "und \<noteq> 0" "live und obj"
  shows "obj \<notin> members und tab \<Longrightarrow> FindObjSet tab obj = Some (- 1)"
    and "obj \<in> members und tab \<Longrightarrow>
      \<exists>i < OBJSET_SIZE tab. FindObjSet tab obj = Some (int i) \<and> slots tab ! i = obj"
proof -
  have room: "OBJSET_USED tab + OBJSET_DIRTY tab < length (slots tab)"
    and len: "OBJSET_SIZE tab = length (slots tab)"
    and ok: "table_ok und (OBJSET_BITS tab) (OBJSET_USED tab) (OBJSET_DIRTY tab) (slots tab)"
    using assms(1,2) by (auto simp: set_ok_def load_ok_def)
  note find = find_key [OF ok assms(3) room _ assms(4), of "READ_SLOT tab"]
  show "FindObjSet tab obj = Some (- 1)" if "obj \<notin> members und tab"
    using that find(1) assms(4) by (simp add: FindObjSet_def ObjHash_khash len members_def READ_SLOT_def)
  show "\<exists>i < OBJSET_SIZE tab. FindObjSet tab obj = Some (int i) \<and> slots tab ! i = obj" if "obj \<in> members und tab"
    using that find(2) unfolding FindObjSet_def ObjHash_khash len members_def in_set_conv_nth READ_SLOT_def
    by fastforce
qed

lemma AddObjSetNew_stores:
  assumes "set_ok und tab" "und \<noteq> 0" "live und obj" "obj \<notin> members und tab" "OBJSET_USED tab < OBJSET_SIZE tab"
  obtains tab' where "AddObjSetNew und tab obj = Some tab'" "set_ok und tab'"
    "members und tab' = insert obj (members und tab)" "OBJSET_SIZE tab' = OBJSET_SIZE tab"
    "OBJSET_BITS tab' = OBJSET_BITS tab" "OBJSET_USED tab' = OBJSET_USED tab + 1" "OBJSET_DIRTY tab' \<le> OBJSET_DIRTY tab"
proof -
  let ?ks = "slots tab" and ?p = "probe (length (slots tab)) (khash (OBJSET_BITS tab) obj)"
  have len: "OBJSET_SIZE tab = length ?ks"
    and ok: "table_ok und (OBJSET_BITS tab) (OBJSET_USED tab) (OBJSET_DIRTY tab) ?ks"
    using assms(1) by (auto simp: set_ok_def)
  have room: "OBJSET_USED tab < length ?ks" using assms(5) len by simp
  obtain d where d: "free_loop (READ_SLOT tab) und (length ?ks) (khash (OBJSET_BITS tab) obj) = Some (?p d)"
    "\<not> live und (?ks ! ?p d)" "\<And>j. j < d \<Longrightarrow> live und (?ks ! ?p j)"
    by (rule free_key [OF ok room, of "READ_SLOT tab" obj]) (auto simp: READ_SLOT_def)
  have "obj \<notin> set ?ks"
    using assms(3,4) by (simp add: members_def)
  note st = table_ok_store [OF ok assms(2,3) this d(2,3) refl]
  let ?tab = "tab\<lparr>slots := ?ks[?p d := obj], OBJSET_USED := OBJSET_USED tab + 1,
    OBJSET_DIRTY := if ?ks ! ?p d = 0 then OBJSET_DIRTY tab else OBJSET_DIRTY tab - 1\<rparr>"
  have less: "?p d < length ?ks"
    using room by (intro probe_less) linarith
  have mem: "members und ?tab = insert obj (members und tab)"
  proof (rule set_eqI)
    fix h
    show "h \<in> members und ?tab \<longleftrightarrow> h \<in> insert obj (members und tab)"
      using less d(2) assms(3) unfolding members_def in_set_conv_nth
      by (auto simp: nth_list_update) (metis nth_list_update_neq)
  qed
  have "AddObjSetNew und tab obj = Some ?tab"
    using d(1) by (simp add: AddObjSetNew_def ObjHash_khash len WRITE_SLOT_def READ_SLOT_def)
  moreover have "set_ok und ?tab"
    using st len by (simp add: set_ok_def split: if_splits)
  ultimately show thesis
    using mem by (rule that) simp_all
qed

text \<open>
  Rehashing stores the live entries below \<open>n\<close> in a table without deleted entries that has room for them.
\<close>

definition live_below :: "handle \<Rightarrow> handle list \<Rightarrow> nat \<Rightarrow> handle set" where
  "live_below und ks n = {ks ! i | i. i < n \<and> live und (ks ! i)}"

lemma live_below_0 [simp]: "live_below und ks 0 = {}"
  by (simp add: live_below_def)

lemma live_below_Suc:
  "live_below und ks (Suc n) = (if live und (ks ! n) then insert (ks ! n) (live_below und ks n) else live_below und ks n)"
  by (auto simp: live_below_def less_Suc_eq)

lemma live_below_members: "live_below und (slots tab) (length (slots tab)) = members und tab"
  by (auto simp: live_below_def members_def in_set_conv_nth)

lemma live_below_fresh:
  assumes "inj_on ((!) ks) {i. i < length ks \<and> live und (ks ! i)}" "n < length ks" "live und (ks ! n)"
  shows "ks ! n \<notin> live_below und ks n"
proof
  assume "ks ! n \<in> live_below und ks n"
  then obtain i where "i < n" "ks ! i = ks ! n" by (auto simp: live_below_def)
  then show False
    using inj_onD [OF assms(1), of i n] assms(2,3) by auto
qed

lemma live_below_finite [simp]: "finite (live_below und ks n)"
  by (induction n) (simp_all add: live_below_Suc)

lemma resize_set_loop_stores:
  assumes inj: "inj_on ((!) (slots tab)) {i. i < length (slots tab) \<and> live und (slots tab ! i)}" and und: "und \<noteq> 0"
  shows "n \<le> length (slots tab) \<Longrightarrow> set_ok und new \<Longrightarrow> OBJSET_DIRTY new = 0 \<Longrightarrow>
    members und new \<inter> live_below und (slots tab) n = {} \<Longrightarrow>
    OBJSET_USED new + card (live_below und (slots tab) n) < OBJSET_SIZE new \<Longrightarrow>
    \<exists>tab'. resize_set_loop und tab n new = Some tab' \<and> set_ok und tab' \<and> OBJSET_DIRTY tab' = 0 \<and>
      members und tab' = members und new \<union> live_below und (slots tab) n \<and>
      OBJSET_SIZE tab' = OBJSET_SIZE new \<and> OBJSET_BITS tab' = OBJSET_BITS new"
proof (induction n arbitrary: new)
  case 0
  then show ?case by simp
next
  case (Suc n)
  let ?obj = "slots tab ! n" and ?B = "live_below und (slots tab)"
  show ?case
  proof (cases "live und ?obj")
    case True
    have fresh: "?obj \<notin> ?B n"
      using Suc.prems(1) True by (intro live_below_fresh [OF inj]) auto
    then have card: "card (?B (Suc n)) = card (?B n) + 1"
      using True by (simp add: live_below_Suc)
    obtain new' where new': "AddObjSetNew und new ?obj = Some new'" "set_ok und new'"
      "members und new' = insert ?obj (members und new)" "OBJSET_SIZE new' = OBJSET_SIZE new"
      "OBJSET_BITS new' = OBJSET_BITS new" "OBJSET_USED new' = OBJSET_USED new + 1"
      "OBJSET_DIRTY new' \<le> OBJSET_DIRTY new"
      by (rule AddObjSetNew_stores [OF Suc.prems(2) und True]) (use Suc.prems True in \<open>auto simp: live_below_Suc\<close>)
    have "members und new' \<inter> ?B n = {}"
      using Suc.prems(4) fresh True unfolding new'(3) by (auto simp: live_below_Suc)
    then obtain tab' where "resize_set_loop und tab n new' = Some tab'" "set_ok und tab'" "OBJSET_DIRTY tab' = 0"
      "members und tab' = members und new' \<union> ?B n" "OBJSET_SIZE tab' = OBJSET_SIZE new'"
      "OBJSET_BITS tab' = OBJSET_BITS new'"
      using Suc.IH [of new'] Suc.prems new' card by auto
    then show ?thesis
      using True new' by (simp add: live_below_Suc live_def [symmetric])
  next
    case False
    then show ?thesis
      using Suc.IH [of new] Suc.prems by (simp add: live_below_Suc live_def [symmetric])
  qed
qed

lemma set_ok_empty:
  assumes "und \<noteq> 0" "bits \<le> 30"
  shows "set_ok und \<lparr>OBJSET_SIZE = 2 ^ bits, OBJSET_BITS = bits, OBJSET_USED = 0, OBJSET_DIRTY = 0,
    slots = replicate (2 ^ bits) 0\<rparr>"
  using table_ok_empty [OF assms] by (simp add: set_ok_def)

lemma ResizeObjSet_keeps:
  assumes "set_ok und tab" "und \<noteq> 0" "bits \<le> 30" "OBJSET_USED tab < 2 ^ bits"
  obtains tab' where "ResizeObjSet und tab bits = Some tab'" "set_ok und tab'" "members und tab' = members und tab"
    "OBJSET_DIRTY tab' = 0" "OBJSET_USED tab' = OBJSET_USED tab" "OBJSET_SIZE tab' = 2 ^ bits" "OBJSET_BITS tab' = bits"
proof -
  let ?new = "\<lparr>OBJSET_SIZE = 2 ^ bits, OBJSET_BITS = bits, OBJSET_USED = 0, OBJSET_DIRTY = 0,
    slots = replicate (2 ^ bits) 0\<rparr>"
  have inj: "inj_on ((!) (slots tab)) {i. i < length (slots tab) \<and> live und (slots tab ! i)}"
    and len: "OBJSET_SIZE tab = length (slots tab)"
    using assms(1) by (auto simp: set_ok_def table_ok_def)
  have none: "members und ?new = {}"
    by (auto simp: members_def live_def)
  have "OBJSET_USED ?new + card (live_below und (slots tab) (length (slots tab))) < OBJSET_SIZE ?new"
    using assms(4) by (simp add: live_below_members members_card [OF assms(1)])
  with resize_set_loop_stores [OF inj assms(2) le_refl set_ok_empty [OF assms(2,3)]] none
  obtain tab' where "resize_set_loop und tab (length (slots tab)) ?new = Some tab'" "set_ok und tab'"
    "OBJSET_DIRTY tab' = 0" "members und tab' = members und tab" "OBJSET_SIZE tab' = 2 ^ bits" "OBJSET_BITS tab' = bits"
    by (auto simp: live_below_members)
  moreover have "OBJSET_USED tab' = OBJSET_USED tab"
    using calculation members_card [OF assms(1)] members_card [of und tab'] by simp
  ultimately show thesis
    using assms(3) by (intro that [of tab']) (simp_all add: ResizeObjSet_def len)
qed

text \<open>
  The load decides between growing, rehashing and keeping the table; with at most \<open>2 ^ 29\<close> members the size stays
  below the limit of the shift. The arithmetic is the same for sets and maps.
\<close>

lemma load_after_growth:
  assumes "3 * (used + dirty) < 2 * 2 ^ bits" "expand \<le> (1 :: nat)"
  shows "3 * (used + expand) < 2 * 2 ^ (bits + 1 :: nat)" "(used :: nat) < 2 ^ (bits + 1)"
proof -
  have one: "(1 :: nat) \<le> 2 ^ bits" by simp
  have "3 * (used + expand) < 2 * (2 * p)" if "3 * (used + dirty) < 2 * p" "1 \<le> p" for p :: nat
    using that assms(2) by presburger
  from this [OF assms(1) one] show "3 * (used + expand) < 2 * 2 ^ (bits + 1 :: nat)"
    by simp
  show "used < 2 ^ (bits + 1)"
    using assms one by simp
qed

lemma growth_possible:
  assumes "2 * 2 ^ bits \<le> 3 * (used + expand)" "used + expand \<le> (2 :: nat) ^ 29" "bits \<le> 30"
  shows "bits + 1 \<le> (30 :: nat)"
proof (rule ccontr)
  assume "\<not> bits + 1 \<le> 30"
  then have "bits = 30" using assms(3) by simp
  then show False using assms(1,2) by simp
qed

lemma load_kept:
  "\<not> s * 2 \<le> (u + e) * 3 \<Longrightarrow> d = 0 \<or> \<not> s * 2 \<le> (d + (u + e)) * 3 \<Longrightarrow> 3 * (u + e + d) < 2 * (s :: nat)"
  by auto

lemma CheckObjSetForCleanUp_keeps:
  assumes "set_ok und tab" "load_ok tab" "und \<noteq> 0" "expand \<le> 1" "OBJSET_USED tab + expand \<le> 2 ^ 29"
  obtains tab' where "CheckObjSetForCleanUp und tab expand = Some tab'" "set_ok und tab'"
    "members und tab' = members und tab" "OBJSET_USED tab' = OBJSET_USED tab"
    "3 * (OBJSET_USED tab' + expand + OBJSET_DIRTY tab') < 2 * OBJSET_SIZE tab'"
proof -
  have size: "OBJSET_SIZE tab = 2 ^ OBJSET_BITS tab" and bits: "OBJSET_BITS tab \<le> 30"
    using assms(1) by (auto simp: set_ok_def table_ok_def)
  note load = assms(2) [unfolded load_ok_def size]
  consider (grow) "OBJSET_SIZE tab * 2 \<le> (OBJSET_USED tab + expand) * 3"
    | (rehash) "\<not> OBJSET_SIZE tab * 2 \<le> (OBJSET_USED tab + expand) * 3"
      "CheckObjSetForCleanUp und tab expand = ResizeObjSet und tab (OBJSET_BITS tab)"
    | (keep) "CheckObjSetForCleanUp und tab expand = Some tab"
      "3 * (OBJSET_USED tab + expand + OBJSET_DIRTY tab) < 2 * OBJSET_SIZE tab"
    unfolding CheckObjSetForCleanUp_def Let_def using load_kept by (metis (no_types, lifting))
  then show thesis
  proof cases
    case grow
    have "OBJSET_BITS tab + 1 \<le> 30"
      using grow assms(5) bits unfolding size by (intro growth_possible [where used = "OBJSET_USED tab"]) auto
    then obtain tab' where "ResizeObjSet und tab (OBJSET_BITS tab + 1) = Some tab'" "set_ok und tab'"
      "members und tab' = members und tab" "OBJSET_DIRTY tab' = 0" "OBJSET_USED tab' = OBJSET_USED tab"
      "OBJSET_SIZE tab' = 2 ^ (OBJSET_BITS tab + 1)"
      using ResizeObjSet_keeps [OF assms(1,3)] load_after_growth(2) [OF load assms(4)] by blast
    then show thesis
      using grow load_after_growth(1) [OF load assms(4)]
      by (intro that [of tab']) (simp_all add: CheckObjSetForCleanUp_def Let_def)
  next
    case rehash
    have "OBJSET_USED tab < 2 ^ OBJSET_BITS tab"
      using load by simp
    then obtain tab' where "ResizeObjSet und tab (OBJSET_BITS tab) = Some tab'" "set_ok und tab'"
      "members und tab' = members und tab" "OBJSET_DIRTY tab' = 0" "OBJSET_USED tab' = OBJSET_USED tab"
      "OBJSET_SIZE tab' = 2 ^ OBJSET_BITS tab"
      using ResizeObjSet_keeps [OF assms(1,3) bits] by blast
    then show thesis
      using rehash size by (intro that [of tab']) (simp_all del: One_nat_def)
  next
    case keep
    then show thesis
      using assms(1) by (intro that [of tab]) simp_all
  qed
qed

lemma load_okI: "3 * (OBJSET_USED tab + OBJSET_DIRTY tab) < 2 * OBJSET_SIZE tab \<Longrightarrow> load_ok tab"
  by (simp add: load_ok_def)

lemma AddObjSet_adds:
  assumes "set_ok und tab" "load_ok tab" "und \<noteq> 0" "live und obj" "OBJSET_USED tab < 2 ^ 29"
  obtains tab' where "AddObjSet und tab obj = Some tab'" "set_ok und tab'" "load_ok tab'"
    "members und tab' = insert obj (members und tab)"
proof (cases "obj \<in> members und tab")
  case True
  then have "AddObjSet und tab obj = Some tab"
    using FindObjSet_member(2) [OF assms(1-4)] by (auto simp: AddObjSet_def)
  then show thesis
    using assms(1,2) True by (intro that [of tab]) auto
next
  case False
  obtain t where t: "CheckObjSetForCleanUp und tab 1 = Some t" "set_ok und t" "members und t = members und tab"
    "OBJSET_USED t = OBJSET_USED tab" "3 * (OBJSET_USED t + 1 + OBJSET_DIRTY t) < 2 * OBJSET_SIZE t"
    by (rule CheckObjSetForCleanUp_keeps [OF assms(1-3), of 1]) (use assms(5) in auto)
  obtain tab' where "AddObjSetNew und t obj = Some tab'" "set_ok und tab'" "members und tab' = insert obj (members und t)"
    "OBJSET_SIZE tab' = OBJSET_SIZE t" "OBJSET_USED tab' = OBJSET_USED t + 1" "OBJSET_DIRTY tab' \<le> OBJSET_DIRTY t"
    by (rule AddObjSetNew_stores [OF t(2) assms(3,4)]) (use t(3,5) False in auto)
  then show thesis
    using FindObjSet_member(1) [OF assms(1-4) False] t
    by (intro that [of tab'] load_okI) (simp_all add: AddObjSet_def)
qed

lemma RemoveObjSet_removes:
  assumes "set_ok und tab" "load_ok tab" "und \<noteq> 0" "live und obj" "OBJSET_USED tab \<le> 2 ^ 29"
  obtains tab' where "RemoveObjSet und tab obj = Some tab'" "set_ok und tab'" "load_ok tab'"
    "members und tab' = members und tab - {obj}"
proof (cases "obj \<in> members und tab")
  case False
  then have "RemoveObjSet und tab obj = Some tab"
    using FindObjSet_member(1) [OF assms(1-4)] by (simp add: RemoveObjSet_def)
  then show thesis
    using assms(1,2) False by (intro that [of tab]) auto
next
  case True
  obtain i where i: "i < OBJSET_SIZE tab" "FindObjSet tab obj = Some (int i)" "slots tab ! i = obj"
    using FindObjSet_member(2) [OF assms(1-4) True] by blast
  have len: "OBJSET_SIZE tab = length (slots tab)"
    and ok: "table_ok und (OBJSET_BITS tab) (OBJSET_USED tab) (OBJSET_DIRTY tab) (slots tab)"
    using assms(1) by (auto simp: set_ok_def)
  let ?tab = "tab\<lparr>slots := (slots tab)[i := und], OBJSET_USED := OBJSET_USED tab - 1,
    OBJSET_DIRTY := OBJSET_DIRTY tab + 1\<rparr>"
  have pos: "0 < OBJSET_USED tab"
    using True members_card [OF assms(1)] by (metis card_gt_0_iff empty_iff members_finite)
  have ok': "set_ok und ?tab"
    using table_ok_delete [OF ok assms(3), of i] i len assms(4) by (simp add: set_ok_def)
  have load': "load_ok ?tab"
    using assms(2) pos by (simp add: load_ok_def)
  have mem: "members und ?tab = members und tab - {obj}"
  proof (rule set_eqI)
    fix h
    have "slots tab ! j = obj \<longleftrightarrow> j = i" if "j < length (slots tab)" for j
      using ok i that len assms(4) by (auto simp: table_ok_def inj_on_def)
    then show "h \<in> members und ?tab \<longleftrightarrow> h \<in> members und tab - {obj}"
      using i len unfolding members_def in_set_conv_nth
      by (auto simp: nth_list_update live_def) (metis nth_list_update_neq)
  qed
  obtain tab' where "CheckObjSetForCleanUp und ?tab 0 = Some tab'" "set_ok und tab'"
    "members und tab' = members und ?tab" "3 * (OBJSET_USED tab' + 0 + OBJSET_DIRTY tab') < 2 * OBJSET_SIZE tab'"
    by (rule CheckObjSetForCleanUp_keeps [OF ok' load' assms(3), of 0]) (use assms(5) in auto)
  then show thesis
    using i mem by (intro that [of tab'] load_okI) (simp_all add: RemoveObjSet_def WRITE_SLOT_def)
qed

lemma NewObjSet_ok: "und \<noteq> 0 \<Longrightarrow> set_ok und NewObjSet" "load_ok NewObjSet" "members und NewObjSet = {}"
  using set_ok_empty [of und 2]
  by (auto simp: NewObjSet_def DEFAULT_OBJSET_SIZE_def DEFAULT_OBJSET_BITS_def load_ok_def members_def live_def)

text \<open>The loop that collects entries fills the list exactly.\<close>

lemma values_loop_filter:
  "1 \<le> p \<Longrightarrow> length result = p - 1 + length (filter (live und) (map read [i ..< n])) \<Longrightarrow>
   values_loop read und n i p result = (length result + 1, take (p - 1) result @ filter (live und) (map read [i ..< n]))"
proof (induction read und n i p result rule: values_loop.induct)
  case (1 read und n i p result)
  show ?case
  proof (cases "i < n")
    case False
    then show ?thesis
      using "1.prems" by (subst values_loop.simps) simp
  next
    case i: True
    then have split: "[i ..< n] = i # [i + 1 ..< n]" by (simp add: upt_conv_Cons)
    let ?el = "read i"
    show ?thesis
    proof (cases "live und ?el")
      case True
      then have el: "?el \<noteq> 0 \<and> ?el \<noteq> und" and less: "p - 1 < length result"
        using "1.prems" split by (auto simp: live_def)
      have "values_loop read und n i p result = values_loop read und n (i + 1) (p + 1) (result[p - 1 := ?el])"
        using i el by (subst values_loop.simps) (simp add: Let_def)
      also have "\<dots> = (length result + 1, take p (result[p - 1 := ?el]) @ filter (live und) (map read [i + 1 ..< n]))"
        using "1.IH"(1) [OF i refl el] "1.prems" True split by simp
      also have "take p (result[p - 1 := ?el]) = take (p - 1) result @ [?el]"
        using less "1.prems"(1) take_Suc_conv_app_nth [of "p - 1" "result[p - 1 := ?el]"] by simp
      finally show ?thesis
        using True split by simp
    next
      case False
      then have el: "\<not> (?el \<noteq> 0 \<and> ?el \<noteq> und)"
        by (simp add: live_def)
      have "values_loop read und n i p result = values_loop read und n (i + 1) p result"
        using i el by (subst values_loop.simps) (auto simp: Let_def)
      then show ?thesis
        using "1.IH"(2) [OF i refl el] "1.prems" False split by simp
    qed
  qed
qed

lemma ObjSetValues_filter:
  assumes "set_ok und tab"
  shows "ObjSetValues und tab = filter (live und) (slots tab)"
proof -
  have m: "map (READ_SLOT tab) [0 ..< OBJSET_SIZE tab] = slots tab"
    using assms by (auto simp: set_ok_def READ_SLOT_def intro: nth_equalityI)
  have "OBJSET_USED tab = length (filter (live und) (slots tab))"
    using assms by (simp add: set_ok_def table_ok_def length_filter_conv_card)
  then show ?thesis
    unfolding ObjSetValues_def using values_loop_filter [of 1 "replicate (OBJSET_USED tab) 0" und "READ_SLOT tab" 0 "OBJSET_SIZE tab"]
    by (simp add: m)
qed

lemma ObjSetValues_lists:
  assumes "set_ok und tab"
  shows "distinct (ObjSetValues und tab)" "set (ObjSetValues und tab) = members und tab"
proof -
  have "distinct (filter (live und) (slots tab))"
    using members_card [OF assms] assms
    by (intro card_distinct) (simp add: members_def set_ok_def table_ok_def length_filter_conv_card)
  then show "distinct (ObjSetValues und tab)"
    by (simp add: ObjSetValues_filter [OF assms])
  show "set (ObjSetValues und tab) = members und tab"
    by (auto simp: ObjSetValues_filter [OF assms] members_def)
qed

end
