(* ===== verification/ObjMapCorrect.thy ===== *)
theory ObjMapCorrect
  imports ObjSetCorrect
begin

text \<open>
  Object maps against finite maps from handles to handles. The keys of a map, read off the even slots, obey the
  invariant of \<open>ObjSetCorrect\<close>; the entries are the map from the live keys to the values beside them.
\<close>

definition mkey :: "objtable \<Rightarrow> nat \<Rightarrow> handle" where
  "mkey tab i = slots tab ! (i * 2)"

definition mval :: "objtable \<Rightarrow> nat \<Rightarrow> handle" where
  "mval tab i = slots tab ! (i * 2 + 1)"

definition mkeys :: "objtable \<Rightarrow> handle list" where
  "mkeys tab = map (mkey tab) [0 ..< OBJSET_SIZE tab]"

definition map_ok :: "handle \<Rightarrow> objtable \<Rightarrow> bool" where
  "map_ok und tab \<longleftrightarrow>
     table_ok und (OBJSET_BITS tab) (OBJSET_USED tab) (OBJSET_DIRTY tab) (mkeys tab) \<and>
     length (slots tab) = 2 * OBJSET_SIZE tab \<and>
     (\<forall>i<OBJSET_SIZE tab. live und (mval tab i) \<longleftrightarrow> live und (mkey tab i))"

definition entries_below :: "handle \<Rightarrow> objtable \<Rightarrow> nat \<Rightarrow> (handle \<rightharpoonup> handle)" where
  "entries_below und tab n =
     map_of (map (\<lambda>i. (mkey tab i, mval tab i)) (filter (\<lambda>i. live und (mkey tab i)) [0 ..< n]))"

definition entries :: "handle \<Rightarrow> objtable \<Rightarrow> (handle \<rightharpoonup> handle)" where
  "entries und tab = entries_below und tab (OBJSET_SIZE tab)"

lemma mkeys_length [simp]: "length (mkeys tab) = OBJSET_SIZE tab"
  by (simp add: mkeys_def)

lemma mkeys_nth [simp]: "i < OBJSET_SIZE tab \<Longrightarrow> mkeys tab ! i = mkey tab i"
  by (simp add: mkeys_def)

lemma map_okD:
  assumes "map_ok und tab"
  shows "table_ok und (OBJSET_BITS tab) (OBJSET_USED tab) (OBJSET_DIRTY tab) (mkeys tab)"
    "length (slots tab) = 2 * OBJSET_SIZE tab" "OBJSET_SIZE tab = 2 ^ OBJSET_BITS tab" "OBJSET_BITS tab \<le> 30"
    "inj_on (mkey tab) {i. i < OBJSET_SIZE tab \<and> live und (mkey tab i)}"
    "i < OBJSET_SIZE tab \<Longrightarrow> live und (mval tab i) \<longleftrightarrow> live und (mkey tab i)"
proof -
  show "i < OBJSET_SIZE tab \<Longrightarrow> live und (mval tab i) \<longleftrightarrow> live und (mkey tab i)"
    using assms by (simp add: map_ok_def)
  show ok: "table_ok und (OBJSET_BITS tab) (OBJSET_USED tab) (OBJSET_DIRTY tab) (mkeys tab)"
    "length (slots tab) = 2 * OBJSET_SIZE tab"
    using assms by (simp_all add: map_ok_def)
  then show "OBJSET_SIZE tab = 2 ^ OBJSET_BITS tab" "OBJSET_BITS tab \<le> 30"
    by (simp_all add: table_ok_def)
  have "inj_on ((!) (mkeys tab)) {i. i < length (mkeys tab) \<and> live und (mkeys tab ! i)}"
    using ok(1) unfolding table_ok_def by blast
  then show "inj_on (mkey tab) {i. i < OBJSET_SIZE tab \<and> live und (mkey tab i)}"
    by (auto simp: inj_on_def)
qed

lemma mkey_inj:
  assumes "map_ok und tab" "i < OBJSET_SIZE tab" "j < OBJSET_SIZE tab" "live und (mkey tab i)"
  shows "mkey tab j = mkey tab i \<longleftrightarrow> j = i"
proof
  assume eq: "mkey tab j = mkey tab i"
  show "j = i"
    by (rule inj_onD [OF map_okD(5) [OF assms(1)] eq]) (use assms eq in simp_all)
qed simp

lemma entries_below_iff:
  assumes "map_ok und tab" "n \<le> OBJSET_SIZE tab"
  shows "entries_below und tab n k = Some v \<longleftrightarrow> (\<exists>i<n. mkey tab i = k \<and> live und k \<and> mval tab i = v)"
proof -
  have "inj_on (mkey tab) {i. i < n \<and> live und (mkey tab i)}"
    by (rule inj_on_subset [OF map_okD(5) [OF assms(1)]]) (use assms(2) in auto)
  then have "distinct (map fst (map (\<lambda>i. (mkey tab i, mval tab i)) (filter (\<lambda>i. live und (mkey tab i)) [0 ..< n])))"
    by (simp add: comp_def distinct_map conj_commute)
  then show ?thesis
    by (auto simp: entries_below_def map_of_eq_Some_iff)
qed

lemma entries_iff:
  "map_ok und tab \<Longrightarrow>
   entries und tab k = Some v \<longleftrightarrow> (\<exists>i<OBJSET_SIZE tab. mkey tab i = k \<and> live und k \<and> mval tab i = v)"
  by (simp add: entries_def entries_below_iff)

lemma entries_dom: "map_ok und tab \<Longrightarrow> k \<in> dom (entries und tab) \<longleftrightarrow> live und k \<and> k \<in> set (mkeys tab)"
  by (auto simp: entries_iff mkeys_def)

lemma map_eq_by_Some: "(\<And>k v. m k = Some v \<longleftrightarrow> m' k = Some v) \<Longrightarrow> m = m'"
  by (rule ext) (metis option.exhaust)

lemma entries_card:
  assumes "map_ok und tab"
  shows "card (dom (entries und tab)) = OBJSET_USED tab"
proof -
  let ?L = "{i. i < OBJSET_SIZE tab \<and> live und (mkey tab i)}"
  have "dom (entries und tab) = mkey tab ` ?L"
    by (auto simp: entries_iff [OF assms])
  moreover have "{i. i < length (mkeys tab) \<and> live und (mkeys tab ! i)} = ?L"
    by auto
  then have "OBJSET_USED tab = card ?L"
    using map_okD(1) [OF assms] by (simp add: table_ok_def del: mkeys_length)
  ultimately show ?thesis
    using map_okD(5) [OF assms] by (simp only: card_image)
qed

lemma entries_finite [simp]: "finite (dom (entries_below und tab n))" "finite (dom (entries und tab))"
  by (simp_all add: entries_def entries_below_def finite_dom_map_of)

lemma entries_below_dom:
  assumes "map_ok und tab" "n \<le> OBJSET_SIZE tab"
  shows "dom (entries_below und tab n) \<subseteq> dom (entries und tab)"
proof
  fix k assume "k \<in> dom (entries_below und tab n)"
  then obtain i where "i < n" "mkey tab i = k" "live und k"
    using entries_below_iff [OF assms] by auto
  then show "k \<in> dom (entries und tab)"
    using assms(2) by (auto simp: entries_dom [OF assms(1)] mkeys_def)
qed

lemma entries_below_Suc:
  assumes "map_ok und tab" "n < OBJSET_SIZE tab"
  shows "entries_below und tab (Suc n) =
    (if live und (mkey tab n) then (entries_below und tab n)(mkey tab n \<mapsto> mval tab n) else entries_below und tab n)"
    and "live und (mkey tab n) \<Longrightarrow> mkey tab n \<notin> dom (entries_below und tab n)"
proof -
  have fresh: "mkey tab i \<noteq> mkey tab n" if "i < n" "live und (mkey tab n)" for i
    using that assms inj_onD [OF map_okD(5) [OF assms(1)], of i n] by auto
  then show "mkey tab n \<notin> dom (entries_below und tab n)" if "live und (mkey tab n)"
    using that assms by (auto simp: entries_below_iff)
  show "entries_below und tab (Suc n) =
    (if live und (mkey tab n) then (entries_below und tab n)(mkey tab n \<mapsto> mval tab n) else entries_below und tab n)"
  proof (rule map_eq_by_Some)
    fix k v
    show "entries_below und tab (Suc n) k = Some v \<longleftrightarrow>
      (if live und (mkey tab n) then (entries_below und tab n)(mkey tab n \<mapsto> mval tab n) else entries_below und tab n) k = Some v"
      using assms fresh by (auto simp: entries_below_iff less_Suc_eq)
  qed
qed

subsection \<open>Searching and storing\<close>

lemma FindObjMap_entry:
  assumes "map_ok und tab" "load_ok tab" "und \<noteq> 0" "live und obj"
  shows "obj \<notin> dom (entries und tab) \<Longrightarrow> FindObjMap tab obj = Some (- 1)"
    and "entries und tab obj = Some v \<Longrightarrow>
      \<exists>i < OBJSET_SIZE tab. FindObjMap tab obj = Some (int i) \<and> mkey tab i = obj \<and> mval tab i = v"
proof -
  have room: "OBJSET_USED tab + OBJSET_DIRTY tab < length (mkeys tab)"
    using assms(2) by (simp add: load_ok_def)
  note find = find_key [OF map_okD(1) [OF assms(1)] assms(3) room _ assms(4), of "\<lambda>i. READ_SLOT tab (i * 2)"]
  show "FindObjMap tab obj = Some (- 1)" if "obj \<notin> dom (entries und tab)"
    using that find(1) assms(4) by (simp add: FindObjMap_def ObjHash_khash READ_SLOT_def entries_dom [OF assms(1)] mkey_def)
  show "\<exists>i < OBJSET_SIZE tab. FindObjMap tab obj = Some (int i) \<and> mkey tab i = obj \<and> mval tab i = v"
    if "entries und tab obj = Some v"
    using that find(2) unfolding entries_iff [OF assms(1)]
    by (auto simp: FindObjMap_def ObjHash_khash READ_SLOT_def mkey_def)
qed

lemma slot_index: "i < n \<Longrightarrow> i * 2 < 2 * n" "i < n \<Longrightarrow> Suc (i * 2) < 2 * (n :: nat)" "i * 2 \<noteq> Suc (j * 2)" "Suc (j * 2) \<noteq> i * 2"
  by presburger+

text \<open>Writing key and value of one entry changes only that entry.\<close>

lemma write_entry:
  assumes "length (slots tab) = 2 * OBJSET_SIZE tab" "p < OBJSET_SIZE tab"
    and "slots tab' = (slots tab)[p * 2 := k, p * 2 + 1 := v]" "OBJSET_SIZE tab' = OBJSET_SIZE tab"
  shows "mkey tab' i = (if i = p then k else mkey tab i)" "mval tab' i = (if i = p then v else mval tab i)"
    "mkeys tab' = (mkeys tab)[p := k]"
proof -
  show key: "mkey tab' i = (if i = p then k else mkey tab i)" for i
    using assms slot_index by (simp add: mkey_def nth_list_update)
  show "mval tab' i = (if i = p then v else mval tab i)"
    using assms slot_index [of p "OBJSET_SIZE tab"] slot_index(4) [of i p] by (auto simp: mval_def nth_list_update)
  show "mkeys tab' = (mkeys tab)[p := k]"
    using assms(2,4) key by (intro nth_equalityI) (auto simp: nth_list_update)
qed

lemma store_entry_iff:
  assumes "p < n" "\<not> live und (kk p)" "live und key" "\<And>i. i < n \<Longrightarrow> kk i \<noteq> key"
  shows "(\<exists>i<n. (if i = p then key else kk i) = k \<and> live und k \<and> (if i = p then val else vv i) = v) \<longleftrightarrow>
    (k = key \<and> val = v \<or> k \<noteq> key \<and> (\<exists>i<n. kk i = k \<and> live und k \<and> vv i = v))"
proof (cases "k = key")
  case True
  then show ?thesis using assms by auto
next
  case False
  then have "(if i = p then key else kk i) = k \<and> live und k \<and> (if i = p then val else vv i) = v \<longleftrightarrow>
    kk i = k \<and> live und k \<and> vv i = v" for i
    using assms(2) by auto
  with False show ?thesis by simp
qed

lemma AddObjMapNew_stores:
  assumes "map_ok und tab" "und \<noteq> 0" "live und key" "key \<notin> dom (entries und tab)" "OBJSET_USED tab < OBJSET_SIZE tab"
    and lval: "live und val"
  obtains tab' where "AddObjMapNew und tab key val = Some tab'" "map_ok und tab'"
    "entries und tab' = (entries und tab)(key \<mapsto> val)" "OBJSET_SIZE tab' = OBJSET_SIZE tab"
    "OBJSET_BITS tab' = OBJSET_BITS tab" "OBJSET_USED tab' = OBJSET_USED tab + 1" "OBJSET_DIRTY tab' \<le> OBJSET_DIRTY tab"
proof -
  let ?ks = "mkeys tab" and ?p = "probe (OBJSET_SIZE tab) (khash (OBJSET_BITS tab) key)"
  note ok = map_okD(1) [OF assms(1)] and len = map_okD(2) [OF assms(1)]
  have room: "OBJSET_USED tab < length ?ks" using assms(5) by simp
  obtain d where d: "free_loop (\<lambda>i. READ_SLOT tab (i * 2)) und (length ?ks) (khash (OBJSET_BITS tab) key) =
      Some (probe (length ?ks) (khash (OBJSET_BITS tab) key) d)"
    "\<not> live und (?ks ! probe (length ?ks) (khash (OBJSET_BITS tab) key) d)"
    "\<And>j. j < d \<Longrightarrow> live und (?ks ! probe (length ?ks) (khash (OBJSET_BITS tab) key) j)"
    by (rule free_key [OF ok room, of "\<lambda>i. READ_SLOT tab (i * 2)" key]) (auto simp: READ_SLOT_def mkey_def)
  have "key \<notin> set ?ks"
    using assms(3,4) by (simp add: entries_dom [OF assms(1)])
  note st = table_ok_store [OF ok assms(2,3) this d(2,3) refl]
  have less: "?p d < OBJSET_SIZE tab"
    using assms(5) by (intro probe_less) linarith
  obtain t where t: "t = tab\<lparr>slots := (slots tab)[?p d * 2 := key, ?p d * 2 + 1 := val],
    OBJSET_USED := OBJSET_USED tab + 1,
    OBJSET_DIRTY := if mkey tab (?p d) = 0 then OBJSET_DIRTY tab else OBJSET_DIRTY tab - 1\<rparr>"
    by blast
  have w: "mkey t i = (if i = ?p d then key else mkey tab i)" "mval t i = (if i = ?p d then val else mval tab i)"
    "mkeys t = ?ks[?p d := key]" for i
    using write_entry [OF len less, of t key val] by (simp_all add: t)
  have ok': "map_ok und t"
    using st len less map_okD(6) [OF assms(1)] assms(3) lval unfolding map_ok_def w by (simp add: t split: if_splits)
  have dead: "\<not> live und (mkey tab (?p d))"
    using d(2) less by simp
  have size: "OBJSET_SIZE t = OBJSET_SIZE tab"
    by (simp add: t)
  have "entries und t = (entries und tab)(key \<mapsto> val)"
  proof (rule map_eq_by_Some)
    fix k v
    have "mkey tab i \<noteq> key" if "i < OBJSET_SIZE tab" for i
      using assms(3,4) that by (auto simp: entries_dom [OF assms(1)] mkeys_def)
    then show "entries und t k = Some v \<longleftrightarrow> ((entries und tab)(key \<mapsto> val)) k = Some v"
      unfolding entries_iff [OF ok'] entries_iff [OF assms(1)] w size map_upd_Some_unfold
      using store_entry_iff [of "?p d" "OBJSET_SIZE tab" und "mkey tab" key k val "mval tab" v] less dead assms(3)
      by simp
  qed
  moreover have "AddObjMapNew und tab key val = Some t"
    using d(1) less by (simp add: AddObjMapNew_def ObjHash_khash WRITE_SLOT_def READ_SLOT_def mkey_def t)
  ultimately show thesis
    using ok' by (intro that [of t]) (simp_all add: t)
qed

subsection \<open>Resizing, adding and removing\<close>

lemma resize_map_loop_stores:
  assumes ok: "map_ok und tab" and und: "und \<noteq> 0"
  shows "i \<le> OBJSET_SIZE tab \<Longrightarrow> map_ok und new \<Longrightarrow> OBJSET_DIRTY new = 0 \<Longrightarrow>
    entries und new = entries_below und tab i \<Longrightarrow> OBJSET_USED tab < OBJSET_SIZE new \<Longrightarrow>
    \<exists>tab'. resize_map_loop und tab i new = Some tab' \<and> map_ok und tab' \<and> OBJSET_DIRTY tab' = 0 \<and>
      entries und tab' = entries und tab \<and> OBJSET_SIZE tab' = OBJSET_SIZE new \<and> OBJSET_BITS tab' = OBJSET_BITS new"
proof (induction "OBJSET_SIZE tab - i" arbitrary: i new)
  case 0
  then show ?case
    by (subst resize_map_loop.simps) (simp add: entries_def)
next
  case (Suc n)
  then have i: "i < OBJSET_SIZE tab" and n: "n = OBJSET_SIZE tab - (i + 1)" by simp_all
  note below = entries_below_Suc [OF ok i]
  show ?case
  proof (cases "live und (mkey tab i)")
    case True
    have "dom (entries_below und tab i) \<subseteq> dom (entries und tab)"
      by (rule entries_below_dom [OF ok Suc.prems(1)])
    then have "OBJSET_USED new \<le> OBJSET_USED tab"
      using entries_card [OF Suc.prems(2)] entries_card [OF ok] Suc.prems(4) by (metis card_mono entries_finite(2))
    then have room: "OBJSET_USED new < OBJSET_SIZE new"
      using Suc.prems(5) by simp
    have fresh: "mkey tab i \<notin> dom (entries und new)"
      using below(2) True Suc.prems(4) by simp
    obtain new' where new': "AddObjMapNew und new (mkey tab i) (mval tab i) = Some new'" "map_ok und new'"
      "entries und new' = (entries und new)(mkey tab i \<mapsto> mval tab i)" "OBJSET_SIZE new' = OBJSET_SIZE new"
      "OBJSET_BITS new' = OBJSET_BITS new" "OBJSET_DIRTY new' \<le> OBJSET_DIRTY new"
      by (rule AddObjMapNew_stores [OF Suc.prems(2) und True fresh room]) (use True map_okD(6) [OF ok i] in simp)
    have "resize_map_loop und tab i new = resize_map_loop und tab (i + 1) new'"
      using i True new'(1)
      by (subst resize_map_loop.simps) (simp add: READ_SLOT_def mkey_def mval_def live_def)
    then show ?thesis
      using Suc.hyps(1) [OF n, of new'] Suc.prems new' i True below(1) by simp
  next
    case False
    then have "resize_map_loop und tab i new = resize_map_loop und tab (i + 1) new"
      using i by (subst resize_map_loop.simps) (auto simp: READ_SLOT_def mkey_def live_def Let_def)
    then show ?thesis
      using Suc.hyps(1) [OF n, of new] Suc.prems i False below(1) by simp
  qed
qed

lemma map_ok_empty:
  assumes "und \<noteq> 0" "bits \<le> 30"
  shows "map_ok und \<lparr>OBJSET_SIZE = 2 ^ bits, OBJSET_BITS = bits, OBJSET_USED = 0, OBJSET_DIRTY = 0,
    slots = replicate (2 * 2 ^ bits) 0\<rparr>" (is "map_ok und ?t")
proof -
  have "mkeys ?t = replicate (2 ^ bits) 0"
    by (intro nth_equalityI) (auto simp: mkey_def)
  then show ?thesis
    using table_ok_empty [OF assms] by (simp add: map_ok_def mkey_def mval_def slot_index del: mult_Suc_right)
qed

lemma ResizeObjMap_keeps:
  assumes "map_ok und tab" "und \<noteq> 0" "bits \<le> 30" "OBJSET_USED tab < 2 ^ bits"
  obtains tab' where "ResizeObjMap und tab bits = Some tab'" "map_ok und tab'" "entries und tab' = entries und tab"
    "OBJSET_DIRTY tab' = 0" "OBJSET_USED tab' = OBJSET_USED tab" "OBJSET_SIZE tab' = 2 ^ bits" "OBJSET_BITS tab' = bits"
proof -
  obtain new where new: "new = \<lparr>OBJSET_SIZE = 2 ^ bits, OBJSET_BITS = bits, OBJSET_USED = 0, OBJSET_DIRTY = 0,
    slots = replicate (2 * 2 ^ bits) 0\<rparr>" by blast
  have ok: "map_ok und new"
    unfolding new by (rule map_ok_empty [OF assms(2,3)])
  have "entries und new = entries_below und tab 0"
    using entries_card [OF ok] by (simp add: entries_below_def new)
  then obtain tab' where "resize_map_loop und tab 0 new = Some tab'" "map_ok und tab'" "OBJSET_DIRTY tab' = 0"
    "entries und tab' = entries und tab" "OBJSET_SIZE tab' = 2 ^ bits" "OBJSET_BITS tab' = bits"
    using resize_map_loop_stores [OF assms(1,2), of 0 new] ok assms(4) by (auto simp: new)
  moreover have "OBJSET_USED tab' = OBJSET_USED tab"
    using calculation entries_card [OF assms(1)] entries_card [of und tab'] by simp
  ultimately show thesis
    using assms(3) by (intro that [of tab']) (simp_all add: ResizeObjMap_def new)
qed

lemma CheckObjMapForCleanUp_keeps:
  assumes "map_ok und tab" "load_ok tab" "und \<noteq> 0" "expand \<le> 1" "OBJSET_USED tab + expand \<le> 2 ^ 29"
  obtains tab' where "CheckObjMapForCleanUp und tab expand = Some tab'" "map_ok und tab'"
    "entries und tab' = entries und tab" "OBJSET_USED tab' = OBJSET_USED tab"
    "3 * (OBJSET_USED tab' + expand + OBJSET_DIRTY tab') < 2 * OBJSET_SIZE tab'"
proof -
  note size = map_okD(3) [OF assms(1)] and bits = map_okD(4) [OF assms(1)]
  note load = assms(2) [unfolded load_ok_def size]
  consider (grow) "OBJSET_SIZE tab * 2 \<le> (OBJSET_USED tab + expand) * 3"
    | (rehash) "\<not> OBJSET_SIZE tab * 2 \<le> (OBJSET_USED tab + expand) * 3"
      "CheckObjMapForCleanUp und tab expand = ResizeObjMap und tab (OBJSET_BITS tab)"
    | (keep) "CheckObjMapForCleanUp und tab expand = Some tab"
      "3 * (OBJSET_USED tab + expand + OBJSET_DIRTY tab) < 2 * OBJSET_SIZE tab"
    unfolding CheckObjMapForCleanUp_def Let_def using load_kept by (metis (no_types, lifting))
  then show thesis
  proof cases
    case grow
    have "OBJSET_BITS tab + 1 \<le> 30"
      using grow assms(5) bits unfolding size by (intro growth_possible [where used = "OBJSET_USED tab"]) auto
    then obtain tab' where "ResizeObjMap und tab (OBJSET_BITS tab + 1) = Some tab'" "map_ok und tab'"
      "entries und tab' = entries und tab" "OBJSET_DIRTY tab' = 0" "OBJSET_USED tab' = OBJSET_USED tab"
      "OBJSET_SIZE tab' = 2 ^ (OBJSET_BITS tab + 1)"
      using ResizeObjMap_keeps [OF assms(1,3)] load_after_growth(2) [OF load assms(4)] by blast
    then show thesis
      using grow load_after_growth(1) [OF load assms(4)]
      by (intro that [of tab']) (simp_all add: CheckObjMapForCleanUp_def Let_def)
  next
    case rehash
    have "OBJSET_USED tab < 2 ^ OBJSET_BITS tab"
      using load by simp
    then obtain tab' where "ResizeObjMap und tab (OBJSET_BITS tab) = Some tab'" "map_ok und tab'"
      "entries und tab' = entries und tab" "OBJSET_DIRTY tab' = 0" "OBJSET_USED tab' = OBJSET_USED tab"
      "OBJSET_SIZE tab' = 2 ^ OBJSET_BITS tab"
      using ResizeObjMap_keeps [OF assms(1,3) bits] by blast
    then show thesis
      using rehash size by (intro that [of tab']) (simp_all del: One_nat_def)
  next
    case keep
    then show thesis
      using assms(1) by (intro that [of tab]) simp_all
  qed
qed

lemma update_entry_iff:
  assumes "p < n" "\<And>i. i < n \<Longrightarrow> kk i = key \<longleftrightarrow> i = p" "live und key"
  shows "(\<exists>i<n. kk i = k \<and> live und k \<and> (if i = p then val else vv i) = v) \<longleftrightarrow>
    (k = key \<and> val = v \<or> k \<noteq> key \<and> (\<exists>i<n. kk i = k \<and> live und k \<and> vv i = v))"
proof (cases "k = key")
  case True
  then show ?thesis using assms by auto
next
  case False
  then have "i < n \<and> kk i = k \<and> live und k \<and> (if i = p then val else vv i) = v \<longleftrightarrow>
    i < n \<and> kk i = k \<and> live und k \<and> vv i = v" for i
    using assms(2) by auto
  with False show ?thesis by simp
qed

lemma remove_entry_iff:
  assumes "\<And>i. i < n \<Longrightarrow> kk i = key \<longleftrightarrow> i = p"
  shows "(\<exists>i<n. (if i = p then und else kk i) = k \<and> live und k \<and> (if i = p then 0 else vv i) = v) \<longleftrightarrow>
    (k \<noteq> key \<and> (\<exists>i<n. kk i = k \<and> live und k \<and> vv i = v))"
proof (cases "k = key")
  case True
  then show ?thesis using assms by (auto simp: live_def)
next
  case False
  then have "i < n \<and> (if i = p then und else kk i) = k \<and> live und k \<and> (if i = p then 0 else vv i) = v \<longleftrightarrow>
    i < n \<and> kk i = k \<and> live und k \<and> vv i = v" for i
    using assms by (auto simp: live_def)
  with False show ?thesis by simp
qed

lemma AddObjMap_updates:
  assumes "map_ok und tab" "load_ok tab" "und \<noteq> 0" "live und key" "OBJSET_USED tab < 2 ^ 29"
    and lval: "live und val"
  obtains tab' where "AddObjMap und tab key val = Some tab'" "map_ok und tab'" "load_ok tab'"
    "entries und tab' = (entries und tab)(key \<mapsto> val)"
proof (cases "key \<in> dom (entries und tab)")
  case True
  then obtain v where v: "entries und tab key = Some v" by blast
  then obtain i where i: "i < OBJSET_SIZE tab" "FindObjMap tab key = Some (int i)" "mkey tab i = key" "mval tab i = v"
    using FindObjMap_entry(2) [OF assms(1-4) v] by blast
  note len = map_okD(2) [OF assms(1)]
  obtain t where t: "t = tab\<lparr>slots := (slots tab)[i * 2 + 1 := val]\<rparr>" by blast
  have same: "(slots tab)[i * 2 + 1 := val] = (slots tab)[i * 2 := key, i * 2 + 1 := val]"
    using i(3) unfolding mkey_def by (metis list_update_id)
  have w: "mkey t j = mkey tab j" "mval t j = (if j = i then val else mval tab j)" "mkeys t = mkeys tab" for j
    using write_entry [OF len i(1), of t key val] i(1,3) same by (auto simp: t list_update_same_conv)
  have ok: "map_ok und t"
    using assms(1,4) lval i unfolding map_ok_def w by (simp add: t)
  have only: "mkey tab j = key \<longleftrightarrow> j = i" if "j < OBJSET_SIZE tab" for j
    using mkey_inj [OF assms(1) i(1) that] i(3) assms(4) by simp
  have "entries und t = (entries und tab)(key \<mapsto> val)"
  proof (rule map_eq_by_Some)
    fix k v
    have size: "OBJSET_SIZE t = OBJSET_SIZE tab" by (simp add: t)
    show "entries und t k = Some v \<longleftrightarrow> ((entries und tab)(key \<mapsto> val)) k = Some v"
      unfolding entries_iff [OF ok] entries_iff [OF assms(1)] w size map_upd_Some_unfold
      using update_entry_iff [of i "OBJSET_SIZE tab" "mkey tab" key und k val "mval tab" v] only i(1) assms(4) by simp
  qed
  moreover have "AddObjMap und tab key val = Some t"
    using i(2) by (simp add: AddObjMap_def WRITE_SLOT_def t nat_add_distrib nat_mult_distrib)
  ultimately show thesis
    using ok assms(2) by (intro that [of t]) (simp_all add: t load_ok_def)
next
  case False
  obtain t where t: "CheckObjMapForCleanUp und tab 1 = Some t" "map_ok und t" "entries und t = entries und tab"
    "OBJSET_USED t = OBJSET_USED tab" "3 * (OBJSET_USED t + 1 + OBJSET_DIRTY t) < 2 * OBJSET_SIZE t"
    by (rule CheckObjMapForCleanUp_keeps [OF assms(1-3), of 1]) (use assms(5) in auto)
  obtain tab' where "AddObjMapNew und t key val = Some tab'" "map_ok und tab'"
    "entries und tab' = (entries und t)(key \<mapsto> val)" "OBJSET_SIZE tab' = OBJSET_SIZE t"
    "OBJSET_USED tab' = OBJSET_USED t + 1" "OBJSET_DIRTY tab' \<le> OBJSET_DIRTY t"
    by (rule AddObjMapNew_stores [OF t(2) assms(3,4)]) (use t(3,5) False lval in auto)
  then show thesis
    using FindObjMap_entry(1) [OF assms(1-4) False] t
    by (intro that [of tab'] load_okI) (simp_all add: AddObjMap_def)
qed

lemma RemoveObjMap_removes:
  assumes "map_ok und tab" "load_ok tab" "und \<noteq> 0" "live und key" "OBJSET_USED tab \<le> 2 ^ 29"
  obtains tab' where "RemoveObjMap und tab key = Some tab'" "map_ok und tab'" "load_ok tab'"
    "entries und tab' = (entries und tab)(key := None)"
proof (cases "key \<in> dom (entries und tab)")
  case False
  then have "RemoveObjMap und tab key = Some tab"
    using FindObjMap_entry(1) [OF assms(1-4)] by (simp add: RemoveObjMap_def)
  then show thesis
    using assms(1,2) False by (intro that [of tab]) auto
next
  case True
  then obtain v where v: "entries und tab key = Some v" by blast
  then obtain i where i: "i < OBJSET_SIZE tab" "FindObjMap tab key = Some (int i)" "mkey tab i = key" "mval tab i = v"
    using FindObjMap_entry(2) [OF assms(1-4) v] by blast
  note len = map_okD(2) [OF assms(1)]
  obtain t where t: "t = tab\<lparr>slots := (slots tab)[i * 2 := und, i * 2 + 1 := 0],
    OBJSET_USED := OBJSET_USED tab - 1, OBJSET_DIRTY := OBJSET_DIRTY tab + 1\<rparr>" by blast
  have w: "mkey t j = (if j = i then und else mkey tab j)" "mval t j = (if j = i then 0 else mval tab j)"
    "mkeys t = (mkeys tab)[i := und]" for j
    using write_entry [OF len i(1), of t und 0] by (simp_all add: t)
  have "card (dom (entries und tab)) \<noteq> 0"
    using True by (metis card_0_eq empty_iff entries_finite(2))
  then have pos: "0 < OBJSET_USED tab"
    using entries_card [OF assms(1)] by simp
  have ok: "map_ok und t"
    using table_ok_delete [OF map_okD(1) [OF assms(1)] assms(3), of i] i assms(4) len map_okD(6) [OF assms(1)]
    unfolding map_ok_def w by (simp add: t live_def)
  have load: "load_ok t"
    using assms(2) pos by (simp add: load_ok_def t)
  have only: "mkey tab j = key \<longleftrightarrow> j = i" if "j < OBJSET_SIZE tab" for j
    using mkey_inj [OF assms(1) i(1) that] i(3) assms(4) by simp
  have ent: "entries und t = (entries und tab)(key := None)"
  proof (rule map_eq_by_Some)
    fix k v
    have size: "OBJSET_SIZE t = OBJSET_SIZE tab" by (simp add: t)
    show "entries und t k = Some v \<longleftrightarrow> ((entries und tab)(key := None)) k = Some v"
      using remove_entry_iff [of "OBJSET_SIZE tab" "mkey tab" key i und k "mval tab" v] only
      unfolding entries_iff [OF ok] w size by (simp add: entries_iff [OF assms(1), symmetric])
  qed
  obtain tab' where "CheckObjMapForCleanUp und t 0 = Some tab'" "map_ok und tab'"
    "entries und tab' = entries und t" "3 * (OBJSET_USED tab' + 0 + OBJSET_DIRTY tab') < 2 * OBJSET_SIZE tab'"
    by (rule CheckObjMapForCleanUp_keeps [OF ok load assms(3), of 0]) (use assms(5) in \<open>auto simp: t\<close>)
  then show thesis
    using i(2) ent
    by (intro that [of tab'] load_okI)
      (simp_all add: RemoveObjMap_def WRITE_SLOT_def t nat_add_distrib nat_mult_distrib)
qed

lemma NewObjMap_ok: "und \<noteq> 0 \<Longrightarrow> map_ok und NewObjMap" "load_ok NewObjMap" "entries und NewObjMap = Map.empty"
proof -
  show ok: "map_ok und NewObjMap" if "und \<noteq> 0"
    using that map_ok_empty [of und 2] by (simp add: NewObjMap_def DEFAULT_OBJSET_SIZE_def DEFAULT_OBJSET_BITS_def)
  show "load_ok NewObjMap"
    by (simp add: NewObjMap_def DEFAULT_OBJSET_SIZE_def DEFAULT_OBJSET_BITS_def load_ok_def)
  show "entries und NewObjMap = Map.empty"
    by (simp add: entries_def entries_below_def NewObjMap_def DEFAULT_OBJSET_SIZE_def DEFAULT_OBJSET_BITS_def
      mkey_def live_def upt_rec)
qed

subsection \<open>Listing keys and values\<close>

lemma ObjMapKeys_lists:
  assumes "map_ok und tab"
  shows "distinct (ObjMapKeys und tab)" "set (ObjMapKeys und tab) = dom (entries und tab)"
    "ObjMapKeys und tab = filter (live und) (map (mkey tab) [0 ..< OBJSET_SIZE tab])"
proof -
  have "{i. i < length (mkeys tab) \<and> live und (mkeys tab ! i)} = {i. i < OBJSET_SIZE tab \<and> live und (mkey tab i)}"
    by auto
  then have "OBJSET_USED tab = length (filter (live und) (mkeys tab))"
    using map_okD(1) [OF assms] by (simp add: table_ok_def length_filter_conv_card)
  moreover have "(\<lambda>i. READ_SLOT tab (2 * i)) = mkey tab"
    by (rule ext) (simp add: READ_SLOT_def mkey_def mult.commute)
  ultimately show keys: "ObjMapKeys und tab = filter (live und) (map (mkey tab) [0 ..< OBJSET_SIZE tab])"
    unfolding ObjMapKeys_def
    using values_loop_filter [of 1 "replicate (OBJSET_USED tab) 0" und "mkey tab" 0 "OBJSET_SIZE tab"]
    by (simp add: mkeys_def)
  show "set (ObjMapKeys und tab) = dom (entries und tab)"
    unfolding keys using entries_dom [OF assms] by (auto simp del: domIff simp: mkeys_def set_eq_iff)
  have "distinct (map (mkey tab) (filter (\<lambda>i. live und (mkey tab i)) [0 ..< OBJSET_SIZE tab]))"
    using map_okD(5) [OF assms] by (simp add: distinct_map conj_commute)
  then show "distinct (ObjMapKeys und tab)"
    unfolding keys by (simp add: filter_map comp_def)
qed

text \<open>The values come in the order of the keys.\<close>

lemma ObjMapValues_lists:
  assumes "map_ok und tab"
  shows "map Some (ObjMapValues und tab) = map (entries und tab) (ObjMapKeys und tab)"
proof -
  let ?I = "filter (\<lambda>i. live und (mkey tab i)) [0 ..< OBJSET_SIZE tab]"
  have filt: "filter (live und) (map (mval tab) [0 ..< OBJSET_SIZE tab]) = map (mval tab) ?I"
  proof -
    have "filter (\<lambda>i. live und (mval tab i)) [0 ..< OBJSET_SIZE tab] = ?I"
      using map_okD(6) [OF assms] by (intro filter_cong) auto
    then show ?thesis by (simp add: filter_map comp_def)
  qed
  have "OBJSET_USED tab = length (filter (live und) (mkeys tab))"
    using map_okD(1) [OF assms] unfolding table_ok_def length_filter_conv_card by blast
  then have used: "OBJSET_USED tab = length ?I"
    by (simp add: mkeys_def filter_map comp_def)
  have "(\<lambda>i. READ_SLOT tab (2 * i + 1)) = mval tab"
    by (rule ext) (simp add: READ_SLOT_def mval_def mult.commute)
  then have vals: "ObjMapValues und tab = map (mval tab) ?I"
    unfolding ObjMapValues_def
    using values_loop_filter [of 1 "replicate (OBJSET_USED tab) 0" und "mval tab" 0 "OBJSET_SIZE tab"] filt used
    by simp
  have keys: "ObjMapKeys und tab = map (mkey tab) ?I"
    unfolding ObjMapKeys_lists(3) [OF assms] by (simp add: filter_map comp_def)
  have "entries und tab (mkey tab i) = Some (mval tab i)" if "i < OBJSET_SIZE tab" "live und (mkey tab i)" for i
    using that by (auto simp: entries_iff [OF assms])
  then show ?thesis
    unfolding vals keys by simp
qed

lemma LookupObjMap_entry:
  assumes "map_ok und tab" "load_ok tab" "und \<noteq> 0" "live und key"
  shows "LookupObjMap tab key = Some (case entries und tab key of None \<Rightarrow> 0 | Some v \<Rightarrow> v)"
proof (cases "entries und tab key")
  case None
  then show ?thesis
    using FindObjMap_entry(1) [OF assms] by (simp add: LookupObjMap_def domIff)
next
  case (Some v)
  then show ?thesis
    using FindObjMap_entry(2) [OF assms Some]
    by (auto simp: LookupObjMap_def READ_SLOT_def mval_def nat_add_distrib nat_mult_distrib)
qed

end
