(* ===== verification/ObjSetSpec.thy ===== *)
theory ObjSetSpec
  imports ObjMapCorrect
begin

text \<open>
  What object sets and maps promise: whatever sequence of operations built a table, every operation on it returns,
  and it behaves as the finite set or the finite map that the same operations build; the functions of the GAP level
  check their arguments; a table that is saved and loaded into another workspace holds the restored objects.
\<close>

subsection \<open>Representation\<close>

definition set_repr :: "handle \<Rightarrow> objtable \<Rightarrow> handle set \<Rightarrow> bool" where
  "set_repr und tab S \<longleftrightarrow> set_ok und tab \<and> load_ok tab \<and> members und tab = S"

definition map_repr :: "handle \<Rightarrow> objtable \<Rightarrow> (handle \<rightharpoonup> handle) \<Rightarrow> bool" where
  "map_repr und tab m \<longleftrightarrow> map_ok und tab \<and> load_ok tab \<and> entries und tab = m"

lemma set_repr_used: "set_repr und tab S \<Longrightarrow> OBJSET_USED tab = card S"
  using members_card by (auto simp: set_repr_def)

lemma map_repr_used: "map_repr und tab m \<Longrightarrow> OBJSET_USED tab = card (dom m)"
  using entries_card by (auto simp: map_repr_def)

lemma set_repr_finite: "set_repr und tab S \<Longrightarrow> finite S"
  by (auto simp: set_repr_def)

lemma set_repr_live: "set_repr und tab S \<Longrightarrow> h \<in> S \<Longrightarrow> live und h"
  by (auto simp: set_repr_def members_def)

lemma set_repr_new: "und \<noteq> 0 \<Longrightarrow> set_repr und NewObjSet {}"
  by (simp add: set_repr_def NewObjSet_ok)

lemma map_repr_new: "und \<noteq> 0 \<Longrightarrow> map_repr und NewObjMap Map.empty"
  by (simp add: map_repr_def NewObjMap_ok)

lemma set_repr_add:
  assumes "set_repr und tab S" "und \<noteq> 0" "live und obj" "card S < 2 ^ 29"
  shows "\<exists>tab'. AddObjSet und tab obj = Some tab' \<and> set_repr und tab' (insert obj S)"
proof -
  have "set_ok und tab" "load_ok tab" "members und tab = S" "OBJSET_USED tab < 2 ^ 29"
    using assms(1,4) set_repr_used [OF assms(1)] by (auto simp: set_repr_def)
  then show ?thesis
    using AddObjSet_adds [of und tab obj] assms(2,3) unfolding set_repr_def by metis
qed

lemma set_repr_remove:
  assumes "set_repr und tab S" "und \<noteq> 0" "live und obj" "card S \<le> 2 ^ 29"
  shows "\<exists>tab'. RemoveObjSet und tab obj = Some tab' \<and> set_repr und tab' (S - {obj})"
proof -
  have "set_ok und tab" "load_ok tab" "members und tab = S" "OBJSET_USED tab \<le> 2 ^ 29"
    using assms(1,4) set_repr_used [OF assms(1)] by (auto simp: set_repr_def)
  then show ?thesis
    using RemoveObjSet_removes [of und tab obj] assms(2,3) unfolding set_repr_def by metis
qed

lemma set_repr_find:
  assumes "set_repr und tab S" "und \<noteq> 0" "live und obj"
  shows "\<exists>pos. FindObjSet tab obj = Some pos \<and> (0 \<le> pos \<longleftrightarrow> obj \<in> S)"
  using FindObjSet_member [of und tab obj] assms by (cases "obj \<in> S") (auto simp: set_repr_def)

lemma map_repr_add:
  assumes "map_repr und tab m" "und \<noteq> 0" "live und key" "live und val" "card (dom m) < 2 ^ 29"
  shows "\<exists>tab'. AddObjMap und tab key val = Some tab' \<and> map_repr und tab' (m(key \<mapsto> val))"
proof -
  have "map_ok und tab" "load_ok tab" "entries und tab = m" "OBJSET_USED tab < 2 ^ 29"
    using assms(1,5) map_repr_used [OF assms(1)] by (auto simp: map_repr_def)
  then show ?thesis
    using AddObjMap_updates [of und tab key val] assms(2-4) unfolding map_repr_def by metis
qed

lemma map_repr_remove:
  assumes "map_repr und tab m" "und \<noteq> 0" "live und key" "card (dom m) \<le> 2 ^ 29"
  shows "\<exists>tab'. RemoveObjMap und tab key = Some tab' \<and> map_repr und tab' (m(key := None))"
proof -
  have "map_ok und tab" "load_ok tab" "entries und tab = m" "OBJSET_USED tab \<le> 2 ^ 29"
    using assms(1,4) map_repr_used [OF assms(1)] by (auto simp: map_repr_def)
  then show ?thesis
    using RemoveObjMap_removes [of und tab key] assms(2,3) unfolding map_repr_def by metis
qed

lemma map_repr_find:
  assumes "map_repr und tab m" "und \<noteq> 0" "live und key"
  shows "\<exists>pos. FindObjMap tab key = Some pos \<and> (0 \<le> pos \<longleftrightarrow> key \<in> dom m) \<and>
    (\<forall>v. m key = Some v \<longrightarrow> READ_SLOT tab (nat (2 * pos + 1)) = v)"
proof (cases "m key")
  case None
  then show ?thesis
    using FindObjMap_entry(1) [of und tab key] assms by (auto simp: map_repr_def domIff)
next
  case (Some v)
  then show ?thesis
    using FindObjMap_entry(2) [of und tab key v] assms
    by (auto simp: map_repr_def READ_SLOT_def mval_def nat_add_distrib nat_mult_distrib mult.commute)
qed

text \<open>C14: The operations on object sets are those of finite sets: adding, removing, clearing, searching and listing
  return (no probing loop runs forever) and yield tables for the set with the object added, removed, for the empty
  set, the membership, and the members without repetition.\<close>

theorem object_sets_refine:
  assumes "und \<noteq> 0" "set_repr und tab S" "live und obj" "card S < 2 ^ 29"
  shows "(\<exists>tab'. AddObjSet und tab obj = Some tab' \<and> set_repr und tab' (insert obj S)) \<and>
    (\<exists>tab'. RemoveObjSet und tab obj = Some tab' \<and> set_repr und tab' (S - {obj})) \<and>
    set_repr und (ClearObjSet tab) {} \<and>
    (\<exists>pos. FindObjSet tab obj = Some pos \<and> (0 \<le> pos \<longleftrightarrow> obj \<in> S)) \<and>
    distinct (ObjSetValues und tab) \<and> set (ObjSetValues und tab) = S"
  using set_repr_add [OF assms(2,1,3,4)] set_repr_remove [OF assms(2,1,3)] set_repr_new [OF assms(1)]
    set_repr_find [OF assms(2,1,3)] ObjSetValues_lists [of und tab] assms(2,4)
  by (simp add: ClearObjSet_def set_repr_def)

theorem object_sets_refine_witness:
  "\<exists>tab. set_repr 8 tab {9, 5} \<and> (\<exists>tab'. RemoveObjSet 8 tab 5 = Some tab' \<and> set_repr 8 tab' {9})"
proof -
  obtain t where t: "set_repr 8 t {5}"
    using object_sets_refine [of 8 NewObjSet "{}" 5] by (auto simp: set_repr_new live_def)
  obtain u where u: "set_repr 8 u {9, 5}"
    using object_sets_refine [OF _ t, of 9] by (auto simp: live_def)
  have "{9, 5} - {5} = {9 :: handle}" by auto
  moreover have "\<exists>tab'. RemoveObjSet 8 u 5 = Some tab' \<and> set_repr 8 tab' ({9, 5} - {5})"
    using object_sets_refine [OF _ u, of 5] by (simp add: live_def)
  ultimately show ?thesis
    using u by metis
qed


text \<open>C23: The operations on object maps are those of finite maps: storing replaces the value of a key, removing
  deletes its entry, a lookup returns the value or the null handle, and the lists of keys and of values agree.\<close>

theorem object_maps_refine:
  assumes "und \<noteq> 0" "map_repr und tab m" "live und key" "live und val" "card (dom m) < 2 ^ 29"
  shows "(\<exists>tab'. AddObjMap und tab key val = Some tab' \<and> map_repr und tab' (m(key \<mapsto> val))) \<and>
    (\<exists>tab'. RemoveObjMap und tab key = Some tab' \<and> map_repr und tab' (m(key := None))) \<and>
    map_repr und (ClearObjMap tab) Map.empty \<and>
    (\<exists>pos. FindObjMap tab key = Some pos \<and> (0 \<le> pos \<longleftrightarrow> key \<in> dom m)) \<and>
    LookupObjMap tab key = Some (case m key of None \<Rightarrow> 0 | Some v \<Rightarrow> v) \<and>
    distinct (ObjMapKeys und tab) \<and> set (ObjMapKeys und tab) = dom m \<and>
    map Some (ObjMapValues und tab) = map m (ObjMapKeys und tab)"
proof -
  have ok: "map_ok und tab" "load_ok tab" "entries und tab = m"
    using assms(2) by (auto simp: map_repr_def)
  show ?thesis
    using map_repr_add [OF assms(2,1,3,4,5)] map_repr_remove [OF assms(2,1,3)] map_repr_new [OF assms(1)]
      map_repr_find [OF assms(2,1,3)] LookupObjMap_entry [OF ok(1,2) assms(1,3)] ObjMapKeys_lists [OF ok(1)]
      ObjMapValues_lists [OF ok(1)] assms(5) ok(3)
    by (simp add: ClearObjMap_def) blast
qed

theorem object_maps_refine_witness:
  "\<exists>tab. map_repr 8 tab [5 \<mapsto> 13] \<and> LookupObjMap tab 5 = Some 13 \<and> LookupObjMap tab 9 = Some 0"
proof -
  obtain t where t: "map_repr 8 t [5 \<mapsto> 13]"
    using object_maps_refine [of 8 NewObjMap Map.empty 5 13] by (auto simp: map_repr_new live_def)
  then show ?thesis
    using object_maps_refine [OF _ t, of 5 13] object_maps_refine [OF _ t, of 9 13] by (auto simp: live_def)
qed


subsection \<open>Histories\<close>

datatype objset_op = Add_obj handle | Remove_obj handle | Clear_obj

primrec op_live :: "handle \<Rightarrow> objset_op \<Rightarrow> bool" where
  "op_live und (Add_obj h) \<longleftrightarrow> live und h"
| "op_live und (Remove_obj h) \<longleftrightarrow> live und h"
| "op_live und Clear_obj \<longleftrightarrow> True"

primrec step_table :: "handle \<Rightarrow> objset_op \<Rightarrow> objtable \<Rightarrow> objtable option" where
  "step_table und (Add_obj h) tab = AddObjSet und tab h"
| "step_table und (Remove_obj h) tab = RemoveObjSet und tab h"
| "step_table und Clear_obj tab = Some (ClearObjSet tab)"

primrec step_set :: "objset_op \<Rightarrow> handle set \<Rightarrow> handle set" where
  "step_set (Add_obj h) S = insert h S"
| "step_set (Remove_obj h) S = S - {h}"
| "step_set Clear_obj S = {}"

primrec run_table :: "handle \<Rightarrow> objset_op list \<Rightarrow> objtable \<Rightarrow> objtable option" where
  "run_table und [] tab = Some tab"
| "run_table und (op # ops) tab = Option.bind (step_table und op tab) (run_table und ops)"

primrec run_set :: "objset_op list \<Rightarrow> handle set \<Rightarrow> handle set" where
  "run_set [] S = S"
| "run_set (op # ops) S = run_set ops (step_set op S)"

lemma step_table_repr:
  assumes "und \<noteq> 0" "set_repr und tab S" "op_live und op" "card S < 2 ^ 29"
  shows "\<exists>tab'. step_table und op tab = Some tab' \<and> set_repr und tab' (step_set op S)"
  using set_repr_add [OF assms(2,1)] set_repr_remove [OF assms(2,1)] set_repr_new [OF assms(1)] assms(3,4)
  by (cases op) (auto simp: ClearObjSet_def)

lemma step_set_card: "finite S \<Longrightarrow> card (step_set op S) \<le> card S + 1"
  by (cases op) (auto simp: card_insert_if intro: le_SucI card_Diff1_le)

lemma run_table_repr:
  "und \<noteq> 0 \<Longrightarrow> set_repr und tab S \<Longrightarrow> \<forall>op \<in> set ops. op_live und op \<Longrightarrow> card S + length ops \<le> 2 ^ 29 \<Longrightarrow>
   \<exists>tab'. run_table und ops tab = Some tab' \<and> set_repr und tab' (run_set ops S)"
proof (induction ops arbitrary: tab S)
  case Nil
  then show ?case by simp
next
  case (Cons op ops)
  obtain t where t: "step_table und op tab = Some t" "set_repr und t (step_set op S)"
    using step_table_repr [OF Cons.prems(1,2), of op] Cons.prems(3,4) by auto
  have "card (step_set op S) + length ops \<le> 2 ^ 29"
    using step_set_card [OF set_repr_finite [OF Cons.prems(2)], of op] Cons.prems(4) by simp
  then show ?case
    using Cons.IH [OF Cons.prems(1) t(2)] Cons.prems(3) t(1) by simp
qed

text \<open>C24: Every sequence of at most \<open>2 ^ 29\<close> additions, removals and clearings on a new object set runs to its
  end, and so does every search in the resulting table: the loops of the hash table always reach the sought key or
  an empty entry, and the answer is the membership in the set the same operations build.\<close>

theorem object_set_histories_return:
  assumes "und \<noteq> 0" "\<forall>op \<in> set ops. op_live und op" "length ops \<le> 2 ^ 29"
  shows "\<exists>tab. run_table und ops NewObjSet = Some tab \<and>
    (\<exists>i < OBJSET_SIZE tab. READ_SLOT tab i = 0) \<and>
    (\<forall>obj. live und obj \<longrightarrow> (\<exists>pos. FindObjSet tab obj = Some pos \<and> (0 \<le> pos \<longleftrightarrow> obj \<in> run_set ops {})))"
proof -
  obtain tab where tab: "run_table und ops NewObjSet = Some tab" "set_repr und tab (run_set ops {})"
    using run_table_repr [OF assms(1) set_repr_new [OF assms(1)] assms(2)] assms(3) by auto
  have "\<exists>i < OBJSET_SIZE tab. READ_SLOT tab i = 0"
    using tab(2) assms(1) table_has_empty [of und "OBJSET_BITS tab" "OBJSET_USED tab" "OBJSET_DIRTY tab" "slots tab"]
    by (auto simp: set_repr_def set_ok_def load_ok_def READ_SLOT_def)
  then show ?thesis
    using tab set_repr_find [OF tab(2) assms(1)] by blast
qed

theorem object_set_histories_return_witness:
  "\<exists>tab. run_table 8 [Add_obj 5, Add_obj 9, Remove_obj 5, Add_obj 13] NewObjSet = Some tab \<and>
    (\<exists>pos \<ge> 0. FindObjSet tab 9 = Some pos) \<and> (\<exists>pos < 0. FindObjSet tab 5 = Some pos)"
proof -
  let ?ops = "[Add_obj 5, Add_obj 9, Remove_obj 5, Add_obj 13]"
  have "run_set ?ops {} = {13, 9}"
    by auto
  then obtain tab where tab: "run_table 8 ?ops NewObjSet = Some tab"
    "\<And>obj. live 8 obj \<Longrightarrow> \<exists>pos. FindObjSet tab obj = Some pos \<and> (0 \<le> pos \<longleftrightarrow> obj \<in> {13, 9})"
    using object_set_histories_return [of 8 ?ops] by (auto simp: live_def)
  then show ?thesis
    using tab(2) [of 9] tab(2) [of 5] by (auto simp: live_def not_le)
qed


subsection \<open>The functions of the GAP level\<close>

lemma obj_set_loop_adds:
  "und \<noteq> 0 \<Longrightarrow> set_repr und tab S \<Longrightarrow> \<forall>x \<in> set xs. live und x \<Longrightarrow> card S + length xs \<le> 2 ^ 29 \<Longrightarrow>
   \<exists>tab'. obj_set_loop und tab (map Some xs) = Some (Inr tab') \<and> set_repr und tab' (S \<union> set xs)"
proof (induction xs arbitrary: tab S)
  case Nil
  then show ?case by simp
next
  case (Cons x xs)
  obtain t where t: "AddObjSet und tab x = Some t" "set_repr und t (insert x S)"
    using set_repr_add [OF Cons.prems(2,1), of x] Cons.prems(3,4) by auto
  have "card (insert x S) + length xs \<le> 2 ^ 29"
    using Cons.prems(4) set_repr_finite [OF Cons.prems(2)] by (simp add: card_insert_if)
  then show ?case
    using Cons.IH [OF Cons.prems(1) t(2)] Cons.prems(3) t(1) by (simp add: live_def)
qed

lemma obj_map_loop_adds:
  "und \<noteq> 0 \<Longrightarrow> map_repr und tab m \<Longrightarrow> \<forall>(k, v) \<in> set kvs. live und k \<and> live und v \<Longrightarrow>
   card (dom m) + length kvs \<le> 2 ^ 29 \<Longrightarrow>
   \<exists>tab'. obj_map_loop und tab (concat (map (\<lambda>(k, v). [Some k, Some v]) kvs)) = Some (Inr tab') \<and>
     map_repr und tab' (m ++ map_of (rev kvs))"
proof (induction kvs arbitrary: tab m)
  case Nil
  then show ?case by simp
next
  case (Cons kv kvs)
  obtain k v where kv: "kv = (k, v)" by (cases kv)
  obtain t where t: "AddObjMap und tab k v = Some t" "map_repr und t (m(k \<mapsto> v))"
    using map_repr_add [OF Cons.prems(2,1), of k v] Cons.prems(3,4) kv by auto
  have "finite (dom m)"
    using Cons.prems(2) by (auto simp: map_repr_def)
  then have "card (dom (m(k \<mapsto> v))) + length kvs \<le> 2 ^ 29"
    using Cons.prems(4) by (simp add: card_insert_if)
  moreover have "\<forall>(k, v) \<in> set kvs. live und k \<and> live und v"
    using Cons.prems(3) by simp
  ultimately obtain tab' where "obj_map_loop und t (concat (map (\<lambda>(k, v). [Some k, Some v]) kvs)) = Some (Inr tab')"
    "map_repr und tab' (m(k \<mapsto> v) ++ map_of (rev kvs))"
    using Cons.IH [OF Cons.prems(1) t(2)] by blast
  moreover have "m(k \<mapsto> v) ++ map_of (rev kvs) = m ++ map_of (rev kvs @ [(k, v)])"
    by (simp only: map_of_append map_of.simps fst_conv snd_conv map_add_assoc map_add_upd map_add_empty)
  ultimately show ?case
    using Cons.prems(3) t(1) kv by (simp add: live_def del: map_of_append)
qed

lemma obj_set_loop_hole:
  "und \<noteq> 0 \<Longrightarrow> set_repr und tab S \<Longrightarrow> \<forall>x \<in> set xs. live und x \<Longrightarrow> card S + length xs \<le> 2 ^ 29 \<Longrightarrow>
   obj_set_loop und tab (map Some xs @ None # ys) = Some (Inl ''List Element: <list>[<pos>] must have an assigned value'')"
proof (induction xs arbitrary: tab S)
  case Nil
  then show ?case by simp
next
  case (Cons x xs)
  obtain t where t: "AddObjSet und tab x = Some t" "set_repr und t (insert x S)"
    using set_repr_add [OF Cons.prems(2,1), of x] Cons.prems(3,4) by auto
  have "card (insert x S) + length xs \<le> 2 ^ 29"
    using Cons.prems(4) set_repr_finite [OF Cons.prems(2)] by (simp add: card_insert_if)
  then show ?case
    using Cons.IH [OF Cons.prems(1) t(2)] Cons.prems(3) t(1) by (simp add: live_def)
qed

definition hole :: string where
  "hole = ''List Element: <list>[<pos>] must have an assigned value''"

lemma obj_map_loop_hole:
  "und \<noteq> 0 \<Longrightarrow> map_repr und tab m \<Longrightarrow> \<forall>(k, v) \<in> set kvs. live und k \<and> live und v \<Longrightarrow>
   card (dom m) + length kvs \<le> 2 ^ 29 \<Longrightarrow> k' = None \<or> v' = None \<Longrightarrow>
   obj_map_loop und tab (concat (map (\<lambda>(k, v). [Some k, Some v]) kvs) @ k' # v' # ys) = Some (Inl hole)"
proof (induction kvs arbitrary: tab m)
  case Nil
  then show ?case by (auto simp: hole_def split: option.splits)
next
  case (Cons kv kvs)
  obtain k v where kv: "kv = (k, v)" by (cases kv)
  obtain t where t: "AddObjMap und tab k v = Some t" "map_repr und t (m(k \<mapsto> v))"
    using map_repr_add [OF Cons.prems(2,1), of k v] Cons.prems(3,4) kv by auto
  have "finite (dom m)"
    using Cons.prems(2) by (auto simp: map_repr_def)
  then have "card (dom (m(k \<mapsto> v))) + length kvs \<le> 2 ^ 29"
    using Cons.prems(4) by (simp add: card_insert_if)
  moreover have "\<forall>(k, v) \<in> set kvs. live und k \<and> live und v"
    using Cons.prems(3) by simp
  ultimately have "obj_map_loop und t (concat (map (\<lambda>(k, v). [Some k, Some v]) kvs) @ k' # v' # ys) = Some (Inl hole)"
    using Cons.IH [OF Cons.prems(1) t(2) _ _ Cons.prems(5)] by blast
  then show ?case
    using Cons.prems(3) t(1) kv by (simp add: live_def)
qed

text \<open>The arguments of the two functions that make a table.\<close>

lemma OBJ_SET_makes:
  assumes "und \<noteq> 0" "\<forall>x \<in> set xs. live und x" "length xs \<le> 2 ^ 29"
  shows "\<exists>t. FuncOBJ_SET und [] = Some (Inr (ObjSet True t)) \<and> set_repr und t {}"
    "\<exists>t. FuncOBJ_SET und [Some (map Some xs)] = Some (Inr (ObjSet True t)) \<and> set_repr und t (set xs)"
    "FuncOBJ_SET und [Some (map Some xs @ None # es)] = Some (Inl hole)"
    "FuncOBJ_SET und [None] = Some (Inl ''OBJ_SET: Argument must be a list'')"
    "FuncOBJ_SET und (l # l' # ls) = Some (Inl ''OBJ_SET: Too many arguments'')"
proof -
  note new = set_repr_new [OF assms(1)]
  show "\<exists>t. FuncOBJ_SET und [Some (map Some xs)] = Some (Inr (ObjSet True t)) \<and> set_repr und t (set xs)"
    using obj_set_loop_adds [OF assms(1) new assms(2)] assms(3) by (auto simp: FuncOBJ_SET_def)
  show "FuncOBJ_SET und [Some (map Some xs @ None # es)] = Some (Inl hole)"
    using obj_set_loop_hole [OF assms(1) new assms(2)] assms(3) by (simp add: FuncOBJ_SET_def hole_def)
qed (simp_all add: FuncOBJ_SET_def set_repr_new [OF assms(1)])

lemma OBJ_MAP_makes:
  assumes "und \<noteq> 0" "\<forall>(k, v) \<in> set kvs. live und k \<and> live und v" "length kvs \<le> 2 ^ 29"
  defines "pairs \<equiv> concat (map (\<lambda>(k, v). [Some k, Some v]) kvs)"
  shows "\<exists>t. FuncOBJ_MAP und [] = Some (Inr (ObjMap True t)) \<and> map_repr und t Map.empty"
    "\<exists>t. FuncOBJ_MAP und [Some pairs] = Some (Inr (ObjMap True t)) \<and> map_repr und t (map_of (rev kvs))"
    "even (length es) \<Longrightarrow> k' = None \<or> v' = None \<Longrightarrow> FuncOBJ_MAP und [Some (pairs @ k' # v' # es)] = Some (Inl hole)"
    "odd (length elms) \<Longrightarrow> FuncOBJ_MAP und [Some elms] = Some (Inl ''OBJ_MAP: Argument must be a list with even length'')"
    "FuncOBJ_MAP und [None] = Some (Inl ''OBJ_MAP: Argument must be a list with even length'')"
    "FuncOBJ_MAP und (l # l' # ls) = Some (Inl ''OBJ_MAP: Too many arguments'')"
proof -
  note new = map_repr_new [OF assms(1)]
  have len: "length pairs mod 2 = 0" unfolding pairs_def by (induction kvs) auto
  show "\<exists>t. FuncOBJ_MAP und [Some pairs] = Some (Inr (ObjMap True t)) \<and> map_repr und t (map_of (rev kvs))"
    using obj_map_loop_adds [OF assms(1) new assms(2)] assms(3) len by (auto simp: FuncOBJ_MAP_def pairs_def)
  have "length (pairs @ k' # v' # es) mod 2 = 0" if "even (length es)" for k' v' :: "handle option" and es
    using len that by (simp add: mod_2_eq_odd)
  then show "even (length es) \<Longrightarrow> k' = None \<or> v' = None \<Longrightarrow> FuncOBJ_MAP und [Some (pairs @ k' # v' # es)] = Some (Inl hole)"
    using obj_map_loop_hole [OF assms(1) new assms(2), of k' v' es] assms(3)
    by (simp add: FuncOBJ_MAP_def pairs_def)
qed (simp_all add: FuncOBJ_MAP_def map_repr_new [OF assms(1)] odd_iff_mod_2_eq_one)

lemmas handlers_simps = RequireTable_def is_T_OBJSET_def is_T_OBJMAP_def IS_OBJSET_def IS_OBJMAP_def
  FuncADD_OBJ_SET_def FuncREMOVE_OBJ_SET_def FuncFIND_OBJ_SET_def FuncCLEAR_OBJ_SET_def FuncOBJ_SET_VALUES_def
  FuncADD_OBJ_MAP_def FuncREMOVE_OBJ_MAP_def FuncFIND_OBJ_MAP_def FuncCONTAINS_OBJ_MAP_def FuncCLEAR_OBJ_MAP_def
  FuncOBJ_MAP_VALUES_def FuncOBJ_MAP_KEYS_def

text \<open>What the handlers do with a set that they accept.\<close>

lemma set_handlers:
  assumes "und \<noteq> 0" "set_repr und s S" "live und obj" "card S < 2 ^ 29"
  shows "\<exists>t. FuncADD_OBJ_SET und (ObjSet True s) obj = Some (Inr (ObjSet True t)) \<and> set_repr und t (insert obj S)"
    "\<exists>t. FuncREMOVE_OBJ_SET und (ObjSet True s) obj = Some (Inr (ObjSet True t)) \<and> set_repr und t (S - {obj})"
    "FuncFIND_OBJ_SET (ObjSet b s) obj = Some (Inr (obj \<in> S))"
    "\<exists>t. FuncCLEAR_OBJ_SET (ObjSet True s) = Some (Inr (ObjSet True t)) \<and> set_repr und t {}"
    "\<exists>vs. FuncOBJ_SET_VALUES und (ObjSet b s) = Some (Inr vs) \<and> distinct vs \<and> set vs = S"
  using set_repr_add [OF assms(2,1,3,4)] set_repr_remove [OF assms(2,1,3)] set_repr_new [OF assms(1)]
    set_repr_find [OF assms(2,1,3)] ObjSetValues_lists [of und s] assms(2,4)
  by (auto simp: handlers_simps ClearObjSet_def set_repr_def)

lemma map_handlers:
  assumes "und \<noteq> 0" "map_repr und s m" "live und key" "live und val" "card (dom m) < 2 ^ 29"
  shows "\<exists>t. FuncADD_OBJ_MAP und (ObjMap True s) key val = Some (Inr (ObjMap True t)) \<and> map_repr und t (m(key \<mapsto> val))"
    "\<exists>t. FuncREMOVE_OBJ_MAP und (ObjMap True s) key = Some (Inr (ObjMap True t)) \<and> map_repr und t (m(key := None))"
    "FuncFIND_OBJ_MAP (ObjMap b s) key def = Some (Inr (case m key of None \<Rightarrow> def | Some v \<Rightarrow> v))"
    "FuncCONTAINS_OBJ_MAP (ObjMap b s) key = Some (Inr (key \<in> dom m))"
    "\<exists>t. FuncCLEAR_OBJ_MAP (ObjMap True s) = Some (Inr (ObjMap True t)) \<and> map_repr und t Map.empty"
    "\<exists>ks vs. FuncOBJ_MAP_KEYS und (ObjMap b s) = Some (Inr ks) \<and> FuncOBJ_MAP_VALUES und (ObjMap b s) = Some (Inr vs) \<and>
      distinct ks \<and> set ks = dom m \<and> map Some vs = map m ks"
proof -
  have ok: "map_ok und s" "load_ok s" "entries und s = m"
    using assms(2) by (auto simp: map_repr_def)
  obtain pos where pos: "FindObjMap s key = Some pos" "0 \<le> pos \<longleftrightarrow> key \<in> dom m"
    "\<forall>v. m key = Some v \<longrightarrow> READ_SLOT s (nat (2 * pos + 1)) = v"
    using map_repr_find [OF assms(2,1,3)] by blast
  show "FuncFIND_OBJ_MAP (ObjMap b s) key def = Some (Inr (case m key of None \<Rightarrow> def | Some v \<Rightarrow> v))"
    using pos by (cases "m key") (auto simp: handlers_simps domIff)
  show "FuncCONTAINS_OBJ_MAP (ObjMap b s) key = Some (Inr (key \<in> dom m))"
    using pos by (simp add: handlers_simps)
  show "\<exists>ks vs. FuncOBJ_MAP_KEYS und (ObjMap b s) = Some (Inr ks) \<and> FuncOBJ_MAP_VALUES und (ObjMap b s) = Some (Inr vs) \<and>
      distinct ks \<and> set ks = dom m \<and> map Some vs = map m ks"
    using ObjMapKeys_lists [OF ok(1)] ObjMapValues_lists [OF ok(1)] ok(3) by (simp add: handlers_simps)
  show "\<exists>t. FuncADD_OBJ_MAP und (ObjMap True s) key val = Some (Inr (ObjMap True t)) \<and> map_repr und t (m(key \<mapsto> val))"
    using map_repr_add [OF assms(2,1,3,4,5)] by (auto simp: handlers_simps)
  show "\<exists>t. FuncREMOVE_OBJ_MAP und (ObjMap True s) key = Some (Inr (ObjMap True t)) \<and> map_repr und t (m(key := None))"
    using map_repr_remove [OF assms(2,1,3)] assms(5) by (auto simp: handlers_simps)
  show "\<exists>t. FuncCLEAR_OBJ_MAP (ObjMap True s) = Some (Inr (ObjMap True t)) \<and> map_repr und t Map.empty"
    using map_repr_new [OF assms(1)] by (simp add: handlers_simps ClearObjMap_def)
qed

text \<open>The objects that a handler refuses: those of another type, and immutable tables where the handler changes the table.\<close>

lemma handler_errors:
  "FuncADD_OBJ_SET und tab obj = Some (Inl ''must be a mutable object set'') \<longleftrightarrow> (\<nexists>t. tab = ObjSet True t)"
  "FuncREMOVE_OBJ_SET und tab obj = Some (Inl ''must be a mutable object set'') \<longleftrightarrow> (\<nexists>t. tab = ObjSet True t)"
  "FuncCLEAR_OBJ_SET tab = Some (Inl ''must be a mutable object set'') \<longleftrightarrow> (\<nexists>t. tab = ObjSet True t)"
  "FuncFIND_OBJ_SET tab obj = Some (Inl ''must be an object set'') \<longleftrightarrow> (\<nexists>b t. tab = ObjSet b t)"
  "FuncOBJ_SET_VALUES und tab = Some (Inl ''must be an object set'') \<longleftrightarrow> (\<nexists>b t. tab = ObjSet b t)"
  "FuncADD_OBJ_MAP und tab obj val = Some (Inl ''must be a mutable object map'') \<longleftrightarrow> (\<nexists>t. tab = ObjMap True t)"
  "FuncREMOVE_OBJ_MAP und tab obj = Some (Inl ''must be a mutable object map'') \<longleftrightarrow> (\<nexists>t. tab = ObjMap True t)"
  "FuncCLEAR_OBJ_MAP tab = Some (Inl ''must be a mutable object map'') \<longleftrightarrow> (\<nexists>t. tab = ObjMap True t)"
  "FuncFIND_OBJ_MAP tab obj val = Some (Inl ''must be an object map'') \<longleftrightarrow> (\<nexists>b t. tab = ObjMap b t)"
  "FuncCONTAINS_OBJ_MAP tab obj = Some (Inl ''must be an object map'') \<longleftrightarrow> (\<nexists>b t. tab = ObjMap b t)"
  "FuncOBJ_MAP_KEYS und tab = Some (Inl ''must be an object map'') \<longleftrightarrow> (\<nexists>b t. tab = ObjMap b t)"
  "FuncOBJ_MAP_VALUES und tab = Some (Inl ''must be an object map'') \<longleftrightarrow> (\<nexists>b t. tab = ObjMap b t)"
  by (cases tab; auto simp: handlers_simps)+

text \<open>C34: The functions of the GAP level. \<open>OBJ_SET\<close> and \<open>OBJ_MAP\<close> without an argument make an empty table; from a
  list they make the set of its entries and the map in which the last value of a key wins; they reject two arguments,
  an object that is not a list and a hole (\<open>OBJ_MAP\<close> as a key or as a value, and also an odd number of entries). On a set
  or a map that they accept, the other functions add, remove, search, clear and list as on finite sets and
  finite maps. The ones that change a table raise an error exactly for an object of another type and for an
  immutable table, the ones that read it exactly for an object of another type.\<close>

theorem object_table_handlers_checked:
  assumes "und \<noteq> 0" "live und obj" "live und val"
    and "set_repr und s S" "card S < 2 ^ 29" "map_repr und u m" "card (dom m) < 2 ^ 29"
    and "\<forall>x \<in> set xs. live und x" "length xs \<le> 2 ^ 29"
    and "\<forall>(k, v) \<in> set kvs. live und k \<and> live und v" "length kvs \<le> 2 ^ 29"
  defines "pairs \<equiv> concat (map (\<lambda>(k, v). [Some k, Some v]) kvs)"
  shows "(\<exists>t. FuncOBJ_SET und [] = Some (Inr (ObjSet True t)) \<and> set_repr und t {}) \<and>
    (\<exists>t. FuncOBJ_SET und [Some (map Some xs)] = Some (Inr (ObjSet True t)) \<and> set_repr und t (set xs)) \<and>
    FuncOBJ_SET und [Some (map Some xs @ None # es)] = Some (Inl hole) \<and>
    FuncOBJ_SET und [None] = Some (Inl ''OBJ_SET: Argument must be a list'') \<and>
    FuncOBJ_SET und (l # l' # ls) = Some (Inl ''OBJ_SET: Too many arguments'') \<and>
    (\<exists>t. FuncOBJ_MAP und [] = Some (Inr (ObjMap True t)) \<and> map_repr und t Map.empty) \<and>
    (\<exists>t. FuncOBJ_MAP und [Some pairs] = Some (Inr (ObjMap True t)) \<and> map_repr und t (map_of (rev kvs))) \<and>
    (even (length es) \<longrightarrow> FuncOBJ_MAP und [Some (pairs @ None # e # es)] = Some (Inl hole) \<and>
      FuncOBJ_MAP und [Some (pairs @ e # None # es)] = Some (Inl hole)) \<and>
    (odd (length es) \<longrightarrow> FuncOBJ_MAP und [Some es] = Some (Inl ''OBJ_MAP: Argument must be a list with even length'')) \<and>
    FuncOBJ_MAP und [None] = Some (Inl ''OBJ_MAP: Argument must be a list with even length'') \<and>
    FuncOBJ_MAP und (l # l' # ls) = Some (Inl ''OBJ_MAP: Too many arguments'') \<and>
    (\<exists>t. FuncADD_OBJ_SET und (ObjSet True s) obj = Some (Inr (ObjSet True t)) \<and> set_repr und t (insert obj S)) \<and>
    (\<exists>t. FuncREMOVE_OBJ_SET und (ObjSet True s) obj = Some (Inr (ObjSet True t)) \<and> set_repr und t (S - {obj})) \<and>
    FuncFIND_OBJ_SET (ObjSet b s) obj = Some (Inr (obj \<in> S)) \<and>
    (\<exists>t. FuncCLEAR_OBJ_SET (ObjSet True s) = Some (Inr (ObjSet True t)) \<and> set_repr und t {}) \<and>
    (\<exists>vs. FuncOBJ_SET_VALUES und (ObjSet b s) = Some (Inr vs) \<and> distinct vs \<and> set vs = S) \<and>
    (\<exists>t. FuncADD_OBJ_MAP und (ObjMap True u) obj val = Some (Inr (ObjMap True t)) \<and> map_repr und t (m(obj \<mapsto> val))) \<and>
    (\<exists>t. FuncREMOVE_OBJ_MAP und (ObjMap True u) obj = Some (Inr (ObjMap True t)) \<and> map_repr und t (m(obj := None))) \<and>
    FuncFIND_OBJ_MAP (ObjMap b u) obj def = Some (Inr (case m obj of None \<Rightarrow> def | Some v \<Rightarrow> v)) \<and>
    FuncCONTAINS_OBJ_MAP (ObjMap b u) obj = Some (Inr (obj \<in> dom m)) \<and>
    (\<exists>t. FuncCLEAR_OBJ_MAP (ObjMap True u) = Some (Inr (ObjMap True t)) \<and> map_repr und t Map.empty) \<and>
    (\<exists>ks vs. FuncOBJ_MAP_KEYS und (ObjMap b u) = Some (Inr ks) \<and> FuncOBJ_MAP_VALUES und (ObjMap b u) = Some (Inr vs) \<and>
      distinct ks \<and> set ks = dom m \<and> map Some vs = map m ks) \<and>
    (FuncADD_OBJ_SET und tab obj = Some (Inl ''must be a mutable object set'') \<longleftrightarrow> (\<nexists>t. tab = ObjSet True t)) \<and>
    (FuncREMOVE_OBJ_SET und tab obj = Some (Inl ''must be a mutable object set'') \<longleftrightarrow> (\<nexists>t. tab = ObjSet True t)) \<and>
    (FuncCLEAR_OBJ_SET tab = Some (Inl ''must be a mutable object set'') \<longleftrightarrow> (\<nexists>t. tab = ObjSet True t)) \<and>
    (FuncFIND_OBJ_SET tab obj = Some (Inl ''must be an object set'') \<longleftrightarrow> (\<nexists>b t. tab = ObjSet b t)) \<and>
    (FuncOBJ_SET_VALUES und tab = Some (Inl ''must be an object set'') \<longleftrightarrow> (\<nexists>b t. tab = ObjSet b t)) \<and>
    (FuncADD_OBJ_MAP und tab obj val = Some (Inl ''must be a mutable object map'') \<longleftrightarrow> (\<nexists>t. tab = ObjMap True t)) \<and>
    (FuncREMOVE_OBJ_MAP und tab obj = Some (Inl ''must be a mutable object map'') \<longleftrightarrow> (\<nexists>t. tab = ObjMap True t)) \<and>
    (FuncCLEAR_OBJ_MAP tab = Some (Inl ''must be a mutable object map'') \<longleftrightarrow> (\<nexists>t. tab = ObjMap True t)) \<and>
    (FuncFIND_OBJ_MAP tab obj val = Some (Inl ''must be an object map'') \<longleftrightarrow> (\<nexists>b t. tab = ObjMap b t)) \<and>
    (FuncCONTAINS_OBJ_MAP tab obj = Some (Inl ''must be an object map'') \<longleftrightarrow> (\<nexists>b t. tab = ObjMap b t)) \<and>
    (FuncOBJ_MAP_KEYS und tab = Some (Inl ''must be an object map'') \<longleftrightarrow> (\<nexists>b t. tab = ObjMap b t)) \<and>
    (FuncOBJ_MAP_VALUES und tab = Some (Inl ''must be an object map'') \<longleftrightarrow> (\<nexists>b t. tab = ObjMap b t))"
  unfolding pairs_def
  by (intro conjI impI set_handlers [OF assms(1,4,2,5)] map_handlers [OF assms(1,6,2,3,7)] handler_errors
      OBJ_SET_makes [OF assms(1,8,9)] OBJ_MAP_makes [OF assms(1,10,11)]) simp_all

theorem object_table_handlers_checked_witness:
  "(\<exists>t. FuncOBJ_SET 8 [Some [Some 5, Some 9]] = Some (Inr (ObjSet True t)) \<and> set_repr 8 t {5, 9}) \<and>
   FuncADD_OBJ_SET 8 (ObjSet False NewObjSet) 5 = Some (Inl ''must be a mutable object set'') \<and>
   FuncFIND_OBJ_MAP (ObjMap True NewObjMap) 5 17 = Some (Inr 17) \<and>
   (\<exists>t. FuncOBJ_MAP 8 [Some [Some 5, Some 9, Some 5, Some 13]] = Some (Inr (ObjMap True t)) \<and> map_repr 8 t [5 \<mapsto> 13])"
proof -
  have "map_of (rev [(5, 9), (5, 13)]) = [5 :: handle \<mapsto> 13 :: handle]"
    by (auto simp: fun_eq_iff)
  moreover have "live 8 5" "live 8 9" "live 8 13" by (simp_all add: live_def)
  moreover have "set_repr 8 NewObjSet {}" "map_repr 8 NewObjMap Map.empty"
    by (simp_all add: set_repr_new map_repr_new)
  ultimately show ?thesis
    using object_table_handlers_checked [of 8 5 5 NewObjSet "{}" NewObjMap Map.empty "[5, 9]" "[(5, 9), (5, 13)]"
        "[]" None None "[]" None True 17 "ObjSet False NewObjSet"]
    by simp
qed


subsection \<open>Saving and loading\<close>

text \<open>
  The indices of the bags are distinct and positive, the master pointers start at a multiple of 8 that is not the
  null handle, and the last one is an address.
\<close>

definition is_bag :: "handle \<Rightarrow> bool" where
  "is_bag h \<longleftrightarrow> \<not> IS_INTOBJ h \<and> \<not> IS_FFE h"

definition links_ok :: "(handle \<Rightarrow> UInt) \<Rightarrow> UInt \<Rightarrow> handle set \<Rightarrow> bool" where
  "links_ok LINK_BAG MptrBags S \<longleftrightarrow>
     MptrBags \<noteq> 0 \<and> MptrBags AND 7 = 0 \<and> inj_on LINK_BAG {h \<in> S. is_bag h} \<and>
     (\<forall>h \<in> S. is_bag h \<longrightarrow> LINK_BAG h \<noteq> 0 \<and> unat MptrBags + 8 * unat (LINK_BAG h) < 2 ^ 64)"

definition restored :: "(handle \<Rightarrow> UInt) \<Rightarrow> UInt \<Rightarrow> handle \<Rightarrow> handle" where
  "restored LINK_BAG MptrBags h = LoadSubObj MptrBags (SaveSubObj LINK_BAG h)"

lemma immediate_bits: "\<not> is_bag h \<longleftrightarrow> h AND 3 \<noteq> 0"
proof -
  have "h AND 3 = 0 \<longleftrightarrow> h AND 1 = 0 \<and> h AND 2 = 0"
  proof -
    have "(h AND 1) OR (h AND 2) = h AND 3"
      by (simp add: bit.conj_disj_distrib [symmetric])
    then show ?thesis by (metis or_eq_0_iff)
  qed
  then show ?thesis by (auto simp: is_bag_def IS_INTOBJ_def IS_FFE_def)
qed

lemma restored_immediate: "\<not> is_bag h \<Longrightarrow> restored LINK_BAG MptrBags h = h"
  using immediate_bits [of h] by (auto simp: restored_def SaveSubObj_def LoadSubObj_def is_bag_def)

lemma restored_bag:
  assumes "is_bag h" "h \<noteq> 0" "unat (LINK_BAG h) < 2 ^ 61" "LINK_BAG h \<noteq> 0"
  shows "restored LINK_BAG MptrBags h = MptrBags + 8 * LINK_BAG h - 8"
proof -
  let ?l = "LINK_BAG h"
  have push: "push_bit 2 ?l AND 3 = 0"
  proof -
    have "(3 :: UInt) = mask 2" by (simp add: mask_eq_exp_minus_1)
    then show ?thesis
      by (simp only: take_bit_eq_mask [symmetric] take_bit_push_bit) simp
  qed
  have drop: "drop_bit 2 (push_bit 2 ?l) = ?l"
  proof (rule iffD2 [OF word_unat_eq_iff])
    have "unat (push_bit 2 ?l) = 4 * unat ?l"
      using assms(3) by (simp add: push_bit_eq_mult unat_word_ariths)
    then show "unat (drop_bit 2 (push_bit 2 ?l)) = unat ?l"
      unfolding unat_drop_bit_eq by (simp add: drop_bit_eq_div)
  qed
  have "push_bit 2 ?l \<noteq> 0"
    using drop assms(4) by (metis drop_bit_of_0)
  then show ?thesis
    using assms(1,2) push drop
    by (simp add: restored_def SaveSubObj_def LoadSubObj_def is_bag_def RESTORE_BAG_CONTENT_POINTER_def)
qed

lemma unat_restored_bag:
  assumes "links_ok LINK_BAG MptrBags S" "h \<in> S" "is_bag h" "h \<noteq> 0"
  shows "unat (restored LINK_BAG MptrBags h) = unat MptrBags + 8 * unat (LINK_BAG h) - 8"
    "restored LINK_BAG MptrBags h AND 3 = 0" "restored LINK_BAG MptrBags h \<noteq> 0"
proof -
  let ?l = "LINK_BAG h" and ?r = "restored LINK_BAG MptrBags h"
  have l: "?l \<noteq> 0" "unat MptrBags + 8 * unat ?l < 2 ^ 64" and M: "MptrBags \<noteq> 0" "MptrBags AND 7 = 0"
    using assms(1-3) by (auto simp: links_ok_def)
  have pos: "1 \<le> unat ?l"
    using l(1) by (simp add: unat_gt_0 Suc_le_eq)
  have r: "?r = MptrBags + 8 * ?l - 8"
    by (rule restored_bag) (use assms(3,4) l in simp_all)
  have e: "unat (8 * ?l) = 8 * unat ?l"
    using l(2) by (simp add: unat_word_ariths)
  have s: "unat (MptrBags + 8 * ?l) = unat MptrBags + 8 * unat ?l"
    using l(2) e by (simp add: unat_word_ariths)
  have "(8 :: UInt) \<le> MptrBags + 8 * ?l"
    using pos s by (simp add: word_le_nat_alt)
  then show val: "unat ?r = unat MptrBags + 8 * unat ?l - 8"
    using s unfolding r by (simp add: unat_sub)
  have low: "w AND 7 = 0 \<longleftrightarrow> unat w mod 8 = 0" for w :: UInt
  proof -
    have "(7 :: UInt) = mask 3" by (simp add: mask_eq_exp_minus_1)
    then have "w AND 7 = take_bit 3 w" by (simp only: take_bit_eq_mask)
    then show ?thesis
      by (simp add: unat_eq_0 [symmetric] take_bit_eq_mod unat_mod)
  qed
  have "unat ?r mod 8 = 0"
    using M(2) pos unfolding val low by presburger
  then have "?r AND 7 = 0" using low by simp
  moreover have "?r AND 3 = (?r AND 7) AND 3"
    by (simp add: and.assoc)
  ultimately show "?r AND 3 = 0" by simp
  show "?r \<noteq> 0"
    using val pos M(1) by (auto simp: unat_eq_0 [symmetric])
qed

lemma restored_inj:
  assumes "links_ok LINK_BAG MptrBags S" "0 \<notin> S"
  shows "inj_on (restored LINK_BAG MptrBags) S" "h \<in> S \<Longrightarrow> restored LINK_BAG MptrBags h \<noteq> 0"
proof -
  let ?r = "restored LINK_BAG MptrBags"
  have nz: "x \<in> S \<Longrightarrow> x \<noteq> 0" for x using assms(2) by blast
  note bag = unat_restored_bag [OF assms(1) _ _ nz]
  show "h \<in> S \<Longrightarrow> ?r h \<noteq> 0"
    using bag(3) nz by (cases "is_bag h") (auto simp: restored_immediate)
  show "inj_on ?r S"
  proof (rule inj_onI)
    fix x y assume xy: "x \<in> S" "y \<in> S" "?r x = ?r y"
    have mixed: False if "is_bag a" "\<not> is_bag b" "a \<in> S" "b \<in> S" "?r a = ?r b" for a b
      using that bag(2) immediate_bits [of b] by (auto simp: restored_immediate)
    show "x = y"
    proof (cases "is_bag x \<and> is_bag y")
      case True
      then have "unat (?r x) = unat MptrBags + 8 * unat (LINK_BAG x) - 8"
        "unat (?r y) = unat MptrBags + 8 * unat (LINK_BAG y) - 8"
        using bag(1) [OF xy(1) _ xy(1)] bag(1) [OF xy(2) _ xy(2)] by simp_all
      moreover have "LINK_BAG x \<noteq> 0" "LINK_BAG y \<noteq> 0"
        using True xy assms(1) by (auto simp: links_ok_def)
      then have "1 \<le> unat (LINK_BAG x)" "1 \<le> unat (LINK_BAG y)"
        by (simp_all add: unat_gt_0 Suc_le_eq)
      ultimately have "unat (LINK_BAG x) = unat (LINK_BAG y)"
        using xy(3) by simp
      then have "LINK_BAG x = LINK_BAG y" by (rule iffD2 [OF word_unat_eq_iff])
      then show ?thesis
        using True xy assms(1) by (auto simp: links_ok_def inj_on_def)
    next
      case False
      then show ?thesis
        using mixed xy by (metis restored_immediate)
    qed
  qed
qed

lemma load_set_loop_stores:
  assumes "und \<noteq> 0"
  shows "set_ok und tab \<Longrightarrow> distinct hs \<Longrightarrow> \<forall>h \<in> set hs. live und h \<Longrightarrow> members und tab \<inter> set hs = {} \<Longrightarrow>
    OBJSET_USED tab + length hs \<le> OBJSET_SIZE tab \<Longrightarrow> hs = map (LoadSubObj MptrBags) ws \<Longrightarrow>
    \<exists>tab'. load_set_loop MptrBags und (length ws) ws tab = Some tab' \<and> set_ok und tab' \<and>
      members und tab' = members und tab \<union> set hs \<and> OBJSET_SIZE tab' = OBJSET_SIZE tab \<and>
      OBJSET_DIRTY tab' \<le> OBJSET_DIRTY tab"
proof (induction ws arbitrary: hs tab)
  case Nil
  then show ?case by simp
next
  case (Cons w ws)
  then obtain h hs' where hs: "hs = h # hs'" "h = LoadSubObj MptrBags w" "hs' = map (LoadSubObj MptrBags) ws"
    by auto
  obtain t where t: "AddObjSetNew und tab h = Some t" "set_ok und t" "members und t = insert h (members und tab)"
    "OBJSET_SIZE t = OBJSET_SIZE tab" "OBJSET_USED t = OBJSET_USED tab + 1" "OBJSET_DIRTY t \<le> OBJSET_DIRTY tab"
    by (rule AddObjSetNew_stores [OF Cons.prems(1) assms, of h]) (use Cons.prems hs(1) in auto)
  have "\<exists>tab'. load_set_loop MptrBags und (length ws) ws t = Some tab' \<and> set_ok und tab' \<and>
      members und tab' = members und t \<union> set hs' \<and> OBJSET_SIZE tab' = OBJSET_SIZE t \<and>
      OBJSET_DIRTY tab' \<le> OBJSET_DIRTY t"
    by (rule Cons.IH [OF t(2)]) (use Cons.prems hs t in auto)
  then show ?case
    using t hs by auto
qed

text \<open>C25: A set that is saved and loaded into another workspace, where its bags have other handles and the object
  \<open>Undefined\<close> as well, holds exactly the restored objects; the table is hashed anew, so every later search in it
  finds them.\<close>

theorem object_set_save_load:
  assumes "set_repr und tab S" "links_ok LINK_BAG MptrBags S" "und' \<noteq> 0" "und' \<notin> restored LINK_BAG MptrBags ` S"
  shows "\<exists>tab'. LoadObjSet MptrBags und' (SaveObjSet LINK_BAG und tab) (replicate (OBJSET_SIZE tab) 0) = Some tab' \<and>
    set_repr und' tab' (restored LINK_BAG MptrBags ` S)"
proof -
  let ?r = "restored LINK_BAG MptrBags" and ?live = "filter (live und) (slots tab)" and ?n = "OBJSET_SIZE tab"
  have ok: "set_ok und tab" and load: "load_ok tab" and S: "S = members und tab"
    using assms(1) by (auto simp: set_repr_def)
  have bits: "?n = 2 ^ OBJSET_BITS tab" "OBJSET_BITS tab \<le> 30" "?n = length (slots tab)"
    using ok by (auto simp: set_ok_def table_ok_def)
  have big: "?n < 2 ^ 64" "OBJSET_BITS tab < 2 ^ 64"
    using power_strict_increasing [of "OBJSET_BITS tab" 64 "2 :: nat"] bits(1,2) by simp_all
  have used: "OBJSET_USED tab = length ?live"
    using ok by (simp add: set_ok_def table_ok_def length_filter_conv_card)
  have set_live: "set ?live = S" and dist: "distinct ?live"
    using ObjSetValues_lists [OF ok] ObjSetValues_filter [OF ok] S by simp_all
  have "0 \<notin> S"
    using S by (auto simp: members_def live_def)
  note inj = restored_inj [OF assms(2) this]
  have read: "map (READ_SLOT tab) [0 ..< ?n] = slots tab"
    using bits(3) by (auto simp: READ_SLOT_def intro: nth_equalityI)
  have save: "SaveObjSet LINK_BAG und tab =
    [of_nat ?n, of_nat (OBJSET_BITS tab), of_nat (length ?live)] @ map (SaveSubObj LINK_BAG) ?live"
    by (simp add: SaveObjSet_def read used live_def [abs_def])
  let ?new = "\<lparr>OBJSET_SIZE = ?n, OBJSET_BITS = OBJSET_BITS tab, OBJSET_USED = 0, OBJSET_DIRTY = 0, slots = replicate ?n 0\<rparr>"
  have new: "set_ok und' ?new" "members und' ?new = {}"
    using set_ok_empty [OF assms(3) bits(2)] bits(1) by (auto simp: members_def live_def)
  have "\<exists>tab'. load_set_loop MptrBags und' (length (map (SaveSubObj LINK_BAG) ?live)) (map (SaveSubObj LINK_BAG) ?live) ?new =
      Some tab' \<and> set_ok und' tab' \<and> members und' tab' = members und' ?new \<union> set (map ?r ?live) \<and>
      OBJSET_SIZE tab' = OBJSET_SIZE ?new \<and> OBJSET_DIRTY tab' \<le> OBJSET_DIRTY ?new"
  proof (rule load_set_loop_stores [OF assms(3) new(1)])
    show "distinct (map ?r ?live)"
      using dist inj(1) set_live by (simp only: distinct_map)
    show "\<forall>h \<in> set (map ?r ?live). live und' h"
      using inj(2) assms(4) unfolding set_map set_live by (auto simp: live_def)
    show "OBJSET_USED ?new + length (map ?r ?live) \<le> OBJSET_SIZE ?new"
      using bits(3) by simp
  qed (use new(2) in \<open>auto simp: restored_def\<close>)
  then obtain tab' where tab': "load_set_loop MptrBags und' (length ?live) (map (SaveSubObj LINK_BAG) ?live) ?new = Some tab'"
    "set_ok und' tab'" "members und' tab' = ?r ` S" "OBJSET_SIZE tab' = ?n" "OBJSET_DIRTY tab' = 0"
    using new(2) set_live by auto
  have "OBJSET_USED tab' = OBJSET_USED tab"
    using members_card [OF tab'(2)] members_card [OF ok] tab'(3) S card_image [OF inj(1)] by simp
  then have "load_ok tab'"
    using load tab'(4,5) by (simp add: load_ok_def)
  moreover have "length ?live < 2 ^ 64"
    using big(1) bits(3) length_filter_le [of "live und" "slots tab"] by linarith
  then have "LoadObjSet MptrBags und' (SaveObjSet LINK_BAG und tab) (replicate ?n 0) = Some tab'"
    using tab'(1) big unfolding save LoadObjSet_def by (simp add: unsigned_of_nat take_bit_nat_eq_self)
  ultimately show ?thesis
    using tab' by (simp add: set_repr_def)
qed

theorem object_set_save_load_witness:
  "\<exists>tab. set_repr 8 tab {16, 5} \<and>
    (\<exists>tab'. LoadObjSet 32 24 (SaveObjSet (\<lambda>_. 2) 8 tab) (replicate (OBJSET_SIZE tab) 0) = Some tab' \<and>
      set_repr 24 tab' {40, 5})"
proof -
  obtain t where t: "set_repr 8 t {5}"
    using set_repr_add [OF set_repr_new, of 8 5] by (auto simp: live_def)
  obtain u where u: "set_repr 8 u {16, 5}"
    using set_repr_add [OF t, of 16] by (auto simp: live_def)
  have "is_bag 16" "\<not> is_bag 5"
    by (simp_all add: is_bag_def IS_INTOBJ_def IS_FFE_def)
  then have "{h \<in> {16, 5}. is_bag h} = {16}"
    by auto
  then have links: "links_ok (\<lambda>_. 2) 32 {16, 5}"
    unfolding links_ok_def by simp
  have r: "restored (\<lambda>_. 2) 32 16 = 40" "restored (\<lambda>_. 2) 32 5 = 5"
    by (simp_all add: restored_def SaveSubObj_def LoadSubObj_def IS_INTOBJ_def IS_FFE_def
        RESTORE_BAG_CONTENT_POINTER_def)
  have "restored (\<lambda>_. 2) 32 ` {16, 5} = {40, 5}"
    by (simp add: r)
  then have "\<exists>tab'. LoadObjSet 32 24 (SaveObjSet (\<lambda>_. 2) 8 u) (replicate (OBJSET_SIZE u) 0) = Some tab' \<and>
      set_repr 24 tab' {40, 5}"
    using object_set_save_load [OF u links, of 24] by simp
  then show ?thesis
    using u by blast
qed



subsection \<open>The thread-safe copy\<close>

text \<open>
  The copy of a set keeps every entry in the slot of the hash of the original entry. When an entry has a copy with
  another hash, the copied set holds it, but no search in it finds it.
\<close>

lemma copy_of_set_loses_members:
  "map_option (\<lambda>tab. let copy = CopyObjSet (\<lambda>h. if h = 16 then 40 else h) tab in
     (slots copy, FindObjSet copy 40)) (AddObjSet 8 NewObjSet 16) = Some ([0, 0, 0, 40], Some (- 1))"
  by code_simp

end
