(* ===== verification/Sha256.thy ===== *)
theory Sha256
  imports Integer
begin

text \<open>
  The SHA-256 hash and the keyed hash of \<open>src/src/sha256.c\<close>. A state is the hash registers, the number of bits
  hashed and a buffer of one block; the machine is little endian, as \<open>store64be\<close> of this build assumes. The arrays
  \<open>w\<close> and \<open>r\<close> of the callers are scratch space that \<open>sha256_transform\<close> fills before it reads them, so they are
  local here. A string is its list of bytes.
\<close>

subsection \<open>Word functions and tables\<close>

definition RotateRight :: "UInt4 \<Rightarrow> nat \<Rightarrow> UInt4" where
  "RotateRight x n = drop_bit n x OR push_bit (32 - n) x"

definition Ch :: "UInt4 \<Rightarrow> UInt4 \<Rightarrow> UInt4 \<Rightarrow> UInt4" where
  "Ch x y z = (x AND y) XOR (NOT x AND z)"

definition Maj :: "UInt4 \<Rightarrow> UInt4 \<Rightarrow> UInt4 \<Rightarrow> UInt4" where
  "Maj x y z = (x AND y) XOR (x AND z) XOR (y AND z)"

definition Sigma0 :: "UInt4 \<Rightarrow> UInt4" where
  "Sigma0 x = RotateRight x 2 XOR RotateRight x 13 XOR RotateRight x 22"

definition Sigma1 :: "UInt4 \<Rightarrow> UInt4" where
  "Sigma1 x = RotateRight x 6 XOR RotateRight x 11 XOR RotateRight x 25"

definition sigma0 :: "UInt4 \<Rightarrow> UInt4" where
  "sigma0 x = RotateRight x 7 XOR RotateRight x 18 XOR drop_bit 3 x"

definition sigma1 :: "UInt4 \<Rightarrow> UInt4" where
  "sigma1 x = RotateRight x 17 XOR RotateRight x 19 XOR drop_bit 10 x"

text \<open>The round constants, each as its upper and its lower half.\<close>

definition sha_k :: "UInt4 list" where
  "sha_k = map (\<lambda>(hi, lo). push_bit 16 hi OR lo)
     [(0x428a, 0x2f98), (0x7137, 0x4491), (0xb5c0, 0xfbcf), (0xe9b5, 0xdba5),
      (0x3956, 0xc25b), (0x59f1, 0x11f1), (0x923f, 0x82a4), (0xab1c, 0x5ed5),
      (0xd807, 0xaa98), (0x1283, 0x5b01), (0x2431, 0x85be), (0x550c, 0x7dc3),
      (0x72be, 0x5d74), (0x80de, 0xb1fe), (0x9bdc, 0x06a7), (0xc19b, 0xf174),
      (0xe49b, 0x69c1), (0xefbe, 0x4786), (0x0fc1, 0x9dc6), (0x240c, 0xa1cc),
      (0x2de9, 0x2c6f), (0x4a74, 0x84aa), (0x5cb0, 0xa9dc), (0x76f9, 0x88da),
      (0x983e, 0x5152), (0xa831, 0xc66d), (0xb003, 0x27c8), (0xbf59, 0x7fc7),
      (0xc6e0, 0x0bf3), (0xd5a7, 0x9147), (0x06ca, 0x6351), (0x1429, 0x2967),
      (0x27b7, 0x0a85), (0x2e1b, 0x2138), (0x4d2c, 0x6dfc), (0x5338, 0x0d13),
      (0x650a, 0x7354), (0x766a, 0x0abb), (0x81c2, 0xc92e), (0x9272, 0x2c85),
      (0xa2bf, 0xe8a1), (0xa81a, 0x664b), (0xc24b, 0x8b70), (0xc76c, 0x51a3),
      (0xd192, 0xe819), (0xd699, 0x0624), (0xf40e, 0x3585), (0x106a, 0xa070),
      (0x19a4, 0xc116), (0x1e37, 0x6c08), (0x2748, 0x774c), (0x34b0, 0xbcb5),
      (0x391c, 0x0cb3), (0x4ed8, 0xaa4a), (0x5b9c, 0xca4f), (0x682e, 0x6ff3),
      (0x748f, 0x82ee), (0x78a5, 0x636f), (0x84c8, 0x7814), (0x8cc7, 0x0208),
      (0x90be, 0xfffa), (0xa450, 0x6ceb), (0xbef9, 0xa3f7), (0xc671, 0x78f2)]"

definition rinit :: "UInt4 list" where
  "rinit = [0x6a09e667, 0xbb67ae85, 0x3c6ef372, 0xa54ff53a, 0x510e527f, 0x9b05688c, 0x1f83d9ab, 0x5be0cd19]"

subsection \<open>Bytes and words\<close>

definition be32decode :: "UInt4 list \<Rightarrow> UInt1 list \<Rightarrow> nat \<Rightarrow> UInt4 list" where
  "be32decode dst src len =
     foldl (\<lambda>dst i. dst[i := push_bit 24 (ucast (src ! (i * 4))) OR push_bit 16 (ucast (src ! (i * 4 + 1))) OR
         push_bit 8 (ucast (src ! (i * 4 + 2))) OR ucast (src ! (i * 4 + 3))])
       dst [0 ..< len div 4]"

definition be32encode :: "UInt1 list \<Rightarrow> UInt4 list \<Rightarrow> nat \<Rightarrow> UInt1 list" where
  "be32encode dst src len =
     foldl (\<lambda>dst i. dst
         [4 * i + 0 := ucast (drop_bit 24 (src ! i AND 0xff000000)),
          4 * i + 1 := ucast (drop_bit 16 (src ! i AND 0xff0000)),
          4 * i + 2 := ucast (drop_bit 8 (src ! i AND 0xff00)),
          4 * i + 3 := ucast (src ! i AND 0xff)])
       dst [0 ..< len div 4]"

text \<open>The word that \<open>store64be\<close> stores, and the bytes a little-endian machine stores for a word.\<close>

definition store64be :: "UInt \<Rightarrow> UInt" where
  "store64be x =
     drop_bit 56 x OR (drop_bit 40 x AND 0xff00) OR (drop_bit 24 x AND 0xff0000) OR
     (drop_bit 8 x AND 0xff000000) OR (push_bit 8 x AND push_bit 32 0xff) OR
     (push_bit 24 x AND push_bit 40 0xff) OR
     (push_bit 40 x AND push_bit 48 0xff) OR push_bit 56 x"

definition store_word :: "UInt1 list \<Rightarrow> nat \<Rightarrow> UInt \<Rightarrow> UInt1 list" where
  "store_word dst off w = foldl (\<lambda>dst j. dst[off + j := ucast (drop_bit (8 * j) w)]) dst [0 ..< 8]"

definition copy_bytes :: "UInt1 list \<Rightarrow> nat \<Rightarrow> UInt1 list \<Rightarrow> nat \<Rightarrow> UInt1 list" where
  "copy_bytes dst off src n = foldl (\<lambda>dst i. dst[off + i := src ! i]) dst [0 ..< n]"

definition zero_bytes :: "UInt1 list \<Rightarrow> nat \<Rightarrow> nat \<Rightarrow> nat \<Rightarrow> UInt1 list" where
  "zero_bytes dst off from to = foldl (\<lambda>dst i. dst[off + i := 0]) dst [from ..< to]"

subsection \<open>The hash\<close>

record sha256_state =
  st_r :: "UInt4 list"
  st_count :: UInt
  st_buf :: "UInt1 list"

definition sha256_init :: sha256_state where
  "sha256_init = \<lparr>st_r = rinit, st_count = 0, st_buf = replicate 64 0\<rparr>"

definition schedule :: "UInt1 list \<Rightarrow> UInt4 list" where
  "schedule block =
     foldl (\<lambda>w i. w[i := sigma1 (w ! (i - 2)) + w ! (i - 7) + sigma0 (w ! (i - 15)) + w ! (i - 16)])
       (be32decode (replicate 64 0) block 64) [16 ..< 64]"

definition sha256_round :: "UInt4 list \<Rightarrow> UInt4 list \<Rightarrow> nat \<Rightarrow> UInt4 list" where
  "sha256_round w r i =
     (let temp1 = r ! 7 + Sigma1 (r ! 4) + Ch (r ! 4) (r ! 5) (r ! 6) + sha_k ! i + w ! i;
          temp2 = Sigma0 (r ! 0) + Maj (r ! 0) (r ! 1) (r ! 2);
          r = r[7 := r ! 6];
          r = r[6 := r ! 5];
          r = r[5 := r ! 4];
          r = r[4 := r ! 3 + temp1];
          r = r[3 := r ! 2];
          r = r[2 := r ! 1];
          r = r[1 := r ! 0];
          r = r[0 := temp1 + temp2] in r)"

definition sha256_transform :: "UInt4 list \<Rightarrow> UInt1 list \<Rightarrow> UInt4 list" where
  "sha256_transform state block =
     (let r = foldl (sha256_round (schedule block)) state [0 ..< 64] in
      foldl (\<lambda>state i. state[i := state ! i + r ! i]) state [0 ..< 8])"

text \<open>The loop over the full blocks returns the registers and what is left of the input.\<close>

function full_blocks :: "UInt4 list \<Rightarrow> UInt1 list \<Rightarrow> UInt4 list \<times> UInt1 list" where
  "full_blocks r buf =
     (if length buf \<ge> 64 then full_blocks (sha256_transform r buf) (drop 64 buf) else (r, buf))"
  by pat_completeness auto
termination
  by (relation "measure (\<lambda>(r, buf). length buf)") auto

declare full_blocks.simps [simp del]

definition sha256_update :: "sha256_state \<Rightarrow> UInt1 list \<Rightarrow> sha256_state" where
  "sha256_update state buf =
     (let len = length buf;
          rem = unat (drop_bit 3 (st_count state) AND 0x3f);
          state = state\<lparr>st_count := st_count state + push_bit 3 (of_nat len)\<rparr> in
      if len < 64 - rem then state\<lparr>st_buf := copy_bytes (st_buf state) rem buf len\<rparr>
      else
        let state = state\<lparr>st_buf := copy_bytes (st_buf state) rem buf (64 - rem)\<rparr>;
            state = state\<lparr>st_r := sha256_transform (st_r state) (st_buf state)\<rparr>;
            (r, rest) = full_blocks (st_r state) (drop (64 - rem) buf) in
        state\<lparr>st_r := r, st_buf := copy_bytes (st_buf state) 0 rest (length rest)\<rparr>)"

definition sha256_final :: "sha256_state \<Rightarrow> sha256_state" where
  "sha256_final state =
     (let rem = unat (drop_bit 3 (st_count state) AND 0x3f);
          state = state\<lparr>st_buf := (st_buf state)[rem := 0x80]\<rparr>;
          state =
            (if rem < 56 then state\<lparr>st_buf := zero_bytes (st_buf state) rem 1 (56 - rem)\<rparr>
             else
               let state = state\<lparr>st_buf := zero_bytes (st_buf state) rem 1 (64 - rem)\<rparr>;
                   state = state\<lparr>st_r := sha256_transform (st_r state) (st_buf state)\<rparr> in
               state\<lparr>st_buf := zero_bytes (st_buf state) 0 0 56\<rparr>);
          state = state\<lparr>st_buf := store_word (st_buf state) 56 (store64be (st_count state))\<rparr> in
      state\<lparr>st_r := sha256_transform (st_r state) (st_buf state)\<rparr>)"

subsection \<open>The functions of the GAP level\<close>

text \<open>An argument is a state object, a string or any other object.\<close>

datatype sha_arg = StateObj sha256_state | StringRep "UInt1 list" | OtherArg

definition sha_digest_list :: "sha256_state \<Rightarrow> gapint list" where
  "sha_digest_list state = map (\<lambda>i. ObjInt_UInt (ucast (st_r state ! i))) [0 ..< 8]"

definition FuncGAP_SHA256_INIT :: sha_arg where
  "FuncGAP_SHA256_INIT = StateObj sha256_init"

definition FuncGAP_SHA256_UPDATE :: "sha_arg \<Rightarrow> sha_arg \<Rightarrow> sha_arg result" where
  "FuncGAP_SHA256_UPDATE state bytes =
     (case state of
        StateObj st \<Rightarrow> (case bytes of StringRep b \<Rightarrow> Inr (StateObj (sha256_update st b)) | _ \<Rightarrow> Inl ''must be a string'')
      | _ \<Rightarrow> Inl ''must be a SHA256 state'')"

text \<open>The result list and the state object after the call.\<close>

definition FuncGAP_SHA256_FINAL :: "sha_arg \<Rightarrow> (gapint list \<times> sha_arg) result" where
  "FuncGAP_SHA256_FINAL state =
     (case state of
        StateObj st \<Rightarrow> (let st = sha256_final st in Inr (sha_digest_list st, StateObj st))
      | _ \<Rightarrow> Inl ''must be a SHA256 state'')"

definition xor_bytes :: "UInt1 list \<Rightarrow> UInt1 list \<Rightarrow> nat \<Rightarrow> UInt1 list" where
  "xor_bytes pad key klen = foldl (\<lambda>pad i. pad[i := pad ! i XOR key ! i]) pad [0 ..< klen]"

definition FuncGAP_SHA256_HMAC :: "sha_arg \<Rightarrow> sha_arg \<Rightarrow> gapint list result" where
  "FuncGAP_SHA256_HMAC key txt =
     (case (key, txt) of
        (StringRep kb, StringRep tb) \<Rightarrow>
          let k_ipad = replicate 64 0x36; k_opad = replicate 64 0x5c;
              (k_ipad, k_opad) =
                (if length kb > 64 then
                   let st = sha256_final (sha256_update sha256_init kb);
                       digest = be32encode (replicate 32 0) (st_r st) 32 in
                   (xor_bytes k_ipad digest 32, xor_bytes k_opad digest 32)
                 else (xor_bytes k_ipad kb (length kb), xor_bytes k_opad kb (length kb)));
              st = sha256_final (sha256_update (sha256_update sha256_init k_ipad) tb);
              digest = be32encode (replicate 32 0) (st_r st) 32;
              st = sha256_final (sha256_update (sha256_update sha256_init k_opad) digest) in
          Inr (sha_digest_list st)
      | _ \<Rightarrow> Inl ''must be a string'')"

end
