(* ===== verification/Sha256Standard.thy ===== *)
theory Sha256Standard
  imports GapPrelude
begin

text \<open>
  The hash function SHA-256 of the Secure Hash Standard (FIPS 180-4) and the keyed hash HMAC (FIPS 198-1) over it,
  written from the standards and independently of \<open>src/src/sha256.c\<close>: no theory of the program is imported. The
  constants are what the standard says they are, the first 32 bits of the fractional parts of the square roots
  of the first eight primes and of the cube roots of the first sixty-four primes; the lemmas of the second section
  give their values.
\<close>

subsection \<open>Constants and functions\<close>

text \<open>The primes by trial division.\<close>

definition primes_upto :: "int \<Rightarrow> int list" where
  "primes_upto n =
     foldl (\<lambda>ps p. if list_all (\<lambda>q. p mod q \<noteq> 0) (takeWhile (\<lambda>q. q * q \<le> p) ps) then ps @ [p] else ps) [] [2 .. n]"

definition first_bits :: "real \<Rightarrow> UInt4" where
  "first_bits x = word_of_int \<lfloor>2 ^ 32 * frac x\<rfloor>"

text \<open>The sixty-fourth prime is 311.\<close>

definition fips_H :: "UInt4 list" where
  "fips_H = map (\<lambda>p. first_bits (root 2 (of_int p))) (take 8 (primes_upto 311))"

definition fips_K :: "UInt4 list" where
  "fips_K = map (\<lambda>p. first_bits (root 3 (of_int p))) (primes_upto 311)"

definition fips_Ch :: "UInt4 \<Rightarrow> UInt4 \<Rightarrow> UInt4 \<Rightarrow> UInt4" where
  "fips_Ch x y z = (x AND y) XOR (NOT x AND z)"

definition fips_Maj :: "UInt4 \<Rightarrow> UInt4 \<Rightarrow> UInt4 \<Rightarrow> UInt4" where
  "fips_Maj x y z = (x AND y) XOR (x AND z) XOR (y AND z)"

definition fips_Sigma0 :: "UInt4 \<Rightarrow> UInt4" where
  "fips_Sigma0 x = word_rotr 2 x XOR word_rotr 13 x XOR word_rotr 22 x"

definition fips_Sigma1 :: "UInt4 \<Rightarrow> UInt4" where
  "fips_Sigma1 x = word_rotr 6 x XOR word_rotr 11 x XOR word_rotr 25 x"

definition fips_sigma0 :: "UInt4 \<Rightarrow> UInt4" where
  "fips_sigma0 x = word_rotr 7 x XOR word_rotr 18 x XOR drop_bit 3 x"

definition fips_sigma1 :: "UInt4 \<Rightarrow> UInt4" where
  "fips_sigma1 x = word_rotr 17 x XOR word_rotr 19 x XOR drop_bit 10 x"

subsection \<open>The values of the constants\<close>

lemma first_bits_floor:
  assumes "0 \<le> m" "0 < k" "of_int m ^ k \<le> x * (2 ^ 32) ^ k" "x * (2 ^ 32) ^ k < (of_int m + 1) ^ k" "0 \<le> x"
  shows "first_bits (root k x) = word_of_int m"
proof -
  have r: "root k (x * (2 ^ 32) ^ k) = 2 ^ 32 * root k x"
    using assms(2) by (simp add: real_root_mult real_root_power_cancel)
  have "root k (of_int m ^ k) \<le> root k (x * (2 ^ 32) ^ k)" "root k (x * (2 ^ 32) ^ k) < root k ((of_int m + 1) ^ k)"
    using assms(2-4) by simp_all
  then have "of_int m \<le> 2 ^ 32 * root k x" "2 ^ 32 * root k x < of_int m + 1"
    unfolding r using assms(1,2) by (simp_all add: real_root_power_cancel)
  then have "\<lfloor>2 ^ 32 * root k x\<rfloor> = m" by (rule floor_unique)
  moreover have "2 ^ 32 * frac (root k x) = 2 ^ 32 * root k x - of_int (2 ^ 32 * \<lfloor>root k x\<rfloor>)"
    by (simp add: frac_def right_diff_distrib)
  ultimately have "\<lfloor>2 ^ 32 * frac (root k x)\<rfloor> = m - 2 ^ 32 * \<lfloor>root k x\<rfloor>"
    by (simp only: floor_diff_of_int)
  moreover have "word_of_int (2 ^ 32 * c) = (0 :: UInt4)" for c
    by (rule word_of_int_eq_0_iff [THEN iffD2]) simp
  ultimately show ?thesis by (simp add: first_bits_def)
qed

definition root_bounds :: "nat \<Rightarrow> int list \<Rightarrow> int list \<Rightarrow> bool" where
  "root_bounds k = list_all2 (\<lambda>p m. 0 \<le> p \<and> 0 \<le> m \<and> m ^ k \<le> p * (2 ^ 32) ^ k \<and> p * (2 ^ 32) ^ k < (m + 1) ^ k)"

lemma first_bits_list:
  assumes "root_bounds k ps ms" "0 < k"
  shows "map (\<lambda>p. first_bits (root k (of_int p))) ps = map word_of_int ms"
  using assms(1) unfolding root_bounds_def
proof (induction rule: list_all2_induct)
  case (Cons p ps m ms)
  have "(of_int (m ^ k) :: real) \<le> of_int (p * (2 ^ 32) ^ k)" "(of_int (p * (2 ^ 32) ^ k) :: real) < of_int ((m + 1) ^ k)"
    using Cons.hyps(1) by (simp_all only: of_int_le_iff of_int_less_iff)
  then have "of_int m ^ k \<le> of_int p * (2 ^ 32 :: real) ^ k" "of_int p * (2 ^ 32 :: real) ^ k < (of_int m + 1) ^ k"
    by (simp_all only: of_int_power of_int_mult of_int_numeral of_int_add of_int_1)
  then have "first_bits (root k (of_int p)) = word_of_int m"
    using Cons.hyps(1) assms(2) by (intro first_bits_floor) auto
  then show ?case using Cons.IH by simp
qed simp

lemma primes_list:
  "primes_upto 311 =
  [2, 3, 5, 7, 11, 13, 17, 19, 23, 29, 31, 37, 41, 43, 47, 53, 59, 61, 67, 71, 73, 79, 83, 89, 97, 101, 103, 107,
   109, 113, 127, 131, 137, 139, 149, 151, 157, 163, 167, 173, 179, 181, 191, 193, 197, 199, 211, 223, 227, 229,
   233, 239, 241, 251, 257, 263, 269, 271, 277, 281, 283, 293, 307, 311]"
  by code_simp

lemma fips_H_values:
  "fips_H = map word_of_int
  [6074000999, 7439101573, 9603838834, 11363415354, 14244795007, 15485724812, 17708603819, 18721328409]"
proof -
  have "root_bounds 2 (take 8 (primes_upto 311))
  [6074000999, 7439101573, 9603838834, 11363415354, 14244795007, 15485724812, 17708603819, 18721328409]"
    unfolding primes_list by code_simp
  then show ?thesis unfolding fips_H_def by (rule first_bits_list) simp
qed

lemma fips_K_values:
  "fips_K = map word_of_int
  [5411319704, 6194414737, 7344290767, 8215976869, 9551921755, 10098905585, 11043570340, 11460697813, 12214315672,
   13195500289, 13492127166, 14311783875, 14809980276, 15046980094, 15499789991, 16133124468, 16720292289,
   16907126662, 17444216262, 17784676812, 17950125167, 18429019306, 18734950876, 19175934170, 19734090066,
   20001703533, 20132865992, 20390182855, 20516441075, 20764397895, 21588763473, 21813078375, 22141143685,
   22248366392, 22769593852, 22871018771, 23170020180, 23461497531, 23651862830, 23931792517, 24205322401,
   24295138891, 24734567280, 24820601251, 24990902297, 25075189284, 25569408389, 26045227120, 26200031510,
   26276752392, 26428864332, 26653801653, 26727943347, 27092625994, 27306805839, 27517677555, 27725365998,
   27793908591, 27997534228, 28131656200, 28198240250, 28526537963, 28973835255, 29099129074]"
proof -
  have "root_bounds 3 (primes_upto 311)
  [5411319704, 6194414737, 7344290767, 8215976869, 9551921755, 10098905585, 11043570340, 11460697813, 12214315672,
   13195500289, 13492127166, 14311783875, 14809980276, 15046980094, 15499789991, 16133124468, 16720292289,
   16907126662, 17444216262, 17784676812, 17950125167, 18429019306, 18734950876, 19175934170, 19734090066,
   20001703533, 20132865992, 20390182855, 20516441075, 20764397895, 21588763473, 21813078375, 22141143685,
   22248366392, 22769593852, 22871018771, 23170020180, 23461497531, 23651862830, 23931792517, 24205322401,
   24295138891, 24734567280, 24820601251, 24990902297, 25075189284, 25569408389, 26045227120, 26200031510,
   26276752392, 26428864332, 26653801653, 26727943347, 27092625994, 27306805839, 27517677555, 27725365998,
   27793908591, 27997534228, 28131656200, 28198240250, 28526537963, 28973835255, 29099129074]"
    unfolding primes_list by code_simp
  then show ?thesis unfolding fips_K_def by (rule first_bits_list) simp
qed

subsection \<open>The message schedule and the compression function\<close>

definition be_word :: "UInt1 list \<Rightarrow> UInt4" where
  "be_word bs = ucast (bs ! 0) * 2 ^ 24 + ucast (bs ! 1) * 2 ^ 16 + ucast (bs ! 2) * 2 ^ 8 + ucast (bs ! 3)"

fun W :: "UInt1 list \<Rightarrow> nat \<Rightarrow> UInt4" where
  "W block t =
     (if t < 16 then be_word (drop (4 * t) block)
      else fips_sigma1 (W block (t - 2)) + W block (t - 7) + fips_sigma0 (W block (t - 15)) + W block (t - 16))"

declare W.simps [simp del]

type_synonym vars8 = "UInt4 \<times> UInt4 \<times> UInt4 \<times> UInt4 \<times> UInt4 \<times> UInt4 \<times> UInt4 \<times> UInt4"

fun fips_round :: "(nat \<Rightarrow> UInt4) \<Rightarrow> vars8 \<Rightarrow> nat \<Rightarrow> vars8" where
  "fips_round w (a, b, c, d, e, f, g, h) t =
     (let T1 = h + fips_Sigma1 e + fips_Ch e f g + fips_K ! t + w t;
          T2 = fips_Sigma0 a + fips_Maj a b c in
      (T1 + T2, a, b, c, d + T1, e, f, g))"

fun list8 :: "vars8 \<Rightarrow> UInt4 list" where
  "list8 (a, b, c, d, e, f, g, h) = [a, b, c, d, e, f, g, h]"

definition vars8_of :: "UInt4 list \<Rightarrow> vars8" where
  "vars8_of H = (H ! 0, H ! 1, H ! 2, H ! 3, H ! 4, H ! 5, H ! 6, H ! 7)"

definition fips_compress :: "UInt4 list \<Rightarrow> UInt1 list \<Rightarrow> UInt4 list" where
  "fips_compress H block = map2 (+) H (list8 (foldl (fips_round (W block)) (vars8_of H) [0 ..< 64]))"

subsection \<open>The hash of a message\<close>

function fips_blocks :: "UInt4 list \<Rightarrow> UInt1 list \<Rightarrow> UInt4 list" where
  "fips_blocks H bytes =
     (if length bytes \<ge> 64 then fips_blocks (fips_compress H (take 64 bytes)) (drop 64 bytes) else H)"
  by pat_completeness auto
termination
  by (relation "measure (\<lambda>(H, bytes). length bytes)") auto

declare fips_blocks.simps [simp del]

definition be64 :: "nat \<Rightarrow> UInt1 list" where
  "be64 n = map (\<lambda>j. of_nat (n div 256 ^ (7 - j))) [0 ..< 8]"

definition fips_pad :: "UInt1 list \<Rightarrow> UInt1 list" where
  "fips_pad msg = msg @ [0x80] @ replicate ((119 - length msg mod 64) mod 64) 0 @ be64 (8 * length msg)"

definition fips_sha256 :: "UInt1 list \<Rightarrow> UInt4 list" where
  "fips_sha256 msg = fips_blocks fips_H (fips_pad msg)"

subsection \<open>The keyed hash\<close>

definition be_bytes :: "UInt4 \<Rightarrow> UInt1 list" where
  "be_bytes w = [ucast (drop_bit 24 w), ucast (drop_bit 16 w), ucast (drop_bit 8 w), ucast w]"

definition sha_bytes :: "UInt1 list \<Rightarrow> UInt1 list" where
  "sha_bytes msg = concat (map be_bytes (fips_sha256 msg))"

definition fips_hmac :: "UInt1 list \<Rightarrow> UInt1 list \<Rightarrow> UInt4 list" where
  "fips_hmac key txt =
     (let K = (if length key > 64 then sha_bytes key else key); K0 = K @ replicate (64 - length K) 0 in
      fips_sha256 (map (\<lambda>b. 0x5c XOR b) K0 @ sha_bytes (map (\<lambda>b. 0x36 XOR b) K0 @ txt)))"

end
