(* ===== verification/Sha256Correct.thy ===== *)
theory Sha256Correct
  imports Sha256 Sha256Standard
begin

text \<open>
  The hash against the Secure Hash Standard as \<open>Sha256Standard\<close> states it: the constants and the functions of the code
  are those of the standard, its schedule and its rounds on an array are the recursive schedule and the rounds on
  eight working variables, and the code's state after any sequence of updates represents the message hashed so far, so a
  hash in pieces is the hash of the whole.
\<close>

subsection \<open>Loops that write ranges of a buffer\<close>

lemma copy_bytes_eq:
  "off + n \<le> length dst \<Longrightarrow> n \<le> length src \<Longrightarrow>
   copy_bytes dst off src n = take off dst @ take n src @ drop (off + n) dst"
proof (induction n)
  case 0
  then show ?case by (simp add: copy_bytes_def)
next
  case (Suc n)
  let ?d = "take off dst @ take n src @ drop (off + n) dst"
  have "copy_bytes dst off src (Suc n) = ?d[off + n := src ! n]"
    using Suc by (simp add: copy_bytes_def)
  also have "\<dots> = take off dst @ take n src @ (drop (off + n) dst)[0 := src ! n]"
    using Suc.prems by (simp add: list_update_append)
  also have "(drop (off + n) dst)[0 := src ! n] = src ! n # drop (off + Suc n) dst"
    using Suc.prems by (simp add: Cons_nth_drop_Suc [symmetric, of "off + n" dst])
  finally show ?case
    using Suc.prems by (simp add: take_Suc_conv_app_nth)
qed

lemma zero_bytes_eq:
  "from \<le> to \<Longrightarrow> off + to \<le> length dst \<Longrightarrow>
   zero_bytes dst off from to = take (off + from) dst @ replicate (to - from) 0 @ drop (off + to) dst"
proof (induction "to - from" arbitrary: to)
  case 0
  then show ?case by (simp add: zero_bytes_def)
next
  case (Suc n)
  then obtain k where k: "to = Suc k" "n = k - from" "from \<le> k" by (cases to) auto
  let ?d = "take (off + from) dst @ replicate (k - from) 0 @ drop (off + k) dst"
  have "zero_bytes dst off from to = ?d[off + k := 0]"
    using Suc.hyps(1) [OF k(2,3)] Suc.prems k by (simp add: zero_bytes_def)
  also have "\<dots> = take (off + from) dst @ replicate (k - from) 0 @ (drop (off + k) dst)[0 := 0]"
    using Suc.prems k by (simp add: list_update_append)
  also have "(drop (off + k) dst)[0 := 0] = 0 # drop (off + to) dst"
    using Suc.prems k by (simp add: Cons_nth_drop_Suc [symmetric, of "off + k" dst])
  also have "replicate (k - from) 0 @ 0 # drop (off + to) dst = replicate (to - from) 0 @ drop (off + to) dst"
    using k by (simp add: Suc_diff_le replicate_append_same [symmetric] del: replicate_append_same)
  finally show ?case .
qed

text \<open>A loop that updates entry \<open>i\<close> in step \<open>i\<close> from its old value.\<close>

lemma foldl_update_nth:
  "n \<le> length xs \<Longrightarrow> j < length xs \<Longrightarrow>
   foldl (\<lambda>xs i. xs[i := f i (xs ! i)]) xs [0 ..< n] ! j = (if j < n then f j (xs ! j) else xs ! j)"
  and foldl_update_length: "length (foldl (\<lambda>xs i. xs[i := f i (xs ! i)]) xs [0 ..< n]) = length xs"
proof (induction n)
  case (Suc n)
  {
    case 1
    then show ?case
      using Suc by (auto simp: nth_list_update less_Suc_eq)
  next
    case 2
    then show ?case using Suc by simp
  }
qed simp_all

subsection \<open>The constants and functions of the standard\<close>

lemma RotateRight_rotr: "0 < n \<Longrightarrow> n < 32 \<Longrightarrow> RotateRight x n = word_rotr n x"
proof (rule bit_word_eqI)
  fix i assume n: "0 < n" "n < 32" and "i < LENGTH(32)"
  then have i: "i < 32" by simp
  show "bit (RotateRight x n) i = bit (word_rotr n x) i"
  proof (cases "i + n < 32")
    case True
    then show ?thesis using n i by (auto simp: RotateRight_def bit_simps add.commute dest: bit_imp_le_length)
  next
    case False
    then have "(i + n) mod 32 = i + n - 32" using n i by (simp add: mod_if)
    then show ?thesis using n i False by (auto simp: RotateRight_def bit_simps add.commute dest: bit_imp_le_length)
  qed
qed

lemma fips_functions:
  "fips_Ch x y z = Ch x y z" "fips_Maj x y z = Maj x y z" "fips_Sigma0 x = Sigma0 x" "fips_Sigma1 x = Sigma1 x"
  "fips_sigma0 x = sigma0 x" "fips_sigma1 x = sigma1 x"
  by (simp_all add: fips_Ch_def Ch_def fips_Maj_def Maj_def fips_Sigma0_def Sigma0_def fips_Sigma1_def Sigma1_def
      fips_sigma0_def sigma0_def fips_sigma1_def sigma1_def RotateRight_rotr)

lemma fips_constants: "fips_H = rinit" "fips_K = sha_k"
proof -
  show "fips_H = rinit" unfolding fips_H_values rinit_def by simp
  show "fips_K = sha_k" unfolding fips_K_values sha_k_def by code_simp
qed

subsection \<open>The compression function\<close>

lemma list8_length [simp]: "length (list8 v) = 8"
  by (cases v rule: list8.cases) simp

lemma list8_vars8_of: "length H = 8 \<Longrightarrow> list8 (vars8_of H) = H"
  by (auto simp: vars8_of_def eval_nat_numeral length_Suc_conv)

lemma sha256_round_list8: "w ! t = W' t \<Longrightarrow> sha256_round w (list8 v) t = list8 (fips_round W' v t)"
  by (cases v rule: list8.cases) (simp add: sha256_round_def Let_def fips_functions fips_constants)

lemma rounds_list8:
  "(\<And>t. t < n \<Longrightarrow> w ! t = W' t) \<Longrightarrow>
   foldl (sha256_round w) (list8 v) [0 ..< n] = list8 (foldl (fips_round W') v [0 ..< n])"
  by (induction n) (simp_all add: sha256_round_list8)

lemma be_word_bits:
  "push_bit 24 (ucast (a :: UInt1)) OR push_bit 16 (ucast b) OR push_bit 8 (ucast c) OR ucast d =
   (ucast a * 2 ^ 24 + ucast (b :: UInt1) * 2 ^ 16 + ucast (c :: UInt1) * 2 ^ 8 + ucast (d :: UInt1) :: UInt4)"
proof -
  have d1: "push_bit 8 (ucast c) AND ucast d = (0 :: UInt4)" and d2: "push_bit 16 (ucast b) AND (push_bit 8 (ucast c) OR ucast d) = (0 :: UInt4)"
    and d3: "push_bit 24 (ucast a) AND (push_bit 16 (ucast b) OR push_bit 8 (ucast c) OR ucast d) = (0 :: UInt4)"
    by (rule bit_word_eqI; auto simp: bit_simps dest: bit_imp_le_length)+
  have "push_bit 24 (ucast a) OR push_bit 16 (ucast b) OR push_bit 8 (ucast c) OR ucast d =
    push_bit 24 (ucast a) + (push_bit 16 (ucast b) + (push_bit 8 (ucast c) + (ucast d :: UInt4)))"
    by (simp only: or.assoc disjunctive_add_eq_or d1 d2 d3)
  then show ?thesis
    by (simp add: push_bit_eq_mult algebra_simps)
qed

lemma be32decode_nth:
  assumes "len div 4 \<le> length dst" "length src \<ge> len" "i < len div 4"
  shows "be32decode dst src len ! i = be_word (drop (4 * i) src)" "length (be32decode dst src len) = length dst"
proof -
  show "length (be32decode dst src len) = length dst"
    using foldl_update_length [of "\<lambda>i _. push_bit 24 (ucast (src ! (i * 4))) OR push_bit 16 (ucast (src ! (i * 4 + 1))) OR
         push_bit 8 (ucast (src ! (i * 4 + 2))) OR ucast (src ! (i * 4 + 3))" dst "len div 4"]
    by (simp add: be32decode_def)
  show "be32decode dst src len ! i = be_word (drop (4 * i) src)"
    unfolding be32decode_def
    using foldl_update_nth [of "len div 4" dst i "\<lambda>i _. push_bit 24 (ucast (src ! (i * 4))) OR push_bit 16 (ucast (src ! (i * 4 + 1))) OR
         push_bit 8 (ucast (src ! (i * 4 + 2))) OR ucast (src ! (i * 4 + 3))"] assms
    by (simp add: be_word_def be_word_bits mult.commute)
qed

lemma schedule_W:
  assumes "length block \<ge> 64" "t < 64"
  shows "schedule block ! t = W block t"
proof -
  let ?f = "\<lambda>w i. w[i := sigma1 (w ! (i - 2)) + w ! (i - 7) + sigma0 (w ! (i - 15)) + (w ! (i - 16) :: UInt4)]"
  let ?start = "be32decode (replicate 64 0) block 64"
  have len0: "length ?start = 64"
    using be32decode_nth(2) [of 64 "replicate 64 0" block 0] assms(1) by simp
  have inv: "n \<le> 48 \<Longrightarrow> length (foldl ?f ?start [16 ..< 16 + n]) = 64 \<and>
    (\<forall>t < 16 + n. foldl ?f ?start [16 ..< 16 + n] ! t = W block t)" for n
  proof (induction n)
    case 0
    have "?start ! t = W block t" if "t < 16" for t
      using be32decode_nth(1) [of 64 "replicate 64 0" block t] that assms(1) by (simp add: W.simps [of block t])
    then show ?case using len0 by simp
  next
    case (Suc n)
    obtain w where w: "w = foldl ?f ?start [16 ..< 16 + n]" by blast
    have IH: "length w = 64" "\<And>t. t < 16 + n \<Longrightarrow> w ! t = W block t"
      using Suc unfolding w by auto
    have "w ! (16 + n - 2) = W block (16 + n - 2)" "w ! (16 + n - 7) = W block (16 + n - 7)"
      "w ! (16 + n - 15) = W block (16 + n - 15)" "w ! (16 + n - 16) = W block (16 + n - 16)"
      by (rule IH(2); simp)+
    then have new: "sigma1 (w ! (16 + n - 2)) + w ! (16 + n - 7) + sigma0 (w ! (16 + n - 15)) + w ! (16 + n - 16) =
      W block (16 + n)"
      by (simp only: W.simps [of block "16 + n"] fips_functions) simp
    have "[16 ..< 16 + Suc n] = [16 ..< 16 + n] @ [16 + n]"
      by (simp only: add_Suc_right upt_Suc_append le_add1)
    then have step: "foldl ?f ?start [16 ..< 16 + Suc n] = w[16 + n := W block (16 + n)]"
      by (simp only: foldl_append foldl.simps w [symmetric] new)
    show ?case
      unfolding step using IH Suc.prems by (auto simp: nth_list_update less_Suc_eq)
  qed
  have e: "16 + 48 = (64 :: nat)" by simp
  have all: "\<forall>t < 64. foldl ?f ?start [16 ..< 64] ! t = W block t"
    by (rule inv [of 48, THEN conjunct2, unfolded e]) simp
  show ?thesis
    unfolding schedule_def by (rule all [rule_format, OF assms(2)])
qed

lemma W_take: "t < 64 \<Longrightarrow> length block \<ge> 64 \<Longrightarrow> W (take 64 block) t = W block t"
proof (induction t rule: less_induct)
  case (less t)
  show ?case
  proof (cases "t < 16")
    case True
    then have "take 4 (drop (4 * t) (take 64 block)) = take 4 (drop (4 * t) block)"
      by (simp add: take_drop min_def)
    then have "drop (4 * t) (take 64 block) ! j = drop (4 * t) block ! j" if "j < 4" for j
      using that by (metis nth_take)
    then show ?thesis
      using True by (simp add: W.simps [of _ t] be_word_def)
  next
    case False
    then show ?thesis
      using less by (simp add: W.simps [of _ t])
  qed
qed

lemma sha256_transform_compress:
  assumes "length H = 8" "length block \<ge> 64"
  shows "sha256_transform H block = fips_compress H (take 64 block)"
proof -
  let ?r = "foldl (sha256_round (schedule block)) H [0 ..< 64]"
  have "?r = foldl (sha256_round (schedule block)) (list8 (vars8_of H)) [0 ..< 64]"
    using assms(1) by (simp only: list8_vars8_of)
  also have "\<dots> = list8 (foldl (fips_round (W (take 64 block))) (vars8_of H) [0 ..< 64])"
    by (rule rounds_list8) (simp add: schedule_W W_take assms(2))
  finally have r: "?r = list8 (foldl (fips_round (W (take 64 block))) (vars8_of H) [0 ..< 64])" .
  have "sha256_transform H block = foldl (\<lambda>state i. state[i := state ! i + ?r ! i]) H [0 ..< 8]"
    by (simp only: sha256_transform_def Let_def)
  also have "\<dots> = map2 (+) H ?r"
    using foldl_update_nth [of 8 H _ "\<lambda>i x. x + ?r ! i"] foldl_update_length [of "\<lambda>i x. x + ?r ! i" H 8] assms(1)
    by (intro nth_equalityI) (simp_all add: r)
  finally show ?thesis
    by (simp only: r fips_compress_def)
qed

lemma fips_compress_length [simp]: "length H = 8 \<Longrightarrow> length (fips_compress H block) = 8"
  by (simp add: fips_compress_def)

subsection \<open>Blocks\<close>

lemma fips_blocks_short: "length bytes < 64 \<Longrightarrow> fips_blocks H bytes = H"
  by (subst fips_blocks.simps) simp

lemma fips_blocks_one: "length block = 64 \<Longrightarrow> fips_blocks H (block @ rest) = fips_blocks (fips_compress H block) rest"
  by (subst fips_blocks.simps) simp

lemma fips_blocks_length [simp]: "length H = 8 \<Longrightarrow> length (fips_blocks H bytes) = 8"
proof (induction H bytes rule: fips_blocks.induct)
  case (1 H bytes)
  then show ?case
    by (subst fips_blocks.simps) simp
qed

lemma fips_blocks_append:
  "64 dvd length xs \<Longrightarrow> fips_blocks H (xs @ ys) = fips_blocks (fips_blocks H xs) ys"
proof (induction H xs rule: fips_blocks.induct)
  case (1 H xs)
  show ?case
  proof (cases "length xs \<ge> 64")
    case True
    have "64 dvd length (drop 64 xs)"
      using "1.prems" True by (simp add: dvd_diff_nat)
    then have "fips_blocks (fips_compress H (take 64 xs)) (drop 64 xs @ ys) =
      fips_blocks (fips_blocks (fips_compress H (take 64 xs)) (drop 64 xs)) ys"
      using "1.IH" [OF True] by blast
    moreover have "fips_blocks H (xs @ ys) = fips_blocks (fips_compress H (take 64 xs)) (drop 64 xs @ ys)"
      using True fips_blocks_one [of "take 64 xs" H "drop 64 xs @ ys"] by (simp flip: append_assoc)
    moreover have "fips_blocks H xs = fips_blocks (fips_compress H (take 64 xs)) (drop 64 xs)"
      using True by (subst fips_blocks.simps) simp
    ultimately show ?thesis by simp
  next
    case False
    then have "xs = []" using "1.prems" by (auto dest: dvd_imp_le)
    then show ?thesis by (simp add: fips_blocks_short)
  qed
qed

lemma full_blocks_eq:
  "length r = 8 \<Longrightarrow> full_blocks r buf = (fips_blocks r buf, drop (length buf div 64 * 64) buf)"
proof (induction r buf rule: full_blocks.induct)
  case (1 r buf)
  show ?case
  proof (cases "length buf \<ge> 64")
    case True
    have "length (drop 64 buf) div 64 * 64 + 64 = length buf div 64 * 64"
      using True by (simp add: le_div_geq)
    then have d: "drop (length (drop 64 buf) div 64 * 64) (drop 64 buf) = drop (length buf div 64 * 64) buf"
      by (simp add: add.commute)
    have "full_blocks r buf = full_blocks (sha256_transform r buf) (drop 64 buf)"
      using True by (subst full_blocks.simps) simp
    also have "\<dots> = (fips_blocks (sha256_transform r buf) (drop 64 buf), drop (length buf div 64 * 64) buf)"
      using "1.IH" [OF True] "1.prems" sha256_transform_compress [OF "1.prems" True] d by simp
    also have "fips_blocks (sha256_transform r buf) (drop 64 buf) = fips_blocks r buf"
      using True sha256_transform_compress [OF "1.prems" True] by (subst (2) fips_blocks.simps) simp
    finally show ?thesis .
  next
    case False
    then show ?thesis
      by (subst full_blocks.simps) (simp add: fips_blocks_short)
  qed
qed

subsection \<open>A state represents the message hashed so far\<close>

definition hashed :: "UInt1 list \<Rightarrow> sha256_state \<Rightarrow> bool" where
  "hashed msg st \<longleftrightarrow>
     (\<exists>a p. msg = a @ p \<and> 64 dvd length a \<and> length p < 64 \<and> st_r st = fips_blocks rinit a \<and>
       take (length p) (st_buf st) = p \<and> length (st_buf st) = 64 \<and> st_count st = of_nat (8 * length msg))"

lemma rinit_length [simp]: "length rinit = 8"
  by (simp add: rinit_def)

lemma bits_in_buffer:
  assumes "8 * n < 2 ^ 64"
  shows "unat (drop_bit 3 (of_nat (8 * n) :: UInt) AND 0x3f) = n mod 64"
proof -
  have "unat (drop_bit 3 (of_nat (8 * n) :: UInt)) = n"
  proof -
    have "unat (of_nat (8 * n) :: UInt) = 8 * n"
      unfolding unsigned_of_nat of_nat_id using assms by (intro take_bit_nat_eq_self) simp
    then show ?thesis
      unfolding unat_drop_bit_eq by (simp only: drop_bit_eq_div) simp
  qed
  moreover have "(0x3f :: UInt) = mask 6" by (simp add: mask_eq_exp_minus_1)
  then have "unat (w AND 0x3f) = unat w mod 64" for w :: UInt
    by (simp only: take_bit_eq_mask [symmetric] unsigned_take_bit_eq take_bit_eq_mod)
      (simp add: unat_mod)
  ultimately show ?thesis by simp
qed

lemma split_mod_64: "64 dvd length a \<Longrightarrow> length p < 64 \<Longrightarrow> length (a @ p) mod 64 = length p"
  by (auto elim: dvdE)

lemma hashed_init: "hashed [] sha256_init"
  unfolding hashed_def by (rule exI [of _ "[]"], rule exI [of _ "[]"]) (simp add: sha256_init_def fips_blocks_short)

lemma split_blocks: "length (take (length xs div 64 * 64) xs) = length xs div 64 * 64"
  "length (drop (length xs div 64 * 64) xs) = length xs mod 64"
  by (simp_all only: length_take length_drop min_absorb2 div_times_less_eq_dividend minus_div_mult_eq_mod)

lemma fips_blocks_prefix: "fips_blocks H xs = fips_blocks H (take (length xs div 64 * 64) xs)"
proof -
  let ?n = "length xs div 64 * 64"
  have "fips_blocks H (take ?n xs @ drop ?n xs) = fips_blocks (fips_blocks H (take ?n xs)) (drop ?n xs)"
    by (rule fips_blocks_append) (simp only: split_blocks(1) dvd_triv_right)
  moreover have "length (drop ?n xs) < 64"
    by (simp only: split_blocks(2) mod_less_divisor zero_less_numeral)
  ultimately show ?thesis
    by (simp only: append_take_drop_id fips_blocks_short)
qed

lemma hashed_update:
  assumes "hashed msg st" "8 * length (msg @ data) < 2 ^ 64"
  shows "hashed (msg @ data) (sha256_update st data)"
proof -
  obtain a p where msg: "msg = a @ p" "64 dvd length a" "length p < 64" "st_r st = fips_blocks rinit a"
    "take (length p) (st_buf st) = p" "length (st_buf st) = 64" "st_count st = of_nat (8 * length msg)"
    using assms(1) unfolding hashed_def by blast
  have rem: "unat (drop_bit 3 (st_count st) AND 0x3f) = length p"
    using bits_in_buffer [of "length msg"] assms(2) msg split_mod_64 [of a p] by simp
  have cnt: "st_count st + push_bit 3 (of_nat (length data)) = of_nat (8 * length (msg @ data))"
    by (simp add: msg(7) push_bit_eq_mult algebra_simps)
  show ?thesis
  proof (cases "length data < 64 - length p")
    case True
    let ?buf = "copy_bytes (st_buf st) (length p) data (length data)"
    have buf: "?buf = p @ data @ drop (length p + length data) (st_buf st)"
      using True msg(5,6) by (simp add: copy_bytes_eq)
    have "sha256_update st data = st\<lparr>st_count := of_nat (8 * length (msg @ data)), st_buf := ?buf\<rparr>"
      using True by (simp only: sha256_update_def Let_def rem cnt sha256_state.simps if_True) simp
    note upd = this
    show ?thesis
      unfolding hashed_def upd
      by (rule exI [of _ a], rule exI [of _ "p @ data"]) (use True msg buf in simp)
  next
    case False
    let ?m = "64 - length p"
    let ?rest = "drop ?m data"
    let ?q = "length ?rest div 64 * 64"
    let ?blk = "copy_bytes (st_buf st) (length p) data ?m"
    have blk: "?blk = p @ take ?m data" and blk64: "length ?blk = 64"
      using False msg(3,5,6) by (simp_all add: copy_bytes_eq)
    let ?r = "sha256_transform (st_r st) ?blk"
    have r: "?r = fips_blocks rinit (a @ ?blk)"
      using sha256_transform_compress [of "st_r st" ?blk] blk64 msg(2,4) fips_blocks_one [of ?blk "fips_blocks rinit a" "[]"]
      by (simp add: fips_blocks_append fips_blocks_short)
    have r8: "length ?r = 8" unfolding r by simp
    have left: "length (drop ?q ?rest) < 64"
      by (simp only: split_blocks(2) mod_less_divisor zero_less_numeral)
    have upd: "sha256_update st data = st\<lparr>st_count := of_nat (8 * length (msg @ data)), st_r := fips_blocks ?r ?rest,
        st_buf := copy_bytes ?blk 0 (drop ?q ?rest) (length (drop ?q ?rest))\<rparr>"
      using False full_blocks_eq [OF r8, of ?rest]
      by (simp add: sha256_update_def Let_def rem cnt del: length_drop)
    have buf: "copy_bytes ?blk 0 (drop ?q ?rest) (length (drop ?q ?rest)) = drop ?q ?rest @ drop (length (drop ?q ?rest)) ?blk"
      using left blk64 by (simp add: copy_bytes_eq del: length_drop)
    have len: "length (copy_bytes ?blk 0 (drop ?q ?rest) (length (drop ?q ?rest))) = 64"
      unfolding buf using left blk64 by simp
    have dvd: "64 dvd length (a @ ?blk)"
      using msg(2) blk64 by simp
    have whole: "msg @ data = (a @ ?blk @ take ?q ?rest) @ drop ?q ?rest"
      unfolding blk msg(1) by (simp only: append_assoc append_take_drop_id)
    have dvd2: "64 dvd length (a @ ?blk @ take ?q ?rest)"
      using dvd by (simp only: length_append split_blocks(1) dvd_add dvd_triv_right flip: add.assoc)
    have regs: "fips_blocks ?r ?rest = fips_blocks rinit (a @ ?blk @ take ?q ?rest)"
      unfolding r using fips_blocks_append [OF dvd, of rinit "take ?q ?rest"]
      by (simp only: append_assoc fips_blocks_prefix [of "fips_blocks rinit (a @ ?blk)" ?rest])
    show ?thesis
      unfolding hashed_def upd
      by (rule exI [of _ "a @ ?blk @ take ?q ?rest"], rule exI [of _ "drop ?q ?rest"], intro conjI whole dvd2 left)
        (use regs len in \<open>simp_all add: buf del: length_drop drop_drop\<close>)
  qed
qed

subsection \<open>Padding\<close>

lemma store64be_byte:
  "j < 8 \<Longrightarrow> (ucast (drop_bit (8 * j) (store64be x)) :: UInt1) = ucast (drop_bit (8 * (7 - j)) x)"
proof (rule bit_word_eqI)
  fix n assume j: "j < 8" and "n < LENGTH(8)"
  then have n: "n < 8" by simp
  have "j \<in> {0, 1, 2, 3, 4, 5, 6, 7}" "n \<in> {0, 1, 2, 3, 4, 5, 6, 7}"
    using j n by auto
  then show "bit (ucast (drop_bit (8 * j) (store64be x)) :: UInt1) n = bit (ucast (drop_bit (8 * (7 - j)) x) :: UInt1) n"
    unfolding insert_iff empty_iff
    by (elim disjE; simp add: store64be_def bit_simps)
qed

lemma foldl_store_eq:
  "off + n \<le> length dst \<Longrightarrow>
   foldl (\<lambda>dst j. dst[off + j := f j]) dst [0 ..< n] = take off dst @ map f [0 ..< n] @ drop (off + n) dst"
proof (induction n)
  case 0
  then show ?case by simp
next
  case (Suc n)
  let ?d = "take off dst @ map f [0 ..< n] @ drop (off + n) dst"
  have "foldl (\<lambda>dst j. dst[off + j := f j]) dst [0 ..< Suc n] = ?d[off + n := f n]"
    using Suc by simp
  also have "\<dots> = take off dst @ map f [0 ..< n] @ (drop (off + n) dst)[0 := f n]"
    using Suc.prems by (simp add: list_update_append)
  also have "(drop (off + n) dst)[0 := f n] = f n # drop (off + Suc n) dst"
    using Suc.prems by (simp add: Cons_nth_drop_Suc [symmetric, of "off + n" dst])
  finally show ?case by simp
qed

lemma be64_bytes:
  assumes "8 * n < 2 ^ 64"
  shows "map (\<lambda>j. ucast (drop_bit (8 * j) (store64be (of_nat (8 * n))))) [0 ..< 8] = be64 (8 * n)"
proof (rule nth_equalityI)
  show "length (map (\<lambda>j. ucast (drop_bit (8 * j) (store64be (of_nat (8 * n))))) [0 ..< 8]) = length (be64 (8 * n))"
    by (simp add: be64_def)
  fix j assume "j < length (map (\<lambda>j. ucast (drop_bit (8 * j) (store64be (of_nat (8 * n)))) :: UInt1) [0 ..< 8])"
  then have j: "j < 8" by simp
  have count: "unat (of_nat (8 * n) :: UInt) = 8 * n"
    unfolding unsigned_of_nat of_nat_id using assms by (intro take_bit_nat_eq_self) simp
  have "(ucast (drop_bit (8 * (7 - j)) (of_nat (8 * n) :: UInt)) :: UInt1) =
    of_nat (unat (drop_bit (8 * (7 - j)) (of_nat (8 * n) :: UInt)))"
    by simp
  also have "unat (drop_bit (8 * (7 - j)) (of_nat (8 * n) :: UInt)) = 8 * n div 256 ^ (7 - j)"
    unfolding unat_drop_bit_eq count by (simp add: drop_bit_eq_div power_mult)
  finally show "map (\<lambda>j. ucast (drop_bit (8 * j) (store64be (of_nat (8 * n))))) [0 ..< 8] ! j = be64 (8 * n) ! j"
    using j by (simp add: be64_def store64be_byte)
qed

lemma store_count_eq:
  assumes "8 * n < 2 ^ 64" "length buf = 64"
  shows "store_word buf 56 (store64be (of_nat (8 * n))) = take 56 buf @ be64 (8 * n)"
  unfolding store_word_def using assms foldl_store_eq [of 56 8 buf "\<lambda>j. ucast (drop_bit (8 * j) (store64be (of_nat (8 * n))))"]
  by (simp add: be64_bytes [OF assms(1)] del: of_nat_mult)

lemma be64_length [simp]: "length (be64 n) = 8"
  by (simp add: be64_def)

lemma hashed_final:
  assumes "hashed msg st" "8 * length msg < 2 ^ 64"
  shows "st_r (sha256_final st) = fips_sha256 msg"
proof -
  obtain a p where msg: "msg = a @ p" "64 dvd length a" "length p < 64" "st_r st = fips_blocks rinit a"
    "take (length p) (st_buf st) = p" "length (st_buf st) = 64" "st_count st = of_nat (8 * length msg)"
    using assms(1) unfolding hashed_def by blast
  have rem: "unat (drop_bit 3 (st_count st) AND 0x3f) = length p"
    using bits_in_buffer [OF assms(2)] msg split_mod_64 [of a p] by simp
  have mod: "length msg mod 64 = length p"
    using split_mod_64 [OF msg(2,3)] msg(1) by simp
  let ?buf = "(st_buf st)[length p := 0x80]"
  have buf: "take (length p + 1) ?buf = p @ [0x80]" "length ?buf = 64"
    using msg(3,5,6) by (simp_all add: take_Suc_conv_app_nth)
  show ?thesis
  proof (cases "length p < 56")
    case True
    let ?blk = "p @ [0x80] @ replicate (55 - length p) 0 @ be64 (8 * length msg)"
    have zb: "zero_bytes ?buf (length p) 1 (56 - length p) = (p @ [0x80] @ replicate (55 - length p) 0) @ drop 56 ?buf"
      using True buf zero_bytes_eq [of 1 "56 - length p" "length p" ?buf] by simp
    have "length (p @ [0x80] @ replicate (55 - length p) 0) = 56"
      using True by simp
    then have "take 56 (zero_bytes ?buf (length p) 1 (56 - length p)) = p @ [0x80] @ replicate (55 - length p) 0"
      unfolding zb by (metis append_eq_conv_conj)
    moreover have "length (zero_bytes ?buf (length p) 1 (56 - length p)) = 64"
      unfolding zb using True msg(6) by simp
    ultimately have blk: "store_word (zero_bytes ?buf (length p) 1 (56 - length p)) 56 (store64be (of_nat (8 * length msg))) = ?blk"
      by (simp only: store_count_eq [OF assms(2)] append_assoc)
    have "st_r (sha256_final st) = sha256_transform (st_r st) ?blk"
      using True blk by (simp add: sha256_final_def Let_def rem [unfolded msg(7)] msg(7) del: of_nat_mult One_nat_def)
    also have "\<dots> = fips_blocks rinit (a @ ?blk)"
      using sha256_transform_compress [of "st_r st" ?blk] msg(2,4) True fips_blocks_one [of ?blk "fips_blocks rinit a" "[]"]
      by (simp add: fips_blocks_append fips_blocks_short)
    also have "a @ ?blk = fips_pad msg"
    proof -
      have "119 - length p = 64 + (55 - length p)"
        using True by linarith
      then have "(119 - length p) mod 64 = (55 - length p) mod 64"
        by (simp only: mod_add_self1)
      also have "\<dots> = 55 - length p"
        by (rule mod_less) simp
      finally have "(119 - length p) mod 64 = 55 - length p" .
      then show ?thesis
        unfolding fips_pad_def mod by (simp add: msg(1))
    qed
    finally show ?thesis by (simp add: fips_sha256_def fips_constants)
  next
    case False
    let ?blk1 = "p @ [0x80] @ replicate (63 - length p) 0"
    let ?blk2 = "replicate 56 0 @ be64 (8 * length msg)"
    have blk1: "zero_bytes ?buf (length p) 1 (64 - length p) = ?blk1"
      using msg(3,6) buf zero_bytes_eq [of 1 "64 - length p" "length p" ?buf] by simp
    have "zero_bytes ?blk1 0 0 56 = replicate 56 0 @ drop 56 ?blk1"
      using msg(3) False zero_bytes_eq [of 0 56 0 ?blk1] by simp
    then have blk2: "store_word (zero_bytes ?blk1 0 0 56) 56 (store64be (of_nat (8 * length msg))) = ?blk2"
      using store_count_eq [OF assms(2), of "zero_bytes ?blk1 0 0 56"] msg(3) False by simp
    have "st_r (sha256_final st) = sha256_transform (sha256_transform (st_r st) ?blk1) ?blk2"
      using False blk1 blk2
      by (simp add: sha256_final_def Let_def rem [unfolded msg(7)] msg(7) del: of_nat_mult One_nat_def)
    also have "sha256_transform (st_r st) ?blk1 = fips_blocks rinit (a @ ?blk1)"
      using sha256_transform_compress [of "st_r st" ?blk1] msg(2,3,4) fips_blocks_one [of ?blk1 "fips_blocks rinit a" "[]"]
      by (simp add: fips_blocks_append fips_blocks_short)
    also have "sha256_transform (fips_blocks rinit (a @ ?blk1)) ?blk2 = fips_blocks rinit ((a @ ?blk1) @ ?blk2)"
      using sha256_transform_compress [of "fips_blocks rinit (a @ ?blk1)" ?blk2] msg(2,3)
        fips_blocks_one [of ?blk2 "fips_blocks rinit (a @ ?blk1)" "[]"] fips_blocks_append [of "a @ ?blk1" rinit ?blk2]
      by (simp add: fips_blocks_short)
    also have "(a @ ?blk1) @ ?blk2 = fips_pad msg"
    proof -
      have "(119 - length p) mod 64 = (63 - length p) + 56"
        using False msg(3) by (simp add: mod_if)
      then show ?thesis
        unfolding fips_pad_def mod by (simp only: replicate_add append_assoc msg(1))
    qed
    finally show ?thesis by (simp add: fips_sha256_def fips_constants)
  qed
qed

lemma hashed_updates:
  "hashed msg st \<Longrightarrow> 8 * length (msg @ concat chunks) < 2 ^ 64 \<Longrightarrow>
   hashed (msg @ concat chunks) (foldl sha256_update st chunks)"
proof (induction chunks arbitrary: msg st)
  case Nil
  then show ?case by simp
next
  case (Cons c chunks)
  have "hashed (msg @ c) (sha256_update st c)"
    using Cons.prems by (intro hashed_update) simp_all
  then show ?case
    using Cons.IH [of "msg @ c" "sha256_update st c"] Cons.prems(2) by simp
qed

lemma digest_list_words:
  "length (st_r st) = 8 \<Longrightarrow> sha_digest_list st = map (\<lambda>w. ObjInt_UInt (ucast w)) (st_r st)"
  unfolding sha_digest_list_def by (intro nth_equalityI) auto

primrec update_calls :: "sha_arg \<Rightarrow> UInt1 list list \<Rightarrow> sha_arg result" where
  "update_calls state [] = Inr state"
| "update_calls state (c # cs) = rbind (FuncGAP_SHA256_UPDATE state (StringRep c)) (\<lambda>state. update_calls state cs)"

lemma update_calls_foldl: "update_calls (StateObj st) cs = Inr (StateObj (foldl sha256_update st cs))"
  by (induction cs arbitrary: st) (simp_all add: FuncGAP_SHA256_UPDATE_def)

text \<open>C15: Hashing a message in any pieces, by updates of any lengths and a final step, gives the SHA-256 hash of the
  Secure Hash Standard of the whole message, as \<open>Sha256Standard\<close> states it without the tables and functions of the code: the
  constants are the bits of the roots of the primes, the padded message is cut into blocks, each is expanded by the
  recursive message schedule and compressed into the registers. The GAP functions do the same on a state object, and
  an argument that is not a state or not a string is an error.\<close>

theorem sha256_hashes_pieces:
  assumes "8 * length (concat chunks) < 2 ^ 64"
  shows "st_r (sha256_final (foldl sha256_update sha256_init chunks)) = fips_sha256 (concat chunks) \<and>
    rbind (update_calls FuncGAP_SHA256_INIT chunks) (\<lambda>st. rbind (FuncGAP_SHA256_FINAL st) (\<lambda>r. Inr (fst r))) =
      Inr (map (\<lambda>w. ObjInt_UInt (ucast w)) (fips_sha256 (concat chunks))) \<and>
    FuncGAP_SHA256_UPDATE FuncGAP_SHA256_INIT OtherArg = Inl ''must be a string'' \<and>
    FuncGAP_SHA256_UPDATE OtherArg b = Inl ''must be a SHA256 state'' \<and>
    FuncGAP_SHA256_FINAL OtherArg = Inl ''must be a SHA256 state''"
proof -
  let ?st = "sha256_final (foldl sha256_update sha256_init chunks)"
  have r: "st_r ?st = fips_sha256 (concat chunks)"
    using hashed_final [of "concat chunks"] hashed_updates [OF hashed_init, of chunks] assms by simp
  then have "length (st_r ?st) = 8"
    by (simp add: fips_sha256_def fips_constants)
  then show ?thesis
    using r by (simp add: FuncGAP_SHA256_INIT_def FuncGAP_SHA256_FINAL_def FuncGAP_SHA256_UPDATE_def update_calls_foldl
        digest_list_words Let_def)
qed

theorem sha256_hashes_pieces_witness:
  "st_r (sha256_final (foldl sha256_update sha256_init [[97], [98, 99]])) = fips_sha256 [97, 98, 99]"
  using sha256_hashes_pieces [of "[[97], [98, 99]]"] by simp

subsection \<open>The keyed hash\<close>

lemma be_bytes_masked:
  "be_bytes w = [ucast (drop_bit 24 (w AND 0xff000000)), ucast (drop_bit 16 (w AND 0xff0000)),
     ucast (drop_bit 8 (w AND 0xff00)), ucast (w AND 0xff)]"
proof -
  have bits: "n \<in> {0, 1, 2, 3, 4, 5, 6, 7}" if "n < LENGTH(8)" for n
    using that by auto
  have "(ucast (drop_bit 24 (w AND 0xff000000)) :: UInt1) = ucast (drop_bit 24 w)"
    "(ucast (drop_bit 16 (w AND 0xff0000)) :: UInt1) = ucast (drop_bit 16 w)"
    "(ucast (drop_bit 8 (w AND 0xff00)) :: UInt1) = ucast (drop_bit 8 w)"
    "(ucast (w AND 0xff) :: UInt1) = ucast w"
    by (rule bit_word_eqI, drule bits, unfold insert_iff empty_iff, (elim disjE; simp add: bit_simps))+
  then show ?thesis by (simp add: be_bytes_def)
qed

lemma update_four:
  "length c = n \<Longrightarrow> (c @ x0 # x1 # x2 # x3 # r)[n + 0 := a, n + 1 := b, n + 2 := d, n + 3 := e] = c @ [a, b, d, e] @ r"
  by (simp add: list_update_append numeral_2_eq_2 numeral_3_eq_3)

lemma be32encode_eq:
  "4 * m \<le> length dst \<Longrightarrow> m \<le> length src \<Longrightarrow>
   be32encode dst src (4 * m) = concat (map be_bytes (take m src)) @ drop (4 * m) dst"
proof (induction m)
  case 0
  then show ?case by (simp add: be32encode_def)
next
  case (Suc m)
  let ?c = "concat (map be_bytes (take m src))"
  have len: "length ?c = 4 * m"
    using Suc.prems by (simp add: length_concat be_bytes_def comp_def min_def sum_list_triv)
  have four: "4 * Suc m = Suc (Suc (Suc (Suc (4 * m))))" by simp
  have d: "drop (4 * m) dst = dst ! (4 * m) # dst ! Suc (4 * m) # dst ! Suc (Suc (4 * m)) # dst ! Suc (Suc (Suc (4 * m))) #
    drop (4 * Suc m) dst"
    using Suc.prems(1) unfolding four by (simp add: Cons_nth_drop_Suc)
  have "be32encode dst src (4 * Suc m) =
    (?c @ drop (4 * m) dst)
         [4 * m + 0 := ucast (drop_bit 24 (src ! m AND 0xff000000)),
          4 * m + 1 := ucast (drop_bit 16 (src ! m AND 0xff0000)),
          4 * m + 2 := ucast (drop_bit 8 (src ! m AND 0xff00)),
          4 * m + 3 := ucast (src ! m AND 0xff)]"
    using Suc by (simp add: be32encode_def)
  also have "\<dots> = ?c @ be_bytes (src ! m) @ drop (4 * Suc m) dst"
    unfolding d be_bytes_masked [of "src ! m"] by (rule update_four [OF len])
  finally show ?case
    using Suc.prems(2) by (simp add: take_Suc_conv_app_nth)
qed

lemma fips_sha256_length [simp]: "length (fips_sha256 msg) = 8"
  by (simp add: fips_sha256_def fips_constants)

lemma sha_bytes_length [simp]: "length (sha_bytes msg) = 32"
  by (simp add: sha_bytes_def length_concat be_bytes_def comp_def sum_list_triv)

lemma digest_bytes: "be32encode (replicate 32 0) (fips_sha256 msg) 32 = sha_bytes msg"
  using be32encode_eq [of 8 "replicate 32 0" "fips_sha256 msg"] by (simp add: sha_bytes_def)

lemma xor_bytes_eq:
  assumes "klen \<le> 64" "klen \<le> length key"
  shows "xor_bytes (replicate 64 c) key klen = map (\<lambda>b. c XOR b) (take klen key @ replicate (64 - klen) 0)"
proof (rule nth_equalityI)
  have len: "length (xor_bytes (replicate 64 c) key klen) = 64"
    unfolding xor_bytes_def using foldl_update_length [of "\<lambda>i x. x XOR key ! i" "replicate 64 c" klen] by simp
  then show "length (xor_bytes (replicate 64 c) key klen) =
    length (map (\<lambda>b. c XOR b) (take klen key @ replicate (64 - klen) 0))"
    using assms by simp
  fix i assume "i < length (xor_bytes (replicate 64 c) key klen)"
  then have i: "i < 64" using len by simp
  show "xor_bytes (replicate 64 c) key klen ! i = map (\<lambda>b. c XOR b) (take klen key @ replicate (64 - klen) 0) ! i"
    unfolding xor_bytes_def
    using foldl_update_nth [of klen "replicate 64 c" i "\<lambda>i x. x XOR key ! i"] assms i
    by (simp add: nth_append)
qed

lemma hash_one: "8 * length msg < 2 ^ 64 \<Longrightarrow> st_r (sha256_final (sha256_update sha256_init msg)) = fips_sha256 msg"
  using hashed_final [of msg] hashed_updates [OF hashed_init, of "[msg]"] by simp

lemma hash_two:
  "8 * length (m1 @ m2) < 2 ^ 64 \<Longrightarrow>
   st_r (sha256_final (sha256_update (sha256_update sha256_init m1) m2)) = fips_sha256 (m1 @ m2)"
  using hashed_final [of "m1 @ m2"] hashed_updates [OF hashed_init, of "[m1, m2]"] by simp

text \<open>C28: The keyed hash is the HMAC of the standards (\<open>fips_hmac\<close> of \<open>Sha256Standard\<close>) for every key, shorter or longer than a block,
  and every text; its result is the list of the eight registers as immediate integers, and an argument that is
  not a string is an error.\<close>

theorem sha256_hmac_sound:
  assumes "8 * length key < 2 ^ 64" "8 * (64 + length txt) < 2 ^ 64"
  shows "FuncGAP_SHA256_HMAC (StringRep key) (StringRep txt) =
      Inr (map (\<lambda>w. ObjInt_UInt (ucast w)) (fips_hmac key txt)) \<and>
    FuncGAP_SHA256_HMAC OtherArg (StringRep txt) = Inl ''must be a string'' \<and>
    FuncGAP_SHA256_HMAC (StringRep key) OtherArg = Inl ''must be a string''"
proof -
  let ?K = "if length key > 64 then sha_bytes key else key"
  let ?pad = "\<lambda>c. map (\<lambda>b. c XOR b) (?K @ replicate (64 - length ?K) 0)"
  have pads: "(if length key > 64 then
        let st = sha256_final (sha256_update sha256_init key); digest = be32encode (replicate 32 0) (st_r st) 32 in
        (xor_bytes (replicate 64 0x36) digest 32, xor_bytes (replicate 64 0x5c) digest 32)
      else (xor_bytes (replicate 64 0x36) key (length key), xor_bytes (replicate 64 0x5c) key (length key))) =
      (?pad 0x36, ?pad 0x5c)"
    using hash_one [OF assms(1)] by (simp add: Let_def digest_bytes xor_bytes_eq)
  have len: "length (?pad c) = 64" for c :: UInt1
    by simp
  have inner: "st_r (sha256_final (sha256_update (sha256_update sha256_init (?pad 0x36)) txt)) = fips_sha256 (?pad 0x36 @ txt)"
    by (rule hash_two) (use assms(2) len in \<open>simp only: length_append\<close>)
  have outer: "st_r (sha256_final (sha256_update (sha256_update sha256_init (?pad 0x5c)) (sha_bytes m))) =
      fips_sha256 (?pad 0x5c @ sha_bytes m)" for m
    by (rule hash_two) (simp only: length_append len sha_bytes_length, simp)
  have "FuncGAP_SHA256_HMAC (StringRep key) (StringRep txt) =
      Inr (map (\<lambda>w. ObjInt_UInt (ucast w)) (fips_hmac key txt))"
    unfolding FuncGAP_SHA256_HMAC_def prod.case sha_arg.case Let_def [of "replicate 64 0x36"] Let_def [of "replicate 64 0x5c"]
      pads
    unfolding Let_def prod.case inner digest_bytes fips_hmac_def
    by (subst digest_list_words) (simp_all only: outer fips_sha256_length)
  then show ?thesis
    by (simp add: FuncGAP_SHA256_HMAC_def)
qed

theorem sha256_hmac_sound_witness:
  "FuncGAP_SHA256_HMAC (StringRep [1, 2]) (StringRep [3]) = Inr (map (\<lambda>w. ObjInt_UInt (ucast w)) (fips_hmac [1, 2] [3]))"
  using sha256_hmac_sound [of "[1, 2]" "[3]"] by simp

end
