(* ===== verification/FinFieldData.thy ===== *)
theory FinFieldData
  imports GapPrelude "HOL-Library.Monad_Syntax"
begin

text \<open>
  The tables of the small finite fields: the generator \<open>src/etc/ffgen.c\<close>, which the build runs to write the sizes,
  degrees and characteristics of all fields up to \<open>MAX_FF\<close> into \<open>ffdata.c\<close>, the polynomials \<open>PolsFF\<close> of
  \<open>src/src/finfield_conway.h\<close>, and \<open>LookupPrimePower\<close> of \<open>src/src/finfield.c\<close>, which searches the sizes. \<open>MAX_FF\<close> is
  65536 in the program and an argument here. Numbers that stay below \<open>2 ^ 32\<close> for every bound up to 65536 are natural numbers.
  A loop whose end is not evident is a partial function of the option type, \<open>None\<close> being a run without end or an
  access outside a table.
\<close>

subsection \<open>The generator of the field tables\<close>

text \<open>\<open>make_primes\<close>: the sieve. The inner loop starts at \<open>j = 2 * i\<close>.\<close>

function strike :: "nat \<Rightarrow> nat \<Rightarrow> nat \<Rightarrow> bool list \<Rightarrow> bool list" where
  "strike M i j xs = (if j \<le> M \<and> 0 < i then strike M i (j + i) (xs[j := False]) else xs)"
  by pat_completeness auto
termination by (relation "measure (\<lambda>(M, i, j, xs). Suc M - j)") auto

function sieve_loop :: "nat \<Rightarrow> nat \<Rightarrow> bool list \<Rightarrow> bool list" where
  "sieve_loop M i xs =
     (if i * i \<le> M then sieve_loop M (i + 1) (if xs ! i then strike M i (2 * i) xs else xs) else xs)"
  by pat_completeness auto
termination
proof (relation "measure (\<lambda>(M, i, xs). Suc M - i)", goal_cases)
  case (2 M i xs)
  have "i \<le> M" using 2 by (rule order_trans [OF le_square])
  then show ?case by simp
qed simp

definition make_primes :: "nat \<Rightarrow> bool list" where
  "make_primes M = sieve_loop M 2 (fold (\<lambda>i xs. xs[i := True]) [2 ..< M + 1] (replicate (M + 1) False))"

text \<open>\<open>make_ff\<close>: the global tables \<open>is_ff\<close>, \<open>deg\<close> and \<open>ch\<close> with the counters \<open>num_ff\<close> and \<open>max_deg\<close>.\<close>

record ff_tables =
  is_ff :: "bool list"
  deg :: "nat list"
  ch :: "nat list"
  num_ff :: nat
  max_deg :: nat

function ff_powers :: "nat \<Rightarrow> nat \<Rightarrow> nat \<Rightarrow> nat \<Rightarrow> ff_tables \<Rightarrow> ff_tables \<times> nat" where
  "ff_powers M i j d t =
     (if j \<le> M \<and> 1 < i \<and> 0 < j
      then ff_powers M i (j * i) (d + 1)
             (t\<lparr>is_ff := (is_ff t)[j := True], deg := (deg t)[j := d], ch := (ch t)[j := i],
                num_ff := num_ff t + 1\<rparr>)
      else (t, d))"
  by pat_completeness auto
termination
proof (relation "measure (\<lambda>(M, i, j, d, t). Suc M - j)", goal_cases)
  case (2 M i j d t)
  then have "j * 1 < j * i" by (subst mult_less_cancel1) auto
  with 2 show ?case by (simp add: diff_less_mono2)
qed simp

definition make_ff :: "nat \<Rightarrow> bool list \<Rightarrow> ff_tables" where
  "make_ff M is_prime =
     fold (\<lambda>i t. if is_prime ! i
                 then let (t, d) = ff_powers M i i 1 t
                      in if 0 < d \<and> max_deg t < d - 1 then t\<lparr>max_deg := d - 1\<rparr> else t
                 else t) [2 ..< M + 1]
       \<lparr>is_ff = replicate (M + 1) False, deg = replicate (M + 1) 0, ch = replicate (M + 1) 0,
        num_ff = 0, max_deg = 0\<rparr>"

fun needed_bits :: "nat \<Rightarrow> nat" where
  "needed_bits x = (if x = 0 then 0 else 1 + needed_bits (x div 2))"

declare strike.simps [simp del] sieve_loop.simps [simp del] ff_powers.simps [simp del] needed_bits.simps [simp del]

text \<open>\<open>emit_code\<close> prints the constants of \<open>ffdata.h\<close> and the initialisers of the three arrays of \<open>ffdata.c\<close>, whose entry 0 is unused.\<close>

record ffdata =
  NUM_SHORT_FINITE_FIELDS :: nat
  MAXSIZE_GF_INTERNAL :: nat
  DEGREE_LARGEST_INTERNAL_FF :: nat
  FIELD_BITS_FFE :: nat
  VAL_BITS_FFE :: nat
  SizeFF :: "nat list"
  DegrFF :: "nat list"
  CharFF :: "nat list"

definition emit_code :: "nat \<Rightarrow> ff_tables \<Rightarrow> ffdata" where
  "emit_code M t =
     (let sizes = filter (\<lambda>i. is_ff t ! i) [0 ..< M + 1]
      in \<lparr>NUM_SHORT_FINITE_FIELDS = num_ff t, MAXSIZE_GF_INTERNAL = M,
          DEGREE_LARGEST_INTERNAL_FF = max_deg t,
          FIELD_BITS_FFE = needed_bits (num_ff t), VAL_BITS_FFE = needed_bits (M - 1),
          SizeFF = 0 # sizes, DegrFF = 0 # map (\<lambda>i. deg t ! i) sizes,
          CharFF = 0 # map (\<lambda>i. ch t ! i) sizes\<rparr>)"

definition ffgen :: "nat \<Rightarrow> ffdata" where
  "ffgen M = emit_code M (make_ff M (make_primes M))"

definition SIZE_FF :: "ffdata \<Rightarrow> nat \<Rightarrow> nat" where
  "SIZE_FF D ff = SizeFF D ! ff"

definition CHAR_FF :: "ffdata \<Rightarrow> nat \<Rightarrow> nat" where
  "CHAR_FF D ff = CharFF D ! ff"

definition DEGR_FF :: "ffdata \<Rightarrow> nat \<Rightarrow> nat" where
  "DEGR_FF D ff = DegrFF D ! ff"

subsection \<open>Search for a prime power\<close>

text \<open>A value stored in a variable of the 16-bit types \<open>FF\<close> and \<open>FFV\<close>.\<close>

definition u16 :: "nat \<Rightarrow> nat" where
  "u16 n = n mod 2 ^ 16"

text \<open>The interpolation search; the result is the last \<open>ff\<close>.\<close>

partial_function (option) lookup_loop :: "ffdata \<Rightarrow> nat \<Rightarrow> nat \<Rightarrow> nat \<Rightarrow> nat \<Rightarrow> nat option" where
  "lookup_loop D q l n ff =
     (if l \<le> n \<and> SizeFF D ! l \<le> q \<and> q \<le> SizeFF D ! n
      then let e = (q - SizeFF D ! l + 1) * (n - l) div (SizeFF D ! n - SizeFF D ! l + 1);
               ff = u16 (l + e)
           in if SizeFF D ! ff = q then Some ff
              else if SizeFF D ! ff < q then lookup_loop D q (ff + 1) n ff
              else lookup_loop D q l (ff - 1) ff
      else Some ff)"

declare lookup_loop.simps [code]

definition LookupPrimePower :: "ffdata \<Rightarrow> nat \<Rightarrow> nat option" where
  "LookupPrimePower D q =
     do {
       ff \<leftarrow> lookup_loop D q 1 (NUM_SHORT_FINITE_FIELDS D) 0;
       Some (if ff < 1 \<or> NUM_SHORT_FINITE_FIELDS D < ff then 0
             else if SizeFF D ! ff \<noteq> q then 0 else ff)
     }"

subsection \<open>The polynomials of the extension fields\<close>

text \<open>
  For \<open>q = p ^ r\<close> the entry after \<open>q\<close> is \<open>\<Sum>i<r. a i * p ^ i\<close> where \<open>x ^ r + (\<Sum>i<r. a i * x ^ i)\<close> is the Conway polynomial:
  the powers are those of \<open>p\<close>, not of \<open>q\<close> as the comment of the file has it.
\<close>

definition PolsFF :: "nat list" where
  "PolsFF =
    [4, 1 + 2,
     8, 1 + 2,
     16, 1 + 2,
     32, 1 + 4,
     64, 1 + 2 + 8 + 16,
     128, 1 + 2,
     256, 1 + 4 + 8 + 16,
     512, 1 + 16,
     1024, 1 + 2 + 4 + 8 + 32 + 64,
     2048, 1 + 4,
     4096, 1 + 2 + 8 + 32 + 64 + 128,
     8192, 1 + 2 + 8 + 16,
     16384, 1 + 8 + 32 + 128,
     32768, 1 + 4 + 16 + 32,
     65536, 1 + 4 + 8 + 32,
     9, 2 + 2 * 3,
     27, 1 + 2 * 3,
     81, 2 + 2 * 27,
     243, 1 + 2 * 3,
     729, 2 + 2 * 3 + 1 * 9 + 2 * 81,
     2187, 1 + 2 * 9,
     6561, 2 + 2 * 3 + 2 * 9 + 1 * 81 + 2 * 243,
     19683, 1 + 1 * 3 + 2 * 9 + 2 * 27,
     59049, 2 + 1 * 3 + 2 * 81 + 2 * 243 + 2 * 729,
     25, 2 + 4 * 5,
     125, 3 + 3 * 5,
     625, 2 + 4 * 5 + 4 * 25,
     3125, 3 + 4 * 5,
     15625, 2 + 1 * 25 + 4 * 125 + 1 * 625,
     49, 3 + 6 * 7,
     343, 4 + 6 * 49,
     2401, 3 + 4 * 7 + 5 * 49,
     16807, 4 + 1 * 7,
     121, 2 + 7 * 11,
     1331, 9 + 2 * 11,
     14641, 2 + 10 * 11 + 8 * 121,
     169, 2 + 12 * 13,
     2197, 11 + 2 * 13,
     28561, 2 + 12 * 13 + 3 * 169,
     289, 3 + 16 * 17,
     4913, 14 + 1 * 17,
     361, 2 + 18 * 19,
     6859, 17 + 4 * 19,
     529, 5 + 21 * 23,
     12167, 18 + 2 * 23,
     841, 2 + 24 * 29,
     24389, 27 + 2 * 29,
     961, 3 + 29 * 31,
     29791, 28 + 1 * 31,
     1369, 2 + 33 * 37,
     50653, 35 + 6 * 37,
     1681, 6 + 38 * 41,
     1849, 3 + 42 * 43,
     2209, 5 + 45 * 47,
     2809, 2 + 49 * 53,
     3481, 2 + 58 * 59,
     3721, 2 + 60 * 61,
     4489, 2 + 63 * 67,
     5041, 7 + 69 * 71,
     5329, 5 + 70 * 73,
     6241, 3 + 78 * 79,
     6889, 2 + 82 * 83,
     7921, 3 + 82 * 89,
     9409, 5 + 96 * 97,
     10201, 2 + 97 * 101,
     10609, 5 + 102 * 103,
     11449, 2 + 103 * 107,
     11881, 6 + 108 * 109,
     12769, 3 + 101 * 113,
     16129, 3 + 126 * 127,
     17161, 2 + 127 * 131,
     18769, 3 + 131 * 137,
     19321, 2 + 138 * 139,
     22201, 2 + 145 * 149,
     22801, 6 + 149 * 151,
     24649, 5 + 152 * 157,
     26569, 2 + 159 * 163,
     27889, 5 + 166 * 167,
     29929, 2 + 169 * 173,
     32041, 2 + 172 * 179,
     32761, 2 + 177 * 181,
     36481, 19 + 190 * 191,
     37249, 5 + 192 * 193,
     38809, 2 + 192 * 197,
     39601, 3 + 193 * 199,
     44521, 2 + 207 * 211,
     49729, 3 + 221 * 223,
     51529, 2 + 220 * 227,
     52441, 6 + 228 * 229,
     54289, 3 + 232 * 233,
     57121, 7 + 237 * 239,
     58081, 7 + 238 * 241,
     63001, 6 + 242 * 251]"

fun pols_loop :: "nat list \<Rightarrow> nat \<Rightarrow> nat option" where
  "pols_loop (x # poly # xs) q = (if x \<noteq> q then pols_loop xs q else Some poly)"
| "pols_loop _ q = None"

end
