(* ===== verification/FinField.thy ===== *)
theory FinField
  imports FinFieldData Integer
begin

text \<open>
  Elements of small finite fields, \<open>src/src/finfield.h\<close> and \<open>src/src/finfield.c\<close>. A nonzero element of the field \<open>ff\<close> is the
  power \<open>z ^ (v - 1)\<close> of the root of the field, zero is \<open>v = 0\<close>; the pair \<open>(ff, v)\<close> is packed into a handle. The
  successor table \<open>f\<close> of a field has the size less one in entry 0, and adds one to an element in the others. The
  state is the global tables that are filled on demand. A field, a value and a size are natural numbers of the model; a store into a
  variable of type \<open>FFV\<close> of an expression of type \<open>UInt\<close> is cut to 16 bits. What the kernel calls in the library is the record
  \<open>fflib\<close>. An operation returns an option: \<open>None\<close> is a loop without end or an access to a table outside its entries.
\<close>

subsection \<open>Arithmetic on values\<close>

definition PROD_FFV :: "nat \<Rightarrow> nat \<Rightarrow> nat list \<Rightarrow> nat" where
  "PROD_FFV a b f =
     (if a = 0 \<or> b = 0 then 0
      else let q1 = f ! 0; a1 = a - 1; b1 = q1 - b
           in if a1 \<le> b1 then a1 + b else a1 - b1)"

definition SUM_FFV :: "nat \<Rightarrow> nat \<Rightarrow> nat list \<Rightarrow> nat" where
  "SUM_FFV a b f =
     (if a = 0 then b
      else if b = 0 then a
      else let (a, b) = (if b > a then (b, a) else (a, b))
           in PROD_FFV b (f ! (a - b + 1)) f)"

definition NEG_FFV :: "nat \<Rightarrow> nat list \<Rightarrow> nat" where
  "NEG_FFV a f =
     (let q1 = f ! 0
      in if a = 0 then 0
         else if q1 mod 2 \<noteq> 0 then a
         else if a \<le> q1 div 2 then a + q1 div 2
         else a - q1 div 2)"

definition QUO_FFV :: "nat \<Rightarrow> nat \<Rightarrow> nat list \<Rightarrow> nat" where
  "QUO_FFV a b f =
     (if a = 0 then 0
      else if b \<le> a then a - b + 1
      else a + (f ! 0 - b) + 1)"

definition POW_FFV :: "nat \<Rightarrow> nat \<Rightarrow> nat list \<Rightarrow> nat" where
  "POW_FFV a n f =
     (if n = 0 then 1
      else if a = 0 then 0
      else let a1 = a - 1 in (a1 * n) mod f ! 0 + 1)"

subsection \<open>Handles\<close>

definition IS_FFE :: "UInt \<Rightarrow> bool" where
  "IS_FFE obj \<longleftrightarrow> obj AND 0x02 \<noteq> 0"

definition FLD_FFE :: "ffdata \<Rightarrow> UInt \<Rightarrow> nat" where
  "FLD_FFE D ffe = u16 (unat (drop_bit 3 ffe)) AND (2 ^ FIELD_BITS_FFE D - 1)"

definition VAL_FFE :: "ffdata \<Rightarrow> UInt \<Rightarrow> nat" where
  "VAL_FFE D ffe = u16 (unat (drop_bit (3 + FIELD_BITS_FFE D) ffe)) AND (2 ^ VAL_BITS_FFE D - 1)"

definition NEW_FFE :: "ffdata \<Rightarrow> nat \<Rightarrow> nat \<Rightarrow> UInt" where
  "NEW_FFE D fld val =
     push_bit (3 + FIELD_BITS_FFE D) (of_nat val) OR push_bit 3 (of_nat fld) OR 0x02"

subsection \<open>The state and the library\<close>

text \<open>Plain lists of the kernel have entry 0 unused; an unbound entry is \<open>None\<close>.\<close>

record ffstate =
  SuccFF :: "nat list option list"
  TypeFF :: "UInt option list"
  TypeFF0 :: "UInt option list"
  IntFF :: "UInt option list option list"

record fflib =
  TYPE_FFE :: "nat \<Rightarrow> UInt"
  TYPE_FFE0 :: "nat \<Rightarrow> UInt"
  PrimitiveRootMod :: "nat \<Rightarrow> nat"
  SUM_FFE_LARGE :: "UInt \<Rightarrow> UInt \<Rightarrow> UInt result"
  DIFF_FFE_LARGE :: "UInt \<Rightarrow> UInt \<Rightarrow> UInt result"
  PROD_FFE_LARGE :: "UInt \<Rightarrow> UInt \<Rightarrow> UInt result"
  QUO_FFE_LARGE :: "UInt \<Rightarrow> UInt \<Rightarrow> UInt result"
  LOG_FFE_LARGE :: "UInt \<Rightarrow> UInt \<Rightarrow> UInt option result"
  LtOper :: "UInt \<Rightarrow> UInt \<Rightarrow> bool"
  ZOp1 :: "gapint \<Rightarrow> UInt result"
  ZOp2 :: "gapint option \<Rightarrow> gapint option \<Rightarrow> UInt result"

definition InitLibrary :: "ffdata \<Rightarrow> ffstate" where
  "InitLibrary D =
     \<lparr>SuccFF = replicate (NUM_SHORT_FINITE_FIELDS D + 1) None,
      TypeFF = replicate (NUM_SHORT_FINITE_FIELDS D + 1) None,
      TypeFF0 = replicate (NUM_SHORT_FINITE_FIELDS D + 1) None,
      IntFF = replicate (NUM_SHORT_FINITE_FIELDS D + 1) None\<rparr>"

definition rd :: "'a list \<Rightarrow> nat \<Rightarrow> 'a option" where
  "rd xs i = (if i < length xs then Some (xs ! i) else None)"

definition put :: "'a list \<Rightarrow> nat \<Rightarrow> 'a \<Rightarrow> 'a list option" where
  "put xs i x = (if i < length xs then Some (xs[i := x]) else None)"

definition elm_plist :: "'a option list \<Rightarrow> nat \<Rightarrow> 'a option" where
  "elm_plist xs i = do { x \<leftarrow> rd xs i; x }"

definition ass_plist :: "'a option list \<Rightarrow> nat \<Rightarrow> 'a \<Rightarrow> 'a option list" where
  "ass_plist xs i x =
     (if i < length xs then xs[i := Some x] else xs @ replicate (i - length xs) None @ [Some x])"

definition SUCC_FF :: "ffstate \<Rightarrow> nat \<Rightarrow> nat list option" where
  "SUCC_FF st ff = elm_plist (SuccFF st) ff"

subsection \<open>Construction of a field\<close>

text \<open>The two loops that search the smallest primitive root of a prime; the second returns the root plus one.\<close>

partial_function (option) order_loop :: "nat \<Rightarrow> nat \<Rightarrow> nat \<Rightarrow> nat \<Rightarrow> nat option" where
  "order_loop p e f i = (if f \<noteq> 1 then order_loop p e ((f * e) mod p) (i + 1) else Some i)"

partial_function (option) root_loop :: "nat \<Rightarrow> nat \<Rightarrow> nat \<Rightarrow> nat option" where
  "root_loop p e i =
     (if i \<noteq> p - 1 then do { i' \<leftarrow> order_loop p e e 1; root_loop p (e + 1) i' } else Some e)"

definition field_poly :: "ffdata \<Rightarrow> fflib \<Rightarrow> nat \<Rightarrow> nat \<Rightarrow> nat \<Rightarrow> nat option" where
  "field_poly D L ff p q =
     (if DEGR_FF D ff = 1
      then do {
        e \<leftarrow> (if p < 65537 then root_loop p 1 1 else Some (PrimitiveRootMod L p + 1));
        Some (p - (e - 1))
      }
      else pols_loop PolsFF q)"

text \<open>Multiplication by \<open>x\<close> modulo the polynomial, on elements written with the digits of \<open>e\<close> in base \<open>p\<close>.\<close>

partial_function (option) digit_loop :: "nat \<Rightarrow> nat \<Rightarrow> nat \<Rightarrow> nat \<Rightarrow> nat \<Rightarrow> nat \<Rightarrow> nat \<Rightarrow> nat option" where
  "digit_loop p q poly f l i e =
     (if i < q then digit_loop p q poly f l (i * p) (e + i * ((f div i + l * (poly div i)) mod p))
      else Some e)"

declare order_loop.simps [code] root_loop.simps [code] digit_loop.simps [code]

definition mul_x :: "nat \<Rightarrow> nat \<Rightarrow> nat \<Rightarrow> nat \<Rightarrow> nat option" where
  "mul_x p q poly e =
     (if p \<noteq> 2
      then let f = p * (e mod (q div p)); l = ((p - 1) * (e div (q div p))) mod p
           in digit_loop p q poly f l 1 0
      else if (2 * e) AND q \<noteq> 0 then Some ((2 * e) XOR poly XOR q)
      else Some (2 * e))"

function indx_loop :: "nat \<Rightarrow> nat \<Rightarrow> nat \<Rightarrow> nat \<Rightarrow> nat \<Rightarrow> nat list \<Rightarrow> nat list option" where
  "indx_loop p q poly e n indx =
     (if n < q - 1
      then do {
        indx \<leftarrow> put indx e (u16 (n + 1));
        e \<leftarrow> mul_x p q poly e;
        indx_loop p q poly e (n + 1) indx
      }
      else Some indx)"
  by pat_completeness auto
termination by (relation "measure (\<lambda>(p, q, poly, e, n, indx). q - n)") auto

function succ_loop :: "nat \<Rightarrow> nat \<Rightarrow> nat list \<Rightarrow> nat \<Rightarrow> nat \<Rightarrow> nat list \<Rightarrow> nat list option" where
  "succ_loop p q indx e f succ =
     (if e < q
      then do {
        i \<leftarrow> rd indx e;
        v \<leftarrow> rd indx (if e < f then e + 1 else e + 1 - p);
        succ \<leftarrow> put succ i v;
        succ_loop p q indx (e + 1) (if e < f then f else f + p) succ
      }
      else Some succ)"
  by pat_completeness auto
termination by (relation "measure (\<lambda>(p, q, indx, e, f, succ). q - e)") auto

declare indx_loop.simps [simp del] succ_loop.simps [simp del]

text \<open>The two buffers hold \<open>q\<close> values each and are zero when they are allocated.\<close>

definition succ_table :: "nat \<Rightarrow> nat \<Rightarrow> nat \<Rightarrow> nat list option" where
  "succ_table p q poly =
     do {
       indx \<leftarrow> put (replicate q 0) 0 0;
       indx \<leftarrow> indx_loop p q poly 1 0 indx;
       succ \<leftarrow> put (replicate q 0) 0 (u16 (q - 1));
       succ_loop p q indx 1 (p - 1) succ
     }"

definition FiniteFieldBySize :: "ffdata \<Rightarrow> fflib \<Rightarrow> nat \<Rightarrow> ffstate \<Rightarrow> (nat \<times> ffstate) option" where
  "FiniteFieldBySize D L q st =
     do {
       ff \<leftarrow> LookupPrimePower D q;
       if ff = 0 then Some (0, st)
       else if elm_plist (TypeFF0 st) ff \<noteq> None then Some (ff, st)
       else do {
         let p = CHAR_FF D ff;
         poly \<leftarrow> field_poly D L ff p q;
         succ \<leftarrow> succ_table p q poly;
         Some (ff, st\<lparr>SuccFF := ass_plist (SuccFF st) ff succ,
                      TypeFF := ass_plist (TypeFF st) ff (TYPE_FFE L p),
                      TypeFF0 := ass_plist (TypeFF0 st) ff (TYPE_FFE0 L p)\<rparr>)
       }
     }"

definition FiniteField :: "ffdata \<Rightarrow> fflib \<Rightarrow> nat \<Rightarrow> nat \<Rightarrow> ffstate \<Rightarrow> (nat \<times> ffstate) option" where
  "FiniteField D L p d st =
     do {
       let q = ((\<lambda>q. (q * p) mod 2 ^ 64) ^^ d) 1;
       (ff, st) \<leftarrow> FiniteFieldBySize D L q st;
       Some (if ff \<noteq> 0 \<and> CHAR_FF D ff \<noteq> p then 0 else ff, st)
     }"

partial_function (option) degree_loop :: "nat \<Rightarrow> nat \<Rightarrow> nat \<Rightarrow> nat option" where
  "degree_loop d1 d2 d = (if d mod d2 \<noteq> 0 then degree_loop d1 d2 (d + d1) else Some d)"

definition CommonFF :: "ffdata \<Rightarrow> fflib \<Rightarrow> nat \<Rightarrow> nat \<Rightarrow> nat \<Rightarrow> nat \<Rightarrow> ffstate \<Rightarrow> (nat \<times> ffstate) option" where
  "CommonFF D L f1 d1 f2 d2 st =
     (if f1 = f2 then Some (f1, st)
      else let p = CHAR_FF D f1
           in if p \<noteq> CHAR_FF D f2 then Some (0, st)
              else if DEGR_FF D f1 mod d2 = 0 then Some (f1, st)
              else if DEGR_FF D f2 mod d1 = 0 then Some (f2, st)
              else do { d \<leftarrow> degree_loop d1 d2 d1; FiniteField D L p d st })"

subsection \<open>Characteristic, degree and comparison\<close>

definition CharFFE :: "ffdata \<Rightarrow> UInt \<Rightarrow> nat" where
  "CharFFE D ffe = CHAR_FF D (FLD_FFE D ffe)"

text \<open>
  The search for the minimal field of a nonzero value \<open>v\<close> of a field with \<open>q\<close> elements: its size \<open>m\<close> and degree \<open>d\<close>. The
  loops of the comparisons have the same text without the degree.
\<close>

partial_function (option) minimal_loop :: "nat \<Rightarrow> nat \<Rightarrow> nat \<Rightarrow> nat \<Rightarrow> nat \<Rightarrow> (nat \<times> nat) option" where
  "minimal_loop p q v m d =
     (if (q - 1) mod (m - 1) \<noteq> 0 \<or> (v - 1) mod ((q - 1) div (m - 1)) \<noteq> 0
      then minimal_loop p q v (m * p) (d + 1)
      else Some (m, d))"

declare degree_loop.simps [code] minimal_loop.simps [code]

definition DegreeFFE :: "ffdata \<Rightarrow> UInt \<Rightarrow> nat option" where
  "DegreeFFE D ffe =
     (let val = VAL_FFE D ffe; fld = FLD_FFE D ffe; q = SIZE_FF D fld; p = CHAR_FF D fld
      in if val = 0 then Some 1
         else do { (m, d) \<leftarrow> minimal_loop p q val p 1; Some d })"

definition FuncCHAR_FFE_DEFAULT :: "ffdata \<Rightarrow> UInt \<Rightarrow> UInt" where
  "FuncCHAR_FFE_DEFAULT D ffe = INTOBJ_INT (int (CHAR_FF D (FLD_FFE D ffe)))"

definition FuncDEGREE_FFE_DEFAULT :: "ffdata \<Rightarrow> UInt \<Rightarrow> UInt option" where
  "FuncDEGREE_FFE_DEFAULT D ffe = do { d \<leftarrow> DegreeFFE D ffe; Some (INTOBJ_INT (int d)) }"

definition TypeFFE :: "ffdata \<Rightarrow> ffstate \<Rightarrow> UInt \<Rightarrow> UInt option" where
  "TypeFFE D st ffe =
     elm_plist (if VAL_FFE D ffe = 0 then TypeFF0 st else TypeFF st) (FLD_FFE D ffe)"

definition EqFFE :: "ffdata \<Rightarrow> UInt \<Rightarrow> UInt \<Rightarrow> bool option" where
  "EqFFE D opL opR =
     (let vL = VAL_FFE D opL; vR = VAL_FFE D opR; fL = FLD_FFE D opL; fR = FLD_FFE D opR
      in if fL = fR then Some (vL = vR)
         else let pL = CHAR_FF D fL; pR = CHAR_FF D fR
         in if pL \<noteq> pR then Some False
         else if vL = 0 \<or> vR = 0 then Some (vL = 0 \<and> vR = 0)
         else let qL = SIZE_FF D fL; qR = SIZE_FF D fR
         in do {
           (mL, dL) \<leftarrow> minimal_loop pL qL vL pL 1;
           (mR, dR) \<leftarrow> minimal_loop pR qR vR pR 1;
           Some (if mL \<noteq> mR then False
                 else (vL - 1) div ((qL - 1) div (mL - 1)) = (vR - 1) div ((qR - 1) div (mR - 1)))
         })"

definition LtFFE :: "ffdata \<Rightarrow> fflib \<Rightarrow> UInt \<Rightarrow> UInt \<Rightarrow> bool option" where
  "LtFFE D L opL opR =
     (let vL = VAL_FFE D opL; vR = VAL_FFE D opR; fL = FLD_FFE D opL; fR = FLD_FFE D opR;
          pL = CHAR_FF D fL; pR = CHAR_FF D fR
      in if pL \<noteq> pR then Some (LtOper L opL opR)
         else if vL = 0 \<or> vR = 0 then Some (vL = 0 \<and> vR \<noteq> 0)
         else let qL = SIZE_FF D fL; qR = SIZE_FF D fR
         in if qL = pL \<and> qR = pR then Some (vL < vR)
         else do {
           (mL, dL) \<leftarrow> minimal_loop pL qL vL pL 1;
           (mR, dR) \<leftarrow> minimal_loop pR qR vR pR 1;
           Some (if mL \<noteq> mR then mL < mR
                 else (vL - 1) div ((qL - 1) div (mL - 1)) < (vR - 1) div ((qR - 1) div (mR - 1)))
         })"

text \<open>Printing: the calls of \<open>Pr\<close> with the format and the first argument.\<close>

datatype pr_call = Pr string int

definition PrFFV :: "ffdata \<Rightarrow> nat \<Rightarrow> nat \<Rightarrow> pr_call list option" where
  "PrFFV D fld val =
     (let q = SIZE_FF D fld; p = CHAR_FF D fld
      in if val = 0 then Some [Pr ''%>0*Z(%>%d%2<)'' (int p)]
         else do {
           (m, d) \<leftarrow> minimal_loop p q val p 1;
           let val = u16 ((val - 1) div ((q - 1) div (m - 1)) + 1);
           Some ([Pr ''%>Z(%>%d%<'' (int p)]
                 @ (if d = 1 then [Pr ''%<)'' 0] else [Pr ''^%>%d%2<)'' (int d)])
                 @ (if val \<noteq> 2 then [Pr ''^%>%d%<'' (int (val - 1))] else []))
         })"

definition PrFFE :: "ffdata \<Rightarrow> UInt \<Rightarrow> pr_call list option" where
  "PrFFE D ffe = PrFFV D (FLD_FFE D ffe) (VAL_FFE D ffe)"

end
