(* ===== verification/FinFieldOps.thy ===== *)
theory FinFieldOps
  imports FinField
begin

text \<open>
  The operations of \<open>src/src/finfield.c\<close> on finite field elements: sums, differences, products and quotients of two
  elements or of an element and an immediate integer, powers, logarithms, conversion to an integer, and the
  GAP-level constructor \<open>Z\<close>. An operation takes the state and returns its result, an error or a handle, with the
  new state; a \<open>Fail\<close> is \<open>None\<close> inside the result.
\<close>

subsection \<open>Two elements\<close>

text \<open>
  The conversion of two operands to a common field, which the four operations and the logarithm begin with: the
  field (0 when there is none, and the operation goes to the library) and the two values in it.
\<close>

definition common_field :: "ffdata \<Rightarrow> fflib \<Rightarrow> UInt \<Rightarrow> UInt \<Rightarrow> ffstate \<Rightarrow> ((nat \<times> nat \<times> nat) \<times> ffstate) option" where
  "common_field D L opL opR st =
     (let vL = VAL_FFE D opL; vR = VAL_FFE D opR;
          fL = FLD_FFE D opL; qL = SIZE_FF D fL; fR = FLD_FFE D opR; qR = SIZE_FF D fR
      in if qL = qR then Some ((fL, vL, vR), st)
         else if qL mod qR = 0 \<and> (qL - 1) mod (qR - 1) = 0
         then Some ((fL, vL, if vR \<noteq> 0 then u16 ((qL - 1) div (qR - 1) * (vR - 1) + 1) else vR), st)
         else if qR mod qL = 0 \<and> (qR - 1) mod (qL - 1) = 0
         then Some ((fR, if vL \<noteq> 0 then u16 ((qR - 1) div (qL - 1) * (vL - 1) + 1) else vL, vR), st)
         else do {
           dL \<leftarrow> DegreeFFE D opL;
           dR \<leftarrow> DegreeFFE D opR;
           (fX, st) \<leftarrow> CommonFF D L fL dL fR dR st;
           if fX = 0 then Some ((0, vL, vR), st)
           else let qX = SIZE_FF D fX
                in Some ((fX, if vL \<noteq> 0 then u16 (((qX - 1) * (vL - 1)) div (qL - 1) + 1) else vL,
                              if vR \<noteq> 0 then u16 (((qX - 1) * (vR - 1)) div (qR - 1) + 1) else vR), st)
         })"

text \<open>The message of a division by zero.\<close>

definition zero_divisor :: string where
  "zero_divisor = ''FFE operations: <divisor> must not be zero''"

definition SumFFEFFE :: "ffdata \<Rightarrow> fflib \<Rightarrow> UInt \<Rightarrow> UInt \<Rightarrow> ffstate \<Rightarrow> (UInt result \<times> ffstate) option" where
  "SumFFEFFE D L opL opR st =
     do {
       ((fX, vL, vR), st) \<leftarrow> common_field D L opL opR st;
       if fX = 0 then Some (SUM_FFE_LARGE L opL opR, st)
       else do {
         f \<leftarrow> SUCC_FF st fX;
         let vX = SUM_FFV vL vR f;
         Some (Inr (NEW_FFE D fX vX), st)
       }
     }"

definition DiffFFEFFE :: "ffdata \<Rightarrow> fflib \<Rightarrow> UInt \<Rightarrow> UInt \<Rightarrow> ffstate \<Rightarrow> (UInt result \<times> ffstate) option" where
  "DiffFFEFFE D L opL opR st =
     do {
       ((fX, vL, vR), st) \<leftarrow> common_field D L opL opR st;
       if fX = 0 then Some (DIFF_FFE_LARGE L opL opR, st)
       else do {
         f \<leftarrow> SUCC_FF st fX;
         let vR = NEG_FFV vR f;
         let vX = SUM_FFV vL vR f;
         Some (Inr (NEW_FFE D fX vX), st)
       }
     }"

definition ProdFFEFFE :: "ffdata \<Rightarrow> fflib \<Rightarrow> UInt \<Rightarrow> UInt \<Rightarrow> ffstate \<Rightarrow> (UInt result \<times> ffstate) option" where
  "ProdFFEFFE D L opL opR st =
     do {
       ((fX, vL, vR), st) \<leftarrow> common_field D L opL opR st;
       if fX = 0 then Some (PROD_FFE_LARGE L opL opR, st)
       else do {
         f \<leftarrow> SUCC_FF st fX;
         let vX = PROD_FFV vL vR f;
         Some (Inr (NEW_FFE D fX vX), st)
       }
     }"

definition QuoFFEFFE :: "ffdata \<Rightarrow> fflib \<Rightarrow> UInt \<Rightarrow> UInt \<Rightarrow> ffstate \<Rightarrow> (UInt result \<times> ffstate) option" where
  "QuoFFEFFE D L opL opR st =
     do {
       ((fX, vL, vR), st) \<leftarrow> common_field D L opL opR st;
       if fX = 0 then Some (QUO_FFE_LARGE L opL opR, st)
       else if vR = 0 then Some (Inl zero_divisor, st)
       else do {
         f \<leftarrow> SUCC_FF st fX;
         let vX = QUO_FFV vL vR f;
         Some (Inr (NEW_FFE D fX vX), st)
       }
     }"

subsection \<open>An element and an immediate integer\<close>

text \<open>
  The integer as a value of the field with successor table \<open>sX\<close>: its least residue modulo the characteristic,
  counted up from one.
\<close>

fun count_up :: "nat list \<Rightarrow> nat \<Rightarrow> nat \<Rightarrow> nat option" where
  "count_up sX v vX = (if 1 < vX then do { v \<leftarrow> rd sX v; count_up sX v (vX - 1) } else Some v)"

declare count_up.simps [simp del]

definition int_ffv :: "nat \<Rightarrow> nat list \<Rightarrow> UInt \<Rightarrow> nat option" where
  "int_ffv pX sX opr =
     (let vX = nat (((INT_INTOBJ opr smod int pX) + int pX) smod int pX)
      in if vX = 0 then Some 0 else count_up sX 1 vX)"

definition SumFFEInt :: "ffdata \<Rightarrow> ffstate \<Rightarrow> UInt \<Rightarrow> UInt \<Rightarrow> UInt result option" where
  "SumFFEInt D st opL opR =
     do {
       let fX = FLD_FFE D opL;
       let pX = CHAR_FF D fX;
       sX \<leftarrow> SUCC_FF st fX;
       vR \<leftarrow> int_ffv pX sX opR;
       let vL = VAL_FFE D opL;
       Some (Inr (NEW_FFE D fX (SUM_FFV vL vR sX)))
     }"

definition SumIntFFE :: "ffdata \<Rightarrow> ffstate \<Rightarrow> UInt \<Rightarrow> UInt \<Rightarrow> UInt result option" where
  "SumIntFFE D st opL opR =
     do {
       let fX = FLD_FFE D opR;
       let pX = CHAR_FF D fX;
       sX \<leftarrow> SUCC_FF st fX;
       vL \<leftarrow> int_ffv pX sX opL;
       let vR = VAL_FFE D opR;
       Some (Inr (NEW_FFE D fX (SUM_FFV vL vR sX)))
     }"

definition DiffFFEInt :: "ffdata \<Rightarrow> ffstate \<Rightarrow> UInt \<Rightarrow> UInt \<Rightarrow> UInt result option" where
  "DiffFFEInt D st opL opR =
     do {
       let fX = FLD_FFE D opL;
       let pX = CHAR_FF D fX;
       sX \<leftarrow> SUCC_FF st fX;
       vR \<leftarrow> int_ffv pX sX opR;
       let vL = VAL_FFE D opL;
       let vR = NEG_FFV vR sX;
       Some (Inr (NEW_FFE D fX (SUM_FFV vL vR sX)))
     }"

definition DiffIntFFE :: "ffdata \<Rightarrow> ffstate \<Rightarrow> UInt \<Rightarrow> UInt \<Rightarrow> UInt result option" where
  "DiffIntFFE D st opL opR =
     do {
       let fX = FLD_FFE D opR;
       let pX = CHAR_FF D fX;
       sX \<leftarrow> SUCC_FF st fX;
       vL \<leftarrow> int_ffv pX sX opL;
       let vR = VAL_FFE D opR;
       let vR = NEG_FFV vR sX;
       Some (Inr (NEW_FFE D fX (SUM_FFV vL vR sX)))
     }"

definition ProdFFEInt :: "ffdata \<Rightarrow> ffstate \<Rightarrow> UInt \<Rightarrow> UInt \<Rightarrow> UInt result option" where
  "ProdFFEInt D st opL opR =
     do {
       let fX = FLD_FFE D opL;
       let pX = CHAR_FF D fX;
       sX \<leftarrow> SUCC_FF st fX;
       vR \<leftarrow> int_ffv pX sX opR;
       let vL = VAL_FFE D opL;
       Some (Inr (NEW_FFE D fX (PROD_FFV vL vR sX)))
     }"

definition ProdIntFFE :: "ffdata \<Rightarrow> ffstate \<Rightarrow> UInt \<Rightarrow> UInt \<Rightarrow> UInt result option" where
  "ProdIntFFE D st opL opR =
     do {
       let fX = FLD_FFE D opR;
       let pX = CHAR_FF D fX;
       sX \<leftarrow> SUCC_FF st fX;
       vL \<leftarrow> int_ffv pX sX opL;
       let vR = VAL_FFE D opR;
       Some (Inr (NEW_FFE D fX (PROD_FFV vL vR sX)))
     }"

definition QuoFFEInt :: "ffdata \<Rightarrow> ffstate \<Rightarrow> UInt \<Rightarrow> UInt \<Rightarrow> UInt result option" where
  "QuoFFEInt D st opL opR =
     do {
       let fX = FLD_FFE D opL;
       let pX = CHAR_FF D fX;
       sX \<leftarrow> SUCC_FF st fX;
       vR \<leftarrow> int_ffv pX sX opR;
       let vL = VAL_FFE D opL;
       if vR = 0 then Some (Inl zero_divisor)
       else Some (Inr (NEW_FFE D fX (QUO_FFV vL vR sX)))
     }"

definition QuoIntFFE :: "ffdata \<Rightarrow> ffstate \<Rightarrow> UInt \<Rightarrow> UInt \<Rightarrow> UInt result option" where
  "QuoIntFFE D st opL opR =
     do {
       let fX = FLD_FFE D opR;
       let pX = CHAR_FF D fX;
       sX \<leftarrow> SUCC_FF st fX;
       vL \<leftarrow> int_ffv pX sX opL;
       let vR = VAL_FFE D opR;
       if vR = 0 then Some (Inl zero_divisor)
       else Some (Inr (NEW_FFE D fX (QUO_FFV vL vR sX)))
     }"

subsection \<open>One element\<close>

definition ZeroFFE :: "ffdata \<Rightarrow> UInt \<Rightarrow> UInt" where
  "ZeroFFE D op = NEW_FFE D (FLD_FFE D op) 0"

definition AInvFFE :: "ffdata \<Rightarrow> ffstate \<Rightarrow> UInt \<Rightarrow> UInt option" where
  "AInvFFE D st op =
     do {
       let fX = FLD_FFE D op;
       sX \<leftarrow> SUCC_FF st fX;
       Some (NEW_FFE D fX (NEG_FFV (VAL_FFE D op) sX))
     }"

definition OneFFE :: "ffdata \<Rightarrow> UInt \<Rightarrow> UInt" where
  "OneFFE D op = NEW_FFE D (FLD_FFE D op) 1"

definition InvFFE :: "ffdata \<Rightarrow> ffstate \<Rightarrow> UInt \<Rightarrow> UInt option option" where
  "InvFFE D st op =
     do {
       let fX = FLD_FFE D op;
       sX \<leftarrow> SUCC_FF st fX;
       let v = VAL_FFE D op;
       Some (if v = 0 then None else Some (NEW_FFE D fX (QUO_FFV 1 v sX)))
     }"

subsection \<open>Powers\<close>

definition PowFFEInt :: "ffdata \<Rightarrow> ffstate \<Rightarrow> UInt \<Rightarrow> UInt \<Rightarrow> UInt result option" where
  "PowFFEInt D st opL opR =
     do {
       let fX = FLD_FFE D opL;
       sX \<leftarrow> SUCC_FF st fX;
       let vR = INT_INTOBJ opR;
       let vL = VAL_FFE D opL;
       if vR < 0 \<and> vL = 0 then Some (Inl zero_divisor)
       else do {
         let vL = (if vR < 0 then QUO_FFV 1 vL sX else vL);
         let vR = (if vR < 0 then - vR else vR);
         if vL = 0 then Some (Inr (NEW_FFE D fX (if vR = 0 then 1 else 0)))
         else do {
           q1 \<leftarrow> rd sX 0;
           let vR = vR smod int q1;
           Some (Inr (NEW_FFE D fX (POW_FFV vL (nat vR) sX)))
         }
       }
     }"

definition PowFFEFFE :: "ffdata \<Rightarrow> UInt \<Rightarrow> UInt \<Rightarrow> UInt result" where
  "PowFFEFFE D opL opR =
     (if CHAR_FF D (FLD_FFE D opL) \<noteq> CHAR_FF D (FLD_FFE D opR)
      then Inl ''<x> and <y> have different characteristic''
      else Inr opL)"

subsection \<open>Logarithms\<close>

text \<open>The loop of the extended Euclidean algorithm, with the quotient of C; it ends with \<open>a\<close> and \<open>c\<close>.\<close>

function log_gcd :: "int \<Rightarrow> int \<Rightarrow> int \<Rightarrow> int \<Rightarrow> int \<times> int" where
  "log_gcd a b c d =
     (if d \<noteq> 0 then log_gcd b (a - (c sdiv d) * b) d (c - (c sdiv d) * d) else (a, c))"
  by pat_completeness auto
termination
proof (relation "measure (\<lambda>(a, b, c, d). nat \<bar>d\<bar>)", goal_cases)
  case (2 a b c d)
  have "\<bar>c smod d\<bar> < \<bar>d\<bar>"
    using 2 by (simp add: smod_int_alt_def abs_mult abs_sgn_eq)
  then show ?case by (simp add: minus_sdiv_mult_eq_smod)
qed simp

declare log_gcd.simps [simp del]

text \<open>
  The loop that makes the cofactor nonnegative adds an unsigned number to a signed one: the sum is formed
  in \<open>UInt\<close> and read as \<open>Int\<close> again.
\<close>

partial_function (option) make_nonneg :: "UInt \<Rightarrow> UInt \<Rightarrow> UInt option" where
  "make_nonneg a s = (if sint a < 0 then make_nonneg (a + s) s else Some a)"

declare make_nonneg.simps [code]

text \<open>The last product and remainder are unsigned, so that they would wrap for a negative cofactor.\<close>

definition FuncLOG_FFE_DEFAULT :: "ffdata \<Rightarrow> fflib \<Rightarrow> UInt \<Rightarrow> UInt \<Rightarrow> ffstate \<Rightarrow> (UInt option result \<times> ffstate) option" where
  "FuncLOG_FFE_DEFAULT D L opZ opR st =
     (if \<not> IS_FFE opZ \<or> VAL_FFE D opZ = 0
      then Some (Inl ''LogFFE: <z> must be a nonzero finite field element'', st)
      else if \<not> IS_FFE opR \<or> VAL_FFE D opR = 0
      then Some (Inl ''LogFFE: <r> must be a nonzero finite field element'', st)
      else do {
        ((fX, vZ, vR), st) \<leftarrow> common_field D L opZ opR st;
        if fX = 0 then Some (LOG_FFE_LARGE L opZ opR, st)
        else do {
          let qX = (word_of_nat (SIZE_FF D fX) :: UInt);
          let (a, c) = log_gcd 1 0 (int vR - 1) (sint (qX - 1));
          if (int vZ - 1) smod c \<noteq> 0 then Some (Inr None, st)
          else do {
            a \<leftarrow> make_nonneg (word_of_int a) ((qX - 1) div word_of_int c);
            Some (Inr (Some (INTOBJ_INT (sint ((word_of_int (int vZ - 1) div word_of_int c * a) mod (qX - 1))))), st)
          }
        }
      })"

subsection \<open>Conversion to an integer\<close>

function int_loop :: "nat list \<Rightarrow> nat \<Rightarrow> nat \<Rightarrow> nat \<Rightarrow> nat \<Rightarrow> UInt option list \<Rightarrow> UInt option list option" where
  "int_loop succ p q i z conv =
     (if i < p
      then do {
        conv \<leftarrow> put conv ((z - 1) div ((q - 1) div (p - 1)) + 1) (Some (INTOBJ_INT (int i)));
        z \<leftarrow> rd succ z;
        int_loop succ p q (i + 1) z conv
      }
      else Some conv)"
  by pat_completeness auto
termination by (relation "measure (\<lambda>(s, p, q, i, z, c). p - i)") auto

declare int_loop.simps [simp del]

definition INT_FF :: "ffdata \<Rightarrow> nat \<Rightarrow> ffstate \<Rightarrow> (UInt option list \<times> ffstate) option" where
  "INT_FF D ff st =
     do {
       st \<leftarrow>
         (if length (IntFF st) - 1 < ff \<or> elm_plist (IntFF st) ff = None
          then do {
            let q = SIZE_FF D ff;
            let p = CHAR_FF D ff;
            succ \<leftarrow> SUCC_FF st ff;
            conv \<leftarrow> int_loop succ p q 1 1 (replicate p None);
            Some (st\<lparr>IntFF := ass_plist (IntFF st) ff conv\<rparr>)
          }
          else Some st);
       conv \<leftarrow> elm_plist (IntFF st) ff;
       Some (conv, st)
     }"

definition FuncINT_FFE_DEFAULT :: "ffdata \<Rightarrow> UInt \<Rightarrow> ffstate \<Rightarrow> (UInt result \<times> ffstate) option" where
  "FuncINT_FFE_DEFAULT D z st =
     (let v = VAL_FFE D z
      in if v = 0 then Some (Inr (INTOBJ_INT 0), st)
         else do {
           let ff = FLD_FFE D z;
           let q = SIZE_FF D ff;
           let p = CHAR_FF D ff;
           (conv, st) \<leftarrow> INT_FF D ff st;
           if (v - 1) mod ((q - 1) div (p - 1)) \<noteq> 0
           then Some (Inl ''IntFFE: <z> must lie in prime field'', st)
           else do {
             let v = u16 ((v - 1) div ((q - 1) div (p - 1)) + 1);
             i \<leftarrow> elm_plist conv v;
             Some (Inr i, st)
           }
         })"

subsection \<open>The generator of a field\<close>

text \<open>The argument is an integer object or, \<open>None\<close>, an object of another type.\<close>

definition prime_power_message :: string where
  "prime_power_message = ''Z: <q> must be a positive prime power''"

definition FuncZ :: "ffdata \<Rightarrow> fflib \<Rightarrow> gapint option \<Rightarrow> ffstate \<Rightarrow> (UInt result \<times> ffstate) option" where
  "FuncZ D L q st =
     (case q of
        Some (T_INTPOS l) \<Rightarrow> Some (ZOp1 L (T_INTPOS l), st)
      | Some (T_INT w) \<Rightarrow>
          if int (MAXSIZE_GF_INTERNAL D) < INT_INTOBJ w then Some (ZOp1 L (T_INT w), st)
          else if INT_INTOBJ w \<le> 1 then Some (Inl prime_power_message, st)
          else do {
            (ff, st) \<leftarrow> FiniteFieldBySize D L (nat (INT_INTOBJ w)) st;
            Some (if ff = 0 then Inl prime_power_message
                  else Inr (NEW_FFE D ff (if w = INTOBJ_INT 2 then 1 else 2)), st)
          }
      | _ \<Rightarrow> Some (Inl prime_power_message, st))"

fun z_power :: "ffdata \<Rightarrow> nat \<Rightarrow> nat \<Rightarrow> nat \<Rightarrow> nat" where
  "z_power D ip (Suc id1) q =
     (if 0 < id1 \<and> q \<le> MAXSIZE_GF_INTERNAL D then z_power D ip id1 (q * ip) else q)"
| "z_power D ip 0 q = q"

definition FuncZ2 :: "ffdata \<Rightarrow> fflib \<Rightarrow> gapint option \<Rightarrow> gapint option \<Rightarrow> ffstate \<Rightarrow> (UInt result \<times> ffstate) option" where
  "FuncZ2 D L p d st =
     (case (p, d) of
        (Some (T_INT wp), Some (T_INT wd)) \<Rightarrow>
          let ip = INT_INTOBJ wp; idg = INT_INTOBJ wd
          in if 1 < ip \<and> 0 < idg \<and> idg \<le> int (DEGREE_LARGEST_INTERNAL_FF D) \<and> ip \<le> int (MAXSIZE_GF_INTERNAL D)
             then let q = z_power D (nat ip) (nat idg) (nat ip)
                  in if q \<le> MAXSIZE_GF_INTERNAL D
                     then do {
                       (ff, st) \<leftarrow> FiniteFieldBySize D L q st;
                       Some (if ff = 0 \<or> int (CHAR_FF D ff) \<noteq> ip then Inl ''Z: <p> must be a prime''
                             else Inr (NEW_FFE D ff (if q = 2 then 1 else 2)), st)
                     }
                     else Some (ZOp2 L p d, st)
             else Some (ZOp2 L p d, st)
      | _ \<Rightarrow> Some (ZOp2 L p d, st))"

end
