(* ===== verification/FinFieldZech.thy ===== *)
theory FinFieldZech
  imports FinField
begin

text \<open>
  Arithmetic on values with a successor table, for any finite field given as an additive group with a generator \<open>u\<close>
  moved around all nonzero elements by an additive map \<open>T\<close>, multiplication by the root of the field. The locale is
  interpreted on the polynomial representation in \<open>FinFieldPoly\<close>.
\<close>

locale cyclic_field =
  fixes add :: "'m \<Rightarrow> 'm \<Rightarrow> 'm" and zero u :: 'm and T :: "'m \<Rightarrow> 'm" and q :: nat and M :: "'m set"
  assumes q: "2 \<le> q"
    and add_closed: "x \<in> M \<Longrightarrow> y \<in> M \<Longrightarrow> add x y \<in> M"
    and add_comm: "x \<in> M \<Longrightarrow> y \<in> M \<Longrightarrow> add x y = add y x"
    and add_assoc: "x \<in> M \<Longrightarrow> y \<in> M \<Longrightarrow> z \<in> M \<Longrightarrow> add (add x y) z = add x (add y z)"
    and add_zero: "x \<in> M \<Longrightarrow> add x zero = x"
    and add_inverse: "x \<in> M \<Longrightarrow> \<exists>y\<in>M. add x y = zero"
    and T_add: "x \<in> M \<Longrightarrow> y \<in> M \<Longrightarrow> T (add x y) = add (T x) (T y)"
    and T_zero: "T zero = zero"
    and T_order: "(T ^^ (q - 1)) u = u"
    and T_inj: "inj_on (\<lambda>i. (T ^^ i) u) {..<q - 1}"
    and T_nonzero: "(T ^^ i) u \<noteq> zero"
    and M_powers: "M = insert zero ((\<lambda>i. (T ^^ i) u) ` {..<q - 1})"
    and even_double: "even q \<Longrightarrow> x \<in> M \<Longrightarrow> add x x = zero"
begin

definition elt :: "nat \<Rightarrow> 'm" where
  "elt v = (if v = 0 then zero else (T ^^ (v - 1)) u)"

definition zech :: "nat list \<Rightarrow> bool" where
  "zech f \<longleftrightarrow> length f = q \<and> f ! 0 = q - 1
     \<and> (\<forall>n. 0 < n \<longrightarrow> n < q \<longrightarrow> f ! n < q \<and> elt (f ! n) = add (elt n) u)"

lemma T_pow_pow [simp]: "(T ^^ m) ((T ^^ n) x) = (T ^^ (m + n)) x"
  by (simp add: funpow_add)

lemma T_order_add: "(T ^^ (n + (q - 1))) u = (T ^^ n) u"
  by (subst funpow_add) (simp only: o_apply T_order)

lemma T_order_mult: "(T ^^ (n + k * (q - 1))) u = (T ^^ n) u"
proof (induction k)
  case (Suc k)
  have "n + Suc k * (q - 1) = (n + k * (q - 1)) + (q - 1)" by simp
  then show ?case using T_order_add [of "n + k * (q - 1)"] Suc by metis
qed simp

lemma T_mod: "(T ^^ n) u = (T ^^ (n mod (q - 1))) u"
  using T_order_mult [of "n mod (q - 1)" "n div (q - 1)"] by (simp only: mod_div_mult_eq)

lemma T_pow_eq_iff: "(T ^^ m) u = (T ^^ n) u \<longleftrightarrow> m mod (q - 1) = n mod (q - 1)"
proof
  assume "(T ^^ m) u = (T ^^ n) u"
  then have "(T ^^ (m mod (q - 1))) u = (T ^^ (n mod (q - 1))) u" using T_mod by metis
  then show "m mod (q - 1) = n mod (q - 1)" using T_inj q by (auto simp: inj_on_def)
qed (metis T_mod)

lemma pow_in [simp, intro]: "(T ^^ n) u \<in> M"
proof -
  have "n mod (q - 1) < q - 1" using q by simp
  then show ?thesis by (subst T_mod) (auto simp: M_powers)
qed

lemma zero_in [simp, intro]: "zero \<in> M" by (simp add: M_powers)

lemma u_in [simp, intro]: "u \<in> M" using pow_in [of 0] by simp

lemma elt_in [simp, intro]: "elt v \<in> M" by (auto simp: elt_def)

lemma T_in [intro]: "x \<in> M \<Longrightarrow> T x \<in> M"
proof -
  assume "x \<in> M"
  then consider "x = zero" | i where "x = (T ^^ i) u" by (auto simp: M_powers)
  then show ?thesis
  proof cases
    case 2
    then show ?thesis using pow_in [of "Suc i"] by simp
  qed (simp add: T_zero)
qed

lemma T_pow_in [intro]: "x \<in> M \<Longrightarrow> (T ^^ n) x \<in> M"
  by (induction n) auto

lemma T_pow_add: "x \<in> M \<Longrightarrow> y \<in> M \<Longrightarrow> (T ^^ n) (add x y) = add ((T ^^ n) x) ((T ^^ n) y)"
  by (induction n) (auto simp: T_add T_pow_in)

lemma T_pow_zero [simp]: "(T ^^ n) zero = zero"
  by (induction n) (simp_all add: T_zero)

lemma zero_add: "x \<in> M \<Longrightarrow> add zero x = x"
  using add_comm [of zero x] add_zero by simp

lemma elt_0 [simp]: "elt 0 = zero" and elt_1 [simp]: "elt (Suc 0) = u"
  by (simp_all add: elt_def)

lemma T_pow_elt: "0 < v \<Longrightarrow> (T ^^ n) (elt v) = (T ^^ (n + (v - 1))) u"
  by (simp add: elt_def)

lemma elt_inj: "v < q \<Longrightarrow> w < q \<Longrightarrow> elt v = elt w \<longleftrightarrow> v = w"
proof -
  assume "v < q" "w < q"
  moreover have "v - 1 < q - 1" "w - 1 < q - 1" if "0 < v" "0 < w" using that calculation by auto
  ultimately show ?thesis using T_nonzero T_nonzero [symmetric] by (auto simp: elt_def T_pow_eq_iff)
qed

lemma elt_surj: "x \<in> M \<Longrightarrow> \<exists>v<q. elt v = x"
proof -
  assume "x \<in> M"
  then consider "x = zero" | i where "i < q - 1" "x = (T ^^ i) u" by (auto simp: M_powers)
  then show ?thesis
  proof cases
    case 1
    then show ?thesis using q by (intro exI [of _ 0]) simp
  next
    case 2
    then show ?thesis by (intro exI [of _ "Suc i"]) (auto simp: elt_def)
  qed
qed

lemma elt_bij: "bij_betw elt {..<q} M"
  unfolding bij_betw_def using elt_inj elt_surj by (fastforce simp: inj_on_def)

subsection \<open>Products and quotients\<close>

lemma zech_0: "zech f \<Longrightarrow> f ! 0 = q - 1"
  by (simp add: zech_def)

lemma PROD_FFV_correct:
  assumes f: "zech f" and a: "a < q" and b: "b < q"
  shows "PROD_FFV a b f < q" "elt (PROD_FFV a b f) = (if a = 0 then zero else (T ^^ (a - 1)) (elt b))"
proof -
  have f0: "f ! 0 = q - 1" using f by (rule zech_0)
  show "PROD_FFV a b f < q" using a b q by (auto simp: PROD_FFV_def f0 Let_def)
  show "elt (PROD_FFV a b f) = (if a = 0 then zero else (T ^^ (a - 1)) (elt b))"
  proof (cases "a = 0 \<or> b = 0")
    case True
    then show ?thesis by (auto simp: PROD_FFV_def)
  next
    case False
    show ?thesis
    proof (cases "a - 1 \<le> q - 1 - b")
      case True
      then have "PROD_FFV a b f = Suc (a - 1 + (b - 1))" using False by (simp add: PROD_FFV_def f0) linarith
      then show ?thesis using False by (simp add: elt_def)
    next
      case big: False
      have "a - 1 + (b - 1) = (a - 1 - (q - 1 - b) - 1) + (q - 1)" using big False a b by simp
      then have "(T ^^ (a - 1 + (b - 1))) u = (T ^^ (a - 1 - (q - 1 - b) - 1)) u" using T_order_add by metis
      moreover have "PROD_FFV a b f = a - 1 - (q - 1 - b)" using big False by (simp add: PROD_FFV_def f0)
      moreover have "0 < a - 1 - (q - 1 - b)" using big by simp
      ultimately show ?thesis using False by (simp add: elt_def)
    qed
  qed
qed

lemma QUO_FFV_correct:
  assumes f: "zech f" and a: "a < q" and b: "0 < b" "b < q"
  shows "QUO_FFV a b f < q" "(T ^^ (b - 1)) (elt (QUO_FFV a b f)) = elt a"
proof -
  have f0: "f ! 0 = q - 1" using f by (rule zech_0)
  show "QUO_FFV a b f < q" using a b by (auto simp: QUO_FFV_def f0)
  show "(T ^^ (b - 1)) (elt (QUO_FFV a b f)) = elt a"
  proof (cases "a = 0")
    case False
    show ?thesis
    proof (cases "b \<le> a")
      case True
      then have "b - 1 + (a - b) = a - 1" using b by simp
      then show ?thesis using False b True by (simp add: QUO_FFV_def elt_def)
    next
      case lt: False
      have "b - 1 + (a + (q - 1 - b) + 1 - 1) = (a - 1) + (q - 1)" using lt False a b by simp
      then show ?thesis using lt False b T_order_add [of "a - 1"] by (simp add: QUO_FFV_def f0 elt_def)
    qed
  qed (simp add: QUO_FFV_def)
qed

lemma POW_FFV_correct:
  assumes f: "zech f" and a: "a < q" "0 < a"
  shows "POW_FFV a n f < q" "elt (POW_FFV a n f) = (T ^^ ((a - 1) * n)) u"
proof -
  have f0: "f ! 0 = q - 1" using f by (rule zech_0)
  have "(a - 1) * n mod (q - 1) < q - 1" using q by simp
  then have "(a - 1) * n mod (q - 1) + 1 < q" by linarith
  then show "POW_FFV a n f < q" using q by (simp add: POW_FFV_def f0 Let_def)
  show "elt (POW_FFV a n f) = (T ^^ ((a - 1) * n)) u"
  proof (cases "n = 0")
    case False
    then have "POW_FFV a n f = Suc ((a - 1) * n mod (q - 1))" using a by (simp add: POW_FFV_def f0)
    then show ?thesis unfolding T_mod [of "(a - 1) * n"] by (simp only: elt_def) simp
  qed (simp add: POW_FFV_def)
qed

subsection \<open>Sums and negatives\<close>

lemma SUM_FFV_correct:
  assumes f: "zech f" and a: "a < q" and b: "b < q"
  shows "SUM_FFV a b f < q" "elt (SUM_FFV a b f) = add (elt a) (elt b)"
proof -
  have main: "SUM_FFV x y f < q \<and> elt (SUM_FFV x y f) = add (elt x) (elt y) \<and> SUM_FFV y x f = SUM_FFV x y f"
    if "0 < y" "y \<le> x" "x < q" for x y
  proof -
    have n: "f ! (x - y + 1) < q" "elt (f ! (x - y + 1)) = add (elt (x - y + 1)) u"
      using f that by (auto simp: zech_def)
    have S: "SUM_FFV x y f = PROD_FFV y (f ! (x - y + 1)) f" "SUM_FFV y x f = PROD_FFV y (f ! (x - y + 1)) f"
      using that by (auto simp: SUM_FFV_def Let_def)
    have "y - 1 + (x - y) = x - 1" using that by simp
    then have "(T ^^ (y - 1)) (elt (x - y + 1)) = elt x" "(T ^^ (y - 1)) u = elt y"
      using that by (simp_all add: elt_def)
    then have "elt (PROD_FFV y (f ! (x - y + 1)) f) = add (elt x) (elt y)"
      using PROD_FFV_correct(2) [OF f _ n(1), of y] that n(2) by (simp add: T_pow_add)
    then show ?thesis using S PROD_FFV_correct(1) [OF f _ n(1), of y] that by simp
  qed
  have "SUM_FFV a b f < q \<and> elt (SUM_FFV a b f) = add (elt a) (elt b)"
  proof -
    consider "a = 0" | "b = 0" | "0 < b" "b \<le> a" | "0 < a" "a \<le> b" by linarith
    then show ?thesis
    proof cases
      case 1
      then show ?thesis using b by (simp add: SUM_FFV_def zero_add)
    next
      case 2
      then show ?thesis using a by (simp add: SUM_FFV_def add_zero)
    next
      case 3
      then show ?thesis using main a by blast
    next
      case 4
      then show ?thesis using main [of a b] b add_comm by simp
    qed
  qed
  then show "SUM_FFV a b f < q" "elt (SUM_FFV a b f) = add (elt a) (elt b)" by blast+
qed

text \<open>For odd \<open>q\<close>, half way round the powers of \<open>T\<close> is the negative.\<close>

lemma half_way:
  assumes "odd q"
  shows "add ((T ^^ ((q - 1) div 2)) u) u = zero"
proof (rule ccontr)
  let ?h = "(q - 1) div 2" and ?w = "add ((T ^^ ((q - 1) div 2)) u) u"
  have q3: "3 \<le> q" using assms q by (cases "q = 2") auto
  have h: "?h + ?h = q - 1" using assms by (simp flip: mult_2)
  assume "?w \<noteq> zero"
  moreover have "?w \<in> M" by (simp add: add_closed)
  ultimately obtain j where j: "?w = (T ^^ j) u" by (auto simp: M_powers)
  have "(T ^^ ?h) ?w = add ((T ^^ (?h + ?h)) u) ((T ^^ ?h) u)" by (simp add: T_pow_add)
  also have "\<dots> = ?w" unfolding h T_order by (rule add_comm) auto
  finally have "(T ^^ (?h + j)) u = (T ^^ j) u" unfolding j T_pow_pow .
  then have "(?h + j) mod (q - 1) = j mod (q - 1)" by (simp add: T_pow_eq_iff)
  then have "(q - 1) dvd (?h + j - j)" by (subst (asm) mod_eq_dvd_iff_nat) simp_all
  then have "q - 1 \<le> ?h" using q3 by (intro dvd_imp_le) auto
  then show False using q3 by simp
qed

lemma NEG_FFV_correct:
  assumes f: "zech f" and a: "a < q"
  shows "NEG_FFV a f < q" "add (elt (NEG_FFV a f)) (elt a) = zero"
proof -
  have f0: "f ! 0 = q - 1" using f by (rule zech_0)
  have par: "(q - 1) mod 2 = (if even q then 1 else 0)" using q by (auto simp: mod2_eq_if)
  have even: "(q - 1) div 2 + (q - 1) div 2 = q - 1" if "odd q" using that by (simp flip: mult_2)
  show "NEG_FFV a f < q" using a even by (auto simp: NEG_FFV_def f0 Let_def par)
  show "add (elt (NEG_FFV a f)) (elt a) = zero"
  proof (cases "a = 0 \<or> even q")
    case True
    then show ?thesis using even_double add_zero by (auto simp: NEG_FFV_def f0 Let_def par)
  next
    case False
    let ?h = "(q - 1) div 2"
    have "elt (NEG_FFV a f) = (T ^^ (a - 1 + ?h)) u"
    proof (cases "a \<le> ?h")
      case True
      then show ?thesis using False by (simp add: NEG_FFV_def f0 Let_def par elt_def)
    next
      case big: False
      then have "a - 1 + ?h = (a - ?h - 1) + (q - 1)" using even False by linarith
      then show ?thesis using big False T_order_add [of "a - ?h - 1"] by (simp add: NEG_FFV_def f0 Let_def par elt_def)
    qed
    moreover have "elt a = (T ^^ (a - 1)) u" using False by (simp add: elt_def)
    ultimately have "add (elt (NEG_FFV a f)) (elt a) = (T ^^ (a - 1)) (add ((T ^^ ?h) u) u)"
      by (simp add: T_pow_add)
    then show ?thesis using half_way False by simp
  qed
qed

end

end
