(* ===== verification/FinFieldTables.thy ===== *)
theory FinFieldTables
  imports FinFieldOps
begin

text \<open>
  The generated tables are right: the sieve finds the primes, the tables list exactly the prime powers up to the
  bound in increasing order with their degrees and characteristics, the widths of the packed fields suffice, and the
  interpolation search ends and finds a prime power or answers 0.
\<close>

subsection \<open>Prime numbers\<close>

definition prime_number :: "nat \<Rightarrow> bool" where
  "prime_number n \<longleftrightarrow> 2 \<le> n \<and> (\<forall>m\<in>{2..<n}. \<not> m dvd n)"

lemma prime_number_ge_2: "prime_number p \<Longrightarrow> 2 \<le> p"
  by (simp add: prime_number_def)

lemma prime_number_dvd: "prime_number p \<Longrightarrow> m dvd p \<Longrightarrow> m = 1 \<or> m = p"
proof -
  assume p: "prime_number p" and m: "m dvd p"
  then have "m \<le> p" "m \<noteq> 0" by (auto simp: prime_number_def intro: dvd_imp_le intro!: Nat.gr0I)
  with p m show ?thesis by (force simp: prime_number_def)
qed

lemma prime_number_coprime: "prime_number p \<Longrightarrow> \<not> p dvd a \<Longrightarrow> coprime p a"
proof -
  assume p: "prime_number p" and a: "\<not> p dvd a"
  have "gcd p a = 1"
    using prime_number_dvd [OF p, of "gcd p a"] a by (metis gcd_dvd1 gcd_dvd2)
  then show ?thesis by (simp add: coprime_iff_gcd_eq_1)
qed

lemma prime_number_dvd_mult: "prime_number p \<Longrightarrow> p dvd a * b \<Longrightarrow> p dvd a \<or> p dvd b"
  using prime_number_coprime coprime_dvd_mult_right_iff by blast

lemma prime_number_dvd_power: "prime_number p \<Longrightarrow> p dvd a ^ n \<Longrightarrow> p dvd a"
  using prime_number_ge_2 [of p] by (induction n) (auto dest: prime_number_dvd_mult)

lemma prime_power_inj:
  assumes "prime_number p" "prime_number p'" "0 < d" "p ^ d = p' ^ d'"
  shows "p = p'" "d = d'"
proof -
  have "p dvd p' ^ d'" using assms(3,4) by (metis dvd_power dvd_triv_left)
  then have "p dvd p'" using assms(1) by (rule prime_number_dvd_power [rotated])
  then show *: "p = p'" using prime_number_dvd [OF assms(2), of p] prime_number_ge_2 [OF assms(1)] by auto
  show "d = d'" using assms(4) prime_number_ge_2 [OF assms(1)] by (simp add: *)
qed

lemma composite_small_factor:
  assumes "2 \<le> n" "\<not> prime_number n"
  obtains m where "2 \<le> m" "m dvd n" "m * m \<le> n" "m < n"
proof -
  obtain k where k: "2 \<le> k" "k < n" "k dvd n" using assms by (auto simp: prime_number_def)
  then obtain l where l: "n = k * l" by blast
  have "l \<noteq> 0" "l \<noteq> 1" using k(2) assms(1) l by auto
  then have "2 \<le> l" by linarith
  show thesis
  proof (cases "k \<le> l")
    case True
    then show thesis using k l that [of k] by simp
  next
    case False
    then have "l * l \<le> n" "l < n" using l k by simp_all
    then show thesis using \<open>2 \<le> l\<close> l that [of l] by simp
  qed
qed

subsection \<open>The sieve\<close>

lemma strike_nth:
  "length xs = M + 1 \<Longrightarrow> 0 < i \<Longrightarrow> n \<le> M \<Longrightarrow>
   length (strike M i j xs) = M + 1 \<and> (strike M i j xs ! n \<longleftrightarrow> xs ! n \<and> \<not> (\<exists>k. n = j + k * i))"
proof (induction M i j xs rule: strike.induct)
  case (1 M i j xs)
  show ?case
  proof (cases "j \<le> M")
    case True
    have split: "(\<exists>k. n = j + k * i) \<longleftrightarrow> n = j \<or> (\<exists>k. n = j + i + k * i)"
      by (metis add.assoc add.right_neutral mult_0 mult_Suc not0_implies_Suc)
    have "length (strike M i (j + i) (xs[j := False])) = M + 1
      \<and> (strike M i (j + i) (xs[j := False]) ! n \<longleftrightarrow> xs[j := False] ! n \<and> \<not> (\<exists>k. n = j + i + k * i))"
      using 1 True by simp
    then show ?thesis
      using True 1 by (subst (1 2) strike.simps) (auto simp: split nth_list_update)
  next
    case False
    then show ?thesis using 1 by (subst (1 2) strike.simps) auto
  qed
qed

definition sieved :: "nat \<Rightarrow> nat \<Rightarrow> bool list \<Rightarrow> bool" where
  "sieved M k xs \<longleftrightarrow> length xs = M + 1
     \<and> (\<forall>n\<le>M. xs ! n \<longleftrightarrow> 2 \<le> n \<and> \<not> (\<exists>m. 2 \<le> m \<and> m < k \<and> m < n \<and> m dvd n))"

lemma proper_multiple: "0 < i \<Longrightarrow> (\<exists>k. n = 2 * i + k * i) \<longleftrightarrow> i dvd n \<and> i < n" for i n :: nat
proof safe
  assume "0 < i" "i dvd n" "i < n"
  then obtain c where c: "n = i * c" by blast
  with \<open>i < n\<close> \<open>0 < i\<close> have "2 \<le> c" by (cases c) (auto simp: Suc_le_eq)
  then have "n = 2 * i + (c - 2) * i" by (simp add: c algebra_simps flip: add_mult_distrib2)
  then show "\<exists>k. n = 2 * i + k * i" ..
qed auto

lemma sieve_step:
  assumes "sieved M i xs" "2 \<le> i" "i \<le> M"
  shows "sieved M (i + 1) (if xs ! i then strike M i (2 * i) xs else xs)"
proof (cases "xs ! i")
  case True
  have "strike M i (2 * i) xs ! n \<longleftrightarrow> 2 \<le> n \<and> \<not> (\<exists>m. 2 \<le> m \<and> m < i + 1 \<and> m < n \<and> m dvd n)" if "n \<le> M" for n
  proof -
    have *: "(\<exists>m. 2 \<le> m \<and> m < i + 1 \<and> m < n \<and> m dvd n)
      \<longleftrightarrow> (\<exists>m. 2 \<le> m \<and> m < i \<and> m < n \<and> m dvd n) \<or> (i dvd n \<and> i < n)"
      using \<open>2 \<le> i\<close> less_Suc_eq by auto
    show ?thesis
      using assms that strike_nth [of xs M i n "2 * i"] proper_multiple [of i n] \<open>2 \<le> i\<close>
      unfolding * sieved_def by auto
  qed
  then show ?thesis using True assms strike_nth [of xs M i 0 "2 * i"] by (simp add: sieved_def)
next
  case False
  then obtain m where m: "2 \<le> m" "m < i" "m dvd i" using assms by (auto simp: sieved_def)
  have "(\<exists>k. 2 \<le> k \<and> k < i + 1 \<and> k < n \<and> k dvd n) \<longleftrightarrow> (\<exists>k. 2 \<le> k \<and> k < i \<and> k < n \<and> k dvd n)" for n
    using m by (metis Suc_eq_plus1 dvd_trans less_SucE less_SucI less_trans)
  then have "sieved M (i + 1) xs" using assms unfolding sieved_def by blast
  then show ?thesis using False by simp
qed

lemma sieve_loop_sieved:
  "sieved M i xs \<Longrightarrow> 2 \<le> i \<Longrightarrow> \<exists>k. M < k * k \<and> sieved M k (sieve_loop M i xs)"
proof (induction M i xs rule: sieve_loop.induct)
  case (1 M i xs)
  show ?case
  proof (cases "i * i \<le> M")
    case True
    then have "i \<le> M" using le_square le_trans by blast
    then show ?thesis using 1 True sieve_step [of M i xs] by (subst sieve_loop.simps) auto
  next
    case False
    then have "sieve_loop M i xs = xs" by (subst sieve_loop.simps) simp
    then show ?thesis using 1 False by (intro exI [of _ i]) simp
  qed
qed

lemma fold_mark:
  "length (fold (\<lambda>i xs. xs[i := True]) is xs) = length xs"
  "n < length xs \<Longrightarrow> fold (\<lambda>i xs. xs[i := True]) is xs ! n \<longleftrightarrow> n \<in> set is \<or> xs ! n"
proof -
  show "length (fold (\<lambda>i xs. xs[i := True]) is xs) = length xs" by (induction "is" arbitrary: xs) auto
  show "n < length xs \<Longrightarrow> fold (\<lambda>i xs. xs[i := True]) is xs ! n \<longleftrightarrow> n \<in> set is \<or> xs ! n"
  proof (induction "is" arbitrary: xs)
    case (Cons a "is")
    then show ?case by (cases "a = n") auto
  qed simp
qed

lemma make_primes_correct:
  "length (make_primes M) = M + 1" "n \<le> M \<Longrightarrow> make_primes M ! n \<longleftrightarrow> prime_number n"
proof -
  have "sieved M 2 (fold (\<lambda>i xs. xs[i := True]) [2 ..< M + 1] (replicate (M + 1) False))"
    by (auto simp: sieved_def fold_mark simp del: replicate_Suc)
  then obtain k where k: "M < k * k" "sieved M k (make_primes M)"
    unfolding make_primes_def using sieve_loop_sieved by blast
  then show "length (make_primes M) = M + 1" by (simp add: sieved_def)
  assume n: "n \<le> M"
  have "(\<exists>m. 2 \<le> m \<and> m < k \<and> m < n \<and> m dvd n) \<longleftrightarrow> \<not> prime_number n" if n2: "2 \<le> n"
  proof
    assume np: "\<not> prime_number n"
    then obtain m where m: "2 \<le> m" "m dvd n" "m * m \<le> n" "m < n"
      using composite_small_factor [OF n2 np] by blast
    then have "m * m < k * k" using n k by simp
    then have "m < k" by (metis mult_le_mono not_less)
    then show "\<exists>m. 2 \<le> m \<and> m < k \<and> m < n \<and> m dvd n" using m by blast
  qed (auto simp: prime_number_def)
  then show "make_primes M ! n \<longleftrightarrow> prime_number n"
    using k n by (auto simp: sieved_def prime_number_ge_2)
qed

subsection \<open>The field tables\<close>

definition powers_from :: "nat \<Rightarrow> nat \<Rightarrow> nat \<Rightarrow> nat set" where
  "powers_from M i d = {n. n \<le> M \<and> (\<exists>e\<ge>d. n = i ^ e)}"

lemma finite_powers_from [simp]: "finite (powers_from M i d)"
  by (rule finite_subset [of _ "{..M}"]) (auto simp: powers_from_def)

lemma powers_from_step:
  assumes "2 \<le> i"
  shows "i ^ d \<le> M \<Longrightarrow> powers_from M i d = insert (i ^ d) (powers_from M i (Suc d))"
    "i ^ d \<notin> powers_from M i (Suc d)" "M < i ^ d \<Longrightarrow> powers_from M i d = {}"
proof -
  have "(\<exists>e\<ge>d. n = i ^ e) \<longleftrightarrow> n = i ^ d \<or> (\<exists>e\<ge>Suc d. n = i ^ e)" for n
    by (metis Suc_leD Suc_leI le_neq_implies_less order_refl)
  then show "i ^ d \<le> M \<Longrightarrow> powers_from M i d = insert (i ^ d) (powers_from M i (Suc d))"
    by (auto simp: powers_from_def)
  show "i ^ d \<notin> powers_from M i (Suc d)" using assms by (auto simp: powers_from_def)
  assume "M < i ^ d"
  moreover have "i ^ d \<le> i ^ e" if "d \<le> e" for e using assms that by (intro power_increasing) auto
  ultimately show "powers_from M i d = {}" by (fastforce simp: powers_from_def)
qed

text \<open>The tables list the powers of a set of primes with the right degrees and bases.\<close>

definition tables_for :: "nat \<Rightarrow> nat set \<Rightarrow> ff_tables \<Rightarrow> bool" where
  "tables_for M A t \<longleftrightarrow>
     length (is_ff t) = M + 1 \<and> length (deg t) = M + 1 \<and> length (ch t) = M + 1
     \<and> A \<subseteq> {..M} \<and> num_ff t = card A
     \<and> (\<forall>n\<le>M. is_ff t ! n \<longleftrightarrow> n \<in> A)
     \<and> (\<forall>n\<in>A. prime_number (ch t ! n) \<and> 0 < deg t ! n \<and> n = ch t ! n ^ deg t ! n)"

lemma tables_for_insert:
  assumes "prime_number i" "tables_for M A t" "j = i ^ d" "0 < d" "j \<le> M" "j \<notin> A" "finite A"
  shows "tables_for M (insert j A)
    (t\<lparr>is_ff := (is_ff t)[j := True], deg := (deg t)[j := d], ch := (ch t)[j := i], num_ff := num_ff t + 1\<rparr>)"
proof -
  have len: "length (is_ff t) = M + 1" "length (deg t) = M + 1" "length (ch t) = M + 1"
    and A: "A \<subseteq> {..M}" "num_ff t = card A" "\<And>n. n \<le> M \<Longrightarrow> is_ff t ! n \<longleftrightarrow> n \<in> A"
    and E: "\<And>n. n \<in> A \<Longrightarrow> prime_number (ch t ! n) \<and> 0 < deg t ! n \<and> n = ch t ! n ^ deg t ! n"
    using assms(2) by (auto simp: tables_for_def)
  have "(is_ff t)[j := True] ! n \<longleftrightarrow> n \<in> insert j A" if "n \<le> M" for n
    using that A(3) len assms(5) by (cases "n = j") auto
  moreover have "prime_number ((ch t)[j := i] ! n) \<and> 0 < (deg t)[j := d] ! n \<and> n = (ch t)[j := i] ! n ^ (deg t)[j := d] ! n"
    if "n \<in> insert j A" for n
    using that E [of n] len assms by (cases "n = j") auto
  ultimately show ?thesis using len A(1,2) assms(5-7) by (simp add: tables_for_def)
qed

lemma ff_powers_tables:
  "prime_number i \<Longrightarrow> tables_for M A t \<Longrightarrow> j = i ^ d \<Longrightarrow> 0 < d \<Longrightarrow> A \<inter> powers_from M i d = {} \<Longrightarrow>
    (case ff_powers M i j d t of (t', d') \<Rightarrow>
       tables_for M (A \<union> powers_from M i d) t' \<and> max_deg t' = max_deg t \<and> (\<forall>e. i ^ e \<le> M \<longrightarrow> e < d'))"
proof (induction M i j d t arbitrary: A rule: ff_powers.induct)
  case (1 M i j d t)
  have i: "2 \<le> i" using 1(2) by (rule prime_number_ge_2)
  show ?case
  proof (cases "j \<le> M")
    case True
    let ?t = "t\<lparr>is_ff := (is_ff t)[j := True], deg := (deg t)[j := d], ch := (ch t)[j := i], num_ff := num_ff t + 1\<rparr>"
    have P: "powers_from M i d = insert j (powers_from M i (Suc d))"
      using 1(4) True powers_from_step(1) [OF i, of d M] by simp
    then have new: "j \<notin> A" using 1(6) by blast
    have fin: "finite A" using 1(3) finite_subset by (auto simp: tables_for_def)
    have "tables_for M (insert j A) ?t"
      using 1(2,3,4,5) True new fin by (rule tables_for_insert)
    moreover have "insert j A \<inter> powers_from M i (Suc d) = {}"
      using 1(6) P powers_from_step(2) [OF i, of d M] 1(4) by blast
    moreover have pos: "1 < i" "0 < j" using i 1(4) by auto
    moreover have "j * i = i ^ Suc d" using 1(4) by simp
    ultimately have "case ff_powers M i (j * i) (d + 1) ?t of (t', d') \<Rightarrow>
       tables_for M (insert j A \<union> powers_from M i (Suc d)) t' \<and> max_deg t' = max_deg t \<and> (\<forall>e. i ^ e \<le> M \<longrightarrow> e < d')"
      using 1(1) [of "insert j A"] 1(2) True by simp
    moreover have "ff_powers M i j d t = ff_powers M i (j * i) (d + 1) ?t"
      using True pos by (subst ff_powers.simps) simp
    moreover have "insert j A \<union> powers_from M i (Suc d) = A \<union> powers_from M i d" using P by blast
    ultimately show ?thesis by simp
  next
    case False
    have "e < d" if "i ^ e \<le> M" for e
    proof (rule ccontr)
      assume "\<not> e < d"
      then have "i ^ d \<le> i ^ e" using i by (intro power_increasing) auto
      then show False using that False 1 by simp
    qed
    moreover have "ff_powers M i j d t = (t, d)" using False by (subst ff_powers.simps) simp
    ultimately show ?thesis using False 1(3,4) powers_from_step(3) [OF i, of M d] by simp
  qed
qed

text \<open>The prime powers of primes below \<open>k\<close>, and the loop of \<open>make_ff\<close>.\<close>

definition prime_powers :: "nat \<Rightarrow> nat \<Rightarrow> nat set" where
  "prime_powers M k = {n. n \<le> M \<and> (\<exists>p d. prime_number p \<and> p < k \<and> 0 < d \<and> n = p ^ d)}"

lemma prime_powers_Suc:
  "prime_powers M (Suc k) = prime_powers M k \<union> (if prime_number k then powers_from M k 1 else {})"
  "prime_powers M k \<inter> powers_from M k 1 = {} \<or> \<not> prime_number k"
proof -
  show "prime_powers M (Suc k) = prime_powers M k \<union> (if prime_number k then powers_from M k 1 else {})"
    by (auto simp: prime_powers_def powers_from_def less_Suc_eq Suc_le_eq)
  show "prime_powers M k \<inter> powers_from M k 1 = {} \<or> \<not> prime_number k"
    using prime_power_inj(1) by (force simp: prime_powers_def powers_from_def Suc_le_eq)
qed

definition make_ff_step :: "nat \<Rightarrow> bool list \<Rightarrow> nat \<Rightarrow> ff_tables \<Rightarrow> ff_tables" where
  "make_ff_step M is_prime i t =
     (if is_prime ! i
      then let (t, d) = ff_powers M i i 1 t
           in if 0 < d \<and> max_deg t < d - 1 then t\<lparr>max_deg := d - 1\<rparr> else t
      else t)"

lemma tables_for_max_deg [simp]: "tables_for M A (t\<lparr>max_deg := m\<rparr>) \<longleftrightarrow> tables_for M A t"
  by (simp add: tables_for_def)

lemma make_ff_step_tables:
  assumes "tables_for M (prime_powers M i) t" "i \<le> M"
    "\<And>p e. prime_number p \<Longrightarrow> p < i \<Longrightarrow> p ^ e \<le> M \<Longrightarrow> e \<le> max_deg t"
  shows "tables_for M (prime_powers M (Suc i)) (make_ff_step M (make_primes M) i t)"
    "prime_number p \<Longrightarrow> p < Suc i \<Longrightarrow> p ^ e \<le> M \<Longrightarrow> e \<le> max_deg (make_ff_step M (make_primes M) i t)"
proof -
  let ?u = "make_ff_step M (make_primes M) i t"
  have "tables_for M (prime_powers M (Suc i)) ?u
    \<and> (\<forall>p e. prime_number p \<longrightarrow> p < Suc i \<longrightarrow> p ^ e \<le> M \<longrightarrow> e \<le> max_deg ?u)"
  proof (cases "prime_number i")
    case True
    obtain t' d' where f: "ff_powers M i i 1 t = (t', d')" by force
    have "tables_for M (prime_powers M i \<union> powers_from M i 1) t' \<and> max_deg t' = max_deg t \<and> (\<forall>e. i ^ e \<le> M \<longrightarrow> e < d')"
      using ff_powers_tables [OF True assms(1), of i 1] prime_powers_Suc(2) [of M i] True f by simp
    then have t': "tables_for M (prime_powers M (Suc i)) t'" "max_deg t' = max_deg t" "\<And>e. i ^ e \<le> M \<Longrightarrow> e < d'"
      using True by (auto simp: prime_powers_Suc(1))
    have u: "?u = (if 0 < d' \<and> max_deg t' < d' - 1 then t'\<lparr>max_deg := d' - 1\<rparr> else t')"
      using True assms(2) f by (simp add: make_ff_step_def make_primes_correct)
    have "e \<le> max_deg ?u" if "prime_number p" "p < Suc i" "p ^ e \<le> M" for p e
    proof (cases "p = i")
      case True
      then have "e < d'" using t'(3) that by simp
      then show ?thesis by (simp add: u) linarith
    next
      case False
      then have "e \<le> max_deg t'" using assms(3) [of p e] that t'(2) by simp
      then show ?thesis by (simp add: u)
    qed
    then show ?thesis using t'(1) by (simp add: u)
  next
    case False
    then have "?u = t" using assms(2) by (simp add: make_ff_step_def make_primes_correct)
    then show ?thesis using assms False by (auto simp: prime_powers_Suc(1) less_Suc_eq)
  qed
  then show "tables_for M (prime_powers M (Suc i)) ?u"
    "prime_number p \<Longrightarrow> p < Suc i \<Longrightarrow> p ^ e \<le> M \<Longrightarrow> e \<le> max_deg ?u" by blast+
qed

lemma make_ff_tables:
  "tables_for M (prime_powers M (M + 1)) (make_ff M (make_primes M))"
  "prime_number p \<Longrightarrow> p ^ e \<le> M \<Longrightarrow> e \<le> max_deg (make_ff M (make_primes M))"
proof -
  let ?t0 = "\<lparr>is_ff = replicate (M + 1) False, deg = replicate (M + 1) 0, ch = replicate (M + 1) 0, num_ff = 0, max_deg = 0\<rparr>"
  let ?f = "\<lambda>k. fold (make_ff_step M (make_primes M)) [2 ..< k] ?t0"
  have *: "tables_for M (prime_powers M k) (?f k)
    \<and> (\<forall>p e. prime_number p \<longrightarrow> p < k \<longrightarrow> p ^ e \<le> M \<longrightarrow> e \<le> max_deg (?f k))" if "2 \<le> k" "k \<le> M + 1" for k
    using that
  proof (induction k rule: nat_induct_at_least)
    case base
    have "prime_powers M 2 = {}" by (auto simp: prime_powers_def dest: prime_number_ge_2)
    then show ?case by (auto simp: tables_for_def nth_append dest: prime_number_ge_2 simp del: replicate_Suc)
  next
    case (Suc k)
    then show ?case using make_ff_step_tables [of M k "?f k"] by simp
  qed
  have m: "make_ff M (make_primes M) = ?f (M + 1)"
    unfolding make_ff_def make_ff_step_def by (rule refl)
  show "tables_for M (prime_powers M (M + 1)) (make_ff M (make_primes M))"
  proof (cases "M = 0")
    case True
    have "prime_powers 0 1 = {}" by (auto simp: prime_powers_def dest: prime_number_ge_2)
    then show ?thesis using True by (simp add: make_ff_def tables_for_def)
  next
    case False
    then show ?thesis using * [of "M + 1"] m by simp
  qed
  assume p: "prime_number p" "p ^ e \<le> M"
  show "e \<le> max_deg (make_ff M (make_primes M))"
  proof (cases "e = 0")
    case False
    then have "p ^ 1 \<le> p ^ e" using prime_number_ge_2 [OF p(1)] by (intro power_increasing) auto
    then have "p \<le> M" using p(2) by simp
    then show ?thesis using * [of "M + 1"] m p prime_number_ge_2 [OF p(1)] by simp
  qed simp
qed

text \<open>What the other functions rely on of the generated data.\<close>

definition is_field :: "ffdata \<Rightarrow> nat \<Rightarrow> bool" where
  "is_field D ff \<longleftrightarrow> 0 < ff \<and> ff \<le> NUM_SHORT_FINITE_FIELDS D"

definition field_data :: "ffdata \<Rightarrow> bool" where
  "field_data D \<longleftrightarrow>
     2 \<le> MAXSIZE_GF_INTERNAL D \<and> MAXSIZE_GF_INTERNAL D \<le> 2 ^ 16
     \<and> length (SizeFF D) = NUM_SHORT_FINITE_FIELDS D + 1
     \<and> (\<forall>ff. is_field D ff \<longrightarrow>
          prime_number (CHAR_FF D ff) \<and> 0 < DEGR_FF D ff \<and> SIZE_FF D ff = CHAR_FF D ff ^ DEGR_FF D ff
          \<and> SIZE_FF D ff \<le> MAXSIZE_GF_INTERNAL D)
     \<and> (\<forall>i j. 0 < i \<longrightarrow> i < j \<longrightarrow> j \<le> NUM_SHORT_FINITE_FIELDS D \<longrightarrow> SIZE_FF D i < SIZE_FF D j)
     \<and> (\<forall>p d. prime_number p \<longrightarrow> 0 < d \<longrightarrow> p ^ d \<le> MAXSIZE_GF_INTERNAL D \<longrightarrow>
          d \<le> DEGREE_LARGEST_INTERNAL_FF D \<and> (\<exists>ff. is_field D ff \<and> SIZE_FF D ff = p ^ d))
     \<and> NUM_SHORT_FINITE_FIELDS D < 2 ^ FIELD_BITS_FFE D \<and> FIELD_BITS_FFE D \<le> 16
     \<and> MAXSIZE_GF_INTERNAL D \<le> 2 ^ VAL_BITS_FFE D \<and> VAL_BITS_FFE D \<le> 16"

lemma needed_bits_bound: "n < 2 ^ needed_bits n" "n < 2 ^ k \<Longrightarrow> needed_bits n \<le> k"
proof -
  show "n < 2 ^ needed_bits n"
  proof (induction n rule: needed_bits.induct)
    case (1 x)
    then show ?case
      by (cases "x = 0"; subst needed_bits.simps) auto
  qed
  show "n < 2 ^ k \<Longrightarrow> needed_bits n \<le> k"
  proof (induction n arbitrary: k rule: needed_bits.induct)
    case (1 x)
    then show ?case
    proof (cases "x = 0")
      case False
      then obtain j where "k = Suc j" using 1(2) by (cases k) auto
      then show ?thesis using 1 False by (subst needed_bits.simps) auto
    qed (simp add: needed_bits.simps)
  qed
qed

lemma sorted_sizes_nth:
  assumes "is_field D i" "SizeFF D = 0 # xs" "length xs = NUM_SHORT_FINITE_FIELDS D"
  shows "SIZE_FF D i = xs ! (i - 1)" "i - 1 < length xs"
  using assms by (auto simp: SIZE_FF_def is_field_def nth_Cons split: nat.splits)

lemma strict_sorted_nth: "sorted_wrt (<) xs \<Longrightarrow> i < j \<Longrightarrow> j < length xs \<Longrightarrow> xs ! i < (xs ! j :: nat)"
  by (simp add: sorted_wrt_iff_nth_less)

lemma ffgen_field_data:
  assumes "2 \<le> M" "M \<le> 2 ^ 16"
  shows "field_data (ffgen M)" "MAXSIZE_GF_INTERNAL (ffgen M) = M"
proof -
  let ?t = "make_ff M (make_primes M)" and ?D = "ffgen M" and ?A = "prime_powers M (M + 1)"
  define xs where "xs = filter (\<lambda>i. is_ff ?t ! i) [0 ..< M + 1]"
  have t: "tables_for M ?A ?t" by (rule make_ff_tables)
  then have "?A \<subseteq> {..M}" "\<And>n. n \<le> M \<Longrightarrow> is_ff ?t ! n \<longleftrightarrow> n \<in> ?A" unfolding tables_for_def by blast+
  moreover have "set xs = {n. n \<le> M \<and> is_ff ?t ! n}" unfolding xs_def set_filter set_upt by auto
  ultimately have set_xs: "set xs = ?A" by blast
  have A: "?A = {n. n \<le> M \<and> (\<exists>p d. prime_number p \<and> 0 < d \<and> n = p ^ d)}"
  proof -
    have "p < M + 1" if "prime_number p" "0 < d" "p ^ d \<le> M" for p d
      using that prime_number_ge_2 [OF that(1)] power_increasing [of 1 d p] by simp
    then show ?thesis by (auto simp: prime_powers_def)
  qed
  have "length xs = card ?A" using set_xs by (metis distinct_card distinct_filter distinct_upt xs_def)
  also have "\<dots> = num_ff ?t" using t by (simp add: tables_for_def)
  finally have len: "length xs = num_ff ?t" .
  have D: "SizeFF ?D = 0 # xs" "NUM_SHORT_FINITE_FIELDS ?D = num_ff ?t" "MAXSIZE_GF_INTERNAL ?D = M"
    "DegrFF ?D = 0 # map (\<lambda>i. deg ?t ! i) xs" "CharFF ?D = 0 # map (\<lambda>i. ch ?t ! i) xs"
    "DEGREE_LARGEST_INTERNAL_FF ?D = max_deg ?t"
    "FIELD_BITS_FFE ?D = needed_bits (num_ff ?t)" "VAL_BITS_FFE ?D = needed_bits (M - 1)"
    by (simp_all add: ffgen_def emit_code_def Let_def xs_def)
  have ff: "prime_number (CHAR_FF ?D ff) \<and> 0 < DEGR_FF ?D ff \<and> SIZE_FF ?D ff = CHAR_FF ?D ff ^ DEGR_FF ?D ff \<and> SIZE_FF ?D ff \<le> M"
    if "is_field ?D ff" for ff
  proof -
    have i: "ff - 1 < length xs" "SIZE_FF ?D ff = xs ! (ff - 1)" "CHAR_FF ?D ff = ch ?t ! (xs ! (ff - 1))"
      "DEGR_FF ?D ff = deg ?t ! (xs ! (ff - 1))"
      using that len D(1,2,4,5) by (auto simp: is_field_def SIZE_FF_def CHAR_FF_def DEGR_FF_def nth_Cons split: nat.splits)
    then have "xs ! (ff - 1) \<in> ?A" using set_xs nth_mem by blast
    then show ?thesis using t i by (auto simp: tables_for_def)
  qed
  have mono: "SIZE_FF ?D i < SIZE_FF ?D j" if "0 < i" "i < j" "j \<le> NUM_SHORT_FINITE_FIELDS ?D" for i j
  proof -
    have "sorted_wrt (<) xs" unfolding xs_def by (intro sorted_wrt_filter sorted_wrt_upt)
    then show ?thesis using that len D(1,2) strict_sorted_nth [of xs "i - 1" "j - 1"]
      by (auto simp: SIZE_FF_def nth_Cons split: nat.splits)
  qed
  have found: "d \<le> DEGREE_LARGEST_INTERNAL_FF ?D \<and> (\<exists>ff. is_field ?D ff \<and> SIZE_FF ?D ff = p ^ d)"
    if "prime_number p" "0 < d" "p ^ d \<le> M" for p d
  proof -
    have "p ^ d \<in> set xs" using that set_xs A by auto
    then obtain i where "i < length xs" "xs ! i = p ^ d" by (metis in_set_conv_nth)
    then have "is_field ?D (i + 1) \<and> SIZE_FF ?D (i + 1) = p ^ d"
      using len D(1,2) by (simp add: is_field_def SIZE_FF_def)
    then show ?thesis using make_ff_tables(2) [OF that(1,3)] D(6) by auto
  qed
  have "2 \<le> n" if "n \<in> ?A" for n
  proof -
    obtain p d where p: "prime_number p" "0 < d" "n = p ^ d" using \<open>n \<in> ?A\<close> unfolding A by blast
    then have "p \<le> n" using self_le_power [of p d] prime_number_ge_2 [OF p(1)] by simp
    then show ?thesis using prime_number_ge_2 [OF p(1)] by simp
  qed
  moreover have "?A \<subseteq> {..M}" unfolding A by auto
  ultimately have "?A \<subseteq> {2..M}" by auto
  then have "card ?A \<le> card {2..M}" by (intro card_mono) auto
  then have n: "num_ff ?t < 2 ^ 16" using assms t by (simp add: tables_for_def)
  have M: "M \<le> 2 ^ needed_bits (M - 1)" using needed_bits_bound(1) [of "M - 1"] assms by simp
  have "needed_bits (M - 1) \<le> 16" using assms by (intro needed_bits_bound(2)) simp
  then show "field_data ?D"
    unfolding field_data_def using ff mono found n M assms len D needed_bits_bound(1) [of "num_ff ?t"] needed_bits_bound(2) [of "num_ff ?t" 16]
    by (intro conjI) (simp_all, metis)
  show "MAXSIZE_GF_INTERNAL ?D = M" by (rule D(3))
qed

lemma field_dataD:
  assumes "field_data D" "is_field D ff"
  shows "prime_number (CHAR_FF D ff)" "0 < DEGR_FF D ff" "SIZE_FF D ff = CHAR_FF D ff ^ DEGR_FF D ff"
    "SIZE_FF D ff \<le> MAXSIZE_GF_INTERNAL D" "SIZE_FF D ff \<le> 2 ^ 16" "2 \<le> SIZE_FF D ff"
proof -
  show p: "prime_number (CHAR_FF D ff)" and d: "0 < DEGR_FF D ff" and s: "SIZE_FF D ff = CHAR_FF D ff ^ DEGR_FF D ff"
    and m: "SIZE_FF D ff \<le> MAXSIZE_GF_INTERNAL D"
    using assms by (auto simp: field_data_def)
  show "SIZE_FF D ff \<le> 2 ^ 16" using m assms(1) by (simp add: field_data_def)
  show "2 \<le> SIZE_FF D ff" using prime_number_ge_2 [OF p] self_le_power [of "CHAR_FF D ff" "DEGR_FF D ff"] d s by simp
qed

lemma field_size_mono: "field_data D \<Longrightarrow> 0 < i \<Longrightarrow> i < j \<Longrightarrow> j \<le> NUM_SHORT_FINITE_FIELDS D \<Longrightarrow> SIZE_FF D i < SIZE_FF D j"
  by (simp add: field_data_def)

lemma field_size_inj:
  "field_data D \<Longrightarrow> is_field D i \<Longrightarrow> is_field D j \<Longrightarrow> SIZE_FF D i = SIZE_FF D j \<Longrightarrow> i = j"
  using field_size_mono [of D i j] field_size_mono [of D j i] by (metis is_field_def less_irrefl linorder_neqE_nat)

lemma same_size_iff:
  assumes "field_data D" "is_field D i" "is_field D j"
  shows "i = j \<longleftrightarrow> CHAR_FF D i = CHAR_FF D j \<and> DEGR_FF D i = DEGR_FF D j"
  using field_size_inj [OF assms] field_dataD(3) [OF assms(1,2)] field_dataD(3) [OF assms(1,3)] by auto

lemma field_exists:
  "field_data D \<Longrightarrow> prime_number p \<Longrightarrow> 0 < d \<Longrightarrow> p ^ d \<le> MAXSIZE_GF_INTERNAL D \<Longrightarrow> \<exists>ff. is_field D ff \<and> SIZE_FF D ff = p ^ d"
  by (simp add: field_data_def)

lemma field_size_power:
  assumes "field_data D" "is_field D ff" "SIZE_FF D ff = p ^ d" "prime_number p" "0 < d"
  shows "CHAR_FF D ff = p" "DEGR_FF D ff = d"
  using prime_power_inj [OF field_dataD(1) [OF assms(1,2)] assms(4) field_dataD(2) [OF assms(1,2)], of d]
    field_dataD(3) [OF assms(1,2)] assms(3) by simp_all

lemma field_number_bounds:
  assumes "field_data D" "is_field D ff"
  shows "ff < 2 ^ FIELD_BITS_FFE D" "ff < 2 ^ 16"
proof -
  show *: "ff < 2 ^ FIELD_BITS_FFE D" using assms by (auto simp: field_data_def is_field_def)
  moreover have "(2::nat) ^ FIELD_BITS_FFE D \<le> 2 ^ 16"
    using assms by (intro power_increasing) (auto simp: field_data_def)
  ultimately show "ff < 2 ^ 16" by linarith
qed

subsection \<open>The search\<close>

lemma u16_id [simp]: "n < 65536 \<Longrightarrow> u16 n = n"
  by (simp add: u16_def)

lemma lookup_loop_correct:
  assumes D: "field_data D"
  shows "0 < l \<Longrightarrow> n \<le> NUM_SHORT_FINITE_FIELDS D \<Longrightarrow>
    (\<And>i. is_field D i \<Longrightarrow> SIZE_FF D i = q \<Longrightarrow> l \<le> i \<and> i \<le> n) \<Longrightarrow>
    \<exists>r. lookup_loop D q l n ff = Some r \<and> (\<forall>i. is_field D i \<longrightarrow> SIZE_FF D i = q \<longrightarrow> r = i)"
proof (induction "n + 1 - l" arbitrary: l n ff rule: less_induct)
  case less
  show ?case
  proof (cases "l \<le> n \<and> SIZE_FF D l \<le> q \<and> q \<le> SIZE_FF D n")
    case True
    define e where "e = (q - SIZE_FF D l + 1) * (n - l) div (SIZE_FF D n - SIZE_FF D l + 1)"
    have "(q - SIZE_FF D l + 1) * (n - l) \<le> (SIZE_FF D n - SIZE_FF D l + 1) * (n - l)"
      using True by (intro mult_right_mono) auto
    then have "e \<le> n - l" unfolding e_def by (metis div_le_mono nonzero_mult_div_cancel_left add_is_0 one_neq_zero)
    then have f: "l \<le> l + e" "l + e \<le> n" using True by auto
    have ff: "is_field D (l + e)" using f less.prems by (simp add: is_field_def)
    then have u: "u16 (l + e) = l + e" using field_number_bounds(2) [OF D ff] by simp
    have step: "lookup_loop D q l n ff =
       (if SIZE_FF D (l + e) = q then Some (l + e)
        else if SIZE_FF D (l + e) < q then lookup_loop D q (l + e + 1) n (l + e)
        else lookup_loop D q l (l + e - 1) (l + e))"
      using True u unfolding SIZE_FF_def e_def by (subst lookup_loop.simps) (simp add: Let_def)
    consider "SIZE_FF D (l + e) = q" | "SIZE_FF D (l + e) < q" | "q < SIZE_FF D (l + e)" by linarith
    then show ?thesis
    proof cases
      case 1
      then show ?thesis using step field_size_inj [OF D ff] by auto
    next
      case 2
      have "l + e + 1 \<le> i \<and> i \<le> n" if i: "is_field D i" "SIZE_FF D i = q" for i
      proof -
        have "\<not> i \<le> l + e"
          using 2 i ff field_size_mono [OF D, of i "l + e"] by (cases "i = l + e") (auto simp: is_field_def)
        then show ?thesis using less.prems(3) [OF i] by simp
      qed
      then show ?thesis using 2 step less.hyps [of n "l + e + 1" "l + e"] less.prems(1,2) f by simp
    next
      case 3
      then have "0 < e" using True by (cases e) auto
      have "l \<le> i \<and> i \<le> l + e - 1" if i: "is_field D i" "SIZE_FF D i = q" for i
      proof -
        have "\<not> l + e \<le> i"
          using 3 i ff field_size_mono [OF D, of "l + e" i] by (cases "i = l + e") (auto simp: is_field_def)
        then show ?thesis using less.prems(3) [OF i] by simp
      qed
      then show ?thesis using 3 step less.hyps [of "l + e - 1" l "l + e"] less.prems(1,2) f \<open>0 < e\<close> by simp
    qed
  next
    case False
    have "lookup_loop D q l n ff = Some ff"
      using False by (subst lookup_loop.simps) (auto simp: SIZE_FF_def)
    moreover have False if i: "is_field D i" "SIZE_FF D i = q" for i
    proof -
      have "l \<le> i" "i \<le> n" using less.prems(3) i by auto
      then have "SIZE_FF D l \<le> q" "q \<le> SIZE_FF D n"
        using i less.prems(1,2) field_size_mono [OF D, of l i] field_size_mono [OF D, of i n]
        by (cases "l = i"; cases "i = n"; simp add: is_field_def)+
      then show False using False \<open>l \<le> i\<close> \<open>i \<le> n\<close> by simp
    qed
    ultimately show ?thesis by blast
  qed
qed

lemma LookupPrimePower_correct:
  assumes D: "field_data D"
  shows "is_field D ff \<Longrightarrow> SIZE_FF D ff = q \<Longrightarrow> LookupPrimePower D q = Some ff"
    "(\<And>ff. is_field D ff \<Longrightarrow> SIZE_FF D ff \<noteq> q) \<Longrightarrow> LookupPrimePower D q = Some 0"
proof -
  obtain r where r: "lookup_loop D q 1 (NUM_SHORT_FINITE_FIELDS D) 0 = Some r"
    "\<And>i. is_field D i \<Longrightarrow> SIZE_FF D i = q \<Longrightarrow> r = i"
    using lookup_loop_correct [OF D, of 1 "NUM_SHORT_FINITE_FIELDS D" q 0] by (auto simp: is_field_def)
  show "is_field D ff \<Longrightarrow> SIZE_FF D ff = q \<Longrightarrow> LookupPrimePower D q = Some ff"
    using r by (auto simp: LookupPrimePower_def is_field_def SIZE_FF_def)
  show "(\<And>ff. is_field D ff \<Longrightarrow> SIZE_FF D ff \<noteq> q) \<Longrightarrow> LookupPrimePower D q = Some 0"
    using r(1) by (auto simp: LookupPrimePower_def is_field_def SIZE_FF_def)
qed

end
