(* ===== verification/FinFieldPoly.thy ===== *)
theory FinFieldPoly
  imports FinFieldZech FinFieldTables
begin

text \<open>
  The finite field that a polynomial defines: residues of polynomials over the integers modulo \<open>p\<close>, written as
  numbers whose digits in base \<open>p\<close> are the coefficients. Addition is digit by digit, multiplication that of polynomials modulo
  \<open>x ^ d + (\<Sum>i<d. a i * x ^ i)\<close>. The steps of the kernel's tables are multiplication by \<open>x\<close> and addition
  of one; if the powers of \<open>x\<close> run through all nonzero residues, the residues are a \<open>cyclic_field\<close>.
\<close>

subsection \<open>Digits\<close>

definition dig :: "nat \<Rightarrow> nat \<Rightarrow> nat \<Rightarrow> int" where
  "dig p e i = int (e div p ^ i mod p)"

definition code :: "nat \<Rightarrow> nat \<Rightarrow> (nat \<Rightarrow> int) \<Rightarrow> nat" where
  "code p d v = (\<Sum>i<d. nat (v i mod int p) * p ^ i)"

lemma digit_sum_less:
  "(\<And>i. i < d \<Longrightarrow> c i < p) \<Longrightarrow> (\<Sum>i<d. c i * p ^ i) < p ^ d" for p :: nat
proof (induction d)
  case (Suc d)
  have "(\<Sum>i<d. c i * p ^ i) < p ^ d" using Suc by simp
  moreover have "(c d + 1) * p ^ d \<le> p * p ^ d" using Suc.prems [of d] by (intro mult_right_mono) auto
  ultimately show ?case by (simp add: distrib_right)
qed simp

lemma digit_sum_nth:
  "(\<And>i. i < d \<Longrightarrow> c i < p) \<Longrightarrow> k < d \<Longrightarrow> (\<Sum>i<d. c i * p ^ i) div p ^ k mod p = c k" for p :: nat
proof (induction d)
  case (Suc d)
  have p: "0 < p" using Suc.prems(1) [of k] Suc.prems(2) by auto
  have S: "(\<Sum>i<d. c i * p ^ i) < p ^ d" using Suc by (intro digit_sum_less) simp
  show ?case
  proof (cases "k = d")
    case True
    then show ?thesis using S p Suc.prems(1) [of d] by simp
  next
    case False
    then have k: "k < d" using Suc by simp
    then have "p ^ d = p ^ k * p ^ (d - k - 1) * p ^ 1" by (simp only: power_add [symmetric]) simp
    then have e: "c d * p ^ d = p ^ k * (c d * p ^ (d - k - 1) * p)" by (simp only: ac_simps power_one_right)
    have "(\<Sum>i<Suc d. c i * p ^ i) div p ^ k = (\<Sum>i<d. c i * p ^ i) div p ^ k + c d * p ^ (d - k - 1) * p"
      using p by (simp only: sum.lessThan_Suc e) simp
    then show ?thesis using Suc k by simp
  qed
qed simp

lemma digit_sum_mod: "(\<Sum>i<d. e div p ^ i mod p * p ^ i) = e mod p ^ d" for p :: nat
proof (induction d)
  case (Suc d)
  have "e mod p ^ Suc d = e mod (p ^ d * p)" by (simp add: mult.commute)
  then show ?case using Suc by (simp only: sum.lessThan_Suc mod_mult2_eq) simp
qed simp

text \<open>The operations on residues, with \<open>a\<close> the number of the polynomial without its leading term.\<close>

definition gf_add :: "nat \<Rightarrow> nat \<Rightarrow> nat \<Rightarrow> nat \<Rightarrow> nat" where
  "gf_add p d e f = code p d (\<lambda>i. dig p e i + dig p f i)"

definition shift :: "nat \<Rightarrow> nat \<Rightarrow> nat \<Rightarrow> (nat \<Rightarrow> int) \<Rightarrow> nat \<Rightarrow> int" where
  "shift p d a v i = (if i < d then (if i = 0 then 0 else v (i - 1)) - v (d - 1) * dig p a i else 0)"

definition gf_x :: "nat \<Rightarrow> nat \<Rightarrow> nat \<Rightarrow> nat \<Rightarrow> nat" where
  "gf_x p d a e = code p d (shift p d a (dig p e))"

definition gf_mul :: "nat \<Rightarrow> nat \<Rightarrow> nat \<Rightarrow> nat \<Rightarrow> nat \<Rightarrow> nat" where
  "gf_mul p d a e f = code p d (\<lambda>k. \<Sum>i<d. dig p e i * (shift p d a ^^ i) (dig p f) k)"

definition primitive_poly :: "nat \<Rightarrow> nat \<Rightarrow> nat \<Rightarrow> bool" where
  "primitive_poly p d a \<longleftrightarrow>
     (gf_x p d a ^^ (p ^ d - 1)) 1 = 1 \<and> (\<forall>k\<in>{1..<p ^ d - 1}. (gf_x p d a ^^ k) 1 \<noteq> 1)"

locale residues =
  fixes p d a :: nat
  assumes p: "2 \<le> p" and d: "0 < d"
begin

lemma p_pos [simp]: "0 < p" "Suc 0 < p" "0 < d"
  using p d by auto

lemma code_less [simp]: "code p d v < p ^ d"
  unfolding code_def using p by (intro digit_sum_less) (simp add: nat_less_iff)

lemma dig_code [simp]: "i < d \<Longrightarrow> dig p (code p d v) i = v i mod int p"
  unfolding code_def dig_def using p by (subst digit_sum_nth) (simp_all add: nat_less_iff)

lemma code_dig: "e < p ^ d \<Longrightarrow> code p d (dig p e) = e"
  using digit_sum_mod [of e p d] by (simp add: code_def dig_def flip: zmod_int)

lemma code_cong: "(\<And>i. i < d \<Longrightarrow> v i mod int p = w i mod int p) \<Longrightarrow> code p d v = code p d w"
  by (simp add: code_def)

lemma dig_mod [simp]: "dig p e i mod int p = dig p e i"
  by (simp add: dig_def flip: zmod_int)

lemma code_eqI: "x < p ^ d \<Longrightarrow> (\<And>i. i < d \<Longrightarrow> dig p x i = v i mod int p) \<Longrightarrow> code p d v = x"
  using code_dig [of x] code_cong [of v "dig p x"] by simp

lemma dig_eqI: "x < p ^ d \<Longrightarrow> y < p ^ d \<Longrightarrow> (\<And>i. i < d \<Longrightarrow> dig p x i = dig p y i) \<Longrightarrow> x = y"
  by (metis code_dig code_cong)

lemma dig_0 [simp]: "dig p 0 i = 0"
  by (simp add: dig_def)

lemma p_pow_pos [simp]: "0 < p ^ d" "Suc 0 < p ^ d"
  using one_less_power [of p d] by simp_all

subsection \<open>Addition\<close>

lemma gf_add_less [simp]: "gf_add p d e f < p ^ d"
  by (simp add: gf_add_def)

lemma dig_gf_add: "i < d \<Longrightarrow> dig p (gf_add p d e f) i = (dig p e i + dig p f i) mod int p"
  by (simp add: gf_add_def)

lemma gf_add_comm: "gf_add p d e f = gf_add p d f e"
  by (simp add: gf_add_def add.commute)

lemma gf_add_assoc: "gf_add p d (gf_add p d e f) g = gf_add p d e (gf_add p d f g)"
  unfolding gf_add_def [of p d "gf_add p d e f"] gf_add_def [of p d e "gf_add p d f g"]
  by (rule code_cong) (simp add: dig_gf_add mod_simps add.assoc)

lemma gf_add_0: "e < p ^ d \<Longrightarrow> gf_add p d e 0 = e"
  by (simp add: gf_add_def code_dig)

lemma gf_add_inverse: "\<exists>f<p ^ d. gf_add p d e f = 0"
  by (rule exI [of _ "code p d (\<lambda>i. - dig p e i)"])
    (auto simp: gf_add_def mod_simps intro!: code_eqI)

lemma gf_add_one:
  assumes "e < p ^ d"
  shows "gf_add p d e 1 = p * (e div p) + (e mod p + 1) mod p"
  unfolding gf_add_def
proof (rule code_eqI)
  have pd: "p ^ d = p * p ^ (d - 1)" using d by (cases d) auto
  have lt: "e div p < p ^ (d - 1)" using assms p by (simp add: pd less_mult_imp_div_less mult.commute)
  have m: "(e mod p + 1) mod p < p" using p by simp
  then have "p * (e div p) + (e mod p + 1) mod p < p * (e div p + 1)" by (simp add: distrib_left)
  also have "\<dots> \<le> p * p ^ (d - 1)" using lt by (intro mult_left_mono) auto
  finally show "p * (e div p) + (e mod p + 1) mod p < p ^ d" by (simp add: pd)
  fix i assume "i < d"
  show "dig p (p * (e div p) + (e mod p + 1) mod p) i = (dig p e i + dig p 1 i) mod int p"
  proof (cases i)
    case 0
    then show ?thesis using p by (simp add: dig_def zmod_int mod_simps add.commute)
  next
    case (Suc j)
    have "(p * (e div p) + (e mod p + 1) mod p) div p = e div p" using m p by simp
    moreover have "1 < p ^ i" using p Suc by (intro one_less_power) auto
    then have "dig p 1 i = 0" by (simp add: dig_def)
    ultimately show ?thesis by (simp add: dig_def Suc div_mult2_eq)
  qed
qed

subsection \<open>Multiplication by the root\<close>

lemma gf_x_less [simp]: "gf_x p d a e < p ^ d"
  by (simp add: gf_x_def)

lemma gf_x_pow_less: "e < p ^ d \<Longrightarrow> (gf_x p d a ^^ n) e < p ^ d"
  by (cases n) simp_all

lemma dig_gf_x: "i < d \<Longrightarrow> dig p (gf_x p d a e) i = shift p d a (dig p e) i mod int p"
  by (simp add: gf_x_def)

lemma shift_cong:
  assumes "\<And>i. i < d \<Longrightarrow> v i mod int p = w i mod int p"
  shows "shift p d a v i mod int p = shift p d a w i mod int p"
proof -
  have "(c - v (d - 1) * dig p a i) mod int p = (c' - w (d - 1) * dig p a i) mod int p"
    if "c mod int p = c' mod int p" for c c'
    using that assms [of "d - 1"] by (intro mod_diff_cong mod_mult_cong) simp_all
  moreover have "(if i = 0 then 0 else v (i - 1)) mod int p = (if i = 0 then 0 else w (i - 1)) mod int p" if "i < d"
    using that assms by simp
  ultimately show ?thesis unfolding shift_def by (cases "i < d") simp_all
qed

lemma shift_pow_cong:
  "(\<And>i. i < d \<Longrightarrow> v i mod int p = w i mod int p) \<Longrightarrow> i < d \<Longrightarrow>
   (shift p d a ^^ n) v i mod int p = (shift p d a ^^ n) w i mod int p"
  by (induction n arbitrary: i) (auto intro!: shift_cong)

lemma gf_x_code: "gf_x p d a (code p d v) = code p d (shift p d a v)"
  unfolding gf_x_def by (intro code_cong shift_cong) simp

lemma gf_x_pow_code: "(gf_x p d a ^^ n) (code p d v) = code p d ((shift p d a ^^ n) v)"
  by (induction n) (simp_all add: gf_x_code)

lemma gf_x_add: "gf_x p d a (gf_add p d e f) = gf_add p d (gf_x p d a e) (gf_x p d a f)"
proof -
  have "gf_x p d a (gf_add p d e f) = code p d (shift p d a (\<lambda>i. dig p e i + dig p f i))"
    by (simp add: gf_add_def gf_x_code)
  also have "\<dots> = gf_add p d (gf_x p d a e) (gf_x p d a f)"
    unfolding gf_add_def
  proof (rule code_cong)
    fix i assume i: "i < d"
    have "shift p d a (\<lambda>i. dig p e i + dig p f i) i = shift p d a (dig p e) i + shift p d a (dig p f) i"
      by (simp add: shift_def algebra_simps)
    then show "shift p d a (\<lambda>i. dig p e i + dig p f i) i mod int p
      = (dig p (gf_x p d a e) i + dig p (gf_x p d a f) i) mod int p"
      using i by (simp add: dig_gf_x mod_simps)
  qed
  finally show ?thesis .
qed

lemma gf_x_0: "gf_x p d a 0 = 0"
  unfolding gf_x_def by (rule code_eqI) (simp_all add: shift_def)

subsection \<open>Multiplication\<close>

abbreviation S :: "(nat \<Rightarrow> int) \<Rightarrow> nat \<Rightarrow> int" where
  "S \<equiv> shift p d a"

definition unit :: "nat \<Rightarrow> int" where
  "unit i = of_bool (i = 0)"

lemma shift_lin: "S (\<lambda>k. \<Sum>j<n. c j * f j k) = (\<lambda>k. \<Sum>j<n. c j * S (f j) k)"
proof
  fix k
  show "S (\<lambda>k. \<Sum>j<n. c j * f j k) k = (\<Sum>j<n. c j * S (f j) k)"
    by (simp add: shift_def right_diff_distrib sum_subtractf sum_distrib_right sum_negf mult.assoc)
qed

lemma shift_pow_lin: "(S ^^ m) (\<lambda>k. \<Sum>j<n. c j * f j k) = (\<lambda>k. \<Sum>j<n. c j * (S ^^ m) (f j) k)"
  by (induction m) (simp_all add: shift_lin)

lemma shift_pow_unit: "j < d \<Longrightarrow> (S ^^ j) unit = (\<lambda>k. of_bool (k = j))"
proof (induction j)
  case (Suc j)
  then have "S (\<lambda>k. of_bool (k = j)) = (\<lambda>k. of_bool (k = Suc j))"
    by (auto simp: shift_def fun_eq_iff)
  then show ?case using Suc by simp
qed (auto simp: unit_def)

lemma unit_sum: "(\<And>k. d \<le> k \<Longrightarrow> w k = 0) \<Longrightarrow> (\<lambda>k. \<Sum>j<d. w j * (S ^^ j) unit k) = w"
proof
  fix k assume w: "\<And>k. d \<le> k \<Longrightarrow> w k = (0::int)"
  have "(\<Sum>j<d. w j * (S ^^ j) unit k) = (\<Sum>j<d. if j = k then w k else 0)"
    by (intro sum.cong) (auto simp: shift_pow_unit)
  then show "(\<Sum>j<d. w j * (S ^^ j) unit k) = w k" using w [of k] by (simp add: sum.delta)
qed

text \<open>The polynomial vanishes at the shift.\<close>

lemma cayley_hamilton:
  assumes w: "\<And>k. d \<le> k \<Longrightarrow> w k = 0"
  shows "(S ^^ d) w = (\<lambda>k. \<Sum>i<d. - dig p a i * (S ^^ i) w k)"
proof -
  let ?A = "\<lambda>k. if k < d then - dig p a k else 0"
  have e: "d = Suc (d - 1)" by simp
  have "(S ^^ d) unit = S ((S ^^ (d - 1)) unit)" by (metis e funpow.simps(2) comp_apply)
  also have "\<dots> = ?A" by (auto simp: shift_pow_unit shift_def fun_eq_iff)
  also have "\<dots> = (\<lambda>k. \<Sum>i<d. ?A i * (S ^^ i) unit k)" by (rule unit_sum [symmetric]) simp
  also have "\<dots> = (\<lambda>k. \<Sum>i<d. - dig p a i * (S ^^ i) unit k)"
    by (intro ext sum.cong) simp_all
  finally have u: "(S ^^ d) unit = (\<lambda>k. \<Sum>i<d. - dig p a i * (S ^^ i) unit k)" .
  have j: "(S ^^ d) ((S ^^ j) unit) k = (\<Sum>i<d. - dig p a i * (S ^^ i) ((S ^^ j) unit) k)" for j k
  proof -
    have comm: "(S ^^ i) ((S ^^ j) x) = (S ^^ j) ((S ^^ i) x)" for i x
      by (metis add.commute funpow_add o_apply)
    have "(S ^^ d) ((S ^^ j) unit) = (S ^^ j) ((S ^^ d) unit)" by (rule comm)
    also have "\<dots> = (\<lambda>k. \<Sum>i<d. - dig p a i * (S ^^ j) ((S ^^ i) unit) k)" by (simp only: u shift_pow_lin)
    finally show ?thesis by (simp only: comm)
  qed
  have "(S ^^ d) (\<lambda>k. \<Sum>j<d. w j * (S ^^ j) unit k)
    = (\<lambda>k. \<Sum>j<d. w j * (\<Sum>i<d. - dig p a i * (S ^^ i) ((S ^^ j) unit) k))"
    by (simp only: shift_pow_lin j)
  also have "\<dots> = (\<lambda>k. \<Sum>i<d. - dig p a i * (\<Sum>j<d. w j * (S ^^ i) ((S ^^ j) unit) k))"
    by (simp only: sum_distrib_left) (subst sum.swap, simp only: mult.left_commute)
  also have "\<dots> = (\<lambda>k. \<Sum>i<d. - dig p a i * (S ^^ i) (\<lambda>k. \<Sum>j<d. w j * (S ^^ j) unit k) k)"
    by (simp only: shift_pow_lin)
  finally show ?thesis by (simp only: unit_sum [OF w])
qed

lemma mul_shift:
  assumes w: "\<And>k. d \<le> k \<Longrightarrow> w k = 0"
  shows "(\<lambda>k. \<Sum>i<d. S v i * (S ^^ i) w k) = S (\<lambda>k. \<Sum>i<d. v i * (S ^^ i) w k)"
proof
  fix k
  obtain m where m: "d = Suc m" by (metis p_pos(3) gr0_conv_Suc)
  then have e: "d - Suc 0 = m" by simp
  have "(\<Sum>i<d. S v i * (S ^^ i) w k)
    = (\<Sum>i<d. (if i = 0 then 0 else v (i - 1)) * (S ^^ i) w k) + v m * (\<Sum>i<d. - dig p a i * (S ^^ i) w k)"
    by (simp add: shift_def left_diff_distrib sum_subtractf sum_distrib_left sum_negf e mult.assoc)
  also have "(\<Sum>i<d. (if i = 0 then 0 else v (i - 1)) * (S ^^ i) w k) = (\<Sum>i<m. v i * (S ^^ Suc i) w k)"
    unfolding m by (subst sum.lessThan_Suc_shift) simp
  also have "(\<Sum>i<d. - dig p a i * (S ^^ i) w k) = (S ^^ Suc m) w k"
    by (simp only: cayley_hamilton [OF w] m [symmetric])
  also have "(\<Sum>i<m. v i * (S ^^ Suc i) w k) + v m * (S ^^ Suc m) w k = (\<Sum>i<d. v i * S ((S ^^ i) w) k)"
    by (simp add: m)
  finally show "(\<Sum>i<d. S v i * (S ^^ i) w k) = S (\<lambda>k. \<Sum>i<d. v i * (S ^^ i) w k) k"
    by (simp only: shift_lin)
qed

lemma dig_high: "e < p ^ d \<Longrightarrow> d \<le> k \<Longrightarrow> dig p e k = 0"
proof -
  assume "e < p ^ d" "d \<le> k"
  moreover have "p ^ d \<le> p ^ k" using \<open>d \<le> k\<close> p by (intro power_increasing) auto
  ultimately have "e < p ^ k" by linarith
  then show ?thesis by (simp add: dig_def)
qed

lemma sum_mod_cong: "(\<And>i. i \<in> A \<Longrightarrow> f i mod m = g i mod m) \<Longrightarrow> sum f A mod m = sum g A mod m" for m :: int
  by (metis (mono_tags, lifting) mod_sum_eq sum.cong)

lemma gf_mul_x:
  assumes "f < p ^ d"
  shows "gf_mul p d a (gf_x p d a e) f = gf_x p d a (gf_mul p d a e f)"
proof -
  have "gf_mul p d a (gf_x p d a e) f = code p d (\<lambda>k. \<Sum>i<d. S (dig p e) i * (S ^^ i) (dig p f) k)"
    unfolding gf_mul_def
    by (rule code_cong, intro sum_mod_cong mod_mult_cong) (auto simp: dig_gf_x)
  also have "\<dots> = gf_x p d a (gf_mul p d a e f)"
    using mul_shift [of "dig p f" "dig p e"] dig_high [OF assms] by (simp add: gf_mul_def gf_x_code)
  finally show ?thesis .
qed

lemma dig_one: "i < d \<Longrightarrow> dig p 1 i = of_bool (i = 0)"
  using one_less_power [of p i] p by (cases "i = 0") (auto simp: dig_def)

lemma gf_mul_0 [simp]: "gf_mul p d a 0 f = 0"
  unfolding gf_mul_def by (rule code_eqI) simp_all

lemma gf_mul_1: "f < p ^ d \<Longrightarrow> gf_mul p d a 1 f = f"
proof -
  assume f: "f < p ^ d"
  have "(\<Sum>i<d. dig p 1 i * (S ^^ i) (dig p f) k) = (\<Sum>i<d. if i = 0 then dig p f k else 0)" for k
    by (intro sum.cong) (auto simp: dig_one [simplified])
  then show ?thesis using f by (simp add: gf_mul_def code_dig)
qed

lemma gf_mul_pow: "f < p ^ d \<Longrightarrow> gf_mul p d a ((gf_x p d a ^^ n) 1) f = (gf_x p d a ^^ n) f"
  by (induction n) (simp_all add: gf_mul_1 [simplified] gf_mul_x)

end

subsection \<open>Primitive polynomials\<close>

locale primitive_residues = residues +
  assumes prime: "prime_number p" and primitive: "primitive_poly p d a"
begin

lemma x_order: "(gf_x p d a ^^ (p ^ d - 1)) (Suc 0) = Suc 0"
  using primitive by (simp add: primitive_poly_def)

lemma x_distinct: "i < j \<Longrightarrow> j < p ^ d - 1 \<Longrightarrow> (gf_x p d a ^^ i) (Suc 0) \<noteq> (gf_x p d a ^^ j) (Suc 0)"
proof
  assume ij: "i < j" "j < p ^ d - 1" "(gf_x p d a ^^ i) (Suc 0) = (gf_x p d a ^^ j) (Suc 0)"
  let ?k = "p ^ d - 1 - j"
  have "(gf_x p d a ^^ (?k + i)) (Suc 0) = (gf_x p d a ^^ (?k + j)) (Suc 0)"
    using ij(3) by (simp only: funpow_add o_apply)
  also have "?k + j = p ^ d - 1" using ij by simp
  finally have "(gf_x p d a ^^ (?k + i)) (Suc 0) = Suc 0" by (simp only: x_order)
  moreover have "?k + i \<in> {1..<p ^ d - 1}" using ij by (simp only: atLeastLessThan_iff) linarith
  ultimately show False using primitive by (auto simp: primitive_poly_def)
qed

lemma x_pow_0: "(gf_x p d a ^^ n) 0 = 0"
  by (induction n) (simp_all add: gf_x_0)

lemma x_nonzero: "i < p ^ d - 1 \<Longrightarrow> (gf_x p d a ^^ i) (Suc 0) \<noteq> 0"
proof
  assume i: "i < p ^ d - 1" "(gf_x p d a ^^ i) (Suc 0) = 0"
  then have "(gf_x p d a ^^ ((p ^ d - 1 - i) + i)) (Suc 0) = 0"
    by (simp only: funpow_add o_apply x_pow_0)
  then show False using i x_order by simp
qed

lemma x_inj: "inj_on (\<lambda>i. (gf_x p d a ^^ i) (Suc 0)) {..<p ^ d - 1}"
  unfolding inj_on_def using x_distinct by (metis lessThan_iff linorder_neqE_nat)

lemma x_powers: "{..<p ^ d} = insert 0 ((\<lambda>i. (gf_x p d a ^^ i) (Suc 0)) ` {..<p ^ d - 1})"
proof (rule sym, rule card_subset_eq)
  show "insert 0 ((\<lambda>i. (gf_x p d a ^^ i) (Suc 0)) ` {..<p ^ d - 1}) \<subseteq> {..<p ^ d}"
    using gf_x_pow_less [of "Suc 0"] by auto
  have "card (insert 0 ((\<lambda>i. (gf_x p d a ^^ i) (Suc 0)) ` {..<p ^ d - 1})) = Suc (p ^ d - 1)"
    using x_nonzero
    by (subst card_insert_disjoint) (auto simp: card_image [OF x_inj] simp del: One_nat_def neq0_conv)
  then show "card (insert 0 ((\<lambda>i. (gf_x p d a ^^ i) (Suc 0)) ` {..<p ^ d - 1})) = card {..<p ^ d}" by simp
qed simp

lemma double_zero: "even (p ^ d) \<Longrightarrow> x < p ^ d \<Longrightarrow> gf_add p d x x = 0"
proof -
  assume "even (p ^ d)"
  then have "p = 2" using prime_number_dvd [OF prime, of 2] by auto
  then show ?thesis unfolding gf_add_def by (intro code_eqI) (auto simp: mult_2 [symmetric] dig_def)
qed

end

sublocale primitive_residues \<subseteq> cyclic_field "gf_add p d" 0 "Suc 0" "gf_x p d a" "p ^ d" "{..<p ^ d}"
proof
  show "2 \<le> p ^ d" using p_pow_pos(2) by linarith
  show "inj_on (\<lambda>i. (gf_x p d a ^^ i) (Suc 0)) {..<p ^ d - 1}" by (rule x_inj)
  show "(gf_x p d a ^^ i) (Suc 0) \<noteq> 0" for i
  proof -
    have "(gf_x p d a ^^ (n + k * (p ^ d - 1))) (Suc 0) = (gf_x p d a ^^ n) (Suc 0)" for n k
    proof (induction k)
      case (Suc k)
      have "n + Suc k * (p ^ d - 1) = (n + k * (p ^ d - 1)) + (p ^ d - 1)" by simp
      then have "(gf_x p d a ^^ (n + Suc k * (p ^ d - 1))) (Suc 0) = (gf_x p d a ^^ (n + k * (p ^ d - 1))) ((gf_x p d a ^^ (p ^ d - 1)) (Suc 0))"
        by (simp only: funpow_add o_apply)
      then show ?case by (simp only: Suc x_order)
    qed simp
    from this [of "i mod (p ^ d - 1)" "i div (p ^ d - 1)"]
    have "(gf_x p d a ^^ i) (Suc 0) = (gf_x p d a ^^ (i mod (p ^ d - 1))) (Suc 0)" by (simp only: mod_div_mult_eq)
    moreover have "i mod (p ^ d - 1) < p ^ d - 1" using p_pow_pos(2) by simp
    ultimately show ?thesis using x_nonzero by simp
  qed
next
  fix x y z assume "x \<in> {..<p ^ d}" "y \<in> {..<p ^ d}"
  show "gf_add p d x y \<in> {..<p ^ d}" "gf_add p d x y = gf_add p d y x"
    "gf_x p d a (gf_add p d x y) = gf_add p d (gf_x p d a x) (gf_x p d a y)"
    by (auto simp: gf_x_add intro: gf_add_comm)
  show "gf_add p d (gf_add p d x y) z = gf_add p d x (gf_add p d y z)" by (rule gf_add_assoc)
next
  fix x assume "x \<in> {..<p ^ d}"
  then show "gf_add p d x 0 = x" "\<exists>y\<in>{..<p ^ d}. gf_add p d x y = 0"
    "even (p ^ d) \<Longrightarrow> gf_add p d x x = 0"
    using gf_add_inverse [of x] by (auto intro: gf_add_0 double_zero)
next
  show "gf_x p d a 0 = 0" by (rule gf_x_0)
  show "(gf_x p d a ^^ (p ^ d - 1)) (Suc 0) = Suc 0" by (rule x_order)
  show "{..<p ^ d} = insert 0 ((\<lambda>i. (gf_x p d a ^^ i) (Suc 0)) ` {..<p ^ d - 1})" by (rule x_powers)
qed

context primitive_residues
begin

lemma cyclic: "cyclic_field (gf_add p d) 0 (Suc 0) (gf_x p d a) (p ^ d) {..<p ^ d}"
  by (rule cyclic_field_axioms)

lemma PROD_FFV_mul:
  assumes "zech f" "v < p ^ d" "w < p ^ d"
  shows "elt (PROD_FFV v w f) = gf_mul p d a (elt v) (elt w)"
proof -
  have "elt w < p ^ d" using elt_in by blast
  then show ?thesis using PROD_FFV_correct(2) [OF assms] gf_mul_pow [of "elt w" "v - 1"] by (simp add: elt_def)
qed

end

end
