(* ===== verification/FinFieldBuild.thy ===== *)
theory FinFieldBuild
  imports FinFieldPoly
begin

text \<open>
  The construction of the successor table: the step of the kernel is multiplication by \<open>x\<close>, the index table inverts the powers of
  \<open>x\<close>, and the successor table adds one. The polynomial of a prime field comes from the search for
  the smallest primitive root, which ends.
\<close>

subsection \<open>One step\<close>

lemma digit_loop_eq:
  assumes "2 \<le> p"
  shows "k \<le> d \<Longrightarrow> digit_loop p (p ^ d) a f l (p ^ k) e
    = Some (e + (\<Sum>j=k..<d. (f div p ^ j + l * (a div p ^ j)) mod p * p ^ j))"
proof (induction "d - k" arbitrary: k e)
  case 0
  then show ?case by (subst digit_loop.simps) simp
next
  case (Suc n)
  then have k: "k < d" by simp
  then have "p ^ k < p ^ d" using assms by simp
  moreover have "digit_loop p (p ^ d) a f l (p ^ Suc k) (e + p ^ k * ((f div p ^ k + l * (a div p ^ k)) mod p))
    = Some (e + p ^ k * ((f div p ^ k + l * (a div p ^ k)) mod p)
        + (\<Sum>j=Suc k..<d. (f div p ^ j + l * (a div p ^ j)) mod p * p ^ j))"
    using Suc k by (intro Suc.hyps(1)) simp_all
  ultimately show ?case
    using k by (subst digit_loop.simps) (simp add: sum.atLeast_Suc_lessThan mult.commute add.assoc)
qed

lemma digit_of_mod: "i < m \<Longrightarrow> 0 < p \<Longrightarrow> e mod p ^ m div p ^ i mod p = e div p ^ i mod p" for p :: nat
  using digit_sum_nth [of m "\<lambda>i. e div p ^ i mod p" p i] by (simp add: digit_sum_mod)

lemma nat_less_exp_bits: "(\<And>i. d \<le> i \<Longrightarrow> \<not> bit n i) \<Longrightarrow> n < 2 ^ d" for n :: nat
proof -
  assume *: "\<And>i. d \<le> i \<Longrightarrow> \<not> bit n i"
  have "take_bit d n = n" by (rule bit_eqI) (use * leI in \<open>auto simp: bit_take_bit_iff\<close>)
  then show ?thesis by (metis take_bit_nat_less_exp)
qed

lemma dig_bit: "dig 2 e i = of_bool (bit e i)"
  by (simp add: dig_def bit_iff_odd mod2_eq_if)

context residues
begin

lemma mul_x_odd:
  assumes e: "e < p ^ d" and "p \<noteq> 2"
  shows "mul_x p (p ^ d) a e = Some (gf_x p d a e)"
proof -
  define h where "h = e div p ^ (d - 1)"
  define f where "f = p * (e mod p ^ (d - 1))"
  define l where "l = ((p - 1) * h) mod p"
  have qp: "p ^ d div p = p ^ (d - 1)" using d p by (cases d) auto
  have "h < p" using e d by (cases d) (auto simp: h_def less_mult_imp_div_less)
  then have h: "dig p e (d - 1) = int h" by (simp add: dig_def h_def)
  have "mul_x p (p ^ d) a e = digit_loop p (p ^ d) a f l (p ^ 0) 0"
    using assms by (simp add: mul_x_def qp f_def l_def h_def Let_def)
  also have "\<dots> = Some (\<Sum>j<d. (f div p ^ j + l * (a div p ^ j)) mod p * p ^ j)"
    by (subst digit_loop_eq) (simp_all add: p atLeast0LessThan)
  also have "(\<Sum>j<d. (f div p ^ j + l * (a div p ^ j)) mod p * p ^ j) = gf_x p d a e"
    unfolding gf_x_def code_def
  proof (rule sum.cong [OF refl], rule arg_cong2 [where f = "(*)", OF _ refl])
    fix j assume j: "j \<in> {..<d}"
    have "int l mod int p = - int h mod int p"
    proof -
      have "int ((p - 1) * h) = - int h + int h * int p" using p by (simp add: of_nat_diff algebra_simps)
      then show ?thesis by (simp only: l_def zmod_int mod_mod_trivial mod_mult_self1)
    qed
    then have l: "int (l * (a div p ^ j)) mod int p = (- int h * dig p a j) mod int p"
      unfolding of_nat_mult dig_def zmod_int by (intro mod_mult_cong) simp_all
    have f: "int (f div p ^ j) mod int p = (if j = 0 then 0 else dig p e (j - 1)) mod int p"
    proof (cases j)
      case 0
      then show ?thesis by (simp add: f_def)
    next
      case (Suc i)
      then have "f div p ^ j = e mod p ^ (d - 1) div p ^ i" using p by (simp add: f_def div_mult2_eq)
      then have "f div p ^ j mod p = e div p ^ i mod p" using digit_of_mod [of i "d - 1" p e] j Suc p by simp
      then show ?thesis using Suc by (simp add: dig_def flip: zmod_int)
    qed
    have "int ((f div p ^ j + l * (a div p ^ j)) mod p) = (int (f div p ^ j) + int (l * (a div p ^ j))) mod int p"
      by (simp add: zmod_int)
    also have "\<dots> = ((if j = 0 then 0 else dig p e (j - 1)) + - int h * dig p a j) mod int p"
      by (rule mod_add_cong [OF f l])
    also have "\<dots> = shift p d a (dig p e) j mod int p" using j by (simp add: shift_def h [simplified])
    finally show "(f div p ^ j + l * (a div p ^ j)) mod p = nat (shift p d a (dig p e) j mod int p)" by linarith
  qed
  finally show ?thesis .
qed

lemma mul_x_even:
  assumes e: "e < p ^ d" and a: "a < p ^ d" and p2: "p = 2"
  shows "mul_x p (p ^ d) a e = Some (gf_x p d a e)"
proof -
  have high: "\<not> bit a i" "\<not> bit e i" if "d \<le> i" for i
  proof -
    have "(2::nat) ^ d \<le> 2 ^ i" using that by simp
    then have "a < 2 ^ i" "e < 2 ^ i" using a e unfolding p2 by linarith+
    then show "\<not> bit a i" "\<not> bit e i" by (simp_all add: bit_iff_odd)
  qed
  have dbl: "bit (2 * e) i \<longleftrightarrow> 0 < i \<and> bit e (i - 1)" for i
    by (cases i) (simp_all add: bit_0 bit_Suc)
  define r where "r = (if bit e (d - 1) then (2 * e) XOR a XOR 2 ^ d else 2 * e)"
  have "mul_x p (p ^ d) a e = Some r"
    using d by (simp add: mul_x_def p2 r_def and_exp_eq_0_iff_not_bit dbl)
  moreover have r: "bit r i \<longleftrightarrow> (if i < d then bit (2 * e) i \<noteq> (bit e (d - 1) \<and> bit a i) else False)" for i
  proof -
    consider "i < d" | "i = d" | "d < i" by linarith
    then show ?thesis
      using high [of i] high [of "i - 1"] d
      by cases (auto simp: r_def bit_xor_iff bit_exp_iff dbl)
  qed
  have "gf_x p d a e = r"
    unfolding gf_x_def
  proof (rule code_eqI)
    show "r < p ^ d" unfolding p2 using r by (intro nat_less_exp_bits) simp
    fix i assume i: "i < d"
    show "dig p r i = shift p d a (dig p e) i mod int p"
      using i by (cases "i = 0") (auto simp: p2 dig_bit r dbl shift_def of_bool_def)
  qed
  ultimately show ?thesis by simp
qed

lemma mul_x_correct: "e < p ^ d \<Longrightarrow> a < p ^ d \<Longrightarrow> mul_x p (p ^ d) a e = Some (gf_x p d a e)"
  using mul_x_odd mul_x_even by blast

end

subsection \<open>The tables\<close>

context primitive_residues
begin

definition inverts :: "nat list \<Rightarrow> bool" where
  "inverts indx \<longleftrightarrow> length indx = p ^ d \<and> (\<forall>v<p ^ d. indx ! elt v = v)"

lemma indx_loop_inverts:
  assumes a: "a < p ^ d" and q: "p ^ d \<le> 2 ^ 16"
  shows "n \<le> p ^ d - 1 \<Longrightarrow> length indx = p ^ d \<Longrightarrow> (\<forall>v\<le>n. indx ! elt v = v) \<Longrightarrow>
    \<exists>indx'. indx_loop p (p ^ d) a ((gf_x p d a ^^ n) (Suc 0)) n indx = Some indx' \<and> inverts indx'"
proof (induction "p ^ d - 1 - n" arbitrary: n indx)
  case 0
  then have "n = p ^ d - 1" by simp
  then have "\<forall>v<p ^ d. indx ! elt v = v" using 0 by auto
  then show ?case using 0 \<open>n = p ^ d - 1\<close> by (subst indx_loop.simps) (simp add: inverts_def)
next
  case (Suc m)
  then have n: "n < p ^ d - 1" by simp
  let ?e = "(gf_x p d a ^^ n) (Suc 0)"
  have e: "?e < p ^ d" using pow_in by blast
  have eq: "?e = elt (Suc n)" by (simp add: elt_def)
  let ?indx = "indx[?e := Suc n]"
  have "\<forall>v\<le>Suc n. ?indx ! elt v = v"
  proof (intro allI impI)
    fix v assume v: "v \<le> Suc n"
    show "?indx ! elt v = v"
    proof (cases "v = Suc n")
      case True
      then show ?thesis using e eq Suc.prems(2) by simp
    next
      case False
      then have "elt v \<noteq> elt (Suc n)" using v n elt_inj [of v "Suc n"] by auto
      then show ?thesis using Suc.prems(3) v False eq by simp
    qed
  qed
  then have "\<exists>indx'. indx_loop p (p ^ d) a ((gf_x p d a ^^ Suc n) (Suc 0)) (Suc n) ?indx = Some indx' \<and> inverts indx'"
    using Suc n by (intro Suc.hyps(1)) simp_all
  moreover have "u16 (n + 1) = Suc n" using n q by simp
  ultimately show ?case
    using n e Suc.prems(2) mul_x_correct [OF e a] by (subst indx_loop.simps) (simp add: put_def)
qed

lemma succ_loop_adds:
  assumes indx: "inverts indx"
  shows "0 < e \<Longrightarrow> e \<le> p ^ d \<Longrightarrow> f = p * (e div p) + p - 1 \<Longrightarrow> length s = p ^ d \<Longrightarrow> s ! 0 = p ^ d - 1 \<Longrightarrow>
     (\<forall>x. 0 < x \<longrightarrow> x < e \<longrightarrow> s ! (indx ! x) = indx ! gf_add p d x 1) \<Longrightarrow>
    \<exists>s'. succ_loop p (p ^ d) indx e f s = Some s' \<and> length s' = p ^ d \<and> s' ! 0 = p ^ d - 1
      \<and> (\<forall>x. 0 < x \<longrightarrow> x < p ^ d \<longrightarrow> s' ! (indx ! x) = indx ! gf_add p d x 1)"
proof (induction "p ^ d - e" arbitrary: e f s)
  case 0
  then have "e = p ^ d" by simp
  then show ?case using 0 by (subst succ_loop.simps) auto
next
  case (Suc m)
  then have e: "e < p ^ d" by simp
  have len: "length indx = p ^ d" using indx by (simp add: inverts_def)
  have inv_at: "indx ! x < p ^ d \<and> elt (indx ! x) = x" if "x < p ^ d" for x
    using elt_surj [of x] indx that by (auto simp: inverts_def)
  have em: "e mod p < p" by simp
  have edm: "e = p * (e div p) + e mod p" by simp
  have lt: "e < f \<longleftrightarrow> e mod p < p - 1" using Suc.prems(3) em edm by linarith
  let ?v = "if e < f then e + 1 else e + 1 - p"
  let ?f = "if e < f then f else f + p"
  have v: "?v = gf_add p d e 1"
  proof (cases "e < f")
    case True
    then show ?thesis using gf_add_one [OF e] lt edm by (simp add: Suc_lessI)
  next
    case False
    then have "e mod p = p - 1" using lt em by linarith
    then show ?thesis using gf_add_one [OF e] False edm p by simp
  qed
  have f: "?f = p * ((e + 1) div p) + p - 1"
  proof (cases "e < f")
    case True
    then have "e mod p + 1 < p" using lt by linarith
    then have z: "(e mod p + 1) div p = 0" by (rule div_less)
    have "(e mod p + 1 + p * (e div p)) div p = e div p + (e mod p + 1) div p"
      by (rule div_mult_self2) simp
    moreover have "e mod p + 1 + p * (e div p) = e + 1" using edm by linarith
    ultimately have "(e + 1) div p = e div p" using z by (metis add.right_neutral)
    then show ?thesis using Suc.prems(3) True by simp
  next
    case False
    then have "e mod p = p - 1" using lt em by linarith
    then have "e + 1 = p * (e div p + 1)" using edm p by simp
    then have "(e + 1) div p = e div p + 1" using p by (simp only: nonzero_mult_div_cancel_left)
    then show ?thesis using Suc.prems(3) False by simp
  qed
  let ?s = "s[indx ! e := indx ! ?v]"
  have ne: "indx ! e \<noteq> 0" using inv_at [OF e] Suc.prems(1) by (metis elt_0 less_irrefl)
  have "\<exists>s'. succ_loop p (p ^ d) indx (e + 1) ?f ?s = Some s' \<and> length s' = p ^ d \<and> s' ! 0 = p ^ d - 1
      \<and> (\<forall>x. 0 < x \<longrightarrow> x < p ^ d \<longrightarrow> s' ! (indx ! x) = indx ! gf_add p d x 1)"
  proof (rule Suc.hyps(1))
    show "\<forall>x. 0 < x \<longrightarrow> x < e + 1 \<longrightarrow> ?s ! (indx ! x) = indx ! gf_add p d x 1"
    proof (intro allI impI)
      fix x assume x: "0 < x" "x < e + 1"
      show "?s ! (indx ! x) = indx ! gf_add p d x 1"
      proof (cases "x = e")
        case True
        then show ?thesis using v inv_at [OF e] Suc.prems(4) by simp
      next
        case False
        then have "indx ! x \<noteq> indx ! e" using inv_at [OF e] inv_at [of x] x e by auto
        then show ?thesis using Suc.prems(6) x False by simp
      qed
    qed
  qed (use Suc e f ne in simp_all)
  moreover have "?v < p ^ d" unfolding v by simp
  ultimately show ?case
    using e len inv_at [OF e] Suc.prems(4) by (subst succ_loop.simps) (simp add: put_def rd_def)
qed

lemma succ_table_zech:
  assumes a: "a < p ^ d" and q: "p ^ d \<le> 2 ^ 16"
  shows "\<exists>f. succ_table p (p ^ d) a = Some f \<and> zech f"
proof -
  let ?z = "replicate (p ^ d) (0::nat)"
  obtain indx where indx: "indx_loop p (p ^ d) a 1 0 ?z = Some indx" "inverts indx"
    using indx_loop_inverts [OF a q, of 0 ?z] by auto
  have z: "?z[0 := 0] = ?z" by (simp add: list_update_same_conv)
  have "u16 (p ^ d - 1) = p ^ d - 1" using q p_pow_pos(2) by (simp add: u16_def)
  moreover have "\<exists>f. succ_loop p (p ^ d) indx 1 (p - 1) (?z[0 := p ^ d - 1]) = Some f \<and> length f = p ^ d \<and> f ! 0 = p ^ d - 1
      \<and> (\<forall>x. 0 < x \<longrightarrow> x < p ^ d \<longrightarrow> f ! (indx ! x) = indx ! gf_add p d x 1)"
    using p_pow_pos p by (intro succ_loop_adds [OF indx(2)]) auto
  ultimately obtain f where f: "succ_table p (p ^ d) a = Some f" "length f = p ^ d" "f ! 0 = p ^ d - 1"
    "\<And>x. 0 < x \<Longrightarrow> x < p ^ d \<Longrightarrow> f ! (indx ! x) = indx ! gf_add p d x 1"
    using indx(1) z by (auto simp: succ_table_def put_def simp del: One_nat_def)
  have "f ! n < p ^ d \<and> elt (f ! n) = gf_add p d (elt n) (Suc 0)" if n: "0 < n" "n < p ^ d" for n
  proof -
    have "elt n < p ^ d" using elt_in by blast
    moreover have "elt n \<noteq> 0" using elt_inj [of n 0] n by auto
    moreover obtain w where w: "w < p ^ d" "elt w = gf_add p d (elt n) (Suc 0)"
      using elt_surj [of "gf_add p d (elt n) (Suc 0)"] by auto
    moreover have "indx ! elt n = n" "indx ! elt w = w" using n w(1) indx(2) by (simp_all add: inverts_def)
    ultimately have "f ! n = w" using f(4) [of "elt n"] by (metis One_nat_def gr0I)
    then show ?thesis using w by simp
  qed
  then show ?thesis using f by (auto simp: zech_def)
qed

end

end
