(* ===== verification/FinFieldRoot.thy ===== *)
theory FinFieldRoot
  imports FinFieldBuild
begin

text \<open>
  The search for the smallest primitive root of a prime ends: every prime has a primitive root. The proof takes, for each
  prime power dividing \<open>p - 1\<close>, an element of that order, and multiplies elements of coprime orders.
\<close>

subsection \<open>Roots of polynomials modulo a prime\<close>

lemma prime_number_int_dvd: "prime_number p \<Longrightarrow> int p dvd a * b \<Longrightarrow> int p dvd a \<or> int p dvd b"
  using prime_number_dvd_mult [of p "nat \<bar>a\<bar>" "nat \<bar>b\<bar>"] by (simp add: nat_abs_mult_distrib [symmetric] nat_dvd_iff)

lemma poly_roots_bound:
  assumes "prime_number p"
  shows "\<not> int p dvd c n \<Longrightarrow> card {x \<in> {0..<int p}. int p dvd (\<Sum>i\<le>n. c i * x ^ i)} \<le> n"
proof (induction n arbitrary: c)
  case 0
  then have "{x \<in> {0..<int p}. int p dvd (\<Sum>i\<le>0. c i * x ^ i)} = {}" by simp
  then show ?case by (simp only: card.empty)
next
  case (Suc n)
  let ?f = "\<lambda>x. \<Sum>i\<le>Suc n. c i * x ^ i" and ?R = "{x \<in> {0..<int p}. int p dvd (\<Sum>i\<le>Suc n. c i * x ^ i)}"
  show ?case
  proof (cases "?R = {}")
    case False
    then obtain y where y: "0 \<le> y" "y < int p" "int p dvd ?f y" by auto
    define b where "b j = (\<Sum>k<Suc n - j. c (j + k + 1) * y ^ k)" for j
    let ?g = "\<lambda>x. \<Sum>i\<le>n. b i * x ^ i"
    let ?G = "{x \<in> {0..<int p}. int p dvd (\<Sum>i\<le>n. b i * x ^ i)}"
    have fact: "?f x - ?f y = (x - y) * ?g x" for x
      by (subst polyfun_diff_alt) (simp_all add: b_def sum_distrib_right sum_distrib_left lessThan_Suc_atMost mult.assoc)
    have "x \<in> insert y ?G" if x: "x \<in> ?R" for x
    proof (rule ccontr)
      assume n: "x \<notin> insert y ?G"
      have "int p dvd (x - y) * ?g x" unfolding fact [symmetric] using x y(3) by (intro dvd_diff) auto
      then have "int p dvd x - y" using prime_number_int_dvd [OF assms] n x by auto
      moreover have "x \<noteq> y" "\<bar>x - y\<bar> < int p" using n x y by auto
      ultimately show False using zdvd_imp_le [of "int p" "\<bar>x - y\<bar>"] by auto
    qed
    then have sub: "?R \<subseteq> insert y ?G" by blast
    have "\<not> int p dvd b n" using Suc.prems by (simp add: b_def)
    then have G: "card ?G \<le> n" by (rule Suc.IH)
    have fin: "finite ?G" by (rule finite_subset [of _ "{0..<int p}"]) auto
    have "card ?R \<le> card (insert y ?G)" using sub fin by (intro card_mono) auto
    also have "\<dots> \<le> Suc (card ?G)" using fin by (simp add: card_insert_if)
    finally show ?thesis using G by simp
  next
    case True
    then show ?thesis by (simp only: card.empty)
  qed
qed

lemma power_roots_bound:
  assumes "prime_number p" "0 < n"
  shows "card {x \<in> {1..<p}. x ^ n mod p = 1} \<le> n"
proof -
  define c where "c i = (if i = n then 1 else if i = 0 then - 1 else 0 :: int)" for i
  have ev: "(\<Sum>i\<le>n. c i * x ^ i) = x ^ n - 1" for x
  proof -
    have "(\<Sum>i\<le>n. c i * x ^ i) = (\<Sum>i\<in>{0, n}. c i * x ^ i)"
      by (rule sum.mono_neutral_right) (auto simp: c_def)
    then show ?thesis using assms(2) by (simp add: c_def)
  qed
  have c: "\<not> int p dvd c n" using prime_number_ge_2 [OF assms(1)] by (simp add: c_def)
  have "int ` {x \<in> {1..<p}. x ^ n mod p = 1} \<subseteq> {x \<in> {0..<int p}. int p dvd (\<Sum>i\<le>n. c i * x ^ i)}"
  proof safe
    fix x assume x: "x \<in> {1..<p}" "x ^ n mod p = 1"
    then have "int x ^ n mod int p = 1" by (metis of_nat_1 of_nat_mod of_nat_power)
    then show "int p dvd (\<Sum>i\<le>n. c i * int x ^ i)"
      unfolding ev using prime_number_ge_2 [OF assms(1)] by (simp add: mod_eq_dvd_iff [symmetric])
  qed auto
  then have "card (int ` {x \<in> {1..<p}. x ^ n mod p = 1}) \<le> card {x \<in> {0..<int p}. int p dvd (\<Sum>i\<le>n. c i * x ^ i)}"
    by (intro card_mono) (auto intro: finite_subset [of _ "{0..<int p}"])
  also have "\<dots> \<le> n" by (rule poly_roots_bound [where c = c, OF assms(1) c])
  finally show ?thesis by (simp add: card_image)
qed

subsection \<open>Orders\<close>

definition has_order :: "nat \<Rightarrow> nat \<Rightarrow> nat \<Rightarrow> bool" where
  "has_order p x n \<longleftrightarrow> 0 < n \<and> x ^ n mod p = 1 \<and> (\<forall>k. 0 < k \<longrightarrow> k < n \<longrightarrow> x ^ k mod p \<noteq> 1)"

lemma has_order_dvd:
  assumes "has_order p x n" "1 < p"
  shows "x ^ m mod p = 1 \<longleftrightarrow> n dvd m"
proof -
  have n: "0 < n" "x ^ n mod p = 1" using assms by (auto simp: has_order_def)
  have "x ^ m = (x ^ n) ^ (m div n) * x ^ (m mod n)"
    by (metis mult_div_mod_eq power_add power_mult)
  moreover have "(x ^ n) ^ (m div n) mod p = 1"
    using n(2) assms(2) by (subst power_mod [symmetric]) simp
  ultimately have "x ^ m mod p = x ^ (m mod n) mod p"
    by (metis mod_mult_left_eq mult_1)
  moreover have "m mod n < n" using n by simp
  ultimately have "x ^ m mod p = 1 \<longleftrightarrow> m mod n = 0"
    using assms by (auto simp: has_order_def)
  then show ?thesis by (simp add: dvd_eq_mod_eq_0)
qed

lemma has_orderI:
  assumes "0 < n" "\<And>m. x ^ m mod p = 1 \<longleftrightarrow> n dvd m"
  shows "has_order p x n"
  using assms by (auto simp: has_order_def dest: dvd_imp_le)

lemma has_order_mult:
  assumes x: "has_order p x m" and y: "has_order p y n" and co: "coprime m n" and p: "1 < p"
  shows "has_order p (x * y) (m * n)"
proof (rule has_orderI)
  show "0 < m * n" using x y by (simp add: has_order_def)
  fix k
  have half: "m' dvd k" if "has_order p x' m'" "has_order p y' n'" "coprime m' n'" "(x' * y') ^ k mod p = 1" for x' y' m' n'
  proof -
    have "((x' * y') ^ k) ^ n' mod p = 1" using that(4) p by (subst power_mod [symmetric]) simp
    moreover have "((x' * y') ^ k) ^ n' = x' ^ (k * n') * (y' ^ n') ^ k"
      by (simp add: power_mult_distrib power_mult [symmetric] mult.commute)
    moreover have "(y' ^ n') ^ k mod p = 1" using that(2) p by (subst power_mod [symmetric]) (simp add: has_order_def)
    ultimately have "x' ^ (k * n') mod p = 1" by (metis mod_mult_right_eq mult_1_right)
    then have "m' dvd k * n'" using has_order_dvd [OF that(1) p] by simp
    then show ?thesis using that(3) coprime_dvd_mult_left_iff by blast
  qed
  show "(x * y) ^ k mod p = 1 \<longleftrightarrow> m * n dvd k"
  proof
    assume 1: "(x * y) ^ k mod p = 1"
    then have "m dvd k" "n dvd k"
      using half [OF x y co] half [OF y x] co by (simp_all add: ac_simps)
    then show "m * n dvd k" using co by (simp add: divides_mult)
  next
    assume "m * n dvd k"
    then have "x ^ k mod p = 1" "y ^ k mod p = 1"
      using has_order_dvd [OF x p] has_order_dvd [OF y p] by (metis dvd_mult_left dvd_mult_right)+
    then have "(x ^ k mod p) * (y ^ k mod p) mod p = 1" using p by simp
    then show "(x * y) ^ k mod p = 1" by (simp only: power_mult_distrib mod_mult_eq)
  qed
qed

lemma mod_prime_cancel:
  assumes p: "prime_number p" and c: "\<not> p dvd c" and e: "c * x mod p = c * y mod p"
  shows "x mod p = y mod p"
proof -
  have main: "x mod p = y mod p" if "x \<le> y" "c * x mod p = c * y mod p" for x y
  proof -
    have "p dvd c * y - c * x" using that mod_eq_dvd_iff_nat [of "c * x" "c * y" p] by simp
    then have "p dvd c * (y - x)" by (simp add: diff_mult_distrib2)
    then have "p dvd y - x" using prime_number_dvd_mult [OF p] c by blast
    then show ?thesis using that mod_eq_dvd_iff_nat [of x y p] by simp
  qed
  then show ?thesis using main [of x y] main [of y x] e by (metis nat_le_linear)
qed

lemma prime_dvd_prod:
  assumes "prime_number p" "finite A" "p dvd prod f A"
  shows "\<exists>i\<in>A. p dvd f i"
  using assms(2,3) by (induction A) (use prime_number_dvd_mult [OF assms(1)] prime_number_ge_2 [OF assms(1)] in auto)

lemma fermat:
  assumes p: "prime_number p" and x: "x \<in> {1..<p}"
  shows "x ^ (p - 1) mod p = 1"
proof -
  let ?A = "{1..<p}"
  have p2: "2 \<le> p" using p by (rule prime_number_ge_2)
  have ndvd: "\<not> p dvd i" if "i \<in> ?A" for i using that by (auto dest: dvd_imp_le)
  have inj: "inj_on (\<lambda>i. x * i mod p) ?A"
  proof (rule inj_onI)
    fix i j assume "i \<in> ?A" "j \<in> ?A" "x * i mod p = x * j mod p"
    then show "i = j" using mod_prime_cancel [OF p ndvd [OF x], of i j] by simp
  qed
  have img: "(\<lambda>i. x * i mod p) ` ?A = ?A"
  proof (rule card_subset_eq)
    show "(\<lambda>i. x * i mod p) ` ?A \<subseteq> ?A"
    proof
      fix k assume "k \<in> (\<lambda>i. x * i mod p) ` ?A"
      then obtain i where i: "i \<in> ?A" "k = x * i mod p" by blast
      have "\<not> p dvd x * i" using prime_number_dvd_mult [OF p] ndvd x i(1) by blast
      then show "k \<in> ?A" using i(2) p2 by (auto simp: dvd_eq_mod_eq_0 Suc_le_eq)
    qed
  qed (rule finite_atLeastLessThan, rule card_image [OF inj])
  have "(\<Prod>i\<in>?A. x * i) mod p = (\<Prod>i\<in>?A. x * i mod p) mod p" by (rule mod_prod_eq [symmetric])
  also have "(\<Prod>i\<in>?A. x * i mod p) = \<Prod>?A" using prod.reindex [OF inj, of id] img by simp
  finally have "\<Prod>?A * x ^ (p - 1) mod p = \<Prod>?A * 1 mod p"
    by (simp add: prod.distrib mult.commute)
  moreover have "\<not> p dvd \<Prod>?A" using prime_dvd_prod [OF p, of ?A id] ndvd by auto
  ultimately have "x ^ (p - 1) mod p = 1 mod p" by (rule mod_prime_cancel [OF p, rotated])
  then show ?thesis using p2 by simp
qed

lemma prime_factor: "2 \<le> n \<Longrightarrow> \<exists>r. prime_number r \<and> r dvd n"
proof (induction n rule: less_induct)
  case (less n)
  show ?case
  proof (cases "prime_number n")
    case False
    then obtain m where "2 \<le> m" "m dvd n" "m < n" using composite_small_factor [OF less.prems] by blast
    then show ?thesis using less.IH [of m] dvd_trans by blast
  qed (use dvd_refl in blast)
qed

lemma prime_power_split:
  assumes "prime_number r" "0 < n"
  obtains k n0 where "n = r ^ k * n0" "\<not> r dvd n0"
  using assms(2)
proof (induction n arbitrary: thesis rule: less_induct)
  case (less n)
  show ?case
  proof (cases "r dvd n")
    case True
    then obtain m where m: "n = r * m" by blast
    then have "m < n" "0 < m" using prime_number_ge_2 [OF assms(1)] less.prems(2) by auto
    then obtain k n0 where "m = r ^ k * n0" "\<not> r dvd n0" using less.IH by metis
    then show ?thesis using m less.prems(1) [of "Suc k" n0] by simp
  next
    case False
    then show ?thesis using less.prems(1) [of 0 n] by simp
  qed
qed

lemma dvd_prime_power:
  assumes r: "prime_number r" and o: "o' dvd r ^ k" "o' \<noteq> r ^ k"
  shows "o' dvd r ^ (k - 1)"
proof -
  have "0 < r" using prime_number_ge_2 [OF r] by simp
  then have "0 < o'" using o(1) by (auto intro!: Nat.gr0I)
  then obtain j m where m: "o' = r ^ j * m" "\<not> r dvd m" using prime_power_split [OF r] by blast
  have "m dvd r ^ k" using o(1) m(1) by (metis dvd_mult_right)
  moreover have "coprime (r ^ k) m" using prime_number_coprime [OF r m(2)] by simp
  ultimately have "m = 1" by (metis coprime_common_divisor_nat dvd_refl)
  then have j: "o' = r ^ j" using m(1) by simp
  then have "j \<le> k" using o(1) prime_number_ge_2 [OF r] by (simp add: dvd_power_iff_le)
  then have "j \<le> k - 1" using j o(2) by (cases "j = k") auto
  then show ?thesis using j by (simp add: le_imp_power_dvd)
qed

lemma has_order_mod: "has_order p (x mod p) n \<longleftrightarrow> has_order p x n"
  by (simp add: has_order_def power_mod)

lemma order_of_prime_power:
  assumes p: "prime_number p" and r: "prime_number r" and k: "0 < k" "r ^ k dvd p - 1"
  shows "\<exists>z. has_order p z (r ^ k)"
proof -
  let ?N = "p - 1"
  have p2: "2 \<le> p" "1 < p" using prime_number_ge_2 [OF p] by auto
  have r2: "2 \<le> r" by (rule prime_number_ge_2 [OF r])
  have "r dvd ?N" using k by (metis dvd_power dvd_trans)
  then obtain M where M: "?N = r * M" by blast
  then have M0: "0 < M" "M < ?N" using p2 r2 by (auto intro!: Nat.gr0I)
  have "\<exists>x\<in>{1..<p}. x ^ M mod p \<noteq> 1"
  proof (rule ccontr)
    assume "\<not> (\<exists>x\<in>{1..<p}. x ^ M mod p \<noteq> 1)"
    then have "{x \<in> {1..<p}. x ^ M mod p = 1} = {1..<p}" by auto
    then show False using power_roots_bound [OF p M0(1)] M0(2) by simp
  qed
  then obtain x where x: "x \<in> {1..<p}" "x ^ M mod p \<noteq> 1" by blast
  define z where "z = x ^ (?N div r ^ k)"
  have zk: "z ^ r ^ k mod p = 1"
    using fermat [OF p x(1)] k by (simp add: z_def power_mult [symmetric])
  have "?N div r ^ k * r ^ (k - 1) = M"
  proof -
    have "r * (?N div r ^ k * r ^ (k - 1)) = ?N div r ^ k * r ^ k" using k(1) by (cases k) auto
    also have "\<dots> = r * M" using k(2) M by simp
    finally show ?thesis using r2 by simp
  qed
  then have zk1: "z ^ r ^ (k - 1) mod p \<noteq> 1" using x(2) by (simp add: z_def power_mult [symmetric])
  define n where "n = (LEAST n. 0 < n \<and> z ^ n mod p = 1)"
  have ex: "0 < r ^ k \<and> z ^ r ^ k mod p = 1" using zk r2 by simp
  have "0 < n \<and> z ^ n mod p = 1" unfolding n_def using ex by (rule LeastI)
  moreover have "z ^ j mod p \<noteq> 1" if "0 < j" "j < n" for j
    using not_less_Least [of j "\<lambda>n. 0 < n \<and> z ^ n mod p = 1"] that by (auto simp: n_def)
  ultimately have n: "has_order p z n" by (simp add: has_order_def)
  then have "n dvd r ^ k" using has_order_dvd [OF n p2(2)] zk by blast
  moreover have "\<not> n dvd r ^ (k - 1)" using has_order_dvd [OF n p2(2)] zk1 by blast
  ultimately have "n = r ^ k" using dvd_prime_power [OF r] by blast
  then show ?thesis using n by blast
qed

lemma order_exists:
  assumes p: "prime_number p"
  shows "n dvd p - 1 \<Longrightarrow> \<exists>x. has_order p x n"
proof (induction n rule: less_induct)
  case (less n)
  have p2: "1 < p" using prime_number_ge_2 [OF p] by simp
  have n0: "0 < n" using less.prems p2 by (auto intro!: Nat.gr0I)
  show ?case
  proof (cases "n = 1")
    case True
    then show ?thesis using p2 by (intro exI [of _ 1]) (simp add: has_order_def)
  next
    case False
    then obtain r where r: "prime_number r" "r dvd n" using prime_factor [of n] n0 by (metis Suc_1 Suc_leI nat_neq_iff less_one)
    obtain k m where m: "n = r ^ k * m" "\<not> r dvd m" using prime_power_split [OF r(1) n0] by blast
    have k: "0 < k" using m r(2) by (auto intro!: Nat.gr0I)
    then have "1 < r ^ k" using prime_number_ge_2 [OF r(1)] by (intro one_less_power) auto
    then have "m < n" using m(1) n0 by simp
    moreover have "m dvd p - 1" "r ^ k dvd p - 1" using less.prems m(1) by (metis dvd_mult_left dvd_mult_right)+
    ultimately obtain y z where "has_order p y m" "has_order p z (r ^ k)"
      using less.IH [of m] order_of_prime_power [OF p r(1) k] by blast
    moreover have "coprime (r ^ k) m" using prime_number_coprime [OF r(1) m(2)] by simp
    ultimately have "has_order p (z * y) n" unfolding m(1) using p2 by (intro has_order_mult) auto
    then show ?thesis by blast
  qed
qed

lemma primitive_root_exists:
  assumes "prime_number p"
  shows "\<exists>x\<in>{1..<p}. has_order p x (p - 1)"
proof -
  obtain x where x: "has_order p x (p - 1)" using order_exists [OF assms, of "p - 1"] by auto
  have "x mod p \<noteq> 0"
  proof
    assume "x mod p = 0"
    then have "has_order p 0 (p - 1)" using x has_order_mod [of p x] by simp
    then show False by (auto simp: has_order_def power_0_left)
  qed
  moreover have "x mod p < p" using prime_number_ge_2 [OF assms] by simp
  ultimately show ?thesis using x by (intro bexI [of _ "x mod p"]) (auto simp: has_order_mod)
qed

subsection \<open>The search\<close>

lemma order_loop_correct:
  assumes n: "has_order p e n"
  shows "0 < i \<Longrightarrow> i \<le> n \<Longrightarrow> order_loop p e (e ^ i mod p) i = Some n"
proof (induction "n - i" arbitrary: i)
  case 0
  then have "i = n" by simp
  then show ?case using n by (subst order_loop.simps) (simp add: has_order_def)
next
  case (Suc m)
  then have i: "i < n" by simp
  then have "e ^ i mod p \<noteq> 1" using n Suc.prems by (simp add: has_order_def)
  moreover have "order_loop p e (e ^ Suc i mod p) (Suc i) = Some n" using Suc i by (intro Suc.hyps(1)) simp_all
  ultimately show ?case by (subst order_loop.simps) (simp add: mod_mult_right_eq mult.commute)
qed

lemma has_some_order:
  assumes "prime_number p" "e \<in> {1..<p}"
  obtains n where "has_order p e n"
proof -
  let ?P = "\<lambda>n. 0 < n \<and> e ^ n mod p = 1"
  have "?P (p - 1)" using fermat [OF assms] prime_number_ge_2 [OF assms(1)] by simp
  then have "?P (LEAST n. ?P n)" by (rule LeastI)
  then have "has_order p e (LEAST n. ?P n)" unfolding has_order_def by (auto dest: not_less_Least)
  then show thesis by (rule that)
qed

lemma has_order_unique: "has_order p e m \<Longrightarrow> has_order p e n \<Longrightarrow> m = n"
  unfolding has_order_def by (metis linorder_neqE_nat)

definition smallest_root :: "nat \<Rightarrow> nat" where
  "smallest_root p = (LEAST r. r \<in> {1..<p} \<and> has_order p r (p - 1))"

lemma smallest_root:
  assumes "prime_number p"
  shows "smallest_root p \<in> {1..<p}" "has_order p (smallest_root p) (p - 1)"
    "e \<in> {1..<p} \<Longrightarrow> has_order p e (p - 1) \<Longrightarrow> smallest_root p \<le> e"
proof -
  let ?P = "\<lambda>r. r \<in> {1..<p} \<and> has_order p r (p - 1)"
  obtain x where "?P x" using primitive_root_exists [OF assms] by blast
  then have "?P (LEAST r. ?P r)" by (rule LeastI)
  then show "smallest_root p \<in> {1..<p}" "has_order p (smallest_root p) (p - 1)" by (simp_all add: smallest_root_def)
  show "e \<in> {1..<p} \<Longrightarrow> has_order p e (p - 1) \<Longrightarrow> smallest_root p \<le> e"
    unfolding smallest_root_def by (rule Least_le) blast
qed

lemma root_loop_correct:
  assumes p: "prime_number p"
  shows "0 < e \<Longrightarrow> e \<le> smallest_root p \<Longrightarrow> i \<noteq> p - 1 \<Longrightarrow> root_loop p e i = Some (smallest_root p + 1)"
proof (induction "smallest_root p - e" arbitrary: e i)
  case 0
  then have e: "e = smallest_root p" by simp
  have "order_loop p e (e ^ 1 mod p) 1 = Some (p - 1)"
    using smallest_root(1,2) [OF p] e by (intro order_loop_correct) auto
  moreover have "e ^ 1 mod p = e" using smallest_root(1) [OF p] e by simp
  moreover have "root_loop p (e + 1) (p - 1) = Some (e + 1)" by (subst root_loop.simps) simp
  ultimately show ?case using 0 e unfolding root_loop.simps [of p e i] by simp
next
  case (Suc m)
  then have e: "e \<in> {1..<p}" "e < smallest_root p" using smallest_root(1) [OF p] by auto
  obtain n where n: "has_order p e n" using has_some_order [OF p e(1)] .
  then have "n \<noteq> p - 1" using smallest_root(3) [OF p e(1)] e(2) by auto
  moreover have "order_loop p e (e ^ 1 mod p) 1 = Some n"
    using n by (intro order_loop_correct) (auto simp: has_order_def)
  moreover have "e ^ 1 mod p = e" using e by simp
  ultimately show ?case using Suc e by (subst root_loop.simps) simp
qed

text \<open>The polynomial \<open>x - r\<close> of a prime field is primitive.\<close>

lemma gf_x_prime:
  assumes "2 \<le> p" "r < p" "e < p"
  shows "gf_x p 1 (p - r) e = e * r mod p"
proof -
  have "int (e * r mod p) = - (int e * int (p - r)) mod int p"
  proof -
    have "- (int e * int (p - r)) = int e * int r + (- int e) * int p" using assms by (simp add: of_nat_diff algebra_simps)
    then show ?thesis by (simp only: zmod_int of_nat_mult mod_mult_self1)
  qed
  moreover have "- (int e * int ((p - r) mod p)) mod int p = - (int e * int (p - r)) mod int p"
    by (simp add: zmod_int mod_minus_eq mod_mult_right_eq flip: mult_minus_left)
  ultimately show ?thesis
    using assms by (simp add: gf_x_def code_def shift_def dig_def nat_eq_iff flip: zmod_int)
qed

lemma gf_x_prime_pow:
  assumes "2 \<le> p" "r < p"
  shows "(gf_x p 1 (p - r) ^^ k) 1 = r ^ k mod p"
proof (induction k)
  case (Suc k)
  then show ?case using assms gf_x_prime [OF assms, of "r ^ k mod p"] by (simp add: mod_mult_right_eq mult.commute)
qed (use assms in simp)

lemma prime_field_primitive:
  assumes p: "prime_number p" and r: "r < p" "has_order p r (p - 1)"
  shows "primitive_poly p 1 (p - r)"
proof -
  have "(gf_x p 1 (p - r) ^^ k) 1 = r ^ k mod p" for k
    using gf_x_prime_pow [OF prime_number_ge_2 [OF p] r(1)] .
  then show ?thesis using r(2) unfolding primitive_poly_def has_order_def by simp
qed

end
