(* ===== verification/FinFieldState.thy ===== *)
theory FinFieldState
  imports FinFieldRoot
begin

text \<open>
  The fields of the tables: the polynomial and the successor table of each, the invariant of the state, and the construction of a field.
  The locale \<open>finite_fields\<close> collects what the rest relies on: the tables of \<open>ffdata.c\<close> and that the
  polynomials of the extension fields are primitive.
\<close>

subsection \<open>Elements of a field\<close>

text \<open>The polynomial of a field: for a prime field \<open>x - r\<close> with the smallest primitive root \<open>r\<close>.\<close>

definition conway :: "ffdata \<Rightarrow> nat \<Rightarrow> nat" where
  "conway D ff =
     (if DEGR_FF D ff = 1
      then (if CHAR_FF D ff = 2 then 1 else CHAR_FF D ff - smallest_root (CHAR_FF D ff))
      else the (pols_loop PolsFF (SIZE_FF D ff)))"

text \<open>The residue that a value stands for, and the field operations on residues.\<close>

definition ff_elt :: "ffdata \<Rightarrow> nat \<Rightarrow> nat \<Rightarrow> nat" where
  "ff_elt D ff v = (if v = 0 then 0 else (gf_x (CHAR_FF D ff) (DEGR_FF D ff) (conway D ff) ^^ (v - 1)) 1)"

definition ff_add :: "ffdata \<Rightarrow> nat \<Rightarrow> nat \<Rightarrow> nat \<Rightarrow> nat" where
  "ff_add D ff = gf_add (CHAR_FF D ff) (DEGR_FF D ff)"

definition ff_mul :: "ffdata \<Rightarrow> nat \<Rightarrow> nat \<Rightarrow> nat \<Rightarrow> nat" where
  "ff_mul D ff = gf_mul (CHAR_FF D ff) (DEGR_FF D ff) (conway D ff)"

definition ff_power :: "ffdata \<Rightarrow> nat \<Rightarrow> nat \<Rightarrow> nat \<Rightarrow> nat" where
  "ff_power D ff x n = (ff_mul D ff x ^^ n) 1"

definition zech_table :: "ffdata \<Rightarrow> nat \<Rightarrow> nat list \<Rightarrow> bool" where
  "zech_table D ff f \<longleftrightarrow>
     length f = SIZE_FF D ff \<and> f ! 0 = SIZE_FF D ff - 1
     \<and> (\<forall>n. 0 < n \<longrightarrow> n < SIZE_FF D ff \<longrightarrow>
          f ! n < SIZE_FF D ff \<and> ff_elt D ff (f ! n) = ff_add D ff (ff_elt D ff n) 1)"

definition polys_ok :: "ffdata \<Rightarrow> bool" where
  "polys_ok D \<longleftrightarrow>
     (\<forall>ff\<in>{1..NUM_SHORT_FINITE_FIELDS D}. 1 < DEGR_FF D ff \<longrightarrow>
        (case pols_loop PolsFF (SIZE_FF D ff) of
           Some a \<Rightarrow> a < SIZE_FF D ff \<and> primitive_poly (CHAR_FF D ff) (DEGR_FF D ff) a
         | None \<Rightarrow> False))"

locale finite_fields =
  fixes D :: ffdata
  assumes data: "field_data D" and polys: "polys_ok D"
begin

lemma fieldD:
  assumes "is_field D ff"
  shows "prime_number (CHAR_FF D ff)" "0 < DEGR_FF D ff" "SIZE_FF D ff = CHAR_FF D ff ^ DEGR_FF D ff"
    "SIZE_FF D ff \<le> MAXSIZE_GF_INTERNAL D" "SIZE_FF D ff \<le> 2 ^ 16" "2 \<le> SIZE_FF D ff"
  using field_dataD [OF data assms] by blast+

lemma residues_field: "is_field D ff \<Longrightarrow> residues (CHAR_FF D ff) (DEGR_FF D ff)"
  using fieldD prime_number_ge_2 by (intro residues.intro) auto

lemma conway_primitive:
  assumes ff: "is_field D ff"
  shows "primitive_poly (CHAR_FF D ff) (DEGR_FF D ff) (conway D ff)" "conway D ff < SIZE_FF D ff"
proof -
  let ?p = "CHAR_FF D ff"
  have p: "prime_number ?p" "2 \<le> ?p" using fieldD(1) [OF ff] prime_number_ge_2 by blast+
  have "primitive_poly ?p (DEGR_FF D ff) (conway D ff) \<and> conway D ff < SIZE_FF D ff"
  proof (cases "DEGR_FF D ff = 1")
    case True
    show ?thesis
    proof (cases "?p = 2")
      case 2: True
      have "primitive_poly 2 1 1" by code_simp
      then show ?thesis using True 2 fieldD(3) [OF ff] by (simp add: conway_def)
    next
      case False
      then show ?thesis
        using True smallest_root(1,2) [OF p(1)] prime_field_primitive [OF p(1), of "smallest_root ?p"] fieldD(3) [OF ff]
        by (simp add: conway_def)
    qed
  next
    case False
    then have "1 < DEGR_FF D ff" using fieldD(2) [OF ff] by simp
    moreover have "ff \<in> {1..NUM_SHORT_FINITE_FIELDS D}" using ff by (simp add: is_field_def Suc_le_eq)
    ultimately show ?thesis
      using polys False by (auto simp: polys_ok_def conway_def split: option.splits)
  qed
  then show "primitive_poly ?p (DEGR_FF D ff) (conway D ff)" "conway D ff < SIZE_FF D ff" by blast+
qed

lemma primitive_residues_field:
  "is_field D ff \<Longrightarrow> primitive_residues (CHAR_FF D ff) (DEGR_FF D ff) (conway D ff)"
  using residues_field conway_primitive(1) fieldD(1)
  by (intro primitive_residues.intro primitive_residues_axioms.intro) auto

lemma cyclic_ff:
  assumes "is_field D ff"
  shows "cyclic_field (ff_add D ff) 0 (Suc 0) (gf_x (CHAR_FF D ff) (DEGR_FF D ff) (conway D ff)) (SIZE_FF D ff) {..<SIZE_FF D ff}"
  unfolding ff_add_def fieldD(3) [OF assms]
  by (rule primitive_residues.cyclic [OF primitive_residues_field [OF assms]])

lemma elt_eq:
  assumes "is_field D ff"
  shows "cyclic_field.elt 0 (Suc 0) (gf_x (CHAR_FF D ff) (DEGR_FF D ff) (conway D ff)) = ff_elt D ff"
  by (rule ext) (simp add: cyclic_field.elt_def [OF cyclic_ff [OF assms]] ff_elt_def)

lemma zech_eq:
  assumes "is_field D ff"
  shows "cyclic_field.zech (ff_add D ff) 0 (Suc 0) (gf_x (CHAR_FF D ff) (DEGR_FF D ff) (conway D ff)) (SIZE_FF D ff) f
    \<longleftrightarrow> zech_table D ff f"
  unfolding cyclic_field.zech_def [OF cyclic_ff [OF assms]] elt_eq [OF assms] zech_table_def by simp

text \<open>The lemmas on values, for a field of the tables.\<close>

lemma ff_elt_inj: "is_field D ff \<Longrightarrow> v < SIZE_FF D ff \<Longrightarrow> w < SIZE_FF D ff \<Longrightarrow> ff_elt D ff v = ff_elt D ff w \<longleftrightarrow> v = w"
  using cyclic_field.elt_inj [OF cyclic_ff, of ff v w] by (simp add: elt_eq)

lemma ff_elt_less: "is_field D ff \<Longrightarrow> ff_elt D ff v < SIZE_FF D ff"
  using cyclic_field.elt_in [OF cyclic_ff, of ff v] by (simp add: elt_eq)

lemma ff_elt_surj: "is_field D ff \<Longrightarrow> x < SIZE_FF D ff \<Longrightarrow> \<exists>v<SIZE_FF D ff. ff_elt D ff v = x"
  using cyclic_field.elt_surj [OF cyclic_ff, of ff x] by (simp add: elt_eq)

lemma ff_elt_0 [simp]: "ff_elt D ff 0 = 0" and ff_elt_1 [simp]: "ff_elt D ff (Suc 0) = Suc 0"
  by (simp_all add: ff_elt_def)

lemma SUM_FFV_field:
  assumes "is_field D ff" "zech_table D ff f" "a < SIZE_FF D ff" "b < SIZE_FF D ff"
  shows "SUM_FFV a b f < SIZE_FF D ff" "ff_elt D ff (SUM_FFV a b f) = ff_add D ff (ff_elt D ff a) (ff_elt D ff b)"
  using cyclic_field.SUM_FFV_correct [OF cyclic_ff [OF assms(1)], of f a b] assms by (simp_all add: zech_eq elt_eq)

lemma NEG_FFV_field:
  assumes "is_field D ff" "zech_table D ff f" "a < SIZE_FF D ff"
  shows "NEG_FFV a f < SIZE_FF D ff" "ff_add D ff (ff_elt D ff (NEG_FFV a f)) (ff_elt D ff a) = 0"
  using cyclic_field.NEG_FFV_correct [OF cyclic_ff [OF assms(1)], of f a] assms by (simp_all add: zech_eq elt_eq)

lemma PROD_FFV_field:
  assumes "is_field D ff" "zech_table D ff f" "a < SIZE_FF D ff" "b < SIZE_FF D ff"
  shows "PROD_FFV a b f < SIZE_FF D ff" "ff_elt D ff (PROD_FFV a b f) = ff_mul D ff (ff_elt D ff a) (ff_elt D ff b)"
proof -
  show "PROD_FFV a b f < SIZE_FF D ff"
    using cyclic_field.PROD_FFV_correct(1) [OF cyclic_ff [OF assms(1)], of f a b] assms by (simp add: zech_eq)
  show "ff_elt D ff (PROD_FFV a b f) = ff_mul D ff (ff_elt D ff a) (ff_elt D ff b)"
    using primitive_residues.PROD_FFV_mul [OF primitive_residues_field [OF assms(1)], folded ff_add_def fieldD(3) [OF assms(1)], of f a b]
      assms by (simp add: zech_eq elt_eq ff_mul_def)
qed

lemma QUO_FFV_field:
  assumes "is_field D ff" "zech_table D ff f" "a < SIZE_FF D ff" "0 < b" "b < SIZE_FF D ff"
  shows "QUO_FFV a b f < SIZE_FF D ff" "ff_mul D ff (ff_elt D ff b) (ff_elt D ff (QUO_FFV a b f)) = ff_elt D ff a"
proof -
  show q: "QUO_FFV a b f < SIZE_FF D ff"
    using cyclic_field.QUO_FFV_correct(1) [OF cyclic_ff [OF assms(1)], of f a b] assms by (simp add: zech_eq)
  have "ff_mul D ff (ff_elt D ff b) x = (gf_x (CHAR_FF D ff) (DEGR_FF D ff) (conway D ff) ^^ (b - 1)) x"
    if "x < SIZE_FF D ff" for x
    using residues.gf_mul_pow [OF residues_field [OF assms(1)], folded fieldD(3) [OF assms(1)], OF that, of "conway D ff" "b - 1"] assms(4)
    by (simp add: ff_mul_def ff_elt_def)
  then show "ff_mul D ff (ff_elt D ff b) (ff_elt D ff (QUO_FFV a b f)) = ff_elt D ff a"
    using cyclic_field.QUO_FFV_correct(2) [OF cyclic_ff [OF assms(1)], of f a b] assms ff_elt_less [OF assms(1)]
    by (simp add: zech_eq elt_eq)
qed

lemma ff_power_elt:
  assumes ff: "is_field D ff" and a: "0 < a"
  shows "ff_power D ff (ff_elt D ff a) n = (gf_x (CHAR_FF D ff) (DEGR_FF D ff) (conway D ff) ^^ ((a - 1) * n)) 1"
proof (induction n)
  case (Suc n)
  let ?T = "gf_x (CHAR_FF D ff) (DEGR_FF D ff) (conway D ff)"
  have lt: "(?T ^^ m) 1 < SIZE_FF D ff" for m
    using ff_elt_less [OF ff, of "Suc m"] by (simp add: ff_elt_def)
  have "ff_power D ff (ff_elt D ff a) (Suc n) = ff_mul D ff ((?T ^^ (a - 1)) 1) ((?T ^^ ((a - 1) * n)) 1)"
    using Suc a by (simp add: ff_power_def ff_elt_def)
  also have "\<dots> = (?T ^^ (a - 1)) ((?T ^^ ((a - 1) * n)) 1)"
    unfolding ff_mul_def
    by (rule residues.gf_mul_pow [OF residues_field [OF ff]]) (simp only: fieldD(3) [OF ff, symmetric] lt)
  finally show ?case by (simp add: funpow_add)
qed (simp add: ff_power_def)

lemma POW_FFV_field:
  assumes "is_field D ff" "zech_table D ff f" "a < SIZE_FF D ff" "0 < a"
  shows "POW_FFV a n f < SIZE_FF D ff" "ff_elt D ff (POW_FFV a n f) = ff_power D ff (ff_elt D ff a) n"
  using cyclic_field.POW_FFV_correct [OF cyclic_ff [OF assms(1)], of f a n] assms ff_power_elt [OF assms(1,4), of n]
  by (simp_all add: zech_eq elt_eq)

subsection \<open>Construction\<close>

lemma succ_table_field:
  assumes ff: "is_field D ff"
  shows "\<exists>poly f. field_poly D L ff (CHAR_FF D ff) (SIZE_FF D ff) = Some poly
    \<and> succ_table (CHAR_FF D ff) (SIZE_FF D ff) poly = Some f \<and> zech_table D ff f"
proof -
  let ?p = "CHAR_FF D ff" and ?q = "SIZE_FF D ff"
  have p: "prime_number ?p" "2 \<le> ?p" using fieldD(1) [OF ff] prime_number_ge_2 by blast+
  have q: "?q = ?p ^ DEGR_FF D ff" "?q \<le> 2 ^ 16" using fieldD(3,5) [OF ff] .
  have "?p \<le> ?q" using q(1) p(2) fieldD(2) [OF ff] by (simp add: self_le_power)
  then have p16: "?p < 65537" using q(2) by simp
  have generic: "\<exists>f. succ_table ?p ?q (conway D ff) = Some f \<and> zech_table D ff f"
    using primitive_residues.succ_table_zech [OF primitive_residues_field [OF ff]] conway_primitive(2) [OF ff] q
    by (simp add: zech_eq [OF ff, unfolded ff_add_def, unfolded fieldD(3) [OF ff]])
  consider "DEGR_FF D ff \<noteq> 1" | "DEGR_FF D ff = 1" "?p = 2" | "DEGR_FF D ff = 1" "?p \<noteq> 2" by blast
  then show ?thesis
  proof cases
    case 1
    then have "1 < DEGR_FF D ff" using fieldD(2) [OF ff] by simp
    moreover have "ff \<in> {1..NUM_SHORT_FINITE_FIELDS D}" using ff by (simp add: is_field_def Suc_le_eq)
    ultimately have "pols_loop PolsFF ?q = Some (conway D ff)"
      using polys 1 by (auto simp: polys_ok_def conway_def split: option.splits)
    then show ?thesis using 1 generic by (simp add: field_poly_def)
  next
    case 2
    then have q2: "?q = 2" using q(1) by simp
    have "root_loop 2 1 1 = Some 1" by (subst root_loop.simps) simp
    then have "field_poly D L ff ?p ?q = Some 2" using 2 by (simp add: field_poly_def)
    moreover have "succ_table 2 2 2 = Some [1, 0]"
      by (simp add: succ_table_def indx_loop.simps succ_loop.simps mul_x_def put_def rd_def u16_def numeral_2_eq_2)
    moreover have "zech_table D ff [1, 0]"
    proof -
      have "gf_add 2 1 1 1 = 0" by code_simp
      moreover have "n = 1" if "0 < n" "n < 2" for n :: nat using that by simp
      ultimately show ?thesis using q2 2 by (auto simp: zech_table_def ff_add_def less_2_cases_iff)
    qed
    ultimately show ?thesis using 2 q2 by simp
  next
    case 3
    have "1 \<le> smallest_root ?p" using smallest_root(1) [OF p(1)] by simp
    moreover have "1 \<noteq> ?p - 1" using 3 p(2) by simp
    ultimately have "root_loop ?p 1 1 = Some (smallest_root ?p + 1)" by (intro root_loop_correct [OF p(1)]) simp_all
    then have "field_poly D L ff ?p ?q = Some (conway D ff)" using 3 p16 by (simp add: field_poly_def conway_def)
    then show ?thesis using generic by simp
  qed
qed

end

definition conv_ok :: "ffdata \<Rightarrow> nat \<Rightarrow> UInt option list \<Rightarrow> bool" where
  "conv_ok D ff conv \<longleftrightarrow>
     length conv = CHAR_FF D ff
     \<and> (\<forall>v<SIZE_FF D ff. 0 < ff_elt D ff v \<longrightarrow> ff_elt D ff v < CHAR_FF D ff \<longrightarrow>
          elm_plist conv ((v - 1) div ((SIZE_FF D ff - 1) div (CHAR_FF D ff - 1)) + 1) = Some (INTOBJ_INT (int (ff_elt D ff v))))"

text \<open>The invariant of the global tables: what is bound is right, and the three tables of a field are bound together.\<close>

definition tables_ok :: "ffdata \<Rightarrow> fflib \<Rightarrow> ffstate \<Rightarrow> bool" where
  "tables_ok D L st \<longleftrightarrow>
     length (SuccFF st) = NUM_SHORT_FINITE_FIELDS D + 1 \<and> length (TypeFF st) = NUM_SHORT_FINITE_FIELDS D + 1
     \<and> length (TypeFF0 st) = NUM_SHORT_FINITE_FIELDS D + 1 \<and> length (IntFF st) = NUM_SHORT_FINITE_FIELDS D + 1
     \<and> (\<forall>ff. is_field D ff \<longrightarrow>
          (case SuccFF st ! ff of
             None \<Rightarrow> TypeFF st ! ff = None \<and> TypeFF0 st ! ff = None
           | Some f \<Rightarrow> zech_table D ff f \<and> TypeFF st ! ff = Some (TYPE_FFE L (CHAR_FF D ff))
               \<and> TypeFF0 st ! ff = Some (TYPE_FFE0 L (CHAR_FF D ff)))
          \<and> (case IntFF st ! ff of None \<Rightarrow> True | Some conv \<Rightarrow> conv_ok D ff conv))"

definition extends :: "ffstate \<Rightarrow> ffstate \<Rightarrow> bool" where
  "extends st st' \<longleftrightarrow> (\<forall>ff f. SUCC_FF st ff = Some f \<longrightarrow> SUCC_FF st' ff = Some f)"

lemma extends_refl [simp]: "extends st st"
  by (simp add: extends_def)

lemma tables_ok_init: "tables_ok D L (InitLibrary D)"
  by (auto simp: tables_ok_def InitLibrary_def is_field_def nth_Cons' simp flip: replicate_Suc)

lemma tables_okD:
  assumes "tables_ok D L st" "is_field D ff"
  shows "SUCC_FF st ff = SuccFF st ! ff" "SUCC_FF st ff = Some f \<Longrightarrow> zech_table D ff f"
    "elm_plist (TypeFF0 st) ff = TypeFF0 st ! ff" "TypeFF0 st ! ff = None \<longleftrightarrow> SUCC_FF st ff = None"
proof -
  have len: "ff < length (SuccFF st)" "ff < length (TypeFF0 st)"
    using assms by (auto simp: tables_ok_def is_field_def)
  have e: "(case SuccFF st ! ff of None \<Rightarrow> TypeFF st ! ff = None \<and> TypeFF0 st ! ff = None
           | Some f \<Rightarrow> zech_table D ff f \<and> TypeFF st ! ff = Some (TYPE_FFE L (CHAR_FF D ff))
               \<and> TypeFF0 st ! ff = Some (TYPE_FFE0 L (CHAR_FF D ff)))"
    using assms unfolding tables_ok_def by blast
  show s: "SUCC_FF st ff = SuccFF st ! ff" and "elm_plist (TypeFF0 st) ff = TypeFF0 st ! ff"
    using len by (simp_all add: SUCC_FF_def elm_plist_def rd_def)
  show "SUCC_FF st ff = Some f \<Longrightarrow> zech_table D ff f" "TypeFF0 st ! ff = None \<longleftrightarrow> SUCC_FF st ff = None"
    using e by (cases "SuccFF st ! ff"; simp add: s)+
qed

context finite_fields
begin

lemma FiniteFieldBySize_field:
  assumes st: "tables_ok D L st" and ff: "is_field D ff"
  shows "\<exists>st'. FiniteFieldBySize D L (SIZE_FF D ff) st = Some (ff, st') \<and> tables_ok D L st' \<and> extends st st'
    \<and> SUCC_FF st' ff \<noteq> None"
proof -
  let ?p = "CHAR_FF D ff" and ?q = "SIZE_FF D ff"
  have look: "LookupPrimePower D ?q = Some ff" "ff \<noteq> 0"
    using LookupPrimePower_correct(1) [OF data ff] ff by (auto simp: is_field_def)
  show ?thesis
  proof (cases "SUCC_FF st ff")
    case (Some f)
    then have "elm_plist (TypeFF0 st) ff \<noteq> None" using tables_okD [OF st ff] by simp
    then show ?thesis using look st Some by (simp add: FiniteFieldBySize_def)
  next
    case None
    obtain poly f where f: "field_poly D L ff ?p ?q = Some poly" "succ_table ?p ?q poly = Some f" "zech_table D ff f"
      using succ_table_field [OF ff, of L] by blast
    obtain u where u: "u = st\<lparr>SuccFF := ass_plist (SuccFF st) ff f, TypeFF := ass_plist (TypeFF st) ff (TYPE_FFE L ?p),
                 TypeFF0 := ass_plist (TypeFF0 st) ff (TYPE_FFE0 L ?p)\<rparr>" by blast
    have len: "ff < length (SuccFF st)" "ff < length (TypeFF st)" "ff < length (TypeFF0 st)"
      using st ff by (auto simp: tables_ok_def is_field_def)
    have at: "SuccFF u ! g = (if g = ff then Some f else SuccFF st ! g)"
      "TypeFF u ! g = (if g = ff then Some (TYPE_FFE L ?p) else TypeFF st ! g)"
      "TypeFF0 u ! g = (if g = ff then Some (TYPE_FFE0 L ?p) else TypeFF0 st ! g)" for g
      using len by (simp_all add: u ass_plist_def)
    have same: "length (SuccFF u) = length (SuccFF st)" "length (TypeFF u) = length (TypeFF st)"
      "length (TypeFF0 u) = length (TypeFF0 st)" "IntFF u = IntFF st"
      using len by (simp_all add: u ass_plist_def)
    have "elm_plist (TypeFF0 st) ff = None" using None tables_okD [OF st ff] by simp
    then have "FiniteFieldBySize D L ?q st = Some (ff, u)"
      using look f by (simp add: FiniteFieldBySize_def Let_def u)
    moreover have "tables_ok D L u"
      unfolding tables_ok_def
    proof (intro conjI allI impI)
      fix g assume g: "is_field D g"
      have old: "(case SuccFF st ! g of None \<Rightarrow> TypeFF st ! g = None \<and> TypeFF0 st ! g = None
           | Some f \<Rightarrow> zech_table D g f \<and> TypeFF st ! g = Some (TYPE_FFE L (CHAR_FF D g))
               \<and> TypeFF0 st ! g = Some (TYPE_FFE0 L (CHAR_FF D g)))"
        "(case IntFF st ! g of None \<Rightarrow> True | Some conv \<Rightarrow> conv_ok D g conv)"
        using st g unfolding tables_ok_def by blast+
      show "(case SuccFF u ! g of None \<Rightarrow> TypeFF u ! g = None \<and> TypeFF0 u ! g = None
           | Some f \<Rightarrow> zech_table D g f \<and> TypeFF u ! g = Some (TYPE_FFE L (CHAR_FF D g))
               \<and> TypeFF0 u ! g = Some (TYPE_FFE0 L (CHAR_FF D g)))"
        unfolding at using old(1) f(3) by (cases "g = ff") simp_all
      show "(case IntFF u ! g of None \<Rightarrow> True | Some conv \<Rightarrow> conv_ok D g conv)"
        unfolding same by (rule old(2))
    qed (use st in \<open>simp_all add: tables_ok_def same\<close>)
    moreover have "extends st u"
      using None tables_okD(1) [OF st ff]
      by (auto simp: extends_def SUCC_FF_def elm_plist_def rd_def same at)
    moreover have "SUCC_FF u ff \<noteq> None" using len by (simp add: SUCC_FF_def elm_plist_def rd_def at same)
    ultimately show ?thesis by blast
  qed
qed

lemma FiniteFieldBySize_none:
  "(\<And>ff. is_field D ff \<Longrightarrow> SIZE_FF D ff \<noteq> q) \<Longrightarrow> FiniteFieldBySize D L q st = Some (0, st)"
  using LookupPrimePower_correct(2) [OF data, of q] by (simp add: FiniteFieldBySize_def)

end

end
