(* ===== verification/FinFieldDegree.thy ===== *)
theory FinFieldDegree
  imports FinFieldState
begin

text \<open>
  Elements as handles, their minimal fields and common fields. A nonzero element \<open>z ^ (v - 1)\<close> of a field with \<open>q\<close> elements is
  described, in every field that contains it, by the fraction \<open>(v - 1) / (q - 1)\<close> of a full turn of
  the multiplicative group: two elements of the same characteristic are the same if the fractions are.
\<close>

subsection \<open>Handles\<close>

lemma u16_mask: "k \<le> 16 \<Longrightarrow> u16 n AND (2 ^ k - 1) = take_bit k n"
proof -
  assume "k \<le> 16"
  then have "u16 n AND mask k = take_bit k n"
    unfolding u16_def take_bit_eq_mod [symmetric] take_bit_eq_mask [symmetric] by (simp add: min_def)
  then show ?thesis by (simp add: mask_eq_exp_minus_1)
qed

lemma FLD_FFE_take_bit: "FIELD_BITS_FFE D \<le> 16 \<Longrightarrow> FLD_FFE D x = unat (take_bit (FIELD_BITS_FFE D) (drop_bit 3 x))"
  by (simp only: FLD_FFE_def u16_mask unsigned_take_bit_eq)

lemma VAL_FFE_take_bit:
  "VAL_BITS_FFE D \<le> 16 \<Longrightarrow> VAL_FFE D x = unat (take_bit (VAL_BITS_FFE D) (drop_bit (3 + FIELD_BITS_FFE D) x))"
  by (simp only: VAL_FFE_def u16_mask unsigned_take_bit_eq)

lemma bit_less_exp: "n < 2 ^ k \<Longrightarrow> k \<le> i \<Longrightarrow> \<not> bit n i" for n :: nat
proof -
  assume "n < 2 ^ k" "k \<le> i"
  moreover have "(2::nat) ^ k \<le> 2 ^ i" using \<open>k \<le> i\<close> by simp
  ultimately have "n < 2 ^ i" by linarith
  then show ?thesis by (simp add: bit_iff_odd)
qed

lemma bit_NEW_FFE:
  assumes "i < 64"
  shows "bit (NEW_FFE D ff v) i \<longleftrightarrow>
    (3 + FIELD_BITS_FFE D \<le> i \<and> bit v (i - (3 + FIELD_BITS_FFE D))) \<or> (3 \<le> i \<and> bit ff (i - 3)) \<or> i = 1"
proof -
  have two: "bit (2 :: UInt) i \<longleftrightarrow> i = 1" using bit_exp_iff [of 1 i, where 'a = UInt] assms by auto
  show ?thesis using assms unfolding NEW_FFE_def bit_or_iff two by (auto simp: bit_push_bit_iff bit_of_nat_iff)
qed

lemma handle_fields:
  assumes "FIELD_BITS_FFE D \<le> 16" "VAL_BITS_FFE D \<le> 16" "ff < 2 ^ FIELD_BITS_FFE D" "v < 2 ^ VAL_BITS_FFE D"
  shows "FLD_FFE D (NEW_FFE D ff v) = ff" "VAL_FFE D (NEW_FFE D ff v) = v" "IS_FFE (NEW_FFE D ff v)"
proof -
  let ?F = "FIELD_BITS_FFE D" and ?V = "VAL_BITS_FFE D"
  have "take_bit ?F (drop_bit 3 (NEW_FFE D ff v)) = (of_nat ff :: UInt)"
  proof (rule bit_word_eqI)
    fix i assume "i < LENGTH(64)"
    then have i: "i < 64" by simp
    have "bit (NEW_FFE D ff v) (3 + i) \<longleftrightarrow> bit ff i" if "i < ?F"
      using bit_NEW_FFE [of "3 + i"] that assms(1) by simp
    then show "bit (take_bit ?F (drop_bit 3 (NEW_FFE D ff v))) i \<longleftrightarrow> bit (of_nat ff :: UInt) i"
      using i bit_less_exp [OF assms(3), of i] by (cases "i < ?F") (simp_all add: bit_take_bit_iff bit_drop_bit_eq bit_of_nat_iff)
  qed
  moreover have "ff < 2 ^ 16" using assms(1,3) power_increasing [of ?F 16 "2 :: nat"] by linarith
  ultimately show "FLD_FFE D (NEW_FFE D ff v) = ff"
    using assms(1) by (simp add: FLD_FFE_take_bit unsigned_of_nat take_bit_nat_eq_self)
  have "take_bit ?V (drop_bit (3 + ?F) (NEW_FFE D ff v)) = (of_nat v :: UInt)"
  proof (rule bit_word_eqI)
    fix i assume "i < LENGTH(64)"
    then have i: "i < 64" by simp
    have "bit (NEW_FFE D ff v) (3 + ?F + i) \<longleftrightarrow> bit v i" if "i < ?V"
      using bit_NEW_FFE [of "3 + ?F + i"] that assms(1,2) bit_less_exp [OF assms(3), of "?F + i"] by simp
    then show "bit (take_bit ?V (drop_bit (3 + ?F) (NEW_FFE D ff v))) i \<longleftrightarrow> bit (of_nat v :: UInt) i"
      using i bit_less_exp [OF assms(4), of i] by (cases "i < ?V") (simp_all add: bit_take_bit_iff bit_drop_bit_eq bit_of_nat_iff)
  qed
  moreover have "v < 2 ^ 16" using assms(2,4) power_increasing [of ?V 16 "2 :: nat"] by linarith
  ultimately show "VAL_FFE D (NEW_FFE D ff v) = v"
    using assms(2) by (simp add: VAL_FFE_take_bit unsigned_of_nat take_bit_nat_eq_self)
  have "bit (2 :: UInt) 1" using bit_exp_iff [of 1 1, where 'a = UInt] by simp
  then have "bit (NEW_FFE D ff v AND 2) 1" using bit_NEW_FFE [of 1 D ff v] by (simp add: bit_and_iff)
  then show "IS_FFE (NEW_FFE D ff v)" unfolding IS_FFE_def by auto
qed

text \<open>A handle of an element whose field is in the tables.\<close>

definition is_ffe :: "ffdata \<Rightarrow> ffstate \<Rightarrow> UInt \<Rightarrow> bool" where
  "is_ffe D st x \<longleftrightarrow>
     is_field D (FLD_FFE D x) \<and> VAL_FFE D x < SIZE_FF D (FLD_FFE D x) \<and> SUCC_FF st (FLD_FFE D x) \<noteq> None
     \<and> x = NEW_FFE D (FLD_FFE D x) (VAL_FFE D x)"

lemma is_ffe_extends: "is_ffe D st x \<Longrightarrow> extends st st' \<Longrightarrow> is_ffe D st' x"
  by (auto simp: is_ffe_def extends_def)

context finite_fields
begin

lemma NEW_FFE_fields:
  assumes "is_field D ff" "v < SIZE_FF D ff"
  shows "FLD_FFE D (NEW_FFE D ff v) = ff" "VAL_FFE D (NEW_FFE D ff v) = v" "IS_FFE (NEW_FFE D ff v)"
proof -
  have "v < 2 ^ VAL_BITS_FFE D" using assms(2) fieldD(4) [OF assms(1)] data by (simp add: field_data_def)
  moreover have "FIELD_BITS_FFE D \<le> 16" "VAL_BITS_FFE D \<le> 16" using data by (simp_all add: field_data_def)
  ultimately show "FLD_FFE D (NEW_FFE D ff v) = ff" "VAL_FFE D (NEW_FFE D ff v) = v" "IS_FFE (NEW_FFE D ff v)"
    using handle_fields field_number_bounds(1) [OF data assms(1)] by blast+
qed

lemma is_ffe_NEW:
  "is_field D ff \<Longrightarrow> v < SIZE_FF D ff \<Longrightarrow> SUCC_FF st ff \<noteq> None \<Longrightarrow> is_ffe D st (NEW_FFE D ff v)"
  by (simp add: is_ffe_def NEW_FFE_fields)

end

subsection \<open>The minimal field\<close>

definition min_degree :: "nat \<Rightarrow> nat \<Rightarrow> nat \<Rightarrow> nat" where
  "min_degree p q v = (LEAST k. 0 < k \<and> (q - 1) dvd (v - 1) * (p ^ k - 1))"

lemma power_minus_1_dvd: "k dvd n \<Longrightarrow> p ^ k - 1 dvd p ^ n - 1" for p :: nat
proof -
  assume "k dvd n"
  then obtain c where c: "n = k * c" by blast
  have "x - 1 dvd x ^ c - 1" for x :: nat
  proof (cases "x = 0")
    case False
    then have "int (x - 1) dvd int (x ^ c - 1)"
      using power_diff_1_eq [of "int x" c] by (simp add: of_nat_diff)
    then show ?thesis by (simp only: int_dvd_int_iff)
  qed (cases "c = 0", simp_all add: power_0_left)
  from this [of "p ^ k"] show ?thesis by (simp add: c power_mult)
qed

lemma degree_condition_diff:
  fixes p q n k j w :: nat
  assumes p: "2 \<le> p" "0 < n" and q: "q = p ^ n"
    and k: "(q - 1) dvd w * (p ^ k - 1)" "(q - 1) dvd w * (p ^ (k + j) - 1)"
  shows "(q - 1) dvd w * (p ^ j - 1)"
proof -
  have p1: "1 \<le> p ^ k" "1 \<le> p ^ (k + j)" "1 \<le> p ^ j" "1 \<le> q" using p q by simp_all
  have "(p ^ (k + j) - 1) = (p ^ k - 1) + p ^ k * (p ^ j - 1)" using p1 by (simp add: power_add diff_mult_distrib2)
  then have "w * (p ^ (k + j) - 1) - w * (p ^ k - 1) = p ^ k * (w * (p ^ j - 1))" by (simp add: distrib_left)
  then have "(q - 1) dvd p ^ k * (w * (p ^ j - 1))" using dvd_diff_nat [OF k(2) k(1)] by simp
  moreover have "coprime (q - 1) (p ^ k)"
  proof -
    have "coprime (q - 1) q" using p1(4) by (metis coprime_commute coprime_diff_one_right_nat not_one_le_zero gr0I)
    moreover have "p dvd q" using p(2) q by simp
    ultimately have "coprime (q - 1) p" by (metis coprime_divisors dvd_refl)
    then show ?thesis by simp
  qed
  ultimately show ?thesis by (simp add: coprime_dvd_mult_right_iff)
qed

lemma min_degree:
  assumes p: "2 \<le> p" "0 < n" and q: "q = p ^ n"
  shows "0 < min_degree p q v" "(q - 1) dvd (v - 1) * (p ^ min_degree p q v - 1)" "min_degree p q v dvd n"
    "0 < j \<Longrightarrow> (q - 1) dvd (v - 1) * (p ^ j - 1) \<Longrightarrow> min_degree p q v \<le> j"
    "(q - 1) dvd (v - 1) * (p ^ j - 1) \<Longrightarrow> min_degree p q v dvd j"
proof -
  let ?P = "\<lambda>k. (q - 1) dvd (v - 1) * (p ^ k - 1)" and ?k = "min_degree p q v"
  have "0 < n \<and> ?P n" using p q by simp
  then have P: "0 < ?k \<and> ?P ?k" unfolding min_degree_def by (rule LeastI)
  then show "0 < ?k" "?P ?k" by blast+
  have least: "?k \<le> j" if "0 < j" "?P j" for j unfolding min_degree_def using that by (intro Least_le) blast
  then show "0 < j \<Longrightarrow> ?P j \<Longrightarrow> ?k \<le> j" .
  have dvd: "?P j \<longrightarrow> ?k dvd j" for j
  proof (induction j rule: less_induct)
    case (less j)
    show ?case
    proof (cases "j = 0")
      case False
      show ?thesis
      proof
        assume j: "?P j"
        then have le: "?k \<le> j" using least False by simp
        then have "?P (j - ?k)" using degree_condition_diff [OF p q, of "v - 1" ?k "j - ?k"] P j by simp
        then have "?k dvd j - ?k" using less.IH [of "j - ?k"] P False le by simp
        then have "?k dvd (j - ?k) + ?k" by simp
        then show "?k dvd j" using le by simp
      qed
    qed simp
  qed
  then show "?P j \<Longrightarrow> ?k dvd j" by blast
  show "?k dvd n" using dvd [of n] q by simp
qed

lemma minimal_loop_correct:
  assumes p: "2 \<le> p" "0 < n" and q: "q = p ^ n"
  shows "minimal_loop p q v p 1 = Some (p ^ min_degree p q v, min_degree p q v)"
proof -
  let ?k = "min_degree p q v"
  note md = min_degree [OF p q, where v = v]
  have cond: "(q - 1) mod (p ^ j - 1) = 0 \<and> (v - 1) mod ((q - 1) div (p ^ j - 1)) = 0 \<longleftrightarrow>
      (p ^ j - 1) dvd (q - 1) \<and> (q - 1) dvd (v - 1) * (p ^ j - 1)" if "0 < j" for j
  proof -
    have pj: "0 < p ^ j - 1" using one_less_power [of p j] p(1) that by simp
    show ?thesis
    proof (cases "(p ^ j - 1) dvd (q - 1)")
      case True
      then obtain c where c: "q - 1 = (p ^ j - 1) * c" by blast
      then have "(q - 1) div (p ^ j - 1) = c" using pj by simp
      moreover have "(q - 1) dvd (v - 1) * (p ^ j - 1) \<longleftrightarrow> c dvd v - 1"
        unfolding c mult.commute [of "v - 1"] using pj by (rule nat_mult_dvd_cancel1)
      ultimately show ?thesis using True by (simp add: dvd_eq_mod_eq_0)
    qed (simp add: dvd_eq_mod_eq_0)
  qed
  have "minimal_loop p q v (p ^ j) j = Some (p ^ ?k, ?k)" if "0 < j" "j \<le> ?k" for j
    using that
  proof (induction "?k - j" arbitrary: j)
    case 0
    then have j: "j = ?k" by simp
    have "(p ^ ?k - 1) dvd (q - 1)" using power_minus_1_dvd [OF md(3), of p] q by simp
    then show ?case using cond [of ?k] md(1,2) j by (subst minimal_loop.simps) simp
  next
    case (Suc m)
    then have j: "j < ?k" by simp
    then have "\<not> (q - 1) dvd (v - 1) * (p ^ j - 1)" using md(4) [where j = j] Suc.prems(1) by auto
    then have "(q - 1) mod (p ^ j - 1) \<noteq> 0 \<or> (v - 1) mod ((q - 1) div (p ^ j - 1)) \<noteq> 0"
      using cond [OF Suc.prems(1)] by argo
    moreover have "minimal_loop p q v (p ^ Suc j) (Suc j) = Some (p ^ ?k, ?k)"
      using Suc j by (intro Suc.hyps(1)) simp_all
    ultimately show ?case by (subst minimal_loop.simps) (simp add: mult.commute)
  qed
  from this [of 1] md(1) show ?thesis by simp
qed

text \<open>The exponent of an element with respect to the root of its minimal field.\<close>

definition min_exponent :: "nat \<Rightarrow> nat \<Rightarrow> nat \<Rightarrow> nat" where
  "min_exponent p q v = (v - 1) div ((q - 1) div (p ^ min_degree p q v - 1))"

lemma min_exponent:
  assumes p: "2 \<le> p" "0 < n" and q: "q = p ^ n"
  shows "min_exponent p q v * (q - 1) = (v - 1) * (p ^ min_degree p q v - 1)"
proof -
  note md = min_degree [OF p q, where v = v]
  let ?m = "p ^ min_degree p q v - 1"
  have m: "0 < ?m" using one_less_power [of p "min_degree p q v"] p(1) md(1) by simp
  have "?m dvd (q - 1)" using power_minus_1_dvd [OF md(3), of p] q by simp
  then obtain c where c: "q - 1 = ?m * c" by blast
  then have d: "(q - 1) div ?m = c" using m by simp
  have "c dvd v - 1"
    using md(2) m unfolding c mult.commute [of "v - 1"] by (subst (asm) nat_mult_dvd_cancel1)
  then have e: "(v - 1) div c * c = v - 1" by (rule dvd_div_mult_self)
  have "(v - 1) div c * (?m * c) = ((v - 1) div c * c) * ?m" by (simp only: ac_simps)
  moreover have "min_exponent p q v = (v - 1) div c" by (simp only: min_exponent_def d)
  ultimately show ?thesis by (simp only: e c [symmetric])
qed

text \<open>The same fraction of the full turn.\<close>

definition same_fraction :: "nat \<Rightarrow> nat \<Rightarrow> nat \<Rightarrow> nat \<Rightarrow> bool" where
  "same_fraction v q w r \<longleftrightarrow> (v - 1) * (r - 1) = (w - 1) * (q - 1)"

lemma same_fraction_iff:
  assumes p: "2 \<le> p" "0 < n" "0 < n'" and q: "q = p ^ n" "r = p ^ n'"
  shows "same_fraction v q w r \<longleftrightarrow>
    min_degree p q v = min_degree p r w \<and> min_exponent p q v = min_exponent p r w"
proof
  have q1: "0 < q - 1" "0 < r - 1" using one_less_power [of p] p q by simp_all
  assume s: "same_fraction v q w r"
  have t: "(v - 1) * X = t * (q - 1) \<longleftrightarrow> (w - 1) * X = t * (r - 1)" for X t
  proof -
    have "((v - 1) * X) * (r - 1) = ((v - 1) * (r - 1)) * X" by (simp only: ac_simps)
    also have "\<dots> = ((w - 1) * X) * (q - 1)" using s by (simp only: same_fraction_def ac_simps)
    finally have "((v - 1) * X) * (r - 1) = (t * (q - 1)) * (r - 1) \<longleftrightarrow> ((w - 1) * X) * (q - 1) = (t * (r - 1)) * (q - 1)"
      by (simp only: ac_simps)
    then show ?thesis using q1 by (simp only: mult_cancel2) linarith
  qed
  have "(q - 1) dvd (v - 1) * X \<longleftrightarrow> (r - 1) dvd (w - 1) * X" for X
    using t [of X] unfolding dvd_def by (metis mult.commute)
  then have d: "min_degree p q v = min_degree p r w" by (simp add: min_degree_def)
  have "min_exponent p q v * (r - 1) = (w - 1) * (p ^ min_degree p q v - 1)"
    using min_exponent [OF p(1,2) q(1), of v] t [of "p ^ min_degree p q v - 1"] by metis
  then have "min_exponent p q v * (r - 1) = min_exponent p r w * (r - 1)"
    using min_exponent [OF p(1,3) q(2), of w] d by simp
  then show "min_degree p q v = min_degree p r w \<and> min_exponent p q v = min_exponent p r w"
    using d q1 by simp
next
  assume *: "min_degree p q v = min_degree p r w \<and> min_exponent p q v = min_exponent p r w"
  let ?m = "p ^ min_degree p q v - 1" and ?a = "min_exponent p q v"
  have m: "0 < ?m" using one_less_power [of p "min_degree p q v"] p(1) min_degree(1) [OF p(1,2) q(1)] by simp
  have e: "?a * (q - 1) = (v - 1) * ?m" "?a * (r - 1) = (w - 1) * ?m"
    using min_exponent [OF p(1,2) q(1), of v] min_exponent [OF p(1,3) q(2), of w] * by simp_all
  have "(v - 1) * (r - 1) * ?m = ((v - 1) * ?m) * (r - 1)" by (simp only: ac_simps)
  also have "\<dots> = (?a * (r - 1)) * (q - 1)" by (simp only: e(1) [symmetric] ac_simps)
  also have "\<dots> = ((w - 1) * ?m) * (q - 1)" by (simp only: e(2))
  also have "\<dots> = (w - 1) * (q - 1) * ?m" by (simp only: ac_simps)
  finally show "same_fraction v q w r" using m by (simp add: same_fraction_def)
qed

end
