(* ===== verification/FinFieldCommon.thy ===== *)
theory FinFieldCommon
  imports FinFieldDegree
begin

text \<open>
  Comparison of elements and the common field of two operands: equality and order are those of the minimal
  representation, \<open>CommonFF\<close> answers 0 only when no field of the tables contains both operands, although the
  size it computes wraps around, and the converted values describe the same elements.
\<close>

subsection \<open>Comparison\<close>

definition same_element :: "ffdata \<Rightarrow> UInt \<Rightarrow> UInt \<Rightarrow> bool" where
  "same_element D x y \<longleftrightarrow>
     CHAR_FF D (FLD_FFE D x) = CHAR_FF D (FLD_FFE D y)
     \<and> (if VAL_FFE D x = 0 \<or> VAL_FFE D y = 0 then VAL_FFE D x = VAL_FFE D y
        else same_fraction (VAL_FFE D x) (SIZE_FF D (FLD_FFE D x)) (VAL_FFE D y) (SIZE_FF D (FLD_FFE D y)))"

definition element_degree :: "ffdata \<Rightarrow> UInt \<Rightarrow> nat" where
  "element_degree D x =
     (if VAL_FFE D x = 0 then 1
      else min_degree (CHAR_FF D (FLD_FFE D x)) (SIZE_FF D (FLD_FFE D x)) (VAL_FFE D x))"

definition element_key :: "ffdata \<Rightarrow> UInt \<Rightarrow> nat \<times> nat" where
  "element_key D x =
     (if VAL_FFE D x = 0 then (0, 0)
      else (CHAR_FF D (FLD_FFE D x) ^ element_degree D x,
            min_exponent (CHAR_FF D (FLD_FFE D x)) (SIZE_FF D (FLD_FFE D x)) (VAL_FFE D x)))"

definition key_less :: "nat \<times> nat \<Rightarrow> nat \<times> nat \<Rightarrow> bool" where
  "key_less a b \<longleftrightarrow> fst a < fst b \<or> fst a = fst b \<and> snd a < snd b"

context finite_fields
begin

lemma ffeD:
  assumes "is_ffe D st x"
  shows "is_field D (FLD_FFE D x)" "VAL_FFE D x < SIZE_FF D (FLD_FFE D x)"
    "2 \<le> CHAR_FF D (FLD_FFE D x)" "0 < DEGR_FF D (FLD_FFE D x)"
    "SIZE_FF D (FLD_FFE D x) = CHAR_FF D (FLD_FFE D x) ^ DEGR_FF D (FLD_FFE D x)"
proof -
  show f: "is_field D (FLD_FFE D x)" and "VAL_FFE D x < SIZE_FF D (FLD_FFE D x)"
    using assms by (auto simp: is_ffe_def)
  then show "2 \<le> CHAR_FF D (FLD_FFE D x)" "0 < DEGR_FF D (FLD_FFE D x)"
    "SIZE_FF D (FLD_FFE D x) = CHAR_FF D (FLD_FFE D x) ^ DEGR_FF D (FLD_FFE D x)"
    using fieldD [OF f] prime_number_ge_2 by auto
qed

lemma minimal_loop_ffe:
  assumes "is_ffe D st x" "VAL_FFE D x \<noteq> 0"
  shows "minimal_loop (CHAR_FF D (FLD_FFE D x)) (SIZE_FF D (FLD_FFE D x)) (VAL_FFE D x) (CHAR_FF D (FLD_FFE D x)) 1
    = Some (fst (element_key D x), element_degree D x)"
  using minimal_loop_correct [OF ffeD(3-5) [OF assms(1)]] assms(2) by (simp add: element_key_def element_degree_def)

lemma DegreeFFE_correct: "is_ffe D st x \<Longrightarrow> DegreeFFE D x = Some (element_degree D x)"
  using minimal_loop_ffe [of st x] by (cases "VAL_FFE D x = 0") (simp_all add: DegreeFFE_def Let_def element_degree_def)

lemma element_degree:
  assumes "is_ffe D st x"
  shows "0 < element_degree D x" "element_degree D x dvd DEGR_FF D (FLD_FFE D x)"
  using min_degree(1,3) [OF ffeD(3-5) [OF assms]] by (simp_all add: element_degree_def)

lemma key_exponent:
  assumes "VAL_FFE D x \<noteq> 0"
  shows "(VAL_FFE D x - 1) div ((SIZE_FF D (FLD_FFE D x) - 1) div (fst (element_key D x) - 1)) = snd (element_key D x)"
  using assms by (simp add: element_key_def element_degree_def min_exponent_def)

lemma key_fst: "is_ffe D st x \<Longrightarrow> VAL_FFE D x \<noteq> 0 \<Longrightarrow> 2 \<le> fst (element_key D x)"
  using self_le_power [of "CHAR_FF D (FLD_FFE D x)" "element_degree D x"] ffeD(3) [of st x] element_degree(1) [of st x]
  by (simp add: element_key_def)

lemma same_element_iff:
  assumes x: "is_ffe D st x" and y: "is_ffe D st y" and c: "CHAR_FF D (FLD_FFE D x) = CHAR_FF D (FLD_FFE D y)"
  shows "same_element D x y \<longleftrightarrow> element_key D x = element_key D y"
proof (cases "VAL_FFE D x = 0 \<or> VAL_FFE D y = 0")
  case True
  then show ?thesis
    using key_fst [OF x] key_fst [OF y] c ffeD(3) [OF x] ffeD(3) [OF y] by (auto simp: same_element_def element_key_def)
next
  case False
  have p: "2 \<le> CHAR_FF D (FLD_FFE D y)" by (rule ffeD(3) [OF y])
  show ?thesis
    using False c same_fraction_iff [OF ffeD(3,4) [OF x] ffeD(4) [OF y] ffeD(5) [OF x] ffeD(5) [OF y, folded c]]
      p power_inject_exp [of "CHAR_FF D (FLD_FFE D y)"]
    by (simp add: same_element_def element_key_def element_degree_def)
qed

lemma EqFFE_correct:
  assumes x: "is_ffe D st x" and y: "is_ffe D st y"
  shows "EqFFE D x y = Some (same_element D x y)"
proof -
  consider "FLD_FFE D x = FLD_FFE D y" | "CHAR_FF D (FLD_FFE D x) \<noteq> CHAR_FF D (FLD_FFE D y)"
    | "FLD_FFE D x \<noteq> FLD_FFE D y" "CHAR_FF D (FLD_FFE D x) = CHAR_FF D (FLD_FFE D y)" "VAL_FFE D x = 0 \<or> VAL_FFE D y = 0"
    | "FLD_FFE D x \<noteq> FLD_FFE D y" "CHAR_FF D (FLD_FFE D x) = CHAR_FF D (FLD_FFE D y)" "VAL_FFE D x \<noteq> 0" "VAL_FFE D y \<noteq> 0"
    by blast
  then show ?thesis
  proof cases
    case 1
    have "0 < SIZE_FF D (FLD_FFE D y) - 1" using fieldD(6) [OF ffeD(1) [OF y]] by simp
    then show ?thesis using 1 by (auto simp: EqFFE_def same_element_def same_fraction_def)
  next
    case 2
    then have "FLD_FFE D x \<noteq> FLD_FFE D y" by auto
    then show ?thesis using 2 by (simp add: EqFFE_def same_element_def Let_def)
  next
    case 3
    then show ?thesis by (auto simp: EqFFE_def same_element_def Let_def)
  next
    case 4
    then show ?thesis
      using minimal_loop_ffe [OF x] minimal_loop_ffe [OF y] key_exponent [of x] key_exponent [of y]
        same_element_iff [OF x y 4(2)]
      by (auto simp: EqFFE_def Let_def prod_eq_iff)
  qed
qed

lemma LtFFE_correct:
  assumes x: "is_ffe D st x" and y: "is_ffe D st y" and c: "CHAR_FF D (FLD_FFE D x) = CHAR_FF D (FLD_FFE D y)"
  shows "LtFFE D L x y = Some (key_less (element_key D x) (element_key D y))"
proof (cases "VAL_FFE D x = 0 \<or> VAL_FFE D y = 0")
  case True
  then show ?thesis
    using key_fst [OF x] key_fst [OF y] c ffeD(3) [OF x] ffeD(3) [OF y] by (auto simp: LtFFE_def key_less_def element_key_def)
next
  case False
  note loops = minimal_loop_ffe [OF x] minimal_loop_ffe [OF y] key_exponent [of x] key_exponent [of y]
  show ?thesis
  proof (cases "SIZE_FF D (FLD_FFE D x) = CHAR_FF D (FLD_FFE D x) \<and> SIZE_FF D (FLD_FFE D y) = CHAR_FF D (FLD_FFE D y)")
    case True
    have one: "element_key D z = (CHAR_FF D (FLD_FFE D z), VAL_FFE D z - 1)"
      if z: "is_ffe D st z" "SIZE_FF D (FLD_FFE D z) = CHAR_FF D (FLD_FFE D z)" "VAL_FFE D z \<noteq> 0" for z
    proof -
      have "element_degree D z \<le> 1"
        using min_degree(4) [OF ffeD(3-5) [OF z(1)], of 1 "VAL_FFE D z"] z(2,3) by (simp add: element_degree_def)
      then have d: "element_degree D z = 1" using element_degree(1) [OF z(1)] by simp
      have "(CHAR_FF D (FLD_FFE D z) - 1) div (CHAR_FF D (FLD_FFE D z) - 1) = 1" using ffeD(3) [OF z(1)] by simp
      then show ?thesis using key_exponent [of z] d z(2,3) by (simp add: element_key_def prod_eq_iff)
    qed
    have "LtFFE D L x y = Some (VAL_FFE D x < VAL_FFE D y)" using True False c by (simp add: LtFFE_def Let_def)
    then show ?thesis using one [OF x] one [OF y] True False c by (auto simp: key_less_def)
  next
    case big: False
    then show ?thesis using False c loops by (auto simp: LtFFE_def Let_def key_less_def)
  qed
qed

end

subsection \<open>Powers that wrap around\<close>

lemma odd_power_minus_1:
  fixes y :: nat
  assumes "odd y" "odd n"
  shows "\<exists>s. odd s \<and> y ^ n - 1 = (y - 1) * s"
proof -
  have odd_sum: "odd (\<Sum>i<n. y ^ i)"
    using assms(2)
  proof (induction n rule: nat_induct2)
    case (step k)
    then show ?case using assms(1) by simp
  qed simp_all
  have "int (y ^ n - 1) = int ((y - 1) * (\<Sum>i<n. y ^ i))"
  proof (cases "y = 0")
    case False
    then show ?thesis using power_diff_1_eq [of "int y" n] by (simp add: of_nat_diff)
  qed (use assms in simp)
  then have "y ^ n - 1 = (y - 1) * (\<Sum>i<n. y ^ i)" by (simp only: of_nat_eq_iff)
  then show ?thesis using odd_sum by blast
qed

lemma two_power_dvd_odd: "2 ^ k dvd w * s \<Longrightarrow> odd s \<Longrightarrow> 2 ^ k dvd w" for w s :: nat
  by (simp add: coprime_dvd_mult_left_iff)

lemma square_minus_1: "y ^ 2 - 1 = (y - 1) * (y + 1)" for y :: nat
  by (cases y) (simp_all add: power2_eq_square)

lemma square_chain:
  fixes p :: nat
  assumes "odd p"
  shows "2 ^ (k + s) dvd p ^ (2 ^ Suc s) - 1 \<Longrightarrow> 2 ^ k dvd p ^ 2 - 1"
proof (induction s)
  case (Suc s)
  let ?y = "p ^ (2 ^ Suc s)"
  have "p ^ (2 ^ Suc (Suc s)) = ?y ^ 2" by (simp add: power_mult [symmetric])
  moreover have "?y ^ 2 - 1 = (?y - 1) * (?y + 1)"
    by (rule square_minus_1)
  moreover obtain r where r: "?y + 1 = 2 * r" "odd r"
  proof -
    obtain t where t: "p ^ 2 ^ s = 2 * t + 1" using assms by (metis oddE odd_pos power_eq_0_iff even_power)
    have "?y = (p ^ 2 ^ s) ^ 2" by (simp add: power_mult [symmetric] mult.commute)
    then have "?y + 1 = 2 * (2 * (t * t + t) + 1)" by (simp add: t power2_eq_square algebra_simps)
    then show thesis using that [of "2 * (t * t + t) + 1"] by simp
  qed
  ultimately have "p ^ (2 ^ Suc (Suc s)) - 1 = 2 * ((?y - 1) * r)" by (simp only: mult.left_commute)
  then have "2 * 2 ^ (k + s) dvd 2 * ((?y - 1) * r)" using Suc.prems by (simp only: add_Suc_right power_Suc)
  then have "2 ^ (k + s) dvd (?y - 1) * r" by simp
  then have "2 ^ (k + s) dvd ?y - 1" using r(2) by (rule two_power_dvd_odd)
  then show ?case by (rule Suc.IH)
qed simp

lemma wrapped_power:
  fixes p j d :: nat
  assumes p: "2 \<le> p" "p < 2 ^ 16" and j: "0 < j" "p ^ j \<le> 2 ^ 16" and d: "d < 256"
    and e: "p ^ d mod 2 ^ 64 = p ^ j"
  shows "p ^ d = p ^ j"
proof (cases "d \<le> j")
  case True
  then have "p ^ d \<le> p ^ j" using p by (intro power_increasing) auto
  then have "p ^ d < 2 ^ 64" using j by simp
  then show ?thesis using e by simp
next
  case False
  define n where "n = d - j"
  have n: "0 < n" "n < 256" "d = j + n" using False d by (auto simp: n_def)
  have "(2 ^ 64) dvd p ^ d - p ^ j" using e by (metis dvd_minus_mod)
  moreover have "p ^ d - p ^ j = (p ^ n - 1) * p ^ j" by (simp add: n(3) power_add diff_mult_distrib diff_mult_distrib2 mult.commute)
  ultimately have dvd: "(2 ^ 64) dvd (p ^ n - 1) * p ^ j" by metis
  have False
  proof (cases "even p")
    case True
    then have "odd (p ^ n - 1)" using n(1) p by simp
    then have "(2 ^ 64) dvd p ^ j" using dvd two_power_dvd_odd by (metis mult.commute)
    then have "(2 ^ 64) \<le> p ^ j" using p by (intro dvd_imp_le) auto
    then show False using j by simp
  next
    case odd: False
    have "odd (p ^ j)" using odd by simp
    with dvd have "(2 ^ 64) dvd p ^ n - 1" by (rule two_power_dvd_odd)
    moreover obtain s r where r: "n = 2 ^ s * r" "odd r"
      using prime_power_split [of 2 n] n(1) by (auto simp: prime_number_def)
    ultimately have "(2 ^ 64) dvd (p ^ 2 ^ s) ^ r - 1" by (simp add: power_mult)
    then have y: "(2 ^ 64) dvd p ^ 2 ^ s - 1"
      using odd_power_minus_1 [of "p ^ 2 ^ s" r] r(2) odd two_power_dvd_odd by (metis even_power)
    have "2 ^ s \<le> n" using r n(1) by (cases r) auto
    then have "(2::nat) ^ s < 2 ^ 8" using n(2) by simp
    then have s: "s < 8" by (rule power_less_imp_less_exp [rotated]) simp
    have p2: "1 < p" "p ^ 2 < 2 ^ 58"
    proof -
      have "p * p < 2 ^ 16 * 2 ^ 16" using p(2) by (intro mult_strict_mono) auto
      then show "p ^ 2 < 2 ^ 58" by (simp add: power2_eq_square)
    qed (use p in simp)
    have "(2 ^ 58) dvd p ^ 2 - 1"
    proof (cases s)
      case 0
      then have "(2 ^ 64) dvd p - 1" using y by simp
      then have "(2 ^ 64) \<le> p - 1" using p2 by (intro dvd_imp_le) auto
      then show ?thesis using p(2) by simp
    next
      case (Suc t)
      have "(2::nat) ^ (58 + t) dvd 2 ^ 64" using s Suc by (intro le_imp_power_dvd) simp
      then have "2 ^ (58 + t) dvd p ^ 2 ^ Suc t - 1" using y Suc dvd_trans by blast
      then show ?thesis using odd by (intro square_chain) auto
    qed
    moreover have "0 < p ^ 2 - 1" using one_less_power [OF p2(1), of 2] by simp
    ultimately have "(2 ^ 58) \<le> p ^ 2 - 1" by (rule dvd_imp_le)
    then show False using p2 by simp
  qed
  then show ?thesis ..
qed

lemma wrapping_loop: "((\<lambda>q. (q * p) mod 2 ^ 64) ^^ d) 1 = p ^ d mod 2 ^ 64" for p :: nat
  by (induction d) (simp_all add: mod_mult_right_eq mult.commute)

lemma degree_loop_lcm:
  assumes "0 < d1" "0 < d2"
  shows "0 < i \<Longrightarrow> d1 * i \<le> lcm d1 d2 \<Longrightarrow> degree_loop d1 d2 (d1 * i) = Some (lcm d1 d2)"
proof (induction "lcm d1 d2 - d1 * i" arbitrary: i rule: less_induct)
  case less
  show ?case
  proof (cases "d2 dvd d1 * i")
    case True
    then have "lcm d1 d2 dvd d1 * i" by (simp add: lcm_least)
    then have "lcm d1 d2 \<le> d1 * i" using assms less.prems by (intro dvd_imp_le) auto
    then show ?thesis using True less.prems by (subst degree_loop.simps) (simp add: dvd_eq_mod_eq_0)
  next
    case False
    then have ne: "d1 * i \<noteq> lcm d1 d2" by (metis dvd_lcm2)
    obtain c where c: "lcm d1 d2 = d1 * c" by (meson dvd_lcm1 dvdE)
    then have "i < c" using less.prems ne by (metis le_neq_implies_less nat_mult_less_cancel_disj)
    then have "d1 * Suc i \<le> lcm d1 d2" unfolding c by (intro mult_left_mono) auto
    moreover have "d1 * i < d1 * Suc i" using assms by simp
    ultimately have "degree_loop d1 d2 (d1 * Suc i) = Some (lcm d1 d2)" by (intro less.hyps) linarith+
    then show ?thesis using False by (subst degree_loop.simps) (simp add: dvd_eq_mod_eq_0 add.commute)
  qed
qed

subsection \<open>The common field\<close>

text \<open>The value \<open>v\<close> of the field \<open>g\<close> describes the element \<open>x\<close>.\<close>

definition represents :: "ffdata \<Rightarrow> UInt \<Rightarrow> nat \<Rightarrow> nat \<Rightarrow> bool" where
  "represents D x g v \<longleftrightarrow>
     v < SIZE_FF D g \<and> CHAR_FF D g = CHAR_FF D (FLD_FFE D x)
     \<and> (v = 0 \<longleftrightarrow> VAL_FFE D x = 0)
     \<and> (v \<noteq> 0 \<longrightarrow> same_fraction (VAL_FFE D x) (SIZE_FF D (FLD_FFE D x)) v (SIZE_FF D g))"

context finite_fields
begin

lemma degree_bound:
  assumes "is_field D ff" "d dvd DEGR_FF D ff"
  shows "d \<le> 16"
proof -
  have "(2::nat) ^ DEGR_FF D ff \<le> CHAR_FF D ff ^ DEGR_FF D ff"
    using prime_number_ge_2 [OF fieldD(1) [OF assms(1)]] by (intro power_mono) auto
  then have "(2::nat) ^ DEGR_FF D ff \<le> 2 ^ 16" using fieldD(3,5) [OF assms(1)] by linarith
  then have "DEGR_FF D ff \<le> 16" by (rule power_le_imp_le_exp [rotated]) simp
  moreover have "d \<le> DEGR_FF D ff" using assms fieldD(2) [OF assms(1)] by (intro dvd_imp_le) auto
  ultimately show ?thesis by linarith
qed

lemma lcm_bound: "d1 \<le> 16 \<Longrightarrow> d2 \<le> 16 \<Longrightarrow> lcm d1 d2 < 256" for d1 d2 :: nat
proof (cases "d1 = d2")
  case False
  assume d: "d1 \<le> 16" "d2 \<le> 16"
  then have "d1 * d2 \<le> 15 * 16"
    using False mult_mono [of d1 15 d2 16] mult_mono [of d1 16 d2 15] by (cases "d1 \<le> 15") auto
  moreover have "lcm d1 d2 \<le> d1 * d2"
    by (cases "d1 = 0 \<or> d2 = 0") (auto intro: dvd_imp_le lcm_least)
  ultimately show ?thesis by linarith
qed simp

lemma char_bound: "is_field D ff \<Longrightarrow> CHAR_FF D ff < 2 ^ 16"
proof -
  assume ff: "is_field D ff"
  have "CHAR_FF D ff \<le> SIZE_FF D ff"
    using fieldD(2,3) [OF ff] prime_number_ge_2 [OF fieldD(1) [OF ff]] by (simp add: self_le_power)
  then have "CHAR_FF D ff \<le> 2 ^ 16" using fieldD(5) [OF ff] by linarith
  moreover have "CHAR_FF D ff \<noteq> 2 ^ 16"
  proof
    assume "CHAR_FF D ff = 2 ^ 16"
    moreover have "\<not> prime_number (2 ^ 16)"
      unfolding prime_number_def by (auto intro!: bexI [of _ 2])
    ultimately show False using fieldD(1) [OF ff] by metis
  qed
  ultimately show ?thesis by simp
qed

lemma FiniteField_correct:
  assumes st: "tables_ok D L st" and p: "prime_number p" "p < 2 ^ 16" and d: "0 < d" "d < 256"
  shows "\<exists>ff st'. FiniteField D L p d st = Some (ff, st') \<and> tables_ok D L st' \<and> extends st st'
    \<and> (if p ^ d \<le> MAXSIZE_GF_INTERNAL D
       then is_field D ff \<and> CHAR_FF D ff = p \<and> DEGR_FF D ff = d \<and> SUCC_FF st' ff \<noteq> None else ff = 0)"
proof -
  have p2: "2 \<le> p" by (rule prime_number_ge_2 [OF p(1)])
  let ?q = "p ^ d mod 2 ^ 64"
  have F: "FiniteField D L p d st = do {
       (ff, st) \<leftarrow> FiniteFieldBySize D L ?q st;
       Some (if ff \<noteq> 0 \<and> CHAR_FF D ff \<noteq> p then 0 else ff, st)}"
    unfolding FiniteField_def Let_def wrapping_loop ..
  show ?thesis
  proof (cases "p ^ d \<le> MAXSIZE_GF_INTERNAL D")
    case True
    then have "p ^ d \<le> 2 ^ 16" using data by (simp add: field_data_def)
    then have q: "?q = p ^ d" by simp
    obtain ff where ff: "is_field D ff" "SIZE_FF D ff = p ^ d" using field_exists [OF data p(1) d(1) True] by blast
    have c: "CHAR_FF D ff = p" "DEGR_FF D ff = d" using field_size_power [OF data ff p(1) d(1)] by blast+
    obtain st' where st': "FiniteFieldBySize D L (p ^ d) st = Some (ff, st')" "tables_ok D L st'" "extends st st'"
      "SUCC_FF st' ff \<noteq> None" using FiniteFieldBySize_field [OF st ff(1)] unfolding ff(2) by blast
    have "FiniteField D L p d st = Some (ff, st')" unfolding F q using st'(1) c(1) by simp
    then show ?thesis using st' ff(1) c True by auto
  next
    case False
    show ?thesis
    proof (cases "\<exists>ff. is_field D ff \<and> SIZE_FF D ff = ?q")
      case True
      then obtain ff where ff: "is_field D ff" "SIZE_FF D ff = ?q" by blast
      have "CHAR_FF D ff \<noteq> p"
      proof
        assume "CHAR_FF D ff = p"
        then have "p ^ d mod 2 ^ 64 = p ^ DEGR_FF D ff" "p ^ DEGR_FF D ff \<le> 2 ^ 16"
          using ff(2) fieldD(3,5) [OF ff(1)] by simp_all
        then have "p ^ d = p ^ DEGR_FF D ff" using wrapped_power p2 p(2) fieldD(2) [OF ff(1)] d(2) by blast
        then show False using False fieldD(3,4) [OF ff(1)] \<open>CHAR_FF D ff = p\<close> by simp
      qed
      moreover have "ff \<noteq> 0" using ff(1) by (simp add: is_field_def)
      ultimately show ?thesis using FiniteFieldBySize_field [OF st ff(1)] False by (auto simp: F ff(2))
    next
      case none: False
      then have "FiniteFieldBySize D L ?q st = Some (0, st)" by (intro FiniteFieldBySize_none) blast
      then show ?thesis using False st by (simp add: F)
    qed
  qed
qed

lemma CommonFF_correct:
  assumes st: "tables_ok D L st" and f: "is_field D f1" "is_field D f2"
    and d1: "0 < d1" "d1 dvd DEGR_FF D f1" and d2: "0 < d2" "d2 dvd DEGR_FF D f2"
    and known: "SUCC_FF st f1 \<noteq> None" "SUCC_FF st f2 \<noteq> None"
  shows "\<exists>fX st'. CommonFF D L f1 d1 f2 d2 st = Some (fX, st') \<and> tables_ok D L st' \<and> extends st st'
    \<and> (if fX = 0
       then \<not> (\<exists>g. is_field D g \<and> CHAR_FF D g = CHAR_FF D f1 \<and> CHAR_FF D g = CHAR_FF D f2
                 \<and> d1 dvd DEGR_FF D g \<and> d2 dvd DEGR_FF D g)
       else is_field D fX \<and> CHAR_FF D fX = CHAR_FF D f1 \<and> CHAR_FF D fX = CHAR_FF D f2
         \<and> d1 dvd DEGR_FF D fX \<and> d2 dvd DEGR_FF D fX \<and> SUCC_FF st' fX \<noteq> None)"
proof -
  have nz: "f1 \<noteq> 0" "f2 \<noteq> 0" using f by (auto simp: is_field_def)
  consider "f1 = f2" | "CHAR_FF D f1 \<noteq> CHAR_FF D f2"
    | "f1 \<noteq> f2" "CHAR_FF D f1 = CHAR_FF D f2" "d2 dvd DEGR_FF D f1"
    | "f1 \<noteq> f2" "CHAR_FF D f1 = CHAR_FF D f2" "\<not> d2 dvd DEGR_FF D f1" "d1 dvd DEGR_FF D f2"
    | "f1 \<noteq> f2" "CHAR_FF D f1 = CHAR_FF D f2" "\<not> d2 dvd DEGR_FF D f1" "\<not> d1 dvd DEGR_FF D f2" by blast
  then show ?thesis
  proof cases
    case 1
    then show ?thesis using assms nz by (simp add: CommonFF_def)
  next
    case 2
    then have "f1 \<noteq> f2" by auto
    then show ?thesis using 2 st by (simp add: CommonFF_def Let_def)
  next
    case 3
    then show ?thesis using assms nz by (simp add: CommonFF_def dvd_eq_mod_eq_0 [symmetric])
  next
    case 4
    then show ?thesis using assms nz by (simp add: CommonFF_def dvd_eq_mod_eq_0 [symmetric])
  next
    case 5
    let ?p = "CHAR_FF D f1" and ?d = "lcm d1 d2"
    have "degree_loop d1 d2 (d1 * 1) = Some ?d"
      using d1(1) d2(1) by (intro degree_loop_lcm) (auto intro!: dvd_imp_le lcm_pos_nat)
    then have C: "CommonFF D L f1 d1 f2 d2 st = FiniteField D L ?p ?d st"
      using 5 by (simp add: CommonFF_def dvd_eq_mod_eq_0 [symmetric])
    have "0 < ?d" "?d < 256"
      using d1(1) d2(1) lcm_bound [OF degree_bound [OF f(1) d1(2)] degree_bound [OF f(2) d2(2)]] by (auto intro!: lcm_pos_nat)
    from FiniteField_correct [OF st fieldD(1) [OF f(1)] char_bound [OF f(1)] this]
    obtain ff st' where ff: "FiniteField D L ?p ?d st = Some (ff, st')" "tables_ok D L st'" "extends st st'"
      "if ?p ^ ?d \<le> MAXSIZE_GF_INTERNAL D then is_field D ff \<and> CHAR_FF D ff = ?p \<and> DEGR_FF D ff = ?d \<and> SUCC_FF st' ff \<noteq> None
       else ff = 0" by blast
    have none: "?p ^ ?d \<le> MAXSIZE_GF_INTERNAL D"
      if g: "is_field D g" "CHAR_FF D g = ?p" "d1 dvd DEGR_FF D g" "d2 dvd DEGR_FF D g" for g
    proof -
      have "?d dvd DEGR_FF D g" using g by (simp add: lcm_least)
      then have "?d \<le> DEGR_FF D g" using fieldD(2) [OF g(1)] by (intro dvd_imp_le) auto
      then have "?p ^ ?d \<le> ?p ^ DEGR_FF D g" using prime_number_ge_2 [OF fieldD(1) [OF f(1)]] by (intro power_increasing) auto
      then show ?thesis using fieldD(3,4) [OF g(1)] g(2) by simp
    qed
    show ?thesis
    proof (cases "?p ^ ?d \<le> MAXSIZE_GF_INTERNAL D")
      case True
      then have "ff \<noteq> 0" using ff(4) by (auto simp: is_field_def)
      then show ?thesis using True ff 5 C by (intro exI [of _ ff] exI [of _ st']) simp
    next
      case False
      then have "ff = 0" using ff(4) by simp
      then show ?thesis using False ff none C by (intro exI [of _ 0] exI [of _ st']) auto
    qed
  qed
qed

lemma represents_self: "is_ffe D st x \<Longrightarrow> represents D x (FLD_FFE D x) (VAL_FFE D x)"
  by (simp add: represents_def ffeD(2) same_fraction_def)

lemma represents_degree:
  assumes x: "is_ffe D st x" and g: "is_field D g" and r: "represents D x g v"
  shows "element_degree D x dvd DEGR_FF D g"
proof (cases "VAL_FFE D x = 0")
  case False
  let ?p = "CHAR_FF D (FLD_FFE D x)"
  have c: "CHAR_FF D g = ?p" and s: "same_fraction (VAL_FFE D x) (SIZE_FF D (FLD_FFE D x)) v (SIZE_FF D g)"
    using r False by (auto simp: represents_def)
  have q: "SIZE_FF D g = ?p ^ DEGR_FF D g" using fieldD(3) [OF g] c by simp
  have "min_degree ?p (SIZE_FF D (FLD_FFE D x)) (VAL_FFE D x) = min_degree ?p (SIZE_FF D g) v"
    using same_fraction_iff [OF ffeD(3,4) [OF x] fieldD(2) [OF g] ffeD(5) [OF x] q] s by blast
  then show ?thesis
    using min_degree(3) [OF ffeD(3) [OF x] fieldD(2) [OF g] q, of v] False by (simp add: element_degree_def)
qed (simp add: element_degree_def)

text \<open>A representation by exact division; the value fits the 16 bits of its type.\<close>

lemma represents_lift:
  assumes x: "is_ffe D st x" and g: "is_field D g" "CHAR_FF D g = CHAR_FF D (FLD_FFE D x)"
    and t: "VAL_FFE D x \<noteq> 0 \<Longrightarrow> t * (SIZE_FF D (FLD_FFE D x) - 1) = (VAL_FFE D x - 1) * (SIZE_FF D g - 1)"
  shows "represents D x g (if VAL_FFE D x \<noteq> 0 then u16 (t + 1) else VAL_FFE D x)"
proof (cases "VAL_FFE D x = 0")
  case True
  then show ?thesis using g fieldD(6) [OF g(1)] by (simp add: represents_def)
next
  case False
  let ?v = "VAL_FFE D x" and ?q = "SIZE_FF D (FLD_FFE D x)" and ?r = "SIZE_FF D g"
  have q: "2 \<le> ?q" "2 \<le> ?r" "?r \<le> 2 ^ 16" using fieldD(5,6) ffeD(1) [OF x] g(1) by blast+
  have "?v - 1 < ?q - 1" using ffeD(2) [OF x] False by linarith
  then have "(?v - 1) * (?r - 1) < (?q - 1) * (?r - 1)" using q by simp
  then have "t * (?q - 1) < (?r - 1) * (?q - 1)" using t [OF False] by (simp only: ac_simps)
  then have "t < ?r - 1" by (metis mult_less_cancel2)
  then have "t + 1 < ?r" by linarith
  moreover from this have "u16 (t + 1) = t + 1" using q(3) by simp
  ultimately show ?thesis using False g(2) t [OF False] by (simp add: represents_def same_fraction_def)
qed

lemma common_char:
  assumes f: "is_field D f" "is_field D g" and m: "SIZE_FF D f mod SIZE_FF D g = 0"
  shows "CHAR_FF D f = CHAR_FF D g"
proof -
  have "CHAR_FF D g dvd SIZE_FF D g" using fieldD(2,3) [OF f(2)] by simp
  then have "CHAR_FF D g dvd CHAR_FF D f ^ DEGR_FF D f"
    using m fieldD(3) [OF f(1)] by (metis dvd_eq_mod_eq_0 dvd_trans)
  then have "CHAR_FF D g dvd CHAR_FF D f" by (rule prime_number_dvd_power [OF fieldD(1) [OF f(2)]])
  then show ?thesis
    using prime_number_dvd [OF fieldD(1) [OF f(1)], of "CHAR_FF D g"] prime_number_ge_2 [OF fieldD(1) [OF f(2)]] by auto
qed

lemma exact_lift:
  assumes "(r - 1) mod (q - 1) = (0::nat)"
  shows "((r - 1) div (q - 1) * (v - 1)) * (q - 1) = (v - 1) * (r - 1)"
proof -
  have "(r - 1) div (q - 1) * (q - 1) = r - 1" using assms by (simp add: dvd_eq_mod_eq_0)
  then show ?thesis by (metis mult.assoc mult.commute)
qed

lemma common_field_correct:
  assumes st: "tables_ok D L st" and x: "is_ffe D st x" and y: "is_ffe D st y"
  shows "\<exists>fX vL vR st'. common_field D L x y st = Some ((fX, vL, vR), st') \<and> tables_ok D L st' \<and> extends st st'
    \<and> (if fX = 0 then \<not> (\<exists>g v w. is_field D g \<and> represents D x g v \<and> represents D y g w)
       else is_field D fX \<and> SUCC_FF st' fX \<noteq> None \<and> represents D x fX vL \<and> represents D y fX vR)"
proof -
  let ?f = "FLD_FFE D x" and ?g = "FLD_FFE D y"
  let ?q = "SIZE_FF D ?f" and ?r = "SIZE_FF D ?g"
  have f: "is_field D ?f" "is_field D ?g" using ffeD(1) x y by blast+
  have nz: "?f \<noteq> 0" "?g \<noteq> 0" using f by (auto simp: is_field_def)
  have known: "SUCC_FF st ?f \<noteq> None" "SUCC_FF st ?g \<noteq> None" using x y by (auto simp: is_ffe_def)
  consider "?q = ?r" | "?q \<noteq> ?r" "?q mod ?r = 0" "(?q - 1) mod (?r - 1) = 0"
    | "?q \<noteq> ?r" "\<not> (?q mod ?r = 0 \<and> (?q - 1) mod (?r - 1) = 0)" "?r mod ?q = 0" "(?r - 1) mod (?q - 1) = 0"
    | "?q \<noteq> ?r" "\<not> (?q mod ?r = 0 \<and> (?q - 1) mod (?r - 1) = 0)" "\<not> (?r mod ?q = 0 \<and> (?r - 1) mod (?q - 1) = 0)"
    by metis
  then show ?thesis
  proof cases
    case 1
    then have "?f = ?g" by (rule field_size_inj [OF data f])
    then show ?thesis
      using 1 st f nz known represents_self [OF x] represents_self [OF y] by (simp add: common_field_def)
  next
    case 2
    have "represents D y ?f (if VAL_FFE D y \<noteq> 0 then u16 ((?q - 1) div (?r - 1) * (VAL_FFE D y - 1) + 1) else VAL_FFE D y)"
      using common_char [OF f 2(2)] exact_lift [OF 2(3)] by (intro represents_lift [OF y f(1)]) auto
    then show ?thesis
      using 2 st f nz known represents_self [OF x] by (simp add: common_field_def Let_def)
  next
    case 3
    have "represents D x ?g (if VAL_FFE D x \<noteq> 0 then u16 ((?r - 1) div (?q - 1) * (VAL_FFE D x - 1) + 1) else VAL_FFE D x)"
      using common_char [OF f(2,1) 3(3)] exact_lift [OF 3(4)] by (intro represents_lift [OF x f(2)]) auto
    moreover have "common_field D L x y st =
        Some ((?g, if VAL_FFE D x \<noteq> 0 then u16 ((?r - 1) div (?q - 1) * (VAL_FFE D x - 1) + 1) else VAL_FFE D x, VAL_FFE D y), st)"
      using 3 unfolding common_field_def Let_def by (simp only: if_False if_True simp_thms)
    ultimately show ?thesis
      using st f(2) nz(2) known(2) represents_self [OF y] by simp
  next
    case 4
    have lift: "represents D z h (if VAL_FFE D z \<noteq> 0
        then u16 (((SIZE_FF D h - 1) * (VAL_FFE D z - 1)) div (SIZE_FF D (FLD_FFE D z) - 1) + 1) else VAL_FFE D z)"
      if z: "is_ffe D st z" and h: "is_field D h" "CHAR_FF D h = CHAR_FF D (FLD_FFE D z)" "element_degree D z dvd DEGR_FF D h" for z h
    proof (rule represents_lift [OF z h(1,2)])
      assume v: "VAL_FFE D z \<noteq> 0"
      let ?p = "CHAR_FF D (FLD_FFE D z)"
      have "(SIZE_FF D (FLD_FFE D z) - 1) dvd (VAL_FFE D z - 1) * (?p ^ element_degree D z - 1)"
        using min_degree(2) [OF ffeD(3-5) [OF z], of "VAL_FFE D z"] v by (simp add: element_degree_def)
      moreover have "?p ^ element_degree D z - 1 dvd SIZE_FF D h - 1"
        using power_minus_1_dvd [OF h(3), of ?p] fieldD(3) [OF h(1)] h(2) by simp
      ultimately have "(SIZE_FF D (FLD_FFE D z) - 1) dvd (VAL_FFE D z - 1) * (SIZE_FF D h - 1)"
        by (meson dvd_trans mult_dvd_mono dvd_refl)
      then show "(SIZE_FF D h - 1) * (VAL_FFE D z - 1) div (SIZE_FF D (FLD_FFE D z) - 1) * (SIZE_FF D (FLD_FFE D z) - 1)
          = (VAL_FFE D z - 1) * (SIZE_FF D h - 1)"
        by (simp only: mult.commute [of "SIZE_FF D h - 1"] dvd_div_mult_self)
    qed
    obtain fX st' where C: "CommonFF D L ?f (element_degree D x) ?g (element_degree D y) st = Some (fX, st')"
      "tables_ok D L st'" "extends st st'"
      "if fX = 0
       then \<not> (\<exists>h. is_field D h \<and> CHAR_FF D h = CHAR_FF D ?f \<and> CHAR_FF D h = CHAR_FF D ?g
                 \<and> element_degree D x dvd DEGR_FF D h \<and> element_degree D y dvd DEGR_FF D h)
       else is_field D fX \<and> CHAR_FF D fX = CHAR_FF D ?f \<and> CHAR_FF D fX = CHAR_FF D ?g
         \<and> element_degree D x dvd DEGR_FF D fX \<and> element_degree D y dvd DEGR_FF D fX \<and> SUCC_FF st' fX \<noteq> None"
      using CommonFF_correct [OF st f element_degree [OF x] element_degree [OF y] known] by blast
    define vL where "vL = (if VAL_FFE D x \<noteq> 0 then u16 (((SIZE_FF D fX - 1) * (VAL_FFE D x - 1)) div (?q - 1) + 1) else VAL_FFE D x)"
    define vR where "vR = (if VAL_FFE D y \<noteq> 0 then u16 (((SIZE_FF D fX - 1) * (VAL_FFE D y - 1)) div (?r - 1) + 1) else VAL_FFE D y)"
    have "common_field D L x y st = do {
        dL \<leftarrow> DegreeFFE D x;
        dR \<leftarrow> DegreeFFE D y;
        (fX, st) \<leftarrow> CommonFF D L ?f dL ?g dR st;
        if fX = 0 then Some ((0, VAL_FFE D x, VAL_FFE D y), st)
        else Some ((fX, if VAL_FFE D x \<noteq> 0 then u16 (((SIZE_FF D fX - 1) * (VAL_FFE D x - 1)) div (?q - 1) + 1) else VAL_FFE D x,
                        if VAL_FFE D y \<noteq> 0 then u16 (((SIZE_FF D fX - 1) * (VAL_FFE D y - 1)) div (?r - 1) + 1) else VAL_FFE D y), st)}"
      using 4 unfolding common_field_def Let_def by (simp only: if_False simp_thms)
    then have "common_field D L x y st =
      (if fX = 0 then Some ((0, VAL_FFE D x, VAL_FFE D y), st') else Some ((fX, vL, vR), st'))"
      using C(1) DegreeFFE_correct [OF x] DegreeFFE_correct [OF y] by (simp add: vL_def vR_def)
    moreover have "\<not> (\<exists>h v w. is_field D h \<and> represents D x h v \<and> represents D y h w)" if "fX = 0"
    proof
      assume "\<exists>h v w. is_field D h \<and> represents D x h v \<and> represents D y h w"
      then obtain h v w where h: "is_field D h" "represents D x h v" "represents D y h w" by blast
      then have "CHAR_FF D h = CHAR_FF D ?f" "CHAR_FF D h = CHAR_FF D ?g" by (simp_all only: represents_def)
      then show False using C(4) that h(1) represents_degree [OF x h(1,2)] represents_degree [OF y h(1,3)] by metis
    qed
    moreover have "represents D x fX vL \<and> represents D y fX vR" if "fX \<noteq> 0"
      using lift [OF x, of fX] lift [OF y, of fX] C(4) that by (simp add: vL_def vR_def)
    ultimately show ?thesis using C(2-4) by (cases "fX = 0") auto
  qed
qed

end

end
