(* ===== verification/FinFieldArith.thy ===== *)
theory FinFieldArith
  imports FinFieldCommon
begin

text \<open>
  Arithmetic on elements: the operations on two elements are the field operations in a common field, those with an
  integer take its residue modulo the characteristic, and powers, logarithms and conversions to
  integers have their usual meaning.
\<close>

subsection \<open>Two elements\<close>

definition in_common_field :: "ffdata \<Rightarrow> UInt \<Rightarrow> UInt \<Rightarrow> bool" where
  "in_common_field D x y \<longleftrightarrow> (\<exists>g v w. is_field D g \<and> represents D x g v \<and> represents D y g w)"

text \<open>\<open>z\<close> stands in the relation \<open>R\<close> to \<open>x\<close> and \<open>y\<close>, all three taken in the field of \<open>z\<close>.\<close>

definition related :: "ffdata \<Rightarrow> (nat \<Rightarrow> nat \<Rightarrow> nat \<Rightarrow> nat \<Rightarrow> bool) \<Rightarrow> UInt \<Rightarrow> UInt \<Rightarrow> UInt \<Rightarrow> bool" where
  "related D R x y z \<longleftrightarrow>
     (\<exists>v w. represents D x (FLD_FFE D z) v \<and> represents D y (FLD_FFE D z) w
        \<and> R (FLD_FFE D z) (ff_elt D (FLD_FFE D z) v) (ff_elt D (FLD_FFE D z) w) (ff_elt D (FLD_FFE D z) (VAL_FFE D z)))"

text \<open>An integer as an element of the field of \<open>x\<close>, and an element as a residue.\<close>

definition residue :: "ffdata \<Rightarrow> UInt \<Rightarrow> UInt \<Rightarrow> nat" where
  "residue D x i = nat (INT_INTOBJ i mod int (CHAR_FF D (FLD_FFE D x)))"

definition ffe_elt :: "ffdata \<Rightarrow> UInt \<Rightarrow> nat" where
  "ffe_elt D x = ff_elt D (FLD_FFE D x) (VAL_FFE D x)"

text \<open>\<open>z\<close> is an element of the same field as \<open>x\<close> with residue \<open>c\<close>.\<close>

definition result_in :: "ffdata \<Rightarrow> ffstate \<Rightarrow> UInt \<Rightarrow> UInt \<Rightarrow> bool" where
  "result_in D st x z \<longleftrightarrow> is_ffe D st z \<and> FLD_FFE D z = FLD_FFE D x"

context finite_fields
begin

lemma table_of:
  assumes "tables_ok D L st" "is_field D ff" "SUCC_FF st ff \<noteq> None"
  obtains f where "SUCC_FF st ff = Some f" "zech_table D ff f"
  using assms tables_okD(2) by blast

text \<open>What the four operations share: the conversion, then an operation \<open>op\<close> on values of the common field.\<close>

lemma binary_correct:
  assumes st: "tables_ok D L st" and x: "is_ffe D st x" and y: "is_ffe D st y"
    and op: "\<And>g f v w. is_field D g \<Longrightarrow> zech_table D g f \<Longrightarrow> v < SIZE_FF D g \<Longrightarrow> w < SIZE_FF D g \<Longrightarrow>
        (nz \<longrightarrow> w \<noteq> 0) \<Longrightarrow> op v w f < SIZE_FF D g \<and> R g (ff_elt D g v) (ff_elt D g w) (ff_elt D g (op v w f))"
  shows "\<exists>fX vL vR st'. common_field D L x y st = Some ((fX, vL, vR), st') \<and> tables_ok D L st' \<and> extends st st'
    \<and> (fX = 0 \<longleftrightarrow> \<not> in_common_field D x y)
    \<and> (fX \<noteq> 0 \<longrightarrow> (vR = 0 \<longleftrightarrow> VAL_FFE D y = 0)
        \<and> (\<exists>f. SUCC_FF st' fX = Some f
            \<and> ((nz \<longrightarrow> VAL_FFE D y \<noteq> 0) \<longrightarrow> is_ffe D st' (NEW_FFE D fX (op vL vR f)) \<and> related D R x y (NEW_FFE D fX (op vL vR f)))))"
proof -
  obtain fX vL vR st' where C: "common_field D L x y st = Some ((fX, vL, vR), st')" "tables_ok D L st'" "extends st st'"
    "if fX = 0 then \<not> (\<exists>g v w. is_field D g \<and> represents D x g v \<and> represents D y g w)
     else is_field D fX \<and> SUCC_FF st' fX \<noteq> None \<and> represents D x fX vL \<and> represents D y fX vR"
    using common_field_correct [OF st x y] by blast
  show ?thesis
  proof (cases "fX = 0")
    case True
    then show ?thesis using C by (auto simp: in_common_field_def)
  next
    case False
    then have f: "is_field D fX" "represents D x fX vL" "represents D y fX vR" "SUCC_FF st' fX \<noteq> None" using C(4) by auto
    obtain f where t: "SUCC_FF st' fX = Some f" "zech_table D fX f" using table_of [OF C(2) f(1,4)] .
    have v: "vL < SIZE_FF D fX" "vR < SIZE_FF D fX" "vR = 0 \<longleftrightarrow> VAL_FFE D y = 0" using f(2,3) by (auto simp: represents_def)
    have "is_ffe D st' (NEW_FFE D fX (op vL vR f)) \<and> related D R x y (NEW_FFE D fX (op vL vR f))" if "nz \<longrightarrow> VAL_FFE D y \<noteq> 0"
      using op [OF f(1) t(2) v(1,2)] that v(3) is_ffe_NEW [OF f(1), of "op vL vR f" st'] NEW_FFE_fields [OF f(1), of "op vL vR f"] f(2,3,4)
      by (auto simp: related_def)
    then show ?thesis using C(1-3) False f t(1) v(3) by (auto simp: in_common_field_def)
  qed
qed

lemma ff_add_cancel:
  assumes g: "is_field D g" and ab: "a < SIZE_FF D g" "b < SIZE_FF D g" "n < SIZE_FF D g" and n: "ff_add D g n b = 0"
  shows "ff_add D g (ff_add D g a n) b = a"
  using cyclic_field.add_assoc [OF cyclic_ff [OF g], of a n b] cyclic_field.add_zero [OF cyclic_ff [OF g], of a] ab n by simp

lemma SumFFEFFE_correct:
  assumes st: "tables_ok D L st" and x: "is_ffe D st x" and y: "is_ffe D st y"
  shows "\<exists>r st'. SumFFEFFE D L x y st = Some (r, st') \<and> tables_ok D L st' \<and> extends st st'
    \<and> (if in_common_field D x y then \<exists>z. r = Inr z \<and> is_ffe D st' z \<and> related D (\<lambda>g a b c. c = ff_add D g a b) x y z
       else r = SUM_FFE_LARGE L x y)"
  using binary_correct [OF st x y, where nz = False and op = SUM_FFV and R = "\<lambda>g a b c. c = ff_add D g a b"] SUM_FFV_field
  by (auto simp: SumFFEFFE_def Let_def)

lemma DiffFFEFFE_correct:
  assumes st: "tables_ok D L st" and x: "is_ffe D st x" and y: "is_ffe D st y"
  shows "\<exists>r st'. DiffFFEFFE D L x y st = Some (r, st') \<and> tables_ok D L st' \<and> extends st st'
    \<and> (if in_common_field D x y then \<exists>z. r = Inr z \<and> is_ffe D st' z \<and> related D (\<lambda>g a b c. ff_add D g c b = a) x y z
       else r = DIFF_FFE_LARGE L x y)"
proof -
  have "SUM_FFV v (NEG_FFV w f) f < SIZE_FF D g \<and>
      ff_add D g (ff_elt D g (SUM_FFV v (NEG_FFV w f) f)) (ff_elt D g w) = ff_elt D g v"
    if "is_field D g" "zech_table D g f" "v < SIZE_FF D g" "w < SIZE_FF D g" for g f v w
    using that NEG_FFV_field [OF that(1,2,4)] SUM_FFV_field [OF that(1,2,3), of "NEG_FFV w f"] ff_elt_less [OF that(1)]
    by (simp add: ff_add_cancel)
  then show ?thesis
    using binary_correct [OF st x y, where nz = False and op = "\<lambda>v w f. SUM_FFV v (NEG_FFV w f) f"
        and R = "\<lambda>g a b c. ff_add D g c b = a"]
    by (auto simp: DiffFFEFFE_def Let_def)
qed

lemma ProdFFEFFE_correct:
  assumes st: "tables_ok D L st" and x: "is_ffe D st x" and y: "is_ffe D st y"
  shows "\<exists>r st'. ProdFFEFFE D L x y st = Some (r, st') \<and> tables_ok D L st' \<and> extends st st'
    \<and> (if in_common_field D x y then \<exists>z. r = Inr z \<and> is_ffe D st' z \<and> related D (\<lambda>g a b c. c = ff_mul D g a b) x y z
       else r = PROD_FFE_LARGE L x y)"
  using binary_correct [OF st x y, where nz = False and op = PROD_FFV and R = "\<lambda>g a b c. c = ff_mul D g a b"] PROD_FFV_field
  by (auto simp: ProdFFEFFE_def Let_def)

lemma QuoFFEFFE_correct:
  assumes st: "tables_ok D L st" and x: "is_ffe D st x" and y: "is_ffe D st y"
  shows "\<exists>r st'. QuoFFEFFE D L x y st = Some (r, st') \<and> tables_ok D L st' \<and> extends st st'
    \<and> (if \<not> in_common_field D x y then r = QUO_FFE_LARGE L x y
       else if VAL_FFE D y = 0 then r = Inl zero_divisor
       else \<exists>z. r = Inr z \<and> is_ffe D st' z \<and> related D (\<lambda>g a b c. ff_mul D g b c = a) x y z)"
  using binary_correct [OF st x y, where nz = True and op = QUO_FFV and R = "\<lambda>g a b c. ff_mul D g b c = a"] QUO_FFV_field
  by (fastforce simp: QuoFFEFFE_def Let_def)

subsection \<open>An element and an integer\<close>

lemma smod_twice: "0 < p \<Longrightarrow> (i smod p + p) smod p = i mod p" for i p :: int
proof -
  assume p: "0 < p"
  have "\<bar>i smod p\<bar> < p" using p by (simp add: smod_int_alt_def abs_mult abs_sgn_eq)
  then have "0 \<le> i smod p + p" by linarith
  then have "(i smod p + p) smod p = (i smod p) mod p" using p by (simp add: smod_mod_positive)
  also have "\<dots> = i mod p"
  proof -
    have "i smod p = i + (- (i sdiv p)) * p" using minus_sdiv_mult_eq_smod [of i p] by simp
    then show ?thesis by (simp only: mod_mult_self1)
  qed
  finally show ?thesis .
qed

lemma count_up_correct:
  assumes ff: "is_field D ff" and f: "zech_table D ff f"
  shows "0 < m \<Longrightarrow> k + m \<le> CHAR_FF D ff \<Longrightarrow> 0 < v \<Longrightarrow> v < SIZE_FF D ff \<Longrightarrow> ff_elt D ff v = k \<Longrightarrow>
    \<exists>w<SIZE_FF D ff. count_up f v m = Some w \<and> ff_elt D ff w = k + m - 1"
proof (induction m arbitrary: v k)
  case (Suc m)
  show ?case
  proof (cases "m = 0")
    case True
    then show ?thesis using Suc.prems by (subst count_up.simps) simp
  next
    case False
    let ?p = "CHAR_FF D ff"
    have p: "residues ?p (DEGR_FF D ff)" by (rule residues_field [OF ff])
    have n: "f ! v < SIZE_FF D ff" "ff_elt D ff (f ! v) = ff_add D ff (ff_elt D ff v) 1"
      using f Suc.prems by (auto simp: zech_table_def)
    have k: "k < ?p" "k + 1 < ?p" using Suc.prems False by simp_all
    have "k < SIZE_FF D ff" using Suc.prems(4,5) ff_elt_less [OF ff] by metis
    then have "ff_add D ff k 1 = k + 1"
      using residues.gf_add_one [OF p, of k, folded fieldD(3) [OF ff]] k by (simp add: ff_add_def)
    then have e: "ff_elt D ff (f ! v) = k + 1" using n(2) Suc.prems(5) by simp
    then have "0 < f ! v" by (cases "f ! v") auto
    then have "\<exists>w<SIZE_FF D ff. count_up f (f ! v) m = Some w \<and> ff_elt D ff w = k + 1 + m - 1"
      using Suc.prems False n(1) e by (intro Suc.IH) simp_all
    moreover have "v < length f" using f Suc.prems(4) by (simp add: zech_table_def)
    ultimately show ?thesis using False by (subst count_up.simps) (auto simp: rd_def)
  qed
qed simp

lemma int_ffv_correct:
  assumes x: "is_ffe D st x" and f: "zech_table D (FLD_FFE D x) f"
  shows "\<exists>w<SIZE_FF D (FLD_FFE D x). int_ffv (CHAR_FF D (FLD_FFE D x)) f i = Some w \<and> ff_elt D (FLD_FFE D x) w = residue D x i"
proof -
  let ?p = "CHAR_FF D (FLD_FFE D x)"
  have p: "2 \<le> ?p" "is_field D (FLD_FFE D x)" using ffeD(1,3) [OF x] by blast+
  have r: "nat (((INT_INTOBJ i smod int ?p) + int ?p) smod int ?p) = residue D x i"
    using p by (simp add: smod_twice residue_def)
  have q: "1 < SIZE_FF D (FLD_FFE D x)" using fieldD(6) [OF p(2)] by simp
  have "residue D x i < ?p" using p(1) by (simp add: residue_def nat_less_iff)
  then show ?thesis
    using count_up_correct [OF p(2) f, of "residue D x i" 1 1] q
    by (cases "residue D x i = 0") (simp_all add: int_ffv_def r Let_def)
qed

text \<open>What the mixed operations share, for an operation \<open>op\<close> on the two values.\<close>

lemma mixed_correct:
  assumes st: "tables_ok D L st" and x: "is_ffe D st x"
    and op: "\<And>f w. zech_table D (FLD_FFE D x) f \<Longrightarrow> w < SIZE_FF D (FLD_FFE D x) \<Longrightarrow> (nz \<longrightarrow> w \<noteq> 0) \<Longrightarrow>
        op (VAL_FFE D x) w f < SIZE_FF D (FLD_FFE D x)
        \<and> R (ffe_elt D x) (ff_elt D (FLD_FFE D x) w) (ff_elt D (FLD_FFE D x) (op (VAL_FFE D x) w f))"
  shows "\<exists>f w. SUCC_FF st (FLD_FFE D x) = Some f \<and> int_ffv (CHAR_FF D (FLD_FFE D x)) f i = Some w
    \<and> (w = 0 \<longleftrightarrow> residue D x i = 0)
    \<and> ((nz \<longrightarrow> residue D x i \<noteq> 0) \<longrightarrow>
         result_in D st x (NEW_FFE D (FLD_FFE D x) (op (VAL_FFE D x) w f))
         \<and> R (ffe_elt D x) (residue D x i) (ffe_elt D (NEW_FFE D (FLD_FFE D x) (op (VAL_FFE D x) w f))))"
proof -
  let ?g = "FLD_FFE D x"
  have g: "is_field D ?g" "SUCC_FF st ?g \<noteq> None" using x by (auto simp: is_ffe_def)
  obtain f where f: "SUCC_FF st ?g = Some f" "zech_table D ?g f" using table_of [OF st g] .
  obtain w where w: "w < SIZE_FF D ?g" "int_ffv (CHAR_FF D ?g) f i = Some w" "ff_elt D ?g w = residue D x i"
    using int_ffv_correct [OF x f(2)] by blast
  have "0 < SIZE_FF D ?g" using fieldD(6) [OF g(1)] by simp
  then have wz: "w = 0 \<longleftrightarrow> residue D x i = 0" using ff_elt_inj [OF g(1) w(1), of 0] w(3) by simp
  have "result_in D st x (NEW_FFE D ?g (op (VAL_FFE D x) w f))
      \<and> R (ffe_elt D x) (residue D x i) (ffe_elt D (NEW_FFE D ?g (op (VAL_FFE D x) w f)))" if "nz \<longrightarrow> residue D x i \<noteq> 0"
    using op [OF f(2) w(1)] that wz w(3) is_ffe_NEW [OF g(1) _ g(2)] NEW_FFE_fields [OF g(1)]
    by (simp add: result_in_def ffe_elt_def)
  then show ?thesis by (intro exI [of _ f] exI [of _ w] conjI impI f(1) w(2) wz) simp_all
qed

lemma mixed_sum:
  assumes st: "tables_ok D L st" and x: "is_ffe D st x"
  shows "\<exists>z. SumFFEInt D st x i = Some (Inr z) \<and> result_in D st x z
      \<and> ffe_elt D z = ff_add D (FLD_FFE D x) (ffe_elt D x) (residue D x i)"
    "\<exists>z. SumIntFFE D st i x = Some (Inr z) \<and> result_in D st x z
      \<and> ffe_elt D z = ff_add D (FLD_FFE D x) (residue D x i) (ffe_elt D x)"
  using mixed_correct [OF st x, where nz = False and op = SUM_FFV and i = i and
      R = "\<lambda>a b c. c = ff_add D (FLD_FFE D x) a b"]
    mixed_correct [OF st x, where nz = False and op = "\<lambda>v w. SUM_FFV w v" and i = i and
      R = "\<lambda>a b c. c = ff_add D (FLD_FFE D x) b a"]
    SUM_FFV_field [OF ffeD(1) [OF x]] ffeD(2) [OF x]
  by (auto simp: SumFFEInt_def SumIntFFE_def Let_def ffe_elt_def)

lemma mixed_diff:
  assumes st: "tables_ok D L st" and x: "is_ffe D st x"
  shows "\<exists>z. DiffFFEInt D st x i = Some (Inr z) \<and> result_in D st x z
      \<and> ff_add D (FLD_FFE D x) (ffe_elt D z) (residue D x i) = ffe_elt D x"
    "\<exists>z. DiffIntFFE D st i x = Some (Inr z) \<and> result_in D st x z
      \<and> ff_add D (FLD_FFE D x) (ffe_elt D z) (ffe_elt D x) = residue D x i"
proof -
  have *: "SUM_FFV v (NEG_FFV w f) f < SIZE_FF D g \<and>
      ff_add D g (ff_elt D g (SUM_FFV v (NEG_FFV w f) f)) (ff_elt D g w) = ff_elt D g v"
    if "is_field D g" "zech_table D g f" "v < SIZE_FF D g" "w < SIZE_FF D g" for g f v w
    using that NEG_FFV_field [OF that(1,2,4)] SUM_FFV_field [OF that(1,2,3), of "NEG_FFV w f"] ff_elt_less [OF that(1)]
    by (simp add: ff_add_cancel)
  show "\<exists>z. DiffFFEInt D st x i = Some (Inr z) \<and> result_in D st x z
      \<and> ff_add D (FLD_FFE D x) (ffe_elt D z) (residue D x i) = ffe_elt D x"
    using mixed_correct [OF st x, where nz = False and op = "\<lambda>v w f. SUM_FFV v (NEG_FFV w f) f" and i = i and
        R = "\<lambda>a b c. ff_add D (FLD_FFE D x) c b = a"] * [OF ffeD(1) [OF x]] ffeD(2) [OF x]
    by (auto simp: DiffFFEInt_def Let_def ffe_elt_def)
  show "\<exists>z. DiffIntFFE D st i x = Some (Inr z) \<and> result_in D st x z
      \<and> ff_add D (FLD_FFE D x) (ffe_elt D z) (ffe_elt D x) = residue D x i"
    using mixed_correct [OF st x, where nz = False and op = "\<lambda>v w f. SUM_FFV w (NEG_FFV v f) f" and i = i and
        R = "\<lambda>a b c. ff_add D (FLD_FFE D x) c a = b"] * [OF ffeD(1) [OF x]] ffeD(2) [OF x]
    by (auto simp: DiffIntFFE_def Let_def ffe_elt_def)
qed

lemma mixed_prod:
  assumes st: "tables_ok D L st" and x: "is_ffe D st x"
  shows "\<exists>z. ProdFFEInt D st x i = Some (Inr z) \<and> result_in D st x z
      \<and> ffe_elt D z = ff_mul D (FLD_FFE D x) (ffe_elt D x) (residue D x i)"
    "\<exists>z. ProdIntFFE D st i x = Some (Inr z) \<and> result_in D st x z
      \<and> ffe_elt D z = ff_mul D (FLD_FFE D x) (residue D x i) (ffe_elt D x)"
  using mixed_correct [OF st x, where nz = False and op = PROD_FFV and i = i and
      R = "\<lambda>a b c. c = ff_mul D (FLD_FFE D x) a b"]
    mixed_correct [OF st x, where nz = False and op = "\<lambda>v w. PROD_FFV w v" and i = i and
      R = "\<lambda>a b c. c = ff_mul D (FLD_FFE D x) b a"]
    PROD_FFV_field [OF ffeD(1) [OF x]] ffeD(2) [OF x]
  by (auto simp: ProdFFEInt_def ProdIntFFE_def Let_def ffe_elt_def)

lemma mixed_quo:
  assumes st: "tables_ok D L st" and x: "is_ffe D st x"
  shows "if residue D x i = 0 then QuoFFEInt D st x i = Some (Inl zero_divisor)
      else \<exists>z. QuoFFEInt D st x i = Some (Inr z) \<and> result_in D st x z
        \<and> ff_mul D (FLD_FFE D x) (residue D x i) (ffe_elt D z) = ffe_elt D x"
    "if VAL_FFE D x = 0 then QuoIntFFE D st i x = Some (Inl zero_divisor)
      else \<exists>z. QuoIntFFE D st i x = Some (Inr z) \<and> result_in D st x z
        \<and> ff_mul D (FLD_FFE D x) (ffe_elt D x) (ffe_elt D z) = residue D x i"
proof -
  show "if residue D x i = 0 then QuoFFEInt D st x i = Some (Inl zero_divisor)
      else \<exists>z. QuoFFEInt D st x i = Some (Inr z) \<and> result_in D st x z
        \<and> ff_mul D (FLD_FFE D x) (residue D x i) (ffe_elt D z) = ffe_elt D x"
    using mixed_correct [OF st x, where nz = True and op = QUO_FFV and i = i and
        R = "\<lambda>a b c. ff_mul D (FLD_FFE D x) b c = a"] QUO_FFV_field [OF ffeD(1) [OF x]] ffeD(2) [OF x]
    by (auto simp: QuoFFEInt_def Let_def ffe_elt_def)
  show "if VAL_FFE D x = 0 then QuoIntFFE D st i x = Some (Inl zero_divisor)
      else \<exists>z. QuoIntFFE D st i x = Some (Inr z) \<and> result_in D st x z
        \<and> ff_mul D (FLD_FFE D x) (ffe_elt D x) (ffe_elt D z) = residue D x i"
  proof (cases "VAL_FFE D x = 0")
    case True
    have g: "is_field D (FLD_FFE D x)" "SUCC_FF st (FLD_FFE D x) \<noteq> None" using x by (auto simp: is_ffe_def)
    obtain f where f: "SUCC_FF st (FLD_FFE D x) = Some f" "zech_table D (FLD_FFE D x) f" using table_of [OF st g] .
    then show ?thesis using True int_ffv_correct [OF x f(2), of i] by (auto simp: QuoIntFFE_def Let_def)
  next
    case False
    then show ?thesis
      using mixed_correct [OF st x, where nz = False and op = "\<lambda>v w. QUO_FFV w v" and i = i and
          R = "\<lambda>a b c. ff_mul D (FLD_FFE D x) a c = b"] QUO_FFV_field [OF ffeD(1) [OF x]] ffeD(2) [OF x]
      by (auto simp: QuoIntFFE_def Let_def ffe_elt_def)
  qed
qed

end

end
