(* ===== verification/FinFieldPower.thy ===== *)
theory FinFieldPower
  imports FinFieldArith
begin

text \<open>
  The operations on one element, powers and logarithms.
\<close>

context finite_fields
begin

subsection \<open>One element\<close>

lemma one_in: "is_field D g \<Longrightarrow> Suc 0 < SIZE_FF D g"
  using fieldD(6) by fastforce

lemma ffe_table:
  assumes "tables_ok D L st" "is_ffe D st x"
  obtains f where "is_field D (FLD_FFE D x)" "VAL_FFE D x < SIZE_FF D (FLD_FFE D x)" "SUCC_FF st (FLD_FFE D x) = Some f"
    "zech_table D (FLD_FFE D x) f"
proof -
  have g: "is_field D (FLD_FFE D x)" "SUCC_FF st (FLD_FFE D x) \<noteq> None" "VAL_FFE D x < SIZE_FF D (FLD_FFE D x)"
    using assms(2) by (auto simp: is_ffe_def)
  obtain f where "SUCC_FF st (FLD_FFE D x) = Some f" "zech_table D (FLD_FFE D x) f" using table_of [OF assms(1) g(1,2)] .
  then show ?thesis using g that by blast
qed

lemma result_NEW:
  assumes x: "is_ffe D st x" and v: "v < SIZE_FF D (FLD_FFE D x)"
  shows "result_in D st x (NEW_FFE D (FLD_FFE D x) v)" "ffe_elt D (NEW_FFE D (FLD_FFE D x) v) = ff_elt D (FLD_FFE D x) v"
    "VAL_FFE D (NEW_FFE D (FLD_FFE D x) v) = v"
proof -
  have g: "is_field D (FLD_FFE D x)" "SUCC_FF st (FLD_FFE D x) \<noteq> None" using x by (auto simp: is_ffe_def)
  show "result_in D st x (NEW_FFE D (FLD_FFE D x) v)" "ffe_elt D (NEW_FFE D (FLD_FFE D x) v) = ff_elt D (FLD_FFE D x) v"
    "VAL_FFE D (NEW_FFE D (FLD_FFE D x) v) = v"
    using is_ffe_NEW [OF g(1) v g(2)] NEW_FFE_fields [OF g(1) v] by (simp_all add: result_in_def ffe_elt_def)
qed

lemma ZeroFFE_correct: "is_ffe D st x \<Longrightarrow> result_in D st x (ZeroFFE D x) \<and> ffe_elt D (ZeroFFE D x) = 0"
  using result_NEW [of st x 0] one_in [of "FLD_FFE D x"] ffeD(1) [of st x] by (simp add: ZeroFFE_def)

lemma OneFFE_correct: "is_ffe D st x \<Longrightarrow> result_in D st x (OneFFE D x) \<and> ffe_elt D (OneFFE D x) = 1"
  using result_NEW [of st x 1] one_in [of "FLD_FFE D x"] ffeD(1) [of st x] by (simp add: OneFFE_def)

lemma AInvFFE_correct:
  assumes st: "tables_ok D L st" and x: "is_ffe D st x"
  shows "\<exists>z. AInvFFE D st x = Some z \<and> result_in D st x z \<and> ff_add D (FLD_FFE D x) (ffe_elt D z) (ffe_elt D x) = 0"
proof -
  obtain f where f: "is_field D (FLD_FFE D x)" "VAL_FFE D x < SIZE_FF D (FLD_FFE D x)" "SUCC_FF st (FLD_FFE D x) = Some f"
    "zech_table D (FLD_FFE D x) f" using ffe_table [OF st x] .
  show ?thesis
    using NEG_FFV_field [OF f(1,4,2)] result_NEW [OF x, of "NEG_FFV (VAL_FFE D x) f"] f(3)
    by (simp add: AInvFFE_def Let_def) (simp add: ffe_elt_def)
qed

lemma InvFFE_correct:
  assumes st: "tables_ok D L st" and x: "is_ffe D st x"
  shows "if ffe_elt D x = 0 then InvFFE D st x = Some None
    else \<exists>z. InvFFE D st x = Some (Some z) \<and> result_in D st x z \<and> ff_mul D (FLD_FFE D x) (ffe_elt D x) (ffe_elt D z) = 1"
proof -
  obtain f where f: "is_field D (FLD_FFE D x)" "VAL_FFE D x < SIZE_FF D (FLD_FFE D x)" "SUCC_FF st (FLD_FFE D x) = Some f"
    "zech_table D (FLD_FFE D x) f" using ffe_table [OF st x] .
  have z: "ffe_elt D x = 0 \<longleftrightarrow> VAL_FFE D x = 0"
    using ff_elt_inj [OF f(1,2), of 0] f(2) by (simp add: ffe_elt_def)
  show ?thesis
  proof (cases "VAL_FFE D x = 0")
    case True
    then show ?thesis using z f(3) by (simp add: InvFFE_def Let_def)
  next
    case False
    then have v: "0 < VAL_FFE D x" by simp
    note q = QUO_FFV_field [OF f(1,4) one_in [OF f(1)] v f(2)]
    show ?thesis
      using z False f(3) q(2) result_NEW [OF x q(1)]
      by (simp add: InvFFE_def Let_def) (simp add: ffe_elt_def)
  qed
qed

subsection \<open>Powers\<close>

lemma power_zero: "is_field D g \<Longrightarrow> 0 < n \<Longrightarrow> ff_power D g 0 n = 0"
proof -
  assume "0 < n"
  then obtain k where "n = Suc k" by (cases n) auto
  moreover assume "is_field D g"
  then have "ff_mul D g 0 y = 0" for y using residues.gf_mul_0 [OF residues_field] by (simp add: ff_mul_def)
  ultimately show ?thesis by (simp add: ff_power_def)
qed

lemma ff_power_eq_iff:
  assumes g: "is_field D g" and v: "0 < v" and w: "0 < w"
  shows "ff_power D g (ff_elt D g v) m = ff_power D g (ff_elt D g w) n
    \<longleftrightarrow> ((v - 1) * m) mod (SIZE_FF D g - 1) = ((w - 1) * n) mod (SIZE_FF D g - 1)"
  using cyclic_field.T_pow_eq_iff [OF cyclic_ff [OF g]] by (simp add: ff_power_elt [OF g v] ff_power_elt [OF g w])

lemma ff_power_1: "is_field D g \<Longrightarrow> 0 < v \<Longrightarrow> ff_power D g (ff_elt D g v) 1 = ff_elt D g v"
  using ff_power_elt [of g v 1] by (simp add: ff_elt_def)

lemma ff_mul_elt:
  assumes g: "is_field D g" and v: "0 < v" and w: "0 < w"
  shows "ff_mul D g (ff_power D g (ff_elt D g v) m) (ff_power D g (ff_elt D g w) n)
    = (gf_x (CHAR_FF D g) (DEGR_FF D g) (conway D g) ^^ ((v - 1) * m + (w - 1) * n)) 1"
proof -
  let ?T = "gf_x (CHAR_FF D g) (DEGR_FF D g) (conway D g)"
  have lt: "(?T ^^ k) 1 < CHAR_FF D g ^ DEGR_FF D g" for k
    using ff_elt_less [OF g, of "Suc k"] by (simp add: ff_elt_def fieldD(3) [OF g])
  show ?thesis
    using residues.gf_mul_pow [OF residues_field [OF g] lt]
    by (simp add: ff_power_elt [OF g v] ff_power_elt [OF g w] ff_mul_def funpow_add)
qed

lemma power_of_inverse:
  assumes g: "is_field D g" and v: "0 < v" and w: "0 < w" and inv: "ff_mul D g (ff_elt D g v) (ff_elt D g w) = 1"
  shows "ff_mul D g (ff_power D g (ff_elt D g v) n) (ff_power D g (ff_elt D g w) n) = 1"
proof -
  let ?T = "gf_x (CHAR_FF D g) (DEGR_FF D g) (conway D g)"
  note eq = cyclic_field.T_pow_eq_iff [OF cyclic_ff [OF g]]
  have "(?T ^^ (v - 1 + (w - 1))) 1 = (?T ^^ 0) 1"
    using inv ff_mul_elt [OF g v w, of 1 1] by (simp only: ff_power_1 [OF g v] ff_power_1 [OF g w] mult_1_right funpow_0)
  then have "(v - 1 + (w - 1)) mod (SIZE_FF D g - 1) = 0" using eq [of "v - 1 + (w - 1)" 0] by simp
  then have "SIZE_FF D g - 1 dvd (v - 1) * n + (w - 1) * n"
    by (metis dvd_eq_mod_eq_0 dvd_mult2 distrib_right)
  then have "(?T ^^ ((v - 1) * n + (w - 1) * n)) 1 = (?T ^^ 0) 1"
    using eq [of "(v - 1) * n + (w - 1) * n" 0] by (simp add: dvd_eq_mod_eq_0)
  then show ?thesis by (simp add: ff_mul_elt [OF g v w])
qed

lemma smod_nonneg: "0 \<le> n \<Longrightarrow> 0 < q \<Longrightarrow> n smod int q = n mod int q"
  by (simp add: smod_mod_positive)

lemma POW_reduced:
  assumes g: "is_field D g" and f: "zech_table D g f" and v: "0 < v" "v < SIZE_FF D g" and n: "0 \<le> n"
  shows "\<exists>q1. rd f 0 = Some q1 \<and> POW_FFV v (nat (n smod int q1)) f < SIZE_FF D g
    \<and> ff_elt D g (POW_FFV v (nat (n smod int q1)) f) = ff_power D g (ff_elt D g v) (nat n)"
proof -
  let ?q = "SIZE_FF D g - 1"
  have q: "0 < ?q" "rd f 0 = Some ?q" using f fieldD(6) [OF g] by (auto simp: zech_table_def rd_def)
  have m: "nat (n smod int ?q) = nat n mod ?q" using smod_nonneg [OF n q(1)] n by (simp only: nat_mod_distrib of_nat_0_le_iff nat_int)
  have "ff_power D g (ff_elt D g v) (nat n mod ?q) = ff_power D g (ff_elt D g v) (nat n)"
    by (simp add: ff_power_eq_iff [OF g v(1) v(1)] mod_mult_right_eq)
  then show ?thesis using POW_FFV_field [OF g f v(2,1), of "nat n mod ?q"] q(2) m by simp
qed

lemma PowFFEInt_correct:
  assumes st: "tables_ok D L st" and x: "is_ffe D st x"
  shows "if INT_INTOBJ n < 0 \<and> ffe_elt D x = 0 then PowFFEInt D st x n = Some (Inl zero_divisor)
    else \<exists>z. PowFFEInt D st x n = Some (Inr z) \<and> result_in D st x z
      \<and> (if 0 \<le> INT_INTOBJ n then ffe_elt D z = ff_power D (FLD_FFE D x) (ffe_elt D x) (nat (INT_INTOBJ n))
         else ff_mul D (FLD_FFE D x) (ff_power D (FLD_FFE D x) (ffe_elt D x) (nat (- INT_INTOBJ n))) (ffe_elt D z) = 1)"
proof -
  let ?g = "FLD_FFE D x" and ?n = "INT_INTOBJ n" and ?v = "VAL_FFE D x"
  obtain f where f: "is_field D ?g" "?v < SIZE_FF D ?g" "SUCC_FF st ?g = Some f" "zech_table D ?g f" using ffe_table [OF st x] .
  have z: "ffe_elt D x = 0 \<longleftrightarrow> ?v = 0" "ffe_elt D x = ff_elt D ?g ?v"
    using ff_elt_inj [OF f(1,2), of 0] f(2) by (simp_all add: ffe_elt_def)
  consider "?n < 0" "?v = 0" | "?n = 0" "?v = 0" | "0 < ?n" "?v = 0" | "0 \<le> ?n" "?v \<noteq> 0" | "?n < 0" "?v \<noteq> 0" by linarith
  then show ?thesis
  proof cases
    case 1
    then show ?thesis using f(3) z by (simp add: PowFFEInt_def Let_def)
  next
    case 2
    have "ff_power D ?g y 0 = Suc 0" for y by (simp add: ff_power_def)
    then show ?thesis using 2 f(3) z result_NEW [OF x one_in [OF f(1)]] by (simp add: PowFFEInt_def Let_def)
  next
    case 3
    have "0 < SIZE_FF D ?g" using one_in [OF f(1)] by simp
    then show ?thesis using 3 f(3) z result_NEW [OF x, of 0] power_zero [OF f(1)] by (simp add: PowFFEInt_def Let_def)
  next
    case 4
    then have v: "0 < ?v" by simp
    obtain q1 where q1: "rd f 0 = Some q1" "POW_FFV ?v (nat (?n smod int q1)) f < SIZE_FF D ?g"
      "ff_elt D ?g (POW_FFV ?v (nat (?n smod int q1)) f) = ff_power D ?g (ff_elt D ?g ?v) (nat ?n)"
      using POW_reduced [OF f(1,4) v f(2) 4(1)] by blast
    show ?thesis using 4 f(3) z q1(1,3) result_NEW [OF x q1(2)] by (simp add: PowFFEInt_def Let_def)
  next
    case 5
    then have v: "0 < ?v" by simp
    let ?w = "QUO_FFV 1 ?v f"
    have w: "?w < SIZE_FF D ?g" "ff_mul D ?g (ff_elt D ?g ?v) (ff_elt D ?g ?w) = 1"
      using QUO_FFV_field [OF f(1,4) one_in [OF f(1)] v f(2)] by simp_all
    have w0: "0 < ?w" using v f(2,4) by (auto simp: QUO_FFV_def zech_table_def)
    obtain q1 where q1: "rd f 0 = Some q1" "POW_FFV ?w (nat (- ?n smod int q1)) f < SIZE_FF D ?g"
      "ff_elt D ?g (POW_FFV ?w (nat (- ?n smod int q1)) f) = ff_power D ?g (ff_elt D ?g ?w) (nat (- ?n))"
      using POW_reduced [OF f(1,4) w0 w(1), of "- ?n"] 5 by auto
    show ?thesis
      using 5 f(3) z q1(1,3) result_NEW [OF x q1(2)] w0 power_of_inverse [OF f(1) v w0 w(2), of "nat (- ?n)"]
      by (simp add: PowFFEInt_def Let_def)
  qed
qed

end

end
