(* ===== verification/FinFieldLog.thy ===== *)
theory FinFieldLog
  imports FinFieldPower
begin

text \<open>
  Discrete logarithms: the extended Euclidean loop of \<open>FuncLOG_FFE_DEFAULT\<close> and the logarithm it yields.
\<close>

subsection \<open>The two loops\<close>

lemma log_gcd_correct:
  "log_gcd a b c d = (a', c') \<Longrightarrow> 0 \<le> c \<Longrightarrow> 0 \<le> d \<Longrightarrow> m dvd a * r - c \<Longrightarrow> m dvd b * r - d \<Longrightarrow>
    c' = gcd c d \<and> m dvd a' * r - c'"
proof (induction a b c d rule: log_gcd.induct)
  case (1 a b c d)
  show ?case
  proof (cases "d = 0")
    case True
    then show ?thesis using 1 by (subst (asm) (2) log_gcd.simps) simp
  next
    case False
    then have d: "0 < d" using 1 by simp
    have t: "c sdiv d = c div d" using "1.prems"(2) d by (cases "c = 0") (simp_all add: signed_divide_int_def)
    have r: "c - c div d * d = c mod d" by (simp add: minus_div_mult_eq_mod)
    have "log_gcd b (a - (c div d) * b) d (c mod d) = (a', c')"
      using "1.prems"(1) False by (subst (asm) log_gcd.simps) (simp add: t r)
    moreover have "m dvd (a - (c div d) * b) * r - c mod d"
    proof -
      have "(a - (c div d) * b) * r - c mod d = (a * r - c) - (c div d) * (b * r - d)"
        by (simp add: minus_div_mult_eq_mod [symmetric] algebra_simps)
      then show ?thesis using "1.prems"(4,5) by simp
    qed
    ultimately have "c' = gcd d (c mod d) \<and> m dvd a' * r - c'"
      by (intro "1.IH" [OF False, unfolded t r]) (use "1.prems" d in simp_all)
    then show ?thesis using gcd_red_int [of c d] by argo
  qed
qed

text \<open>The cofactors stay below the order: \<open>a\<close> and \<open>b\<close> have opposite signs, and \<open>\<bar>a\<bar> d + \<bar>b\<bar> c\<close> is constant.\<close>

lemma log_gcd_bound:
  "log_gcd a b c d = (a', c') \<Longrightarrow> 0 \<le> c \<Longrightarrow> 0 \<le> d \<Longrightarrow> a * b \<le> 0 \<Longrightarrow> \<bar>a\<bar> * d + \<bar>b\<bar> * c = m \<Longrightarrow> \<bar>a\<bar> \<le> m \<Longrightarrow>
    (c = 0 \<longrightarrow> b = 0) \<Longrightarrow> \<bar>a'\<bar> \<le> m"
proof (induction a b c d rule: log_gcd.induct)
  case (1 a b c d)
  show ?case
  proof (cases "d = 0")
    case True
    then show ?thesis using 1 by (subst (asm) (2) log_gcd.simps) simp
  next
    case False
    then have d: "0 < d" using 1 by simp
    define q where "q = c div d"
    have q: "0 \<le> q" using "1.prems"(2) d by (simp add: q_def pos_imp_zdiv_nonneg_iff)
    have t: "c sdiv d = q" using "1.prems"(2) d by (cases "c = 0") (simp_all add: signed_divide_int_def q_def)
    have cd: "c - q * d = c mod d" by (simp add: q_def minus_div_mult_eq_mod)
    have step: "log_gcd b (a - q * b) d (c mod d) = (a', c')"
      using "1.prems"(1) False by (subst (asm) log_gcd.simps) (simp add: t cd)
    have "0 \<le> q * (b * b)" using q by simp
    then have sgn: "b * (a - q * b) \<le> 0" using "1.prems"(4) by (simp add: algebra_simps)
    have "\<bar>a - q * b\<bar> = \<bar>a\<bar> + q * \<bar>b\<bar>"
    proof -
      consider "b = 0" | "0 < b" "a \<le> 0" | "b < 0" "0 \<le> a"
        using "1.prems"(4) unfolding mult_le_0_iff by fastforce
      then show ?thesis
      proof cases
        case 2
        then have "0 \<le> q * b" using q by simp
        then show ?thesis using 2 by simp
      next
        case 3
        then have "q * b \<le> 0" using q by (simp add: mult_nonneg_nonpos)
        then show ?thesis using 3 by simp
      qed simp
    qed
    then have "\<bar>b\<bar> * (c mod d) + \<bar>a - q * b\<bar> * d = m"
      using "1.prems"(5) cd by (simp add: algebra_simps flip: cd)
    moreover have "\<bar>b\<bar> \<le> m"
    proof (cases "c = 0")
      case True
      then show ?thesis using "1.prems"(6,7) by simp
    next
      case False
      then have "\<bar>b\<bar> * 1 \<le> \<bar>b\<bar> * c" using "1.prems"(2) by (intro mult_left_mono) simp_all
      moreover have "0 \<le> \<bar>a\<bar> * d" using d by simp
      ultimately show ?thesis using "1.prems"(5) by simp
    qed
    ultimately show ?thesis
      using "1.IH" [OF False, unfolded t, unfolded cd] step sgn d by (simp add: add.commute)
  qed
qed

lemma make_nonneg_correct:
  "- (2 ^ 32) \<le> a \<Longrightarrow> a \<le> 2 ^ 32 \<Longrightarrow> 0 < s \<Longrightarrow> s \<le> 2 ^ 32 \<Longrightarrow>
   \<exists>k. make_nonneg (word_of_int a) (word_of_int s) = Some (word_of_int (a + k * s)) \<and> 0 \<le> a + k * s \<and> a + k * s \<le> 2 ^ 32"
proof (induction "nat (- a)" arbitrary: a rule: less_induct)
  case less
  have si: "sint (word_of_int a :: UInt) = a" using less.prems by (intro sint_word_of_int_UInt) simp_all
  show ?case
  proof (cases "a < 0")
    case True
    then have "nat (- (a + s)) < nat (- a)" using less.prems by simp
    moreover have "- (2 ^ 32) \<le> a + s" "a + s \<le> 2 ^ 32" using less.prems True by linarith+
    ultimately obtain k where k: "make_nonneg (word_of_int (a + s)) (word_of_int s) = Some (word_of_int (a + s + k * s))"
      "0 \<le> a + s + k * s" "a + s + k * s \<le> 2 ^ 32"
      using less.hyps [of "a + s"] less.prems(3,4) by blast
    have "make_nonneg (word_of_int a) (word_of_int s) = make_nonneg (word_of_int (a + s)) (word_of_int s)"
      using True by (subst make_nonneg.simps) (simp add: si)
    then show ?thesis using k by (intro exI [of _ "k + 1"]) (simp add: algebra_simps)
  next
    case False
    then show ?thesis using less.prems by (subst make_nonneg.simps, intro exI [of _ 0]) (simp add: si)
  qed
qed

text \<open>With a cofactor that is not negative the unsigned product and remainder do not wrap.\<close>

lemma log_value:
  assumes "0 \<le> e" "e < 2 ^ 16" "0 < c" "c < 2 ^ 16" "0 \<le> a" "a \<le> 2 ^ 32" "0 < m" "m < 2 ^ 16"
  shows "sint (((word_of_int e :: UInt) div word_of_int c * word_of_int a) mod word_of_int m) = (e div c * a) mod m"
proof -
  have u: "uint (word_of_int i :: UInt) = i" if "0 \<le> i" "i < 2 ^ 63" for i
    using that by (simp add: uint_word_of_int_eq take_bit_int_eq_self)
  have ec: "0 \<le> e div c" "e div c \<le> e" using assms(1,3) zdiv_mono2 [of e 1 c] by (simp_all add: pos_imp_zdiv_nonneg_iff)
  have "(word_of_int e :: UInt) div word_of_int c = word_of_int (e div c)"
    using assms by (simp add: word_div_def u)
  then have ma: "(word_of_int e :: UInt) div word_of_int c * word_of_int a = word_of_int (e div c * a)"
    by (simp only: wi_hom_mult)
  have p: "0 \<le> e div c * a" using ec assms(5) by simp
  have "e div c * a \<le> 2 ^ 16 * 2 ^ 32" using ec assms by (intro mult_mono) simp_all
  then have up: "uint (word_of_int (e div c * a) :: UInt) = e div c * a" by (intro u p) simp
  have um: "uint (word_of_int m :: UInt) = m" using assms(7,8) by (intro u) simp_all
  have v: "((word_of_int e :: UInt) div word_of_int c * word_of_int a) mod word_of_int m = word_of_int ((e div c * a) mod m)"
    unfolding ma word_mod_def up um ..
  have "0 \<le> (e div c * a) mod m" "(e div c * a) mod m < 2 ^ 16"
    using assms(7) less_trans [OF pos_mod_bound [OF assms(7)] assms(8)] by simp_all
  then show ?thesis unfolding v by (intro sint_word_of_int_UInt) simp_all
qed

lemma discrete_log:
  fixes m r e :: int
  assumes m: "0 < m" "m < 2 ^ 16" and r: "0 \<le> r" "r < 2 ^ 16" and e: "0 \<le> e" "e < 2 ^ 16"
  obtains a c a' where "log_gcd 1 0 r m = (a, c)" "0 < c"
    "make_nonneg (word_of_int a) (word_of_int m div word_of_int c) = Some a'"
    "\<And>n. m dvd r * n - e \<Longrightarrow> c dvd e"
    "c dvd e \<Longrightarrow> \<exists>l. sint ((word_of_int e div word_of_int c * a') mod word_of_int m) = l \<and> 0 \<le> l \<and> l < m \<and> m dvd r * l - e"
proof -
  obtain a c where g: "log_gcd 1 0 r m = (a, c)" by fastforce
  have cg: "c = gcd r m \<and> m dvd a * r - c" by (rule log_gcd_correct [OF g r(1)]) (use m in simp_all)
  then have c: "c = gcd r m" "m dvd a * r - c" by blast+
  then have c0: "0 < c" "c dvd r" "c dvd m" using m by simp_all
  then have cm: "c \<le> m" using m(1) by (intro zdvd_imp_le)
  have s: "0 < m div c" "m div c \<le> m" using c0 cm m(1) pos_imp_zdiv_pos_iff [of c m] zdiv_mono2 [of m 1 c] by simp_all
  have "\<bar>a\<bar> \<le> m" by (rule log_gcd_bound [OF g r(1)]) (use m in simp_all)
  then have "- (2 ^ 32) \<le> a" "a \<le> 2 ^ 32" "m div c \<le> 2 ^ 32" using m s by (auto simp: abs_le_iff)
  then obtain k where "make_nonneg (word_of_int a) (word_of_int (m div c)) = Some (word_of_int (a + k * (m div c)))"
    and a': "0 \<le> a + k * (m div c)" "a + k * (m div c) \<le> 2 ^ 32"
    using make_nonneg_correct [OF _ _ s(1)] by blast
  moreover have "(word_of_int m :: UInt) div word_of_int c = word_of_int (m div c)"
    using m c0(1) cm by (simp add: word_div_def uint_word_of_int_eq take_bit_int_eq_self)
  ultimately have k: "make_nonneg (word_of_int a) (word_of_int m div word_of_int c) = Some (word_of_int (a + k * (m div c)))"
    by simp
  have "c dvd e" if "m dvd r * n - e" for n
  proof -
    have "c dvd r * n - e" "c dvd r * n" using that c0 by (auto intro: dvd_trans)
    then show ?thesis by (simp add: dvd_diff_right_iff)
  qed
  moreover have "m dvd r * ((e div c * (a + k * (m div c))) mod m) - e" if ce: "c dvd e"
  proof -
    obtain f where f: "e = c * f" using ce by blast
    obtain u where u: "r = c * u" using c0(2) by blast
    obtain v where v: "m = c * v" using c0(3) by blast
    have "r * (f * (a + k * v)) - e = f * (a * r - c) + m * (u * f * k)"
      by (simp add: f u v algebra_simps)
    then have "m dvd r * (f * (a + k * v)) - e" using c(2) by simp
    moreover have "m dvd r * (f * (a + k * v)) - r * ((f * (a + k * v)) mod m)"
      by (simp add: right_diff_distrib [symmetric] minus_mod_eq_mult_div)
    ultimately have "m dvd (r * (f * (a + k * v)) - e) - (r * (f * (a + k * v)) - r * ((f * (a + k * v)) mod m))"
      by (rule dvd_diff)
    then show ?thesis using c0(1) by (simp add: f v)
  qed
  moreover have "sint ((word_of_int e div word_of_int c * (word_of_int (a + k * (m div c)) :: UInt)) mod word_of_int m)
      = (e div c * (a + k * (m div c))) mod m"
    using m e a' c0(1) cm by (intro log_value) simp_all
  ultimately show thesis using that [OF g c0(1) k] m(1) by simp
qed

subsection \<open>The logarithm\<close>

definition is_log :: "ffdata \<Rightarrow> nat \<Rightarrow> nat \<Rightarrow> nat \<Rightarrow> UInt option \<Rightarrow> bool" where
  "is_log D g z r res \<longleftrightarrow>
     (case res of
        Some l \<Rightarrow> valid_intobj l \<and> 0 \<le> INT_INTOBJ l \<and> INT_INTOBJ l < int (SIZE_FF D g) - 1 \<and> ff_power D g r (nat (INT_INTOBJ l)) = z
      | None \<Rightarrow> \<forall>n. ff_power D g r n \<noteq> z)"

context finite_fields
begin

lemma log_core:
  fixes qX :: UInt and g :: nat
  defines "qX \<equiv> word_of_nat (SIZE_FF D g)"
  assumes g: "is_field D g" and v: "0 < v" "v < SIZE_FF D g" and w: "0 < w" "w < SIZE_FF D g"
  obtains a c a' where "log_gcd 1 0 (int w - 1) (sint (qX - 1)) = (a, c)"
    "make_nonneg (word_of_int a) ((qX - 1) div word_of_int c) = Some a'"
    "(int v - 1) smod c \<noteq> 0 \<longrightarrow> is_log D g (ff_elt D g v) (ff_elt D g w) None"
    "(int v - 1) smod c = 0 \<longrightarrow> is_log D g (ff_elt D g v) (ff_elt D g w)
       (Some (INTOBJ_INT (sint ((word_of_int (int v - 1) div word_of_int c * a') mod (qX - 1)))))"
proof -
  let ?m = "SIZE_FF D g - 1"
  have m: "0 < int ?m" "int ?m < 2 ^ 16" using fieldD(5,6) [OF g] by auto
  have q1: "qX - 1 = word_of_int (int ?m)" using fieldD(6) [OF g] by (simp add: qX_def of_nat_diff)
  then have sq: "sint (qX - 1) = int ?m" using m by (simp only:) (intro sint_word_of_int_UInt; simp)
  have vw: "int v - 1 = int (v - 1)" "int w - 1 = int (w - 1)" using v w by simp_all
  have pow: "ff_power D g (ff_elt D g w) n = ff_elt D g v \<longleftrightarrow> int ?m dvd int (w - 1) * int n - int (v - 1)" for n
  proof -
    have "ff_power D g (ff_elt D g w) n = ff_elt D g v \<longleftrightarrow> ((w - 1) * n) mod ?m = (v - 1) mod ?m"
      using ff_power_eq_iff [OF g w(1) v(1), of n 1] ff_power_1 [OF g v(1)] by simp
    also have "\<dots> \<longleftrightarrow> int ((w - 1) * n) mod int ?m = int (v - 1) mod int ?m"
      by (simp only: zmod_int [symmetric] of_nat_eq_iff)
    finally show ?thesis by (simp only: mod_eq_dvd_iff of_nat_mult)
  qed
  have "int (w - 1) < 2 ^ 16" "int (v - 1) < 2 ^ 16" using v w m(2) by simp_all
  then obtain a c a' where d: "log_gcd 1 0 (int (w - 1)) (int ?m) = (a, c)" "0 < c"
    "make_nonneg (word_of_int a) (word_of_int (int ?m) div word_of_int c) = Some a'"
    "\<And>n. int ?m dvd int (w - 1) * n - int (v - 1) \<Longrightarrow> c dvd int (v - 1)"
    "c dvd int (v - 1) \<Longrightarrow> \<exists>l. sint ((word_of_int (int (v - 1)) div word_of_int c * a') mod word_of_int (int ?m)) = l
       \<and> 0 \<le> l \<and> l < int ?m \<and> int ?m dvd int (w - 1) * l - int (v - 1)"
    using discrete_log [OF m, of "int (w - 1)" "int (v - 1)"] by (metis of_nat_0_le_iff)
  have s: "int (v - 1) smod c = 0 \<longleftrightarrow> c dvd int (v - 1)" using d(2) by (simp add: smod_mod_positive dvd_eq_mod_eq_0)
  show thesis
  proof (rule that [unfolded sq vw, unfolded q1, OF d(1,3)]; intro impI)
    assume "int (v - 1) smod c \<noteq> 0"
    then show "is_log D g (ff_elt D g v) (ff_elt D g w) None" using s d(4) pow by (auto simp: is_log_def)
  next
    assume "int (v - 1) smod c = 0"
    then obtain l where l: "sint ((word_of_int (int (v - 1)) div word_of_int c * a') mod word_of_int (int ?m)) = l"
      "0 \<le> l" "l < int ?m" "int ?m dvd int (w - 1) * l - int (v - 1)" using s d(5) by blast
    have "- (2 ^ 60) \<le> l" "l < 2 ^ 60" using l(2,3) m(2) by auto
    then have "l \<in> small_range" unfolding small_range_iff by blast
    then have i: "INT_INTOBJ (INTOBJ_INT l) = l" "valid_intobj (INTOBJ_INT l)"
      by (rule INT_INTOBJ_INTOBJ_INT, rule valid_INTOBJ_INT)
    have "ff_power D g (ff_elt D g w) (nat l) = ff_elt D g v" using l pow [of "nat l"] by simp
    then show "is_log D g (ff_elt D g v) (ff_elt D g w)
        (Some (INTOBJ_INT (sint ((word_of_int (int (v - 1)) div word_of_int c * a') mod word_of_int (int ?m)))))"
      unfolding l(1) using l(2,3) i by (simp only: is_log_def option.case) (simp add: of_nat_diff)
  qed
qed

lemma FuncLOG_FFE_DEFAULT_correct:
  assumes st: "tables_ok D L st" and z: "is_ffe D st z" "VAL_FFE D z \<noteq> 0" and r: "is_ffe D st r" "VAL_FFE D r \<noteq> 0"
  shows "\<exists>res st'. FuncLOG_FFE_DEFAULT D L z r st = Some (res, st') \<and> tables_ok D L st' \<and> extends st st'
    \<and> (if in_common_field D z r
       then \<exists>g v w l. is_field D g \<and> represents D z g v \<and> represents D r g w \<and> res = Inr l
              \<and> is_log D g (ff_elt D g v) (ff_elt D g w) l
       else res = LOG_FFE_LARGE L z r)"
proof -
  obtain fX vZ vR st' where C: "common_field D L z r st = Some ((fX, vZ, vR), st')" "tables_ok D L st'" "extends st st'"
    "if fX = 0 then \<not> (\<exists>g v w. is_field D g \<and> represents D z g v \<and> represents D r g w)
     else is_field D fX \<and> SUCC_FF st' fX \<noteq> None \<and> represents D z fX vZ \<and> represents D r fX vR"
    using common_field_correct [OF st z(1) r(1)] by blast
  have F: "IS_FFE z" "IS_FFE r"
  proof -
    have "z = NEW_FFE D (FLD_FFE D z) (VAL_FFE D z)" "r = NEW_FFE D (FLD_FFE D r) (VAL_FFE D r)"
      using z(1) r(1) by (simp_all add: is_ffe_def)
    then show "IS_FFE z" "IS_FFE r"
      using NEW_FFE_fields(3) [OF ffeD(1,2) [OF z(1)]] NEW_FFE_fields(3) [OF ffeD(1,2) [OF r(1)]] by simp_all
  qed
  show ?thesis
  proof (cases "fX = 0")
    case True
    then show ?thesis using C z(2) r(2) F by (auto simp: FuncLOG_FFE_DEFAULT_def in_common_field_def)
  next
    case False
    then have f: "is_field D fX" "represents D z fX vZ" "represents D r fX vR" using C(4) by auto
    then have v: "0 < vZ" "vZ < SIZE_FF D fX" "0 < vR" "vR < SIZE_FF D fX" using z(2) r(2) by (auto simp: represents_def)
    let ?q = "word_of_nat (SIZE_FF D fX) :: UInt"
    let ?l = "\<lambda>c a'. INTOBJ_INT (sint ((word_of_int (int vZ - 1) div word_of_int c * a') mod (?q - 1)))"
    obtain a c a' where l: "log_gcd 1 0 (int vR - 1) (sint (?q - 1)) = (a, c)"
      "make_nonneg (word_of_int a) ((?q - 1) div word_of_int c) = Some a'"
      "(int vZ - 1) smod c \<noteq> 0 \<longrightarrow> is_log D fX (ff_elt D fX vZ) (ff_elt D fX vR) None"
      "(int vZ - 1) smod c = 0 \<longrightarrow> is_log D fX (ff_elt D fX vZ) (ff_elt D fX vR) (Some (?l c a'))"
      using log_core [OF f(1) v] .
    have com: "in_common_field D z r" using f by (auto simp: in_common_field_def)
    show ?thesis
    proof (cases "(int vZ - 1) smod c = 0")
      case True
      have "FuncLOG_FFE_DEFAULT D L z r st = Some (Inr (Some (?l c a')), st')"
        unfolding FuncLOG_FFE_DEFAULT_def Let_def using True C(1) z(2) r(2) F False l(1,2) by simp
      then show ?thesis using C(2,3) com f l(4) True by auto
    next
      case no: False
      have "FuncLOG_FFE_DEFAULT D L z r st = Some (Inr None, st')"
        unfolding FuncLOG_FFE_DEFAULT_def Let_def using no C(1) z(2) r(2) F False l(1,2) by simp
      then show ?thesis using C(2,3) com f l(3) no by auto
    qed
  qed
qed

end

end
