(* ===== verification/FinFieldInt.thy ===== *)
theory FinFieldInt
  imports FinFieldLog
begin

text \<open>
  Conversion to an integer: the elements of the prime field are those whose exponent is divisible by
  \<open>(q - 1) div (p - 1)\<close>, and the table of \<open>INT_FF\<close> holds their residues.
\<close>

context residues
begin

text \<open>On the constants, multiplication is that of the integers modulo \<open>p\<close>.\<close>

lemma dig_const: "e < p \<Longrightarrow> dig p e i = (if i = 0 then int e else 0)"
  by (cases i) (simp_all add: dig_def div_mult2_eq)

lemma gf_mul_const:
  assumes e: "e < p" and f: "f < p"
  shows "gf_mul p d a e f = e * f mod p"
proof -
  have "e * f mod p < p" by simp
  also have "p \<le> p ^ d" using p_pos(1,3) by (intro self_le_power) linarith+
  finally have lt: "e * f mod p < p ^ d" .
  have sum: "(\<Sum>i<d. dig p e i * (shift p d a ^^ i) (dig p f) k) = int e * dig p f k" for k
  proof -
    have "(\<Sum>i<d. dig p e i * (shift p d a ^^ i) (dig p f) k) = (\<Sum>i<d. if i = 0 then int e * dig p f k else 0)"
      using e by (intro sum.cong) (auto simp: dig_const)
    then show ?thesis using p_pos by simp
  qed
  show ?thesis unfolding gf_mul_def sum
    by (rule code_eqI [OF lt]) (use f in \<open>simp add: dig_const zmod_int\<close>)
qed

end

context finite_fields
begin

lemma constant_power:
  assumes g: "is_field D g" and x: "x < CHAR_FF D g"
  shows "ff_power D g x n = x ^ n mod CHAR_FF D g"
proof (induction n)
  case 0
  have "2 \<le> CHAR_FF D g" using fieldD(1) [OF g] by (rule prime_number_ge_2)
  then show ?case by (simp add: ff_power_def)
next
  case (Suc n)
  have "ff_power D g x (Suc n) = ff_mul D g x (x ^ n mod CHAR_FF D g)" using Suc by (simp add: ff_power_def)
  then show ?case
    using residues.gf_mul_const [OF residues_field [OF g] x, of "x ^ n mod CHAR_FF D g"] x by (simp add: ff_mul_def mod_mult_right_eq)
qed

text \<open>The exponents of the nonzero elements of the prime field are the multiples of \<open>(q - 1) div (p - 1)\<close>.\<close>

abbreviation stride :: "nat \<Rightarrow> nat" where
  "stride g \<equiv> (SIZE_FF D g - 1) div (CHAR_FF D g - 1)"

lemma stride:
  assumes "is_field D g"
  shows "stride g * (CHAR_FF D g - 1) = SIZE_FF D g - 1" "0 < stride g" "0 < CHAR_FF D g - 1"
proof -
  have "CHAR_FF D g ^ 1 - 1 dvd CHAR_FF D g ^ DEGR_FF D g - 1" by (rule power_minus_1_dvd) simp
  then show e: "stride g * (CHAR_FF D g - 1) = SIZE_FF D g - 1" using fieldD(3) [OF assms] by simp
  have "0 < SIZE_FF D g - 1" using fieldD(6) [OF assms] by simp
  then show "0 < stride g" using e by (metis mult_0 neq0_conv)
  show "0 < CHAR_FF D g - 1" using prime_number_ge_2 [OF fieldD(1) [OF assms]] by simp
qed

lemma prime_field_exponent:
  assumes g: "is_field D g" and v: "v < SIZE_FF D g" "0 < ff_elt D g v" "ff_elt D g v < CHAR_FF D g"
  shows "stride g dvd v - 1"
proof -
  let ?p = "CHAR_FF D g" and ?q = "SIZE_FF D g"
  have v0: "0 < v" using v(2) by (cases v) auto
  have "ff_power D g (ff_elt D g v) (?p - 1) = 1"
    using fermat [OF fieldD(1) [OF g], of "ff_elt D g v"] v(2,3) by (simp add: constant_power [OF g])
  also have "\<dots> = ff_power D g (ff_elt D g v) 0" by (simp add: ff_power_def)
  finally have "(?q - 1) dvd (v - 1) * (?p - 1)"
    by (simp add: ff_power_eq_iff [OF g v0 v0] dvd_eq_mod_eq_0)
  then have "stride g * (?p - 1) dvd (v - 1) * (?p - 1)" by (simp only: stride(1) [OF g])
  moreover have "?p - 1 \<noteq> 0" using stride(3) [OF g] by simp
  ultimately show ?thesis by (simp only: dvd_times_right_cancel_iff not_False_eq_True)
qed

lemma prime_field_values:
  assumes g: "is_field D g"
  shows "{v. v < SIZE_FF D g \<and> 0 < v \<and> ff_elt D g v < CHAR_FF D g} = (\<lambda>k. k * stride g + 1) ` {..<CHAR_FF D g - 1}"
proof -
  let ?p = "CHAR_FF D g" and ?A = "{v. v < SIZE_FF D g \<and> 0 < v \<and> ff_elt D g v < CHAR_FF D g}"
    and ?B = "(\<lambda>k. k * stride g + 1) ` {..<CHAR_FF D g - 1}"
  have pos: "0 < ff_elt D g v" if "v < SIZE_FF D g" "0 < v" for v
    using ff_elt_inj [OF g that(1), of 0] that by (cases "ff_elt D g v") auto
  have sub: "?A \<subseteq> ?B"
  proof
    fix v assume v: "v \<in> ?A"
    then have "stride g dvd v - 1" using prime_field_exponent [OF g] pos by blast
    then obtain k where k: "v - 1 = stride g * k" by blast
    have "v - 1 < SIZE_FF D g - 1" using v by auto
    then have "stride g * k < stride g * (?p - 1)" by (simp only: k [symmetric] stride(1) [OF g])
    then have "k < ?p - 1" by (rule mult_less_cancel1 [THEN iffD1, THEN conjunct2])
    moreover have "v = k * stride g + 1"
    proof -
      have "v = (v - 1) + 1" using v by auto
      then show ?thesis by (simp only: k mult.commute)
    qed
    ultimately show "v \<in> ?B" by blast
  qed
  have "card ?A = card {1..<?p}"
  proof (rule bij_betw_same_card [of "ff_elt D g"])
    have "ff_elt D g ` ?A = {1..<?p}"
    proof
      show "{1..<?p} \<subseteq> ff_elt D g ` ?A"
      proof
        fix x assume x: "x \<in> {1..<?p}"
        have "?p \<le> SIZE_FF D g"
          using fieldD(2,3) [OF g] prime_number_ge_2 [OF fieldD(1) [OF g]] by (simp add: self_le_power)
        then have "x < SIZE_FF D g" using x by simp
        then obtain v where "v < SIZE_FF D g" "ff_elt D g v = x" using ff_elt_surj [OF g] by blast
        then show "x \<in> ff_elt D g ` ?A" using x by (cases v) auto
      qed
    qed (use pos in \<open>auto simp: Suc_le_eq\<close>)
    moreover have "inj_on (ff_elt D g) ?A" by (auto simp: inj_on_def ff_elt_inj [OF g])
    ultimately show "bij_betw (ff_elt D g) ?A {1..<?p}" by (simp add: bij_betw_def)
  qed
  moreover have "card ?B = ?p - 1"
    using stride(2) [OF g] by (subst card_image) (auto simp: inj_on_def)
  ultimately show ?thesis using sub by (intro card_subset_eq) simp_all
qed

lemma stride_index:
  assumes g: "is_field D g" and v: "v < SIZE_FF D g" "0 < ff_elt D g v" "ff_elt D g v < CHAR_FF D g"
  obtains k where "v = k * stride g + 1" "(v - 1) div stride g = k" "k + 1 < CHAR_FF D g"
proof -
  have "0 < v" using v(2) by (cases v) auto
  then have "v \<in> (\<lambda>k. k * stride g + 1) ` {..<CHAR_FF D g - 1}" using v prime_field_values [OF g] by blast
  then obtain k where k: "k < CHAR_FF D g - 1" "v = k * stride g + 1" by blast
  then have "(v - 1) div stride g = k" using stride(2) [OF g] by simp
  then show thesis using that k by simp
qed


lemma int_loop_correct:
  assumes g: "is_field D g" and f: "zech_table D g f"
  shows "0 < i \<Longrightarrow> i \<le> CHAR_FF D g \<Longrightarrow> length conv = CHAR_FF D g \<Longrightarrow>
    (i < CHAR_FF D g \<Longrightarrow> z < SIZE_FF D g \<and> ff_elt D g z = i) \<Longrightarrow>
    (\<And>v. v < SIZE_FF D g \<Longrightarrow> 0 < ff_elt D g v \<Longrightarrow> ff_elt D g v < i \<Longrightarrow>
       conv ! ((v - 1) div stride g + 1) = Some (INTOBJ_INT (int (ff_elt D g v)))) \<Longrightarrow>
    \<exists>conv'. int_loop f (CHAR_FF D g) (SIZE_FF D g) i z conv = Some conv' \<and> conv_ok D g conv'"
proof (induction "CHAR_FF D g - i" arbitrary: i z conv)
  case 0
  then have i: "i = CHAR_FF D g" by simp
  have "elm_plist conv ((v - 1) div stride g + 1) = Some (INTOBJ_INT (int (ff_elt D g v)))"
    if v: "v < SIZE_FF D g" "0 < ff_elt D g v" "ff_elt D g v < CHAR_FF D g" for v
  proof -
    have "(v - 1) div stride g + 1 < length conv" using stride_index [OF g v] "0.prems"(3) by metis
    then show ?thesis using "0.prems"(5) [OF v(1,2)] v(3) i by (simp add: elm_plist_def rd_def)
  qed
  then show ?case using i "0.prems"(3) by (subst int_loop.simps) (simp add: conv_ok_def)
next
  case (Suc m)
  let ?p = "CHAR_FF D g"
  have i: "i < ?p" using Suc.hyps(2) by simp
  then have z: "z < SIZE_FF D g" "ff_elt D g z = i" using Suc.prems(4) by blast+
  obtain k where k: "z = k * stride g + 1" "(z - 1) div stride g = k" "k + 1 < ?p"
    using stride_index [OF g z(1)] z(2) i Suc.prems(1) by blast
  have z0: "0 < z" using z(2) Suc.prems(1) by (cases z) auto
  have n: "f ! z < SIZE_FF D g" "ff_elt D g (f ! z) = ff_add D g i 1" "z < length f"
    using f z z0 by (auto simp: zech_table_def)
  let ?c = "conv[k + 1 := Some (INTOBJ_INT (int i))]"
  have step: "int_loop f ?p (SIZE_FF D g) i z conv = int_loop f ?p (SIZE_FF D g) (i + 1) (f ! z) ?c"
    using i k(2,3) n(3) Suc.prems(3) by (subst int_loop.simps) (simp add: put_def rd_def)
  have next_elt: "f ! z < SIZE_FF D g \<and> ff_elt D g (f ! z) = i + 1" if "i + 1 < ?p"
  proof -
    have "i < SIZE_FF D g" using z ff_elt_less [OF g] by metis
    then have "ff_add D g i 1 = i + 1"
      using residues.gf_add_one [OF residues_field [OF g], of i, folded fieldD(3) [OF g]] i that by (simp add: ff_add_def)
    then show ?thesis using n by simp
  qed
  have entry: "?c ! ((v - 1) div stride g + 1) = Some (INTOBJ_INT (int (ff_elt D g v)))"
    if v: "v < SIZE_FF D g" "0 < ff_elt D g v" "ff_elt D g v < i + 1" for v
  proof (cases "ff_elt D g v = i")
    case True
    then have "v = z" using z ff_elt_inj [OF g v(1) z(1)] by simp
    then show ?thesis using k(2,3) Suc.prems(3) z(2) by simp
  next
    case False
    then have less: "ff_elt D g v < i" "ff_elt D g v < ?p" using v(3) i by simp_all
    obtain j where j: "v = j * stride g + 1" "(v - 1) div stride g = j" using stride_index [OF g v(1,2) less(2)] by blast
    have "j \<noteq> k" using j(1) k(1) z(2) False by auto
    then show ?thesis using Suc.prems(5) [OF v(1,2) less(1)] j(2) by simp
  qed
  have "\<exists>conv'. int_loop f ?p (SIZE_FF D g) (i + 1) (f ! z) ?c = Some conv' \<and> conv_ok D g conv'"
    using Suc.hyps(2) i Suc.prems(3) next_elt entry by (intro Suc.hyps(1)) auto
  then show ?case using step by simp
qed

lemma INT_FF_correct:
  assumes st: "tables_ok D L st" and g: "is_field D g" "SUCC_FF st g \<noteq> None"
  shows "\<exists>conv st'. INT_FF D g st = Some (conv, st') \<and> conv_ok D g conv \<and> tables_ok D L st' \<and> extends st st'"
proof -
  have len: "g < length (IntFF st)" using st g(1) by (simp add: tables_ok_def is_field_def)
  then have at: "elm_plist (IntFF st) g = IntFF st ! g" by (simp add: elm_plist_def rd_def)
  have old: "case IntFF st ! g of None \<Rightarrow> True | Some conv \<Rightarrow> conv_ok D g conv"
    using st g(1) unfolding tables_ok_def by blast
  show ?thesis
  proof (cases "IntFF st ! g")
    case (Some conv)
    then show ?thesis using old at len st by (auto simp: INT_FF_def)
  next
    case None
    obtain f where f: "SUCC_FF st g = Some f" "zech_table D g f" using table_of [OF st g] .
    have p: "2 \<le> CHAR_FF D g" using fieldD(1) [OF g(1)] by (rule prime_number_ge_2)
    have "\<exists>conv. int_loop f (CHAR_FF D g) (SIZE_FF D g) 1 1 (replicate (CHAR_FF D g) None) = Some conv \<and> conv_ok D g conv"
      by (rule int_loop_correct [OF g(1) f(2)]) (use p one_in [OF g(1)] in simp_all)
    then obtain conv where conv: "int_loop f (CHAR_FF D g) (SIZE_FF D g) 1 1 (replicate (CHAR_FF D g) None) = Some conv"
      "conv_ok D g conv" by blast
    obtain u where u: "u = st\<lparr>IntFF := ass_plist (IntFF st) g conv\<rparr>" by blast
    have same: "SuccFF u = SuccFF st" "TypeFF u = TypeFF st" "TypeFF0 u = TypeFF0 st" "length (IntFF u) = length (IntFF st)"
      and at': "IntFF u ! h = (if h = g then Some conv else IntFF st ! h)" for h
      using len by (simp_all add: u ass_plist_def)
    have "INT_FF D g st = Some (conv, u)"
      using None at f(1) conv(1) len at' [of g] same(4) by (simp add: INT_FF_def Let_def u elm_plist_def rd_def)
    moreover have "tables_ok D L u"
      unfolding tables_ok_def
    proof (intro conjI allI impI)
      fix h assume h: "is_field D h"
      have "(case SuccFF st ! h of None \<Rightarrow> TypeFF st ! h = None \<and> TypeFF0 st ! h = None
           | Some f \<Rightarrow> zech_table D h f \<and> TypeFF st ! h = Some (TYPE_FFE L (CHAR_FF D h))
               \<and> TypeFF0 st ! h = Some (TYPE_FFE0 L (CHAR_FF D h)))"
        "(case IntFF st ! h of None \<Rightarrow> True | Some conv \<Rightarrow> conv_ok D h conv)"
        using st h unfolding tables_ok_def by blast+
      then show "(case SuccFF u ! h of None \<Rightarrow> TypeFF u ! h = None \<and> TypeFF0 u ! h = None
           | Some f \<Rightarrow> zech_table D h f \<and> TypeFF u ! h = Some (TYPE_FFE L (CHAR_FF D h))
               \<and> TypeFF0 u ! h = Some (TYPE_FFE0 L (CHAR_FF D h)))"
        "(case IntFF u ! h of None \<Rightarrow> True | Some conv \<Rightarrow> conv_ok D h conv)"
        using conv(2) by (simp_all only: same at') simp
    qed (use st in \<open>simp_all add: tables_ok_def same\<close>)
    moreover have "extends st u" by (simp add: extends_def SUCC_FF_def same)
    ultimately show ?thesis using conv(2) by blast
  qed
qed

text \<open>\<open>IntFFE\<close> answers the residue of an element of the prime field and signals an error on the others.\<close>

lemma FuncINT_FFE_DEFAULT_correct:
  assumes st: "tables_ok D L st" and z: "is_ffe D st z"
  shows "\<exists>st'. FuncINT_FFE_DEFAULT D z st
      = Some (if ffe_elt D z < CHAR_FF D (FLD_FFE D z) then Inr (INTOBJ_INT (int (ffe_elt D z)))
              else Inl ''IntFFE: <z> must lie in prime field'', st')
    \<and> tables_ok D L st' \<and> extends st st'"
proof (cases "VAL_FFE D z = 0")
  case True
  have "0 < CHAR_FF D (FLD_FFE D z)" using ffeD(3) [OF z] by simp
  then show ?thesis using True st by (simp add: FuncINT_FFE_DEFAULT_def ffe_elt_def)
next
  case False
  let ?g = "FLD_FFE D z" and ?v = "VAL_FFE D z"
  have g: "is_field D ?g" "SUCC_FF st ?g \<noteq> None" "?v < SIZE_FF D ?g" using z by (auto simp: is_ffe_def)
  have v: "0 < ?v" "0 < ff_elt D ?g ?v"
    using False ff_elt_inj [OF g(1) g(3), of 0] g(3) by (auto intro: gr0I)
  obtain conv st' where c: "INT_FF D ?g st = Some (conv, st')" "conv_ok D ?g conv" "tables_ok D L st'" "extends st st'"
    using INT_FF_correct [OF st g(1,2)] by blast
  have prime: "(?v - 1) mod stride ?g = 0 \<longleftrightarrow> ff_elt D ?g ?v < CHAR_FF D ?g"
  proof
    assume "ff_elt D ?g ?v < CHAR_FF D ?g"
    then have "stride ?g dvd ?v - 1" by (rule prime_field_exponent [OF g(1,3) v(2)])
    then show "(?v - 1) mod stride ?g = 0" by (rule dvd_imp_mod_0)
  next
    assume "(?v - 1) mod stride ?g = 0"
    then obtain k where k: "?v - 1 = stride ?g * k" by blast
    have "?v - 1 < SIZE_FF D ?g - 1" using v(1) g(3) by linarith
    then have "stride ?g * k < stride ?g * (CHAR_FF D ?g - 1)" by (simp only: k [symmetric] stride(1) [OF g(1)])
    then have "k < CHAR_FF D ?g - 1" by (rule mult_less_cancel1 [THEN iffD1, THEN conjunct2])
    moreover have "?v = k * stride ?g + 1"
    proof -
      have "?v = (?v - 1) + 1" using v(1) by simp
      then show ?thesis by (simp only: k mult.commute)
    qed
    ultimately show "ff_elt D ?g ?v < CHAR_FF D ?g" using prime_field_values [OF g(1)] by blast
  qed
  show ?thesis
  proof (cases "ff_elt D ?g ?v < CHAR_FF D ?g")
    case True
    obtain k where k: "(?v - 1) div stride ?g = k" "k + 1 < CHAR_FF D ?g" using stride_index [OF g(1,3) v(2) True] by blast
    have "CHAR_FF D ?g \<le> SIZE_FF D ?g"
      using fieldD(2,3) [OF g(1)] ffeD(3) [OF z] by (simp add: self_le_power)
    then have "k + 1 < 2 ^ 16" using k(2) fieldD(5) [OF g(1)] by linarith
    then have "u16 ((?v - 1) div stride ?g + 1) = (?v - 1) div stride ?g + 1" by (simp only: u16_def k(1) mod_less)
    moreover have "elm_plist conv ((?v - 1) div stride ?g + 1) = Some (INTOBJ_INT (int (ff_elt D ?g ?v)))"
      using c(2) g(3) v(2) True unfolding conv_ok_def by blast
    ultimately show ?thesis
      using True False c prime by (simp add: FuncINT_FFE_DEFAULT_def Let_def ffe_elt_def del: One_nat_def)
  next
    case no: False
    then show ?thesis using False c prime by (simp add: FuncINT_FFE_DEFAULT_def Let_def ffe_elt_def del: One_nat_def)
  qed
qed

end

end
