(* ===== verification/FinFieldGen.thy ===== *)
theory FinFieldGen
  imports FinFieldInt
begin

text \<open>
  The functions \<open>Z(q)\<close> and \<open>Z(p, d)\<close>: they build the field on the first call and answer a generator of its
  multiplicative group.
\<close>

definition is_generator :: "ffdata \<Rightarrow> ffstate \<Rightarrow> UInt \<Rightarrow> bool" where
  "is_generator D st z \<longleftrightarrow>
     is_ffe D st z
     \<and> (\<forall>x<SIZE_FF D (FLD_FFE D z). 0 < x \<longrightarrow> (\<exists>n<SIZE_FF D (FLD_FFE D z) - 1. ff_power D (FLD_FFE D z) (ffe_elt D z) n = x))"

text \<open>The loop that computes \<open>q = p ^ d\<close> stops once \<open>q\<close> exceeds the largest size.\<close>

lemma z_power_correct:
  "2 \<le> p \<Longrightarrow> 0 < d \<Longrightarrow>
    (z_power D p d q \<le> MAXSIZE_GF_INTERNAL D \<longleftrightarrow> q * p ^ (d - 1) \<le> MAXSIZE_GF_INTERNAL D)
    \<and> (q * p ^ (d - 1) \<le> MAXSIZE_GF_INTERNAL D \<longrightarrow> z_power D p d q = q * p ^ (d - 1))"
proof (induction D p d q rule: z_power.induct)
  case (1 D p n q)
  show ?case
  proof (cases "0 < n \<and> q \<le> MAXSIZE_GF_INTERNAL D")
    case True
    then have e: "q * p * p ^ (n - 1) = q * p ^ n" by (cases n) simp_all
    have ih: "(z_power D p n (q * p) \<le> MAXSIZE_GF_INTERNAL D \<longleftrightarrow> q * p * p ^ (n - 1) \<le> MAXSIZE_GF_INTERNAL D)
      \<and> (q * p * p ^ (n - 1) \<le> MAXSIZE_GF_INTERNAL D \<longrightarrow> z_power D p n (q * p) = q * p * p ^ (n - 1))"
      using True "1.prems" by (intro "1.IH") simp_all
    have s: "z_power D p (Suc n) q = z_power D p n (q * p)" using True by simp
    show ?thesis unfolding diff_Suc_1 s by (rule ih [unfolded e])
  next
    case False
    have "q * 1 \<le> q * p ^ n" using "1.prems" by (intro mult_le_mono2) simp
    then have "n = 0 \<or> \<not> q * p ^ n \<le> MAXSIZE_GF_INTERNAL D" using False by linarith
    then show ?thesis using False by auto
  qed
qed simp

context finite_fields
begin

text \<open>The value that \<open>Z\<close> answers in a field.\<close>

lemma generator_value:
  assumes g: "is_field D g" "SUCC_FF st g \<noteq> None" and v: "v = (if SIZE_FF D g = 2 then 1 else 2)"
  shows "is_generator D st (NEW_FFE D g v) \<and> FLD_FFE D (NEW_FFE D g v) = g"
proof -
  let ?q = "SIZE_FF D g"
  have q: "2 \<le> ?q" using fieldD(6) [OF g(1)] .
  have lt: "v < ?q" "0 < v" using q v by auto
  note new = is_ffe_NEW [OF g(1) lt(1) g(2)] NEW_FFE_fields [OF g(1) lt(1)]
  have "\<exists>n<?q - 1. ff_power D g (ff_elt D g v) n = x" if x: "x < ?q" "0 < x" for x
  proof -
    obtain w where w: "w < ?q" "ff_elt D g w = x" using ff_elt_surj [OF g(1) x(1)] by blast
    then have w0: "0 < w" using x(2) by (cases w) auto
    have "((v - 1) * (w - 1)) mod (?q - 1) = ((w - 1) * 1) mod (?q - 1)"
    proof (cases "?q = 2")
      case True
      then show ?thesis by simp
    next
      case False
      then show ?thesis using v by simp
    qed
    then have "ff_power D g (ff_elt D g v) (w - 1) = ff_power D g (ff_elt D g w) 1"
      by (simp only: ff_power_eq_iff [OF g(1) lt(2) w0])
    then have "ff_power D g (ff_elt D g v) (w - 1) = x" using w(2) ff_power_1 [OF g(1) w0] by simp
    moreover have "w - 1 < ?q - 1" using w(1) w0 by simp
    ultimately show ?thesis by blast
  qed
  then show ?thesis using new by (simp add: is_generator_def ffe_elt_def)
qed

lemma FuncZ_correct:
  assumes st: "tables_ok D L st" and w: "valid_intobj w"
  shows "\<exists>r st'. FuncZ D L (Some (T_INT w)) st = Some (r, st') \<and> tables_ok D L st' \<and> extends st st'
    \<and> (if int (MAXSIZE_GF_INTERNAL D) < INT_INTOBJ w then r = ZOp1 L (T_INT w)
       else if \<exists>p d. prime_number p \<and> 0 < d \<and> INT_INTOBJ w = int (p ^ d)
       then \<exists>z. r = Inr z \<and> is_generator D st' z \<and> int (SIZE_FF D (FLD_FFE D z)) = INT_INTOBJ w
       else r = Inl prime_power_message)"
proof -
  let ?n = "INT_INTOBJ w"
  consider "int (MAXSIZE_GF_INTERNAL D) < ?n" | "?n \<le> int (MAXSIZE_GF_INTERNAL D)" "?n \<le> 1"
    | g where "?n \<le> int (MAXSIZE_GF_INTERNAL D)" "1 < ?n" "is_field D g" "SIZE_FF D g = nat ?n"
    | "?n \<le> int (MAXSIZE_GF_INTERNAL D)" "1 < ?n" "\<And>g. is_field D g \<Longrightarrow> SIZE_FF D g \<noteq> nat ?n"
    by (metis not_le)
  then show ?thesis
  proof cases
    case 1
    then show ?thesis using st by (simp add: FuncZ_def)
  next
    case 2
    have "\<not> (\<exists>p d. prime_number p \<and> 0 < d \<and> ?n = int (p ^ d))"
    proof (intro notI, elim exE conjE)
      fix p d assume that: "prime_number p" "0 < d" "?n = int (p ^ d)"
      have "p \<le> p ^ d" using that prime_number_ge_2 [of p] by (simp add: self_le_power)
      then show False using prime_number_ge_2 [OF that(1)] 2(2) that(3) by linarith
    qed
    then show ?thesis using 2 st by (simp add: FuncZ_def)
  next
    case 3
    obtain st' where s: "FiniteFieldBySize D L (SIZE_FF D g) st = Some (g, st')" "tables_ok D L st'" "extends st st'"
      "SUCC_FF st' g \<noteq> None" using FiniteFieldBySize_field [OF st 3(3)] by blast
    have two: "w = INTOBJ_INT 2 \<longleftrightarrow> SIZE_FF D g = 2"
      using valid_eq_INTOBJ_INT [OF w, of 2] 3(2,4) by (auto simp: small_range_iff)
    let ?z = "NEW_FFE D g (if SIZE_FF D g = 2 then 1 else 2)"
    have gen: "is_generator D st' ?z" "FLD_FFE D ?z = g" using generator_value [OF 3(3) s(4) refl] by simp_all
    have "g \<noteq> 0" using 3(3) by (simp add: is_field_def)
    then have r: "FuncZ D L (Some (T_INT w)) st = Some (Inr ?z, st')"
      using 3(1,2) s(1) two by (simp add: FuncZ_def 3(4) [symmetric])
    have sz: "int (SIZE_FF D g) = ?n" using 3(2,4) by simp
    then have "?n = int (CHAR_FF D g ^ DEGR_FF D g)" using fieldD(3) [OF 3(3)] by simp
    then have "\<exists>p d. prime_number p \<and> 0 < d \<and> ?n = int (p ^ d)" using fieldD(1,2) [OF 3(3)] by blast
    moreover have "\<not> int (MAXSIZE_GF_INTERNAL D) < ?n" using 3(1) by simp
    ultimately show ?thesis
      using s(2,3) gen sz by (intro exI [of _ "Inr ?z"] exI [of _ st'] conjI r) simp_all
  next
    case 4
    have "\<not> (\<exists>p d. prime_number p \<and> 0 < d \<and> ?n = int (p ^ d))"
    proof (intro notI, elim exE conjE)
      fix p d assume p: "prime_number p" "0 < d" "?n = int (p ^ d)"
      then have "p ^ d \<le> MAXSIZE_GF_INTERNAL D" using 4(1) by linarith
      then obtain g where "is_field D g" "SIZE_FF D g = p ^ d" using data p(1,2) unfolding field_data_def by blast
      moreover have "nat ?n = p ^ d" by (simp only: p(3) nat_int)
      ultimately show False using 4(3) by metis
    qed
    then show ?thesis using 4(1,2) st FiniteFieldBySize_none [OF 4(3), of L st] by (simp add: FuncZ_def)
  qed
qed

lemma FuncZ2_field:
  assumes st: "tables_ok D L st" and n: "p = INT_INTOBJ wp" "d = INT_INTOBJ wd" and pd: "1 < p" "0 < d"
    and bound: "nat p ^ nat d \<le> MAXSIZE_GF_INTERNAL D" "d \<le> int (DEGREE_LARGEST_INTERNAL_FF D)"
  shows "\<exists>r st'. FuncZ2 D L (Some (T_INT wp)) (Some (T_INT wd)) st = Some (r, st') \<and> tables_ok D L st' \<and> extends st st'
    \<and> (if prime_number (nat p)
       then \<exists>z. r = Inr z \<and> is_generator D st' z \<and> CHAR_FF D (FLD_FFE D z) = nat p \<and> DEGR_FF D (FLD_FFE D z) = nat d
       else r = Inl ''Z: <p> must be a prime'')"
proof -
  let ?q = "nat p ^ nat d"
  have le: "nat p \<le> ?q" using pd by (intro self_le_power) auto
  then have cond: "p \<le> int (MAXSIZE_GF_INTERNAL D)" using bound(1) by linarith
  have "nat p * nat p ^ (nat d - 1) = ?q" using pd(2) by (cases "nat d") simp_all
  then have q: "z_power D (nat p) (nat d) (nat p) = ?q"
    using z_power_correct [of "nat p" "nat d" D "nat p"] pd bound(1) by simp
  have unfold: "FuncZ2 D L (Some (T_INT wp)) (Some (T_INT wd)) st
    = do { (ff, st) \<leftarrow> FiniteFieldBySize D L ?q st;
           Some (if ff = 0 \<or> int (CHAR_FF D ff) \<noteq> p then Inl ''Z: <p> must be a prime''
                 else Inr (NEW_FFE D ff (if ?q = 2 then 1 else 2)), st) }"
    using pd bound cond by (simp add: FuncZ2_def Let_def n [symmetric] q)
  consider g where "is_field D g" "SIZE_FF D g = ?q" | "\<And>g. is_field D g \<Longrightarrow> SIZE_FF D g \<noteq> ?q" by blast
  then show ?thesis
  proof cases
    case 1
    obtain st' where s: "FiniteFieldBySize D L (SIZE_FF D g) st = Some (g, st')" "tables_ok D L st'" "extends st st'"
      "SUCC_FF st' g \<noteq> None" using FiniteFieldBySize_field [OF st 1(1)] by blast
    have "g \<noteq> 0" using 1(1) by (simp add: is_field_def)
    then have r: "FuncZ2 D L (Some (T_INT wp)) (Some (T_INT wd)) st
        = Some (if CHAR_FF D g \<noteq> nat p then Inl ''Z: <p> must be a prime''
                else Inr (NEW_FFE D g (if SIZE_FF D g = 2 then 1 else 2)), st')"
      using s(1) 1(2) pd(1) unfolding unfold by auto
    have c: "prime_number (nat p) \<longleftrightarrow> CHAR_FF D g = nat p"
    proof
      assume "prime_number (nat p)"
      then show "CHAR_FF D g = nat p"
        using prime_power_inj [of "CHAR_FF D g" "nat p" "DEGR_FF D g" "nat d"] fieldD(1-3) [OF 1(1)] 1(2) pd(2) by simp
    qed (use fieldD(1) [OF 1(1)] in simp)
    show ?thesis
    proof (cases "CHAR_FF D g = nat p")
      case True
      have "DEGR_FF D g = nat d" using fieldD(3) [OF 1(1)] 1(2) True pd(1) power_inject_exp [of "nat p"] by simp
      then show ?thesis
        using r s True c generator_value [OF 1(1) s(4) refl] by (intro exI conjI) (auto split: if_splits)
    next
      case False
      then show ?thesis using r s c by simp
    qed
  next
    case 2
    have "\<not> prime_number (nat p)"
    proof
      assume "prime_number (nat p)"
      then obtain g where "is_field D g" "SIZE_FF D g = ?q"
        using data bound(1) pd(2) unfolding field_data_def by (metis zero_less_nat_eq)
      then show False using 2 by blast
    qed
    then show ?thesis using FiniteFieldBySize_none [OF 2, of L st] st unfolding unfold by simp
  qed
qed


lemma degree_bound:
  assumes "1 < p" "nat p ^ nat d \<le> MAXSIZE_GF_INTERNAL D" "0 < d"
  shows "d \<le> int (DEGREE_LARGEST_INTERNAL_FF D)"
proof -
  have "(2::nat) ^ nat d \<le> nat p ^ nat d" using assms(1) by (intro power_mono) auto
  then have "2 ^ nat d \<le> MAXSIZE_GF_INTERNAL D" using assms(2) by linarith
  moreover have "prime_number 2" by code_simp
  moreover have "0 < nat d" using assms(3) by simp
  ultimately have "nat d \<le> DEGREE_LARGEST_INTERNAL_FF D" using data unfolding field_data_def by blast
  then show ?thesis by simp
qed

lemma FuncZ2_correct:
  assumes st: "tables_ok D L st" and n: "p = INT_INTOBJ wp" "d = INT_INTOBJ wd"
  shows "\<exists>r st'. FuncZ2 D L (Some (T_INT wp)) (Some (T_INT wd)) st = Some (r, st') \<and> tables_ok D L st' \<and> extends st st'
    \<and> (if \<not> (1 < p \<and> 0 < d \<and> nat p ^ nat d \<le> MAXSIZE_GF_INTERNAL D) then r = ZOp2 L (Some (T_INT wp)) (Some (T_INT wd))
       else if prime_number (nat p)
       then \<exists>z. r = Inr z \<and> is_generator D st' z \<and> CHAR_FF D (FLD_FFE D z) = nat p \<and> DEGR_FF D (FLD_FFE D z) = nat d
       else r = Inl ''Z: <p> must be a prime'')"
proof (cases "1 < p \<and> 0 < d \<and> nat p ^ nat d \<le> MAXSIZE_GF_INTERNAL D")
  case True
  then have t: "1 < p" "0 < d" "nat p ^ nat d \<le> MAXSIZE_GF_INTERNAL D" by blast+
  show ?thesis using FuncZ2_field [OF st n t degree_bound [OF t(1,3,2)]] t by simp
next
  case False
  have "z_power D (nat p) (nat d) (nat p) > MAXSIZE_GF_INTERNAL D" if "1 < p" "0 < d"
  proof -
    have "nat p * nat p ^ (nat d - 1) = nat p ^ nat d" using that(2) by (cases "nat d") simp_all
    moreover have "2 \<le> nat p" "0 < nat d" using that by linarith+
    ultimately show ?thesis using z_power_correct [of "nat p" "nat d" D "nat p"] that False by simp
  qed
  then have "FuncZ2 D L (Some (T_INT wp)) (Some (T_INT wd)) st = Some (ZOp2 L (Some (T_INT wp)) (Some (T_INT wd)), st)"
    by (auto simp: FuncZ2_def Let_def n [symmetric])
  then show ?thesis using False st by auto
qed

end

end
