(* ===== verification/FinFieldSession.thy ===== *)
theory FinFieldSession
  imports FinFieldGen
begin

text \<open>
  Sequences of calls: the dispatch on the types of the operands, and the states and handles that any sequence of calls of the
  kernel functions reaches from the start of the system.
\<close>

subsection \<open>Calls\<close>

datatype ff_op = OpSum | OpDiff | OpProd | OpQuo

text \<open>The entries of \<open>SumFuncs\<close>, \<open>DiffFuncs\<close>, \<open>ProdFuncs\<close> and \<open>QuoFuncs\<close> for the types \<open>T_FFE\<close> and \<open>T_INT\<close>.\<close>

definition install_methods :: "ffdata \<Rightarrow> fflib \<Rightarrow> ff_op \<Rightarrow> UInt \<Rightarrow> UInt \<Rightarrow> ffstate \<Rightarrow> (UInt result \<times> ffstate) option" where
  "install_methods D L op x y st =
     (let keep = (\<lambda>r. map_option (\<lambda>r. (r, st)) r)
      in if IS_FFE x \<and> IS_FFE y
         then (case op of OpSum \<Rightarrow> SumFFEFFE | OpDiff \<Rightarrow> DiffFFEFFE | OpProd \<Rightarrow> ProdFFEFFE | OpQuo \<Rightarrow> QuoFFEFFE) D L x y st
         else if IS_FFE x
         then keep ((case op of OpSum \<Rightarrow> SumFFEInt | OpDiff \<Rightarrow> DiffFFEInt | OpProd \<Rightarrow> ProdFFEInt | OpQuo \<Rightarrow> QuoFFEInt) D st x y)
         else keep ((case op of OpSum \<Rightarrow> SumIntFFE | OpDiff \<Rightarrow> DiffIntFFE | OpProd \<Rightarrow> ProdIntFFE | OpQuo \<Rightarrow> QuoIntFFE) D st x y))"

datatype ff_call =
  Binary ff_op UInt UInt
| Power UInt UInt
| PowerFFE UInt UInt
| Log UInt UInt
| ToInt UInt
| Gen UInt
| GenPrime UInt UInt
| AddInv UInt
| Inverse UInt
| ZeroOf UInt
| OneOf UInt

text \<open>The answer of a call is an object, \<open>fail\<close> (\<open>None\<close>) or an error; \<open>None\<close> outside is a loop that does not end or a read of an entry that is not bound.\<close>

definition run_call :: "ffdata \<Rightarrow> fflib \<Rightarrow> ff_call \<Rightarrow> ffstate \<Rightarrow> (UInt option result \<times> ffstate) option" where
  "run_call D L c st =
     (case c of
        Binary op x y \<Rightarrow> map_option (apfst (map_sum id Some)) (install_methods D L op x y st)
      | Power x n \<Rightarrow> map_option (\<lambda>r. (map_sum id Some r, st)) (PowFFEInt D st x n)
      | PowerFFE x y \<Rightarrow> Some (map_sum id Some (PowFFEFFE D x y), st)
      | Log x y \<Rightarrow> FuncLOG_FFE_DEFAULT D L x y st
      | ToInt x \<Rightarrow> map_option (apfst (map_sum id Some)) (FuncINT_FFE_DEFAULT D x st)
      | Gen q \<Rightarrow> map_option (apfst (map_sum id Some)) (FuncZ D L (Some (T_INT q)) st)
      | GenPrime p d \<Rightarrow> map_option (apfst (map_sum id Some)) (FuncZ2 D L (Some (T_INT p)) (Some (T_INT d)) st)
      | AddInv x \<Rightarrow> map_option (\<lambda>z. (Inr (Some z), st)) (AInvFFE D st x)
      | Inverse x \<Rightarrow> map_option (\<lambda>z. (Inr z, st)) (InvFFE D st x)
      | ZeroOf x \<Rightarrow> Some (Inr (Some (ZeroFFE D x)), st)
      | OneOf x \<Rightarrow> Some (Inr (Some (OneFFE D x)), st))"

text \<open>The arguments of a call: handles the session has received, and integer objects.\<close>

definition call_ok :: "UInt set \<Rightarrow> ff_call \<Rightarrow> bool" where
  "call_ok H c \<longleftrightarrow>
     (case c of
        Binary op x y \<Rightarrow> x \<in> H \<and> y \<in> H \<or> x \<in> H \<and> valid_intobj y \<or> valid_intobj x \<and> y \<in> H
      | Power x n \<Rightarrow> x \<in> H \<and> valid_intobj n
      | PowerFFE x y \<Rightarrow> x \<in> H \<and> y \<in> H
      | Log x y \<Rightarrow> x \<in> H \<and> y \<in> H
      | Gen q \<Rightarrow> valid_intobj q
      | GenPrime p d \<Rightarrow> valid_intobj p \<and> valid_intobj d
      | ToInt x \<Rightarrow> x \<in> H
      | AddInv x \<Rightarrow> x \<in> H
      | Inverse x \<Rightarrow> x \<in> H
      | ZeroOf x \<Rightarrow> x \<in> H
      | OneOf x \<Rightarrow> x \<in> H)"

definition new_handles :: "UInt option result \<Rightarrow> UInt set" where
  "new_handles r = {z. r = Inr (Some z) \<and> IS_FFE z}"

inductive session :: "ffdata \<Rightarrow> fflib \<Rightarrow> ffstate \<Rightarrow> UInt set \<Rightarrow> bool" for D L where
  start: "session D L (InitLibrary D) {}"
| call: "session D L st H \<Longrightarrow> call_ok H c \<Longrightarrow> run_call D L c st = Some (r, st') \<Longrightarrow> session D L st' (H \<union> new_handles r)"

text \<open>The functions of the library answer elements of large fields: objects in bags, never immediate ones.\<close>

definition large_results :: "fflib \<Rightarrow> bool" where
  "large_results L \<longleftrightarrow>
     (\<forall>x y z. Inr z \<in> {SUM_FFE_LARGE L x y, DIFF_FFE_LARGE L x y, PROD_FFE_LARGE L x y, QUO_FFE_LARGE L x y} \<longrightarrow> \<not> IS_FFE z)
     \<and> (\<forall>x y z. LOG_FFE_LARGE L x y = Inr (Some z) \<longrightarrow> \<not> IS_FFE z)
     \<and> (\<forall>q z. ZOp1 L q = Inr z \<longrightarrow> \<not> IS_FFE z) \<and> (\<forall>p d z. ZOp2 L p d = Inr z \<longrightarrow> \<not> IS_FFE z)"

lemma large_resultsD:
  assumes "large_results L"
  shows "SUM_FFE_LARGE L x y = Inr z \<Longrightarrow> \<not> IS_FFE z" "DIFF_FFE_LARGE L x y = Inr z \<Longrightarrow> \<not> IS_FFE z"
    "PROD_FFE_LARGE L x y = Inr z \<Longrightarrow> \<not> IS_FFE z" "QUO_FFE_LARGE L x y = Inr z \<Longrightarrow> \<not> IS_FFE z"
    "LOG_FFE_LARGE L x y = Inr (Some z) \<Longrightarrow> \<not> IS_FFE z" "ZOp1 L q = Inr z \<Longrightarrow> \<not> IS_FFE z"
    "ZOp2 L p d = Inr z \<Longrightarrow> \<not> IS_FFE z"
  using assms unfolding large_results_def by (metis insert_iff)+

lemma not_IS_FFE_INTOBJ [simp]: "\<not> IS_FFE (INTOBJ_INT i)"
proof -
  have "even ((4 * i + 1) div 2)" by presburger
  then have "\<not> bit (INTOBJ_INT i) 1" unfolding INTOBJ_INT_word bit_word_of_int_iff by (simp add: bit_iff_odd)
  then show ?thesis
    using bit_iff_and_push_bit_not_eq_0 [of "INTOBJ_INT i" 1] by (simp add: IS_FFE_def)
qed

lemma valid_not_ffe: "valid_intobj x \<Longrightarrow> \<not> IS_FFE x"
  by (metis not_IS_FFE_INTOBJ valid_intobj_def)

subsection \<open>Safety\<close>

definition safe_answer :: "ffdata \<Rightarrow> fflib \<Rightarrow> ffstate \<Rightarrow> (UInt option result \<times> ffstate) option \<Rightarrow> bool" where
  "safe_answer D L st a \<longleftrightarrow>
     (case a of None \<Rightarrow> False
      | Some (r, st') \<Rightarrow> tables_ok D L st' \<and> extends st st' \<and> (\<forall>z\<in>new_handles r. is_ffe D st' z))"

lemma safe_answerI:
  "a = Some (r, st') \<Longrightarrow> tables_ok D L st' \<Longrightarrow> extends st st' \<Longrightarrow> (\<And>z. r = Inr (Some z) \<Longrightarrow> IS_FFE z \<Longrightarrow> is_ffe D st' z) \<Longrightarrow>
    safe_answer D L st a"
  by (auto simp: safe_answer_def new_handles_def)

context finite_fields
begin

lemma is_ffe_IS_FFE: "is_ffe D st x \<Longrightarrow> IS_FFE x"
  using NEW_FFE_fields(3) by (metis is_ffe_def)

lemma result_in_ffe: "result_in D st x z \<Longrightarrow> is_ffe D st z"
  by (simp add: result_in_def)

lemma map_sum_object: "map_sum id Some r = Inr (Some z) \<longleftrightarrow> r = Inr z"
  by (cases r) auto

lemma kernel_or_large:
  assumes "\<exists>r st'. a = Some (r, st') \<and> tables_ok D L st' \<and> extends st st'
      \<and> (if C then \<exists>z. r = Inr z \<and> is_ffe D st' z \<and> R z else r = K)"
    and "\<And>z. K = Inr z \<Longrightarrow> \<not> IS_FFE z"
  shows "\<exists>r st'. a = Some (r, st') \<and> tables_ok D L st' \<and> extends st st' \<and> (\<forall>z. r = Inr z \<longrightarrow> IS_FFE z \<longrightarrow> is_ffe D st' z)"
  using assms by (cases C) auto

lemma binary_safe:
  assumes L: "large_results L" and st: "tables_ok D L st" and x: "is_ffe D st x" and y: "is_ffe D st y"
  shows "safe_answer D L st (run_call D L (Binary op x y) st)"
proof -
  note F = is_ffe_IS_FFE [OF x] is_ffe_IS_FFE [OF y]
  have quo: "\<exists>r st'. QuoFFEFFE D L x y st = Some (r, st') \<and> tables_ok D L st' \<and> extends st st'
      \<and> (\<forall>z. r = Inr z \<longrightarrow> IS_FFE z \<longrightarrow> is_ffe D st' z)"
    using QuoFFEFFE_correct [OF st x y] large_resultsD(4) [OF L, of x y]
    by (cases "in_common_field D x y"; cases "VAL_FFE D y = 0") auto
  have "\<exists>r st'. install_methods D L op x y st = Some (r, st') \<and> tables_ok D L st' \<and> extends st st'
    \<and> (\<forall>z. r = Inr z \<longrightarrow> IS_FFE z \<longrightarrow> is_ffe D st' z)"
    using kernel_or_large [OF SumFFEFFE_correct [OF st x y] large_resultsD(1) [OF L]]
      kernel_or_large [OF DiffFFEFFE_correct [OF st x y] large_resultsD(2) [OF L]]
      kernel_or_large [OF ProdFFEFFE_correct [OF st x y] large_resultsD(3) [OF L]] quo F
    by (cases op) (simp_all add: install_methods_def)
  then obtain r st' where r: "install_methods D L op x y st = Some (r, st')" "tables_ok D L st'" "extends st st'"
    "\<forall>z. r = Inr z \<longrightarrow> IS_FFE z \<longrightarrow> is_ffe D st' z" by blast
  then have "run_call D L (Binary op x y) st = Some (map_sum id Some r, st')" by (simp add: run_call_def)
  then show ?thesis using r(2-4) by (auto simp: map_sum_object intro: safe_answerI)
qed

lemma mixed_safe:
  assumes st: "tables_ok D L st" and x: "is_ffe D st x" and i: "valid_intobj i"
  shows "safe_answer D L st (run_call D L (Binary op x i) st)" "safe_answer D L st (run_call D L (Binary op i x) st)"
proof -
  note F = is_ffe_IS_FFE [OF x] valid_not_ffe [OF i]
  note M = mixed_sum [OF st x] mixed_diff [OF st x] mixed_prod [OF st x]
  have "\<exists>r. install_methods D L op x i st = Some (r, st) \<and> (\<forall>z. r = Inr z \<longrightarrow> is_ffe D st z)"
    using M(1,3,5) [of i] mixed_quo(1) [OF st x, of i] F
    by (cases op) (auto simp: install_methods_def result_in_def split: if_splits)
  then show "safe_answer D L st (run_call D L (Binary op x i) st)"
    using st by (auto simp: run_call_def map_sum_object intro!: safe_answerI)
  have "\<exists>r. install_methods D L op i x st = Some (r, st) \<and> (\<forall>z. r = Inr z \<longrightarrow> is_ffe D st z)"
    using M(2,4,6) [of i] mixed_quo(2) [OF st x, of i] F
    by (cases op) (auto simp: install_methods_def result_in_def split: if_splits)
  then show "safe_answer D L st (run_call D L (Binary op i x) st)"
    using st by (auto simp: run_call_def map_sum_object intro!: safe_answerI)
qed

lemma power_safe:
  assumes st: "tables_ok D L st" and x: "is_ffe D st x"
  shows "safe_answer D L st (run_call D L (Power x n) st)"
  using PowFFEInt_correct [OF st x, of n] st
  by (auto simp: run_call_def result_in_def intro!: safe_answerI split: if_splits)

lemma power_ffe_safe:
  "tables_ok D L st \<Longrightarrow> is_ffe D st x \<Longrightarrow> safe_answer D L st (run_call D L (PowerFFE x y) st)"
  by (auto simp: run_call_def PowFFEFFE_def intro!: safe_answerI)

lemma log_safe:
  assumes L: "large_results L" and st: "tables_ok D L st" and x: "is_ffe D st x" and y: "is_ffe D st y"
  shows "safe_answer D L st (run_call D L (Log x y) st)"
proof (cases "VAL_FFE D x = 0 \<or> VAL_FFE D y = 0")
  case True
  then show ?thesis
    using st is_ffe_IS_FFE [OF x] is_ffe_IS_FFE [OF y]
    by (auto simp: run_call_def FuncLOG_FFE_DEFAULT_def intro!: safe_answerI)
next
  case False
  then have v: "VAL_FFE D x \<noteq> 0" "VAL_FFE D y \<noteq> 0" by simp_all
  obtain r st' where r: "FuncLOG_FFE_DEFAULT D L x y st = Some (r, st')" "tables_ok D L st'" "extends st st'"
    "if in_common_field D x y
     then \<exists>g v w l. is_field D g \<and> represents D x g v \<and> represents D y g w \<and> r = Inr l
              \<and> is_log D g (ff_elt D g v) (ff_elt D g w) l
     else r = LOG_FFE_LARGE L x y"
    using FuncLOG_FFE_DEFAULT_correct [OF st x v(1) y v(2)] by blast
  have "\<not> IS_FFE z" if "r = Inr (Some z)" for z
    using r(4) that large_resultsD(5) [OF L, of x y z] valid_not_ffe [of z]
    by (cases "in_common_field D x y") (auto simp: is_log_def)
  then show ?thesis using r(1-3) by (auto simp: run_call_def intro: safe_answerI)
qed

lemma int_safe:
  assumes st: "tables_ok D L st" and x: "is_ffe D st x"
  shows "safe_answer D L st (run_call D L (ToInt x) st)"
  using FuncINT_FFE_DEFAULT_correct [OF st x]
  by (auto simp: run_call_def map_sum_object intro!: safe_answerI split: if_splits)

lemma unary_safe:
  assumes st: "tables_ok D L st" and x: "is_ffe D st x"
  shows "safe_answer D L st (run_call D L (AddInv x) st)" "safe_answer D L st (run_call D L (Inverse x) st)"
    "safe_answer D L st (run_call D L (ZeroOf x) st)" "safe_answer D L st (run_call D L (OneOf x) st)"
  using AInvFFE_correct [OF st x] InvFFE_correct [OF st x] ZeroFFE_correct [OF x] OneFFE_correct [OF x] st
  by (auto simp: run_call_def result_in_def intro!: safe_answerI split: if_splits)

lemma gen_safe:
  assumes L: "large_results L" and st: "tables_ok D L st" and q: "valid_intobj q"
  shows "safe_answer D L st (run_call D L (Gen q) st)"
proof -
  obtain r st' where r: "FuncZ D L (Some (T_INT q)) st = Some (r, st')" "tables_ok D L st'" "extends st st'"
    "if int (MAXSIZE_GF_INTERNAL D) < INT_INTOBJ q then r = ZOp1 L (T_INT q)
     else if \<exists>p d. prime_number p \<and> 0 < d \<and> INT_INTOBJ q = int (p ^ d)
     then \<exists>z. r = Inr z \<and> is_generator D st' z \<and> int (SIZE_FF D (FLD_FFE D z)) = INT_INTOBJ q
     else r = Inl prime_power_message"
    using FuncZ_correct [OF st q] by blast
  have "is_ffe D st' z" if "r = Inr z" "IS_FFE z" for z
    using r(4) that large_resultsD(6) [OF L] by (auto simp: is_generator_def split: if_splits)
  then show ?thesis using r(1-3) by (auto simp: run_call_def map_sum_object intro: safe_answerI)
qed

lemma gen_prime_safe:
  assumes L: "large_results L" and st: "tables_ok D L st"
  shows "safe_answer D L st (run_call D L (GenPrime p d) st)"
proof -
  obtain r st' where r: "FuncZ2 D L (Some (T_INT p)) (Some (T_INT d)) st = Some (r, st')" "tables_ok D L st'" "extends st st'"
    "r = ZOp2 L (Some (T_INT p)) (Some (T_INT d)) \<or> (\<exists>z. r = Inr z \<and> is_generator D st' z) \<or> (\<exists>e. r = Inl e)"
    using FuncZ2_correct [where wp = p and wd = d, OF st refl refl] by (metis (no_types))
  have "is_ffe D st' z" if "r = Inr z" "IS_FFE z" for z
    using r(4) that large_resultsD(7) [OF L] by (auto simp: is_generator_def)
  then show ?thesis using r(1-3) by (auto simp: run_call_def map_sum_object intro: safe_answerI)
qed

lemma run_call_safe:
  assumes L: "large_results L" and st: "tables_ok D L st" and H: "\<And>x. x \<in> H \<Longrightarrow> is_ffe D st x" and c: "call_ok H c"
  shows "safe_answer D L st (run_call D L c st)"
  using c binary_safe [OF L st H H] mixed_safe [OF st H] power_safe [OF st H] power_ffe_safe [OF st H] log_safe [OF L st H H]
    int_safe [OF st H] unary_safe [OF st H] gen_safe [OF L st] gen_prime_safe [OF L st]
  by (cases c) (auto simp: call_ok_def)

lemma session_invariant:
  assumes L: "large_results L"
  shows "session D L st H \<Longrightarrow> tables_ok D L st \<and> (\<forall>x\<in>H. is_ffe D st x)"
proof (induction rule: session.induct)
  case start
  then show ?case using tables_ok_init by blast
next
  case (call st H c r st')
  then have "safe_answer D L st (Some (r, st'))" using run_call_safe [OF L, of st H c] by fastforce
  then show ?case using call.IH is_ffe_extends by (auto simp: safe_answer_def)
qed

end

end
