(* ===== verification/FinFieldPrint.thy ===== *)
theory FinFieldPrint
  imports FinFieldGen
begin

text \<open>
  Printing of an element: what \<open>PrFFV\<close> prints, read back and evaluated, is the element.
\<close>

text \<open>The text \<open>0*Z(p)\<close>, \<open>Z(p)\<close>, \<open>Z(p^d)\<close> or one of the latter with an exponent, as the expression that the reader evaluates.\<close>

definition gap_int :: "nat \<Rightarrow> UInt" where
  "gap_int n = INTOBJ_INT (int n)"

definition eval_Z :: "ffdata \<Rightarrow> fflib \<Rightarrow> nat \<Rightarrow> ffstate \<Rightarrow> (UInt result \<times> ffstate) option" where
  "eval_Z D L q st = FuncZ D L (Some (T_INT (gap_int q))) st"

definition eval_power :: "ffdata \<Rightarrow> pr_call list \<Rightarrow> (UInt result \<times> ffstate) option \<Rightarrow> (UInt result \<times> ffstate) option" where
  "eval_power D calls z =
     (case calls of
        [] \<Rightarrow> z
      | [Pr f k] \<Rightarrow>
          (if f = ''^%>%d%<''
           then do {
             (z, st) \<leftarrow> z;
             case z of Inl e \<Rightarrow> Some (Inl e, st) | Inr z \<Rightarrow> map_option (\<lambda>r. (r, st)) (PowFFEInt D st z (INTOBJ_INT k))
           }
           else None)
      | _ \<Rightarrow> None)"

definition eval_printed :: "ffdata \<Rightarrow> fflib \<Rightarrow> pr_call list \<Rightarrow> ffstate \<Rightarrow> (UInt result \<times> ffstate) option" where
  "eval_printed D L calls st =
     (case calls of
        [Pr f p] \<Rightarrow>
          (if f = ''%>0*Z(%>%d%2<)''
           then do {
             (z, st) \<leftarrow> eval_Z D L (nat p) st;
             case z of Inl e \<Rightarrow> Some (Inl e, st) | Inr z \<Rightarrow> map_option (\<lambda>r. (r, st)) (ProdIntFFE D st (INTOBJ_INT 0) z)
           }
           else None)
      | Pr f p # Pr g d # rest \<Rightarrow>
          (if f \<noteq> ''%>Z(%>%d%<'' then None
           else if g = ''%<)'' then eval_power D rest (eval_Z D L (nat p) st)
           else if g = ''^%>%d%2<)'' then eval_power D rest (eval_Z D L (nat p ^ nat d) st)
           else None)
      | _ \<Rightarrow> None)"

context finite_fields
begin

lemma gap_int_size: "n \<le> 2 ^ 16 \<Longrightarrow> valid_intobj (gap_int n) \<and> INT_INTOBJ (gap_int n) = int n"
proof -
  assume "n \<le> 2 ^ 16"
  then have "int n \<le> 65536" by simp
  moreover have "(65536::int) < 2 ^ 60" "- (2 ^ 60) \<le> (0::int)" by simp_all
  ultimately have "int n \<in> small_range" unfolding small_range_iff by linarith
  then show ?thesis by (simp add: gap_int_def)
qed

lemma eval_Z_field:
  assumes st: "tables_ok D L st" and g: "is_field D g"
  shows "\<exists>z st'. eval_Z D L (SIZE_FF D g) st = Some (Inr z, st') \<and> tables_ok D L st' \<and> extends st st'
    \<and> is_ffe D st' z \<and> FLD_FFE D z = g \<and> VAL_FFE D z = (if SIZE_FF D g = 2 then 1 else 2)"
proof -
  let ?q = "SIZE_FF D g"
  have w: "valid_intobj (gap_int ?q)" "INT_INTOBJ (gap_int ?q) = int ?q" using gap_int_size [of ?q] fieldD(5) [OF g] by blast+
  obtain st' where s: "FiniteFieldBySize D L ?q st = Some (g, st')" "tables_ok D L st'" "extends st st'" "SUCC_FF st' g \<noteq> None"
    using FiniteFieldBySize_field [OF st g] by blast
  let ?v = "if ?q = 2 then 1 else 2"
  have v: "?v < ?q" using fieldD(6) [OF g] by auto
  have two: "gap_int ?q = INTOBJ_INT 2 \<longleftrightarrow> ?q = 2"
    using valid_eq_INTOBJ_INT [OF w(1), of 2] w(2) by (simp add: small_range_iff)
  have "g \<noteq> 0" using g by (simp add: is_field_def)
  then have "eval_Z D L ?q st = Some (Inr (NEW_FFE D g ?v), st')"
    using w(2) s(1) two fieldD(4,6) [OF g] by (simp add: eval_Z_def FuncZ_def)
  then show ?thesis using s(2-4) is_ffe_NEW [OF g v s(4)] NEW_FFE_fields [OF g v] by auto
qed

lemma size_prime:
  assumes "is_field D f" "0 < d" "d \<le> DEGR_FF D f"
  obtains g where "is_field D g" "CHAR_FF D g = CHAR_FF D f" "SIZE_FF D g = CHAR_FF D f ^ d"
proof -
  let ?p = "CHAR_FF D f"
  have p: "prime_number ?p" "2 \<le> ?p" using fieldD(1) [OF assms(1)] prime_number_ge_2 by blast+
  have "?p ^ d \<le> SIZE_FF D f" unfolding fieldD(3) [OF assms(1)] using p(2) assms(3) by (intro power_increasing) auto
  then have "?p ^ d \<le> MAXSIZE_GF_INTERNAL D" using fieldD(4) [OF assms(1)] by simp
  then obtain g where g: "is_field D g" "SIZE_FF D g = ?p ^ d" using data p(1) assms(2) unfolding field_data_def by blast
  have "CHAR_FF D g = ?p"
    using prime_power_inj(1) [of "CHAR_FF D g" ?p "DEGR_FF D g" d] fieldD(1-3) [OF g(1)] p(1) g(2) by simp
  then show thesis using that g by blast
qed

text \<open>The power of the generator that is printed is the value of the element in its minimal field.\<close>

lemma power_of_generator:
  assumes st: "tables_ok D L st" and z: "is_ffe D st z" "VAL_FFE D z = (if SIZE_FF D (FLD_FFE D z) = 2 then 1 else 2)"
    and e: "e < SIZE_FF D (FLD_FFE D z) - 1"
  shows "\<exists>y. PowFFEInt D st z (INTOBJ_INT (int e)) = Some (Inr y) \<and> is_ffe D st y \<and> FLD_FFE D y = FLD_FFE D z \<and> VAL_FFE D y = e + 1"
proof -
  let ?g = "FLD_FFE D z" and ?q = "SIZE_FF D (FLD_FFE D z)"
  have g: "is_field D ?g" "VAL_FFE D z < ?q" using ffeD [OF z(1)] by blast+
  have "e \<le> 2 ^ 16" using e fieldD(5) [OF g(1)] by linarith
  then have i: "INT_INTOBJ (INTOBJ_INT (int e)) = int e" using gap_int_size [of e] by (simp add: gap_int_def)
  obtain y where y: "PowFFEInt D st z (INTOBJ_INT (int e)) = Some (Inr y)" "result_in D st z y"
    "ffe_elt D y = ff_power D ?g (ffe_elt D z) e"
    using PowFFEInt_correct [OF st z(1), of "INTOBJ_INT (int e)"] i by auto
  have z0: "0 < VAL_FFE D z" using z(2) by simp
  have "((VAL_FFE D z - 1) * e) mod (?q - 1) = ((e + 1 - 1) * 1) mod (?q - 1)"
    using z(2) e by (cases "?q = 2") simp_all
  then have "ff_power D ?g (ff_elt D ?g (VAL_FFE D z)) e = ff_power D ?g (ff_elt D ?g (e + 1)) 1"
    by (subst ff_power_eq_iff [OF g(1) z0]) simp_all
  then have "ff_elt D ?g (VAL_FFE D y) = ff_elt D ?g (e + 1)"
    using y(2,3) ff_power_1 [OF g(1), of "e + 1"] by (simp add: ffe_elt_def result_in_def)
  moreover have "VAL_FFE D y < ?q" "e + 1 < ?q" using y(2) e by (auto simp: result_in_def is_ffe_def)
  ultimately have "VAL_FFE D y = e + 1" using ff_elt_inj [OF g(1)] by blast
  then show ?thesis using y(1,2) by (auto simp: result_in_def)
qed

lemma PrFFE_roundtrip:
  assumes st: "tables_ok D L st" and x: "is_ffe D st x"
  shows "\<exists>calls y st'. PrFFE D x = Some calls \<and> eval_printed D L calls st = Some (Inr y, st') \<and> is_ffe D st' y \<and> same_element D x y
    \<and> extends st st'"
proof (cases "VAL_FFE D x = 0")
  case True
  let ?f = "FLD_FFE D x"
  obtain g where g: "is_field D g" "CHAR_FF D g = CHAR_FF D ?f" "SIZE_FF D g = CHAR_FF D ?f ^ 1"
    using size_prime [OF ffeD(1) [OF x], of 1] ffeD(4) [OF x] by auto
  obtain z st' where z: "eval_Z D L (SIZE_FF D g) st = Some (Inr z, st')" "tables_ok D L st'" "is_ffe D st' z" "FLD_FFE D z = g" "extends st st'"
    using eval_Z_field [OF st g(1)] by blast
  obtain y where y: "ProdIntFFE D st' (INTOBJ_INT 0) z = Some (Inr y)" "result_in D st' z y"
    "ffe_elt D y = ff_mul D (FLD_FFE D z) (residue D z (INTOBJ_INT 0)) (ffe_elt D z)"
    using mixed_prod(2) [OF z(2,3)] by blast
  have "residue D z (INTOBJ_INT 0) = 0" by (simp add: residue_def small_range_iff)
  then have "ffe_elt D y = 0" using y(3) residues.gf_mul_0 [OF residues_field [OF g(1)]] z(4) by (simp add: ff_mul_def)
  then have "VAL_FFE D y = 0"
    using ff_elt_inj [OF g(1), of "VAL_FFE D y" 0] y(2) z(4) fieldD(6) [OF g(1)] by (auto simp: ffe_elt_def result_in_def is_ffe_def)
  then have "same_element D x y" using True y(2) z(4) g(2) by (simp add: same_element_def result_in_def)
  moreover have "eval_printed D L [Pr ''%>0*Z(%>%d%2<)'' (int (CHAR_FF D ?f))] st = Some (Inr y, st')"
    using z(1) y(1) g(3) by (simp add: eval_printed_def)
  ultimately show ?thesis using True y(2) z(5) by (auto simp: PrFFE_def PrFFV_def Let_def result_in_def)
next
  case False
  let ?f = "FLD_FFE D x" and ?v = "VAL_FFE D x"
  let ?p = "CHAR_FF D ?f" and ?q = "SIZE_FF D ?f"
  let ?d = "min_degree ?p ?q ?v" and ?e = "min_exponent ?p ?q ?v"
  note md = min_degree [OF ffeD(3-5) [OF x], of ?v]
  have loop: "minimal_loop ?p ?q ?v ?p 1 = Some (?p ^ ?d, ?d)" by (rule minimal_loop_correct [OF ffeD(3-5) [OF x]])
  have dle: "?d \<le> DEGR_FF D ?f" using md(3) ffeD(4) [OF x] by (simp add: dvd_imp_le)
  obtain g where g: "is_field D g" "CHAR_FF D g = ?p" "SIZE_FF D g = ?p ^ ?d" using size_prime [OF ffeD(1) [OF x] md(1) dle] .
  have frac: "?e * (?q - 1) = (?v - 1) * (?p ^ ?d - 1)" by (rule min_exponent [OF ffeD(3-5) [OF x]])
  have e: "?e < SIZE_FF D g - 1"
  proof -
    have "?v - 1 < ?q - 1" using ffeD(2) [OF x] False by linarith
    moreover have "0 < ?p ^ ?d - 1" using g fieldD(6) [OF g(1)] by simp
    ultimately have "?e * (?q - 1) < (?q - 1) * (?p ^ ?d - 1)" unfolding frac by (rule mult_less_mono1)
    then have "?e < ?p ^ ?d - 1" by (simp only: mult.commute [of ?e] mult_less_cancel1)
    then show ?thesis using g(3) by simp
  qed
  obtain z st' where z: "eval_Z D L (SIZE_FF D g) st = Some (Inr z, st')" "tables_ok D L st'" "is_ffe D st' z" "FLD_FFE D z = g"
    "VAL_FFE D z = (if SIZE_FF D g = 2 then 1 else 2)" "extends st st'"
    using eval_Z_field [OF st g(1)] by blast
  obtain y where y: "PowFFEInt D st' z (INTOBJ_INT (int ?e)) = Some (Inr y)" "is_ffe D st' y" "FLD_FFE D y = g" "VAL_FFE D y = ?e + 1"
    using power_of_generator [OF z(2,3), of ?e] z(4,5) e by auto
  have same: "same_element D x w" if "FLD_FFE D w = g" "VAL_FFE D w = ?e + 1" for w
    using that False g(2,3) frac by (simp add: same_element_def same_fraction_def)
  have "?e + 1 < 2 ^ 16" using e fieldD(5) [OF g(1)] by linarith
  then have u: "u16 (?e + 1) = ?e + 1" by (simp only: u16_def mod_less)
  have calls: "PrFFE D x = Some ([Pr ''%>Z(%>%d%<'' (int ?p)] @ (if ?d = 1 then [Pr ''%<)'' 0] else [Pr ''^%>%d%2<)'' (int ?d)])
      @ (if ?e + 1 \<noteq> 2 then [Pr ''^%>%d%<'' (int ?e)] else []))"
    using False loop u by (simp add: PrFFE_def PrFFV_def Let_def min_exponent_def [symmetric] del: One_nat_def)
  have ev: "eval_printed D L ([Pr ''%>Z(%>%d%<'' (int ?p)] @ (if ?d = 1 then [Pr ''%<)'' 0] else [Pr ''^%>%d%2<)'' (int ?d)]) @ rest) st
      = eval_power D rest (Some (Inr z, st'))" for rest
    using z(1) g(3) by (cases "?d = 1") (simp_all add: eval_printed_def)
  show ?thesis
  proof (cases "?e + 1 = 2")
    case True
    have "SIZE_FF D g \<noteq> 2" using e True by auto
    then have "same_element D x z" using z(4,5) True by (intro same) simp_all
    moreover have "eval_power D [] (Some (Inr z, st')) = Some (Inr z, st')" by (simp add: eval_power_def)
    moreover have "eval_printed D L ([Pr ''%>Z(%>%d%<'' (int ?p)] @ (if ?d = 1 then [Pr ''%<)'' 0] else [Pr ''^%>%d%2<)'' (int ?d)])
      @ (if ?e + 1 \<noteq> 2 then [Pr ''^%>%d%<'' (int ?e)] else [])) st = Some (Inr z, st')"
      unfolding ev if_not_P [OF True [THEN not_not [THEN iffD2]]] using \<open>eval_power D [] _ = _\<close> .
    ultimately show ?thesis using calls z(3,6) by blast
  next
    case no: False
    have "eval_power D [Pr ''^%>%d%<'' (int ?e)] (Some (Inr z, st')) = Some (Inr y, st')" using y(1) by (simp add: eval_power_def)
    then have "eval_printed D L ([Pr ''%>Z(%>%d%<'' (int ?p)] @ (if ?d = 1 then [Pr ''%<)'' 0] else [Pr ''^%>%d%2<)'' (int ?d)])
      @ (if ?e + 1 \<noteq> 2 then [Pr ''^%>%d%<'' (int ?e)] else [])) st = Some (Inr y, st')"
      unfolding ev if_P [OF no] .
    then show ?thesis using calls y(2) same [OF y(3,4)] z(6) by blast
  qed
qed

end

end
