(* ===== verification/FinFieldConway.thy ===== *)
theory FinFieldConway
  imports FinFieldState
begin

text \<open>
  The polynomials of \<open>finfield_conway.h\<close> are primitive: an executable check, on lists of digits, that the powers of
  \<open>x\<close> modulo the polynomial have the full order, and its evaluation on the whole table.
\<close>

subsection \<open>Residues as lists of digits\<close>

fun addmul :: "int \<Rightarrow> int \<Rightarrow> int list \<Rightarrow> int list \<Rightarrow> int list" where
  "addmul p c (x # xs) (y # ys) = ((x + c * y) mod p) # addmul p c xs ys"
| "addmul p c _ _ = []"

definition times_x :: "int \<Rightarrow> int list \<Rightarrow> int list \<Rightarrow> int list" where
  "times_x p b v = addmul p (last v) (0 # v) b"

fun times :: "int \<Rightarrow> int list \<Rightarrow> int list \<Rightarrow> int list \<Rightarrow> int list" where
  "times p b [] g = replicate (length b) 0"
| "times p b (c # e) g = (let h = times_x p b (times p b e g) in if c = 0 then h else addmul p c h g)"

definition square_step :: "int \<Rightarrow> int list \<Rightarrow> bool \<Rightarrow> int list \<Rightarrow> int list" where
  "square_step p b o1 v = (let s = times p b v v in if o1 then times_x p b s else s)"

function bits :: "int \<Rightarrow> bool list \<Rightarrow> bool list" where
  "bits n acc = (if n \<le> 0 then acc else bits (n div 2) (odd n # acc))"
  by pat_completeness auto
termination by (relation "measure (\<lambda>(n, acc). nat n)") auto

declare bits.simps [simp del]

definition x_power :: "int \<Rightarrow> int list \<Rightarrow> int \<Rightarrow> int list" where
  "x_power p b n = fold (square_step p b) (bits n []) (1 # replicate (length b - 1) 0)"

function trial_factors :: "int \<Rightarrow> int \<Rightarrow> int list" where
  "trial_factors n m =
     (if m < 2 \<or> n < m * m then [n]
      else if m dvd n then m # trial_factors (n div m) m
      else trial_factors n (m + 1))"
  by pat_completeness auto
termination
proof (relation "measures [\<lambda>(n, m). nat n, \<lambda>(n, m). nat (n - m)]", goal_cases)
  case (2 n m)
  then have "0 < m * m" "m * m \<le> n" "1 < m" by auto
  then have "n div m < n" by (intro int_div_less_self) linarith+
  then show ?case using \<open>0 < m * m\<close> \<open>m * m \<le> n\<close> by simp
next
  case (3 n m)
  then have "m * 2 \<le> m * m" "0 < m" "m * m \<le> n" by (auto intro: mult_left_mono)
  then have "m < n" by linarith
  then show ?case by simp
qed simp

declare trial_factors.simps [simp del]

fun neg_digits :: "int \<Rightarrow> int \<Rightarrow> nat \<Rightarrow> int list" where
  "neg_digits p a 0 = []"
| "neg_digits p a (Suc d) = ((- a) mod p) # neg_digits p (a div p) d"

definition poly_check :: "int \<Rightarrow> nat \<Rightarrow> int \<Rightarrow> bool" where
  "poly_check p d a =
     (let b = neg_digits p a d; one = 1 # replicate (d - 1) 0; n = p ^ d - 1
      in x_power p b n = one \<and> list_all (\<lambda>r. x_power p b (n div r) \<noteq> one) (remdups (trial_factors n 2)))"

lemma length_addmul [simp]: "length (addmul p c xs ys) = min (length xs) (length ys)"
  by (induction p c xs ys rule: addmul.induct) auto

lemma addmul_nth: "i < length xs \<Longrightarrow> i < length ys \<Longrightarrow> addmul p c xs ys ! i = (xs ! i + c * ys ! i) mod p"
proof (induction p c xs ys arbitrary: i rule: addmul.induct)
  case (1 p c x xs y ys)
  then show ?case by (cases i) auto
qed auto

context residues
begin

definition digs :: "nat \<Rightarrow> int list" where
  "digs e = map (dig p e) [0..<d]"

definition neg_a :: "int list" where
  "neg_a = map (\<lambda>i. (- dig p a i) mod int p) [0..<d]"

lemma length_digs [simp]: "length (digs e) = d" "length neg_a = d"
  by (simp_all add: digs_def neg_a_def)

lemma digs_nth: "i < d \<Longrightarrow> digs e ! i = dig p e i"
  by (simp add: digs_def)

lemma last_digs: "last (digs e) = dig p e (d - 1)"
  using p_pos(3) by (subst last_conv_nth) (auto simp: digs_nth simp del: length_greater_0_conv simp flip: length_greater_0_conv)

lemma digs_eqI: "length v = d \<Longrightarrow> (\<And>i. i < d \<Longrightarrow> v ! i = w i mod int p) \<Longrightarrow> v = digs (code p d w)"
  by (rule nth_equalityI) (simp_all add: digs_nth)

lemma digs_inj: "e < p ^ d \<Longrightarrow> f < p ^ d \<Longrightarrow> digs e = digs f \<longleftrightarrow> e = f"
  by (metis digs_nth dig_eqI)

lemma digs_one: "digs 1 = 1 # replicate (d - 1) 0"
proof (rule nth_equalityI)
  fix i assume "i < length (digs 1)"
  then show "digs 1 ! i = (1 # replicate (d - 1) 0) ! i"
    using p by (cases i) (auto simp: digs_nth dig_def div_mult2_eq)
qed (use p_pos in simp)

lemma digs_zero: "digs 0 = replicate d 0"
  by (rule nth_equalityI) (simp_all add: digs_nth)

lemma times_x_digs: "times_x (int p) neg_a (digs e) = digs (gf_x p d a e)"
  unfolding gf_x_def
proof (rule digs_eqI)
  fix i assume i: "i < d"
  have "times_x (int p) neg_a (digs e) ! i = ((0 # digs e) ! i + dig p e (d - 1) * (- dig p a i mod int p)) mod int p"
    unfolding times_x_def last_digs using i by (subst addmul_nth) (simp_all add: neg_a_def)
  also have "\<dots> = shift p d a (dig p e) i mod int p"
  proof (cases i)
    case (Suc k)
    have "(x + y * (- z mod int p)) mod int p = (x - y * z) mod int p" for x y z
      by (subst mod_add_right_eq [symmetric], subst mod_mult_right_eq, subst mod_add_right_eq) simp
    then show ?thesis using i Suc by (simp add: shift_def digs_nth)
  qed (simp add: shift_def mod_mult_right_eq)
  finally show "times_x (int p) neg_a (digs e) ! i = shift p d a (dig p e) i mod int p" .
qed (simp add: times_x_def)

lemma addmul_digs: "addmul (int p) c (digs (code p d v)) (digs f) = digs (code p d (\<lambda>k. c * dig p f k + v k))"
  by (rule digs_eqI) (simp_all add: addmul_nth digs_nth mod_simps add.commute)

text \<open>Horner's rule for the product.\<close>

lemma times_digs_from:
  "n \<le> d \<Longrightarrow> times (int p) neg_a (map (dig p e) [n..<d]) (digs f)
    = digs (code p d (\<lambda>k. \<Sum>i<d - n. dig p e (n + i) * (S ^^ i) (dig p f) k))"
proof (induction n rule: inc_induct)
  case base
  have "code p d (\<lambda>k. 0) = 0" by (rule code_eqI) simp_all
  then show ?case by (simp add: digs_zero)
next
  case (step n)
  let ?H = "\<lambda>k. \<Sum>i<d - Suc n. dig p e (Suc n + i) * (S ^^ i) (dig p f) k"
  have up: "[n..<d] = n # [Suc n..<d]" using step by (simp add: upt_conv_Cons)
  have x: "times_x (int p) neg_a (digs (code p d ?H)) = digs (code p d (S ?H))"
    by (simp only: times_x_digs gf_x_code)
  have split: "(\<Sum>i<d - n. dig p e (n + i) * (S ^^ i) (dig p f) k) = dig p e n * dig p f k + S ?H k" for k
  proof -
    have "d - n = Suc (d - Suc n)" using step by simp
    then have "(\<Sum>i<d - n. dig p e (n + i) * (S ^^ i) (dig p f) k)
        = dig p e n * dig p f k + (\<Sum>i<d - Suc n. dig p e (n + Suc i) * (S ^^ Suc i) (dig p f) k)"
      by (simp only: sum.lessThan_Suc_shift) simp
    then show ?thesis by (simp add: shift_lin)
  qed
  show ?case
  proof (cases "dig p e n = 0")
    case True
    then show ?thesis using step.IH x by (simp add: up split)
  next
    case False
    then show ?thesis using step.IH x by (simp add: up split addmul_digs)
  qed
qed

lemma times_digs: "times (int p) neg_a (digs e) (digs f) = digs (gf_mul p d a e f)"
  using times_digs_from [of 0 e f] by (simp add: digs_def gf_mul_def)

lemma square_step_digs:
  "square_step (int p) neg_a o1 (digs ((gf_x p d a ^^ n) 1)) = digs ((gf_x p d a ^^ (2 * n + of_bool o1)) 1)"
proof -
  have lt: "(gf_x p d a ^^ n) 1 < p ^ d" by (rule gf_x_pow_less) simp
  have "times (int p) neg_a (digs ((gf_x p d a ^^ n) 1)) (digs ((gf_x p d a ^^ n) 1)) = digs ((gf_x p d a ^^ (2 * n)) 1)"
    using gf_mul_pow [OF lt, of n] by (simp add: times_digs mult_2 funpow_add)
  then show ?thesis by (cases o1) (simp_all add: square_step_def Let_def times_x_digs)
qed

lemma x_power_digs: "x_power (int p) neg_a (int n) = digs ((gf_x p d a ^^ n) 1)"
proof -
  have "fold (square_step (int p) neg_a) (bits (int n) acc) (digs 1) = fold (square_step (int p) neg_a) acc (digs ((gf_x p d a ^^ n) 1))" for acc
  proof (induction n arbitrary: acc rule: less_induct)
    case (less n)
    show ?case
    proof (cases "n = 0")
      case False
      have "2 * (n div 2) + of_bool (odd n) = n" by simp
      moreover have "bits (int n) acc = bits (int (n div 2)) (odd n # acc)"
        using False by (subst bits.simps) (simp add: zdiv_int)
      ultimately show ?thesis
        using False less.IH [of "n div 2" "odd n # acc"] square_step_digs [of "odd n" "n div 2"] by simp
    qed (subst bits.simps, simp)
  qed
  from this [of "[]"] show ?thesis by (simp only: x_power_def length_digs digs_one [symmetric] fold.simps id_apply)
qed

lemma neg_digits: "neg_digits (int p) (int a) d = neg_a"
proof (rule nth_equalityI)
  have len: "length (neg_digits x y n) = n" for x y n by (induction n arbitrary: y) auto
  then show "length (neg_digits (int p) (int a) d) = length neg_a" by simp
  have "neg_digits (int p) (int b) n ! i = (- dig p b i) mod int p" if "i < n" for b n i
    using that
  proof (induction n arbitrary: b i)
    case (Suc n)
    have "int b div int p = int (b div p)" by (simp add: zdiv_int)
    moreover have "(- int b) mod int p = (- int (b mod p)) mod int p" by (simp add: zmod_int mod_minus_eq)
    ultimately show ?case using Suc by (cases i) (simp_all add: dig_def div_mult2_eq)
  qed simp
  then show "neg_digits (int p) (int a) d ! i = neg_a ! i" if "i < length (neg_digits (int p) (int a) d)" for i
    using that by (simp add: len neg_a_def)
qed

end

subsection \<open>The check\<close>

lemma trial_factors_complete:
  "2 \<le> m \<Longrightarrow> (\<And>r. prime_number r \<Longrightarrow> r dvd n \<Longrightarrow> m \<le> r) \<Longrightarrow> prime_number s \<Longrightarrow> s dvd n \<Longrightarrow> 0 < n \<Longrightarrow> int s \<in> set (trial_factors (int n) (int m))"
proof (induction "int n" "int m" arbitrary: n m rule: trial_factors.induct)
  case (1 n m)
  have mm: "int n < int m * int m \<longleftrightarrow> n < m * m" by (simp only: of_nat_mult [symmetric] of_nat_less_iff)
  have s: "2 \<le> s" "m \<le> s" using 1 prime_number_ge_2 by auto
  obtain t where t: "n = s * t" using "1.prems"(4) by blast
  show ?case
  proof (cases "n < m * m")
    case True
    have "t < 2"
    proof (rule ccontr)
      assume "\<not> t < 2"
      then obtain r where r: "prime_number r" "r dvd t" using prime_factor [of t] by auto
      then have "m \<le> r" using "1.prems"(2) t by simp
      moreover have "r \<le> t" using r(2) t "1.prems"(5) by (simp add: dvd_imp_le)
      ultimately have "m * m \<le> s * t" using s(2) by (intro mult_le_mono) simp_all
      then show False using True t by simp
    qed
    then have "t = 1" using t "1.prems"(5) by (cases t) auto
    then show ?thesis using True t mm by (subst trial_factors.simps) simp
  next
    case False
    then have go: "\<not> (int m < 2 \<or> int n < int m * int m)" using "1.prems"(1) mm by simp
    show ?thesis
    proof (cases "m dvd n")
      case True
      then obtain k where k: "n = m * k" by blast
      then have nk: "n div m = k" "0 < k" using "1.prems"(1,5) by auto
      have low: "m \<le> r" if "prime_number r" "r dvd n div m" for r
        using "1.prems"(2) [OF that(1)] that(2) k nk by simp
      have "s = m \<or> s dvd n div m"
      proof -
        have "s dvd m \<or> s dvd k" using prime_number_dvd_mult [OF "1.prems"(3), of m k] "1.prems"(4) k by simp
        then show ?thesis using s nk(1) "1.prems"(1) by (auto dest: dvd_imp_le)
      qed
      then show ?thesis
      proof
        assume "s dvd n div m"
        then have "int s \<in> set (trial_factors (int (n div m)) (int m))"
          using True "1.prems"(1,3) nk by (intro "1.hyps"(1) [OF go]) (auto simp: zdiv_int intro: low)
        then show ?thesis using go True by (subst trial_factors.simps) (simp add: zdiv_int)
      qed (use go True in \<open>subst trial_factors.simps, simp\<close>)
    next
      case no: False
      have low: "m + 1 \<le> r" if "prime_number r" "r dvd n" for r
        using "1.prems"(2) [OF that] that(2) no by (cases "r = m") auto
      show ?thesis
      proof -
        have "int s \<in> set (trial_factors (int n) (int (m + 1)))"
          using no "1.prems"(1,3,4,5) by (intro "1.hyps"(2) [OF go]) (auto intro: low [simplified])
        then show ?thesis using go no by (subst trial_factors.simps) (simp add: add.commute)
      qed
    qed
  qed
qed

lemma trial_factors_2: "prime_number s \<Longrightarrow> s dvd n \<Longrightarrow> 0 < n \<Longrightarrow> int s \<in> set (trial_factors (int n) 2)"
  using trial_factors_complete [of 2 n s] prime_number_ge_2 by (metis of_nat_numeral order_refl)

text \<open>Full order from the powers at the quotients by the prime divisors.\<close>

lemma full_order:
  fixes T :: "nat \<Rightarrow> nat"
  assumes n: "0 < n" "(T ^^ n) x = x" and r: "\<And>r. prime_number r \<Longrightarrow> r dvd n \<Longrightarrow> (T ^^ (n div r)) x \<noteq> x"
    and k: "0 < k" "k < n"
  shows "(T ^^ k) x \<noteq> x"
proof
  assume "(T ^^ k) x = x"
  define m where "m = (LEAST m. 0 < m \<and> (T ^^ m) x = x)"
  have m: "0 < m \<and> (T ^^ m) x = x"
    unfolding m_def by (rule LeastI [of _ k]) (use \<open>(T ^^ k) x = x\<close> k in blast)
  have least: "m \<le> j" if "0 < j" "(T ^^ j) x = x" for j
    unfolding m_def by (rule Least_le) (use that in blast)
  have mult: "(T ^^ (m * j)) x = x" for j
    by (induction j) (use m in \<open>simp_all add: funpow_add\<close>)
  have "(T ^^ (n mod m)) ((T ^^ (m * (n div m))) x) = x"
    using n(2) by (metis mod_mult_div_eq add.commute funpow_add o_apply)
  then have "(T ^^ (n mod m)) x = x" by (simp only: mult)
  moreover have "n mod m < m" using m by simp
  ultimately have "n mod m = 0" using least [of "n mod m"] by linarith
  then obtain t where t: "n = m * t" by auto
  have "m < n" using least [OF k(1) \<open>(T ^^ k) x = x\<close>] k(2) by simp
  then have "2 \<le> t" using t n(1) by (cases t; cases "t - 1") auto
  then obtain s where s: "prime_number s" "s dvd t" using prime_factor by blast
  then obtain u where u: "t = s * u" by blast
  have "n div s = m * u" using t u prime_number_ge_2 [OF s(1)] by simp
  then have "(T ^^ (n div s)) x = x" by (simp only: mult)
  moreover have "s dvd n" using s(2) t by simp
  ultimately show False using r [OF s(1)] by blast
qed

lemma poly_check_sound:
  assumes p: "2 \<le> p" "0 < d" and a: "poly_check (int p) d (int a)"
  shows "primitive_poly p d a"
proof -
  have R: "residues p d" using p by unfold_locales
  let ?T = "gf_x p d a" and ?n = "p ^ d - 1"
  have lt: "(?T ^^ k) 1 < p ^ d" for k by (rule residues.gf_x_pow_less [OF R]) (use residues.p_pow_pos [OF R] in simp)
  have n: "0 < ?n" "int p ^ d - 1 = int ?n" using residues.p_pow_pos [OF R] by (simp_all add: of_nat_diff Suc_le_eq)
  have eq: "x_power (int p) (neg_digits (int p) (int a) d) (int k) = 1 # replicate (d - 1) 0 \<longleftrightarrow> (?T ^^ k) 1 = 1" for k
    unfolding residues.neg_digits [OF R] residues.x_power_digs [OF R] residues.digs_one [OF R, symmetric]
    using residues.digs_inj [OF R lt, of 1 k] residues.p_pow_pos(2) [OF R] by simp
  have full: "(?T ^^ ?n) 1 = 1"
    using a by (simp only: poly_check_def Let_def n(2) eq)
  have part: "(?T ^^ (?n div r)) 1 \<noteq> 1" if "prime_number r" "r dvd ?n" for r
  proof -
    have "int r \<in> set (trial_factors (int ?n) 2)" by (rule trial_factors_2 [OF that n(1)])
    then have "x_power (int p) (neg_digits (int p) (int a) d) (int ?n div int r) \<noteq> 1 # replicate (d - 1) 0"
      using a by (simp only: poly_check_def Let_def n(2) list_all_iff set_remdups) blast
    then show ?thesis by (simp only: zdiv_int [symmetric] eq not_False_eq_True)
  qed
  have "(?T ^^ k) 1 \<noteq> 1" if "k \<in> {1..<?n}" for k
    using full_order [OF n(1) full part, of k] that by auto
  then show ?thesis using full by (simp add: primitive_poly_def)
qed

subsection \<open>The table\<close>

fun int_pols :: "int list \<Rightarrow> int \<Rightarrow> int option" where
  "int_pols (x # a # xs) q = (if x \<noteq> q then int_pols xs q else Some a)"
| "int_pols _ q = None"

lemma int_pols: "int_pols (map int xs) (int q) = map_option int (pols_loop xs q)"
  by (induction xs q rule: pols_loop.induct) auto

definition table_check :: "int list \<Rightarrow> int \<Rightarrow> bool" where
  "table_check t p \<longleftrightarrow>
     list_all (\<lambda>d. p ^ d \<le> 65536 \<longrightarrow> (case int_pols t (p ^ d) of Some a \<Rightarrow> 0 \<le> a \<and> a < p ^ d \<and> poly_check p d a | None \<Rightarrow> False)) [2..<17]"

definition small_primes :: "int list" where
  "small_primes = filter (\<lambda>p. \<not> list_ex (\<lambda>m. m < p \<and> p mod m = 0) [2, 3, 5, 7, 11, 13]) [2..256]"

lemma small_primes: "prime_number p \<Longrightarrow> p \<le> 256 \<Longrightarrow> int p \<in> set small_primes"
proof -
  assume p: "prime_number p" "p \<le> 256"
  have "\<not> list_ex (\<lambda>m. m < int p \<and> int p mod m = 0) [2, 3, 5, 7, 11, 13]"
  proof
    assume "list_ex (\<lambda>m. m < int p \<and> int p mod m = 0) [2, 3, 5, 7, 11, 13]"
    then obtain m where m: "m \<in> set [2, 3, 5, 7, 11, 13]" "m < int p" "int p mod m = 0"
      unfolding list_ex_iff by (elim bexE conjE)
    then have "1 < m" by auto
    then have "int (nat m) dvd int p" using m(3) by auto
    then have "nat m dvd p" by (simp only: int_dvd_int_iff)
    then show False using prime_number_dvd [OF p(1), of "nat m"] m(2) \<open>1 < m\<close> by auto
  qed
  moreover have "int p \<in> {2..256}" using p prime_number_ge_2 [OF p(1)] by simp
  ultimately show ?thesis unfolding small_primes_def set_filter set_upto mem_Collect_eq by (rule conjI [rotated])
qed

definition pols_table :: "int list" where
  "pols_table =
   [4, 3, 8, 3, 16, 3, 32, 5, 64, 27, 128, 3, 256, 29, 512, 17, 1024, 111, 2048, 5, 4096, 235, 8192, 27, 16384, 169,
    32768, 53, 65536, 45, 9, 8, 27, 7, 81, 56, 243, 7, 729, 179, 2187, 19, 6561, 593, 19683, 76, 59049, 2111, 25, 22,
    125, 18, 625, 122, 3125, 23, 15625, 1152, 49, 45, 343, 298, 2401, 276, 16807, 11, 121, 79, 1331, 31, 14641, 1080,
    169, 158, 2197, 37, 28561, 665, 289, 275, 4913, 31, 361, 344, 6859, 93, 529, 488, 12167, 64, 841, 698, 24389, 85,
    961, 902, 29791, 59, 1369, 1223, 50653, 257, 1681, 1564, 1849, 1809, 2209, 2120, 2809, 2599, 3481, 3424,
    3721, 3662, 4489, 4223, 5041, 4906, 5329, 5115, 6241, 6165, 6889, 6808, 7921, 7301, 9409, 9317, 10201, 9799,
    10609, 10511, 11449, 11023, 11881, 11778, 12769, 11416, 16129, 16005, 17161, 16639, 18769, 17950, 19321, 19184,
    22201, 21607, 22801, 22505, 24649, 23869, 26569, 25919, 27889, 27727, 29929, 29239, 32041, 30790, 32761, 32039,
    36481, 36309, 37249, 37061, 38809, 37826, 39601, 38410, 44521, 43679, 49729, 49286, 51529, 49942, 52441, 52218,
    54289, 54059, 57121, 56650, 58081, 57365, 63001, 60748]"

lemma pols_table: "map int PolsFF = pols_table"
  by (simp add: PolsFF_def pols_table_def)

text \<open>The evaluation, split by the characteristic.\<close>

lemma table_2: "table_check pols_table 2"
  by code_simp

lemma table_3: "table_check pols_table 3"
  by code_simp

lemma table_5: "list_all (table_check pols_table) [5, 7, 11, 13]"
  by code_simp

lemma table_17: "list_all (table_check pols_table) [17, 19, 23, 29, 31, 37]"
  by code_simp

lemma table_41: "list_all (table_check pols_table) [41, 43, 47, 53, 59, 61, 67, 71, 73, 79, 83, 89]"
  by code_simp

lemma table_97: "list_all (table_check pols_table) [97, 101, 103, 107, 109, 113, 127, 131, 137, 139, 149, 151]"
  by code_simp

lemma table_157: "list_all (table_check pols_table) [157, 163, 167, 173, 179, 181, 191, 193, 197, 199, 211]"
  by code_simp

lemma table_223: "list_all (table_check pols_table) [223, 227, 229, 233, 239, 241, 251]"
  by code_simp

lemma small_primes_eval:
  "small_primes = [2, 3] @ [5, 7, 11, 13] @ [17, 19, 23, 29, 31, 37] @ [41, 43, 47, 53, 59, 61, 67, 71, 73, 79, 83, 89]
    @ [97, 101, 103, 107, 109, 113, 127, 131, 137, 139, 149, 151]
    @ [157, 163, 167, 173, 179, 181, 191, 193, 197, 199, 211] @ [223, 227, 229, 233, 239, 241, 251]"
  by code_simp

lemma table_all: "list_all (table_check pols_table) small_primes"
  unfolding small_primes_eval list_all_append
  using table_2 table_3 table_5 table_17 table_41 table_97 table_157 table_223 by simp

subsection \<open>The fields of the kernel\<close>

lemma conway_polynomial:
  assumes p: "prime_number p" and d: "2 \<le> d" "p ^ d \<le> 2 ^ 16"
  shows "\<exists>a. pols_loop PolsFF (p ^ d) = Some a \<and> a < p ^ d \<and> primitive_poly p d a"
proof -
  have p2: "2 \<le> p" using p by (rule prime_number_ge_2)
  have "p ^ 2 \<le> p ^ d" using p2 d(1) by (intro power_increasing) auto
  then have "p ^ 2 \<le> 256 ^ 2" using d(2) by simp
  then have "p \<le> 256" by (rule power2_le_imp_le) simp
  then have "table_check pols_table (int p)"
    using small_primes [OF p] table_all by (simp add: list_all_iff)
  moreover have "(2::nat) ^ d \<le> 2 ^ 16" using power_mono [OF p2, of d] d(2) by linarith
  then have "d \<le> 16" by (rule power_le_imp_le_exp [rotated]) simp
  then have "d \<in> set [2..<17]" using d(1) unfolding set_upt atLeastLessThan_iff by linarith
  moreover have "int p ^ d \<le> 65536" using d(2) by (simp flip: of_nat_power)
  ultimately have "case int_pols pols_table (int p ^ d) of Some a \<Rightarrow> 0 \<le> a \<and> a < int p ^ d \<and> poly_check (int p) d a | None \<Rightarrow> False"
    by (simp only: table_check_def list_all_iff)
  then obtain a where a: "pols_loop PolsFF (p ^ d) = Some a" "int a < int p ^ d" "poly_check (int p) d (int a)"
    using int_pols [of PolsFF "p ^ d"] by (cases "pols_loop PolsFF (p ^ d)") (simp_all add: pols_table)
  then have "a < p ^ d" by (simp flip: of_nat_power)
  then show ?thesis using a poly_check_sound [OF p2 _ a(3)] d(1) by simp
qed

lemma polys_ok_field_data:
  assumes D: "field_data D"
  shows "polys_ok D"
  unfolding polys_ok_def
proof (intro ballI impI)
  fix ff assume ff: "ff \<in> {1..NUM_SHORT_FINITE_FIELDS D}" "1 < DEGR_FF D ff"
  then have f: "is_field D ff" by (simp add: is_field_def)
  have "prime_number (CHAR_FF D ff)" "SIZE_FF D ff = CHAR_FF D ff ^ DEGR_FF D ff" "SIZE_FF D ff \<le> 2 ^ 16"
    using field_dataD [OF D f] by blast+
  then show "case pols_loop PolsFF (SIZE_FF D ff) of
      Some a \<Rightarrow> a < SIZE_FF D ff \<and> primitive_poly (CHAR_FF D ff) (DEGR_FF D ff) a | None \<Rightarrow> False"
    using conway_polynomial [of "CHAR_FF D ff" "DEGR_FF D ff"] ff(2) by fastforce
qed

lemma finite_fields_data: "field_data D \<Longrightarrow> finite_fields D"
  by (simp add: finite_fields_def polys_ok_field_data)

lemma finite_fields_ffgen: "2 \<le> M \<Longrightarrow> M \<le> 2 ^ 16 \<Longrightarrow> finite_fields (ffgen M)"
  using ffgen_field_data by (intro finite_fields_data) blast

text \<open>The kernel as it is built: the tables up to 65536.\<close>

interpretation gap_fields: finite_fields "ffgen 65536"
  by (rule finite_fields_ffgen) simp_all

text \<open>The field with 256 elements, the largest that a \<open>Vec8Bit\<close> holds.\<close>

interpretation gf256: primitive_residues 2 8 29
proof unfold_locales
  show prime: "prime_number 2" by code_simp
  show "primitive_poly 2 8 29" using conway_polynomial [OF prime, of 8] by (simp add: PolsFF_def)
qed simp_all


interpretation gf256_digits: residues 2 8 29
  by (rule gf256.residues_axioms)

interpretation gf256_powers: cyclic_field "gf_add 2 8" 0 "Suc 0" "gf_x 2 8 29" "2 ^ 8" "{..<2 ^ 8}"
  by (rule gf256.cyclic)

end
