(* ===== verification/FinFieldSpec.thy ===== *)
theory FinFieldSpec
  imports FinFieldSession FinFieldPrint FinFieldConway
begin

text \<open>
  What the finite fields of the kernel promise, for the tables that \<open>ffgen.c\<close> emits for any largest size up to
  65536, the one the kernel is built with: the polynomials are primitive, the constructors answer generators, the arithmetic is that of the field,
  the order is a linear order, logarithms and conversions are right, what is printed evaluates to the element, and no sequence of calls reads a table entry
  that is not there.
\<close>

subsection \<open>A session for the examples\<close>

definition demo_lib :: fflib where
  "demo_lib =
     \<lparr>TYPE_FFE = (\<lambda>p. 0), TYPE_FFE0 = (\<lambda>p. 0), PrimitiveRootMod = (\<lambda>p. 0),
      SUM_FFE_LARGE = (\<lambda>x y. Inl ''large''), DIFF_FFE_LARGE = (\<lambda>x y. Inl ''large''),
      PROD_FFE_LARGE = (\<lambda>x y. Inl ''large''), QUO_FFE_LARGE = (\<lambda>x y. Inl ''large''),
      LOG_FFE_LARGE = (\<lambda>x y. Inl ''large''), LtOper = (\<lambda>x y. x < y),
      ZOp1 = (\<lambda>q. Inl ''large''), ZOp2 = (\<lambda>p d. Inl ''large'')\<rparr>"

text \<open>The calls \<open>Z(4)\<close> and \<open>Z(16)\<close> in a kernel with the fields up to 16.\<close>

definition demo_Z :: "nat \<Rightarrow> ffstate \<Rightarrow> UInt result \<times> ffstate" where
  "demo_Z q st = the (eval_Z (ffgen 16) demo_lib q st)"

definition demo_x :: UInt where
  "demo_x = projr (fst (demo_Z 4 (InitLibrary (ffgen 16))))"

definition demo_y :: UInt where
  "demo_y = projr (fst (demo_Z 16 (snd (demo_Z 4 (InitLibrary (ffgen 16))))))"

definition demo_st :: ffstate where
  "demo_st = snd (demo_Z 16 (snd (demo_Z 4 (InitLibrary (ffgen 16)))))"

lemma large_results_demo: "large_results demo_lib"
  by (simp add: large_results_def demo_lib_def)

lemma demo_Z_correct:
  assumes st: "tables_ok (ffgen 16) demo_lib st" and q: "0 < d" "2 ^ d \<le> (16::nat)" "2 ^ d \<noteq> (2::nat)"
  shows "\<exists>z st'. demo_Z (2 ^ d) st = (Inr z, st') \<and> tables_ok (ffgen 16) demo_lib st' \<and> extends st st'
    \<and> is_ffe (ffgen 16) st' z \<and> VAL_FFE (ffgen 16) z = 2 \<and> CHAR_FF (ffgen 16) (FLD_FFE (ffgen 16) z) = 2"
proof -
  let ?D = "ffgen 16"
  have F: "finite_fields ?D" by (rule finite_fields_ffgen) simp_all
  have D: "field_data ?D" "MAXSIZE_GF_INTERNAL ?D = 16" by (rule ffgen_field_data; simp)+
  have two: "prime_number 2" by code_simp
  obtain g where g: "is_field ?D g" "SIZE_FF ?D g = 2 ^ d"
    using D two q(1,2) unfolding field_data_def by metis
  have "CHAR_FF ?D g = 2"
    using prime_power_inj(1) [of "CHAR_FF ?D g" 2 "DEGR_FF ?D g" d] finite_fields.fieldD(1-3) [OF F g(1)] two g(2) by simp
  then show ?thesis
    using finite_fields.eval_Z_field [OF F st g(1)] g(2) q(3) by (auto simp: demo_Z_def)
qed

lemma demo:
  "tables_ok (ffgen 16) demo_lib demo_st" "is_ffe (ffgen 16) demo_st demo_x" "is_ffe (ffgen 16) demo_st demo_y"
  "VAL_FFE (ffgen 16) demo_x = 2" "VAL_FFE (ffgen 16) demo_y = 2"
  "CHAR_FF (ffgen 16) (FLD_FFE (ffgen 16) demo_x) = CHAR_FF (ffgen 16) (FLD_FFE (ffgen 16) demo_y)"
proof -
  let ?D = "ffgen 16"
  obtain x st where 1: "demo_Z 4 (InitLibrary ?D) = (Inr x, st)" "tables_ok ?D demo_lib st" "is_ffe ?D st x"
    "VAL_FFE ?D x = 2" "CHAR_FF ?D (FLD_FFE ?D x) = 2"
    using demo_Z_correct [OF tables_ok_init, of 2] by auto
  obtain y st' where 2: "demo_Z 16 st = (Inr y, st')" "tables_ok ?D demo_lib st'" "extends st st'" "is_ffe ?D st' y"
    "VAL_FFE ?D y = 2" "CHAR_FF ?D (FLD_FFE ?D y) = 2"
    using demo_Z_correct [OF 1(2), of 4] by auto
  have "demo_x = x" "demo_y = y" "demo_st = st'" using 1(1) 2(1) by (simp_all add: demo_x_def demo_y_def demo_st_def)
  then show "tables_ok ?D demo_lib demo_st" "is_ffe ?D demo_st demo_x" "is_ffe ?D demo_st demo_y"
    "VAL_FFE ?D demo_x = 2" "VAL_FFE ?D demo_y = 2" "CHAR_FF ?D (FLD_FFE ?D demo_x) = CHAR_FF ?D (FLD_FFE ?D demo_y)"
    using 1 2 is_ffe_extends [OF 1(3) 2(3)] by simp_all
qed

subsection \<open>The fields\<close>

lemma nonzero_powers:
  assumes "primitive_residues p d a"
  shows "(\<lambda>k. (gf_x p d a ^^ k) 1) ` {..<p ^ d - 1} = {1..<p ^ d}"
proof -
  let ?S = "(\<lambda>k. (gf_x p d a ^^ k) (Suc 0)) ` {..<p ^ d - 1}"
  have all: "{..<p ^ d} = insert 0 ?S" by (rule primitive_residues.x_powers [OF assms])
  have "0 \<notin> ?S"
  proof
    assume "0 \<in> ?S"
    then obtain i where i: "0 = (gf_x p d a ^^ i) (Suc 0)" "i \<in> {..<p ^ d - 1}" by (rule imageE)
    show False by (rule notE [OF primitive_residues.x_nonzero [OF assms iffD1 [OF lessThan_iff i(2)]] i(1) [symmetric]])
  qed
  then have "?S = {..<p ^ d} - {0}" unfolding all by (rule Diff_insert_absorb [symmetric])
  also have "\<dots> = {1..<p ^ d}" by auto
  finally show ?thesis by (simp only: One_nat_def)
qed

text \<open>C8: the table of polynomials of \<open>finfield_conway.h\<close> has an entry for every proper prime power up to 65536, and
  the entry is a primitive polynomial: multiplication by \<open>x\<close> modulo it has the order \<open>p ^ d - 1\<close>, so that the
  powers of \<open>x\<close> are all nonzero residues.\<close>

theorem conway_polynomials_primitive:
  assumes "prime_number p" "2 \<le> d" "p ^ d \<le> 2 ^ 16"
  shows "\<exists>a. pols_loop PolsFF (p ^ d) = Some a \<and> a < p ^ d
    \<and> (gf_x p d a ^^ (p ^ d - 1)) 1 = 1 \<and> (\<lambda>k. (gf_x p d a ^^ k) 1) ` {..<p ^ d - 1} = {1..<p ^ d}"
proof -
  obtain a where a: "pols_loop PolsFF (p ^ d) = Some a" "a < p ^ d" "primitive_poly p d a"
    using conway_polynomial [OF assms] by blast
  have "primitive_residues p d a"
    using assms a(3) prime_number_ge_2 by unfold_locales auto
  then show ?thesis using a nonzero_powers by (auto simp: primitive_poly_def)
qed

theorem conway_polynomials_primitive_witness:
  "\<exists>a. pols_loop PolsFF (2 ^ 8) = Some a \<and> a < 2 ^ 8
    \<and> (gf_x 2 8 a ^^ (2 ^ 8 - 1)) 1 = 1 \<and> (\<lambda>k. (gf_x 2 8 a ^^ k) 1) ` {..<2 ^ 8 - 1} = {1..<2 ^ 8}"
proof -
  have "prime_number 2" by code_simp
  then show ?thesis by (rule conway_polynomials_primitive) simp_all
qed

text \<open>C6: for the tables up to any size \<open>M\<close>, \<open>Z(q)\<close> answers a generator of the field with \<open>q\<close> elements if \<open>q\<close> is a
  prime power up to \<open>M\<close>, building the field on the first call; it leaves larger arguments to the library and signals an
  error on the others. \<open>Z(p,d)\<close> does the same for \<open>p ^ d\<close>, although it stops multiplying before the power is complete.\<close>

theorem generators_sound:
  assumes "2 \<le> M" "M \<le> 2 ^ 16" "tables_ok (ffgen M) L st" "valid_intobj w" "valid_intobj w'"
  shows "(\<exists>r st'. FuncZ (ffgen M) L (Some (T_INT w)) st = Some (r, st') \<and> tables_ok (ffgen M) L st' \<and> extends st st'
      \<and> (if int M < INT_INTOBJ w then r = ZOp1 L (T_INT w)
         else if \<exists>p d. prime_number p \<and> 0 < d \<and> INT_INTOBJ w = int (p ^ d)
         then \<exists>z. r = Inr z \<and> is_generator (ffgen M) st' z \<and> int (SIZE_FF (ffgen M) (FLD_FFE (ffgen M) z)) = INT_INTOBJ w
         else r = Inl ''Z: <q> must be a positive prime power''))
    \<and> (\<exists>r st'. FuncZ2 (ffgen M) L (Some (T_INT w)) (Some (T_INT w')) st = Some (r, st') \<and> tables_ok (ffgen M) L st' \<and> extends st st'
      \<and> (if \<not> (1 < INT_INTOBJ w \<and> 0 < INT_INTOBJ w' \<and> nat (INT_INTOBJ w) ^ nat (INT_INTOBJ w') \<le> M)
         then r = ZOp2 L (Some (T_INT w)) (Some (T_INT w'))
         else if prime_number (nat (INT_INTOBJ w))
         then \<exists>z. r = Inr z \<and> is_generator (ffgen M) st' z \<and> CHAR_FF (ffgen M) (FLD_FFE (ffgen M) z) = nat (INT_INTOBJ w)
                \<and> DEGR_FF (ffgen M) (FLD_FFE (ffgen M) z) = nat (INT_INTOBJ w')
         else r = Inl ''Z: <p> must be a prime''))"
  using finite_fields.FuncZ_correct [OF finite_fields_ffgen [OF assms(1,2)] assms(3,4)]
    finite_fields.FuncZ2_correct [OF finite_fields_ffgen [OF assms(1,2)] assms(3) refl refl, of w w']
  unfolding ffgen_field_data(2) [OF assms(1,2)] prime_power_message_def by (rule conjI)

theorem generators_sound_witness:
  "\<exists>r st'. FuncZ2 (ffgen 16) demo_lib (Some (T_INT (gap_int 2))) (Some (T_INT (gap_int 3))) (InitLibrary (ffgen 16)) = Some (r, st')
    \<and> (\<exists>z. r = Inr z \<and> is_generator (ffgen 16) st' z \<and> CHAR_FF (ffgen 16) (FLD_FFE (ffgen 16) z) = 2
        \<and> DEGR_FF (ffgen 16) (FLD_FFE (ffgen 16) z) = 3)"
proof -
  have i: "valid_intobj (gap_int 2)" "valid_intobj (gap_int 3)" "INT_INTOBJ (gap_int 2) = 2" "INT_INTOBJ (gap_int 3) = 3"
    using finite_fields.gap_int_size [OF finite_fields_ffgen [of 16], of 2] finite_fields.gap_int_size [OF finite_fields_ffgen [of 16], of 3]
    by simp_all
  have "prime_number 2" by code_simp
  then show ?thesis
    using generators_sound [OF _ _ tables_ok_init i(1,2), of 16 demo_lib] i(3,4) by (auto simp del: One_nat_def)
qed

subsection \<open>Arithmetic\<close>

text \<open>The answer of an operation: an element \<open>z\<close> with \<open>Q z\<close> under the condition \<open>C\<close>, and \<open>K\<close> otherwise.\<close>

definition answers :: "ffdata \<Rightarrow> fflib \<Rightarrow> ffstate \<Rightarrow> bool \<Rightarrow> UInt result \<Rightarrow> (UInt \<Rightarrow> bool) \<Rightarrow> (UInt result \<times> ffstate) option \<Rightarrow> bool" where
  "answers D L st C K Q a \<longleftrightarrow>
     (\<exists>r st'. a = Some (r, st') \<and> tables_ok D L st' \<and> extends st st'
        \<and> (if C then \<exists>z. r = Inr z \<and> is_ffe D st' z \<and> Q z else r = K))"

text \<open>C5: sum, difference, product and quotient of two elements are those of the residues in a field of the tables that
  contains both, which the operation builds when needed; the operation is left to the library exactly if there is no such
  field, although the size of the common field is computed with wrap-around. A zero divisor is an error.\<close>

theorem field_arithmetic_sound:
  assumes "2 \<le> M" "M \<le> 2 ^ 16" "tables_ok (ffgen M) L st" "is_ffe (ffgen M) st x" "is_ffe (ffgen M) st y"
  shows "answers (ffgen M) L st (in_common_field (ffgen M) x y) (SUM_FFE_LARGE L x y)
      (related (ffgen M) (\<lambda>g a b c. c = ff_add (ffgen M) g a b) x y) (SumFFEFFE (ffgen M) L x y st)
    \<and> answers (ffgen M) L st (in_common_field (ffgen M) x y) (DIFF_FFE_LARGE L x y)
      (related (ffgen M) (\<lambda>g a b c. ff_add (ffgen M) g c b = a) x y) (DiffFFEFFE (ffgen M) L x y st)
    \<and> answers (ffgen M) L st (in_common_field (ffgen M) x y) (PROD_FFE_LARGE L x y)
      (related (ffgen M) (\<lambda>g a b c. c = ff_mul (ffgen M) g a b) x y) (ProdFFEFFE (ffgen M) L x y st)
    \<and> answers (ffgen M) L st (in_common_field (ffgen M) x y \<and> VAL_FFE (ffgen M) y \<noteq> 0)
      (if in_common_field (ffgen M) x y then Inl zero_divisor else QUO_FFE_LARGE L x y)
      (related (ffgen M) (\<lambda>g a b c. ff_mul (ffgen M) g b c = a) x y) (QuoFFEFFE (ffgen M) L x y st)"
proof -
  note F = finite_fields_ffgen [OF assms(1,2)]
  note ops = finite_fields.SumFFEFFE_correct [OF F assms(3-5)] finite_fields.DiffFFEFFE_correct [OF F assms(3-5)]
    finite_fields.ProdFFEFFE_correct [OF F assms(3-5)]
  have quo: "\<exists>r st'. QuoFFEFFE (ffgen M) L x y st = Some (r, st') \<and> tables_ok (ffgen M) L st' \<and> extends st st'
    \<and> (if in_common_field (ffgen M) x y \<and> VAL_FFE (ffgen M) y \<noteq> 0
       then \<exists>z. r = Inr z \<and> is_ffe (ffgen M) st' z \<and> related (ffgen M) (\<lambda>g a b c. ff_mul (ffgen M) g b c = a) x y z
       else r = (if in_common_field (ffgen M) x y then Inl zero_divisor else QUO_FFE_LARGE L x y))"
    using finite_fields.QuoFFEFFE_correct [OF F assms(3-5)]
    by (cases "in_common_field (ffgen M) x y"; cases "VAL_FFE (ffgen M) y = 0") auto
  show ?thesis unfolding answers_def using ops quo by blast
qed

theorem field_arithmetic_sound_witness:
  "answers (ffgen 16) demo_lib demo_st (in_common_field (ffgen 16) demo_x demo_y) (Inl ''large'')
      (related (ffgen 16) (\<lambda>g a b c. c = ff_add (ffgen 16) g a b) demo_x demo_y) (SumFFEFFE (ffgen 16) demo_lib demo_x demo_y demo_st)"
  using field_arithmetic_sound [OF _ _ demo(1-3)] by (simp add: demo_lib_def)

text \<open>C20: a power with an exponent that is not negative is the iterated product, one with a negative exponent its inverse, and an error
  for 0; the logarithm of \<open>x\<close> to the base \<open>y\<close> is the exponent below the order of the group with \<open>y ^ l = x\<close> in a common field,
  and \<open>fail\<close> exactly if \<open>x\<close> is no power of \<open>y\<close>.\<close>

theorem powers_and_logarithms_sound:
  assumes "2 \<le> M" "M \<le> 2 ^ 16" "tables_ok (ffgen M) L st" "is_ffe (ffgen M) st x" "is_ffe (ffgen M) st y"
  shows "(if INT_INTOBJ n < 0 \<and> ffe_elt (ffgen M) x = 0 then PowFFEInt (ffgen M) st x n = Some (Inl zero_divisor)
      else \<exists>z. PowFFEInt (ffgen M) st x n = Some (Inr z) \<and> result_in (ffgen M) st x z
        \<and> (if 0 \<le> INT_INTOBJ n
           then ffe_elt (ffgen M) z = ff_power (ffgen M) (FLD_FFE (ffgen M) x) (ffe_elt (ffgen M) x) (nat (INT_INTOBJ n))
           else ff_mul (ffgen M) (FLD_FFE (ffgen M) x)
             (ff_power (ffgen M) (FLD_FFE (ffgen M) x) (ffe_elt (ffgen M) x) (nat (- INT_INTOBJ n))) (ffe_elt (ffgen M) z) = 1))
    \<and> (VAL_FFE (ffgen M) x \<noteq> 0 \<longrightarrow> VAL_FFE (ffgen M) y \<noteq> 0 \<longrightarrow>
        (\<exists>res st'. FuncLOG_FFE_DEFAULT (ffgen M) L x y st = Some (res, st') \<and> tables_ok (ffgen M) L st' \<and> extends st st'
          \<and> (if in_common_field (ffgen M) x y
             then \<exists>g v w l. is_field (ffgen M) g \<and> represents (ffgen M) x g v \<and> represents (ffgen M) y g w \<and> res = Inr l
                    \<and> is_log (ffgen M) g (ff_elt (ffgen M) g v) (ff_elt (ffgen M) g w) l
             else res = LOG_FFE_LARGE L x y)))"
  using finite_fields.PowFFEInt_correct [OF finite_fields_ffgen [OF assms(1,2)] assms(3,4)]
    finite_fields.FuncLOG_FFE_DEFAULT_correct [OF finite_fields_ffgen [OF assms(1,2)] assms(3,4) _ assms(5)]
  by (intro conjI impI)

theorem powers_and_logarithms_sound_witness:
  "\<exists>res st'. FuncLOG_FFE_DEFAULT (ffgen 16) demo_lib demo_x demo_y demo_st = Some (res, st')
    \<and> tables_ok (ffgen 16) demo_lib st' \<and> extends demo_st st'"
proof -
  have "VAL_FFE (ffgen 16) demo_x \<noteq> 0" "VAL_FFE (ffgen 16) demo_y \<noteq> 0" using demo(4,5) by simp_all
  then show ?thesis
    using conjunct2 [OF powers_and_logarithms_sound [OF _ _ demo(1-3)]] by auto
qed

text \<open>C22: the eight operations of an element and an integer, the integer on either side, take the residue of the integer
  modulo the characteristic and compute with it as with an element of the field: sum, difference, product and quotient, with an error for
  the division by 0 or by a multiple of the characteristic. \<open>IntFFE\<close> inverts this on the prime field and signals an error on every
  other element.\<close>

theorem integers_and_elements_sound:
  assumes "2 \<le> M" "M \<le> 2 ^ 16" "tables_ok (ffgen M) L st" "is_ffe (ffgen M) st x"
  shows "(\<exists>z. SumFFEInt (ffgen M) st x i = Some (Inr z) \<and> result_in (ffgen M) st x z
        \<and> ffe_elt (ffgen M) z = ff_add (ffgen M) (FLD_FFE (ffgen M) x) (ffe_elt (ffgen M) x) (residue (ffgen M) x i))
    \<and> (\<exists>z. SumIntFFE (ffgen M) st i x = Some (Inr z) \<and> result_in (ffgen M) st x z
        \<and> ffe_elt (ffgen M) z = ff_add (ffgen M) (FLD_FFE (ffgen M) x) (residue (ffgen M) x i) (ffe_elt (ffgen M) x))
    \<and> (\<exists>z. DiffFFEInt (ffgen M) st x i = Some (Inr z) \<and> result_in (ffgen M) st x z
        \<and> ff_add (ffgen M) (FLD_FFE (ffgen M) x) (ffe_elt (ffgen M) z) (residue (ffgen M) x i) = ffe_elt (ffgen M) x)
    \<and> (\<exists>z. DiffIntFFE (ffgen M) st i x = Some (Inr z) \<and> result_in (ffgen M) st x z
        \<and> ff_add (ffgen M) (FLD_FFE (ffgen M) x) (ffe_elt (ffgen M) z) (ffe_elt (ffgen M) x) = residue (ffgen M) x i)
    \<and> (\<exists>z. ProdFFEInt (ffgen M) st x i = Some (Inr z) \<and> result_in (ffgen M) st x z
        \<and> ffe_elt (ffgen M) z = ff_mul (ffgen M) (FLD_FFE (ffgen M) x) (ffe_elt (ffgen M) x) (residue (ffgen M) x i))
    \<and> (\<exists>z. ProdIntFFE (ffgen M) st i x = Some (Inr z) \<and> result_in (ffgen M) st x z
        \<and> ffe_elt (ffgen M) z = ff_mul (ffgen M) (FLD_FFE (ffgen M) x) (residue (ffgen M) x i) (ffe_elt (ffgen M) x))
    \<and> (if residue (ffgen M) x i = 0 then QuoFFEInt (ffgen M) st x i = Some (Inl zero_divisor)
       else \<exists>z. QuoFFEInt (ffgen M) st x i = Some (Inr z) \<and> result_in (ffgen M) st x z
         \<and> ff_mul (ffgen M) (FLD_FFE (ffgen M) x) (residue (ffgen M) x i) (ffe_elt (ffgen M) z) = ffe_elt (ffgen M) x)
    \<and> (if VAL_FFE (ffgen M) x = 0 then QuoIntFFE (ffgen M) st i x = Some (Inl zero_divisor)
       else \<exists>z. QuoIntFFE (ffgen M) st i x = Some (Inr z) \<and> result_in (ffgen M) st x z
         \<and> ff_mul (ffgen M) (FLD_FFE (ffgen M) x) (ffe_elt (ffgen M) x) (ffe_elt (ffgen M) z) = residue (ffgen M) x i)
    \<and> (\<exists>st'. FuncINT_FFE_DEFAULT (ffgen M) x st
        = Some (if ffe_elt (ffgen M) x < CHAR_FF (ffgen M) (FLD_FFE (ffgen M) x) then Inr (INTOBJ_INT (int (ffe_elt (ffgen M) x)))
                else Inl ''IntFFE: <z> must lie in prime field'', st')
        \<and> tables_ok (ffgen M) L st' \<and> extends st st')"
proof -
  note F = finite_fields_ffgen [OF assms(1,2)]
  show ?thesis
    by (intro conjI finite_fields.mixed_sum [OF F assms(3,4)] finite_fields.mixed_diff [OF F assms(3,4)]
        finite_fields.mixed_prod [OF F assms(3,4)] finite_fields.mixed_quo [OF F assms(3,4)]
        finite_fields.FuncINT_FFE_DEFAULT_correct [OF F assms(3,4)])
qed

theorem integers_and_elements_sound_witness:
  "\<exists>z. SumFFEInt (ffgen 16) demo_st demo_x (gap_int 1) = Some (Inr z) \<and> result_in (ffgen 16) demo_st demo_x z"
  using conjunct1 [OF integers_and_elements_sound [OF _ _ demo(1,2), of "gap_int 1"]] by auto

subsection \<open>Order and printing\<close>

text \<open>C21: \<open>EqFFE\<close> and \<open>LtFFE\<close> decide a linear order of the elements of one characteristic, whatever fields they are
  written in: by the size of the smallest field that contains the element, then by the exponent there. Two elements
  are equal if they are the same power of the generators, that is the same fraction of the orders of the groups.\<close>

theorem element_order_sound:
  assumes "2 \<le> M" "M \<le> 2 ^ 16" "is_ffe (ffgen M) st x" "is_ffe (ffgen M) st y"
    "CHAR_FF (ffgen M) (FLD_FFE (ffgen M) x) = CHAR_FF (ffgen M) (FLD_FFE (ffgen M) y)"
  shows "EqFFE (ffgen M) x y = Some (same_element (ffgen M) x y)
    \<and> LtFFE (ffgen M) L x y = Some (key_less (element_key (ffgen M) x) (element_key (ffgen M) y))
    \<and> (LtFFE (ffgen M) L x y = Some True \<longleftrightarrow> EqFFE (ffgen M) x y = Some False \<and> LtFFE (ffgen M) L y x = Some False)"
proof -
  note F = finite_fields_ffgen [OF assms(1,2)]
  have "key_less (element_key (ffgen M) x) (element_key (ffgen M) y)
      \<longleftrightarrow> element_key (ffgen M) x \<noteq> element_key (ffgen M) y \<and> \<not> key_less (element_key (ffgen M) y) (element_key (ffgen M) x)"
    by (auto simp: key_less_def prod_eq_iff)
  then show ?thesis
    using finite_fields.EqFFE_correct [OF F assms(3,4)] finite_fields.same_element_iff [OF F assms(3-5)]
      finite_fields.LtFFE_correct [OF F assms(3-5)] finite_fields.LtFFE_correct [OF F assms(4,3) assms(5) [symmetric]]
    by simp
qed

theorem element_order_sound_witness:
  "EqFFE (ffgen 16) demo_x demo_y = Some (same_element (ffgen 16) demo_x demo_y)
    \<and> (LtFFE (ffgen 16) demo_lib demo_x demo_y = Some True
       \<longleftrightarrow> EqFFE (ffgen 16) demo_x demo_y = Some False \<and> LtFFE (ffgen 16) demo_lib demo_y demo_x = Some False)"
proof -
  have "(2::nat) \<le> 16" "(16::nat) \<le> 2 ^ 16" by simp_all
  from element_order_sound [OF this demo(2,3,6), of demo_lib] show ?thesis by blast
qed

text \<open>C19: what \<open>PrFFE\<close> prints, read as a GAP expression and evaluated by \<open>Z\<close> and the power of an element, is an
  element equal to the one printed, in its smallest field.\<close>

theorem element_print_round_trip:
  assumes "2 \<le> M" "M \<le> 2 ^ 16" "tables_ok (ffgen M) L st" "is_ffe (ffgen M) st x"
  shows "\<exists>calls y st'. PrFFE (ffgen M) x = Some calls \<and> eval_printed (ffgen M) L calls st = Some (Inr y, st')
    \<and> is_ffe (ffgen M) st' y \<and> EqFFE (ffgen M) x y = Some True"
proof -
  note F = finite_fields_ffgen [OF assms(1,2)]
  obtain calls y st' where y: "PrFFE (ffgen M) x = Some calls" "eval_printed (ffgen M) L calls st = Some (Inr y, st')"
    "is_ffe (ffgen M) st' y" "same_element (ffgen M) x y" "extends st st'"
    using finite_fields.PrFFE_roundtrip [OF F assms(3,4)] by blast
  then show ?thesis using finite_fields.EqFFE_correct [OF F is_ffe_extends [OF assms(4) y(5)] y(3)] by auto
qed

theorem element_print_round_trip_witness:
  "\<exists>calls y st'. PrFFE (ffgen 16) demo_y = Some calls \<and> eval_printed (ffgen 16) demo_lib calls demo_st = Some (Inr y, st')
    \<and> is_ffe (ffgen 16) st' y \<and> EqFFE (ffgen 16) demo_y y = Some True"
  by (rule element_print_round_trip [OF _ _ demo(1,3)]) simp_all

subsection \<open>Safety\<close>

text \<open>C7: after any sequence of calls from the start of the kernel, any further call on handles it has answered
  returns: its loops end and it reads only entries that are bound; the tables stay right, the successor table of a field is never
  replaced, and the handles answered are elements of fields whose tables are built.\<close>

theorem finite_field_sessions_safe:
  assumes "2 \<le> M" "M \<le> 2 ^ 16" "large_results L" "session (ffgen M) L st H" "call_ok H c"
  shows "\<exists>r st'. run_call (ffgen M) L c st = Some (r, st') \<and> tables_ok (ffgen M) L st' \<and> extends st st'
    \<and> (\<forall>z\<in>H \<union> new_handles r. is_ffe (ffgen M) st' z)"
proof -
  note F = finite_fields_ffgen [OF assms(1,2)]
  have inv: "tables_ok (ffgen M) L st" "\<And>x. x \<in> H \<Longrightarrow> is_ffe (ffgen M) st x"
    using finite_fields.session_invariant [OF F assms(3,4)] by blast+
  have "safe_answer (ffgen M) L st (run_call (ffgen M) L c st)"
    by (rule finite_fields.run_call_safe [OF F assms(3) inv assms(5)])
  then obtain r st' where r: "run_call (ffgen M) L c st = Some (r, st')" "tables_ok (ffgen M) L st'" "extends st st'"
    "\<forall>z\<in>new_handles r. is_ffe (ffgen M) st' z" by (auto simp: safe_answer_def split: option.splits)
  then show ?thesis using is_ffe_extends [OF inv(2) r(3)] by blast
qed

theorem finite_field_sessions_safe_witness:
  "\<exists>r st'. run_call (ffgen 16) demo_lib (Gen (gap_int 4)) (InitLibrary (ffgen 16)) = Some (r, st')
    \<and> tables_ok (ffgen 16) demo_lib st' \<and> (\<forall>z\<in>new_handles r. is_ffe (ffgen 16) st' z)"
proof -
  have "call_ok {} (Gen (gap_int 4))"
    using finite_fields.gap_int_size [OF finite_fields_ffgen [of 16], of 4] by (simp add: call_ok_def)
  then show ?thesis
    using finite_field_sessions_safe [OF _ _ large_results_demo session.start, of 16 "Gen (gap_int 4)"] by auto
qed

end
